(* ===== verification/Prelude.thy ===== *)
theory Prelude
  imports Main "HOL-Library.Word"
begin

text \<open>
  What every component of the C runtime library shares: the machine types (LP64: \<open>long\<close> is
  64 bits, \<open>int\<close> is 32 bits, \<open>char\<close> is a signed byte), the way a C routine can stop
  (\<open>longjmp\<close>, \<open>exit\<close>, undefined behaviour), the state-and-stop programs the routines are
  translated to, the simulation relation between a program on a concrete buffer and the same program
  on an abstract one, and lemmas on big-endian byte strings.
\<close>

unbundle bit_operations_syntax

section \<open>Machine types\<close>

type_synonym byte = "8 word"
type_synonym ulong = "64 word"
type_synonym AsnLen = ulong
type_synonym AsnTag = "32 word"

section \<open>Programs with a state that may stop\<close>

text \<open>
  A routine returns a value, or leaves by \<open>longjmp (env, n)\<close>, or ends the process by
  \<open>exit (n)\<close>, or does something the C standard leaves undefined (an access outside an object);
  \<open>NoFuel\<close> is the artefact of a loop bound of the model and no behaviour of the code.
\<close>

datatype stop = LongJmp int | Exit int | Fault | NoFuel

type_synonym ('s, 'a) prog = "'s \<Rightarrow> (stop + 'a) \<times> 's"

definition returnP :: "'a \<Rightarrow> ('s, 'a) prog" where
  "returnP a = (\<lambda>s. (Inr a, s))"

definition stopP :: "stop \<Rightarrow> ('s, 'a) prog" where
  "stopP e = (\<lambda>s. (Inl e, s))"

definition bindP :: "('s, 'a) prog \<Rightarrow> ('a \<Rightarrow> ('s, 'b) prog) \<Rightarrow> ('s, 'b) prog" where
  "bindP m f = (\<lambda>s. case m s of (Inl e, s') \<Rightarrow> (Inl e, s') | (Inr a, s') \<Rightarrow> f a s')"

abbreviation thenP :: "('s, 'a) prog \<Rightarrow> ('s, 'b) prog \<Rightarrow> ('s, 'b) prog" where
  "thenP m k \<equiv> bindP m (\<lambda>_. k)"

abbreviation longjmp :: "int \<Rightarrow> ('s, 'a) prog" where
  "longjmp n \<equiv> stopP (LongJmp n)"

named_theorems prog_simps \<open>running programs\<close>

declare Let_def [prog_simps]

lemma returnP_run [prog_simps]: "returnP a s = (Inr a, s)"
  by (simp add: returnP_def)

lemma stopP_run [prog_simps]: "stopP e s = (Inl e, s)"
  by (simp add: stopP_def)

lemma bindP_run [prog_simps]:
  "bindP m f s = (case m s of (Inl e, s') \<Rightarrow> (Inl e, s') | (Inr a, s') \<Rightarrow> f a s')"
  by (simp add: bindP_def)

lemma bindP_Inr: "m s = (Inr a, s') \<Longrightarrow> bindP m f s = f a s'"
  by (simp add: bindP_def)

lemma bindP_Inl: "m s = (Inl e, s') \<Longrightarrow> bindP m f s = (Inl e, s')"
  by (simp add: bindP_def)

lemma bindP_assoc: "bindP (bindP m f) h = bindP m (\<lambda>x. bindP (f x) h)"
  by (auto simp: bindP_def fun_eq_iff split: prod.split sum.split)

lemma bindP_cong [fundef_cong]:
  assumes "m s = m' s" and "\<And>a s'. m' s = (Inr a, s') \<Longrightarrow> f a s' = f' a s'"
  shows "bindP m f s = bindP m' f' s"
  using assms by (simp add: bindP_def split: prod.split sum.split)

section \<open>Simulation\<close>

text \<open>
  \<open>sim I v R m m'\<close>: from every concrete state that satisfies the invariant \<open>I\<close>, the
  program \<open>m\<close> stops as \<open>m'\<close> does on the abstract state \<open>v b\<close>, with results related
  by \<open>R\<close>, in a state that satisfies \<open>I\<close> again and whose abstraction is the state of
  \<open>m'\<close>. With one rule per program construct, the simulation of a whole decoder follows by
  applying the rules of the collection.
\<close>

definition sim ::
  "('b \<Rightarrow> bool) \<Rightarrow> ('b \<Rightarrow> 'v) \<Rightarrow> ('x \<Rightarrow> 'y \<Rightarrow> bool) \<Rightarrow> ('b, 'x) prog \<Rightarrow> ('v, 'y) prog \<Rightarrow> bool" where
  "sim I v R m m' \<longleftrightarrow>
     (\<forall>b. I b \<longrightarrow> I (snd (m b)) \<and> snd (m' (v b)) = v (snd (m b)) \<and>
        rel_sum (=) R (fst (m b)) (fst (m' (v b))))"

named_theorems sim_intros \<open>simulation rules\<close>

lemma sim_return [sim_intros]: "R x y \<Longrightarrow> sim I v R (returnP x) (returnP y)"
  by (simp add: sim_def returnP_def)

lemma sim_stop [sim_intros]: "sim I v R (stopP e) (stopP e)"
  by (simp add: sim_def stopP_def)

lemma sim_bind:
  assumes "sim I v S m m'" and "\<And>x y. S x y \<Longrightarrow> sim I v R (f x) (f' y)"
  shows "sim I v R (bindP m f) (bindP m' f')"
  unfolding sim_def
proof (intro allI impI)
  fix b assume b: "I b"
  obtain r c where m: "m b = (r, c)" by (cases "m b")
  obtain r' c' where m': "m' (v b) = (r', c')" by (cases "m' (v b)")
  from assms(1) b have c: "I c" "c' = v c" and r: "rel_sum (=) S r r'"
    by (auto simp: sim_def m m' dest!: spec [of _ b])
  from r show "I (snd (bindP m f b)) \<and> snd (bindP m' f' (v b)) = v (snd (bindP m f b)) \<and>
      rel_sum (=) R (fst (bindP m f b)) (fst (bindP m' f' (v b)))"
  proof cases
    case (1 a a')
    with c show ?thesis by (simp add: bindP_def m m')
  next
    case (2 x y)
    then have "sim I v R (f x) (f' y)" using assms(2) by blast
    with 2 c show ?thesis by (simp add: bindP_def m m' sim_def)
  qed
qed

lemma sim_bind_eq [sim_intros]:
  assumes "sim I v (=) m m'" and "\<And>x. sim I v R (f x) (f' x)"
  shows "sim I v R (bindP m f) (bindP m' f')"
  using assms(1) by (rule sim_bind) (simp add: assms(2))

lemma sim_if [sim_intros]:
  assumes "c \<Longrightarrow> sim I v R m m'" and "\<not> c \<Longrightarrow> sim I v R n n'"
  shows "sim I v R (if c then m else n) (if c then m' else n')"
  using assms by simp

lemma sim_let [sim_intros]:
  "(\<And>x. sim I v R (f x) (f' x)) \<Longrightarrow> sim I v R (let x = t in f x) (let x = t in f' x)"
  by simp

lemma sim_case_prod [sim_intros]:
  "(\<And>x y. sim I v R (f x y) (f' x y)) \<Longrightarrow>
     sim I v R (case p of (x, y) \<Rightarrow> f x y) (case p of (x, y) \<Rightarrow> f' x y)"
  by (cases p) simp

lemma simI:
  assumes "\<And>b. I b \<Longrightarrow> \<exists>x c y. m b = (x, c) \<and> m' (v b) = (y, v c) \<and> I c \<and> rel_sum (=) R x y"
  shows "sim I v R m m'"
  unfolding sim_def using assms by fastforce

lemma sim_run:
  assumes "sim I v (=) m m'" and "I b" and "m' (v b) = (r, s)"
  obtains c where "m b = (r, c)" and "I c" and "v c = s"
  using assms by (auto simp: sim_def rel_sum.simps split: sum.splits dest!: spec [of _ b])
    (metis prod.collapse sum.exhaust_sel sum.rel_eq)+

lemma sim_fst:
  assumes "sim I v (=) m m'" and "I b"
  shows "fst (m b) = fst (m' (v b))"
  using assms by (simp add: sim_def sum.rel_eq)

lemma sim_inv: "sim I v R m m' \<Longrightarrow> I b \<Longrightarrow> I (snd (m b))"
  by (simp add: sim_def)

lemma sim_snd: "sim I v R m m' \<Longrightarrow> I b \<Longrightarrow> v (snd (m b)) = snd (m' (v b))"
  by (simp add: sim_def)

text \<open>
  The contract of a reader is limited to lengths that fit an \<open>int\<close>: outside of it the abstract
  program is left undefined (\<open>Fault\<close>), and \<open>refines\<close> claims nothing of the concrete one.
  \<open>refines\<close> is \<open>sim\<close> wherever the abstract program does not end in a \<open>Fault\<close>.
\<close>

definition refines ::
  "('b \<Rightarrow> bool) \<Rightarrow> ('b \<Rightarrow> 'v) \<Rightarrow> ('x \<Rightarrow> 'y \<Rightarrow> bool) \<Rightarrow> ('b, 'x) prog \<Rightarrow> ('v, 'y) prog \<Rightarrow> bool" where
  "refines I v R m m' \<longleftrightarrow>
     (\<forall>b. I b \<and> fst (m' (v b)) \<noteq> Inl Fault \<longrightarrow>
        I (snd (m b)) \<and> snd (m' (v b)) = v (snd (m b)) \<and> rel_sum (=) R (fst (m b)) (fst (m' (v b))))"

named_theorems refines_intros \<open>refinement rules\<close>

lemma refines_sim: "sim I v R m m' \<Longrightarrow> refines I v R m m'"
  by (simp add: refines_def sim_def)

lemma refines_return [refines_intros]: "R x y \<Longrightarrow> refines I v R (returnP x) (returnP y)"
  by (simp add: refines_def returnP_def)

lemma refines_stop [refines_intros]: "refines I v R (stopP e) (stopP e)"
  by (simp add: refines_def stopP_def)

lemma refines_fault: "refines I v R m (stopP Fault)"
  by (simp add: refines_def stopP_def)

lemma refines_bind:
  assumes "refines I v S m m'" and "\<And>x y. S x y \<Longrightarrow> refines I v R (f x) (f' y)"
  shows "refines I v R (bindP m f) (bindP m' f')"
  unfolding refines_def
proof (intro allI impI, elim conjE)
  fix b assume b: "I b" and nf: "fst (bindP m' f' (v b)) \<noteq> Inl Fault"
  obtain r c where m: "m b = (r, c)" by (cases "m b")
  obtain r' c' where m': "m' (v b) = (r', c')" by (cases "m' (v b)")
  have "r' \<noteq> Inl Fault" using nf by (auto simp: bindP_def m')
  with assms(1) b have c: "I c" "c' = v c" and r: "rel_sum (=) S r r'"
    by (auto simp: refines_def m m' dest!: spec [of _ b])
  from r show "I (snd (bindP m f b)) \<and> snd (bindP m' f' (v b)) = v (snd (bindP m f b)) \<and>
      rel_sum (=) R (fst (bindP m f b)) (fst (bindP m' f' (v b)))"
  proof cases
    case (1 a a')
    with c show ?thesis by (simp add: bindP_def m m')
  next
    case (2 x y)
    then have "refines I v R (f x) (f' y)" using assms(2) by blast
    with 2 c nf show ?thesis by (simp add: bindP_def m m' refines_def)
  qed
qed

lemma refines_bind_eq [refines_intros]:
  assumes "refines I v (=) m m'" and "\<And>x. refines I v R (f x) (f' x)"
  shows "refines I v R (bindP m f) (bindP m' f')"
  using assms(1) by (rule refines_bind) (simp add: assms(2))

lemma refines_if [refines_intros]:
  assumes "c \<Longrightarrow> refines I v R m m'" and "\<not> c \<Longrightarrow> refines I v R n n'"
  shows "refines I v R (if c then m else n) (if c then m' else n')"
  using assms by simp

lemma refines_let [refines_intros]:
  "(\<And>x. refines I v R (f x) (f' x)) \<Longrightarrow> refines I v R (let x = t in f x) (let x = t in f' x)"
  by simp

lemma refines_case_prod [refines_intros]:
  "(\<And>x y. refines I v R (f x y) (f' x y)) \<Longrightarrow>
     refines I v R (case p of (x, y) \<Rightarrow> f x y) (case p of (x, y) \<Rightarrow> f' x y)"
  by (cases p) simp

lemma refines_run:
  assumes "refines I v (=) m m'" and "I b" and "m' (v b) = (r, s)" and "r \<noteq> Inl Fault"
  obtains c where "m b = (r, c)" and "I c" and "v c = s"
proof -
  from assms have "I (snd (m b))" "s = v (snd (m b))" "fst (m b) = r"
    by (auto simp: refines_def sum.rel_eq dest!: spec [of _ b])
  then show thesis using that by (metis prod.collapse)
qed

text \<open>A computation that does not touch the state.\<close>

definition liftP :: "stop + 'a \<Rightarrow> ('s, 'a) prog" where
  "liftP r = (\<lambda>s. (r, s))"

lemma liftP_run [prog_simps]: "liftP r s = (r, s)"
  by (simp add: liftP_def)

lemma bindP_lift [simp]: "bindP (liftP (Inr x)) f = f x" "bindP (liftP (Inl e)) f = stopP e"
  by (simp_all add: bindP_def liftP_def stopP_def)

lemma sim_lift [sim_intros]: "sim I v (=) (liftP r) (liftP r)"
  by (simp add: sim_def liftP_def sum.rel_eq)

lemma refines_lift [refines_intros]: "refines I v (=) (liftP r) (liftP r)"
  by (simp add: refines_def liftP_def sum.rel_eq)

section \<open>Big-endian byte strings\<close>

definition be_val :: "byte list \<Rightarrow> 'a::len word" where
  "be_val xs = foldl (\<lambda>a x. push_bit 8 a OR ucast x) 0 xs"

fun be_bytes :: "nat \<Rightarrow> 'a::len word \<Rightarrow> byte list" where
  "be_bytes 0 w = []"
| "be_bytes (Suc n) w = be_bytes n (drop_bit 8 w) @ [ucast w]"

lemma be_val_Nil [simp]: "be_val [] = 0"
  by (simp add: be_val_def)

lemma be_val_snoc: "be_val (xs @ [x]) = push_bit 8 (be_val xs) OR ucast x"
  by (simp add: be_val_def)

lemma length_be_bytes [simp]: "length (be_bytes n w) = n"
  by (induction n arbitrary: w) simp_all

lemma be_val_be_bytes: "be_val (be_bytes n w) = take_bit (8 * n) (w :: 'a::len word)"
proof (induction n arbitrary: w)
  case 0
  then show ?case by simp
next
  case (Suc n)
  have "be_val (be_bytes (Suc n) w) = push_bit 8 (take_bit (8 * n) (drop_bit 8 w)) OR ucast (ucast w :: byte)"
    by (simp add: be_val_snoc Suc.IH)
  also have "\<dots> = take_bit (8 * Suc n) w"
    by (rule bit_word_eqI)
      (auto simp: bit_simps not_less dest: less_or_eq_imp_le)
  finally show ?case .
qed

lemma unat_drop_bit_div: "unat (drop_bit n j) = unat (j :: 'a::len word) div 2 ^ n"
  by (simp only: unat_drop_bit_eq) (rule drop_bit_eq_div)

lemma unat_drop_bit_less: "j \<noteq> 0 \<Longrightarrow> 0 < n \<Longrightarrow> unat (drop_bit n j) < unat (j :: 'a::len word)"
  unfolding unat_drop_bit_div by (intro div_less_dividend one_less_power) (simp_all add: unat_gt_0)

lemma unat_ucast_up [simp]:
  assumes "LENGTH('a) \<le> LENGTH('b)"
  shows "unat (ucast (x :: 'a::len word) :: 'b::len word) = unat x"
proof -
  have "unat x < 2 ^ LENGTH('b)"
    by (rule order_less_le_trans [OF unsigned_less power_increasing]) (use assms in simp_all)
  then show ?thesis by (simp add: unsigned_ucast_eq take_bit_nat_eq_self)
qed

lemma uint_ucast_up: "LENGTH('a) \<le> LENGTH('b) \<Longrightarrow> uint (ucast (x :: 'a::len word) :: 'b::len word) = uint x"
  by (metis of_nat_unat unat_ucast_up)

lemma unat_of_nat_small: "n < 2 ^ 64 \<Longrightarrow> unat (of_nat n :: ulong) = n"
  by (simp add: unsigned_of_nat take_bit_nat_eq_self)

lemma unat_add_of_nat:
  assumes "unat a + n < 2 ^ 64"
  shows "unat (a + of_nat n :: ulong) = unat a + n"
proof -
  have "a + of_nat n = of_nat (unat a + n)" by simp
  then show ?thesis using unat_of_nat_small [OF assms] by metis
qed

lemma take_bit_small: "unat w < 2 ^ n \<Longrightarrow> take_bit n w = (w :: 'a::len word)"
  by (simp add: word_unat_eq_iff unsigned_take_bit_eq take_bit_nat_eq_self)

lemma not_bit_above: "unat w < 2 ^ k \<Longrightarrow> k \<le> n \<Longrightarrow> \<not> bit (w :: 'a::len word) n"
  by (metis take_bit_small bit_take_bit_iff not_le)

section \<open>Two's complement octets\<close>

text \<open>The big-endian octets of an integer, and the integer that octets of two's complement denote.\<close>

fun tc_bytes :: "nat \<Rightarrow> int \<Rightarrow> byte list" where
  "tc_bytes 0 i = []"
| "tc_bytes (Suc n) i = tc_bytes n (i div 256) @ [word_of_int i]"

fun tc_val :: "byte list \<Rightarrow> int" where
  "tc_val [] = 0"
| "tc_val (x # xs) = foldl (\<lambda>a y. 256 * a + uint y) (sint x) xs"

lemma length_tc_bytes [simp]: "length (tc_bytes n i) = n"
  by (induction n arbitrary: i) simp_all

lemma tc_val_snoc: "xs \<noteq> [] \<Longrightarrow> tc_val (xs @ [x]) = 256 * tc_val xs + uint x"
  by (cases xs) simp_all

lemma tc_val_tc_bytes:
  assumes "- (2 ^ (8 * n + 7)) \<le> i" and "i < 2 ^ (8 * n + 7)"
  shows "tc_val (tc_bytes (Suc n) i) = i"
  using assms
proof (induction n arbitrary: i)
  case 0
  then show ?case
    by (simp add: signed_of_int signed_take_bit_int_eq_self)
next
  case (Suc n)
  have b: "- (2 ^ (8 * n + 7)) \<le> i div 256" "i div 256 < 2 ^ (8 * n + 7)"
    using Suc.prems by (auto simp: power_add)
  have "tc_val (tc_bytes (Suc (Suc n)) i) = 256 * tc_val (tc_bytes (Suc n) (i div 256)) + uint (word_of_int i :: byte)"
    unfolding tc_bytes.simps(2) [of "Suc n"] by (rule tc_val_snoc) simp
  also have "\<dots> = 256 * (i div 256) + i mod 256"
    by (simp only: Suc.IH [OF b]) (simp add: unsigned_of_int take_bit_eq_mod)
  finally show ?case by simp
qed

lemma foldl_octets_of_int:
  "foldl (\<lambda>a x. push_bit 8 a OR ucast x) (word_of_int i) (xs :: byte list) =
     (word_of_int (foldl (\<lambda>a y. 256 * a + uint y) i xs) :: 'a::len word)"
  if "8 \<le> LENGTH('a)"
proof (induction xs arbitrary: i)
  case (Cons x xs)
  have "push_bit 8 w OR ucast x = 256 * w + (ucast x :: 'a word)" for w
  proof -
    have "push_bit 8 w AND (ucast x :: 'a word) = 0"
      by (rule bit_word_eqI) (auto simp: bit_simps dest: bit_imp_le_length)
    then have "push_bit 8 w OR (ucast x :: 'a word) = push_bit 8 w + ucast x"
      by (simp flip: disjunctive_add_eq_or)
    then show ?thesis by (simp add: push_bit_eq_mult)
  qed
  moreover have "256 * word_of_int i + (ucast x :: 'a word) = word_of_int (256 * i + uint x)"
    by (simp only: ucast_eq of_int_add of_int_mult of_int_numeral)
  ultimately show ?case by (simp only: foldl.simps Cons.IH)
qed simp

text \<open>Words are equal when they agree on each of their bits, listed.\<close>

lemma byte_bit_above: "8 \<le> n \<Longrightarrow> \<not> bit (w :: byte) n"
  using bit_imp_le_length [of w n] by auto

lemma byte_eqI:
  assumes "\<forall>n \<in> set [0, 1, 2, 3, 4, 5, 6, 7]. bit a n = bit (b :: byte) n"
  shows "a = b"
proof (rule bit_word_eqI)
  fix n assume "n < LENGTH(8)"
  then have "n \<in> set [0..<8]" by simp
  also have "set [0..<8] = set [0, 1, 2, 3, 4, 5, 6, 7]" by code_simp
  finally show "bit a n = bit b n" using assms by blast
qed

lemma bit_byte_7: "bit c 7 \<longleftrightarrow> \<not> unat (c :: byte) < 128"
proof
  show "\<not> unat c < 128" if "bit c 7" using that not_bit_above [of c 7 7] by auto
  show "bit c 7" if "\<not> unat c < 128"
  proof (rule ccontr)
    assume "\<not> bit c 7"
    then have "take_bit 7 c = c" by (intro byte_eqI) (simp add: bit_simps)
    then have "unat c < 2 ^ 7" by (metis unsigned_take_bit_eq take_bit_nat_less_exp)
    with that show False by simp
  qed
qed

lemma unat_byte_less: "unat (c :: byte) < 256"
  using unsigned_less [of c] by simp

lemma word32_eqI:
  assumes "\<forall>n \<in> set [0, 1, 2, 3, 4, 5, 6, 7, 8, 9, 10, 11, 12, 13, 14, 15, 16, 17, 18, 19, 20, 21,
      22, 23, 24, 25, 26, 27, 28, 29, 30, 31].
    bit a n = bit (b :: 32 word) n"
  shows "a = b"
proof (rule bit_word_eqI)
  fix n assume "n < LENGTH(32)"
  then have "n \<in> set [0..<32]" by simp
  also have "set [0..<32] = set [0, 1, 2, 3, 4, 5, 6, 7, 8, 9, 10, 11, 12, 13, 14, 15, 16, 17, 18, 19, 20, 21,
      22, 23, 24, 25, 26, 27, 28, 29, 30, 31]"
    by code_simp
  finally show "bit a n = bit b n" using assms by blast
qed

lemma be_val_small: "unat w < 2 ^ (8 * n) \<Longrightarrow> be_val (be_bytes n w) = (w :: 'a::len word)"
  by (simp add: be_val_be_bytes take_bit_small)

section \<open>Memory blocks and casts\<close>

text \<open>A read inside a block of memory; outside of it the behaviour is undefined.\<close>

definition mem_read :: "byte list \<Rightarrow> nat \<Rightarrow> stop + byte" where
  "mem_read blk i = (if i < length blk then Inr (blk ! i) else Inl Fault)"

definition mem_slice :: "byte list \<Rightarrow> nat \<Rightarrow> nat \<Rightarrow> stop + byte list" where
  "mem_slice blk i n = (if i + n \<le> length blk then Inr (take n (drop i blk)) else Inl Fault)"

text \<open>\<open>memcpy\<close> into a block at an offset (the caller checks the bounds).\<close>

definition mem_put :: "byte list \<Rightarrow> nat \<Rightarrow> byte list \<Rightarrow> byte list" where
  "mem_put blk i xs = take i blk @ xs @ drop (i + length xs) blk"

lemma length_mem_put [simp]: "i + length xs \<le> length blk \<Longrightarrow> length (mem_put blk i xs) = length blk"
  by (simp add: mem_put_def)

lemma drop_mem_put [simp]: "i + length xs \<le> length blk \<Longrightarrow>
    drop i (mem_put blk i xs) = xs @ drop (i + length xs) blk"
  by (simp add: mem_put_def)

lemma mem_put_mem_put:
  assumes "i + length xs + length ys \<le> length blk"
  shows "mem_put (mem_put blk i xs) (i + length xs) ys = mem_put blk i (xs @ ys)"
  using assms by (cases xs) (auto simp: mem_put_def min_def add_ac)

lemma take_window_split:
  assumes "i + n \<le> e"
  shows "take (e - i) (drop i xs) = take n (drop i xs) @ take (e - (i + n)) (drop (i + n) xs)"
proof -
  have "e - i = n + (e - (i + n))" using assms by simp
  then show ?thesis by (metis take_add drop_drop add.commute)
qed

text \<open>\<open>memcpy\<close> into an allocated block, whose bounds nothing checks.\<close>

definition blk_write :: "byte list \<Rightarrow> nat \<Rightarrow> byte list \<Rightarrow> stop + byte list" where
  "blk_write blk i xs = (if i + length xs \<le> length blk then Inr (mem_put blk i xs) else Inl Fault)"

text \<open>The C casts \<open>(long) x\<close> and \<open>(int) x\<close> of an unsigned long.\<close>

definition to_long :: "ulong \<Rightarrow> int" where
  "to_long x = sint x"

definition to_int :: "ulong \<Rightarrow> int" where
  "to_int x = sint (ucast x :: 32 word)"

lemma sint_small:
  assumes "unat (x :: 'a::len word) < 2 ^ (LENGTH('a) - 1)"
  shows "sint x = int (unat x)"
proof -
  have "int (unat x) < int (2 ^ (LENGTH('a) - 1))"
    using assms by (simp only: of_nat_less_iff)
  then have u: "uint x < 2 ^ (LENGTH('a) - Suc 0)" by simp
  have "sint x = signed_take_bit (LENGTH('a) - Suc 0) (uint x)" by (rule sint_uint)
  also have "\<dots> = uint x"
    by (rule signed_take_bit_int_eq_self [OF _ u]) (rule order_trans [OF _ uint_ge_0], simp)
  finally show ?thesis by simp
qed

lemma to_long_small: "unat x < 2 ^ 63 \<Longrightarrow> to_long x = int (unat x)"
  by (simp add: to_long_def sint_small)

lemma to_long_nonneg: "0 \<le> to_long x \<Longrightarrow> to_long x = int (unat x)"
proof -
  assume "0 \<le> to_long x"
  then have "take_bit 64 (sint x) = sint x"
    using sint_lt [of x] by (simp add: to_long_def take_bit_int_eq_self)
  then show ?thesis using uint_sint [of x] by (simp add: to_long_def)
qed

lemma to_int_small:
  assumes "unat x < 2 ^ 31"
  shows "to_int x = int (unat x)"
proof -
  have "unat (ucast x :: 32 word) = unat x"
    using assms by (simp add: unsigned_ucast_eq take_bit_nat_eq_self)
  then show ?thesis using assms by (simp add: to_int_def sint_small)
qed

lemma sint_scast_up: "sint (scast (d :: 32 word) :: ulong) = sint d"
  using sint_ge [of d] sint_lt [of d] by (simp add: signed_scast_eq signed_take_bit_int_eq_self)

section \<open>Allocation\<close>

text \<open>
  \<open>Asn1Alloc (size)\<close> is \<open>Malloc (size)\<close> of \<open>c-lib/src/mem.c\<close>, whose parameter is an
  \<open>int\<close>: the size loses its upper half. A block of that many zero bytes is returned, or the
  process ends: a negative size is huge as a \<open>size_t\<close> and no \<open>malloc\<close> serves it (one that
  serves a size in the range of \<open>int\<close> is assumed). It never returns \<open>NULL\<close>, so the check
  after it never fails.
\<close>

definition Malloc :: "int \<Rightarrow> ('s, byte list) prog" where
  "Malloc n = (if n < 0 then stopP (Exit 1) else returnP (replicate (nat n) 0))"

definition Asn1Alloc :: "ulong \<Rightarrow> ('s, byte list) prog" where
  "Asn1Alloc n = Malloc (to_int n)"

lemma sim_alloc [sim_intros]: "sim I v (=) (Asn1Alloc n) (Asn1Alloc n)"
  by (simp add: Asn1Alloc_def Malloc_def sim_intros)

lemma refines_alloc [refines_intros]: "refines I v (=) (Asn1Alloc n) (Asn1Alloc n)"
  by (simp add: Asn1Alloc_def Malloc_def refines_intros)

lemma Asn1Alloc_small [prog_simps]:
  "unat n < 2 ^ 31 \<Longrightarrow> Asn1Alloc n s = (Inr (replicate (unat n) 0), s)"
  by (simp add: Asn1Alloc_def Malloc_def to_int_small returnP_def)

end
