(* ===== verification/Gen_Buf.thy ===== *)
theory Gen_Buf
  imports Prelude
begin

text \<open>
  The buffer interface of \<open>c-lib/inc/gen-buf.h\<close>: a \<open>struct GenBuf\<close> is a table of
  functions on a buffer of some type \<open>'b\<close>, and every encoder and decoder of the library works
  through it. Here are the table, the abstract buffer that specifies it (a stream of unread bytes and
  the read error flag; written bytes are prepended), and the contracts the buffers fulfil: reading
  single bytes, reading blocks, and writing in reverse.
\<close>

section \<open>The function table\<close>

text \<open>
  The pointer results of \<open>getSeg\<close> and \<open>peekSeg\<close> are represented by the bytes they refer
  to together with the value left in \<open>*lenPtr\<close>, the destination of \<open>copy\<close> and
  \<open>peekCopy\<close> by the bytes written to it, and the data of \<open>putSegRvs\<close> by its bytes.
  The fields \<open>copy\<close> and \<open>skip\<close> carry a suffix. \<open>copyAny\<close> is not part of
  the table; it is used by the open type ANY only.
\<close>

record 'b GenBuf =
  getByte :: "('b, byte) prog"
  getSeg :: "ulong \<Rightarrow> ('b, byte list \<times> ulong) prog"
  copyFcn :: "ulong \<Rightarrow> ('b, byte list) prog"
  skipFcn :: "ulong \<Rightarrow> ('b, unit) prog"
  peekByte :: "('b, byte) prog"
  peekSeg :: "ulong \<Rightarrow> ('b, byte list \<times> ulong) prog"
  peekCopy :: "ulong \<Rightarrow> ('b, byte list) prog"
  putByteRvs :: "byte \<Rightarrow> ('b, unit) prog"
  putSegRvs :: "byte list \<Rightarrow> ('b, unit) prog"
  readError :: "('b, bool) prog"
  setWriteError :: "bool \<Rightarrow> ('b, int) prog"
  writeError :: "('b, bool) prog"
  resetInReadMode :: "('b, unit) prog"

section \<open>The abstract buffer\<close>

text \<open>Blocks are read with lengths below \<open>2 ^ 31\<close>; another length is outside the contract.\<close>

record stream =
  rest :: "byte list"
  rerr :: bool

definition stream_of :: "byte list \<Rightarrow> stream" where
  "stream_of xs = \<lparr>rest = xs, rerr = False\<rparr>"

definition stream_getByte :: "(stream, byte) prog" where
  "stream_getByte s = (case rest s of [] \<Rightarrow> (Inr 0, s\<lparr>rerr := True\<rparr>) | x # xs \<Rightarrow> (Inr x, s\<lparr>rest := xs\<rparr>))"

definition stream_take :: "nat \<Rightarrow> (stream, byte list) prog" where
  "stream_take n s =
     (if 2 ^ 31 \<le> n then (Inl Fault, s)
      else if n \<le> length (rest s) then (Inr (take n (rest s)), s\<lparr>rest := drop n (rest s)\<rparr>)
      else (Inr (rest s), s\<lparr>rest := [], rerr := True\<rparr>))"

definition stream_getSeg :: "ulong \<Rightarrow> (stream, byte list \<times> ulong) prog" where
  "stream_getSeg len s =
     (if 2 ^ 31 \<le> unat len then (Inl Fault, s)
      else let bs = take (unat len) (rest s)
      in (Inr (bs, of_nat (length bs)), s\<lparr>rest := drop (unat len) (rest s)\<rparr>))"

definition stream_ops :: "stream GenBuf" where
  "stream_ops =
     \<lparr>getByte = stream_getByte,
      getSeg = stream_getSeg,
      copyFcn = (\<lambda>len. stream_take (unat len)),
      skipFcn = (\<lambda>len. bindP (stream_take (unat len)) (\<lambda>_. returnP ())),
      peekByte = (\<lambda>s. case rest s of [] \<Rightarrow> (Inr 0, s\<lparr>rerr := True\<rparr>) | x # xs \<Rightarrow> (Inr x, s)),
      peekSeg = (\<lambda>len s. let bs = take (unat len) (rest s) in (Inr (bs, of_nat (length bs)), s)),
      peekCopy = (\<lambda>len s. (Inr (take (unat len) (rest s)),
                            if length (rest s) < unat len then s\<lparr>rerr := True\<rparr> else s)),
      putByteRvs = (\<lambda>x s. (Inr (), s\<lparr>rest := x # rest s\<rparr>)),
      putSegRvs = (\<lambda>xs s. (Inr (), s\<lparr>rest := xs @ rest s\<rparr>)),
      readError = (\<lambda>s. (Inr (rerr s), s)),
      setWriteError = (\<lambda>_ s. (Inr 0, s)),
      writeError = (\<lambda>s. (Inr False, s)),
      resetInReadMode = (\<lambda>s. (Inr (), s\<lparr>rerr := False\<rparr>))\<rparr>"

lemma stream_of_sel [simp]: "rest (stream_of xs) = xs" "rerr (stream_of xs) = False"
  by (simp_all add: stream_of_def)

lemma stream_of_update [simp]: "(stream_of xs)\<lparr>rest := ys\<rparr> = stream_of ys"
  by (simp add: stream_of_def)

lemma stream_ops_getByte_Cons [prog_simps]:
  "getByte stream_ops (stream_of (x # xs)) = (Inr x, stream_of xs)"
  by (simp add: stream_ops_def stream_getByte_def)

lemma stream_ops_getByte_Nil [prog_simps]:
  "getByte stream_ops (stream_of []) = (Inr 0, \<lparr>rest = [], rerr = True\<rparr>)"
  by (simp add: stream_ops_def stream_getByte_def stream_of_def)

lemma stream_ops_getByte_eod [prog_simps]:
  "getByte stream_ops \<lparr>rest = [], rerr = e\<rparr> = (Inr 0, \<lparr>rest = [], rerr = True\<rparr>)"
  by (simp add: stream_ops_def stream_getByte_def)

lemma stream_ops_readError [prog_simps]: "readError stream_ops s = (Inr (rerr s), s)"
  by (simp add: stream_ops_def)

lemma stream_ops_copy_append [prog_simps]:
  "unat len = length xs \<Longrightarrow> length xs < 2 ^ 31 \<Longrightarrow> copyFcn stream_ops len (stream_of (xs @ ys)) = (Inr xs, stream_of ys)"
  by (simp add: stream_ops_def stream_take_def)

lemma stream_ops_copy_short [prog_simps]:
  "length xs < unat len \<Longrightarrow> unat len < 2 ^ 31 \<Longrightarrow>
     copyFcn stream_ops len (stream_of xs) = (Inr xs, \<lparr>rest = [], rerr = True\<rparr>)"
  by (simp add: stream_ops_def stream_take_def stream_of_def)

text \<open>
  Fuel on a stream: with fewer than \<open>n\<close> unread octets, the program does not run out of fuel, and
  adds no octets.
\<close>

definition fuelled :: "nat \<Rightarrow> (stream, 'a) prog \<Rightarrow> bool" where
  "fuelled n m \<longleftrightarrow>
     (\<forall>s. length (rest s) < n \<longrightarrow>
        fst (m s) \<noteq> Inl NoFuel \<and> length (rest (snd (m s))) \<le> length (rest s))"

named_theorems fuelled_intros \<open>rules for fuel\<close>

lemma fuelled_return [fuelled_intros]: "fuelled n (returnP x)"
  by (simp add: fuelled_def returnP_def)

lemma fuelled_stop [fuelled_intros]: "e \<noteq> NoFuel \<Longrightarrow> fuelled n (stopP e)"
  by (simp add: fuelled_def stopP_def)

lemma fuelled_bind [fuelled_intros]:
  assumes "fuelled n m" and "\<And>x. fuelled n (f x)"
  shows "fuelled n (bindP m f)"
  unfolding fuelled_def
proof (intro allI impI)
  fix s :: stream assume s: "length (rest s) < n"
  obtain r s' where m: "m s = (r, s')" by (cases "m s")
  from assms(1) s m have "r \<noteq> Inl NoFuel" "length (rest s') \<le> length (rest s)"
    by (auto simp: fuelled_def dest!: spec [of _ s])
  moreover have "fst (f x s') \<noteq> Inl NoFuel \<and> length (rest (snd (f x s'))) \<le> length (rest s')" for x
    using assms(2) s calculation(2) by (simp add: fuelled_def)
  ultimately show "fst (bindP m f s) \<noteq> Inl NoFuel \<and> length (rest (snd (bindP m f s))) \<le> length (rest s)"
    by (cases r) (auto simp: bindP_def m intro: order_trans)
qed

lemma fuelled_if [fuelled_intros]:
  "(c \<Longrightarrow> fuelled n m) \<Longrightarrow> (\<not> c \<Longrightarrow> fuelled n m') \<Longrightarrow> fuelled n (if c then m else m')"
  by simp

lemma fuelled_let [fuelled_intros]: "(\<And>x. fuelled n (f x)) \<Longrightarrow> fuelled n (let x = t in f x)"
  by simp

lemma fuelled_case_prod [fuelled_intros]:
  "(\<And>x y. fuelled n (f x y)) \<Longrightarrow> fuelled n (case p of (x, y) \<Rightarrow> f x y)"
  by (cases p) simp

lemma fuelled_mono: "fuelled n m \<Longrightarrow> k \<le> n \<Longrightarrow> fuelled k m"
  by (simp add: fuelled_def)

lemma fuelled_getByte [fuelled_intros]: "fuelled n (getByte stream_ops)"
  by (simp add: fuelled_def stream_ops_def stream_getByte_def split: list.split)

lemma fuelled_readError [fuelled_intros]: "fuelled n (readError stream_ops)"
  by (simp add: fuelled_def stream_ops_def)

lemma fuelled_copy [fuelled_intros]: "fuelled n (copyFcn stream_ops len)"
  by (simp add: fuelled_def stream_ops_def stream_take_def)

lemma fuelled_alloc [fuelled_intros]: "fuelled n (Asn1Alloc len)"
  by (simp add: Asn1Alloc_def Malloc_def fuelled_intros)

lemma fuelled_lift [fuelled_intros]: "r \<noteq> Inl NoFuel \<Longrightarrow> fuelled n (liftP r)"
  by (simp add: fuelled_def liftP_def)

lemma fuelled_write [fuelled_intros]: "fuelled n (liftP (blk_write blk i xs))"
  by (simp add: fuelled_def liftP_def blk_write_def)

section \<open>The contracts\<close>

text \<open>
  A reader is a buffer with an invariant \<open>I\<close> and a view \<open>v\<close> as a stream on which the
  table's functions act as those of the stream do. Reading single bytes is one contract; reading
  blocks another, for lengths that fit an \<open>int\<close>, as the code casts them.
\<close>

locale byte_reader =
  fixes g :: "'b GenBuf" and I :: "'b \<Rightarrow> bool" and v :: "'b \<Rightarrow> stream"
  assumes getByte_sim: "sim I v (=) (getByte g) (getByte stream_ops)"
    and readError_sim: "sim I v (=) (readError g) (readError stream_ops)"

definition seg_ok :: "('b \<Rightarrow> bool) \<Rightarrow> ('b \<Rightarrow> stream) \<Rightarrow> 'b \<Rightarrow> ulong \<Rightarrow> byte list \<Rightarrow> 'b \<Rightarrow> bool" where
  "seg_ok I v b len bs b' \<longleftrightarrow>
     I b' \<and> v b = (v b')\<lparr>rest := bs @ rest (v b')\<rparr> \<and> length bs \<le> unat len \<and>
     (bs = [] \<longleftrightarrow> len = 0 \<or> rest (v b) = [])"

locale gen_reader = byte_reader +
  assumes copy_sim: "unat len < 2 ^ 31 \<Longrightarrow> sim I v (=) (copyFcn g len) (copyFcn stream_ops len)"
    and getSeg_seg: "I b \<Longrightarrow> unat len < 2 ^ 31 \<Longrightarrow>
      \<exists>bs b'. getSeg g len b = (Inr (bs, of_nat (length bs)), b') \<and> seg_ok I v b len bs b'"

text \<open>The stream is such a reader itself.\<close>

lemma sim_refl: "sim (\<lambda>_. True) id (=) m m"
  by (simp add: sim_def sum.rel_eq)

lemma stream_getSeg_seg:
  assumes "unat len < 2 ^ 31"
  shows "\<exists>bs s'. getSeg stream_ops len s = (Inr (bs, of_nat (length bs)), s') \<and>
    seg_ok (\<lambda>_. True) id s len bs s'"
  using assms by (auto simp: stream_ops_def stream_getSeg_def Let_def seg_ok_def unat_eq_0)

interpretation st: gen_reader stream_ops "\<lambda>_. True" id
  by unfold_locales (simp_all add: sim_refl stream_getSeg_seg)

text \<open>
  A writer prepends. \<open>emits W out werr room m r xs\<close>: the program \<open>m\<close> returns \<open>r\<close>,
  never clears the error flag, and if the flag is clear in the end it has prepended exactly \<open>xs\<close>;
  with room for \<open>xs\<close> and no earlier error, the flag is clear in the end.
\<close>

definition emits ::
  "('b \<Rightarrow> bool) \<Rightarrow> ('b \<Rightarrow> byte list) \<Rightarrow> ('b \<Rightarrow> bool) \<Rightarrow> ('b \<Rightarrow> nat) \<Rightarrow>
     ('b, 'a) prog \<Rightarrow> 'a \<Rightarrow> byte list \<Rightarrow> bool" where
  "emits W out werr room m r xs \<longleftrightarrow>
     (\<forall>b. W b \<longrightarrow> (\<exists>b'. m b = (Inr r, b') \<and> W b' \<and> (werr b \<longrightarrow> werr b') \<and>
        (\<not> werr b' \<longrightarrow> out b' = xs @ out b) \<and>
        (\<not> werr b \<and> length xs \<le> room b \<longrightarrow> \<not> werr b' \<and> room b \<le> room b' + length xs)))"

locale gen_writer =
  fixes g :: "'b GenBuf" and W :: "'b \<Rightarrow> bool" and out :: "'b \<Rightarrow> byte list"
    and werr :: "'b \<Rightarrow> bool" and room :: "'b \<Rightarrow> nat"
  assumes putByteRvs_emits: "emits W out werr room (putByteRvs g x) () [x]"
    and putSegRvs_emits: "length xs < 2 ^ 31 \<Longrightarrow> emits W out werr room (putSegRvs g xs) () xs"

named_theorems emits_intros \<open>rules for what an encoder writes\<close>

lemma emits_return [emits_intros]: "emits W out werr room (returnP r) r []"
  by (simp add: emits_def returnP_def)

lemma emits_bind:
  assumes "emits W out werr room m x xs" and "emits W out werr room (f x) r ys"
  shows "emits W out werr room (bindP m f) r (ys @ xs)"
  unfolding emits_def
proof (intro allI impI)
  fix b assume "W b"
  then obtain c where c: "m b = (Inr x, c)" "W c" "werr b \<longrightarrow> werr c"
      "\<not> werr c \<longrightarrow> out c = xs @ out b"
      "\<not> werr b \<and> length xs \<le> room b \<longrightarrow> \<not> werr c \<and> room b \<le> room c + length xs"
    using assms(1) unfolding emits_def by blast
  from c(2) obtain d where d: "f x c = (Inr r, d)" "W d" "werr c \<longrightarrow> werr d"
      "\<not> werr d \<longrightarrow> out d = ys @ out c"
      "\<not> werr c \<and> length ys \<le> room c \<longrightarrow> \<not> werr d \<and> room c \<le> room d + length ys"
    using assms(2) unfolding emits_def by blast
  from c d show "\<exists>b'. bindP m f b = (Inr r, b') \<and> W b' \<and> (werr b \<longrightarrow> werr b') \<and>
        (\<not> werr b' \<longrightarrow> out b' = (ys @ xs) @ out b) \<and>
        (\<not> werr b \<and> length (ys @ xs) \<le> room b \<longrightarrow>
           \<not> werr b' \<and> room b \<le> room b' + length (ys @ xs))"
    by (auto simp: bindP_def)
qed

lemma emits_seq:
  assumes "emits W out werr room m () xs" and "emits W out werr room k r ys" and "zs = ys @ xs"
  shows "emits W out werr room (bindP m (\<lambda>_. k)) r zs"
  using emits_bind [of W out werr room m "()" xs "\<lambda>_. k" r ys] assms by simp

text \<open>What a writer yields once nothing went wrong.\<close>

lemma emits_run:
  assumes "emits W out werr room m r xs" and "W b" and "\<not> werr b" and "length xs \<le> room b"
  obtains b' where "m b = (Inr r, b')" and "W b'" and "\<not> werr b'" and "out b' = xs @ out b"
    and "room b \<le> room b' + length xs"
  using assms unfolding emits_def by blast

text \<open>
  A buffer that can be written and then read back: resetting an error-free written buffer makes the
  written bytes the unread ones.
\<close>

locale gen_buffer = gen_reader g I v + gen_writer g W out werr room
  for g :: "'b GenBuf" and I v W out werr room +
  assumes reset_read: "W b \<Longrightarrow> \<not> werr b \<Longrightarrow>
      \<exists>b'. resetInReadMode g b = (Inr (), b') \<and> I b' \<and> v b' = stream_of (out b)"
begin

text \<open>Write with one program, reset, read with another: the general round trip.\<close>

lemma write_then_read:
  assumes "emits W out werr room m r xs" and "W b" and "\<not> werr b" and "length xs \<le> room b"
    and "sim I v (=) d d'" and "d' (stream_of (xs @ out b)) = (y, s)"
  shows "\<exists>c. bindP m (\<lambda>_. bindP (resetInReadMode g) (\<lambda>_. d)) b = (y, c) \<and> I c \<and> v c = s"
proof -
  obtain b1 where b1: "m b = (Inr r, b1)" "W b1" "\<not> werr b1" "out b1 = xs @ out b"
    by (rule emits_run [OF assms(1-4)])
  obtain b2 where b2: "resetInReadMode g b1 = (Inr (), b2)" "I b2" "v b2 = stream_of (out b1)"
    using reset_read [OF b1(2,3)] by blast
  obtain c where "d b2 = (y, c)" "I c" "v c = s"
    using sim_run [OF assms(5) b2(2)] assms(6) b1(4) b2(3) by auto
  then show ?thesis by (simp add: bindP_def b1 b2)
qed

end

end
