(* ===== verification/S_Buf.thy ===== *)
theory S_Buf
  imports Gen_Buf
begin

text \<open>
  The simple buffer of \<open>c-lib/src/sbuf.c\<close>: one contiguous block that checks read and write
  bounds and never grows. Pointers into the block are offsets from \<open>blkStart\<close>; \<open>blkEnd\<close>
  is the block's length. The routines that take an \<open>SBuf **\<close> are programs on the buffer.
\<close>

section \<open>State and mode operations\<close>

record SBuf =
  sb_dataStart :: nat
  sb_dataEnd :: nat
  sb_blk :: "byte list"
  sb_readLoc :: nat
  sb_writeError :: bool
  sb_readError :: bool

definition SBufInit :: "byte list \<Rightarrow> SBuf" where
  "SBufInit data =
     \<lparr>sb_dataStart = length data, sb_dataEnd = length data, sb_blk = data,
      sb_readLoc = length data, sb_writeError = True, sb_readError = True\<rparr>"

definition SBufResetInReadMode :: "(SBuf, unit) prog" where
  "SBufResetInReadMode b =
     (Inr (), b\<lparr>sb_readLoc := sb_dataStart b, sb_readError := False, sb_writeError := True\<rparr>)"

definition SBufResetInWriteRvsMode :: "SBuf \<Rightarrow> SBuf" where
  "SBufResetInWriteRvsMode b =
     b\<lparr>sb_dataStart := length (sb_blk b), sb_dataEnd := length (sb_blk b),
       sb_writeError := False, sb_readError := True\<rparr>"

definition SBufInstallData :: "byte list \<Rightarrow> SBuf" where
  "SBufInstallData data = snd (SBufResetInReadMode ((SBufInit data)\<lparr>sb_dataStart := 0\<rparr>))"

definition SBufDataLen :: "SBuf \<Rightarrow> int" where
  "SBufDataLen b = int (sb_dataEnd b) - int (sb_dataStart b)"

definition SBufHasNoData :: "SBuf \<Rightarrow> bool" where
  "SBufHasNoData b \<longleftrightarrow> sb_dataStart b = sb_dataEnd b"

definition SBufDataPtr :: "SBuf \<Rightarrow> nat option" where
  "SBufDataPtr b = (if SBufHasNoData b then None else Some (sb_dataStart b))"

definition SBufBlkLen :: "SBuf \<Rightarrow> int" where
  "SBufBlkLen b = int (length (sb_blk b))"

definition SBufEod :: "SBuf \<Rightarrow> bool" where
  "SBufEod b \<longleftrightarrow> sb_readLoc b \<ge> sb_dataEnd b"

definition SBufReadError :: "(SBuf, bool) prog" where
  "SBufReadError b = (Inr (sb_readError b), b)"

definition SBufWriteError :: "(SBuf, bool) prog" where
  "SBufWriteError b = (Inr (sb_writeError b), b)"

text \<open>The buffer argument may be \<open>NULL\<close> here; the value is an unsigned short.\<close>

definition SBufSetWriteError :: "SBuf option \<Rightarrow> bool \<Rightarrow> int \<times> SBuf option" where
  "SBufSetWriteError b Value =
     (case b of None \<Rightarrow> (-1, None) | Some b \<Rightarrow> (0, Some (b\<lparr>sb_writeError := Value\<rparr>)))"

section \<open>Reading\<close>

text \<open>
  Lengths are cast to \<open>long\<close>. A negative one moves the read location back, which is undefined
  once it leaves the block, and is undefined at once for a \<open>memcpy\<close>, whose size it becomes.
\<close>

definition SBufSkip :: "ulong \<Rightarrow> (SBuf, unit) prog" where
  "SBufSkip len b =
     (let skipLen = to_long len
      in if int (sb_readLoc b) + skipLen > int (sb_dataEnd b)
         then (Inr (), b\<lparr>sb_readLoc := sb_dataEnd b, sb_readError := True\<rparr>)
         else if int (sb_readLoc b) + skipLen < 0 then (Inl Fault, b)
         else (Inr (), b\<lparr>sb_readLoc := nat (int (sb_readLoc b) + skipLen)\<rparr>))"

definition SBufCopy :: "ulong \<Rightarrow> (SBuf, byte list) prog" where
  "SBufCopy len b =
     (let copyLen = to_long len
      in if int (sb_readLoc b) + copyLen > int (sb_dataEnd b)
         then (mem_slice (sb_blk b) (sb_readLoc b) (sb_dataEnd b - sb_readLoc b),
               b\<lparr>sb_readLoc := sb_dataEnd b, sb_readError := True\<rparr>)
         else if copyLen < 0 then (Inl Fault, b)
         else (mem_slice (sb_blk b) (sb_readLoc b) (nat copyLen),
               b\<lparr>sb_readLoc := sb_readLoc b + nat copyLen\<rparr>))"

definition SBufPeekByte :: "(SBuf, byte) prog" where
  "SBufPeekByte b =
     (if SBufEod b then (Inr 0, b\<lparr>sb_readError := True\<rparr>)
      else (mem_read (sb_blk b) (sb_readLoc b), b))"

definition SBufPeekSeg :: "ulong \<Rightarrow> (SBuf, byte list \<times> ulong) prog" where
  "SBufPeekSeg len b =
     (let n = (if int (sb_readLoc b) + to_long len > int (sb_dataEnd b)
               then int (sb_dataEnd b) - int (sb_readLoc b) else to_long len)
      in if n < 0 then (Inl Fault, b)
         else (map_sum id (\<lambda>bs. (bs, of_int n)) (mem_slice (sb_blk b) (sb_readLoc b) (nat n)), b))"

definition SBufPeekCopy :: "ulong \<Rightarrow> (SBuf, byte list) prog" where
  "SBufPeekCopy copyLen b =
     (if sb_readLoc b + unat copyLen > sb_dataEnd b
      then (mem_slice (sb_blk b) (sb_readLoc b) (sb_dataEnd b - sb_readLoc b), b\<lparr>sb_readError := True\<rparr>)
      else (mem_slice (sb_blk b) (sb_readLoc b) (unat copyLen), b))"

definition SBufGetSeg :: "ulong \<Rightarrow> (SBuf, byte list \<times> ulong) prog" where
  "SBufGetSeg len b =
     (if int (sb_readLoc b) + to_long len > int (sb_dataEnd b)
      then (let n = int (sb_dataEnd b) - int (sb_readLoc b)
            in (map_sum id (\<lambda>bs. (bs, of_int n)) (mem_slice (sb_blk b) (sb_readLoc b) (nat n)),
                b\<lparr>sb_readLoc := sb_dataEnd b\<rparr>))
      else if to_long len < 0 then (Inl Fault, b)
      else (map_sum id (\<lambda>bs. (bs, len)) (mem_slice (sb_blk b) (sb_readLoc b) (nat (to_long len))),
            b\<lparr>sb_readLoc := sb_readLoc b + nat (to_long len)\<rparr>))"

definition SBufGetByte :: "(SBuf, byte) prog" where
  "SBufGetByte b =
     (if SBufEod b then (Inr 0, b\<lparr>sb_readError := True\<rparr>)
      else (mem_read (sb_blk b) (sb_readLoc b), b\<lparr>sb_readLoc := sb_readLoc b + 1\<rparr>))"

section \<open>Writing in reverse\<close>

definition SBufPutSegRvs :: "byte list \<Rightarrow> (SBuf, unit) prog" where
  "SBufPutSegRvs seg b =
     (if sb_dataStart b < length seg then (Inr (), b\<lparr>sb_writeError := True\<rparr>)
      else (let d = sb_dataStart b - length seg
            in (Inr (), b\<lparr>sb_dataStart := d, sb_blk := mem_put (sb_blk b) d seg\<rparr>)))"

definition SBufPutByteRvs :: "byte \<Rightarrow> (SBuf, unit) prog" where
  "SBufPutByteRvs x b =
     (if sb_dataStart b \<le> 0 then (Inr (), b\<lparr>sb_writeError := True\<rparr>)
      else (let d = sb_dataStart b - 1
            in (Inr (), b\<lparr>sb_dataStart := d, sb_blk := (sb_blk b)[d := x]\<rparr>)))"

section \<open>The function table\<close>

text \<open>
  The table passes its functions a handle (\<open>SBuf **\<close>, the address of \<open>gb->spare\<close>).
  \<open>SBufSetWriteError\<close> expects an \<open>SBuf *\<close>: called through the table it writes an
  \<open>int\<close> at the offset of \<open>writeError\<close> behind \<open>gb->spare\<close>, the last field of the
  \<open>GenBuf\<close>, which is outside the object.
\<close>

definition sBufOpsG :: "SBuf GenBuf" where
  "sBufOpsG =
     \<lparr>getByte = SBufGetByte, getSeg = SBufGetSeg, copyFcn = SBufCopy, skipFcn = SBufSkip,
      peekByte = SBufPeekByte, peekSeg = SBufPeekSeg, peekCopy = SBufPeekCopy,
      putByteRvs = SBufPutByteRvs, putSegRvs = SBufPutSegRvs, readError = SBufReadError,
      setWriteError = (\<lambda>_. stopP Fault), writeError = SBufWriteError,
      resetInReadMode = SBufResetInReadMode\<rparr>"

section \<open>The simple buffer fulfils the contracts\<close>

definition sbuf_reading :: "SBuf \<Rightarrow> bool" where
  "sbuf_reading b \<longleftrightarrow> sb_dataStart b \<le> sb_readLoc b \<and> sb_readLoc b \<le> sb_dataEnd b \<and>
     sb_dataEnd b \<le> length (sb_blk b)"

definition sbuf_unread :: "SBuf \<Rightarrow> stream" where
  "sbuf_unread b =
     \<lparr>rest = take (sb_dataEnd b - sb_readLoc b) (drop (sb_readLoc b) (sb_blk b)), rerr = sb_readError b\<rparr>"

definition sbuf_writing :: "SBuf \<Rightarrow> bool" where
  "sbuf_writing b \<longleftrightarrow> sb_dataStart b \<le> sb_dataEnd b \<and> sb_dataEnd b = length (sb_blk b)"

definition sbuf_written :: "SBuf \<Rightarrow> byte list" where
  "sbuf_written b = drop (sb_dataStart b) (sb_blk b)"

lemma sbuf_getByte_sim: "sim sbuf_reading sbuf_unread (=) SBufGetByte (getByte stream_ops)"
proof (rule simI)
  fix b assume b: "sbuf_reading b"
  show "\<exists>x c y. SBufGetByte b = (x, c) \<and> getByte stream_ops (sbuf_unread b) = (y, sbuf_unread c) \<and>
      sbuf_reading c \<and> rel_sum (=) (=) x y"
  proof (cases "SBufEod b")
    case True
    with b show ?thesis
      by (simp add: SBufGetByte_def SBufEod_def sbuf_reading_def sbuf_unread_def stream_ops_getByte_eod)
  next
    case False
    then have lt: "sb_readLoc b < sb_dataEnd b" "sb_readLoc b < length (sb_blk b)"
      using b by (simp_all add: SBufEod_def sbuf_reading_def)
    then have "drop (sb_readLoc b) (sb_blk b) = sb_blk b ! sb_readLoc b # drop (Suc (sb_readLoc b)) (sb_blk b)"
      by (simp add: Cons_nth_drop_Suc)
    then show ?thesis using b False lt
      by (simp add: SBufGetByte_def sbuf_reading_def sbuf_unread_def mem_read_def
          stream_ops_def stream_getByte_def take_Cons')
  qed
qed

text \<open>Within an \<open>int\<close>'s range, the casts do nothing.\<close>

lemma sbuf_copy_small:
  assumes "sbuf_reading b" and "unat len < 2 ^ 31"
  shows "SBufCopy len b =
     (if unat len \<le> sb_dataEnd b - sb_readLoc b
      then (Inr (take (unat len) (drop (sb_readLoc b) (sb_blk b))), b\<lparr>sb_readLoc := sb_readLoc b + unat len\<rparr>)
      else (Inr (take (sb_dataEnd b - sb_readLoc b) (drop (sb_readLoc b) (sb_blk b))),
            b\<lparr>sb_readLoc := sb_dataEnd b, sb_readError := True\<rparr>))"
proof -
  obtain n where n: "unat len = n" by simp
  have l: "to_long len = int n" using assms n by (simp add: to_long_small)
  show ?thesis
    using assms(1) by (auto simp: SBufCopy_def l n sbuf_reading_def mem_slice_def Let_def)
qed

lemma sbuf_getSeg_small:
  assumes "sbuf_reading b" and "unat len < 2 ^ 31"
  shows "SBufGetSeg len b =
     (let n = min (unat len) (sb_dataEnd b - sb_readLoc b)
      in (Inr (take n (drop (sb_readLoc b) (sb_blk b)), of_nat n), b\<lparr>sb_readLoc := sb_readLoc b + n\<rparr>))"
proof -
  obtain n where n: "unat len = n" by simp
  have l: "to_long len = int n" using assms n by (simp add: to_long_small)
  have w: "word_of_nat n = len" using n by auto
  show ?thesis
    using assms(1) by (auto simp: SBufGetSeg_def l n w sbuf_reading_def mem_slice_def Let_def
        min_def nat_diff_distrib' of_nat_diff)
qed

lemma sbuf_copy_sim:
  assumes "unat len < 2 ^ 31"
  shows "sim sbuf_reading sbuf_unread (=) (SBufCopy len) (copyFcn stream_ops len)"
proof (rule simI)
  fix b assume b: "sbuf_reading b"
  then show "\<exists>x c y. SBufCopy len b = (x, c) \<and> copyFcn stream_ops len (sbuf_unread b) = (y, sbuf_unread c) \<and>
      sbuf_reading c \<and> rel_sum (=) (=) x y"
    using assms by (auto simp: sbuf_copy_small stream_ops_def stream_take_def sbuf_unread_def
        sbuf_reading_def drop_take min_def add.commute)
qed

lemma sbuf_getSeg_seg:
  assumes "sbuf_reading b" and "unat len < 2 ^ 31"
  shows "\<exists>bs b'. SBufGetSeg len b = (Inr (bs, of_nat (length bs)), b') \<and>
    seg_ok sbuf_reading sbuf_unread b len bs b'"
proof -
  let ?n = "min (unat len) (sb_dataEnd b - sb_readLoc b)"
  let ?bs = "take ?n (drop (sb_readLoc b) (sb_blk b))"
  have le: "?n + sb_readLoc b \<le> sb_dataEnd b" "sb_dataEnd b \<le> length (sb_blk b)"
    using assms(1) by (auto simp: sbuf_reading_def)
  have "length ?bs = ?n" using le by simp
  moreover have "take (sb_dataEnd b - sb_readLoc b) (drop (sb_readLoc b) (sb_blk b)) =
      ?bs @ take (sb_dataEnd b - (sb_readLoc b + ?n)) (drop (sb_readLoc b + ?n) (sb_blk b))"
    by (rule take_window_split) (use le in simp)
  moreover have "?bs = [] \<longleftrightarrow> len = 0 \<or> sb_dataEnd b = sb_readLoc b"
    using le by (auto simp: unat_eq_0 min_def split: if_splits)
  ultimately show ?thesis
    using assms le by (auto simp: sbuf_getSeg_small Let_def seg_ok_def sbuf_unread_def sbuf_reading_def)
qed

lemma sbuf_readError_sim: "sim sbuf_reading sbuf_unread (=) SBufReadError (readError stream_ops)"
  by (rule simI) (auto simp: SBufReadError_def stream_ops_def sbuf_unread_def)

lemma sbuf_putByteRvs_emits:
  "emits sbuf_writing sbuf_written sb_writeError sb_dataStart (SBufPutByteRvs x) () [x]"
proof -
  have "drop (d - Suc 0) (xs[d - Suc 0 := x]) = x # drop d xs" if "0 < d" "d \<le> length xs" for d xs
    using that by (cases d) (simp_all add: drop_update_swap Cons_nth_drop_Suc [symmetric])
  then show ?thesis
    by (auto simp: emits_def SBufPutByteRvs_def sbuf_writing_def sbuf_written_def Let_def)
qed

lemma sbuf_putSegRvs_emits:
  "emits sbuf_writing sbuf_written sb_writeError sb_dataStart (SBufPutSegRvs xs) () xs"
  by (auto simp: emits_def SBufPutSegRvs_def sbuf_writing_def sbuf_written_def Let_def)

lemma sbuf_reset_read:
  "sbuf_writing b \<Longrightarrow> \<not> sb_writeError b \<Longrightarrow>
     \<exists>b'. SBufResetInReadMode b = (Inr (), b') \<and> sbuf_reading b' \<and> sbuf_unread b' = stream_of (sbuf_written b)"
  by (simp add: SBufResetInReadMode_def sbuf_writing_def sbuf_reading_def sbuf_unread_def
      stream_of_def sbuf_written_def)

lemma sBufOpsG_sel [simp]:
  "getByte sBufOpsG = SBufGetByte" "getSeg sBufOpsG = SBufGetSeg" "copyFcn sBufOpsG = SBufCopy"
  "putByteRvs sBufOpsG = SBufPutByteRvs" "putSegRvs sBufOpsG = SBufPutSegRvs"
  "readError sBufOpsG = SBufReadError" "resetInReadMode sBufOpsG = SBufResetInReadMode"
  "peekByte sBufOpsG = SBufPeekByte" "skipFcn sBufOpsG = SBufSkip" "peekCopy sBufOpsG = SBufPeekCopy"
  "setWriteError sBufOpsG w = stopP Fault" "writeError sBufOpsG = SBufWriteError"
  by (simp_all add: sBufOpsG_def)

interpretation sb: gen_buffer sBufOpsG sbuf_reading sbuf_unread sbuf_writing sbuf_written
  sb_writeError sb_dataStart
  by unfold_locales
    (simp_all add: sbuf_getByte_sim sbuf_readError_sim sbuf_copy_sim sbuf_getSeg_seg
      sbuf_putByteRvs_emits sbuf_putSegRvs_emits sbuf_reset_read)

text \<open>A buffer over a block of memory, put in each of the two modes.\<close>

lemma sbuf_install:
  "sbuf_reading (SBufInstallData xs)" "sbuf_unread (SBufInstallData xs) = stream_of xs"
  by (simp_all add: SBufInstallData_def SBufResetInReadMode_def SBufInit_def sbuf_reading_def
      sbuf_unread_def stream_of_def)

lemma sbuf_reset_write:
  "sbuf_writing (SBufResetInWriteRvsMode (SBufInit data))"
  "\<not> sb_writeError (SBufResetInWriteRvsMode (SBufInit data))"
  "sbuf_written (SBufResetInWriteRvsMode (SBufInit data)) = []"
  "sb_dataStart (SBufResetInWriteRvsMode (SBufInit data)) = length data"
  by (simp_all add: SBufInit_def SBufResetInWriteRvsMode_def sbuf_writing_def sbuf_written_def)

section \<open>Running an encoder and a decoder on a simple buffer\<close>

text \<open>
  A buffer over a block of memory ready to be written, and the sequence encode, reset, decode.
\<close>

definition sbuf_to_write :: "byte list \<Rightarrow> SBuf" where
  "sbuf_to_write mem = SBufResetInWriteRvsMode (SBufInit mem)"

definition write_read :: "(SBuf, 'a) prog \<Rightarrow> (SBuf, 'c) prog \<Rightarrow> byte list \<Rightarrow> stop + 'c" where
  "write_read enc dec mem =
     fst (bindP enc (\<lambda>_. bindP SBufResetInReadMode (\<lambda>_. dec)) (sbuf_to_write mem))"

lemma write_read_sim:
  assumes "emits sbuf_writing sbuf_written sb_writeError sb_dataStart enc r xs"
    and "length xs \<le> length mem" and "sim sbuf_reading sbuf_unread (=) dec dec'"
    and "dec' (stream_of xs) = (y, s)"
  shows "write_read enc dec mem = y"
proof -
  have w: "sbuf_writing (sbuf_to_write mem)" "\<not> sb_writeError (sbuf_to_write mem)"
    "sbuf_written (sbuf_to_write mem) = []" "sb_dataStart (sbuf_to_write mem) = length mem"
    unfolding sbuf_to_write_def by (rule sbuf_reset_write)+
  have "length xs \<le> sb_dataStart (sbuf_to_write mem)" using assms(2) w(4) by simp
  from sb.write_then_read [OF assms(1) w(1,2) this assms(3)] assms(4) w(3)
  show ?thesis by (auto simp: write_read_def)
qed

lemma write_read_refines:
  assumes "emits sbuf_writing sbuf_written sb_writeError sb_dataStart enc r xs"
    and "length xs \<le> length mem" and "refines sbuf_reading sbuf_unread (=) dec dec'"
    and "dec' (stream_of xs) = (Inr y, s)"
  shows "write_read enc dec mem = Inr y"
proof -
  have w: "sbuf_writing (sbuf_to_write mem)" "\<not> sb_writeError (sbuf_to_write mem)"
    "sbuf_written (sbuf_to_write mem) = []" "sb_dataStart (sbuf_to_write mem) = length mem"
    unfolding sbuf_to_write_def by (rule sbuf_reset_write)+
  have room: "length xs \<le> sb_dataStart (sbuf_to_write mem)" using assms(2) w(4) by simp
  obtain b1 where b1: "enc (sbuf_to_write mem) = (Inr r, b1)" "sbuf_writing b1" "\<not> sb_writeError b1"
      "sbuf_written b1 = xs"
    by (rule emits_run [OF assms(1) w(1,2) room]) (simp add: w(3))
  obtain b2 where b2: "SBufResetInReadMode b1 = (Inr (), b2)" "sbuf_reading b2" "sbuf_unread b2 = stream_of xs"
    using sbuf_reset_read [OF b1(2,3)] b1(4) by auto
  have "dec' (sbuf_unread b2) = (Inr y, s)" using assms(4) b2(3) by simp
  then obtain c where "dec b2 = (Inr y, c)"
    by (rule refines_run [OF assms(3) b2(2)]) simp_all
  then show ?thesis by (simp add: write_read_def bindP_run b1 b2)
qed

text \<open>What an encoder returns and has written on such a buffer.\<close>

definition written_by :: "(SBuf, 'a) prog \<Rightarrow> byte list \<Rightarrow> (stop + 'a) \<times> byte list" where
  "written_by enc mem = map_prod id sbuf_written (enc (sbuf_to_write mem))"

lemma written_by_emits:
  assumes "emits sbuf_writing sbuf_written sb_writeError sb_dataStart enc r xs"
    and "length xs \<le> length mem"
  shows "written_by enc mem = (Inr r, xs)"
proof -
  have w: "sbuf_writing (sbuf_to_write mem)" "\<not> sb_writeError (sbuf_to_write mem)"
    "sbuf_written (sbuf_to_write mem) = []" "sb_dataStart (sbuf_to_write mem) = length mem"
    unfolding sbuf_to_write_def by (rule sbuf_reset_write)+
  have "length xs \<le> sb_dataStart (sbuf_to_write mem)" using assms(2) w(4) by simp
  then show ?thesis
    by (rule emits_run [OF assms(1) w(1,2)]) (simp add: w(3) written_by_def)
qed

end
