(* ===== verification/E_Buf.thy ===== *)
theory E_Buf
  imports Gen_Buf
begin

text \<open>
  The expandable buffer of \<open>c-lib/src/exp-buf.c\<close>: a doubly linked list of blocks that grows at
  its head while it is written in reverse. Callers hold a handle, the address of a pointer to the
  current block. The list seen from the handle is a zipper: the blocks reached by \<open>prev\<close> (nearest
  first), the current one, and those reached by \<open>next\<close>. Pointers into a block are offsets from
  its \<open>blkStart\<close>; \<open>blkEnd\<close> is the block's length. \<open>eb_free\<close> is the number of
  blocks \<open>malloc\<close> will still provide, \<open>eb_blkSize\<close> the global \<open>expBufDataBlkSizeG\<close>.
\<close>

section \<open>Blocks and the list\<close>

record EBlk =
  eb_dataStart :: nat
  eb_dataEnd :: nat
  eb_curr :: nat
  eb_blk :: "byte list"
  eb_readError :: bool
  eb_writeError :: bool

record ExpBuf =
  eb_prev :: "EBlk list"
  eb_cur :: EBlk
  eb_next :: "EBlk list"
  eb_free :: nat
  eb_blkSize :: nat

definition upd_cur :: "(EBlk \<Rightarrow> EBlk) \<Rightarrow> ExpBuf \<Rightarrow> ExpBuf" where
  "upd_cur f b = b\<lparr>eb_cur := f (eb_cur b)\<rparr>"

definition ExpBufAtEod :: "EBlk \<Rightarrow> bool" where
  "ExpBufAtEod c \<longleftrightarrow> eb_curr c = eb_dataEnd c"

definition ExpBufFull :: "EBlk \<Rightarrow> bool" where
  "ExpBufFull c \<longleftrightarrow> eb_dataStart c = 0"

definition ExpBufHasNoData :: "EBlk \<Rightarrow> bool" where
  "ExpBufHasNoData c \<longleftrightarrow> eb_dataStart c = eb_dataEnd c"

definition ExpBufDataSize :: "EBlk \<Rightarrow> nat" where
  "ExpBufDataSize c = eb_dataEnd c - eb_dataStart c"

definition ExpBufDataBlkSize :: "EBlk \<Rightarrow> nat" where
  "ExpBufDataBlkSize c = length (eb_blk c)"

definition ExpBufDataPtr :: "EBlk \<Rightarrow> nat option" where
  "ExpBufDataPtr c = (if ExpBufHasNoData c then None else Some (eb_dataStart c))"

text \<open>\<open>*b = (*b)->next\<close> and \<open>*b = (*b)->prev\<close> where they are not \<open>NULL\<close>.\<close>

definition ExpBufNext :: "ExpBuf \<Rightarrow> ExpBuf" where
  "ExpBufNext b =
     (case eb_next b of [] \<Rightarrow> b
      | n # ns \<Rightarrow> b\<lparr>eb_prev := eb_cur b # eb_prev b, eb_cur := n, eb_next := ns\<rparr>)"

definition ExpBufPrev :: "ExpBuf \<Rightarrow> ExpBuf" where
  "ExpBufPrev b =
     (case eb_prev b of [] \<Rightarrow> b
      | p # ps \<Rightarrow> b\<lparr>eb_next := eb_cur b # eb_next b, eb_cur := p, eb_prev := ps\<rparr>)"

function ExpBufListLastBuf :: "ExpBuf \<Rightarrow> ExpBuf" where
  "ExpBufListLastBuf b = (if eb_next b \<noteq> [] then ExpBufListLastBuf (ExpBufNext b) else b)"
  by pat_completeness auto
termination
  by (relation "measure (\<lambda>b. length (eb_next b))") (auto simp: ExpBufNext_def split: list.split)

function ExpBufListFirstBuf :: "ExpBuf \<Rightarrow> ExpBuf" where
  "ExpBufListFirstBuf b = (if eb_prev b \<noteq> [] then ExpBufListFirstBuf (ExpBufPrev b) else b)"
  by pat_completeness auto
termination
  by (relation "measure (\<lambda>b. length (eb_prev b))") (auto simp: ExpBufPrev_def split: list.split)

declare ExpBufListLastBuf.simps [simp del] ExpBufListFirstBuf.simps [simp del]

text \<open>The content of fresh memory is not read before it is written; zeros stand for it.\<close>

definition ExpBufAllocBufAndData :: "nat \<Rightarrow> EBlk" where
  "ExpBufAllocBufAndData blkSize =
     \<lparr>eb_dataStart = blkSize, eb_dataEnd = blkSize, eb_curr = blkSize,
      eb_blk = replicate blkSize 0, eb_readError = True, eb_writeError = False\<rparr>"

definition ExpBufInstallDataInBuf :: "byte list \<Rightarrow> nat \<Rightarrow> nat \<Rightarrow> ExpBuf" where
  "ExpBufInstallDataInBuf data free blkSize =
     \<lparr>eb_prev = [],
      eb_cur = \<lparr>eb_dataStart = 0, eb_dataEnd = length data, eb_curr = 0, eb_blk = data,
                 eb_readError = False, eb_writeError = True\<rparr>,
      eb_next = [], eb_free = free, eb_blkSize = blkSize\<rparr>"

section \<open>Modes and flags\<close>

definition ExpBufReadError :: "(ExpBuf, bool) prog" where
  "ExpBufReadError b = (Inr (eb_readError (eb_cur b)), b)"

definition ExpBufWriteError :: "(ExpBuf, bool) prog" where
  "ExpBufWriteError b = (Inr (eb_writeError (eb_cur b)), b)"

definition ExpBufSetWriteError :: "EBlk option \<Rightarrow> bool \<Rightarrow> int \<times> EBlk option" where
  "ExpBufSetWriteError b Value =
     (case b of None \<Rightarrow> (-1, None) | Some c \<Rightarrow> (0, Some (c\<lparr>eb_writeError := Value\<rparr>)))"

text \<open>
  The loop walks \<open>pp\<close> along the \<open>next\<close> pointers, resets every block, and assigns
  \<open>*b = p\<close> each time, so that the handle ends at the last block.
\<close>

definition ExpBuf_reset_blk :: "EBlk \<Rightarrow> EBlk" where
  "ExpBuf_reset_blk c = c\<lparr>eb_curr := eb_dataStart c, eb_readError := False, eb_writeError := True\<rparr>"

fun ExpBufResetInReadMode_loop :: "EBlk list \<Rightarrow> EBlk \<Rightarrow> EBlk list \<Rightarrow> EBlk list \<times> EBlk" where
  "ExpBufResetInReadMode_loop ps c [] = (ps, ExpBuf_reset_blk c)"
| "ExpBufResetInReadMode_loop ps c (n # ns) = ExpBufResetInReadMode_loop (ExpBuf_reset_blk c # ps) n ns"

definition ExpBufResetInReadMode :: "(ExpBuf, unit) prog" where
  "ExpBufResetInReadMode b =
     (let (ps, c) = ExpBufResetInReadMode_loop (eb_prev b) (eb_cur b) (eb_next b)
      in (Inr (), b\<lparr>eb_prev := ps, eb_cur := c, eb_next := []\<rparr>))"

definition ExpBufResetInWriteRvsMode :: "EBlk \<Rightarrow> EBlk" where
  "ExpBufResetInWriteRvsMode c =
     c\<lparr>eb_dataEnd := length (eb_blk c), eb_dataStart := length (eb_blk c),
       eb_writeError := False, eb_readError := True\<rparr>"

section \<open>Reading\<close>

text \<open>\<open>while (((*b)->next != NULL) && ExpBufHasNoData (*b)) *b = (*b)->next;\<close>\<close>

function ExpBuf_skip_empty :: "ExpBuf \<Rightarrow> ExpBuf" where
  "ExpBuf_skip_empty b =
     (if eb_next b \<noteq> [] \<and> ExpBufHasNoData (eb_cur b) then ExpBuf_skip_empty (ExpBufNext b) else b)"
  by pat_completeness auto
termination
  by (relation "measure (\<lambda>b. length (eb_next b))") (auto simp: ExpBufNext_def split: list.split)

declare ExpBuf_skip_empty.simps [simp del]

definition ExpBufGetByte :: "(ExpBuf, byte) prog" where
  "ExpBufGetByte b0 =
     (let b1 = ExpBuf_skip_empty b0;
          b = (if ExpBufAtEod (eb_cur b1) \<and> eb_next b1 \<noteq> []
               then upd_cur (\<lambda>c. c\<lparr>eb_curr := eb_dataStart c\<rparr>) (ExpBufNext b1) else b1)
      in if ExpBufAtEod (eb_cur b) then (Inr 0, upd_cur (\<lambda>c. c\<lparr>eb_readError := True\<rparr>) b)
         else (mem_read (eb_blk (eb_cur b)) (eb_curr (eb_cur b)),
               upd_cur (\<lambda>c. c\<lparr>eb_curr := eb_curr c + 1\<rparr>) b))"

text \<open>No check for the end of data before the byte is fetched.\<close>

definition ExpBufPeekByte :: "(ExpBuf, byte) prog" where
  "ExpBufPeekByte b =
     (mem_read (eb_blk (eb_cur b)) (eb_curr (eb_cur b)),
      if ExpBufAtEod (eb_cur b) then upd_cur (\<lambda>c. c\<lparr>eb_readError := True\<rparr>) b else b)"

definition ExpBufPeekSeg :: "ulong \<Rightarrow> EBlk \<Rightarrow> stop + byte list \<times> ulong" where
  "ExpBufPeekSeg len c =
     (if ExpBufAtEod c then Inr ([], 0)
      else if eb_dataEnd c < eb_curr c then Inl Fault
      else let n = min (eb_dataEnd c - eb_curr c) (unat len)
           in map_sum id (\<lambda>bs. (bs, of_nat n)) (mem_slice (eb_blk c) (eb_curr c) n))"

text \<open>
  \<open>len\<close> is cast to \<open>int\<close>: where the cast is smaller than the bytes left and \<open>len\<close> itself is
  larger, \<open>curr\<close> leaves the block.
\<close>

definition ExpBufGetSeg :: "ulong \<Rightarrow> (ExpBuf, byte list \<times> ulong) prog" where
  "ExpBufGetSeg len b =
     (let c = eb_cur b; bytesLeft = int (eb_dataEnd c) - int (eb_curr c) in
      if ExpBufAtEod c then (Inr ([], 0), b)
      else if bytesLeft < 0 then (Inl Fault, b)
      else if bytesLeft \<le> to_int len then
        (map_sum id (\<lambda>bs. (bs, of_int bytesLeft)) (mem_slice (eb_blk c) (eb_curr c) (nat bytesLeft)),
         if eb_next b \<noteq> []
         then upd_cur (\<lambda>c. c\<lparr>eb_curr := eb_dataStart c\<rparr>) (ExpBuf_skip_empty (ExpBufNext b))
         else upd_cur (\<lambda>c. c\<lparr>eb_curr := eb_curr c + nat bytesLeft\<rparr>) b)
      else if unat len > nat bytesLeft then (Inl Fault, b)
      else (map_sum id (\<lambda>bs. (bs, len)) (mem_slice (eb_blk c) (eb_curr c) (unat len)),
            upd_cur (\<lambda>c. c\<lparr>eb_curr := eb_curr c + unat len\<rparr>) b))"


text \<open>The bytes a list still holds for reading, which every successful \<open>ExpBufGetSeg\<close> lowers.\<close>

definition exp_ahead :: "ExpBuf \<Rightarrow> nat" where
  "exp_ahead b = sum_list (map ExpBufDataSize (eb_next b))"

definition exp_left :: "ExpBuf \<Rightarrow> nat" where
  "exp_left b = eb_dataEnd (eb_cur b) - eb_curr (eb_cur b) + exp_ahead b"

lemma skip_empty_size:
  "ExpBufDataSize (eb_cur (ExpBuf_skip_empty b)) + exp_ahead (ExpBuf_skip_empty b) =
     ExpBufDataSize (eb_cur b) + exp_ahead b"
proof (induction b rule: ExpBuf_skip_empty.induct)
  case (1 b)
  show ?case
  proof (cases "eb_next b \<noteq> [] \<and> ExpBufHasNoData (eb_cur b)")
    case True
    moreover have "ExpBufDataSize (eb_cur (ExpBufNext b)) + exp_ahead (ExpBufNext b) = exp_ahead b"
      using True by (auto simp: ExpBufNext_def exp_ahead_def split: list.split)
    ultimately show ?thesis using "1.IH"
      by (subst (1 2) ExpBuf_skip_empty.simps) (simp add: ExpBufHasNoData_def ExpBufDataSize_def)
  next
    case False
    then show ?thesis by (subst (1 2) ExpBuf_skip_empty.simps) auto
  qed
qed

lemma getSeg_left:
  assumes "ExpBufGetSeg len b = (Inr (bs, n), b')" and "n \<noteq> 0"
  shows "exp_left b' < exp_left b"
proof -
  let ?c = "eb_cur b"
  have lt: "eb_curr ?c < eb_dataEnd ?c"
    using assms by (auto simp: ExpBufGetSeg_def ExpBufAtEod_def Let_def split: if_splits)
  show ?thesis
  proof (cases "int (eb_dataEnd ?c) - int (eb_curr ?c) \<le> to_int len")
    case fits: True
    show ?thesis
    proof (cases "eb_next b")
      case Nil
      with assms(1) lt fits show ?thesis
        by (auto simp: ExpBufGetSeg_def ExpBufAtEod_def Let_def exp_left_def exp_ahead_def upd_cur_def)
    next
      case (Cons m ms)
      let ?d = "ExpBuf_skip_empty (ExpBufNext b)"
      have "exp_left b' = ExpBufDataSize (eb_cur ?d) + exp_ahead ?d"
        using assms(1) lt fits Cons
        by (auto simp: ExpBufGetSeg_def ExpBufAtEod_def Let_def exp_left_def exp_ahead_def upd_cur_def
            ExpBufDataSize_def)
      also have "\<dots> = exp_ahead b"
        using Cons by (simp add: skip_empty_size) (simp add: ExpBufNext_def exp_ahead_def)
      also have "\<dots> < exp_left b" using lt by (simp add: exp_left_def)
      finally show ?thesis .
    qed
  next
    case False
    with assms lt have "n = len" and b': "b' = upd_cur (\<lambda>c. c\<lparr>eb_curr := eb_curr c + unat len\<rparr>) b"
      by (auto simp: ExpBufGetSeg_def ExpBufAtEod_def Let_def mem_slice_def split: if_splits)
    with assms(2) have "0 < unat len" by (simp add: unat_gt_0)
    with lt show ?thesis by (simp add: b' exp_left_def exp_ahead_def upd_cur_def)
  qed
qed

text \<open>\<open>ExpBufCopy\<close>: \<open>totalGotLen\<close> is the length of what has been copied.\<close>

function ExpBufCopy_loop :: "ulong \<Rightarrow> byte list \<Rightarrow> ulong \<Rightarrow> (ExpBuf, byte list) prog" where
  "ExpBufCopy_loop len got gotLen b =
     (case ExpBufGetSeg gotLen b of
        (Inl e, b') \<Rightarrow> (Inl e, b')
      | (Inr (bs, n), b') \<Rightarrow>
          if int (length (got @ bs)) \<ge> to_int len then (Inr (got @ bs), b')
          else if n = 0 then (Inr (got @ bs), upd_cur (\<lambda>c. c\<lparr>eb_readError := True\<rparr>) b')
          else ExpBufCopy_loop len (got @ bs) (len - of_nat (length (got @ bs))) b')"
  by pat_completeness auto
termination
  by (relation "measure (\<lambda>(len, got, gotLen, b). exp_left b)") (auto dest!: getSeg_left [OF sym])

declare ExpBufCopy_loop.simps [simp del]

definition ExpBufCopy :: "ulong \<Rightarrow> (ExpBuf, byte list) prog" where
  "ExpBufCopy len = ExpBufCopy_loop len [] len"

text \<open>\<open>ExpBufSkip\<close>: the loop also ends when \<open>ExpBufGetSeg\<close> returns \<open>NULL\<close>.\<close>

function ExpBufSkip :: "ulong \<Rightarrow> (ExpBuf, unit) prog" where
  "ExpBufSkip len b =
     (if len = 0 then (Inr (), b)
      else if ExpBufAtEod (eb_cur b) then (Inr (), b)
      else case ExpBufGetSeg len b of
        (Inl e, b') \<Rightarrow> (Inl e, b')
      | (Inr (bs, lenRemaining), b') \<Rightarrow>
          if lenRemaining = 0 then (Inr (), upd_cur (\<lambda>c. c\<lparr>eb_readError := True\<rparr>) b')
          else ExpBufSkip (len - lenRemaining) b')"
  by pat_completeness auto
termination
  by (relation "measure (\<lambda>(len, b). exp_left b)") (auto dest!: getSeg_left [OF sym])

declare ExpBufSkip.simps [simp del]

text \<open>
  \<open>ExpBufPeekCopy\<close> moves the handle along and restores it; the blocks it visits keep the new
  \<open>curr\<close>. The loop runs on the current block and its successors.
\<close>

fun ExpBufPeekCopy_skip :: "EBlk \<Rightarrow> EBlk list \<Rightarrow> EBlk list \<times> EBlk \<times> EBlk list" where
  "ExpBufPeekCopy_skip c [] = ([], c, [])"
| "ExpBufPeekCopy_skip c (n # ns) =
     (if ExpBufHasNoData c then let (ps, d, ms) = ExpBufPeekCopy_skip n ns in (c # ps, d, ms)
      else ([], c, n # ns))"

lemma PeekCopy_skip_length [termination_simp]:
  "(ps, d, ms) = ExpBufPeekCopy_skip c ns \<Longrightarrow> length ms \<le> length ns"
  by (induction c ns arbitrary: ps d ms rule: ExpBufPeekCopy_skip.induct) (force split: if_splits prod.splits)+

fun ExpBufPeekCopy_loop ::
  "ulong \<Rightarrow> byte list \<Rightarrow> ulong \<Rightarrow> EBlk \<Rightarrow> EBlk list \<Rightarrow> (stop + byte list) \<times> EBlk \<times> EBlk list" where
  "ExpBufPeekCopy_loop len got gotLen c ns =
     (case ExpBufPeekSeg gotLen c of
        Inl e \<Rightarrow> (Inl e, c, ns)
      | Inr (bs, n) \<Rightarrow>
          if unat len \<le> length (got @ bs) then (Inr (got @ bs), c, ns)
          else case ns of
            [] \<Rightarrow> (Inr (got @ bs), c, [])
          | m # ms \<Rightarrow>
              if n = 0 then (Inr (got @ bs), c\<lparr>eb_readError := True\<rparr>, ns)
              else case ExpBufPeekCopy_skip m ms of
                (ps, d, ds) \<Rightarrow>
                  case ExpBufPeekCopy_loop len (got @ bs) (len - of_nat (length (got @ bs)))
                         (d\<lparr>eb_curr := eb_dataStart d\<rparr>) ds of
                    (r, d', ds') \<Rightarrow> (r, c, ps @ d' # ds'))"

declare ExpBufPeekCopy_loop.simps [simp del]

definition ExpBufPeekCopy :: "ulong \<Rightarrow> (ExpBuf, byte list) prog" where
  "ExpBufPeekCopy len b =
     (case ExpBufPeekCopy_loop len [] len (eb_cur b) (eb_next b) of
        (r, c, ns) \<Rightarrow> (r, b\<lparr>eb_cur := c, eb_next := ns\<rparr>))"

section \<open>Writing in reverse\<close>

text \<open>
  \<open>if ((*b)->prev == NULL)\<close> a new block is linked in at the head, if \<open>malloc\<close> provides one;
  otherwise the block before the current one is taken. Either is reset for writing.
\<close>

definition ExpBuf_to_prev :: "ExpBuf \<Rightarrow> ExpBuf option" where
  "ExpBuf_to_prev b =
     (case eb_prev b of
        [] \<Rightarrow> (case eb_free b of
                 0 \<Rightarrow> None
               | Suc k \<Rightarrow> Some (b\<lparr>eb_next := eb_cur b # eb_next b,
                   eb_cur := ExpBufResetInWriteRvsMode (ExpBufAllocBufAndData (eb_blkSize b)), eb_free := k\<rparr>))
      | p # ps \<Rightarrow> Some (b\<lparr>eb_next := eb_cur b # eb_next b, eb_cur := ExpBufResetInWriteRvsMode p, eb_prev := ps\<rparr>))"

function ExpBufPutSegRvs_loop :: "byte list \<Rightarrow> (ExpBuf, unit) prog" where
  "ExpBufPutSegRvs_loop data b =
     (let c = eb_cur b; bytesLeft = eb_dataStart c; len = length data in
      if int bytesLeft > to_int (of_nat len) then
        (if bytesLeft < len then (Inl Fault, b)
         else (Inr (), upd_cur (\<lambda>c. c\<lparr>eb_dataStart := bytesLeft - len,
                                       eb_blk := mem_put (eb_blk c) (bytesLeft - len) data\<rparr>) b))
      else if len < bytesLeft then (Inl Fault, b)
      else
        let b1 = upd_cur (\<lambda>c. c\<lparr>eb_dataStart := 0,
                   eb_blk := mem_put (eb_blk c) 0 (drop (len - bytesLeft) data)\<rparr>) b
        in case ExpBuf_to_prev b1 of
             None \<Rightarrow> (Inr (), upd_cur (\<lambda>c. c\<lparr>eb_writeError := True\<rparr>) b1)
           | Some b2 \<Rightarrow> ExpBufPutSegRvs_loop (take (len - bytesLeft) data) b2)"
  by pat_completeness auto
termination
  by (relation "measure (\<lambda>(data, b). length (eb_prev b) + eb_free b)")
    (auto simp: ExpBuf_to_prev_def upd_cur_def split: list.splits nat.splits)

declare ExpBufPutSegRvs_loop.simps [simp del]

definition ExpBufPutSegRvs :: "byte list \<Rightarrow> (ExpBuf, unit) prog" where
  "ExpBufPutSegRvs data b =
     (if eb_writeError (eb_cur b) then (Inr (), b) else ExpBufPutSegRvs_loop data b)"

definition ExpBufPutByteRvs :: "byte \<Rightarrow> (ExpBuf, unit) prog" where
  "ExpBufPutByteRvs x b =
     (if eb_writeError (eb_cur b) then (Inr (), b)
      else
        let put = upd_cur (\<lambda>c. c\<lparr>eb_dataStart := eb_dataStart c - 1,
                                  eb_blk := (eb_blk c)[eb_dataStart c - 1 := x]\<rparr>)
        in if ExpBufFull (eb_cur b) then
             (case ExpBuf_to_prev b of
                None \<Rightarrow> (Inr (), upd_cur (\<lambda>c. c\<lparr>eb_writeError := True\<rparr>) b)
              | Some b' \<Rightarrow> (Inr (), put b'))
           else (Inr (), put b))"

section \<open>The function table\<close>

text \<open>As for the simple buffer, \<open>setWriteError\<close> gets a handle for a pointer to a buffer.\<close>

definition expBufOpsG :: "ExpBuf GenBuf" where
  "expBufOpsG =
     \<lparr>getByte = ExpBufGetByte, getSeg = ExpBufGetSeg, copyFcn = ExpBufCopy, skipFcn = ExpBufSkip,
      peekByte = ExpBufPeekByte,
      peekSeg = (\<lambda>len b. (ExpBufPeekSeg len (eb_cur b), b)),
      peekCopy = ExpBufPeekCopy,
      putByteRvs = ExpBufPutByteRvs, putSegRvs = ExpBufPutSegRvs, readError = ExpBufReadError,
      setWriteError = (\<lambda>_. stopP Fault), writeError = ExpBufWriteError,
      resetInReadMode = ExpBufResetInReadMode\<rparr>"

end
