(* ===== verification/Asn_Len.thy ===== *)
theory Asn_Len
  imports S_Buf E_Buf
begin

text \<open>
  Length octets: \<open>c-lib/src/asn-len.c\<close> and \<open>c-lib/inc/asn-len.h\<close> (built without
  \<open>USE_INDEF_LEN\<close>, so constructed values are written with definite lengths). A decoder takes the
  value of \<open>*bytesDecoded\<close> and returns its new value along with its result.
\<close>

section \<open>Encoding\<close>

definition INDEFINITE_LEN :: AsnLen where
  "INDEFINITE_LEN = NOT 0"

lemma unat_INDEFINITE_LEN: "unat INDEFINITE_LEN = 2 ^ 64 - 1"
  by (simp add: INDEFINITE_LEN_def unsigned_minus_1_eq_mask mask_eq_exp_minus_1)

lemma of_nat_less_indef: "n < 2 ^ 64 - 1 \<Longrightarrow> (of_nat n :: ulong) \<noteq> INDEFINITE_LEN"
  using unat_of_nat_small [of n] unat_INDEFINITE_LEN by (auto simp del: of_nat_eq_iff)

definition BEncDefLen :: "'b GenBuf \<Rightarrow> AsnLen \<Rightarrow> ('b, AsnLen) prog" where
  "BEncDefLen b len =
     (if len < 128 then
        thenP (putByteRvs b (ucast len)) (returnP 1)
      else if len < 256 then
        thenP (putByteRvs b (ucast len))
        (thenP (putByteRvs b 0x81) (returnP 2))
      else if len < 65536 then
        thenP (putByteRvs b (ucast len))
        (thenP (putByteRvs b (ucast (drop_bit 8 len)))
        (thenP (putByteRvs b 0x82) (returnP 3)))
      else if len < 16777126 then
        thenP (putByteRvs b (ucast len))
        (thenP (putByteRvs b (ucast (drop_bit 8 len)))
        (thenP (putByteRvs b (ucast (drop_bit 16 len)))
        (thenP (putByteRvs b 0x83) (returnP 4))))
      else
        thenP (putByteRvs b (ucast len))
        (thenP (putByteRvs b (ucast (drop_bit 8 len)))
        (thenP (putByteRvs b (ucast (drop_bit 16 len)))
        (thenP (putByteRvs b (ucast (drop_bit 24 len)))
        (thenP (putByteRvs b 0x84) (returnP 5))))))"

text \<open>The loop of \<open>BEncDefLen2\<close>: \<open>for (i = 0, j = len; j > 0; j >>= 8, i++)\<close>.\<close>

function BEncDefLen2_loop :: "'b GenBuf \<Rightarrow> nat \<Rightarrow> ulong \<Rightarrow> ('b, nat) prog" where
  "BEncDefLen2_loop b i j =
     (if j > 0 then thenP (putByteRvs b (ucast j)) (BEncDefLen2_loop b (i + 1) (drop_bit 8 j))
      else returnP i)"
  by pat_completeness auto
termination
  by (relation "measure (\<lambda>(b, i, j). unat j)") (auto simp: unat_drop_bit_less word_gt_0)

declare BEncDefLen2_loop.simps [simp del]

definition BEncDefLen2 :: "'b GenBuf \<Rightarrow> ulong \<Rightarrow> ('b, AsnLen) prog" where
  "BEncDefLen2 b len =
     (if to_long len < 128 then thenP (putByteRvs b (ucast len)) (returnP 1)
      else
        bindP (BEncDefLen2_loop b 0 len) (\<lambda>i.
        thenP (putByteRvs b (0x80 OR of_nat i)) (returnP (of_nat (i + 1)))))"

definition BEncIndefLen :: "'b GenBuf \<Rightarrow> ('b, AsnLen) prog" where
  "BEncIndefLen b = thenP (putByteRvs b 0x80) (returnP 1)"

definition BEncConsLen :: "'b GenBuf \<Rightarrow> AsnLen \<Rightarrow> ('b, AsnLen) prog" where
  "BEncConsLen b len = BEncDefLen b len"

definition BEncEoc :: "'b GenBuf \<Rightarrow> ('b, AsnLen) prog" where
  "BEncEoc b = thenP (putByteRvs b 0) (thenP (putByteRvs b 0) (returnP 2))"

section \<open>Decoding\<close>

text \<open>\<open>for (len = 0; lenBytes > 0; lenBytes--) len = (len << 8) | BufGetByte (b)\<close>\<close>

primrec BDecLen_loop :: "'b GenBuf \<Rightarrow> nat \<Rightarrow> AsnLen \<Rightarrow> ('b, AsnLen) prog" where
  "BDecLen_loop b 0 len = returnP len"
| "BDecLen_loop b (Suc lenBytes) len =
     bindP (getByte b) (\<lambda>c. BDecLen_loop b lenBytes (push_bit 8 len OR ucast c))"

definition BDecLen :: "'b GenBuf \<Rightarrow> AsnLen \<Rightarrow> ('b, AsnLen \<times> AsnLen) prog" where
  "BDecLen b bytesDecoded =
     bindP (getByte b) (\<lambda>c. let byte = ucast c :: AsnLen in
     bindP (readError b) (\<lambda>e.
     if e then longjmp (-13)
     else let bytesDecoded = bytesDecoded + 1 in
     if byte < 128 then returnP (byte, bytesDecoded)
     else if byte = 0x80 then returnP (INDEFINITE_LEN, bytesDecoded)
     else let lenBytes = unat (byte AND 0x7f) in
     if lenBytes > 8 then longjmp (-14)
     else let bytesDecoded = bytesDecoded + of_nat lenBytes in
     bindP (BDecLen_loop b lenBytes 0) (\<lambda>len.
     bindP (readError b) (\<lambda>e.
     if e then longjmp (-15) else returnP (len, bytesDecoded)))))"

definition DDecLen :: "'b GenBuf \<Rightarrow> AsnLen \<Rightarrow> ('b, AsnLen \<times> AsnLen) prog" where
  "DDecLen b bytesDecoded =
     bindP (getByte b) (\<lambda>c. let byte = ucast c :: AsnLen in
     bindP (readError b) (\<lambda>e.
     if e then longjmp (-13)
     else let bytesDecoded = bytesDecoded + 1 in
     if byte < 128 then returnP (byte, bytesDecoded)
     else if byte = 0x80 then longjmp (-666)
     else let lenBytes = unat (byte AND 0x7f) in
     if lenBytes > 8 then longjmp (-14)
     else let bytesDecoded = bytesDecoded + of_nat lenBytes in
     bindP (BDecLen_loop b lenBytes 0) (\<lambda>len.
     bindP (readError b) (\<lambda>e.
     if e then longjmp (-15) else returnP (len, bytesDecoded)))))"

text \<open>The operands of \<open>||\<close> are evaluated from left to right and only as far as needed.\<close>

definition BDecEoc :: "'b GenBuf \<Rightarrow> AsnLen \<Rightarrow> ('b, AsnLen) prog" where
  "BDecEoc b bytesDecoded =
     bindP (getByte b) (\<lambda>c1.
     if c1 \<noteq> 0 then longjmp (-16)
     else bindP (getByte b) (\<lambda>c2.
     if c2 \<noteq> 0 then longjmp (-16)
     else bindP (readError b) (\<lambda>e.
     if e then longjmp (-16) else returnP (bytesDecoded + 2))))"

definition BDEC_2ND_EOC_OCTET :: "'b GenBuf \<Rightarrow> AsnLen \<Rightarrow> ('b, AsnLen) prog" where
  "BDEC_2ND_EOC_OCTET b bytesDecoded =
     bindP (getByte b) (\<lambda>c.
     if c \<noteq> 0 then longjmp (-28)
     else bindP (readError b) (\<lambda>e.
     if e then longjmp (-28) else returnP (bytesDecoded + 1)))"

definition PeekEoc :: "'b GenBuf \<Rightarrow> ('b, bool) prog" where
  "PeekEoc b = bindP (peekByte b) (\<lambda>c. returnP (c = 0))"

section \<open>The same on every buffer\<close>

context byte_reader
begin

lemma BDecLen_loop_sim: "sim I v (=) (BDecLen_loop g n len) (BDecLen_loop stream_ops n len)"
  by (induction n arbitrary: len) (auto intro!: sim_intros getByte_sim)

lemma BDecLen_sim: "sim I v (=) (BDecLen g bd) (BDecLen stream_ops bd)"
  unfolding BDecLen_def
  by (intro sim_intros getByte_sim readError_sim BDecLen_loop_sim refl)

lemma DDecLen_sim: "sim I v (=) (DDecLen g bd) (DDecLen stream_ops bd)"
  unfolding DDecLen_def
  by (intro sim_intros getByte_sim readError_sim BDecLen_loop_sim refl)

lemma BDecEoc_sim: "sim I v (=) (BDecEoc g bd) (BDecEoc stream_ops bd)"
  unfolding BDecEoc_def
  by (intro sim_intros getByte_sim readError_sim refl)

lemma BDEC_2ND_EOC_OCTET_sim:
  "sim I v (=) (BDEC_2ND_EOC_OCTET g bd) (BDEC_2ND_EOC_OCTET stream_ops bd)"
  unfolding BDEC_2ND_EOC_OCTET_def
  by (intro sim_intros getByte_sim readError_sim refl)

end

section \<open>What the decoders do on a stream\<close>

lemma BDecLen_loop_stream:
  "BDecLen_loop stream_ops (length xs) len (stream_of (xs @ ys)) =
     (Inr (foldl (\<lambda>a x. push_bit 8 a OR ucast x) len xs), stream_of ys)"
  by (induction xs arbitrary: len) (simp_all add: prog_simps)

lemma BDecLen_loop_short:
  "length xs < n \<Longrightarrow> \<exists>l. BDecLen_loop stream_ops n len (stream_of xs) = (Inr l, \<lparr>rest = [], rerr = True\<rparr>)"
proof (induction n arbitrary: len xs)
  case (Suc n)
  have eod: "\<exists>l. BDecLen_loop stream_ops k a \<lparr>rest = [], rerr = True\<rparr> =
      (Inr l, \<lparr>rest = [], rerr = True\<rparr>)" for k and a :: AsnLen
    by (induction k arbitrary: a) (simp_all add: prog_simps)
  show ?case
    using Suc eod by (cases xs) (auto simp: prog_simps)
qed simp


text \<open>The result of \<open>BDecLen\<close> on every input, errors included.\<close>

definition len_result :: "AsnLen \<Rightarrow> byte list \<Rightarrow> stop + AsnLen \<times> AsnLen" where
  "len_result bd xs =
     (case xs of
        [] \<Rightarrow> Inl (LongJmp (-13))
      | x # ys \<Rightarrow>
          if x < 0x80 then Inr (ucast x, bd + 1)
          else if x = 0x80 then Inr (INDEFINITE_LEN, bd + 1)
          else let n = unat (x AND 0x7f) in
            if n > 8 then Inl (LongJmp (-14))
            else if length ys < n then Inl (LongJmp (-15))
            else Inr (be_val (take n ys), bd + 1 + of_nat n))"

lemma ucast_byte_less: "(ucast (x :: byte) :: ulong) < 128 \<longleftrightarrow> x < 0x80"
  by (simp add: word_less_nat_alt)

lemma ucast_byte_eq: "(ucast (x :: byte) :: ulong) = 0x80 \<longleftrightarrow> x = 0x80"
  by (simp add: word_unat_eq_iff)

lemma ucast_byte_and: "unat ((ucast (x :: byte) :: ulong) AND 0x7f) = unat (x AND 0x7f)"
proof -
  have "(ucast x :: ulong) AND 0x7f = ucast (x AND 0x7f)"
    by (simp add: unsigned_and_eq)
  then show ?thesis by simp
qed

lemma BDecLen_stream: "fst (BDecLen stream_ops bd (stream_of xs)) = len_result bd xs"
proof (cases xs)
  case Nil
  then show ?thesis by (simp add: BDecLen_def len_result_def prog_simps)
next
  case (Cons x ys)
  let ?n = "unat (x AND 0x7f)"
  show ?thesis
  proof (cases "length ys < ?n")
    case True
    then show ?thesis using BDecLen_loop_short [of ys ?n 0]
      by (auto simp: BDecLen_def len_result_def prog_simps Cons ucast_byte_less ucast_byte_eq
          ucast_byte_and Let_def)
  next
    case False
    then have "BDecLen_loop stream_ops ?n 0 (stream_of ys) = (Inr (be_val (take ?n ys)), stream_of (drop ?n ys))"
      using BDecLen_loop_stream [of "take ?n ys" 0 "drop ?n ys"] by (simp add: be_val_def)
    with False show ?thesis
      by (auto simp: BDecLen_def len_result_def prog_simps Cons ucast_byte_less ucast_byte_eq
          ucast_byte_and Let_def)
  qed
qed


lemma BDecLen_stream_short [prog_simps]:
  "x < 0x80 \<Longrightarrow> BDecLen stream_ops bd (stream_of (x # ys)) = (Inr (ucast x, bd + 1), stream_of ys)"
  by (simp add: BDecLen_def prog_simps ucast_byte_less)

lemma BDecLen_stream_long:
  assumes "0x80 < x" and "unat (x AND 0x7f) = length ls" and "length ls \<le> 8"
  shows "BDecLen stream_ops bd (stream_of (x # ls @ ys)) =
    (Inr (be_val ls, bd + 1 + of_nat (length ls)), stream_of ys)"
  using assms BDecLen_loop_stream [of ls 0 ys]
  by (auto simp: BDecLen_def prog_simps ucast_byte_less ucast_byte_eq ucast_byte_and Let_def be_val_def)

section \<open>What the encoders write\<close>

definition len_octets :: "AsnLen \<Rightarrow> byte list" where
  "len_octets len =
     (if len < 128 then [ucast len]
      else if len < 256 then 0x81 # be_bytes 1 len
      else if len < 65536 then 0x82 # be_bytes 2 len
      else if len < 16777126 then 0x83 # be_bytes 3 len
      else 0x84 # be_bytes 4 len)"

fun nbytes :: "nat \<Rightarrow> nat" where
  "nbytes n = (if n = 0 then 0 else Suc (nbytes (n div 256)))"

declare nbytes.simps [simp del]

lemma nbytes_0 [simp]: "nbytes 0 = 0"
  by (subst nbytes.simps) simp

lemma length_len_octets: "length (len_octets len) \<le> 5"
  by (simp add: len_octets_def)

context gen_writer
begin

lemma BEncDefLen_emits:
  "emits W out werr room (BEncDefLen g len) (of_nat (length (len_octets len))) (len_octets len)"
  unfolding BEncDefLen_def len_octets_def
  by (auto simp: numeral_eq_Suc drop_bit_drop_bit
      intro!: emits_seq [OF putByteRvs_emits] emits_return)

lemma BEncDefLen2_loop_emits:
  "emits W out werr room (BEncDefLen2_loop g i j) (i + nbytes (unat j)) (be_bytes (nbytes (unat j)) j)"
proof (induction "unat j" arbitrary: i j rule: less_induct)
  case less
  show ?case
  proof (cases "j > 0")
    case True
    have n: "nbytes (unat j) = Suc (nbytes (unat (drop_bit 8 j)))"
      using True by (subst nbytes.simps) (simp add: unat_drop_bit_div word_gt_0 unat_eq_0)
    have "emits W out werr room (BEncDefLen2_loop g (i + 1) (drop_bit 8 j))
        (i + 1 + nbytes (unat (drop_bit 8 j))) (be_bytes (nbytes (unat (drop_bit 8 j))) (drop_bit 8 j))"
      using True by (intro less unat_drop_bit_less) (simp_all add: word_gt_0)
    then show ?thesis
      using True emits_seq [OF putByteRvs_emits [of "ucast j"] _ refl]
      by (subst BEncDefLen2_loop.simps) (simp add: n)
  next
    case False
    then show ?thesis
      by (subst BEncDefLen2_loop.simps) (simp add: word_gt_0 emits_return)
  qed
qed

lemma BEncDefLen2_emits:
  assumes "0 \<le> to_long len"
  shows "emits W out werr room (BEncDefLen2 g len)
    (of_nat (if len < 128 then 1 else Suc (nbytes (unat len))))
    (if len < 128 then [ucast len] else (0x80 OR of_nat (nbytes (unat len))) # be_bytes (nbytes (unat len)) len)"
proof -
  have "to_long len < 128 \<longleftrightarrow> len < 128"
    using to_long_nonneg [OF assms] by (simp add: word_less_def)
  then show ?thesis
    unfolding BEncDefLen2_def
    using emits_bind [OF BEncDefLen2_loop_emits [of 0 len]
        emits_seq [OF putByteRvs_emits emits_return refl]]
    by (auto intro!: emits_seq [OF putByteRvs_emits] emits_return)
qed

lemma BEncEoc_emits: "emits W out werr room (BEncEoc g) 2 [0, 0]"
  unfolding BEncEoc_def by (auto intro!: emits_seq [OF putByteRvs_emits] emits_return)

end

section \<open>Round trip on a stream\<close>

lemma len_prefix:
  assumes "0 < n" and "n \<le> 8"
  shows "0x80 < (0x80 OR of_nat n :: byte)" and "unat ((0x80 OR of_nat n :: byte) AND 0x7f) = n"
proof -
  have "n \<in> {1, 2, 3, 4, 5, 6, 7, 8}" using assms by auto
  then show "0x80 < (0x80 OR of_nat n :: byte)" and "unat ((0x80 OR of_nat n :: byte) AND 0x7f) = n"
    by auto
qed

lemma BDecLen_prefix:
  assumes "0 < n" and "n \<le> 8"
  shows "BDecLen stream_ops bd (stream_of ((0x80 OR of_nat n) # be_bytes n len @ ys)) =
    (Inr (take_bit (8 * n) len, bd + 1 + of_nat n), stream_of ys)"
  using assms BDecLen_stream_long [of "0x80 OR of_nat n" "be_bytes n len" bd ys] len_prefix [OF assms]
  by (simp add: be_val_be_bytes)

lemma BDecLen_len_octets:
  "BDecLen stream_ops bd (stream_of (len_octets len @ ys)) =
     (Inr (take_bit 32 len, bd + of_nat (length (len_octets len))), stream_of ys)"
proof -
  have t: "take_bit n len = take_bit 32 len" if "unat len < 2 ^ n" "n \<le> 32" for n
  proof -
    have "unat len < 2 ^ 32"
      by (rule order_less_le_trans [OF that(1) power_increasing]) (use that in simp_all)
    then show ?thesis using that by (simp add: take_bit_small)
  qed
  consider "len < 128" | "\<not> len < 128" "len < 256" | "\<not> len < 256" "len < 65536"
    | "\<not> len < 65536" "len < 16777126" | "\<not> len < 16777126" by blast
  then show ?thesis
  proof cases
    case 1
    then have "take_bit 32 len = ucast (ucast len :: byte)" and "(ucast len :: byte) < 0x80"
      using t [of 8] by (simp_all add: word_less_nat_alt unsigned_ucast_eq take_bit_nat_eq_self
          word_unat_eq_iff unsigned_take_bit_eq)
    with 1 show ?thesis by (simp add: len_octets_def prog_simps)
  next
    case 2
    then show ?thesis using BDecLen_prefix [of 1 bd len ys] t [of 8]
      by (simp add: len_octets_def word_less_nat_alt)
  next
    case 3
    then show ?thesis using BDecLen_prefix [of 2 bd len ys] t [of 16]
      by (simp add: len_octets_def word_less_nat_alt)
  next
    case 4
    then show ?thesis using BDecLen_prefix [of 3 bd len ys] t [of 24]
      by (simp add: len_octets_def word_less_nat_alt)
  next
    case 5
    then have "len_octets len = 0x84 # be_bytes 4 len"
      by (simp add: len_octets_def word_less_nat_alt)
    then show ?thesis using BDecLen_prefix [of 4 bd len ys] by simp
  qed
qed

section \<open>The encoder written as a loop\<close>

text \<open>\<open>BEncDefLen2\<close> always writes the fewest octets; the unrolled encoder does outside a window.\<close>

definition len2_octets :: "AsnLen \<Rightarrow> byte list" where
  "len2_octets len =
     (if len < 128 then [ucast len] else (0x80 OR of_nat (nbytes (unat len))) # be_bytes (nbytes (unat len)) len)"

lemma nbytes_range:
  assumes "256 ^ k \<le> n" and "n < 256 ^ Suc k"
  shows "nbytes n = Suc k"
  using assms
proof (induction k arbitrary: n)
  case 0
  then show ?case by (subst nbytes.simps) simp
next
  case (Suc k)
  have "256 ^ k \<le> n div 256"
    using div_le_mono [OF Suc.prems(1), of 256] by simp
  moreover have "n div 256 < 256 ^ Suc k"
    using Suc.prems(2) by (intro less_mult_imp_div_less) (simp add: mult.commute)
  moreover have "n \<noteq> 0" using Suc.prems(1) by (cases n) simp_all
  ultimately show ?case using Suc.IH [of "n div 256"] by (subst nbytes.simps) simp
qed

lemma len2_octets_cases:
  assumes "unat len < 2 ^ 32"
  shows "len2_octets len =
     (if len < 128 then [ucast len]
      else if len < 256 then 0x81 # be_bytes 1 len
      else if len < 65536 then 0x82 # be_bytes 2 len
      else if len < 16777216 then 0x83 # be_bytes 3 len
      else 0x84 # be_bytes 4 len)"
proof -
  consider "len < 128" | "\<not> len < 128" "len < 256" | "\<not> len < 256" "len < 65536"
    | "\<not> len < 65536" "len < 16777216" | "\<not> len < 16777216" by blast
  then show ?thesis
  proof cases
    case 1
    then show ?thesis by (simp add: len2_octets_def)
  next
    case 2
    then show ?thesis using nbytes_range [of 0 "unat len"]
      by (simp add: len2_octets_def word_less_nat_alt)
  next
    case 3
    then show ?thesis using nbytes_range [of 1 "unat len"]
      by (simp add: len2_octets_def word_less_nat_alt flip: numeral_2_eq_2)
  next
    case 4
    then show ?thesis using nbytes_range [of 2 "unat len"]
      by (simp add: len2_octets_def word_less_nat_alt)
  next
    case 5
    then show ?thesis using nbytes_range [of 3 "unat len"] assms
      by (simp add: len2_octets_def word_less_nat_alt)
  qed
qed

lemma len_octets_eq:
  assumes "unat len < 2 ^ 32"
  shows "len_octets len = len2_octets len \<longleftrightarrow> \<not> (16777126 \<le> unat len \<and> unat len < 16777216)"
  unfolding len_octets_def len2_octets_cases [OF assms]
  by (auto simp: word_less_nat_alt simp del: be_bytes.simps)

lemma length_len2_octets: "unat len < 2 ^ 32 \<Longrightarrow> length (len2_octets len) \<le> 5"
  by (simp add: len2_octets_cases)

context gen_writer
begin

lemma BEncDefLen2_octets:
  assumes "unat len < 2 ^ 32"
  shows "emits W out werr room (BEncDefLen2 g len) (of_nat (length (len2_octets len))) (len2_octets len)"
proof -
  have "0 \<le> to_long len" using assms by (simp add: to_long_small)
  from BEncDefLen2_emits [OF this] show ?thesis by (simp add: len2_octets_def split: if_splits)
qed

end

section \<open>Where the length read is the indefinite one\<close>

lemma be_val_less:
  assumes "length xs \<le> 8"
  shows "unat (be_val xs :: ulong) < 2 ^ (8 * length xs)"
  using assms
proof (induction xs rule: rev_induct)
  case (snoc x xs)
  have "\<not> bit (be_val (xs @ [x]) :: ulong) n" if "8 * Suc (length xs) \<le> n" for n
    using that not_bit_above [OF snoc.IH, of "n - 8"] snoc.prems
    by (auto simp: be_val_snoc bit_simps byte_bit_above)
  then have "take_bit (8 * Suc (length xs)) (be_val (xs @ [x]) :: ulong) = be_val (xs @ [x])"
    by (intro bit_word_eqI) (simp add: bit_simps, meson not_less)
  then have "unat (be_val (xs @ [x]) :: ulong) = take_bit (8 * Suc (length xs)) (unat (be_val (xs @ [x]) :: ulong))"
    by (metis unsigned_take_bit_eq)
  then show ?case by (metis take_bit_nat_less_exp length_append_singleton)
qed simp

lemma be_bytes_be_val: "length xs = n \<Longrightarrow> n \<le> 8 \<Longrightarrow> be_bytes n (be_val xs :: ulong) = xs"
proof (induction xs arbitrary: n rule: rev_induct)
  case (snoc x xs)
  have "(drop_bit 8 (be_val (xs @ [x])) :: ulong) = be_val xs"
  proof (rule bit_word_eqI)
    fix n assume n: "n < LENGTH(64)"
    have "\<not> bit (be_val xs :: ulong) n" if "56 \<le> n"
      by (rule not_bit_above [OF be_val_less]) (use snoc.prems that in auto)
    then show "bit (drop_bit 8 (be_val (xs @ [x])) :: ulong) n = bit (be_val xs :: ulong) n"
      using n by (cases "56 \<le> n") (auto simp: be_val_snoc bit_simps byte_bit_above)
  qed
  moreover have "(ucast (be_val (xs @ [x]) :: ulong) :: byte) = x"
    by (rule bit_word_eqI) (auto simp: be_val_snoc bit_simps)
  ultimately show ?case using snoc by (cases n) simp_all
qed simp

lemma be_bytes_ones: "(\<And>i. i < 8 * n \<Longrightarrow> bit w i) \<Longrightarrow> be_bytes n (w :: 'a::len word) = replicate n 0xFF"
proof (induction n arbitrary: w)
  case (Suc n)
  have "be_bytes n (drop_bit 8 w) = replicate n 0xFF"
    by (rule Suc.IH) (use Suc.prems in \<open>simp add: bit_simps\<close>)
  moreover have "ucast w = (0xFF :: byte)"
    by (rule byte_eqI) (use Suc.prems in \<open>simp add: bit_simps\<close>)
  ultimately show ?case by (simp add: replicate_append_same)
qed simp

lemma indefinite_octets: "be_bytes 8 INDEFINITE_LEN = replicate 8 0xFF"
  by (rule be_bytes_ones) (simp add: INDEFINITE_LEN_def bit_simps)

lemma be_val_all_ones:
  assumes "length xs \<le> 8"
  shows "(be_val xs :: ulong) = INDEFINITE_LEN \<longleftrightarrow> xs = replicate 8 0xFF"
proof
  assume e: "(be_val xs :: ulong) = INDEFINITE_LEN"
  have "8 \<le> length xs"
  proof (rule ccontr)
    assume "\<not> 8 \<le> length xs"
    then have "(2 :: nat) ^ (8 * length xs) \<le> 2 ^ 56" by (intro power_increasing) simp_all
    with be_val_less [OF assms] e show False by (simp add: unat_INDEFINITE_LEN)
  qed
  with assms have "length xs = 8" by simp
  from be_bytes_be_val [OF this] e show "xs = replicate 8 0xFF" by (simp add: indefinite_octets)
next
  have "be_val (be_bytes 8 INDEFINITE_LEN) = INDEFINITE_LEN"
    unfolding be_val_be_bytes by (rule take_bit_small) (simp add: unat_INDEFINITE_LEN)
  moreover assume "xs = replicate 8 0xFF"
  ultimately show "(be_val xs :: ulong) = INDEFINITE_LEN" by (simp only: indefinite_octets)
qed

lemma len_result_indefinite:
  "len_result bd xs = Inr (INDEFINITE_LEN, bd') \<longleftrightarrow>
    (\<exists>ys. xs = 0x80 # ys \<and> bd' = bd + 1 \<or> xs = 0x88 # replicate 8 0xFF @ ys \<and> bd' = bd + 9)"
proof (cases xs)
  case Nil
  then show ?thesis by (simp add: len_result_def)
next
  case (Cons x ys)
  let ?n = "unat (x AND 0x7f)"
  consider "x < 0x80" | "x = 0x80" | "\<not> x < 0x80" "x \<noteq> 0x80" "8 < ?n"
    | "\<not> x < 0x80" "x \<noteq> 0x80" "\<not> 8 < ?n" "length ys < ?n"
    | "\<not> x < 0x80" "x \<noteq> 0x80" "\<not> 8 < ?n" "\<not> length ys < ?n" by blast
  then show ?thesis
  proof cases
    case 1
    moreover have "(ucast x :: ulong) \<noteq> INDEFINITE_LEN"
    proof -
      have "unat x < 2 ^ 8" using unsigned_less [of x] by simp
      then show ?thesis using of_nat_less_indef [of "unat x"] by simp
    qed
    ultimately show ?thesis by (auto simp: Cons len_result_def)
  next
    case 2
    then show ?thesis by (auto simp: Cons len_result_def)
  next
    case 3
    then show ?thesis by (auto simp: Cons len_result_def)
  next
    case 4
    then show ?thesis by (auto simp: Cons len_result_def)
  next
    case 5
    have r: "len_result bd xs = Inr (be_val (take ?n ys), bd + 1 + of_nat ?n)"
      using 5 by (simp add: Cons len_result_def)
    have l: "length (take ?n ys) = ?n" using 5 by simp
    have x: "?n = 8 \<longleftrightarrow> x = 0x88"
    proof
      assume n: "?n = 8"
      have "x AND 0x7f = take_bit 7 x" by (simp add: take_bit_eq_mask mask_eq_exp_minus_1)
      with n have "take_bit 7 (unat x) = 8" by (simp add: unsigned_take_bit_eq)
      then have "unat x mod 128 = 8" by (simp add: take_bit_eq_mod)
      moreover have "128 \<le> unat x" "unat x < 256"
        using 5(1) unsigned_less [of x] by (simp_all add: word_less_nat_alt)
      moreover from this obtain k where "unat x = 128 + k" "k < 128"
        using le_Suc_ex [of 128 "unat x"] by auto
      ultimately have "unat x = 136" by simp
      then show "x = 0x88" by (simp add: word_unat_eq_iff)
    qed simp
    have "(be_val (take ?n ys) :: ulong) = INDEFINITE_LEN \<longleftrightarrow> take ?n ys = replicate 8 0xFF"
      by (rule be_val_all_ones) (use l 5 in simp)
    also have "\<dots> \<longleftrightarrow> x = 0x88 \<and> (\<exists>zs. ys = replicate 8 0xFF @ zs)"
    proof
      assume t: "take ?n ys = replicate 8 0xFF"
      then have "length (take ?n ys) = 8" by simp
      then have "?n = 8" using l by simp
      with t x show "x = 0x88 \<and> (\<exists>zs. ys = replicate 8 0xFF @ zs)" by (metis append_take_drop_id)
    next
      assume "x = 0x88 \<and> (\<exists>zs. ys = replicate 8 0xFF @ zs)"
      then show "take ?n ys = replicate 8 0xFF" using x by auto
    qed
    finally show ?thesis
      unfolding r using 5(2) x by (auto simp: Cons)
  qed
qed

section \<open>Fuel\<close>

lemma fuelled_BDecLen_loop [fuelled_intros]: "fuelled n (BDecLen_loop stream_ops k len)"
  by (induction k arbitrary: len) (simp_all add: fuelled_intros)

lemma fuelled_BDecLen [fuelled_intros]: "fuelled n (BDecLen stream_ops bd)"
  unfolding BDecLen_def by (intro fuelled_intros) simp_all

lemma fuelled_BDEC_2ND_EOC_OCTET [fuelled_intros]: "fuelled n (BDEC_2ND_EOC_OCTET stream_ops bd)"
  unfolding BDEC_2ND_EOC_OCTET_def by (intro fuelled_intros) simp_all

end
