(* ===== verification/Asn_Tag.thy ===== *)
theory Asn_Tag
  imports Asn_Len
begin

text \<open>
  Tags: \<open>c-lib/inc/asn-tag.h\<close> and \<open>c-lib/src/asn-tag.c\<close>. An \<open>AsnTag\<close> is the encoded
  tag shifted to the top of a 32-bit integer, the first octet in its most significant byte.
\<close>

section \<open>Classes, forms and codes\<close>

datatype BER_CLASS = ANY_CLASS | NULL_CLASS | UNIV_CLASS | APPL | CNTX | PRIV

datatype BER_FORM = ANY_FORM | NULL_FORM | PRIM | CONS

datatype BER_UNIV_CODE =
    NO_TAG_CODE | BOOLEAN_TAG_CODE | INTEGER_TAG_CODE | BITSTRING_TAG_CODE | OCTETSTRING_TAG_CODE
  | NULLTYPE_TAG_CODE | OID_TAG_CODE | OD_TAG_CODE | EXTERNAL_TAG_CODE | REAL_TAG_CODE
  | ENUM_TAG_CODE | UTF8STRING_TAG_CODE | RELATIVE_OID_TAG_CODE | SEQ_TAG_CODE | SET_TAG_CODE
  | NUMERICSTRING_TAG_CODE | PRINTABLESTRING_TAG_CODE | TELETEXSTRING_TAG_CODE
  | VIDEOTEXSTRING_TAG_CODE | IA5STRING_TAG_CODE | UTCTIME_TAG_CODE | GENERALIZEDTIME_TAG_CODE
  | GRAPHICSTRING_TAG_CODE | VISIBLESTRING_TAG_CODE | GENERALSTRING_TAG_CODE
  | UNIVERSALSTRING_TAG_CODE | BMPSTRING_TAG_CODE

fun class_val :: "BER_CLASS \<Rightarrow> 32 word" where
  "class_val ANY_CLASS = -2"
| "class_val NULL_CLASS = -1"
| "class_val UNIV_CLASS = 0"
| "class_val APPL = push_bit 6 1"
| "class_val CNTX = push_bit 6 2"
| "class_val PRIV = push_bit 6 3"

fun form_val :: "BER_FORM \<Rightarrow> 32 word" where
  "form_val ANY_FORM = -2"
| "form_val NULL_FORM = -1"
| "form_val PRIM = 0"
| "form_val CONS = push_bit 5 1"

fun code_val :: "BER_UNIV_CODE \<Rightarrow> 32 word" where
  "code_val NO_TAG_CODE = 0"
| "code_val BOOLEAN_TAG_CODE = 1"
| "code_val INTEGER_TAG_CODE = 2"
| "code_val BITSTRING_TAG_CODE = 3"
| "code_val OCTETSTRING_TAG_CODE = 4"
| "code_val NULLTYPE_TAG_CODE = 5"
| "code_val OID_TAG_CODE = 6"
| "code_val OD_TAG_CODE = 7"
| "code_val EXTERNAL_TAG_CODE = 8"
| "code_val REAL_TAG_CODE = 9"
| "code_val ENUM_TAG_CODE = 10"
| "code_val UTF8STRING_TAG_CODE = 12"
| "code_val RELATIVE_OID_TAG_CODE = 13"
| "code_val SEQ_TAG_CODE = 16"
| "code_val SET_TAG_CODE = 17"
| "code_val NUMERICSTRING_TAG_CODE = 18"
| "code_val PRINTABLESTRING_TAG_CODE = 19"
| "code_val TELETEXSTRING_TAG_CODE = 20"
| "code_val VIDEOTEXSTRING_TAG_CODE = 21"
| "code_val IA5STRING_TAG_CODE = 22"
| "code_val UTCTIME_TAG_CODE = 23"
| "code_val GENERALIZEDTIME_TAG_CODE = 24"
| "code_val GRAPHICSTRING_TAG_CODE = 25"
| "code_val VISIBLESTRING_TAG_CODE = 26"
| "code_val GENERALSTRING_TAG_CODE = 27"
| "code_val UNIVERSALSTRING_TAG_CODE = 28"
| "code_val BMPSTRING_TAG_CODE = 30"

definition MAKE_TAG_ID_CODE1 :: "32 word \<Rightarrow> 32 word" where
  "MAKE_TAG_ID_CODE1 cd = push_bit 24 cd"

definition MAKE_TAG_ID_CODE2 :: "32 word \<Rightarrow> 32 word" where
  "MAKE_TAG_ID_CODE2 cd = push_bit 24 31 OR push_bit 16 cd"

definition MAKE_TAG_ID_CODE3 :: "32 word \<Rightarrow> 32 word" where
  "MAKE_TAG_ID_CODE3 cd =
     push_bit 24 31 OR push_bit 9 (cd AND 0x3f80) OR push_bit 16 0x80 OR push_bit 8 (cd AND 0x7F)"

definition MAKE_TAG_ID_CODE4 :: "32 word \<Rightarrow> 32 word" where
  "MAKE_TAG_ID_CODE4 cd =
     push_bit 24 31 OR push_bit 2 (cd AND 0x1fc000) OR push_bit 16 0x80 OR
     push_bit 1 (cd AND 0x3f80) OR push_bit 8 0x80 OR (cd AND 0x7F)"

definition MAKE_TAG_ID_CODE :: "32 word \<Rightarrow> 32 word" where
  "MAKE_TAG_ID_CODE cd =
     (if cd < 31 then MAKE_TAG_ID_CODE1 cd
      else if cd < 128 then MAKE_TAG_ID_CODE2 cd
      else if cd < 16384 then MAKE_TAG_ID_CODE3 cd
      else MAKE_TAG_ID_CODE4 cd)"

definition MAKE_TAG_ID :: "BER_CLASS \<Rightarrow> BER_FORM \<Rightarrow> 32 word \<Rightarrow> AsnTag" where
  "MAKE_TAG_ID cl fm cd =
     push_bit 24 (class_val cl) OR push_bit 24 (form_val fm) OR MAKE_TAG_ID_CODE cd"

definition TAG_ID_CLASS :: "AsnTag \<Rightarrow> 32 word" where
  "TAG_ID_CLASS tid = drop_bit 24 (tid AND push_bit 24 0xC0)"

definition TAG_ID_FORM :: "AsnTag \<Rightarrow> 32 word" where
  "TAG_ID_FORM tid = drop_bit 24 (tid AND push_bit 24 0x20)"

definition TAG_IS_CONS :: "AsnTag \<Rightarrow> bool" where
  "TAG_IS_CONS tag \<longleftrightarrow> tag AND push_bit 24 (form_val CONS) \<noteq> 0"

definition CONSIFY :: "AsnTag \<Rightarrow> AsnTag" where
  "CONSIFY tag = tag OR push_bit 24 (form_val CONS)"

definition DECONSIFY :: "AsnTag \<Rightarrow> AsnTag" where
  "DECONSIFY tag = tag AND NOT (push_bit 24 (form_val CONS))"

definition EOC_TAG_ID :: AsnTag where
  "EOC_TAG_ID = 0"

section \<open>Encoding\<close>

text \<open>
  The tag macros, for a non-negative \<open>code\<close>; each argument of \<open>BufPutByteRvs\<close> is converted
  to \<open>unsigned char\<close>.
\<close>

definition BEncTag1 :: "'b GenBuf \<Rightarrow> BER_CLASS \<Rightarrow> BER_FORM \<Rightarrow> 32 word \<Rightarrow> ('b, AsnLen) prog" where
  "BEncTag1 b cl fm code =
     thenP (putByteRvs b (ucast (class_val cl OR form_val fm OR code))) (returnP 1)"

definition BEncTag2 :: "'b GenBuf \<Rightarrow> BER_CLASS \<Rightarrow> BER_FORM \<Rightarrow> 32 word \<Rightarrow> ('b, AsnLen) prog" where
  "BEncTag2 b cl fm code =
     thenP (putByteRvs b (ucast code))
     (thenP (putByteRvs b (ucast (class_val cl OR form_val fm OR 31))) (returnP 2))"

definition BEncTag3 :: "'b GenBuf \<Rightarrow> BER_CLASS \<Rightarrow> BER_FORM \<Rightarrow> 32 word \<Rightarrow> ('b, AsnLen) prog" where
  "BEncTag3 b cl fm code =
     thenP (putByteRvs b (ucast (code AND 0x7F)))
     (thenP (putByteRvs b (ucast (0x80 OR drop_bit 7 code)))
     (thenP (putByteRvs b (ucast (class_val cl OR form_val fm OR 31))) (returnP 3)))"

definition BEncTag4 :: "'b GenBuf \<Rightarrow> BER_CLASS \<Rightarrow> BER_FORM \<Rightarrow> 32 word \<Rightarrow> ('b, AsnLen) prog" where
  "BEncTag4 b cl fm code =
     thenP (putByteRvs b (ucast (code AND 0x7F)))
     (thenP (putByteRvs b (ucast (0x80 OR drop_bit 7 code)))
     (thenP (putByteRvs b (ucast (0x80 OR drop_bit 14 code)))
     (thenP (putByteRvs b (ucast (class_val cl OR form_val fm OR 31))) (returnP 4))))"

definition BEncTag5 :: "'b GenBuf \<Rightarrow> BER_CLASS \<Rightarrow> BER_FORM \<Rightarrow> 32 word \<Rightarrow> ('b, AsnLen) prog" where
  "BEncTag5 b cl fm code =
     thenP (putByteRvs b (ucast (code AND 0x7F)))
     (thenP (putByteRvs b (ucast (0x80 OR drop_bit 7 code)))
     (thenP (putByteRvs b (ucast (0x80 OR drop_bit 14 code)))
     (thenP (putByteRvs b (ucast (0x80 OR drop_bit 21 code)))
     (thenP (putByteRvs b (ucast (class_val cl OR form_val fm OR 31))) (returnP 5)))))"

text \<open>
  The compiler's back ends number the macro an encoder calls by \<open>TagByteLen\<close>
  (\<open>compiler/back-ends/tag-util.c\<close>).
\<close>

definition TagByteLen :: "ulong \<Rightarrow> ulong" where
  "TagByteLen tagCode =
     (if tagCode < 31 then 1
      else if tagCode < 128 then 2
      else if tagCode < 16384 then 3
      else if tagCode < 2097152 then 4
      else 5)"

definition BEncTagN :: "'b GenBuf \<Rightarrow> BER_CLASS \<Rightarrow> BER_FORM \<Rightarrow> 32 word \<Rightarrow> ('b, AsnLen) prog" where
  "BEncTagN b cl fm code =
     (let n = TagByteLen (ucast code) in
      if n = 1 then BEncTag1 b cl fm code
      else if n = 2 then BEncTag2 b cl fm code
      else if n = 3 then BEncTag3 b cl fm code
      else if n = 4 then BEncTag4 b cl fm code
      else BEncTag5 b cl fm code)"

section \<open>Decoding\<close>

text \<open>
  The do-while loop of the long form, with \<open>sizeof (AsnTag) = 4\<close>; the result is
  \<open>(tagId, *bytesDecoded, i)\<close>.
\<close>

function BDecTag_loop :: "'b GenBuf \<Rightarrow> AsnTag \<Rightarrow> AsnLen \<Rightarrow> nat \<Rightarrow> ('b, AsnTag \<times> AsnLen \<times> nat) prog" where
  "BDecTag_loop b tagId bytesDecoded i =
     bindP (getByte b) (\<lambda>c.
     let tmpTagId = ucast c :: AsnTag;
         tagId = tagId OR push_bit ((4 - i) * 8) tmpTagId;
         bytesDecoded = bytesDecoded + 1
     in if tmpTagId AND 0x80 \<noteq> 0 \<and> i + 1 \<le> 4 then BDecTag_loop b tagId bytesDecoded (i + 1)
        else returnP (tagId, bytesDecoded, i + 1))"
  by pat_completeness auto
termination
  by (relation "measure (\<lambda>(b, t, d, i). 4 - i)") auto

declare BDecTag_loop.simps [simp del]

definition BDecTag :: "'b GenBuf \<Rightarrow> AsnLen \<Rightarrow> ('b, AsnTag \<times> AsnLen) prog" where
  "BDecTag b bytesDecoded =
     bindP (getByte b) (\<lambda>c.
     let tagId = push_bit 24 (ucast c); bytesDecoded = bytesDecoded + 1 in
     bindP
       (if tagId AND push_bit 24 0x1f = push_bit 24 0x1f then
          bindP (BDecTag_loop b tagId bytesDecoded 2) (\<lambda>(tagId, bytesDecoded, i).
          if i > 4 + 1 then longjmp (-25) else returnP (tagId, bytesDecoded))
        else returnP (tagId, bytesDecoded))
     (\<lambda>(tagId, bytesDecoded).
     bindP (readError b) (\<lambda>e.
     if e then longjmp (-26) else returnP (tagId, bytesDecoded))))"

text \<open>
  \<open>PeekTag\<close> peeks 1, 2, ... octets into \<open>buf\<close> and takes the last one of them: \<open>buf\<close>
  is the list of the octets that have been set, and reading another is undefined.
\<close>

function PeekTag_loop :: "'b GenBuf \<Rightarrow> byte list \<Rightarrow> AsnTag \<Rightarrow> nat \<Rightarrow> ('b, AsnTag \<times> nat) prog" where
  "PeekTag_loop b buf tagId i =
     bindP (peekCopy b (of_nat i)) (\<lambda>bs.
     let buf = bs @ drop (length bs) buf in
     case mem_read buf (i - 1) of
       Inl e \<Rightarrow> stopP e
     | Inr c \<Rightarrow>
         let tmpTagId = ucast c :: AsnTag; tagId = tagId OR push_bit ((4 - i) * 8) tmpTagId
         in if tmpTagId AND 0x80 \<noteq> 0 \<and> i + 1 \<le> 4 then PeekTag_loop b buf tagId (i + 1)
            else returnP (tagId, i + 1))"
  by pat_completeness auto
termination
  by (relation "measure (\<lambda>(b, t, d, i). 4 - i)") auto

declare PeekTag_loop.simps [simp del]

definition PeekTag :: "'b GenBuf \<Rightarrow> ('b, AsnTag) prog" where
  "PeekTag b =
     bindP (peekCopy b 1) (\<lambda>buf.
     case mem_read buf 0 of
       Inl e \<Rightarrow> stopP e
     | Inr c \<Rightarrow>
         let tagId = push_bit 24 (ucast c) in
         if tagId AND push_bit 24 0x1f = push_bit 24 0x1f then
           bindP (PeekTag_loop b buf tagId 2) (\<lambda>(tagId, i).
           if i > 4 + 1 then longjmp (-1004) else returnP tagId)
         else returnP tagId)"

section \<open>The same on every buffer\<close>

context byte_reader
begin

lemma BDecTag_loop_sim: "sim I v (=) (BDecTag_loop g t bd i) (BDecTag_loop stream_ops t bd i)"
proof (induction "5 - i" arbitrary: t bd i rule: less_induct)
  case less
  show ?case
    by (subst (1 2) BDecTag_loop.simps)
      (intro sim_bind_eq getByte_sim sim_let sim_if less sim_return refl; arith)
qed

lemma BDecTag_sim: "sim I v (=) (BDecTag g bd) (BDecTag stream_ops bd)"
  unfolding BDecTag_def
  by (intro sim_intros getByte_sim readError_sim BDecTag_loop_sim refl)

end

section \<open>What the decoder does on a stream\<close>

text \<open>
  The octets that follow a leading one of the long form: up to the first whose top bit is clear, and
  at most \<open>k\<close>. \<open>tag_word i\<close> places octets in a tag from its \<open>i\<close>-th byte on.
\<close>

fun tag_tail :: "nat \<Rightarrow> byte list \<Rightarrow> byte list option" where
  "tag_tail k [] = None"
| "tag_tail k (y # ys) =
     (if y AND 0x80 \<noteq> 0 \<and> k > 1 then map_option (Cons y) (tag_tail (k - 1) ys) else Some [y])"

fun tag_word :: "nat \<Rightarrow> byte list \<Rightarrow> AsnTag" where
  "tag_word i [] = 0"
| "tag_word i (y # ys) = push_bit ((4 - i) * 8) (ucast y) OR tag_word (i + 1) ys"

definition tag_result :: "AsnLen \<Rightarrow> byte list \<Rightarrow> stop + AsnTag \<times> AsnLen" where
  "tag_result bd xs =
     (case xs of
        [] \<Rightarrow> Inl (LongJmp (-26))
      | x # ys \<Rightarrow>
          if x AND 0x1f \<noteq> 0x1f then Inr (tag_word 1 [x], bd + 1)
          else (case tag_tail 3 ys of
                  None \<Rightarrow> Inl (LongJmp (-26))
                | Some t \<Rightarrow> Inr (tag_word 1 (x # t), bd + 1 + of_nat (length t))))"

lemma ucast_bit7: "(ucast (x :: byte) :: AsnTag) AND 0x80 = 0 \<longleftrightarrow> x AND 0x80 = 0"
proof -
  have "(ucast x :: AsnTag) AND 0x80 = ucast (x AND 0x80)" by (simp add: unsigned_and_eq)
  then show ?thesis by (simp add: word_unat_eq_iff)
qed

lemma long_form_bits:
  "push_bit 24 (ucast (x :: byte)) AND push_bit 24 0x1f = (push_bit 24 0x1f :: AsnTag) \<longleftrightarrow> x AND 0x1f = 0x1f"
proof -
  have "push_bit 24 (ucast (x AND 0x1f)) = (push_bit 24 (ucast x AND ucast (0x1f :: byte)) :: AsnTag)"
    by (simp only: unsigned_and_eq)
  also have "\<dots> = push_bit 24 (ucast x) AND push_bit 24 (ucast (0x1f :: byte))"
    by (rule push_bit_and)
  finally have "push_bit 24 (ucast x) AND push_bit 24 0x1f = (push_bit 24 (ucast (x AND 0x1f)) :: AsnTag)"
    by simp
  moreover have "push_bit 24 (ucast y) = (push_bit 24 (ucast z) :: AsnTag) \<longleftrightarrow> y = z" for y z :: byte
  proof
    assume e: "push_bit 24 (ucast y) = (push_bit 24 (ucast z) :: AsnTag)"
    have "ucast (drop_bit 24 (push_bit 24 (ucast w) :: AsnTag)) = w" for w :: byte
      by (rule bit_word_eqI) (simp add: bit_simps)
    with e show "y = z" by metis
  qed simp
  moreover have "(push_bit 24 0x1f :: AsnTag) = push_bit 24 (ucast (0x1f :: byte))" by simp
  ultimately show ?thesis by metis
qed

lemmas long_form_simps = long_form_bits long_form_bits [simplified]

lemma BDecTag_loop_stream:
  assumes "i \<le> 4"
  shows "case tag_tail (5 - i) ys of
      None \<Rightarrow> \<exists>t d j. BDecTag_loop stream_ops tagId bd i (stream_of ys) =
        (Inr (t, d, j), \<lparr>rest = [], rerr = True\<rparr>) \<and> j \<le> 5
    | Some t \<Rightarrow> BDecTag_loop stream_ops tagId bd i (stream_of ys) =
        (Inr (tagId OR tag_word i t, bd + of_nat (length t), i + length t), stream_of (drop (length t) ys)) \<and>
        i + length t \<le> 5"
  using assms
proof (induction "5 - i" ys arbitrary: i tagId bd rule: tag_tail.induct)
  case 1
  then show ?case by (subst BDecTag_loop.simps) (simp add: prog_simps)
next
  case (2 y ys)
  show ?case
  proof (cases "y AND 0x80 \<noteq> 0 \<and> 5 - i > 1")
    case True
    from True have i: "i + 1 \<le> 4" "5 - i - 1 = 5 - (i + 1)" by auto
    note IH = "2.hyps" [OF True i(2,1), of "tagId OR push_bit ((4 - i) * 8) (ucast y)" "bd + 1"]
    show ?thesis
    proof (cases "tag_tail (5 - (i + 1)) ys")
      case None
      with IH True i show ?thesis
        by (subst BDecTag_loop.simps) (simp add: prog_simps ucast_bit7)
    next
      case (Some t)
      with IH True i show ?thesis
        by (subst BDecTag_loop.simps) (simp add: prog_simps ucast_bit7 or.assoc)
    qed
  next
    case False
    with 2(2) show ?thesis
      by (subst BDecTag_loop.simps) (auto simp: prog_simps ucast_bit7)
  qed
qed

lemma BDecTag_stream: "fst (BDecTag stream_ops bd (stream_of xs)) = tag_result bd xs"
proof (cases xs)
  case Nil
  then show ?thesis by (simp add: BDecTag_def tag_result_def prog_simps)
next
  case (Cons x ys)
  show ?thesis
    using BDecTag_loop_stream [of 2 "push_bit 24 (ucast x)" "bd + 1" ys]
    by (auto simp: BDecTag_def tag_result_def prog_simps Cons long_form_simps numeral_2_eq_2 [symmetric]
        split: option.splits)
qed

lemma BDecTag_stream_short [prog_simps]:
  "x AND 0x1f \<noteq> 0x1f \<Longrightarrow>
     BDecTag stream_ops bd (stream_of (x # ys)) = (Inr (push_bit 24 (ucast x), bd + 1), stream_of ys)"
  by (simp add: BDecTag_def prog_simps long_form_simps)

lemma BDecTag_stream_long:
  assumes "x AND 0x1f = 0x1f" and "tag_tail 3 (t @ ys) = Some t"
  shows "BDecTag stream_ops bd (stream_of (x # t @ ys)) =
    (Inr (tag_word 1 (x # t), bd + 1 + of_nat (length t)), stream_of ys)"
  using BDecTag_loop_stream [of 2 "push_bit 24 (ucast x)" "bd + 1" "t @ ys"] assms
  by (simp add: BDecTag_def prog_simps long_form_simps numeral_2_eq_2 [symmetric])

section \<open>What the encoders write\<close>

text \<open>The octets of a tag with a code below \<open>2 ^ 21\<close>, in the shortest form.\<close>

definition tag_lead :: "BER_CLASS \<Rightarrow> BER_FORM \<Rightarrow> 32 word \<Rightarrow> byte" where
  "tag_lead cl fm c = ucast (class_val cl OR form_val fm OR c)"

definition tag_octets :: "BER_CLASS \<Rightarrow> BER_FORM \<Rightarrow> 32 word \<Rightarrow> byte list" where
  "tag_octets cl fm cd =
     (if cd < 31 then [tag_lead cl fm cd]
      else if cd < 128 then [tag_lead cl fm 31, ucast cd]
      else if cd < 16384 then
        [tag_lead cl fm 31, ucast (0x80 OR drop_bit 7 cd), ucast (cd AND 0x7F)]
      else
        [tag_lead cl fm 31, ucast (0x80 OR drop_bit 14 cd), ucast (0x80 OR drop_bit 7 cd),
         ucast (cd AND 0x7F)])"

lemma length_tag_octets: "length (tag_octets cl fm cd) \<le> 4"
  by (simp add: tag_octets_def)

context gen_writer
begin

lemma BEncTag1_emits: "cd < 31 \<Longrightarrow> emits W out werr room (BEncTag1 g cl fm cd) 1 (tag_octets cl fm cd)"
  unfolding BEncTag1_def tag_octets_def tag_lead_def
  by (auto intro!: emits_seq [OF putByteRvs_emits] emits_return)

lemma BEncTag2_emits:
  "31 \<le> cd \<Longrightarrow> cd < 128 \<Longrightarrow> emits W out werr room (BEncTag2 g cl fm cd) 2 (tag_octets cl fm cd)"
  unfolding BEncTag2_def tag_octets_def tag_lead_def
  by (auto intro!: emits_seq [OF putByteRvs_emits] emits_return)

lemma BEncTag3_emits:
  "128 \<le> cd \<Longrightarrow> cd < 16384 \<Longrightarrow> emits W out werr room (BEncTag3 g cl fm cd) 3 (tag_octets cl fm cd)"
  unfolding BEncTag3_def tag_octets_def tag_lead_def
  by (auto simp: word_less_nat_alt word_le_nat_alt intro!: emits_seq [OF putByteRvs_emits] emits_return)

lemma BEncTag4_emits:
  "16384 \<le> cd \<Longrightarrow> emits W out werr room (BEncTag4 g cl fm cd) 4 (tag_octets cl fm cd)"
  unfolding BEncTag4_def tag_octets_def tag_lead_def
  by (auto simp: word_less_nat_alt word_le_nat_alt intro!: emits_seq [OF putByteRvs_emits] emits_return)

lemma BEncTagN_emits:
  assumes "unat cd < 2 ^ 21"
  shows "emits W out werr room (BEncTagN g cl fm cd) (TagByteLen (ucast cd)) (tag_octets cl fm cd)"
proof -
  have "(ucast cd :: ulong) < of_nat n \<longleftrightarrow> cd < of_nat n" if "n < 2 ^ 32" for n
    using that by (simp add: word_less_nat_alt unsigned_of_nat take_bit_nat_eq_self)
  from this [of 31] this [of 128] this [of 16384] this [of 2097152] assms
  show ?thesis
    using BEncTag1_emits [of cd cl fm] BEncTag2_emits [of cd cl fm] BEncTag3_emits [of cd cl fm]
      BEncTag4_emits [of cd cl fm]
    by (auto simp: BEncTagN_def TagByteLen_def word_less_nat_alt not_less word_le_nat_alt)
qed

end

section \<open>Round trip on a stream\<close>

definition proper_class :: "BER_CLASS \<Rightarrow> bool" where
  "proper_class cl \<longleftrightarrow> cl \<noteq> ANY_CLASS \<and> cl \<noteq> NULL_CLASS"

definition proper_form :: "BER_FORM \<Rightarrow> bool" where
  "proper_form fm \<longleftrightarrow> fm \<noteq> ANY_FORM \<and> fm \<noteq> NULL_FORM"

lemma byte_of_tag: "push_bit 24 (ucast (ucast w :: byte)) = push_bit 24 (w :: 32 word)"
  by (rule bit_word_eqI) (auto simp: bit_simps)

lemma tag_word_3:
  assumes "unat cd < 2 ^ 14"
  shows "push_bit 16 (ucast (ucast (0x80 OR drop_bit 7 cd) :: byte)) OR
      push_bit 8 (ucast (ucast (cd AND 0x7F) :: byte)) =
    push_bit 9 (cd AND 0x3f80) OR push_bit 16 0x80 OR push_bit 8 (cd AND 0x7F :: 32 word)"
  by (rule word32_eqI) (use not_bit_above [OF assms] in \<open>simp add: bit_simps\<close>)

lemma tag_word_4:
  assumes "unat cd < 2 ^ 21"
  shows "push_bit 16 (ucast (ucast (0x80 OR drop_bit 14 cd) :: byte)) OR
      (push_bit 8 (ucast (ucast (0x80 OR drop_bit 7 cd) :: byte)) OR
      ucast (ucast (cd AND 0x7F) :: byte)) =
    push_bit 2 (cd AND 0x1fc000) OR push_bit 16 0x80 OR push_bit 1 (cd AND 0x3f80) OR
      push_bit 8 0x80 OR (cd AND 0x7F :: 32 word)"
  by (rule word32_eqI) (use not_bit_above [OF assms] in \<open>simp add: bit_simps del: push_bit_Suc\<close>)

lemma tag_lead_low:
  assumes "proper_class cl" and "proper_form fm" and "c \<le> 31"
  shows "tag_lead cl fm c AND 0x1f = ucast c"
proof -
  have "\<not> bit c n" if "5 \<le> n" for n
    using assms(3) that not_bit_above [of c 5 n] by (simp add: word_le_nat_alt)
  then have "ucast (class_val cl OR form_val fm OR c) AND 0x1f = (ucast c :: byte)"
    using assms(1,2)
    by (intro byte_eqI; cases cl; cases fm) (simp_all add: proper_class_def proper_form_def bit_simps)
  then show ?thesis by (simp add: tag_lead_def)
qed

lemma ucast_byte_small: "unat w < 256 \<Longrightarrow> ucast (ucast w :: byte) = (w :: 32 word)"
  by (simp add: word_unat_eq_iff unsigned_take_bit_eq unsigned_ucast_eq take_bit_nat_eq_self)

lemma push_lead:
  "push_bit 24 (ucast (tag_lead cl fm c)) = push_bit 24 (class_val cl) OR push_bit 24 (form_val fm) OR push_bit 24 c"
  by (simp add: tag_lead_def byte_of_tag)

lemma tag_word_octets:
  assumes "unat cd < 2 ^ 21"
  shows "tag_word 1 (tag_octets cl fm cd) = MAKE_TAG_ID cl fm cd"
proof -
  consider "cd < 31" | "\<not> cd < 31" "cd < 128" | "\<not> cd < 31" "\<not> cd < 128" "cd < 16384"
    | "\<not> cd < 31" "\<not> cd < 128" "\<not> cd < 16384" by blast
  then show ?thesis
  proof cases
    case 1
    then show ?thesis
      by (simp add: tag_octets_def MAKE_TAG_ID_def MAKE_TAG_ID_CODE_def MAKE_TAG_ID_CODE1_def push_lead or.assoc)
  next
    case 2
    then have "unat cd < 256" by (simp add: word_less_nat_alt)
    with 2 show ?thesis
      using ucast_byte_small [of cd] push_lead [of cl fm 31]
      by (simp add: tag_octets_def MAKE_TAG_ID_def MAKE_TAG_ID_CODE_def MAKE_TAG_ID_CODE2_def or.assoc)
  next
    case 3
    then have "unat cd < 2 ^ 14" by (simp add: word_less_nat_alt)
    from tag_word_3 [OF this] 3 show ?thesis
      using push_lead [of cl fm 31]
      by (simp add: tag_octets_def MAKE_TAG_ID_def MAKE_TAG_ID_CODE_def MAKE_TAG_ID_CODE3_def or.assoc)
  next
    case 4
    with tag_word_4 [OF assms] show ?thesis
      using push_lead [of cl fm 31]
      by (simp add: tag_octets_def MAKE_TAG_ID_def MAKE_TAG_ID_CODE_def MAKE_TAG_ID_CODE4_def or.assoc)
  qed
qed

lemma low7_top: "(ucast (cd AND 0x7F :: 32 word) :: byte) AND 0x80 = 0"
  by (rule byte_eqI) (simp add: bit_simps)

lemma cont_top: "(ucast (0x80 OR cd :: 32 word) :: byte) AND 0x80 = 0x80"
  by (rule byte_eqI) (simp add: bit_simps)

lemma code7_top:
  assumes "(cd :: 32 word) < 128"
  shows "(ucast cd :: byte) AND 0x80 = 0"
proof -
  have "unat cd < 2 ^ 7" using assms by (simp add: word_less_nat_alt)
  from not_bit_above [OF this] show ?thesis by (intro byte_eqI) (simp add: bit_simps)
qed

lemma BDecTag_tag_octets [prog_simps]:
  assumes "proper_class cl" and "proper_form fm" and "unat cd < 2 ^ 21"
  shows "BDecTag stream_ops bd (stream_of (tag_octets cl fm cd @ ys)) =
    (Inr (MAKE_TAG_ID cl fm cd, bd + of_nat (length (tag_octets cl fm cd))), stream_of ys)"
proof (cases "cd < 31")
  case True
  then have "tag_lead cl fm cd AND 0x1f \<noteq> 0x1f"
    using tag_lead_low [OF assms(1,2), of cd]
    by (auto simp: word_unat_eq_iff word_le_nat_alt word_less_nat_alt unsigned_ucast_eq take_bit_nat_eq_self)
  with True tag_word_octets [OF assms(3), of cl fm] show ?thesis
    by (simp add: tag_octets_def prog_simps)
next
  case False
  have lead: "tag_lead cl fm 31 AND 0x1f = 0x1f"
    using tag_lead_low [OF assms(1,2), of 31] by simp
  from False obtain t where t: "tag_octets cl fm cd = tag_lead cl fm 31 # t"
      and tail: "tag_tail 3 (t @ ys) = Some t"
    using code7_top [of cd] low7_top [of cd, simplified] cont_top [of "drop_bit 7 cd", simplified]
      cont_top [of "drop_bit 14 cd", simplified] that [of "tl (tag_octets cl fm cd)"]
    by (auto simp: tag_octets_def split: if_splits)
  show ?thesis
    using BDecTag_stream_long [OF lead tail] tag_word_octets [OF assms(3), of cl fm]
    by (simp add: t add.assoc)
qed

section \<open>Tag, length, contents\<close>

text \<open>
  Every universal type is written as its contents, their definite length and a one-octet tag, and
  read by checking the tag and handing the length to the contents decoder.
\<close>

definition tlv :: "BER_CLASS \<Rightarrow> BER_FORM \<Rightarrow> 32 word \<Rightarrow> byte list \<Rightarrow> byte list" where
  "tlv cl fm cd xs = tag_octets cl fm cd @ len_octets (of_nat (length xs)) @ xs"

lemma length_tlv: "length (tlv cl fm cd xs) \<le> length xs + 9"
  using length_tag_octets [of cl fm cd] length_len_octets [of "of_nat (length xs)"]
  by (simp add: tlv_def)

context gen_writer
begin

lemma emits_tlv:
  assumes "emits W out werr room m (of_nat (length xs)) xs" and "cd < 31"
  shows "emits W out werr room
    (bindP m (\<lambda>len. bindP (BEncDefLen g len) (\<lambda>l. bindP (BEncTag1 g cl fm cd) (\<lambda>t. returnP (len + l + t)))))
    (of_nat (length (tlv cl fm cd xs))) (tlv cl fm cd xs)"
proof -
  let ?l = "len_octets (of_nat (length xs))"
  have tag: "length (tag_octets cl fm cd) = 1" using assms(2) by (simp add: tag_octets_def)
  have "emits W out werr room
    (bindP m (\<lambda>len. bindP (BEncDefLen g len) (\<lambda>l. bindP (BEncTag1 g cl fm cd) (\<lambda>t. returnP (len + l + t)))))
    (of_nat (length xs) + of_nat (length ?l) + 1) ((([] @ tag_octets cl fm cd) @ ?l) @ xs)"
    by (intro emits_bind [OF assms(1)] emits_bind [OF BEncDefLen_emits] emits_bind [OF BEncTag1_emits]
        emits_return assms(2))
  then show ?thesis by (simp add: tlv_def tag add.assoc add.commute add.left_commute)
qed

end

lemma read_header:
  assumes "proper_class cl" and "proper_form fm" and "cd < 31" and "length xs < 2 ^ 32"
  shows "bindP (BDecTag stream_ops bd) (\<lambda>(tag, bd).
      if tag \<noteq> MAKE_TAG_ID cl fm cd then longjmp n
      else bindP (BDecLen stream_ops bd) (\<lambda>(len, bd). k tag len bd)) (stream_of (tlv cl fm cd xs @ ys)) =
    k (MAKE_TAG_ID cl fm cd) (of_nat (length xs)) (bd + of_nat (length (tlv cl fm cd xs) - length xs))
      (stream_of (xs @ ys))"
proof -
  have cd: "unat cd < 2 ^ 21" using assms(3) by (simp add: word_less_nat_alt)
  have "take_bit 32 (of_nat (length xs) :: ulong) = of_nat (length xs)"
    by (rule take_bit_small) (use assms(4) in \<open>simp add: unsigned_of_nat take_bit_nat_eq_self\<close>)
  then show ?thesis
    using BDecTag_tag_octets [OF assms(1,2) cd] BDecLen_len_octets [of _ "of_nat (length xs)"]
    by (simp add: tlv_def bindP_run add.assoc)
qed

lemma tlv_header_length:
  "(of_nat (length (tlv cl fm cd xs) - length xs) :: ulong) + of_nat (length xs) =
     of_nat (length (tlv cl fm cd xs))"
  by (simp add: tlv_def)

section \<open>Fuel\<close>

lemma fuelled_BDecTag_loop [fuelled_intros]: "fuelled n (BDecTag_loop stream_ops t bd i)"
proof (induction "5 - i" arbitrary: t bd i rule: less_induct)
  case less
  show ?case
    by (subst BDecTag_loop.simps) (intro fuelled_intros less; arith)
qed

text \<open>A tag takes at least one octet of the stream.\<close>

lemma fuelled_tag:
  assumes "\<And>x. fuelled n (f x)"
  shows "fuelled (Suc n) (bindP (BDecTag stream_ops bd) f)"
  unfolding fuelled_def
proof (intro allI impI)
  fix s :: stream assume s: "length (rest s) < Suc n"
  show "fst (bindP (BDecTag stream_ops bd) f s) \<noteq> Inl NoFuel \<and>
      length (rest (snd (bindP (BDecTag stream_ops bd) f s))) \<le> length (rest s)"
  proof (cases "rest s")
    case Nil
    then show ?thesis
      by (simp add: BDecTag_def prog_simps stream_ops_def stream_getByte_def)
  next
    case (Cons x xs)
    let ?s = "s\<lparr>rest := xs\<rparr>"
    define tail where "tail = (\<lambda>c. let tagId = push_bit 24 (ucast (c :: byte)) :: AsnTag; bytesDecoded = bd + 1 in
      bindP (if tagId AND push_bit 24 0x1f = push_bit 24 0x1f then
          bindP (BDecTag_loop stream_ops tagId bytesDecoded 2) (\<lambda>(tagId, bytesDecoded, i).
          if i > 4 + 1 then longjmp (-25) else returnP (tagId, bytesDecoded))
        else returnP (tagId, bytesDecoded))
      (\<lambda>(tagId, bytesDecoded). bindP (readError stream_ops) (\<lambda>e.
       if e then longjmp (-26) else returnP (tagId, bytesDecoded))))"
    have "bindP (BDecTag stream_ops bd) f s = bindP (tail x) f ?s"
      by (simp add: BDecTag_def tail_def bindP_run Cons stream_ops_def stream_getByte_def Let_def)
    moreover have "fuelled n (bindP (tail x) f)"
      unfolding tail_def by (intro fuelled_intros assms) simp_all
    ultimately show ?thesis
      using s Cons by (auto simp: fuelled_def dest!: spec [of _ ?s] intro: le_SucI)
  qed
qed

end
