(* ===== verification/Asn_Octs.thy ===== *)
theory Asn_Octs
  imports Asn_Tag
begin

text \<open>
  OCTET STRING: \<open>c-lib/src/asn-octs.c\<close>, with the string stack of \<open>c-lib/inc/str-stk.h\<close> in
  which the pieces of a constructed string are collected. A value is a length and a block of memory,
  decoded with one octet more for a terminating zero.
\<close>

section \<open>The string stack\<close>

text \<open>
  A piece is a pointer into the buffer and a length; the pointer is represented by the octets it
  refers to. \<open>nextFreeElmt\<close> is the number of pieces. The capacity, enlarged by
  \<open>realloc\<close> as needed, is left out: \<open>malloc\<close> and \<open>realloc\<close> are assumed to succeed here.
\<close>

record StrStk =
  stk :: "(byte list \<times> ulong) list"
  totalByteLen :: ulong

definition RESET_STR_STK :: StrStk where
  "RESET_STR_STK = \<lparr>stk = [], totalByteLen = 0\<rparr>"

definition PUSH_STR :: "byte list \<Rightarrow> ulong \<Rightarrow> StrStk \<Rightarrow> StrStk" where
  "PUSH_STR strPtr strsLen s =
     \<lparr>stk = stk s @ [(strPtr, strsLen)], totalByteLen = totalByteLen s + strsLen\<rparr>"

text \<open>\<open>memcpy (bufCurr, strStkG.stk[curr].str, strStkG.stk[curr].len)\<close> for all pieces in turn.\<close>

fun copy_pieces :: "byte list \<Rightarrow> nat \<Rightarrow> (byte list \<times> ulong) list \<Rightarrow> stop + byte list \<times> nat" where
  "copy_pieces blk bufCurr [] = Inr (blk, bufCurr)"
| "copy_pieces blk bufCurr ((str, len) # ps) =
     (case mem_slice str 0 (unat len) of
        Inl e \<Rightarrow> Inl e
      | Inr bs \<Rightarrow>
          (case blk_write blk bufCurr bs of
             Inl e \<Rightarrow> Inl e
           | Inr blk \<Rightarrow> copy_pieces blk (bufCurr + unat len) ps))"

section \<open>Values and encoding\<close>

record AsnOcts =
  octetLen :: ulong
  octs :: "byte list"

definition BEncAsnOctsContent :: "'b GenBuf \<Rightarrow> AsnOcts \<Rightarrow> ('b, AsnLen) prog" where
  "BEncAsnOctsContent b v =
     bindP (liftP (mem_slice (octs v) 0 (unat (octetLen v)))) (\<lambda>data.
     thenP (putSegRvs b data) (returnP (octetLen v)))"

definition BEncAsnOcts :: "'b GenBuf \<Rightarrow> AsnOcts \<Rightarrow> ('b, AsnLen) prog" where
  "BEncAsnOcts b data =
     bindP (BEncAsnOctsContent b data) (\<lambda>len.
     bindP (BEncDefLen b len) (\<lambda>l.
     bindP (BEncTag1 b UNIV_CLASS PRIM (code_val OCTETSTRING_TAG_CODE)) (\<lambda>t.
     returnP (len + l + t))))"

text \<open>\<open>memcmp\<close> reads both blocks up to the length.\<close>

definition AsnOctsEquiv :: "AsnOcts \<Rightarrow> AsnOcts \<Rightarrow> stop + bool" where
  "AsnOctsEquiv o1 o2 =
     (if octetLen o1 = octetLen o2 then
        (case mem_slice (octs o1) 0 (unat (octetLen o1)) of
           Inl e \<Rightarrow> Inl e
         | Inr xs \<Rightarrow> map_sum id (\<lambda>ys. xs = ys) (mem_slice (octs o2) 0 (unat (octetLen o1))))
      else Inr False)"

section \<open>Decoding\<close>

definition OCTS_PRIM :: AsnTag where
  "OCTS_PRIM = MAKE_TAG_ID UNIV_CLASS PRIM (code_val OCTETSTRING_TAG_CODE)"

definition OCTS_CONS :: AsnTag where
  "OCTS_CONS = MAKE_TAG_ID UNIV_CLASS CONS (code_val OCTETSTRING_TAG_CODE)"

text \<open>
  The \<open>while (1)\<close> loop over the segments of one primitive piece. Each segment but the last is
  not empty, so \<open>Suc elmtLen1\<close> rounds are enough.
\<close>

primrec ref_segs :: "nat \<Rightarrow> 'b GenBuf \<Rightarrow> AsnLen \<Rightarrow> ulong \<Rightarrow> ulong \<Rightarrow> StrStk \<Rightarrow> ('b, StrStk) prog" where
  "ref_segs 0 b elmtLen1 refdLen totalRefdLen s = stopP NoFuel"
| "ref_segs (Suc k) b elmtLen1 refdLen totalRefdLen s =
     bindP (getSeg b refdLen) (\<lambda>(strPtr, refdLen).
     let s = PUSH_STR strPtr refdLen s; totalRefdLen = totalRefdLen + refdLen in
     if totalRefdLen = elmtLen1 then returnP s
     else if refdLen = 0 then longjmp (-18)
     else ref_segs k b elmtLen1 (elmtLen1 - totalRefdLen) totalRefdLen s)"

text \<open>
  The loop of \<open>FillOctetStringStk\<close>, from the value of \<open>totalElmtsLen1\<close>, for the routine's
  \<open>elmtLen0\<close>; the recursive call is the same loop from 0. Every round consumes at least one octet,
  so more fuel than unread octets is enough.
\<close>

primrec FillOctetStringStk_loop ::
  "nat \<Rightarrow> 'b GenBuf \<Rightarrow> AsnLen \<Rightarrow> AsnLen \<Rightarrow> StrStk \<Rightarrow> ('b, StrStk \<times> AsnLen) prog" where
  "FillOctetStringStk_loop 0 b elmtLen0 totalElmtsLen1 s = stopP NoFuel"
| "FillOctetStringStk_loop (Suc k) b elmtLen0 totalElmtsLen1 s =
     (if totalElmtsLen1 < elmtLen0 \<or> elmtLen0 = INDEFINITE_LEN then
        bindP (BDecTag b totalElmtsLen1) (\<lambda>(tagId1, totalElmtsLen1).
        if tagId1 = EOC_TAG_ID \<and> elmtLen0 = INDEFINITE_LEN then
          bindP (BDEC_2ND_EOC_OCTET b totalElmtsLen1) (\<lambda>totalElmtsLen1.
          returnP (s, totalElmtsLen1))
        else
          bindP (BDecLen b totalElmtsLen1) (\<lambda>(elmtLen1, totalElmtsLen1).
          if tagId1 = OCTS_PRIM then
            bindP (ref_segs (Suc (unat elmtLen1)) b elmtLen1 elmtLen1 0 s) (\<lambda>s.
            FillOctetStringStk_loop k b elmtLen0 (totalElmtsLen1 + elmtLen1) s)
          else if tagId1 = OCTS_CONS then
            bindP (FillOctetStringStk_loop k b elmtLen1 0 s) (\<lambda>(s, n).
            FillOctetStringStk_loop k b elmtLen0 (totalElmtsLen1 + n) s)
          else longjmp (-19)))
      else returnP (s, totalElmtsLen1))"

declare ref_segs.simps [simp del] FillOctetStringStk_loop.simps [simp del]

definition FillOctetStringStk ::
  "nat \<Rightarrow> 'b GenBuf \<Rightarrow> AsnLen \<Rightarrow> AsnLen \<Rightarrow> StrStk \<Rightarrow> ('b, StrStk \<times> AsnLen) prog" where
  "FillOctetStringStk fuel b elmtLen0 bytesDecoded s =
     bindP (FillOctetStringStk_loop fuel b elmtLen0 0 s) (\<lambda>(s, totalElmtsLen1).
     returnP (s, bytesDecoded + totalElmtsLen1))"

definition BDecConsAsnOcts :: "nat \<Rightarrow> 'b GenBuf \<Rightarrow> AsnLen \<Rightarrow> AsnLen \<Rightarrow> ('b, AsnOcts \<times> AsnLen) prog" where
  "BDecConsAsnOcts fuel b len bytesDecoded =
     bindP (FillOctetStringStk fuel b len bytesDecoded RESET_STR_STK) (\<lambda>(s, bytesDecoded).
     bindP (Asn1Alloc (totalByteLen s + 1)) (\<lambda>blk.
     bindP (liftP (copy_pieces blk 0 (stk s))) (\<lambda>(blk, bufCurr).
     bindP (liftP (blk_write blk bufCurr [0])) (\<lambda>blk.
     returnP (\<lparr>octetLen = totalByteLen s, octs = blk\<rparr>, bytesDecoded)))))"

definition BDecAsnOctsContent ::
  "nat \<Rightarrow> 'b GenBuf \<Rightarrow> AsnTag \<Rightarrow> AsnLen \<Rightarrow> AsnLen \<Rightarrow> ('b, AsnOcts \<times> AsnLen) prog" where
  "BDecAsnOctsContent fuel b tagId len bytesDecoded =
     (if TAG_IS_CONS tagId then BDecConsAsnOcts fuel b len bytesDecoded
      else if len = INDEFINITE_LEN then longjmp (-67)
      else
        bindP (Asn1Alloc (len + 1)) (\<lambda>blk.
        bindP (copyFcn b len) (\<lambda>bs.
        bindP (liftP (blk_write blk 0 bs)) (\<lambda>blk.
        bindP (readError b) (\<lambda>e.
        if e then longjmp (-20)
        else
          bindP (liftP (blk_write blk (unat len) [0])) (\<lambda>blk.
          returnP (\<lparr>octetLen = len, octs = blk\<rparr>, bytesDecoded + len)))))))"

definition BDecAsnOcts :: "nat \<Rightarrow> 'b GenBuf \<Rightarrow> AsnLen \<Rightarrow> ('b, AsnOcts \<times> AsnLen) prog" where
  "BDecAsnOcts fuel b bytesDecoded =
     bindP (BDecTag b bytesDecoded) (\<lambda>(tag, bytesDecoded).
     if tag \<noteq> OCTS_PRIM \<and> tag \<noteq> OCTS_CONS then longjmp (-40)
     else
       bindP (BDecLen b bytesDecoded) (\<lambda>(elmtLen, bytesDecoded).
       BDecAsnOctsContent fuel b tag elmtLen bytesDecoded))"

section \<open>Pieces of a string\<close>

text \<open>
  A stack holds some octets when its pieces do, in order. How a buffer cuts a string into segments
  does not matter to the result.
\<close>

definition stk_holds :: "StrStk \<Rightarrow> byte list \<Rightarrow> bool" where
  "stk_holds s bs \<longleftrightarrow> (\<forall>(p, n) \<in> set (stk s). n = of_nat (length p) \<and> length p < 2 ^ 31) \<and>
     concat (map fst (stk s)) = bs \<and> totalByteLen s = of_nat (length bs)"

definition same_octets :: "StrStk \<Rightarrow> StrStk \<Rightarrow> bool" where
  "same_octets s s' \<longleftrightarrow> (\<exists>bs. stk_holds s bs \<and> stk_holds s' bs)"

lemma stk_holds_reset [simp]: "stk_holds RESET_STR_STK []"
  by (simp add: stk_holds_def RESET_STR_STK_def)

lemma same_octets_reset: "same_octets RESET_STR_STK RESET_STR_STK"
  by (auto simp: same_octets_def intro: exI [of _ "[]"])

lemma stk_holds_push:
  "stk_holds s bs \<Longrightarrow> length xs < 2 ^ 31 \<Longrightarrow> stk_holds (PUSH_STR xs (of_nat (length xs)) s) (bs @ xs)"
  by (auto simp: stk_holds_def PUSH_STR_def)

lemma copy_pieces_concat:
  assumes "\<forall>(p, n) \<in> set ps. n = of_nat (length p) \<and> length p < 2 ^ 31" and "i \<le> length blk"
  shows "copy_pieces blk i ps =
    (case blk_write blk i (concat (map fst ps)) of
       Inl e \<Rightarrow> Inl e
     | Inr blk' \<Rightarrow> Inr (blk', i + length (concat (map fst ps))))"
  using assms
proof (induction blk i ps rule: copy_pieces.induct)
  case (1 blk i)
  then show ?case by (simp add: blk_write_def mem_put_def)
next
  case (2 blk i str len ps)
  have len: "unat len = length str"
    using 2(2) by (auto intro!: unat_of_nat_small)
  have ps: "\<forall>(p, n) \<in> set ps. n = of_nat (length p) \<and> length p < 2 ^ 31" using 2(2) by simp
  show ?case
  proof (cases "i + length str \<le> length blk")
    case True
    let ?m = "mem_put blk i str"
    have "mem_put ?m (i + length str) ys = mem_put blk i (str @ ys)" for ys
      using True by (simp add: mem_put_def take_drop ac_simps)
    moreover have "copy_pieces ?m (i + length str) ps =
        (case blk_write ?m (i + length str) (concat (map fst ps)) of
           Inl e \<Rightarrow> Inl e
         | Inr blk' \<Rightarrow> Inr (blk', i + length str + length (concat (map fst ps))))"
      using 2(1) [of str ?m] True ps by (simp add: len mem_slice_def blk_write_def)
    ultimately show ?thesis using True
      by (simp add: len mem_slice_def blk_write_def add.assoc)
  next
    case False
    then show ?thesis by (simp add: len mem_slice_def blk_write_def)
  qed
qed

lemma copy_pieces_holds:
  assumes "stk_holds s bs"
  shows "copy_pieces blk 0 (stk s) =
    (case blk_write blk 0 bs of Inl e \<Rightarrow> Inl e | Inr blk' \<Rightarrow> Inr (blk', length bs))"
proof -
  have "concat (map fst (stk s)) = bs" using assms by (simp add: stk_holds_def)
  moreover have "copy_pieces blk 0 (stk s) =
      (case blk_write blk 0 (concat (map fst (stk s))) of
         Inl e \<Rightarrow> Inl e | Inr blk' \<Rightarrow> Inr (blk', 0 + length (concat (map fst (stk s)))))"
    using assms by (intro copy_pieces_concat) (simp_all add: stk_holds_def)
  ultimately show ?thesis by (simp only: add_0)
qed

section \<open>One primitive piece on every buffer\<close>

context gen_reader
begin

lemma ref_segs_result:
  assumes "I b" and "unat elmtLen < 2 ^ 31" and "ttl \<le> elmtLen"
    and "unat elmtLen - unat ttl < k" and "stk_holds s bs"
  shows "\<exists>c. I c \<and>
    (let r = unat elmtLen - unat ttl; xs = rest (v b) in
     if r \<le> length xs then
       (\<exists>s'. ref_segs k g elmtLen (elmtLen - ttl) ttl s b = (Inr s', c) \<and>
          stk_holds s' (bs @ take r xs) \<and> v c = (v b)\<lparr>rest := drop r xs\<rparr>)
     else ref_segs k g elmtLen (elmtLen - ttl) ttl s b = (Inl (LongJmp (-18)), c) \<and>
          v c = (v b)\<lparr>rest := []\<rparr>)"
  using assms
proof (induction k arbitrary: b ttl s bs)
  case 0
  then show ?case by simp
next
  case (Suc k)
  let ?req = "elmtLen - ttl"
  let ?r = "unat elmtLen - unat ttl"
  have req: "unat ?req = ?r" using Suc.prems(3) by (simp add: unat_sub_if' word_le_nat_alt)
  then have "unat ?req < 2 ^ 31" using Suc.prems(2) by linarith
  then obtain ys b' where seg: "getSeg g ?req b = (Inr (ys, of_nat (length ys)), b')"
      and ok: "seg_ok I v b ?req ys b'"
    using getSeg_seg [OF Suc.prems(1)] by blast
  have z: "?req = 0 \<longleftrightarrow> ?r = 0" using req by (metis unat_eq_0)
  from ok have b': "I b'" "v b = (v b')\<lparr>rest := ys @ rest (v b')\<rparr>" "length ys \<le> ?r"
      "ys = [] \<longleftrightarrow> ?r = 0 \<or> rest (v b) = []"
    unfolding seg_ok_def z req by blast+
  have rest: "rest (v b) = ys @ rest (v b')" by (subst b'(2)) simp
  have len: "length ys < 2 ^ 31" using b'(3) Suc.prems(2) by linarith
  have "unat elmtLen < 2 ^ 64" using Suc.prems(2) by (rule order_less_trans) simp
  have tot: "unat (ttl + of_nat (length ys)) = unat ttl + length ys"
    by (rule unat_add_of_nat) (use \<open>unat elmtLen < 2 ^ 64\<close> b'(3) Suc.prems(2,3) [unfolded word_le_nat_alt] in linarith)
  let ?s = "PUSH_STR ys (of_nat (length ys)) s"
  have s: "stk_holds ?s (bs @ ys)" using Suc.prems(5) len by (rule stk_holds_push)
  have upd: "v c = (v b')\<lparr>rest := zs\<rparr> \<longleftrightarrow> v c = (v b)\<lparr>rest := zs\<rparr>" for c zs
    by (subst b'(2)) simp
  show ?case
  proof (cases "ttl + of_nat (length ys) = elmtLen")
    case True
    then have "?r = length ys" using tot by auto
    then show ?thesis
      using True s b'(1) upd [of b' "rest (v b')"]
      by (intro exI [of _ b']) (simp add: ref_segs.simps bindP_run seg Let_def returnP_def rest)
  next
    case False
    then have "unat ttl + length ys \<noteq> unat elmtLen" using tot by (metis word_unat_eq_iff)
    then have less: "length ys < ?r" using b'(3) Suc.prems(3) [unfolded word_le_nat_alt] by linarith
    show ?thesis
    proof (cases "ys = []")
      case True
      with less b'(4) have "rest (v b) = []" by auto
      with True False less b'(1) upd [of b' "[]"] rest show ?thesis
        by (intro exI [of _ b']) (simp add: ref_segs.simps bindP_run seg Let_def stopP_def)
    next
      case ne: False
      have n0: "(of_nat (length ys) :: ulong) \<noteq> 0"
        using ne len unat_of_nat_small [of "length ys"] by (auto simp: word_unat_eq_iff)
      have le: "ttl + of_nat (length ys) \<le> elmtLen"
        using less tot by (simp add: word_le_nat_alt)
      have r': "unat elmtLen - unat (ttl + of_nat (length ys)) = ?r - length ys" using tot by simp
      have "?r - length ys < k" using less ne Suc.prems(4) by (cases ys) auto
      then have k: "unat elmtLen - unat (ttl + of_nat (length ys)) < k" using r' by simp
      have step: "ref_segs (Suc k) g elmtLen ?req ttl s b =
          ref_segs k g elmtLen (elmtLen - (ttl + of_nat (length ys))) (ttl + of_nat (length ys)) ?s b'"
        using False n0 by (simp add: ref_segs.simps bindP_run seg Let_def)
      have fits: "?r \<le> length (rest (v b)) \<longleftrightarrow> ?r - length ys \<le> length (rest (v b'))"
        using less by (auto simp: rest)
      have zs: "bs @ take ?r (rest (v b)) = (bs @ ys) @ take (?r - length ys) (rest (v b'))"
        "drop ?r (rest (v b)) = drop (?r - length ys) (rest (v b'))"
        using less by (simp_all add: rest)
      show ?thesis
        using Suc.IH [OF b'(1) Suc.prems(2) le k s] unfolding Let_def step r' fits zs upd [symmetric] by simp
    qed
  qed
qed

lemma ref_segs_refines:
  assumes "same_octets s s'"
  shows "refines I v same_octets (ref_segs (Suc (unat n)) g n n 0 s) (ref_segs (Suc (unat n)) stream_ops n n 0 s')"
proof (cases "unat n < 2 ^ 31")
  case True
  obtain bs where bs: "stk_holds s bs" "stk_holds s' bs" using assms by (auto simp: same_octets_def)
  show ?thesis
    unfolding refines_def
  proof (intro allI impI, elim conjE)
    fix b assume b: "I b"
    obtain c where c: "I c \<and> (if unat n \<le> length (rest (v b)) then
       (\<exists>s'. ref_segs (Suc (unat n)) g n n 0 s b = (Inr s', c) \<and>
          stk_holds s' (bs @ take (unat n) (rest (v b))) \<and> v c = (v b)\<lparr>rest := drop (unat n) (rest (v b))\<rparr>)
     else ref_segs (Suc (unat n)) g n n 0 s b = (Inl (LongJmp (-18)), c) \<and> v c = (v b)\<lparr>rest := []\<rparr>)"
      using ref_segs_result [OF b True, of 0 "Suc (unat n)", OF _ _ bs(1)]
      unfolding Let_def diff_zero unat_0 by auto
    obtain d where d: "(if unat n \<le> length (rest (v b)) then
       (\<exists>s''. ref_segs (Suc (unat n)) stream_ops n n 0 s' (v b) = (Inr s'', d) \<and>
          stk_holds s'' (bs @ take (unat n) (rest (v b))) \<and> d = (v b)\<lparr>rest := drop (unat n) (rest (v b))\<rparr>)
     else ref_segs (Suc (unat n)) stream_ops n n 0 s' (v b) = (Inl (LongJmp (-18)), d) \<and> d = (v b)\<lparr>rest := []\<rparr>)"
      using st.ref_segs_result [OF TrueI True, of 0 "Suc (unat n)", OF _ _ bs(2), of "v b"]
      unfolding Let_def diff_zero unat_0 id_apply by auto
    from c d show "I (snd (ref_segs (Suc (unat n)) g n n 0 s b)) \<and>
        snd (ref_segs (Suc (unat n)) stream_ops n n 0 s' (v b)) = v (snd (ref_segs (Suc (unat n)) g n n 0 s b)) \<and>
        rel_sum (=) same_octets (fst (ref_segs (Suc (unat n)) g n n 0 s b))
          (fst (ref_segs (Suc (unat n)) stream_ops n n 0 s' (v b)))"
      by (auto simp: same_octets_def split: if_splits)
  qed
next
  case False
  then have "fst (ref_segs (Suc (unat n)) stream_ops n n 0 s' x) = Inl Fault" for x
    by (simp add: ref_segs.simps bindP_run stream_ops_def stream_getSeg_def)
  then show ?thesis by (simp add: refines_def)
qed

abbreviation (input) same_result :: "StrStk \<times> AsnLen \<Rightarrow> StrStk \<times> AsnLen \<Rightarrow> bool" where
  "same_result x y \<equiv> same_octets (fst x) (fst y) \<and> snd x = snd y"

lemma FillOctetStringStk_loop_refines:
  "same_octets s s' \<Longrightarrow>
     refines I v same_result (FillOctetStringStk_loop k g n ttl s) (FillOctetStringStk_loop k stream_ops n ttl s')"
proof (induction k arbitrary: n ttl s s')
  case 0
  then show ?case by (simp add: FillOctetStringStk_loop.simps refines_stop)
next
  case (Suc k)
  have prim: "refines I v same_result
      (bindP (ref_segs (Suc (unat m)) g m m 0 s) (\<lambda>s. FillOctetStringStk_loop k g n t s))
      (bindP (ref_segs (Suc (unat m)) stream_ops m m 0 s') (\<lambda>s. FillOctetStringStk_loop k stream_ops n t s))" for m t
    by (rule refines_bind [OF ref_segs_refines [OF Suc.prems] Suc.IH])
  have cons: "refines I v same_result
      (bindP (FillOctetStringStk_loop k g m 0 s) (\<lambda>(s, i). FillOctetStringStk_loop k g n (t + i) s))
      (bindP (FillOctetStringStk_loop k stream_ops m 0 s') (\<lambda>(s, i). FillOctetStringStk_loop k stream_ops n (t + i) s))" for m t
    by (rule refines_bind [OF Suc.IH [OF Suc.prems]]) (auto intro: Suc.IH)
  show ?case
    unfolding FillOctetStringStk_loop.simps
    by (intro refines_intros prim cons refines_sim [OF BDecTag_sim] refines_sim [OF BDecLen_sim]
        refines_sim [OF BDEC_2ND_EOC_OCTET_sim]) (use Suc.prems in simp_all)
qed

lemma BDecConsAsnOcts_refines:
  "refines I v (=) (BDecConsAsnOcts k g n bd) (BDecConsAsnOcts k stream_ops n bd)"
proof -
  have rest: "refines I v (=)
      (bindP (Asn1Alloc (totalByteLen s + 1)) (\<lambda>blk.
       bindP (liftP (copy_pieces blk 0 (stk s))) (\<lambda>(blk, bufCurr).
       bindP (liftP (blk_write blk bufCurr [0])) (\<lambda>blk.
       returnP (\<lparr>octetLen = totalByteLen s, octs = blk\<rparr>, bd)))))
      (bindP (Asn1Alloc (totalByteLen s' + 1)) (\<lambda>blk.
       bindP (liftP (copy_pieces blk 0 (stk s'))) (\<lambda>(blk, bufCurr).
       bindP (liftP (blk_write blk bufCurr [0])) (\<lambda>blk.
       returnP (\<lparr>octetLen = totalByteLen s', octs = blk\<rparr>, bd)))))" if same: "same_octets s s'" for s s' bd
  proof -
    obtain bs where bs: "stk_holds s bs" "stk_holds s' bs" using same by (auto simp: same_octets_def)
    then have "totalByteLen s = totalByteLen s'" by (simp add: stk_holds_def)
    moreover have "copy_pieces blk 0 (stk s) = copy_pieces blk 0 (stk s')" for blk
      using copy_pieces_holds [OF bs(1)] copy_pieces_holds [OF bs(2)] by simp
    ultimately show ?thesis by (simp only:) (intro refines_intros refl)
  qed
  have "refines I v same_result (FillOctetStringStk k g n bd RESET_STR_STK) (FillOctetStringStk k stream_ops n bd RESET_STR_STK)"
    unfolding FillOctetStringStk_def
    by (rule refines_bind [OF FillOctetStringStk_loop_refines [OF same_octets_reset]])
      (auto intro: refines_return)
  then show ?thesis
    unfolding BDecConsAsnOcts_def by (rule refines_bind) (auto intro: rest)
qed

lemma copy_refines: "refines I v (=) (copyFcn g n) (copyFcn stream_ops n)"
proof (cases "unat n < 2 ^ 31")
  case True
  then show ?thesis by (rule refines_sim [OF copy_sim])
next
  case False
  then show ?thesis by (simp add: refines_def stream_ops_def stream_take_def)
qed

lemma BDecAsnOctsContent_refines:
  "refines I v (=) (BDecAsnOctsContent k g t n bd) (BDecAsnOctsContent k stream_ops t n bd)"
  unfolding BDecAsnOctsContent_def
  by (intro refines_intros BDecConsAsnOcts_refines copy_refines refines_sim [OF readError_sim] refl)

lemma BDecAsnOcts_refines: "refines I v (=) (BDecAsnOcts k g bd) (BDecAsnOcts k stream_ops bd)"
  unfolding BDecAsnOcts_def
  by (intro refines_intros BDecAsnOctsContent_refines refines_sim [OF BDecTag_sim]
      refines_sim [OF BDecLen_sim])

end

section \<open>What the encoder writes\<close>

text \<open>A value in memory: the block holds the announced octets, of which there are fewer than \<open>2 ^ 31 - 1\<close>.\<close>

definition octs_in_memory :: "AsnOcts \<Rightarrow> bool" where
  "octs_in_memory v \<longleftrightarrow> unat (octetLen v) \<le> length (octs v) \<and> unat (octetLen v) < 2 ^ 31 - 1"

definition octs_val :: "AsnOcts \<Rightarrow> byte list" where
  "octs_val v = take (unat (octetLen v)) (octs v)"

lemma length_octs_val: "octs_in_memory v \<Longrightarrow> length (octs_val v) = unat (octetLen v)"
  by (simp add: octs_in_memory_def octs_val_def)

context gen_writer
begin

lemma BEncAsnOctsContent_emits:
  assumes "octs_in_memory v"
  shows "emits W out werr room (BEncAsnOctsContent g v) (of_nat (length (octs_val v))) (octs_val v)"
proof -
  have "length (octs_val v) < 2 ^ 31"
    using assms by (simp add: length_octs_val) (simp add: octs_in_memory_def)
  from emits_seq [OF putSegRvs_emits [OF this] emits_return refl]
  have "emits W out werr room (thenP (putSegRvs g (octs_val v)) (returnP (octetLen v))) (octetLen v) (octs_val v)"
    by simp
  moreover have "BEncAsnOctsContent g v = thenP (putSegRvs g (octs_val v)) (returnP (octetLen v))"
    using assms by (simp add: BEncAsnOctsContent_def mem_slice_def octs_in_memory_def octs_val_def)
  moreover have "of_nat (length (octs_val v)) = octetLen v" by (simp add: length_octs_val [OF assms])
  ultimately show ?thesis by simp
qed

lemma BEncAsnOcts_emits:
  assumes "octs_in_memory v"
  shows "emits W out werr room (BEncAsnOcts g v)
    (of_nat (length (tlv UNIV_CLASS PRIM 4 (octs_val v)))) (tlv UNIV_CLASS PRIM 4 (octs_val v))"
  unfolding BEncAsnOcts_def code_val.simps by (rule emits_tlv [OF BEncAsnOctsContent_emits [OF assms]]) simp

end

lemma AsnOctsEquiv_val:
  assumes "octs_in_memory v" and "octs_in_memory w"
  shows "AsnOctsEquiv v w = Inr (octs_val v = octs_val w)"
proof (cases "octetLen v = octetLen w")
  case True
  with assms show ?thesis
    by (simp add: AsnOctsEquiv_def mem_slice_def octs_in_memory_def octs_val_def)
next
  case False
  then have "unat (octetLen v) \<noteq> unat (octetLen w)" by (simp add: word_unat_eq_iff)
  then have "octs_val v \<noteq> octs_val w" using assms by (metis length_octs_val)
  with False show ?thesis by (simp add: AsnOctsEquiv_def)
qed

section \<open>What the decoder does on a stream\<close>

lemma octs_tags:
  "OCTS_PRIM = 0x04000000" "OCTS_CONS = 0x24000000" "TAG_IS_CONS OCTS_CONS" "\<not> TAG_IS_CONS OCTS_PRIM"
  by (simp_all add: OCTS_PRIM_def OCTS_CONS_def MAKE_TAG_ID_def MAKE_TAG_ID_CODE_def
      MAKE_TAG_ID_CODE1_def TAG_IS_CONS_def)

text \<open>A tag of one octet and a definite length, read in turn.\<close>

lemma tag_octets_octs:
  "tag_octets UNIV_CLASS PRIM 4 = [0x04]" "tag_octets UNIV_CLASS CONS 4 = [0x24]"
  by (simp_all add: tag_octets_def tag_lead_def)

lemma BDecTag_octs [prog_simps]:
  "BDecTag stream_ops bd (stream_of (0x04 # ys)) = (Inr (OCTS_PRIM, bd + 1), stream_of ys)"
  "BDecTag stream_ops bd (stream_of (0x24 # ys)) = (Inr (OCTS_CONS, bd + 1), stream_of ys)"
  by (simp_all add: prog_simps octs_tags)

lemma BDecLen_small:
  "n < 2 ^ 32 \<Longrightarrow> BDecLen stream_ops bd (stream_of (len_octets (of_nat n) @ ys)) =
     (Inr (of_nat n, bd + of_nat (length (len_octets (of_nat n)))), stream_of ys)"
  by (simp add: BDecLen_len_octets take_bit_small unat_of_nat_small)

lemma BDecAsnOctsContent_prim:
  assumes "length xs < 2 ^ 31 - 1"
  shows "BDecAsnOctsContent k stream_ops OCTS_PRIM (of_nat (length xs)) bd (stream_of (xs @ ys)) =
    (Inr (\<lparr>octetLen = of_nat (length xs), octs = xs @ [0]\<rparr>, bd + of_nat (length xs)), stream_of ys)"
proof -
  have len: "unat (of_nat (length xs) :: ulong) = length xs"
    "unat (of_nat (length xs) + 1 :: ulong) = Suc (length xs)"
    using assms unat_of_nat_small [of "length xs"] unat_of_nat_small [of "Suc (length xs)"]
    by (simp_all add: add.commute)
  moreover have "of_nat (length xs) \<noteq> INDEFINITE_LEN"
    using assms by (intro of_nat_less_indef) simp
  moreover have "mem_put (replicate (Suc (length xs)) 0) 0 xs = xs @ [0]"
    by (simp add: mem_put_def drop_replicate del: replicate_Suc) simp
  moreover have "mem_put (xs @ [0]) (length xs) [0] = xs @ [0]"
    by (simp add: mem_put_def)
  ultimately show ?thesis
    using assms by (simp add: BDecAsnOctsContent_def octs_tags(4) prog_simps blk_write_def)
qed

lemma BDecAsnOcts_tlv:
  assumes "length xs < 2 ^ 31 - 1"
  shows "BDecAsnOcts k stream_ops bd (stream_of (tlv UNIV_CLASS PRIM 4 xs @ ys)) =
    (Inr (\<lparr>octetLen = of_nat (length xs), octs = xs @ [0]\<rparr>,
       bd + of_nat (length (tlv UNIV_CLASS PRIM 4 xs))), stream_of ys)"
proof -
  have "length xs < 2 ^ 32" using assms by simp
  then show ?thesis
    using BDecAsnOctsContent_prim [OF assms, of k _ ys]
    by (simp add: BDecAsnOcts_def tlv_def tag_octets_octs prog_simps BDecLen_small add.assoc)
qed

section \<open>Constructed encodings\<close>

text \<open>
  The forms of a definite length of BER (X.690, 8.1.3): one octet below 128, or a leading octet that
  counts up to eight octets that follow, leading zeros allowed. The standard allows more than eight;
  \<open>BDecLen\<close> refuses those. \<open>BEncDefLen\<close> writes the form \<open>own_form\<close>.
\<close>

datatype len_form = ShortForm | LongForm nat

fun len_fits :: "len_form \<Rightarrow> nat \<Rightarrow> bool" where
  "len_fits ShortForm n \<longleftrightarrow> n < 128"
| "len_fits (LongForm k) n \<longleftrightarrow> 0 < k \<and> k \<le> 8 \<and> n < 256 ^ k"

fun form_octets :: "len_form \<Rightarrow> nat \<Rightarrow> byte list" where
  "form_octets ShortForm n = [of_nat n]"
| "form_octets (LongForm k) n = (0x80 OR of_nat k) # be_bytes k (of_nat n :: AsnLen)"

definition own_form :: "nat \<Rightarrow> len_form" where
  "own_form n = (if n < 128 then ShortForm else if n < 256 then LongForm 1 else if n < 65536 then LongForm 2
     else if n < 16777126 then LongForm 3 else LongForm 4)"

lemma be_bytes_two: "be_bytes 2 w = [ucast (drop_bit 8 w), ucast w]"
  by (simp add: numeral_2_eq_2)

lemma own_form_fits: "n < 2 ^ 32 \<Longrightarrow> len_fits (own_form n) n"
  by (simp add: own_form_def)

lemma form_octets_own: "n < 2 ^ 32 \<Longrightarrow> form_octets (own_form n) n = len_octets (of_nat n)"
  by (simp add: own_form_def len_octets_def word_less_nat_alt unat_of_nat_small unsigned_of_nat
      take_bit_nat_eq_self del: be_bytes.simps)

lemma form_octets_pos [simp]: "form_octets lf n \<noteq> []"
  by (cases lf) simp_all

lemma BDecLen_form:
  assumes "len_fits lf n" and "n < 2 ^ 32"
  shows "BDecLen stream_ops bd (stream_of (form_octets lf n @ ys)) =
    (Inr (of_nat n, bd + of_nat (length (form_octets lf n))), stream_of ys)"
proof (cases lf)
  case ShortForm
  have "(of_nat n :: byte) < 0x80" "ucast (of_nat n :: byte) = (of_nat n :: ulong)"
    using assms ShortForm
    by (simp_all add: word_less_nat_alt word_unat_eq_iff unsigned_of_nat unsigned_ucast_eq take_bit_nat_eq_self)
  then show ?thesis using ShortForm by (simp add: prog_simps)
next
  case (LongForm k)
  have "(256::nat) ^ k = 2 ^ (8 * k)" by (simp add: power_mult)
  with assms LongForm have "take_bit (8 * k) (of_nat n :: ulong) = of_nat n"
    by (simp add: take_bit_small unat_of_nat_small)
  then show ?thesis using assms LongForm BDecLen_prefix [of k bd "of_nat n" ys] by simp
qed

text \<open>
  The encodings BER allows for an octet string: primitive, with a length in any form, or constructed
  from such encodings with a length in any form or an indefinite one (\<open>None\<close>), to any depth.
\<close>

datatype ostring = OPrim len_form "byte list" | OCons "len_form option" "ostring list"

primrec ostring_octets :: "ostring \<Rightarrow> byte list" where
  "ostring_octets (OPrim lf xs) = xs"
| "ostring_octets (OCons lf ts) = concat (map ostring_octets ts)"

primrec ber_octets :: "ostring \<Rightarrow> byte list" where
  "ber_octets (OPrim lf xs) = 0x04 # form_octets lf (length xs) @ xs"
| "ber_octets (OCons lf ts) =
     (let c = concat (map ber_octets ts) in
      case lf of
        None \<Rightarrow> 0x24 # 0x80 # c @ [0, 0]
      | Some f \<Rightarrow> 0x24 # form_octets f (length c) @ c)"

text \<open>An encoding is one of BER when each of its lengths fits its form.\<close>

fun ber_lengths :: "ostring \<Rightarrow> bool" where
  "ber_lengths (OPrim lf xs) \<longleftrightarrow> len_fits lf (length xs)"
| "ber_lengths (OCons lf ts) \<longleftrightarrow>
     (case lf of None \<Rightarrow> True | Some f \<Rightarrow> len_fits f (length (concat (map ber_octets ts)))) \<and>
     list_all ber_lengths ts"

lemma length_ber_octets_cons:
  "length (concat (map ber_octets ts)) + 2 \<le> length (ber_octets (OCons lf ts))"
  by (cases lf) (simp_all add: Let_def Suc_le_eq)

primrec push_ostring :: "ostring \<Rightarrow> StrStk \<Rightarrow> StrStk" where
  "push_ostring (OPrim lf xs) = PUSH_STR xs (of_nat (length xs))"
| "push_ostring (OCons lf ts) = fold (\<lambda>f s. f s) (map push_ostring ts)"

lemma stk_holds_push_ostring:
  "length (ber_octets t) < 2 ^ 31 \<Longrightarrow> stk_holds s bs \<Longrightarrow> stk_holds (push_ostring t s) (bs @ ostring_octets t)"
proof (induction t arbitrary: s bs)
  case (OPrim lf xs)
  then show ?case by (simp add: stk_holds_push)
next
  case (OCons lf ts)
  then have "length (concat (map ber_octets ts)) < 2 ^ 31"
    using length_ber_octets_cons [of ts lf] by linarith
  then show ?case using OCons.IH OCons.prems(2)
  proof (induction ts arbitrary: s bs)
    case (Cons t ts)
    then have "stk_holds (push_ostring t s) (bs @ ostring_octets t)" by simp
    with Cons show ?case by (simp del: append_assoc add: append_assoc [symmetric])
  qed simp
qed

lemma ref_segs_stream:
  assumes "length xs < 2 ^ 31"
  shows "ref_segs (Suc k) stream_ops (of_nat (length xs)) (of_nat (length xs)) 0 s (stream_of (xs @ ys)) =
    (Inr (PUSH_STR xs (of_nat (length xs)) s), stream_of ys)"
  using assms unat_of_nat_small [of "length xs"]
  by (simp add: ref_segs.simps bindP_run stream_ops_def stream_getSeg_def Let_def returnP_def)

lemma BDecLen_indef [prog_simps]:
  "BDecLen stream_ops bd (stream_of (0x80 # ys)) = (Inr (INDEFINITE_LEN, bd + 1), stream_of ys)"
  by (simp add: BDecLen_def prog_simps)

lemma BDecTag_eoc [prog_simps]:
  "BDecTag stream_ops bd (stream_of (0 # ys)) = (Inr (EOC_TAG_ID, bd + 1), stream_of ys)"
  by (simp add: prog_simps EOC_TAG_ID_def)

lemma BDEC_2ND_EOC_stream [prog_simps]:
  "BDEC_2ND_EOC_OCTET stream_ops bd (stream_of (0 # ys)) = (Inr (bd + 1), stream_of ys)"
  by (simp add: BDEC_2ND_EOC_OCTET_def prog_simps)

lemma octs_tags_neq: "OCTS_PRIM \<noteq> EOC_TAG_ID" "OCTS_CONS \<noteq> EOC_TAG_ID" "OCTS_CONS \<noteq> OCTS_PRIM"
  by (simp_all add: octs_tags EOC_TAG_ID_def)

text \<open>
  One element, and a sequence of elements, as the loop meets them: \<open>n\<close> is the length of the
  enclosing encoding, of which \<open>ttl\<close> octets have been read.
\<close>

abbreviation (input) loop_goes_on :: "AsnLen \<Rightarrow> nat \<Rightarrow> nat \<Rightarrow> bool" where
  "loop_goes_on n ttl len \<equiv> n = INDEFINITE_LEN \<or> (ttl + len \<le> unat n \<and> unat n < 2 ^ 31)"

definition reads_elmt :: "ostring \<Rightarrow> bool" where
  "reads_elmt t \<longleftrightarrow>
     (\<forall>k n ttl s ys. length (ber_octets t) \<le> k \<longrightarrow> loop_goes_on n ttl (length (ber_octets t)) \<longrightarrow>
        FillOctetStringStk_loop (Suc k) stream_ops n (of_nat ttl) s (stream_of (ber_octets t @ ys)) =
        FillOctetStringStk_loop k stream_ops n (of_nat (ttl + length (ber_octets t))) (push_ostring t s)
          (stream_of ys))"

lemma BDecTag_ber_octets:
  obtains tg ys where "ber_octets t = tg # ys" and "tg \<noteq> 0"
proof (cases t)
  case (OCons lf ts)
  then show ?thesis using that by (cases lf) (simp_all add: Let_def)
qed (use that in simp)

lemma reads_elmts:
  assumes "\<And>t. t \<in> set ts \<Longrightarrow> reads_elmt t" and "length (concat (map ber_octets ts)) \<le> k"
    and "loop_goes_on n ttl (length (concat (map ber_octets ts)))"
  shows "\<exists>k'. k \<le> k' + length (concat (map ber_octets ts)) \<and>
    FillOctetStringStk_loop (Suc k) stream_ops n (of_nat ttl) s (stream_of (concat (map ber_octets ts) @ ys)) =
    FillOctetStringStk_loop (Suc k') stream_ops n (of_nat (ttl + length (concat (map ber_octets ts))))
      (fold (\<lambda>f s. f s) (map push_ostring ts) s) (stream_of ys)"
  using assms
proof (induction ts arbitrary: k ttl s)
  case Nil
  then show ?case by auto
next
  case (Cons t ts)
  let ?t = "length (ber_octets t)" and ?r = "concat (map ber_octets ts)"
  obtain tg zs where t: "ber_octets t = tg # zs" by (rule BDecTag_ber_octets)
  have "reads_elmt t" using Cons.prems(1) by simp
  moreover have "?t \<le> k" "loop_goes_on n ttl ?t" using Cons.prems(2,3) by auto
  ultimately have step: "FillOctetStringStk_loop (Suc k) stream_ops n (of_nat ttl) s (stream_of (ber_octets t @ ?r @ ys)) =
      FillOctetStringStk_loop k stream_ops n (of_nat (ttl + ?t)) (push_ostring t s) (stream_of (?r @ ys))"
    unfolding reads_elmt_def by blast
  from Cons.prems(2) t obtain k1 where k: "k = Suc k1" by (cases k) auto
  then have "length ?r \<le> k1" "loop_goes_on n (ttl + ?t) (length ?r)"
    using Cons.prems(2,3) t by auto
  then obtain k' where "k1 \<le> k' + length ?r" and
    "FillOctetStringStk_loop (Suc k1) stream_ops n (of_nat (ttl + ?t)) (push_ostring t s) (stream_of (?r @ ys)) =
     FillOctetStringStk_loop (Suc k') stream_ops n (of_nat (ttl + ?t + length ?r))
       (fold (\<lambda>f s. f s) (map push_ostring ts) (push_ostring t s)) (stream_of ys)"
    using Cons.IH [of k1 "ttl + ?t" "push_ostring t s"] Cons.prems(1) by auto
  with step k t show ?case by (intro exI [of _ k']) (simp add: add.assoc)
qed

lemma loop_test:
  assumes "loop_goes_on n ttl len" and "0 < len"
  shows "of_nat ttl < n \<or> n = INDEFINITE_LEN"
proof -
  have "of_nat ttl < n" if "ttl + len \<le> unat n" "unat n < 2 ^ 31"
    using that assms(2) unat_of_nat_small [of ttl] by (simp add: word_less_nat_alt)
  with assms(1) show ?thesis by blast
qed

lemma reads_prim:
  assumes "length (ber_octets (OPrim lf xs)) < 2 ^ 31" and "len_fits lf (length xs)"
  shows "reads_elmt (OPrim lf xs)"
  unfolding reads_elmt_def
proof (intro allI impI)
  fix k n ttl s ys
  assume go: "loop_goes_on n ttl (length (ber_octets (OPrim lf xs)))"
  have "of_nat ttl < n \<or> n = INDEFINITE_LEN" by (rule loop_test [OF go]) simp
  moreover have l: "length xs < 2 ^ 31" "length xs < 2 ^ 32" using assms by simp_all
  moreover have "unat (of_nat (length xs) :: ulong) = length xs" by (rule unat_of_nat_small) (use l(1) in simp)
  ultimately show "FillOctetStringStk_loop (Suc k) stream_ops n (of_nat ttl) s (stream_of (ber_octets (OPrim lf xs) @ ys)) =
    FillOctetStringStk_loop k stream_ops n (of_nat (ttl + length (ber_octets (OPrim lf xs)))) (push_ostring (OPrim lf xs) s)
      (stream_of ys)"
    using BDecLen_form [OF assms(2) l(2)] ref_segs_stream [OF l(1), of "length xs" s ys]
    by (simp add: FillOctetStringStk_loop.simps prog_simps octs_tags_neq add_ac)
qed

lemma reads_contents:
  assumes "\<And>t. t \<in> set ts \<Longrightarrow> reads_elmt t"
    and "length (concat (map ber_octets ts)) < k" and "length (concat (map ber_octets ts)) < 2 ^ 31 - 1"
    and "m = (if lf = None then INDEFINITE_LEN else of_nat (length (concat (map ber_octets ts))))"
    and "zs = (if lf = None then [0, 0] else []) @ ys" and "d = (if lf = None then 2 else 0)"
  shows "FillOctetStringStk_loop k stream_ops m 0 s (stream_of (concat (map ber_octets ts) @ zs)) =
    (Inr (push_ostring (OCons lf ts) s, of_nat (length (concat (map ber_octets ts)) + d)), stream_of ys)"
proof -
  let ?c = "concat (map ber_octets ts)" and ?s = "push_ostring (OCons lf ts) s"
  obtain k1 where k1: "k = Suc k1" "length ?c \<le> k1" using assms(2) by (cases k) auto
  have n0: "unat (of_nat (length ?c) :: ulong) = length ?c"
    by (rule unat_of_nat_small) (use assms(3) in simp)
  have go: "loop_goes_on m 0 (length ?c)"
    using assms(3,4) n0 by (cases lf) simp_all
  obtain k' where "FillOctetStringStk_loop (Suc k1) stream_ops m (of_nat 0) s (stream_of (?c @ zs)) =
      FillOctetStringStk_loop (Suc k') stream_ops m (of_nat (0 + length ?c)) ?s (stream_of zs)"
    using reads_elmts [OF assms(1) k1(2) go, of s zs] by auto
  moreover have "FillOctetStringStk_loop (Suc k') stream_ops m (of_nat (length ?c)) ?s (stream_of zs) =
      (Inr (?s, of_nat (length ?c + d)), stream_of ys)"
    using of_nat_less_indef [of "length ?c"] assms(3)
    by (simp add: assms(4-6) prog_simps FillOctetStringStk_loop.simps add.commute)
  ultimately show ?thesis unfolding k1(1) by simp
qed

lemma reads_cons:
  assumes "length (ber_octets (OCons lf ts)) < 2 ^ 31" and "\<And>t. t \<in> set ts \<Longrightarrow> reads_elmt t"
    and "\<And>f. lf = Some f \<Longrightarrow> len_fits f (length (concat (map ber_octets ts)))"
  shows "reads_elmt (OCons lf ts)"
  unfolding reads_elmt_def
proof (intro allI impI)
  fix k n ttl s ys
  let ?enc = "ber_octets (OCons lf ts)" and ?c = "concat (map ber_octets ts)"
  assume k: "length ?enc \<le> k" and go: "loop_goes_on n ttl (length ?enc)"
  have loop: "of_nat ttl < n \<or> n = INDEFINITE_LEN"
    by (rule loop_test [OF go]) (use length_ber_octets_cons [of ts lf] in linarith)
  have c: "length ?c < k" "length ?c < 2 ^ 31 - 1" "length ?c < 2 ^ 32"
    using assms(1) k length_ber_octets_cons [of ts lf] by simp_all
  note inner = reads_contents [OF assms(2) c(1,2) refl refl refl, of lf s ys]
  show "FillOctetStringStk_loop (Suc k) stream_ops n (of_nat ttl) s (stream_of (?enc @ ys)) =
    FillOctetStringStk_loop k stream_ops n (of_nat (ttl + length ?enc)) (push_ostring (OCons lf ts) s) (stream_of ys)"
  proof (cases lf)
    case None
    then show ?thesis
      using loop inner
      by (simp add: FillOctetStringStk_loop.simps prog_simps octs_tags_neq Let_def add_ac del: push_ostring.simps)
  next
    case (Some f)
    then show ?thesis
      using loop inner BDecLen_form [OF assms(3) [OF Some] c(3)]
      by (simp add: FillOctetStringStk_loop.simps prog_simps octs_tags_neq Let_def add_ac del: push_ostring.simps)
  qed
qed

lemma reads_all: "length (ber_octets t) < 2 ^ 31 \<Longrightarrow> ber_lengths t \<Longrightarrow> reads_elmt t"
proof (induction t)
  case (OPrim lf xs)
  then show ?case by (simp add: reads_prim)
next
  case (OCons lf ts)
  have "length (concat (map ber_octets ts)) < 2 ^ 31"
    using OCons.prems(1) length_ber_octets_cons [of ts lf] by linarith
  moreover have "length (ber_octets t) \<le> length (concat (map ber_octets ts))" if "t \<in> set ts" for t
    using that by (induction ts) auto
  ultimately show ?case
    using OCons by (intro reads_cons) (auto intro: order_le_less_trans simp: list_all_iff)
qed

text \<open>\<open>BDecAsnOcts\<close> reads every encoding of an octet string, and returns its octets.\<close>

lemma length_ostring_octets: "length (ostring_octets t) \<le> length (ber_octets t)"
proof (induction t)
  case (OCons lf ts)
  then have "length (concat (map ostring_octets ts)) \<le> length (concat (map ber_octets ts))"
    by (induction ts) (auto intro: add_mono)
  then show ?case using length_ber_octets_cons [of ts lf] by simp
qed simp

lemma BDecConsAsnOcts_holds:
  assumes "FillOctetStringStk_loop k stream_ops n 0 RESET_STR_STK s = (Inr (st, m), s')"
    and "stk_holds st bs" and "length bs < 2 ^ 31 - 1"
  shows "BDecConsAsnOcts k stream_ops n bd s =
    (Inr (\<lparr>octetLen = of_nat (length bs), octs = bs @ [0]\<rparr>, bd + m), s')"
proof -
  have len: "unat (totalByteLen st + 1) = Suc (length bs)" "totalByteLen st = of_nat (length bs)"
    using assms(2,3) unat_of_nat_small [of "Suc (length bs)"] by (simp_all add: stk_holds_def add.commute)
  have "mem_put (replicate (Suc (length bs)) 0) 0 bs = bs @ [0]"
    by (simp add: mem_put_def drop_replicate del: replicate_Suc) simp
  moreover have "mem_put (bs @ [0]) (length bs) [0] = bs @ [0]"
    by (simp add: mem_put_def)
  ultimately show ?thesis
    using assms(1,3) len
    by (simp add: BDecConsAsnOcts_def FillOctetStringStk_def prog_simps blk_write_def
        copy_pieces_holds [OF assms(2)] del: replicate_Suc)
qed

lemma BDecAsnOctsContent_form:
  "TAG_IS_CONS t = TAG_IS_CONS t' \<Longrightarrow> BDecAsnOctsContent k g t n bd = BDecAsnOctsContent k g t' n bd"
  by (simp add: BDecAsnOctsContent_def)

primrec is_cons :: "ostring \<Rightarrow> bool" where
  "is_cons (OPrim lf xs) = False"
| "is_cons (OCons lf ts) = True"

lemma BDecAsnOctsContent_ber:
  assumes "length (ber_octets t) < 2 ^ 31 - 1" and "length (ber_octets t) \<le> k" and "TAG_IS_CONS tag = is_cons t"
    and "ber_lengths t"
  shows "bindP (BDecLen stream_ops bd) (\<lambda>(n, bd). BDecAsnOctsContent k stream_ops tag n bd)
      (stream_of (tl (ber_octets t) @ ys)) =
    (Inr (\<lparr>octetLen = of_nat (length (ostring_octets t)), octs = ostring_octets t @ [0]\<rparr>,
       bd + of_nat (length (tl (ber_octets t)))), stream_of ys)"
proof (cases t)
  case (OPrim lf xs)
  have "BDecAsnOctsContent k stream_ops tag n bd = BDecAsnOctsContent k stream_ops OCTS_PRIM n bd" for n bd
    by (rule BDecAsnOctsContent_form) (use assms(3) OPrim in \<open>simp add: octs_tags(4)\<close>)
  moreover have "length xs < 2 ^ 31 - 1" "len_fits lf (length xs)" using assms(1,4) OPrim by simp_all
  ultimately show ?thesis
    using OPrim by (simp add: BDecAsnOctsContent_prim bindP_run BDecLen_form add.assoc)
next
  case (OCons lf ts)
  let ?c = "concat (map ber_octets ts)" and ?b = "concat (map ostring_octets ts)"
  have c: "length ?c < k" "length ?c < 2 ^ 31 - 1" "length ?c < 2 ^ 32"
    using assms(1,2) OCons length_ber_octets_cons [of ts lf] by simp_all
  have "reads_elmt t" if "t \<in> set ts" for t
  proof (rule reads_all)
    have "length (ber_octets t) \<le> length ?c" using that by (induction ts) auto
    then show "length (ber_octets t) < 2 ^ 31" using c(2) by linarith
    show "ber_lengths t" using that assms(4) OCons by (simp add: list_all_iff)
  qed
  note loop = reads_contents [OF this c(1,2) refl refl refl, of lf RESET_STR_STK ys]
  have "stk_holds (push_ostring (OCons lf ts) RESET_STR_STK) ([] @ ostring_octets (OCons lf ts))"
    by (rule stk_holds_push_ostring) (use assms(1) OCons in simp_all)
  then have holds: "stk_holds (push_ostring (OCons lf ts) RESET_STR_STK) ?b" by simp
  have b: "length ?b < 2 ^ 31 - 1"
    using length_ostring_octets [of t] assms(1) OCons by simp
  have cons: "TAG_IS_CONS tag" using assms(3) OCons by simp
  note run = BDecConsAsnOcts_holds [OF loop holds b]
  show ?thesis
  proof (cases lf)
    case None
    then show ?thesis using run cons OCons
      by (simp add: BDecAsnOctsContent_def prog_simps Let_def add_ac del: push_ostring.simps)
  next
    case (Some f)
    have "len_fits f (length ?c)" using assms(4) OCons Some by simp
    from BDecLen_form [OF this c(3)] show ?thesis using run cons OCons Some
      by (simp add: BDecAsnOctsContent_def prog_simps Let_def add_ac del: push_ostring.simps)
  qed
qed

lemma ber_octets_lead: "ber_octets t = (if is_cons t then 0x24 else 0x04) # tl (ber_octets t)"
  by (cases t) (simp_all add: Let_def split: option.splits)

lemma BDecAsnOcts_ber:
  assumes "length (ber_octets t) < 2 ^ 31 - 1" and "length (ber_octets t) \<le> k"
    and "ber_lengths t"
  shows "BDecAsnOcts k stream_ops bd (stream_of (ber_octets t @ ys)) =
    (Inr (\<lparr>octetLen = of_nat (length (ostring_octets t)), octs = ostring_octets t @ [0]\<rparr>,
       bd + of_nat (length (ber_octets t))), stream_of ys)"
proof -
  let ?tag = "if is_cons t then OCTS_CONS else OCTS_PRIM"
  obtain zs where zs: "ber_octets t = (if is_cons t then 0x24 else 0x04) # zs" "tl (ber_octets t) = zs"
    using ber_octets_lead by blast
  have tag: "TAG_IS_CONS ?tag = is_cons t" by (simp add: octs_tags(3,4))
  have "BDecAsnOcts k stream_ops bd (stream_of (ber_octets t @ ys)) =
      bindP (BDecLen stream_ops (bd + 1)) (\<lambda>(n, bd). BDecAsnOctsContent k stream_ops ?tag n bd) (stream_of (zs @ ys))"
    unfolding zs(1) BDecAsnOcts_def by (simp add: bindP_run BDecTag_octs)
  also have "\<dots> = (Inr (\<lparr>octetLen = of_nat (length (ostring_octets t)), octs = ostring_octets t @ [0]\<rparr>,
       bd + 1 + of_nat (length zs)), stream_of ys)"
    using BDecAsnOctsContent_ber [OF assms(1,2) tag assms(3), of "bd + 1" ys] unfolding zs(2) .
  finally show ?thesis unfolding zs(1) by (simp add: add.assoc)
qed

section \<open>Fuel\<close>

lemma stream_ops_getSeg:
  "unat len < 2 ^ 31 \<Longrightarrow> getSeg stream_ops len x =
     (Inr (take (unat len) (rest x), of_nat (length (take (unat len) (rest x)))),
      x\<lparr>rest := drop (unat len) (rest x)\<rparr>)"
  by (simp add: stream_ops_def stream_getSeg_def Let_def)

lemma ref_segs_at_end:
  assumes "rest x = []" and "t \<noteq> m"
  shows "fst (ref_segs (Suc j) stream_ops m q t s x) \<noteq> Inl NoFuel \<and>
    rest (snd (ref_segs (Suc j) stream_ops m q t s x)) = []"
  using assms by (simp add: ref_segs.simps bindP_run stream_ops_def stream_getSeg_def Let_def stopP_def)

lemma fuelled_ref_segs [fuelled_intros]:
  "fuelled n (ref_segs (Suc (unat m)) stream_ops m m 0 s)"
proof (cases "unat m < 2 ^ 31")
  case False
  then show ?thesis
    by (simp add: ref_segs.simps fuelled_def bindP_run stream_ops_def stream_getSeg_def)
next
  case True
  show ?thesis
    unfolding fuelled_def
  proof (intro allI impI)
    fix x :: stream
    let ?xs = "rest x"
    show "fst (ref_segs (Suc (unat m)) stream_ops m m 0 s x) \<noteq> Inl NoFuel \<and>
        length (rest (snd (ref_segs (Suc (unat m)) stream_ops m m 0 s x))) \<le> length (rest x)"
    proof (cases "unat m \<le> length ?xs")
      case fits: True
      then show ?thesis
        using True by (simp add: ref_segs.simps bindP_run stream_ops_def stream_getSeg_def Let_def min_def returnP_def)
    next
      case short: False
      then have n: "unat (of_nat (length ?xs) :: ulong) = length ?xs"
        using True by (intro unat_of_nat_small) simp
      obtain j where j: "unat m = Suc j" using short by (cases "unat m") auto
      have "of_nat (length ?xs) \<noteq> m" "length ?xs \<le> unat m" using short n by auto
      moreover have "fst (ref_segs (unat m) stream_ops m q t s' y) \<noteq> Inl NoFuel \<and>
          rest (snd (ref_segs (unat m) stream_ops m q t s' y)) = []"
        if "rest y = []" "t \<noteq> m" for q t s' y
        unfolding j by (rule ref_segs_at_end [OF that])
      ultimately show ?thesis
        using True short by (simp add: ref_segs.simps bindP_run stream_ops_getSeg Let_def stopP_def)
    qed
  qed
qed

lemma fuelled_FillOctetStringStk_loop [fuelled_intros]:
  "fuelled k (FillOctetStringStk_loop k stream_ops n ttl s)"
proof (induction k arbitrary: n ttl s)
  case 0
  then show ?case by (simp add: fuelled_def)
next
  case (Suc k)
  show ?case
    unfolding FillOctetStringStk_loop.simps
    by (intro fuelled_tag fuelled_intros Suc; simp)
qed

lemma copy_pieces_NoFuel: "copy_pieces blk i ps \<noteq> Inl NoFuel"
  by (induction blk i ps rule: copy_pieces.induct)
    (auto simp: mem_slice_def blk_write_def split: sum.splits if_splits)

lemma fuelled_BDecAsnOctsContent [fuelled_intros]: "fuelled k (BDecAsnOctsContent k stream_ops t n bd)"
  unfolding BDecAsnOctsContent_def BDecConsAsnOcts_def FillOctetStringStk_def
  by (intro fuelled_intros copy_pieces_NoFuel) simp_all

lemma fuelled_BDecAsnOcts: "fuelled k (BDecAsnOcts k stream_ops bd)"
  unfolding BDecAsnOcts_def
  by (rule fuelled_mono [OF fuelled_tag [of k]]) (intro fuelled_intros | simp)+

section \<open>A length of \<open>2 ^ 32\<close>\<close>

text \<open>The allocation sees the low half of the length, the copy all of it.\<close>

lemma copy_huge:
  assumes "sbuf_reading b" and "sbuf_unread b = stream_of zs" and "2 \<le> length zs"
  shows "\<exists>bs b'. copyFcn sBufOpsG 0x100000000 b = (Inr bs, b') \<and> 2 \<le> length bs"
proof -
  have l: "sb_dataEnd b \<le> length (sb_blk b)" "sb_readLoc b \<le> sb_dataEnd b"
    using assms(1) by (simp_all add: sbuf_reading_def)
  have "length zs = sb_dataEnd b - sb_readLoc b"
    using assms(2) l by (auto simp: sbuf_unread_def stream_of_def dest: arg_cong [where f = length])
  then have two: "2 \<le> sb_dataEnd b - sb_readLoc b" using assms(3) by simp
  have "to_long 0x100000000 = 0x100000000" by (simp add: to_long_small)
  then show ?thesis
    using l two by (auto simp: sBufOpsG_def SBufCopy_def Let_def mem_slice_def)
qed

lemma BDecAsnOcts_huge:
  "fst (BDecAsnOcts k sBufOpsG 0 (SBufInstallData (0x04 # 0x85 # 1 # 0 # 0 # 0 # 0 # x # y # ys))) = Inl Fault"
proof -
  let ?b = "SBufInstallData (0x04 # 0x85 # 1 # 0 # 0 # 0 # 0 # x # y # ys)"
  have t: "BDecTag stream_ops 0 (sbuf_unread ?b) = (Inr (OCTS_PRIM, 1), stream_of (0x85 # 1 # 0 # 0 # 0 # 0 # x # y # ys))"
    by (simp add: sbuf_install(2) prog_simps octs_tags)
  obtain b1 where b1: "BDecTag sBufOpsG 0 ?b = (Inr (OCTS_PRIM, 1), b1)" "sbuf_reading b1"
      "sbuf_unread b1 = stream_of (0x85 # 1 # 0 # 0 # 0 # 0 # x # y # ys)"
    by (rule refines_run [OF refines_sim [OF sb.BDecTag_sim] sbuf_install(1) t]) simp_all
  have "be_val [1, 0, 0, 0, 0] = (0x100000000 :: ulong)" by (simp add: be_val_def)
  then have n: "BDecLen stream_ops 1 (sbuf_unread b1) = (Inr (0x100000000, 7), stream_of (x # y # ys))"
    using BDecLen_stream_long [of "0x85" "[1, 0, 0, 0, 0]" 1 "x # y # ys"] b1(3) by simp
  obtain b2 where b2: "BDecLen sBufOpsG 1 b1 = (Inr (0x100000000, 7), b2)" "sbuf_reading b2"
      "sbuf_unread b2 = stream_of (x # y # ys)"
    by (rule refines_run [OF refines_sim [OF sb.BDecLen_sim] b1(2) n]) simp_all
  obtain bs b3 where b3: "copyFcn sBufOpsG 0x100000000 b2 = (Inr bs, b3)" "2 \<le> length bs"
    using copy_huge [OF b2(2,3)] by auto
  have "Asn1Alloc (0x100000000 + 1) b2 = (Inr [0], b2)"
    by (simp add: Asn1Alloc_def Malloc_def to_int_def returnP_def)
  then show ?thesis
    using b1(1) b2(1) b3
    by (simp add: BDecAsnOcts_def BDecAsnOctsContent_def bindP_run octs_tags(4) INDEFINITE_LEN_def blk_write_def prog_simps)
qed

end
