(* ===== verification/Asn_Bits.thy ===== *)
theory Asn_Bits
  imports Asn_Octs "HOL-Library.Signed_Division"
begin

text \<open>
  BIT STRING: \<open>c-lib/src/asn-bits.c\<close>. The decoder of constructed strings keeps the number of
  unused bits in the static variable \<open>unusedBitsG\<close>, an unsigned short, so the state of these
  programs is the buffer together with its value.
\<close>

section \<open>State\<close>

type_synonym 'b bits_state = "'b \<times> 16 word"

definition on_buf :: "('b, 'a) prog \<Rightarrow> ('b bits_state, 'a) prog" where
  "on_buf m = (\<lambda>(b, u). case m b of (r, b') \<Rightarrow> (r, (b', u)))"

definition get_unusedBitsG :: "('b bits_state, 16 word) prog" where
  "get_unusedBitsG = (\<lambda>(b, u). (Inr u, (b, u)))"

definition set_unusedBitsG :: "16 word \<Rightarrow> ('b bits_state, unit) prog" where
  "set_unusedBitsG w = (\<lambda>(b, u). (Inr (), (b, w)))"

lemma on_buf_run [prog_simps]:
  "on_buf m (b, u) = (case m b of (r, b') \<Rightarrow> (r, (b', u)))"
  by (simp add: on_buf_def)

lemma unused_run [prog_simps]:
  "get_unusedBitsG (b, u) = (Inr u, (b, u))" "set_unusedBitsG w (b, u) = (Inr (), (b, w))"
  by (simp_all add: get_unusedBitsG_def set_unusedBitsG_def)

abbreviation bits_inv :: "('b \<Rightarrow> bool) \<Rightarrow> 'b bits_state \<Rightarrow> bool" where
  "bits_inv I \<equiv> (\<lambda>(b, u). I b)"

abbreviation bits_view :: "('b \<Rightarrow> 'v) \<Rightarrow> 'b bits_state \<Rightarrow> 'v bits_state" where
  "bits_view v \<equiv> (\<lambda>(b, u). (v b, u))"

lemma refines_on_buf [refines_intros]:
  "refines I v R m m' \<Longrightarrow> refines (bits_inv I) (bits_view v) R (on_buf m) (on_buf m')"
  by (fastforce simp: refines_def on_buf_def split: prod.splits)

lemma refines_unused [refines_intros]:
  "refines (bits_inv I) (bits_view v) (=) get_unusedBitsG get_unusedBitsG"
  "refines (bits_inv I) (bits_view v) (=) (set_unusedBitsG w) (set_unusedBitsG w)"
  by (auto simp: refines_def get_unusedBitsG_def set_unusedBitsG_def)

section \<open>Values and encoding\<close>

text \<open>\<open>bitLen\<close> is an \<open>int\<close>; its arithmetic must not overflow, and C's division truncates.\<close>

record AsnBits =
  bitLen :: "32 word"
  bits :: "byte list"

definition BEncAsnBitsContent :: "'b GenBuf \<Rightarrow> AsnBits \<Rightarrow> ('b, AsnLen) prog" where
  "BEncAsnBitsContent b v =
     (let n = sint (bitLen v) in
      if n + 7 \<ge> 2 ^ 31 then stopP Fault
      else
        let byteLen = word_of_int ((n + 7) sdiv 8) :: ulong;
            unusedBits = ucast (word_of_int (n smod 8) :: byte) :: ulong;
            unusedBits = (if unusedBits \<noteq> 0 then 8 - unusedBits else unusedBits)
        in
          bindP (liftP (mem_slice (bits v) 0 (unat byteLen))) (\<lambda>data.
          thenP (putSegRvs b data)
          (thenP (putByteRvs b (ucast unusedBits)) (returnP (byteLen + 1)))))"

definition BEncAsnBits :: "'b GenBuf \<Rightarrow> AsnBits \<Rightarrow> ('b, AsnLen) prog" where
  "BEncAsnBits b data =
     bindP (BEncAsnBitsContent b data) (\<lambda>len.
     bindP (BEncDefLen b len) (\<lambda>l.
     bindP (BEncTag1 b UNIV_CLASS PRIM (code_val BITSTRING_TAG_CODE)) (\<lambda>t.
     returnP (len + l + t))))"

section \<open>Decoding\<close>

definition BITS_PRIM :: AsnTag where
  "BITS_PRIM = MAKE_TAG_ID UNIV_CLASS PRIM (code_val BITSTRING_TAG_CODE)"

definition BITS_CONS :: AsnTag where
  "BITS_CONS = MAKE_TAG_ID UNIV_CLASS CONS (code_val BITSTRING_TAG_CODE)"

text \<open>\<open>while (lenToRef > 0)\<close>; every round but the last takes at least one octet.\<close>

primrec ref_bit_segs :: "nat \<Rightarrow> 'b GenBuf \<Rightarrow> ulong \<Rightarrow> StrStk \<Rightarrow> ('b, StrStk) prog" where
  "ref_bit_segs 0 b lenToRef s = stopP NoFuel"
| "ref_bit_segs (Suc k) b lenToRef s =
     (if lenToRef > 0 then
        bindP (getSeg b lenToRef) (\<lambda>(strPtr, refdLen).
        if refdLen = 0 then longjmp (-2)
        else ref_bit_segs k b (lenToRef - refdLen) (PUSH_STR strPtr refdLen s))
      else returnP s)"

primrec FillBitStringStk_loop ::
  "nat \<Rightarrow> 'b GenBuf \<Rightarrow> AsnLen \<Rightarrow> AsnLen \<Rightarrow> StrStk \<Rightarrow> ('b bits_state, StrStk \<times> AsnLen) prog" where
  "FillBitStringStk_loop 0 b elmtLen0 totalElmtsLen1 s = stopP NoFuel"
| "FillBitStringStk_loop (Suc k) b elmtLen0 totalElmtsLen1 s =
     (if totalElmtsLen1 < elmtLen0 \<or> elmtLen0 = INDEFINITE_LEN then
        bindP (on_buf (BDecTag b totalElmtsLen1)) (\<lambda>(tagId1, totalElmtsLen1).
        if tagId1 = EOC_TAG_ID \<and> elmtLen0 = INDEFINITE_LEN then
          bindP (on_buf (BDEC_2ND_EOC_OCTET b totalElmtsLen1)) (\<lambda>totalElmtsLen1.
          returnP (s, totalElmtsLen1))
        else
          bindP (on_buf (BDecLen b totalElmtsLen1)) (\<lambda>(elmtLen1, totalElmtsLen1).
          if tagId1 = BITS_PRIM then
            (if elmtLen1 = 0 then longjmp (-6)
             else
               bindP get_unusedBitsG (\<lambda>unusedBitsG.
               if unusedBitsG \<noteq> 0 then longjmp (-1)
               else
                 bindP (on_buf (getByte b)) (\<lambda>c.
                 thenP (set_unusedBitsG (ucast c))
                 (bindP (on_buf (ref_bit_segs (Suc (unat elmtLen1)) b (elmtLen1 - 1) s)) (\<lambda>s.
                  FillBitStringStk_loop k b elmtLen0 (totalElmtsLen1 + elmtLen1) s)))))
          else if tagId1 = BITS_CONS then
            bindP (FillBitStringStk_loop k b elmtLen1 0 s) (\<lambda>(s, n).
            FillBitStringStk_loop k b elmtLen0 (totalElmtsLen1 + n) s)
          else longjmp (-3)))
      else returnP (s, totalElmtsLen1))"

declare ref_bit_segs.simps [simp del] FillBitStringStk_loop.simps [simp del]

definition FillBitStringStk ::
  "nat \<Rightarrow> 'b GenBuf \<Rightarrow> AsnLen \<Rightarrow> AsnLen \<Rightarrow> StrStk \<Rightarrow> ('b bits_state, StrStk \<times> AsnLen) prog" where
  "FillBitStringStk fuel b elmtLen0 bytesDecoded s =
     bindP (FillBitStringStk_loop fuel b elmtLen0 0 s) (\<lambda>(s, totalElmtsLen1).
     returnP (s, bytesDecoded + totalElmtsLen1))"

definition BDecConsAsnBits ::
  "nat \<Rightarrow> 'b GenBuf \<Rightarrow> AsnLen \<Rightarrow> AsnLen \<Rightarrow> ('b bits_state, AsnBits \<times> AsnLen) prog" where
  "BDecConsAsnBits fuel b len bytesDecoded =
     bindP (FillBitStringStk fuel b len bytesDecoded RESET_STR_STK) (\<lambda>(s, bytesDecoded).
     bindP get_unusedBitsG (\<lambda>unusedBitsG.
     let bitLen = ucast (totalByteLen s * 8 - ucast unusedBitsG) in
     bindP (Asn1Alloc (totalByteLen s)) (\<lambda>blk.
     bindP (liftP (copy_pieces blk 0 (stk s))) (\<lambda>(blk, bufCurr).
     returnP (\<lparr>bitLen = bitLen, bits = blk\<rparr>, bytesDecoded)))))"

definition BDecAsnBitsContent ::
  "nat \<Rightarrow> 'b GenBuf \<Rightarrow> AsnTag \<Rightarrow> AsnLen \<Rightarrow> AsnLen \<Rightarrow> ('b bits_state, AsnBits \<times> AsnLen) prog" where
  "BDecAsnBitsContent fuel b tagId len bytesDecoded =
     (if TAG_IS_CONS tagId then BDecConsAsnBits fuel b len bytesDecoded
      else if len = INDEFINITE_LEN then longjmp (-5)
      else if len = 0 then longjmp (-6)
      else
        let bytesDecoded = bytesDecoded + len; len = len - 1 in
        bindP (on_buf (getByte b)) (\<lambda>c.
        let bitLen = ucast (len * 8 - ucast c) in
        bindP (Asn1Alloc len) (\<lambda>blk.
        bindP (on_buf (copyFcn b len)) (\<lambda>bs.
        bindP (liftP (blk_write blk 0 bs)) (\<lambda>blk.
        bindP (on_buf (readError b)) (\<lambda>e.
        if e then longjmp (-4)
        else returnP (\<lparr>bitLen = bitLen, bits = blk\<rparr>, bytesDecoded)))))))"

definition BDecAsnBits :: "nat \<Rightarrow> 'b GenBuf \<Rightarrow> AsnLen \<Rightarrow> ('b bits_state, AsnBits \<times> AsnLen) prog" where
  "BDecAsnBits fuel b bytesDecoded =
     bindP (on_buf (BDecTag b bytesDecoded)) (\<lambda>(tag, bytesDecoded).
     if tag \<noteq> BITS_PRIM \<and> tag \<noteq> BITS_CONS then longjmp (-40)
     else
       bindP (on_buf (BDecLen b bytesDecoded)) (\<lambda>(elmtLen, bytesDecoded).
       BDecAsnBitsContent fuel b tag elmtLen bytesDecoded))"

section \<open>Utilities\<close>

text \<open>\<open>bitLen\<close> is converted to unsigned long for the comparison; a \<open>char\<close> is signed.\<close>

definition SetAsnBit :: "AsnBits \<Rightarrow> ulong \<Rightarrow> stop + AsnBits" where
  "SetAsnBit b1 i =
     (if i < scast (bitLen b1) then
        let octet = unat (i div 8); octetsBit = unat (7 - i mod 8) in
        case mem_read (bits b1) octet of
          Inl e \<Rightarrow> Inl e
        | Inr x \<Rightarrow> Inr (b1\<lparr>bits := (bits b1)[octet := x OR push_bit octetsBit 1]\<rparr>)
      else Inr b1)"

definition ClrAsnBit :: "AsnBits \<Rightarrow> ulong \<Rightarrow> stop + AsnBits" where
  "ClrAsnBit b1 i =
     (if i < scast (bitLen b1) then
        let octet = unat (i div 8); octetsBit = unat (7 - i mod 8) in
        case mem_read (bits b1) octet of
          Inl e \<Rightarrow> Inl e
        | Inr x \<Rightarrow> Inr (b1\<lparr>bits := (bits b1)[octet := x AND NOT (push_bit octetsBit 1)]\<rparr>)
      else Inr b1)"

definition GetAsnBit :: "AsnBits \<Rightarrow> ulong \<Rightarrow> stop + 32 word" where
  "GetAsnBit b1 i =
     (if i < scast (bitLen b1) then
        let octet = unat (i div 8); octetsBit = unat (7 - i mod 8) in
        map_sum id (\<lambda>x. scast x AND push_bit octetsBit 1) (mem_read (bits b1) octet)
      else Inr 0)"

definition AsnBitsEquiv :: "AsnBits \<Rightarrow> AsnBits \<Rightarrow> stop + bool" where
  "AsnBitsEquiv b1 b2 =
     (if bitLen b1 = 0 \<and> bitLen b2 = 0 then Inr True
      else if sint (bitLen b1) - 1 < - (2 ^ 31) then Inl Fault
      else
        let octetsLessOne = (sint (bitLen b1) - 1) sdiv 8;
            unusedBits = sint (bitLen b1) smod 8;
            unusedBits = (if unusedBits \<noteq> 0 then 8 - unusedBits else unusedBits);
            msk = push_bit (nat unusedBits) 0xFF :: 32 word
        in if bitLen b1 \<noteq> bitLen b2 then Inr False
           else if octetsLessOne < 0 then Inl Fault
           else
             let n = nat octetsLessOne in
             case (mem_slice (bits b1) 0 n, mem_slice (bits b2) 0 n) of
               (Inr xs, Inr ys) \<Rightarrow>
                 if xs \<noteq> ys then Inr False
                 else (case (mem_read (bits b1) n, mem_read (bits b2) n) of
                         (Inr x, Inr y) \<Rightarrow> Inr (scast x AND msk = scast y AND msk)
                       | _ \<Rightarrow> Inl Fault)
             | _ \<Rightarrow> Inl Fault)"

section \<open>The same on every buffer\<close>

context gen_reader
begin

lemma ref_bit_segs_result:
  assumes "I b" and "unat n < 2 ^ 31" and "unat n < k" and "stk_holds s bs"
  shows "\<exists>c. I c \<and>
    (if unat n \<le> length (rest (v b)) then
       (\<exists>s'. ref_bit_segs k g n s b = (Inr s', c) \<and>
          stk_holds s' (bs @ take (unat n) (rest (v b))) \<and> v c = (v b)\<lparr>rest := drop (unat n) (rest (v b))\<rparr>)
     else ref_bit_segs k g n s b = (Inl (LongJmp (-2)), c) \<and> v c = (v b)\<lparr>rest := []\<rparr>)"
  using assms
proof (induction k arbitrary: b n s bs)
  case 0
  then show ?case by simp
next
  case (Suc k)
  show ?case
  proof (cases "n = 0")
    case True
    then show ?thesis using Suc.prems(1,4)
      by (intro exI [of _ b]) (simp add: ref_bit_segs.simps returnP_def)
  next
    case pos: False
    then have n0: "0 < n" "0 < unat n" by (simp_all add: word_gt_0 unat_gt_0)
    obtain ys b' where seg: "getSeg g n b = (Inr (ys, of_nat (length ys)), b')"
        and ok: "seg_ok I v b n ys b'"
      using getSeg_seg [OF Suc.prems(1,2)] by blast
    from ok have b': "I b'" "v b = (v b')\<lparr>rest := ys @ rest (v b')\<rparr>" "length ys \<le> unat n"
        "ys = [] \<longleftrightarrow> rest (v b) = []"
      using pos unfolding seg_ok_def by blast+
    have rest: "rest (v b) = ys @ rest (v b')" by (subst b'(2)) simp
    have len: "length ys < 2 ^ 31" using b'(3) Suc.prems(2) by linarith
    have l64: "unat (of_nat (length ys) :: ulong) = length ys" by (rule unat_of_nat_small) (use len in simp)
    have upd: "v c = (v b')\<lparr>rest := zs\<rparr> \<longleftrightarrow> v c = (v b)\<lparr>rest := zs\<rparr>" for c zs
      by (subst b'(2)) simp
    show ?thesis
    proof (cases "ys = []")
      case True
      with b'(4) have "rest (v b) = []" by simp
      with True n0 seg b'(1) upd [of b' "[]"] rest show ?thesis
        by (intro exI [of _ b']) (simp add: ref_bit_segs.simps bindP_run stopP_def)
    next
      case ne: False
      have d0: "(of_nat (length ys) :: ulong) \<noteq> 0"
        using ne l64 by auto
      have less: "unat (n - of_nat (length ys)) = unat n - length ys"
        using b'(3) l64 by (simp add: unat_sub word_le_nat_alt)
      have k: "unat (n - of_nat (length ys)) < k" "unat (n - of_nat (length ys)) < 2 ^ 31"
        using ne n0 Suc.prems(2,3) by (auto simp: less) (cases ys; simp)
      have step: "ref_bit_segs (Suc k) g n s b =
          ref_bit_segs k g (n - of_nat (length ys)) (PUSH_STR ys (of_nat (length ys)) s) b'"
        using n0 d0 by (simp add: ref_bit_segs.simps bindP_run seg)
      have fits: "unat n \<le> length (rest (v b)) \<longleftrightarrow> unat n - length ys \<le> length (rest (v b'))"
        using b'(3) by (auto simp: rest)
      have zs: "bs @ take (unat n) (rest (v b)) = (bs @ ys) @ take (unat n - length ys) (rest (v b'))"
        "drop (unat n) (rest (v b)) = drop (unat n - length ys) (rest (v b'))"
        using b'(3) by (simp_all add: rest)
      show ?thesis
        using Suc.IH [OF b'(1) k(2,1) stk_holds_push [OF Suc.prems(4) len]]
        unfolding step fits zs less upd [symmetric] by simp
    qed
  qed
qed

lemma ref_bit_segs_refines:
  assumes "same_octets s s'" and "unat n < k"
  shows "refines I v same_octets (ref_bit_segs k g n s) (ref_bit_segs k stream_ops n s')"
proof (cases "unat n < 2 ^ 31")
  case True
  obtain bs where bs: "stk_holds s bs" "stk_holds s' bs" using assms by (auto simp: same_octets_def)
  show ?thesis
    unfolding refines_def
  proof (intro allI impI, elim conjE)
    fix b assume b: "I b"
    from ref_bit_segs_result [OF b True assms(2) bs(1)]
      st.ref_bit_segs_result [OF TrueI True assms(2) bs(2), of "v b"]
    show "I (snd (ref_bit_segs k g n s b)) \<and>
        snd (ref_bit_segs k stream_ops n s' (v b)) = v (snd (ref_bit_segs k g n s b)) \<and>
        rel_sum (=) same_octets (fst (ref_bit_segs k g n s b)) (fst (ref_bit_segs k stream_ops n s' (v b)))"
      by (auto simp: same_octets_def split: if_splits)
  qed
next
  case False
  moreover from this assms(2) obtain j where "k = Suc j" by (cases k) auto
  moreover have "0 < n" using False by (auto simp: word_gt_0)
  ultimately have "fst (ref_bit_segs k stream_ops n s' x) = Inl Fault" for x
    by (simp add: ref_bit_segs.simps bindP_run stream_ops_def stream_getSeg_def)
  then show ?thesis by (simp add: refines_def)
qed

lemma FillBitStringStk_loop_refines:
  "same_octets s s' \<Longrightarrow> refines (bits_inv I) (bits_view v) same_result
     (FillBitStringStk_loop k g n ttl s) (FillBitStringStk_loop k stream_ops n ttl s')"
proof (induction k arbitrary: n ttl s s')
  case 0
  then show ?case by (simp add: FillBitStringStk_loop.simps refines_stop)
next
  case (Suc k)
  have segs: "refines (bits_inv I) (bits_view v) same_result
      (bindP (on_buf (ref_bit_segs (Suc (unat m)) g (m - 1) s)) (\<lambda>s. FillBitStringStk_loop k g n t s))
      (bindP (on_buf (ref_bit_segs (Suc (unat m)) stream_ops (m - 1) s')) (\<lambda>s. FillBitStringStk_loop k stream_ops n t s))"
    if "m \<noteq> 0" for m t
  proof (rule refines_bind [OF refines_on_buf [OF ref_bit_segs_refines [OF Suc.prems]] Suc.IH])
    have "unat (m - 1) = unat m - 1" using that by (rule unat_minus_one)
    then show "unat (m - 1) < Suc (unat m)" by linarith
  qed
  have cons: "refines (bits_inv I) (bits_view v) same_result
      (bindP (FillBitStringStk_loop k g m 0 s) (\<lambda>(s, i). FillBitStringStk_loop k g n (t + i) s))
      (bindP (FillBitStringStk_loop k stream_ops m 0 s') (\<lambda>(s, i). FillBitStringStk_loop k stream_ops n (t + i) s))" for m t
    by (rule refines_bind [OF Suc.IH [OF Suc.prems]]) (auto intro: Suc.IH)
  show ?case
    unfolding FillBitStringStk_loop.simps
    by (intro refines_intros segs cons refines_sim [OF BDecTag_sim] refines_sim [OF BDecLen_sim]
        refines_sim [OF BDEC_2ND_EOC_OCTET_sim] refines_sim [OF getByte_sim]) (use Suc.prems in simp_all)
qed

lemma BDecConsAsnBits_refines:
  "refines (bits_inv I) (bits_view v) (=) (BDecConsAsnBits k g n bd) (BDecConsAsnBits k stream_ops n bd)"
proof -
  have rest: "refines (bits_inv I) (bits_view v) (=)
      (bindP get_unusedBitsG (\<lambda>unusedBitsG.
       let bitLen = ucast (totalByteLen s * 8 - ucast unusedBitsG) in
       bindP (Asn1Alloc (totalByteLen s)) (\<lambda>blk.
       bindP (liftP (copy_pieces blk 0 (stk s))) (\<lambda>(blk, bufCurr).
       returnP (\<lparr>bitLen = bitLen, bits = blk\<rparr>, bd)))))
      (bindP get_unusedBitsG (\<lambda>unusedBitsG.
       let bitLen = ucast (totalByteLen s' * 8 - ucast unusedBitsG) in
       bindP (Asn1Alloc (totalByteLen s')) (\<lambda>blk.
       bindP (liftP (copy_pieces blk 0 (stk s'))) (\<lambda>(blk, bufCurr).
       returnP (\<lparr>bitLen = bitLen, bits = blk\<rparr>, bd)))))" if same: "same_octets s s'" for s s' bd
  proof -
    obtain bs where bs: "stk_holds s bs" "stk_holds s' bs" using same by (auto simp: same_octets_def)
    then have "totalByteLen s = totalByteLen s'" by (simp add: stk_holds_def)
    moreover have "copy_pieces blk 0 (stk s) = copy_pieces blk 0 (stk s')" for blk
      using copy_pieces_holds [OF bs(1)] copy_pieces_holds [OF bs(2)] by simp
    ultimately show ?thesis by (simp only:) (intro refines_intros refl)
  qed
  have "refines (bits_inv I) (bits_view v) same_result
      (FillBitStringStk k g n bd RESET_STR_STK) (FillBitStringStk k stream_ops n bd RESET_STR_STK)"
    unfolding FillBitStringStk_def
    by (rule refines_bind [OF FillBitStringStk_loop_refines [OF same_octets_reset]])
      (auto intro: refines_return)
  then show ?thesis
    unfolding BDecConsAsnBits_def Let_def
    by (rule refines_bind) (use rest [unfolded Let_def] in auto)
qed

lemma BDecAsnBits_refines:
  "refines (bits_inv I) (bits_view v) (=) (BDecAsnBits k g bd) (BDecAsnBits k stream_ops bd)"
  unfolding BDecAsnBits_def BDecAsnBitsContent_def
  by (intro refines_intros BDecConsAsnBits_refines copy_refines refines_sim [OF readError_sim]
      refines_sim [OF getByte_sim] refines_sim [OF BDecTag_sim] refines_sim [OF BDecLen_sim] refl)

end

section \<open>What the encoder writes\<close>

definition bits_in_memory :: "AsnBits \<Rightarrow> bool" where
  "bits_in_memory v \<longleftrightarrow> 0 \<le> sint (bitLen v) \<and> sint (bitLen v) + 7 < 2 ^ 31 \<and>
     (nat (sint (bitLen v)) + 7) div 8 \<le> length (bits v)"

definition bit_count :: "AsnBits \<Rightarrow> nat" where
  "bit_count v = nat (sint (bitLen v))"

definition unused_bits :: "nat \<Rightarrow> nat" where
  "unused_bits n = (if n mod 8 = 0 then 0 else 8 - n mod 8)"

definition bits_octets :: "AsnBits \<Rightarrow> byte list" where
  "bits_octets v = take ((bit_count v + 7) div 8) (bits v)"

lemma sdiv_smod_nonneg:
  "0 \<le> (k :: int) \<Longrightarrow> k sdiv 8 = k div 8" "0 \<le> k \<Longrightarrow> k smod 8 = k mod 8"
proof -
  assume k: "0 \<le> k"
  then have "sgn k * sgn 8 * (\<bar>k\<bar> div \<bar>8\<bar>) = k div 8" by (cases "k = 0") simp_all
  then show d: "k sdiv 8 = k div 8" by (simp only: signed_divide_int_def)
  show "k smod 8 = k mod 8" by (cases "k = 0") (use k in \<open>simp_all add: signed_modulo_int_def\<close>)
qed

lemma octets_unused: "8 * ((n + 7) div 8) = n + unused_bits n"
proof -
  obtain q r where n: "n = 8 * q + r" "r < 8" by (metis mod_less_divisor mult_div_mod_eq zero_less_numeral)
  then have "(n + 7) div 8 = q + (r + 7) div 8" and "n mod 8 = r" by simp_all
  moreover have "(r + 7) div 8 = (if r = 0 then 0 else 1)"
    using n(2) by (intro div_nat_eqI) auto
  ultimately show ?thesis using n by (simp add: unused_bits_def)
qed

lemma octet_place:
  assumes "p < 8"
  shows "(8 * q + (7 - p)) div 8 = q" and "7 - (8 * q + (7 - p)) mod 8 = (p :: nat)"
proof -
  obtain k where k: "7 - p = k" "k < 8" "7 - k = p" using assms that [of "7 - p"] by simp
  then show "(8 * q + (7 - p)) div 8 = q" "7 - (8 * q + (7 - p)) mod 8 = p" by simp_all
qed

lemma bits_in_memory_length: "bits_in_memory v \<Longrightarrow> length (bits_octets v) = (bit_count v + 7) div 8"
  by (simp add: bits_in_memory_def bits_octets_def bit_count_def)

lemma bits_in_memory_small: "bits_in_memory v \<Longrightarrow> (bit_count v + 7) div 8 < 2 ^ 28"
proof -
  assume "bits_in_memory v"
  then have "bit_count v + 7 < 2 ^ 28 * 8" by (simp add: bits_in_memory_def bit_count_def nat_less_iff)
  then show ?thesis by (rule less_mult_imp_div_less)
qed

context gen_writer
begin

lemma BEncAsnBitsContent_emits:
  assumes "bits_in_memory v"
  shows "emits W out werr room (BEncAsnBitsContent g v)
    (of_nat (length (of_nat (unused_bits (bit_count v)) # bits_octets v)))
    (of_nat (unused_bits (bit_count v)) # bits_octets v)"
proof -
  let ?n = "bit_count v" and ?l = "(bit_count v + 7) div 8"
  have n: "sint (bitLen v) = int ?n" using assms by (simp add: bits_in_memory_def bit_count_def)
  have l28: "?l < 2 ^ 28" by (rule bits_in_memory_small [OF assms])
  have l: "(word_of_int ((int ?n + 7) sdiv 8) :: ulong) = of_nat ?l"
  proof -
    have "(int ?n + 7) sdiv 8 = int ?l" by (simp add: sdiv_smod_nonneg zdiv_int)
    then show ?thesis by (simp only: of_int_of_nat_eq)
  qed
  have ul: "unat (of_nat ?l :: ulong) = ?l" by (rule unat_of_nat_small) (use l28 in simp)
  have r: "word_of_int (int ?n smod 8) = (of_nat (?n mod 8) :: byte)"
  proof -
    have "int ?n smod 8 = int (?n mod 8)" by (simp add: sdiv_smod_nonneg zmod_int)
    then show ?thesis by (simp only: of_int_of_nat_eq)
  qed
  have r8: "unat (of_nat (?n mod 8) :: byte) = ?n mod 8"
    by (simp add: unsigned_of_nat take_bit_nat_eq_self)
  have u: "ucast (if (ucast (of_nat (?n mod 8) :: byte) :: ulong) \<noteq> 0 then 8 - ucast (of_nat (?n mod 8) :: byte)
      else ucast (of_nat (?n mod 8) :: byte) :: ulong) = (of_nat (unused_bits ?n) :: byte)"
  proof -
    have "?n mod 8 \<in> {0, 1, 2, 3, 4, 5, 6, 7}" by auto
    then show ?thesis by (auto simp: unused_bits_def)
  qed
  have "length (bits_octets v) < 2 ^ 31"
    using l28 by (simp add: bits_in_memory_length [OF assms])
  then have "emits W out werr room
      (thenP (putSegRvs g (bits_octets v))
        (thenP (putByteRvs g (of_nat (unused_bits ?n))) (returnP (of_nat ?l + 1)))) (of_nat ?l + 1)
      (([] @ [of_nat (unused_bits ?n)]) @ bits_octets v)"
    by (rule emits_seq [OF putSegRvs_emits emits_seq [OF putByteRvs_emits emits_return refl]]) simp
  moreover have "BEncAsnBitsContent g v =
      thenP (putSegRvs g (bits_octets v))
        (thenP (putByteRvs g (of_nat (unused_bits ?n))) (returnP (of_nat ?l + 1)))"
    using assms unfolding BEncAsnBitsContent_def Let_def n l r u ul
    by (simp add: bits_in_memory_def n mem_slice_def bits_octets_def)
  ultimately show ?thesis
    by (simp add: bits_in_memory_length [OF assms] add.commute)
qed

lemma BEncAsnBits_emits:
  assumes "bits_in_memory v"
  shows "emits W out werr room (BEncAsnBits g v)
    (of_nat (length (tlv UNIV_CLASS PRIM 3 (of_nat (unused_bits (bit_count v)) # bits_octets v))))
    (tlv UNIV_CLASS PRIM 3 (of_nat (unused_bits (bit_count v)) # bits_octets v))"
  unfolding BEncAsnBits_def code_val.simps by (rule emits_tlv [OF BEncAsnBitsContent_emits [OF assms]]) simp

end

section \<open>Round trip on a stream\<close>

lemma bits_tags:
  "BITS_PRIM = 0x03000000" "BITS_CONS = 0x23000000" "TAG_IS_CONS BITS_CONS" "\<not> TAG_IS_CONS BITS_PRIM"
  by (simp_all add: BITS_PRIM_def BITS_CONS_def MAKE_TAG_ID_def MAKE_TAG_ID_CODE_def
      MAKE_TAG_ID_CODE1_def TAG_IS_CONS_def)

lemma BDecTag_bits [prog_simps]:
  "BDecTag stream_ops bd (stream_of (0x03 # ys)) = (Inr (BITS_PRIM, bd + 1), stream_of ys)"
  "BDecTag stream_ops bd (stream_of (0x23 # ys)) = (Inr (BITS_CONS, bd + 1), stream_of ys)"
  by (simp_all add: prog_simps bits_tags)

lemma tag_octets_bits: "tag_octets UNIV_CLASS PRIM 3 = [0x03]"
  by (simp add: tag_octets_def tag_lead_def)

lemma BDecAsnBitsContent_prim:
  assumes "len - 1 = of_nat (length xs)" and "len \<noteq> INDEFINITE_LEN" and "len \<noteq> 0" and "length xs < 2 ^ 28"
  shows "BDecAsnBitsContent k stream_ops BITS_PRIM len bd (stream_of (c # xs @ ys), u) =
    (Inr (\<lparr>bitLen = ucast (of_nat (length xs) * 8 - ucast c :: ulong), bits = xs\<rparr>, bd + len), (stream_of ys, u))"
proof -
  have ul: "unat (of_nat (length xs) :: ulong) = length xs"
    by (rule unat_of_nat_small) (use assms(4) in simp)
  have put: "mem_put (replicate (length xs) 0) 0 xs = xs" by (simp add: mem_put_def)
  show ?thesis
    using assms(2-4) ul put
    by (simp add: BDecAsnBitsContent_def prog_simps assms(1) bits_tags(4) blk_write_def)
qed

lemma BDecAsnBitsContent_value:
  assumes "bits_in_memory v" and "\<not> TAG_IS_CONS t"
  shows "BDecAsnBitsContent k stream_ops t (of_nat (Suc (length (bits_octets v)))) bd
      (stream_of (of_nat (unused_bits (bit_count v)) # bits_octets v @ ys), u) =
    (Inr (\<lparr>bitLen = bitLen v, bits = bits_octets v\<rparr>, bd + of_nat (Suc (length (bits_octets v)))), (stream_of ys, u))"
proof -
  let ?n = "bit_count v" and ?xs = "bits_octets v"
  let ?u = "of_nat (unused_bits ?n) :: byte"
  have l28: "length ?xs < 2 ^ 28"
    using bits_in_memory_small [OF assms(1)] by (simp add: bits_in_memory_length [OF assms(1)])
  have ul: "unat (of_nat (length ?xs) :: ulong) = length ?xs"
    by (rule unat_of_nat_small) (use l28 in simp)
  have ind: "(of_nat (Suc (length ?xs)) :: ulong) \<noteq> INDEFINITE_LEN"
    by (rule of_nat_less_indef) (use l28 in simp)
  have "unat (of_nat (Suc (length ?xs)) :: ulong) = Suc (length ?xs)"
    by (rule unat_of_nat_small) (use l28 in simp)
  then have ne: "(of_nat (Suc (length ?xs)) :: ulong) \<noteq> 0" by (metis nat.distinct(1) unat_0)
  have lb: "unused_bits ?n < 8" by (auto simp: unused_bits_def)
  have total: "8 * length ?xs = ?n + unused_bits ?n"
    using octets_unused [of ?n] by (simp add: bits_in_memory_length [OF assms(1)])
  have "(ucast ?u :: ulong) = of_nat (unused_bits ?n)"
    using lb by (simp add: word_unat_eq_iff unsigned_of_nat take_bit_nat_eq_self)
  moreover have "(of_nat (length ?xs) * 8 :: ulong) = of_nat (?n + unused_bits ?n)"
    using total by (metis mult.commute of_nat_mult of_nat_numeral)
  ultimately have "of_nat (length ?xs) * 8 - ucast ?u = (of_nat ?n :: ulong)" by simp
  moreover have "ucast (of_nat ?n :: ulong) = bitLen v"
  proof -
    have n: "int ?n = sint (bitLen v)" using assms by (simp add: bits_in_memory_def bit_count_def)
    have "of_nat ?n = (of_int (int ?n) :: 32 word)" by simp
    also have "\<dots> = bitLen v" unfolding n by simp
    finally have "of_nat ?n = bitLen v" .
    moreover have "ucast (of_nat ?n :: ulong) = (of_nat ?n :: 32 word)"
      by (simp add: word_unat_eq_iff unsigned_ucast_eq unsigned_of_nat)
    ultimately show ?thesis by simp
  qed
  ultimately have bl: "ucast (of_nat (length ?xs) * 8 - ucast ?u :: ulong) = bitLen v" by simp
  have "BDecAsnBitsContent k stream_ops t = BDecAsnBitsContent k stream_ops BITS_PRIM"
    by (intro ext) (simp add: BDecAsnBitsContent_def assms(2) bits_tags(4))
  then show ?thesis
    using BDecAsnBitsContent_prim [OF _ ind ne l28, of k bd ?u ys u] bl by simp
qed

lemma BDecAsnBits_tlv:
  assumes "bits_in_memory v"
  shows "BDecAsnBits k stream_ops bd
      (stream_of (tlv UNIV_CLASS PRIM 3 (of_nat (unused_bits (bit_count v)) # bits_octets v) @ ys), u) =
    (Inr (\<lparr>bitLen = bitLen v, bits = bits_octets v\<rparr>,
       bd + of_nat (length (tlv UNIV_CLASS PRIM 3 (of_nat (unused_bits (bit_count v)) # bits_octets v)))),
     (stream_of ys, u))"
proof -
  have "Suc (length (bits_octets v)) < 2 ^ 32"
    using bits_in_memory_small [OF assms] by (simp add: bits_in_memory_length [OF assms])
  note len = BDecLen_small [OF this]
  show ?thesis
    using BDecAsnBitsContent_value [OF assms, of BITS_PRIM k _ ys u] bits_tags(4)
    by (simp add: BDecAsnBits_def tlv_def tag_octets_bits prog_simps len [simplified] add.assoc)
qed

section \<open>Bits\<close>

text \<open>The bits of a value, the most significant bit of the first octet first.\<close>

definition bit_seq :: "AsnBits \<Rightarrow> bool list" where
  "bit_seq v = map (\<lambda>i. bit (bits v ! (i div 8)) (7 - i mod 8)) [0..<bit_count v]"

lemma length_bit_seq [simp]: "length (bit_seq v) = bit_count v"
  by (simp add: bit_seq_def)

lemma bit_index:
  assumes "bits_in_memory v"
  shows "i < scast (bitLen v) \<longleftrightarrow> unat i < bit_count v"
    and "unat (i div 8 :: ulong) = unat i div 8" and "unat (7 - i mod 8 :: ulong) = 7 - unat i mod 8"
    and "unat i < bit_count v \<Longrightarrow> unat i div 8 < length (bits v)"
proof -
  have "to_long (scast (bitLen v)) = sint (bitLen v)" by (simp add: to_long_def sint_scast_up)
  moreover have "0 \<le> sint (bitLen v)" using assms by (simp add: bits_in_memory_def)
  ultimately have "int (unat (scast (bitLen v) :: ulong)) = sint (bitLen v)"
    using to_long_nonneg [of "scast (bitLen v)"] by simp
  then have "unat (scast (bitLen v) :: ulong) = bit_count v" by (metis bit_count_def nat_int)
  then show "i < scast (bitLen v) \<longleftrightarrow> unat i < bit_count v" by (simp add: word_less_nat_alt)
  show "unat (i div 8) = unat i div 8" by (simp add: unat_div)
  have m: "unat (i mod 8) = unat i mod 8" by (simp add: unat_mod)
  then show "unat (7 - i mod 8) = 7 - unat i mod 8"
    by (subst unat_sub) (simp_all add: word_le_nat_alt)
  assume "unat i < bit_count v"
  then have "unat i div 8 < (bit_count v + 7) div 8" by linarith
  then show "unat i div 8 < length (bits v)"
    using assms unfolding bits_in_memory_def bit_count_def by linarith
qed

lemma same_place: "j div 8 = i div 8 \<Longrightarrow> 7 - j mod 8 = 7 - i mod 8 \<longleftrightarrow> j = (i :: nat)"
proof -
  assume d: "j div 8 = i div 8"
  have "j mod 8 \<le> 7" "i mod 8 \<le> 7" by (simp_all add: less_Suc_eq_le [symmetric])
  then have "7 - j mod 8 = 7 - i mod 8 \<longleftrightarrow> j mod 8 = i mod 8" by linarith
  also have "\<dots> \<longleftrightarrow> j = i" using d by (metis div_mult_mod_eq)
  finally show ?thesis .
qed

lemma bit_seq_update:
  assumes "i < bit_count v" and "i div 8 < length (bits v)"
    and "\<And>p. p < 8 \<Longrightarrow> bit x p = (if p = 7 - i mod 8 then c else bit (bits v ! (i div 8)) p)"
  shows "bit_seq (v\<lparr>bits := (bits v)[i div 8 := x]\<rparr>) = (bit_seq v)[i := c]"
proof (rule nth_equalityI)
  fix j assume "j < length (bit_seq (v\<lparr>bits := (bits v)[i div 8 := x]\<rparr>))"
  then have j: "j < bit_count v" by (simp add: bit_count_def)
  show "bit_seq (v\<lparr>bits := (bits v)[i div 8 := x]\<rparr>) ! j = (bit_seq v)[i := c] ! j"
  proof (cases "j div 8 = i div 8")
    case True
    from same_place [OF this] show ?thesis
      using j assms True by (simp add: bit_seq_def bit_count_def nth_list_update)
  next
    case False
    then have "j \<noteq> i" by auto
    with False j show ?thesis
      by (simp add: bit_seq_def bit_count_def)
  qed
qed (simp add: bit_count_def)

lemma SetAsnBit_seq:
  assumes "bits_in_memory v" and "unat i < bit_count v"
  shows "\<exists>v'. SetAsnBit v i = Inr v' \<and> bitLen v' = bitLen v \<and> bits_in_memory v' \<and>
    bit_seq v' = (bit_seq v)[unat i := True]"
proof -
  let ?o = "unat i div 8" and ?p = "7 - unat i mod 8"
  let ?x = "bits v ! ?o OR push_bit ?p 1"
  let ?v' = "v\<lparr>bits := (bits v)[?o := ?x]\<rparr>"
  have o: "?o < length (bits v)" using bit_index(4) [OF assms(1)] assms(2) by blast
  have "SetAsnBit v i = Inr ?v'"
    using assms o by (simp add: SetAsnBit_def bit_index [OF assms(1)] mem_read_def Let_def)
  moreover have "bit_seq ?v' = (bit_seq v)[unat i := True]"
    using assms(2) o by (rule bit_seq_update) (auto simp: bit_simps)
  ultimately show ?thesis using assms(1) by (auto simp: bits_in_memory_def)
qed

lemma ClrAsnBit_seq:
  assumes "bits_in_memory v" and "unat i < bit_count v"
  shows "\<exists>v'. ClrAsnBit v i = Inr v' \<and> bitLen v' = bitLen v \<and> bits_in_memory v' \<and>
    bit_seq v' = (bit_seq v)[unat i := False]"
proof -
  let ?o = "unat i div 8" and ?p = "7 - unat i mod 8"
  let ?x = "bits v ! ?o AND NOT (push_bit ?p 1)"
  let ?v' = "v\<lparr>bits := (bits v)[?o := ?x]\<rparr>"
  have o: "?o < length (bits v)" using bit_index(4) [OF assms(1)] assms(2) by blast
  have "ClrAsnBit v i = Inr ?v'"
    using assms o by (simp add: ClrAsnBit_def bit_index [OF assms(1)] mem_read_def Let_def)
  moreover have "bit_seq ?v' = (bit_seq v)[unat i := False]"
    using assms(2) o by (rule bit_seq_update) (auto simp: bit_simps)
  ultimately show ?thesis using assms(1) by (auto simp: bits_in_memory_def)
qed

lemma GetAsnBit_seq:
  assumes "bits_in_memory v" and "unat i < bit_count v"
  shows "\<exists>w. GetAsnBit v i = Inr w \<and> (w \<noteq> 0 \<longleftrightarrow> bit_seq v ! unat i)"
proof -
  let ?o = "unat i div 8" and ?p = "7 - unat i mod 8"
  have o: "?o < length (bits v)" using bit_index(4) [OF assms(1)] assms(2) by blast
  have g: "GetAsnBit v i = Inr (scast (bits v ! ?o) AND push_bit ?p 1)"
    using assms o by (simp add: GetAsnBit_def bit_index [OF assms(1)] mem_read_def)
  have "(scast (bits v ! ?o) AND push_bit ?p 1 :: 32 word) = 0 \<longleftrightarrow> \<not> bit (scast (bits v ! ?o) :: 32 word) ?p"
    unfolding push_bit_eq_mult mult_1 by (rule and_exp_eq_0_iff_not_bit)
  also have "\<dots> \<longleftrightarrow> \<not> bit (bits v ! ?o) ?p"
    by (cases "unat i mod 8 = 0") (simp_all add: bit_simps min_def)
  finally show ?thesis using assms(2) g by (simp add: bit_seq_def)
qed

lemma bit_out_of_range:
  assumes "bits_in_memory v" and "\<not> unat i < bit_count v"
  shows "SetAsnBit v i = Inr v" "ClrAsnBit v i = Inr v" "GetAsnBit v i = Inr 0"
  using assms by (simp_all add: SetAsnBit_def ClrAsnBit_def GetAsnBit_def bit_index [OF assms(1)])

lemma masked_eq:
  assumes "u < 8"
  shows "(scast (x :: byte) AND push_bit u 0xFF :: 32 word) = scast (y :: byte) AND push_bit u 0xFF \<longleftrightarrow>
    (\<forall>p. u \<le> p \<and> p < 8 \<longrightarrow> bit x p = bit y p)"
proof -
  have m: "(0xFF :: 32 word) = mask 8" by (simp add: mask_eq_exp_minus_1)
  have b: "bit (scast z AND push_bit u (mask 8) :: 32 word) n \<longleftrightarrow>
      n < 32 \<and> u \<le> n \<and> n < u + 8 \<and> bit z (min n 7)" for z :: byte and n
    by (auto simp: bit_simps min_def)
  show ?thesis
    unfolding m
  proof
    assume e: "(scast x AND push_bit u (mask 8) :: 32 word) = scast y AND push_bit u (mask 8)"
    show "\<forall>p. u \<le> p \<and> p < 8 \<longrightarrow> bit x p = bit y p"
    proof (intro allI impI)
      fix p assume p: "u \<le> p \<and> p < 8"
      then show "bit x p = bit y p" using b [of x p] b [of y p] e by simp
    qed
  next
    assume "\<forall>p. u \<le> p \<and> p < 8 \<longrightarrow> bit x p = bit y p"
    then show "(scast x AND push_bit u (mask 8) :: 32 word) = scast y AND push_bit u (mask 8)"
      using assms by (intro bit_word_eqI) (auto simp: b min_def)
  qed
qed

lemma bit_seq_eq:
  assumes "bits_in_memory a" and "bits_in_memory b" and "bit_count a = Suc n" and "bit_count b = Suc n"
  shows "bit_seq a = bit_seq b \<longleftrightarrow>
    take (n div 8) (bits a) = take (n div 8) (bits b) \<and>
    (\<forall>p. unused_bits (Suc n) \<le> p \<and> p < 8 \<longrightarrow> bit (bits a ! (n div 8)) p = bit (bits b ! (n div 8)) p)"
    (is "_ \<longleftrightarrow> ?pre \<and> ?last")
proof -
  have seq: "bit_seq a = bit_seq b \<longleftrightarrow>
      (\<forall>i \<le> n. bit (bits a ! (i div 8)) (7 - i mod 8) = bit (bits b ! (i div 8)) (7 - i mod 8))"
    unfolding bit_seq_def assms(3,4) by (auto simp: less_Suc_eq_le)
  have len: "n div 8 < length (bits a)" "n div 8 < length (bits b)"
    using assms unfolding bits_in_memory_def bit_count_def by linarith+
  have pre: "?pre \<longleftrightarrow> (\<forall>q < n div 8. bits a ! q = bits b ! q)"
    using len by (auto simp: list_eq_iff_nth_eq)
  have u: "unused_bits (Suc n) = 7 - n mod 8"
    using mod_less_divisor [of 8 n] by (auto simp: unused_bits_def mod_Suc)
  have n8: "8 * (n div 8) + n mod 8 = n" "n mod 8 < 8" by simp_all
  show ?thesis
  proof
    assume e: "bit_seq a = bit_seq b"
    have "bits a ! q = bits b ! q" if "q < n div 8" for q
    proof (rule bit_word_eqI)
      fix p assume "p < LENGTH(8)"
      then have "p < 8" by simp
      then have "8 * q + (7 - p) \<le> n" using that n8(1) by linarith
      with e octet_place [OF \<open>p < 8\<close>] show "bit (bits a ! q) p = bit (bits b ! q) p"
        unfolding seq by metis
    qed
    moreover have "bit (bits a ! (n div 8)) p = bit (bits b ! (n div 8)) p"
      if "unused_bits (Suc n) \<le> p" "p < 8" for p
    proof -
      have "8 * (n div 8) + (7 - p) \<le> n" using that n8 unfolding u by linarith
      with e octet_place [OF that(2)] show ?thesis unfolding seq by metis
    qed
    ultimately show "?pre \<and> ?last" using pre by blast
  next
    assume pl: "?pre \<and> ?last"
    show "bit_seq a = bit_seq b"
      unfolding seq
    proof (intro allI impI)
      fix i assume i: "i \<le> n"
      show "bit (bits a ! (i div 8)) (7 - i mod 8) = bit (bits b ! (i div 8)) (7 - i mod 8)"
      proof (cases "i div 8 < n div 8")
        case True
        with pl pre show ?thesis by simp
      next
        case False
        then have d: "i div 8 = n div 8" using div_le_mono [OF i, of 8] by linarith
        then have "i mod 8 \<le> n mod 8" using i n8(1) mult_div_mod_eq [of 8 i] by linarith
        then have "unused_bits (Suc n) \<le> 7 - i mod 8" "7 - i mod 8 < 8"
          unfolding u by simp_all
        with d pl show ?thesis by metis
      qed
    qed
  qed
qed

text \<open>\<open>AsnBitsEquiv\<close> decides whether two values denote the same sequence of bits.\<close>

lemma AsnBitsEquiv_seq:
  assumes "bits_in_memory a" and "bits_in_memory b"
  shows "AsnBitsEquiv a b = Inr (bit_seq a = bit_seq b)"
proof -
  have sa: "sint (bitLen a) = int (bit_count a)" and sb: "sint (bitLen b) = int (bit_count b)"
    using assms by (simp_all add: bits_in_memory_def bit_count_def)
  have zero: "bitLen x = 0 \<longleftrightarrow> bit_count x = 0" if "sint (bitLen x) = int (bit_count x)" for x
    by (metis that of_nat_eq_0_iff signed_0 signed_word_eqI)
  have eq: "bitLen a = bitLen b \<longleftrightarrow> bit_count a = bit_count b"
    using sa sb by (metis of_nat_eq_iff signed_word_eqI)
  have diff: "bit_seq a \<noteq> bit_seq b" if "bit_count a \<noteq> bit_count b"
    using that by (metis length_bit_seq)
  show ?thesis
  proof (cases "bit_count a = bit_count b \<and> bit_count a \<noteq> 0")
    case True
    then obtain n where n: "bit_count a = Suc n" "bit_count b = Suc n" using not0_implies_Suc by metis
    let ?m = "n div 8" and ?u = "unused_bits (Suc n)"
    have len: "?m < length (bits a)" "?m < length (bits b)"
      using assms n unfolding bits_in_memory_def bit_count_def by linarith+
    have o: "(int (Suc n) - 1) sdiv 8 = int ?m"
    proof -
      have "int (Suc n) - 1 = int n" by simp
      then show ?thesis by (simp only: sdiv_smod_nonneg zdiv_int) simp
    qed
    have u: "nat (if int (Suc n) smod 8 \<noteq> 0 then 8 - int (Suc n) smod 8 else int (Suc n) smod 8) = ?u"
    proof -
      have r: "int (Suc n) smod 8 = int (Suc n mod 8)"
        by (subst sdiv_smod_nonneg(2)) (simp_all only: zmod_int of_nat_0_le_iff of_nat_numeral)
      have "nat (8 - int k) = 8 - k" if "k < 8" for k using that by linarith
      moreover have "Suc n mod 8 < 8" by simp
      ultimately show ?thesis unfolding r unused_bits_def by (simp split: if_split)
    qed
    have u8: "?u < 8" by (simp add: unused_bits_def)
    have ne: "bitLen a \<noteq> 0" "bitLen b \<noteq> 0" "bitLen a = bitLen b"
      using zero [OF sa] zero [OF sb] eq n by auto
    show ?thesis
      unfolding AsnBitsEquiv_def Let_def sa n o u
      using ne len bit_seq_eq [OF assms n] masked_eq [OF u8, of "bits a ! ?m" "bits b ! ?m"]
      by (simp add: mem_slice_def mem_read_def)
  next
    case False
    show ?thesis
    proof (cases "bit_count a = 0 \<and> bit_count b = 0")
      case True
      then have "bit_seq a = bit_seq b" by (simp add: bit_seq_def)
      with True zero [OF sa] zero [OF sb] show ?thesis by (simp add: AsnBitsEquiv_def)
    next
      case both: False
      then have ne: "bit_count a \<noteq> bit_count b" using False by auto
      have "\<not> (bitLen a = 0 \<and> bitLen b = 0)" using zero [OF sa] zero [OF sb] both by auto
      with diff [OF ne] ne eq sa show ?thesis by (simp add: AsnBitsEquiv_def Let_def)
    qed
  qed
qed

section \<open>The static variable\<close>

text \<open>
  \<open>unusedBitsG\<close> is set by the last piece of a constructed string and reset by no routine: from then
  on no constructed string is decoded.
\<close>

lemma bits_tags_neq: "BITS_PRIM \<noteq> EOC_TAG_ID" "BITS_CONS \<noteq> EOC_TAG_ID" "BITS_CONS \<noteq> BITS_PRIM"
  by (simp_all add: bits_tags EOC_TAG_ID_def)

lemma byte_small_len:
  assumes "l < 0x80"
  shows "(ucast (l :: byte) :: ulong) \<noteq> INDEFINITE_LEN" and "0 < l \<Longrightarrow> (0 :: ulong) < ucast l"
    and "0 < l \<Longrightarrow> (ucast l :: ulong) \<noteq> 0"
  using assms of_nat_less_indef [of "unat l"] unsigned_less [of l]
  by (auto simp: word_less_nat_alt word_unat_eq_iff unat_INDEFINITE_LEN)

lemma BDecAsnBits_blocked:
  assumes "0 < l0" and "l0 < 0x80" and "0 < l1" and "l1 < 0x80" and "u \<noteq> 0"
  shows "fst (BDecAsnBits (Suc k) stream_ops bd (stream_of (0x23 # l0 # 0x03 # l1 # ys), u)) = Inl (LongJmp (-1))"
  using assms byte_small_len [of l0] byte_small_len [of l1]
  by (simp add: BDecAsnBits_def BDecAsnBitsContent_def BDecConsAsnBits_def FillBitStringStk_def
      FillBitStringStk_loop.simps prog_simps bits_tags(3) bits_tags_neq)

lemma ref_one_octet:
  "ref_bit_segs 3 stream_ops 1 s (stream_of [x]) = (Inr (PUSH_STR [x] 1 s), stream_of [])"
  unfolding numeral_3_eq_3 by (simp add: ref_bit_segs.simps bindP_run stream_ops_getSeg returnP_def)

lemma BDecAsnBits_unused_left:
  "BDecAsnBits (Suc (Suc k)) stream_ops 0 (stream_of [0x23, 0x04, 0x03, 0x02, 0x04, 0xF0], 0) =
     (Inr (\<lparr>bitLen = 4, bits = [0xF0]\<rparr>, 6), (stream_of [], 4))"
  by (simp add: INDEFINITE_LEN_def BDecAsnBits_def BDecAsnBitsContent_def BDecConsAsnBits_def FillBitStringStk_def
      FillBitStringStk_loop.simps ref_one_octet prog_simps bits_tags(3) bits_tags_neq
      RESET_STR_STK_def PUSH_STR_def mem_slice_def blk_write_def mem_put_def)

section \<open>Runs on a simple buffer\<close>

text \<open>A program over the buffer alone, with the static variable at a given value in the beginning.\<close>

definition with_unused :: "16 word \<Rightarrow> ('b bits_state, 'a) prog \<Rightarrow> ('b, 'a) prog" where
  "with_unused u m b = (case m (b, u) of (r, (b', u')) \<Rightarrow> (r, b'))"

lemma refines_with_unused:
  "refines (bits_inv I) (bits_view v) R m m' \<Longrightarrow> refines I v R (with_unused u m) (with_unused u m')"
  unfolding refines_def with_unused_def
proof (intro allI impI, goal_cases)
  case (1 b)
  from 1(1) [rule_format, of "(b, u)"] 1(2) show ?case
    by (auto split: prod.splits)
qed

lemma bits_run:
  assumes "refines (bits_inv sbuf_reading) (bits_view sbuf_unread) (=) m m'"
    and "m' (stream_of xs, u) = (Inr y, (s, u'))"
  obtains b where "m (SBufInstallData xs, u) = (Inr y, (b, u'))"
proof -
  have "m' (bits_view sbuf_unread (SBufInstallData xs, u)) = (Inr y, (s, u'))"
    using assms(2) by (simp add: sbuf_install(2))
  moreover have "bits_inv sbuf_reading (SBufInstallData xs, u)" by (simp add: sbuf_install(1))
  ultimately obtain c where c: "m (SBufInstallData xs, u) = (Inr y, c)" "bits_view sbuf_unread c = (s, u')"
    using refines_run [OF assms(1)] by blast
  then show thesis using that by (cases c) simp
qed

lemma bits_stop:
  assumes "refines (bits_inv sbuf_reading) (bits_view sbuf_unread) (=) m m'"
    and "fst (m' (stream_of xs, u)) = Inl e" and "e \<noteq> Fault"
  shows "fst (m (SBufInstallData xs, u)) = Inl e"
proof -
  obtain c where "m' (bits_view sbuf_unread (SBufInstallData xs, u)) = (Inl e, c)"
    using assms(2) by (cases "m' (stream_of xs, u)") (simp add: sbuf_install(2))
  moreover have "bits_inv sbuf_reading (SBufInstallData xs, u)" by (simp add: sbuf_install(1))
  moreover have "Inl e \<noteq> Inl Fault" using assms(3) by simp
  ultimately obtain c where "m (SBufInstallData xs, u) = (Inl e, c)"
    using refines_run [OF assms(1)] by metis
  then show ?thesis by simp
qed

end
