(* ===== verification/Asn_Prim.thy ===== *)
theory Asn_Prim
  imports Asn_Tag
begin

text \<open>
  The fixed-size primitive types: BOOLEAN (\<open>c-lib/src/asn-bool.c\<close>), NULL (\<open>asn-null.c\<close>),
  INTEGER signed and unsigned (\<open>asn-int.c\<close>), ENUMERATED (\<open>asn-enum.c\<close>). An encoder of a
  type writes contents, length and tag, in this order, since buffers are written in reverse.
  \<open>AsnInt\<close> is \<open>int32_t\<close>, \<open>UAsnInt\<close> is \<open>uint32_t\<close> and \<open>AsnBool\<close> an unsigned char.
\<close>

type_synonym AsnBool = byte
type_synonym AsnInt = "32 word"
type_synonym UAsnInt = "32 word"

section \<open>BOOLEAN\<close>

definition BEncAsnBoolContent :: "'b GenBuf \<Rightarrow> AsnBool \<Rightarrow> ('b, AsnLen) prog" where
  "BEncAsnBoolContent b data =
     thenP (putByteRvs b (if data \<noteq> 0 then 0xFF else 0)) (returnP 1)"

definition BEncAsnBool :: "'b GenBuf \<Rightarrow> AsnBool \<Rightarrow> ('b, AsnLen) prog" where
  "BEncAsnBool b data =
     bindP (BEncAsnBoolContent b data) (\<lambda>len.
     bindP (BEncDefLen b len) (\<lambda>l.
     bindP (BEncTag1 b UNIV_CLASS PRIM (code_val BOOLEAN_TAG_CODE)) (\<lambda>t.
     returnP (len + l + t))))"

definition BDecAsnBoolContent :: "'b GenBuf \<Rightarrow> AsnTag \<Rightarrow> AsnLen \<Rightarrow> AsnLen \<Rightarrow> ('b, AsnBool \<times> AsnLen) prog" where
  "BDecAsnBoolContent b tagId len bytesDecoded =
     (if len \<noteq> 1 then longjmp (-5)
      else
        bindP (getByte b) (\<lambda>c.
        let result = (if c \<noteq> 0 then 1 else 0) in
        bindP (readError b) (\<lambda>e.
        if e then longjmp (-6) else returnP (result, bytesDecoded + 1))))"

definition BDecAsnBool :: "'b GenBuf \<Rightarrow> AsnLen \<Rightarrow> ('b, AsnBool \<times> AsnLen) prog" where
  "BDecAsnBool b bytesDecoded =
     bindP (BDecTag b bytesDecoded) (\<lambda>(tag, bytesDecoded).
     if tag \<noteq> MAKE_TAG_ID UNIV_CLASS PRIM (code_val BOOLEAN_TAG_CODE) then longjmp (-40)
     else
       bindP (BDecLen b bytesDecoded) (\<lambda>(elmtLen, bytesDecoded).
       BDecAsnBoolContent b tag elmtLen bytesDecoded))"

section \<open>NULL\<close>

text \<open>\<open>BEncAsnNullContent\<close> is the macro \<open>0\<close>; a NULL has no value.\<close>

definition BEncAsnNullContent :: "'b GenBuf \<Rightarrow> ('b, AsnLen) prog" where
  "BEncAsnNullContent b = returnP 0"

definition BEncAsnNull :: "'b GenBuf \<Rightarrow> ('b, AsnLen) prog" where
  "BEncAsnNull b =
     bindP (BEncAsnNullContent b) (\<lambda>len.
     bindP (BEncDefLen b len) (\<lambda>l.
     bindP (BEncTag1 b UNIV_CLASS PRIM (code_val NULLTYPE_TAG_CODE)) (\<lambda>t.
     returnP (len + l + t))))"

definition BDecAsnNullContent :: "'b GenBuf \<Rightarrow> AsnTag \<Rightarrow> AsnLen \<Rightarrow> AsnLen \<Rightarrow> ('b, unit \<times> AsnLen) prog" where
  "BDecAsnNullContent b tagId len bytesDecoded =
     (if len \<noteq> 0 then longjmp (-17) else returnP ((), bytesDecoded))"

definition BDecAsnNull :: "'b GenBuf \<Rightarrow> AsnLen \<Rightarrow> ('b, unit \<times> AsnLen) prog" where
  "BDecAsnNull b bytesDecoded =
     bindP (BDecTag b bytesDecoded) (\<lambda>(tag, bytesDecoded).
     if tag \<noteq> MAKE_TAG_ID UNIV_CLASS PRIM (code_val NULLTYPE_TAG_CODE) then longjmp (-40)
     else
       bindP (BDecLen b bytesDecoded) (\<lambda>(elmtLen, bytesDecoded).
       BDecAsnNullContent b tag elmtLen bytesDecoded))"

section \<open>INTEGER and ENUMERATED\<close>

text \<open>
  \<open>INT_MASK\<close> is \<open>0x7f80 << ((sizeof (AsnInt) - 2) * 8)\<close>. \<open>dataCpy\<close> is a \<open>long\<close>,
  whose right shift is arithmetic; the mask is an unsigned long.
\<close>

definition INT_MASK :: ulong where
  "INT_MASK = push_bit 16 0x7f80"

fun int_len_neg :: "ulong \<Rightarrow> ulong \<Rightarrow> nat \<Rightarrow> nat" where
  "int_len_neg dataCpy msk len =
     (if len > 1 \<and> dataCpy AND msk = msk then int_len_neg dataCpy (drop_bit 8 msk) (len - 1) else len)"

fun int_len_pos :: "ulong \<Rightarrow> ulong \<Rightarrow> nat \<Rightarrow> nat" where
  "int_len_pos dataCpy msk len =
     (if len > 1 \<and> dataCpy AND msk = 0 then int_len_pos dataCpy (drop_bit 8 msk) (len - 1) else len)"

declare int_len_neg.simps [simp del] int_len_pos.simps [simp del]

text \<open>\<open>for (i = 0; i < len; i++)\<close>: the low byte, then a shift, of a \<open>long\<close> or an unsigned one.\<close>

primrec put_long :: "'b GenBuf \<Rightarrow> nat \<Rightarrow> ulong \<Rightarrow> ('b, unit) prog" where
  "put_long b 0 dataCpy = returnP ()"
| "put_long b (Suc n) dataCpy =
     thenP (putByteRvs b (ucast dataCpy)) (put_long b n (signed_drop_bit 8 dataCpy))"

primrec put_ulong :: "'b GenBuf \<Rightarrow> nat \<Rightarrow> ulong \<Rightarrow> ('b, unit) prog" where
  "put_ulong b 0 dataCpy = returnP ()"
| "put_ulong b (Suc n) dataCpy =
     thenP (putByteRvs b (ucast dataCpy)) (put_ulong b n (drop_bit 8 dataCpy))"

definition BEncAsnIntContent :: "'b GenBuf \<Rightarrow> AsnInt \<Rightarrow> ('b, AsnLen) prog" where
  "BEncAsnIntContent b data =
     (let dataCpy = scast data :: ulong;
          len = (if to_long dataCpy < 0 then int_len_neg dataCpy INT_MASK 4
                 else int_len_pos dataCpy INT_MASK 4)
      in thenP (put_long b len dataCpy) (returnP (of_nat len)))"

definition BEncAsnInt :: "'b GenBuf \<Rightarrow> AsnInt \<Rightarrow> ('b, AsnLen) prog" where
  "BEncAsnInt b data =
     bindP (BEncAsnIntContent b data) (\<lambda>len.
     bindP (BEncDefLen b len) (\<lambda>l.
     bindP (BEncTag1 b UNIV_CLASS PRIM (code_val INTEGER_TAG_CODE)) (\<lambda>t.
     returnP (len + l + t))))"

text \<open>
  The loops \<open>retVal = (retVal << 8) | BufGetByte (b)\<close> are the one of the length decoder.
  \<open>~0U << 8\<close> is a 32-bit value.
\<close>

definition BDecAsnIntContent :: "'b GenBuf \<Rightarrow> AsnTag \<Rightarrow> AsnLen \<Rightarrow> AsnLen \<Rightarrow> ('b, AsnInt \<times> AsnLen) prog" where
  "BDecAsnIntContent b tagId len bytesDecoded =
     (if len > 4 then longjmp (-7)
      else
        bindP (getByte b) (\<lambda>c.
        let byte = ucast c :: ulong;
            retVal = (if byte AND 0x80 \<noteq> 0 then 0xFFFFFF00 OR byte else byte) in
        bindP (BDecLen_loop b (unat len - 1) retVal) (\<lambda>retVal.
        bindP (readError b) (\<lambda>e.
        if e then longjmp (-8) else returnP (ucast retVal, bytesDecoded + len)))))"

definition BDecAsnInt :: "'b GenBuf \<Rightarrow> AsnLen \<Rightarrow> ('b, AsnInt \<times> AsnLen) prog" where
  "BDecAsnInt b bytesDecoded =
     bindP (BDecTag b bytesDecoded) (\<lambda>(tag, bytesDecoded).
     if tag \<noteq> MAKE_TAG_ID UNIV_CLASS PRIM (code_val INTEGER_TAG_CODE) then longjmp (-40)
     else
       bindP (BDecLen b bytesDecoded) (\<lambda>(elmtLen, bytesDecoded).
       BDecAsnIntContent b tag elmtLen bytesDecoded))"

definition BEncUAsnIntContent :: "'b GenBuf \<Rightarrow> UAsnInt \<Rightarrow> ('b, AsnLen) prog" where
  "BEncUAsnIntContent b data =
     (let dataCpy = ucast data :: ulong in
      if to_long dataCpy < 0 then
        thenP (put_ulong b 4 dataCpy)
        (thenP (putByteRvs b 0) (returnP (4 + 1)))
      else
        let len = int_len_pos dataCpy INT_MASK 4 in
        thenP (put_ulong b len dataCpy) (returnP (of_nat len)))"

definition BEncUAsnInt :: "'b GenBuf \<Rightarrow> UAsnInt \<Rightarrow> ('b, AsnLen) prog" where
  "BEncUAsnInt b data =
     bindP (BEncUAsnIntContent b data) (\<lambda>len.
     bindP (BEncDefLen b len) (\<lambda>l.
     bindP (BEncTag1 b UNIV_CLASS PRIM (code_val INTEGER_TAG_CODE)) (\<lambda>t.
     returnP (len + l + t))))"

definition BDecUAsnIntContent :: "'b GenBuf \<Rightarrow> AsnTag \<Rightarrow> AsnLen \<Rightarrow> AsnLen \<Rightarrow> ('b, UAsnInt \<times> AsnLen) prog" where
  "BDecUAsnIntContent b tagId len bytesDecoded =
     bindP (getByte b) (\<lambda>c.
     let retVal = ucast c :: ulong in
     if len > 4 + 1 then longjmp (-9)
     else if retVal AND 0x80 \<noteq> 0 then longjmp (-10)
     else if len = 4 + 1 \<and> retVal \<noteq> 0 then longjmp (-11)
     else
       bindP (BDecLen_loop b (unat len - 1) retVal) (\<lambda>retVal.
       bindP (readError b) (\<lambda>e.
       if e then longjmp (-12) else returnP (ucast retVal, bytesDecoded + len))))"

definition BDecUAsnInt :: "'b GenBuf \<Rightarrow> AsnLen \<Rightarrow> ('b, UAsnInt \<times> AsnLen) prog" where
  "BDecUAsnInt b bytesDecoded =
     bindP (BDecTag b bytesDecoded) (\<lambda>(tag, bytesDecoded).
     if tag \<noteq> MAKE_TAG_ID UNIV_CLASS PRIM (code_val INTEGER_TAG_CODE) then longjmp (-40)
     else
       bindP (BDecLen b bytesDecoded) (\<lambda>(elmtLen, bytesDecoded).
       BDecUAsnIntContent b tag elmtLen bytesDecoded))"

text \<open>ENUMERATED shares the contents routines of INTEGER.\<close>

type_synonym AsnEnum = AsnInt

definition BEncAsnEnum :: "'b GenBuf \<Rightarrow> AsnEnum \<Rightarrow> ('b, AsnLen) prog" where
  "BEncAsnEnum b data =
     bindP (BEncAsnIntContent b data) (\<lambda>len.
     bindP (BEncDefLen b len) (\<lambda>l.
     bindP (BEncTag1 b UNIV_CLASS PRIM (code_val ENUM_TAG_CODE)) (\<lambda>t.
     returnP (len + l + t))))"

definition BDecAsnEnum :: "'b GenBuf \<Rightarrow> AsnLen \<Rightarrow> ('b, AsnEnum \<times> AsnLen) prog" where
  "BDecAsnEnum b bytesDecoded =
     bindP (BDecTag b bytesDecoded) (\<lambda>(tag, bytesDecoded).
     if tag \<noteq> MAKE_TAG_ID UNIV_CLASS PRIM (code_val ENUM_TAG_CODE) then longjmp (-40)
     else
       bindP (BDecLen b bytesDecoded) (\<lambda>(elmtLen, bytesDecoded).
       BDecAsnIntContent b tag elmtLen bytesDecoded))"

section \<open>The same on every buffer\<close>

context byte_reader
begin

lemma BDecAsnBool_sim: "sim I v (=) (BDecAsnBool g bd) (BDecAsnBool stream_ops bd)"
  unfolding BDecAsnBool_def BDecAsnBoolContent_def
  by (intro sim_intros getByte_sim readError_sim BDecTag_sim BDecLen_sim refl)

lemma BDecAsnNull_sim: "sim I v (=) (BDecAsnNull g bd) (BDecAsnNull stream_ops bd)"
  unfolding BDecAsnNull_def BDecAsnNullContent_def
  by (intro sim_intros getByte_sim readError_sim BDecTag_sim BDecLen_sim refl)

lemma BDecAsnIntContent_sim:
  "sim I v (=) (BDecAsnIntContent g t len bd) (BDecAsnIntContent stream_ops t len bd)"
  unfolding BDecAsnIntContent_def
  by (intro sim_intros getByte_sim readError_sim BDecLen_loop_sim refl)

lemma BDecAsnInt_sim: "sim I v (=) (BDecAsnInt g bd) (BDecAsnInt stream_ops bd)"
  unfolding BDecAsnInt_def
  by (intro sim_intros BDecAsnIntContent_sim BDecTag_sim BDecLen_sim refl)

lemma BDecAsnEnum_sim: "sim I v (=) (BDecAsnEnum g bd) (BDecAsnEnum stream_ops bd)"
  unfolding BDecAsnEnum_def
  by (intro sim_intros BDecAsnIntContent_sim BDecTag_sim BDecLen_sim refl)

lemma BDecUAsnInt_sim: "sim I v (=) (BDecUAsnInt g bd) (BDecUAsnInt stream_ops bd)"
  unfolding BDecUAsnInt_def BDecUAsnIntContent_def
  by (intro sim_intros getByte_sim readError_sim BDecLen_loop_sim BDecTag_sim BDecLen_sim refl)

end

section \<open>The octets of an integer\<close>

text \<open>The least number of octets of two's complement for an integer of 32 bits.\<close>

definition int_size :: "int \<Rightarrow> nat" where
  "int_size i =
     (if - (2 ^ 7) \<le> i \<and> i < 2 ^ 7 then 1
      else if - (2 ^ 15) \<le> i \<and> i < 2 ^ 15 then 2
      else if - (2 ^ 23) \<le> i \<and> i < 2 ^ 23 then 3
      else 4)"

definition int_octets :: "int \<Rightarrow> byte list" where
  "int_octets i = tc_bytes (int_size i) i"

lemma int_size_least:
  assumes "- (2 ^ (8 * n + 7)) \<le> i" and "i < 2 ^ (8 * n + 7)"
  shows "int_size i \<le> Suc n"
proof -
  consider "n = 0" | "n = 1" | "n = 2" | "3 \<le> n" by linarith
  then show ?thesis using assms by cases (auto simp: int_size_def)
qed

lemma mask_test:
  assumes "unat (w :: ulong) < 2 ^ (k + 8)" and "k + 8 \<le> 64"
  shows "w AND push_bit k (mask 8) = 0 \<longleftrightarrow> unat w < 2 ^ k"
proof
  assume a: "w AND push_bit k (mask 8) = 0"
  have "w = take_bit k w"
  proof (rule bit_word_eqI)
    fix n assume "n < LENGTH(64)"
    moreover have "\<not> bit (w AND push_bit k (mask 8)) n" by (simp add: a)
    moreover have "\<not> bit w n" if "k + 8 \<le> n" using not_bit_above [OF assms(1) that] .
    ultimately show "bit w n = bit (take_bit k w) n"
      by (cases "k + 8 \<le> n") (auto simp: bit_simps)
  qed
  then have "unat w = take_bit k (unat w)" by (metis unsigned_take_bit_eq)
  then show "unat w < 2 ^ k" by (metis take_bit_nat_less_exp)
next
  assume "unat w < 2 ^ k"
  from not_bit_above [OF this] show "w AND push_bit k (mask 8) = 0"
    by (intro bit_word_eqI) (auto simp: bit_simps)
qed

lemma int_masks:
  "INT_MASK = push_bit 23 (mask 8)" "drop_bit 8 INT_MASK = push_bit 15 (mask 8)"
  "drop_bit 8 (drop_bit 8 INT_MASK) = push_bit 7 (mask 8)"
  by (simp_all add: INT_MASK_def mask_eq_exp_minus_1)

lemma int_less_power: "int n < 2 ^ k \<Longrightarrow> n < 2 ^ k"
  by (simp only: of_nat_less_numeral_power_cancel_iff)

lemma int_size_nat:
  "int_size (int n) = (if n < 2 ^ 7 then 1 else if n < 2 ^ 15 then 2 else if n < 2 ^ 23 then 3 else 4)"
  by (auto simp: int_size_def)

lemma int_len_pos_size:
  assumes "unat w < 2 ^ 31"
  shows "int_len_pos w INT_MASK 4 = int_size (int (unat w))"
proof -
  have 1: "w AND INT_MASK = 0 \<longleftrightarrow> unat w < 2 ^ 23"
    unfolding int_masks(1) by (rule mask_test) (use assms in simp_all)
  have 2: "w AND drop_bit 8 INT_MASK = 0 \<longleftrightarrow> unat w < 2 ^ 15" if "unat w < 2 ^ 23"
    unfolding int_masks(2) by (rule mask_test) (use that in simp_all)
  have 3: "w AND drop_bit 8 (drop_bit 8 INT_MASK) = 0 \<longleftrightarrow> unat w < 2 ^ 7" if "unat w < 2 ^ 15"
    unfolding int_masks(3) by (rule mask_test) (use that in simp_all)
  have step: "int_len_pos w m (Suc (Suc n)) =
      (if w AND m = 0 then int_len_pos w (drop_bit 8 m) (Suc n) else Suc (Suc n))" for m n
    by (subst int_len_pos.simps) simp
  have "int_len_pos w m (Suc 0) = 1" for m by (subst int_len_pos.simps) simp
  moreover obtain m1 where m1: "drop_bit 8 INT_MASK = m1" by simp
  moreover obtain m2 where m2: "drop_bit 8 m1 = m2" by simp
  ultimately have "int_len_pos w INT_MASK (Suc (Suc (Suc (Suc 0)))) = int_size (int (unat w))"
    using 1 2 [unfolded m1] 3 [unfolded m1 m2] by (simp add: int_size_nat step del: of_nat_unat)
  moreover have "4 = Suc (Suc (Suc (Suc 0)))" by simp
  ultimately show ?thesis by metis
qed

lemma int_len_neg_pos: "int_len_neg w m n = int_len_pos (NOT w) m n"
proof (induction w m n rule: int_len_neg.induct)
  case (1 w m n)
  have "w AND m = m \<longleftrightarrow> NOT w AND m = 0"
    by (auto simp: bit_eq_iff bit_simps)
  then show ?case using 1
    by (subst int_len_neg.simps, subst int_len_pos.simps) simp
qed

lemma int_size_not: "int_size (- i - 1) = int_size i"
  by (auto simp: int_size_def)

lemma int_len_size:
  fixes d :: AsnInt
  shows "(if to_long (scast d) < 0 then int_len_neg (scast d) INT_MASK 4
          else int_len_pos (scast d) INT_MASK 4) = int_size (sint d)"
proof -
  have d: "- (2 ^ 31) \<le> sint d" "sint d < 2 ^ 31"
    using sint_ge [of d] sint_lt [of d] by simp_all
  have s: "sint (scast d :: ulong) = sint d"
    by (simp add: signed_scast_eq signed_take_bit_int_eq_self_iff) (use d in simp)
  have u: "int (unat w) = sint w" if "0 \<le> sint w" for w :: ulong
    using to_long_nonneg [of w] that by (simp add: to_long_def)
  show ?thesis
  proof (cases "sint d < 0")
    case True
    have n: "sint (NOT (scast d) :: ulong) = - sint d - 1"
      unfolding signed_not_eq s not_int_def using d by (simp add: signed_take_bit_int_eq_self)
    with True d u [of "NOT (scast d)"] have "int (unat (NOT (scast d) :: ulong)) < 2 ^ 31" by simp
    then have "unat (NOT (scast d) :: ulong) < 2 ^ 31" by (rule int_less_power)
    from int_len_pos_size [OF this] show ?thesis
      using True s n u [of "NOT (scast d)"] by (simp add: to_long_def int_len_neg_pos int_size_not)
  next
    case False
    with d s u [of "scast d"] have "int (unat (scast d :: ulong)) < 2 ^ 31" by simp
    then have "unat (scast d :: ulong) < 2 ^ 31" by (rule int_less_power)
    from int_len_pos_size [OF this] show ?thesis
      using False s u [of "scast d"] by (simp add: to_long_def)
  qed
qed

context gen_writer
begin

lemma put_long_emits: "emits W out werr room (put_long g n w) () (tc_bytes n (sint w))"
proof (induction n arbitrary: w)
  case (Suc n)
  have "sint (signed_drop_bit 8 w) = sint w div 256"
    by (simp add: sint_signed_drop_bit_eq drop_bit_eq_div)
  moreover have "scast w = (ucast w :: byte)"
    by (rule bit_word_eqI) (simp add: bit_simps)
  ultimately show ?case using Suc [of "signed_drop_bit 8 w"]
    by (auto intro!: emits_seq [OF putByteRvs_emits])
qed (simp add: emits_return)

lemma put_ulong_emits: "emits W out werr room (put_ulong g n w) () (tc_bytes n (uint w))"
proof (induction n arbitrary: w)
  case (Suc n)
  have "int (unat (drop_bit 8 w)) = int (unat w) div 2 ^ 8"
    unfolding unat_drop_bit_div by (simp only: zdiv_int of_nat_power of_nat_numeral)
  then have "uint (drop_bit 8 w) = uint w div 256" by (simp only: of_nat_unat) simp
  with Suc [of "drop_bit 8 w"] show ?case
    by (auto intro!: emits_seq [OF putByteRvs_emits])
qed (simp add: emits_return)

end

section \<open>What the encoders write\<close>

context gen_writer
begin

lemma BEncAsnIntContent_emits:
  "emits W out werr room (BEncAsnIntContent g d) (of_nat (length (int_octets (sint d)))) (int_octets (sint d))"
  using emits_bind [OF put_long_emits [of "int_size (sint d)" "scast d"] emits_return]
  by (simp add: BEncAsnIntContent_def int_len_size Let_def int_octets_def sint_scast_up)

lemma BEncAsnInt_emits:
  "emits W out werr room (BEncAsnInt g d)
     (of_nat (length (tlv UNIV_CLASS PRIM 2 (int_octets (sint d)))))
     (tlv UNIV_CLASS PRIM 2 (int_octets (sint d)))"
  unfolding BEncAsnInt_def code_val.simps by (rule emits_tlv [OF BEncAsnIntContent_emits]) simp

lemma BEncAsnEnum_emits:
  "emits W out werr room (BEncAsnEnum g d)
     (of_nat (length (tlv UNIV_CLASS PRIM 10 (int_octets (sint d)))))
     (tlv UNIV_CLASS PRIM 10 (int_octets (sint d)))"
  unfolding BEncAsnEnum_def code_val.simps by (rule emits_tlv [OF BEncAsnIntContent_emits]) simp

lemma BEncAsnBool_emits:
  "emits W out werr room (BEncAsnBool g d)
     (of_nat (length (tlv UNIV_CLASS PRIM 1 [if d \<noteq> 0 then 0xFF else 0])))
     (tlv UNIV_CLASS PRIM 1 [if d \<noteq> 0 then 0xFF else 0])"
  unfolding BEncAsnBool_def code_val.simps BEncAsnBoolContent_def
  by (rule emits_tlv) (auto intro!: emits_seq [OF putByteRvs_emits] emits_return)

lemma BEncAsnNull_emits:
  "emits W out werr room (BEncAsnNull g)
     (of_nat (length (tlv UNIV_CLASS PRIM 5 []))) (tlv UNIV_CLASS PRIM 5 [])"
  unfolding BEncAsnNull_def code_val.simps BEncAsnNullContent_def
  by (rule emits_tlv) (auto intro: emits_return)

text \<open>
  An unsigned value widened to a \<open>long\<close> is never negative, so the branch that adds a zero octet is
  dead, and the top bit is ignored where the size is computed.
\<close>

lemma BEncUAsnIntContent_emits:
  "emits W out werr room (BEncUAsnIntContent g d)
     (of_nat (length (tc_bytes (int_len_pos (ucast d) INT_MASK 4) (uint d))))
     (tc_bytes (int_len_pos (ucast d) INT_MASK 4) (uint d))"
proof -
  have "unat (ucast d :: ulong) < 2 ^ 63"
    by (rule order_less_trans [of _ "2 ^ 32"]) (use unsigned_less [of d] in simp_all)
  then have "\<not> to_long (ucast d) < 0" by (simp add: to_long_small)
  moreover have "uint (ucast d :: ulong) = uint d"
    by (rule uint_ucast_up) simp
  ultimately show ?thesis
    using emits_bind [OF put_ulong_emits [of "int_len_pos (ucast d) INT_MASK 4" "ucast d"] emits_return]
    by (simp add: BEncUAsnIntContent_def Let_def)
qed

lemma BEncUAsnInt_emits:
  "emits W out werr room (BEncUAsnInt g d)
     (of_nat (length (tlv UNIV_CLASS PRIM 2 (tc_bytes (int_len_pos (ucast d) INT_MASK 4) (uint d)))))
     (tlv UNIV_CLASS PRIM 2 (tc_bytes (int_len_pos (ucast d) INT_MASK 4) (uint d)))"
  unfolding BEncUAsnInt_def code_val.simps by (rule emits_tlv [OF BEncUAsnIntContent_emits]) simp

end

section \<open>What the decoders do on a stream\<close>

lemma ucast_octets_fold:
  "ucast (foldl (\<lambda>a x. push_bit 8 a OR ucast x) a (xs :: byte list) :: ulong) =
     (foldl (\<lambda>a x. push_bit 8 a OR ucast x) (ucast a) xs :: 32 word)"
proof (induction xs arbitrary: a)
  case (Cons x xs)
  have "ucast (push_bit 8 a OR ucast x) = (push_bit 8 (ucast a) OR ucast x :: 32 word)"
    by (rule bit_word_eqI) (auto simp: bit_simps)
  with Cons show ?case by simp
qed simp

lemma byte_sign: "(ucast (x :: byte) :: ulong) AND 0x80 = 0 \<longleftrightarrow> \<not> bit x 7"
proof -
  have "(ucast x :: ulong) AND 2 ^ 7 = 0 \<longleftrightarrow> \<not> bit (ucast x :: ulong) 7"
    by (rule and_exp_eq_0_iff_not_bit)
  then show ?thesis by (simp add: bit_simps)
qed

lemma sign_octet:
  "ucast (if (ucast x :: ulong) AND 0x80 \<noteq> 0 then 0xFFFFFF00 OR ucast x else ucast x :: ulong) =
     (word_of_int (sint (x :: byte)) :: 32 word)"
  by (rule word32_eqI) (cases "bit x 7"; simp add: byte_sign bit_simps byte_bit_above)

lemma BDecAsnIntContent_stream [prog_simps]:
  assumes "unat len - 1 = length xs" and "len \<le> 4"
  shows "BDecAsnIntContent stream_ops t len bd (stream_of (x # xs @ ys)) =
    (Inr (word_of_int (tc_val (x # xs)), bd + len), stream_of ys)"
  using assms(2) [folded not_less] BDecLen_loop_stream [of xs _ ys]
    foldl_octets_of_int [of "sint x" xs, where 'a = 32]
  by (simp add: BDecAsnIntContent_def prog_simps assms(1) [simplified] ucast_octets_fold sign_octet
      split del: if_split)

lemma BDecAsnIntContent_short:
  assumes "length xs < max 1 (unat len)" and "len \<le> 4"
  shows "fst (BDecAsnIntContent stream_ops t len bd (stream_of xs)) = Inl (LongJmp (-8))"
proof -
  note le = assms(2) [folded not_less]
  have eod: "\<exists>l. BDecLen_loop stream_ops k a \<lparr>rest = [], rerr = True\<rparr> =
      (Inr l, \<lparr>rest = [], rerr = True\<rparr>)" for k and a :: ulong
    by (induction k arbitrary: a) (simp_all add: prog_simps)
  show ?thesis
  proof (cases xs)
    case Nil
    obtain l where "BDecLen_loop stream_ops (unat len - Suc 0) 0 \<lparr>rest = [], rerr = True\<rparr> =
        (Inr l, \<lparr>rest = [], rerr = True\<rparr>)" using eod by blast
    with Nil le show ?thesis by (simp add: BDecAsnIntContent_def prog_simps)
  next
    case (Cons x ys)
    then have "length ys < unat len - Suc 0" using assms(1) by auto
    then obtain l where "BDecLen_loop stream_ops (unat len - Suc 0)
        (if (ucast x :: ulong) AND 0x80 \<noteq> 0 then 0xFFFFFF00 OR ucast x else ucast x) (stream_of ys) =
        (Inr l, \<lparr>rest = [], rerr = True\<rparr>)" using BDecLen_loop_short by blast
    with Cons le show ?thesis
      by (simp add: BDecAsnIntContent_def prog_simps split del: if_split)
  qed
qed

text \<open>The result of \<open>BDecAsnIntContent\<close> on every input.\<close>

definition int_content :: "AsnLen \<Rightarrow> AsnLen \<Rightarrow> byte list \<Rightarrow> stop + AsnInt \<times> AsnLen" where
  "int_content len bd xs =
     (let n = max 1 (unat len) in
      if len > 4 then Inl (LongJmp (-7))
      else if length xs < n then Inl (LongJmp (-8))
      else Inr (word_of_int (tc_val (take n xs)), bd + len))"

lemma BDecAsnIntContent_result:
  "fst (BDecAsnIntContent stream_ops t len bd (stream_of xs)) = int_content len bd xs"
proof (cases "len > 4 \<or> length xs < max 1 (unat len)")
  case True
  then show ?thesis
    using BDecAsnIntContent_short [of xs len t bd]
    by (auto simp: int_content_def BDecAsnIntContent_def prog_simps not_less)
next
  case False
  then obtain x ys where xs: "xs = x # ys" by (cases xs) auto
  let ?n = "unat len - 1"
  have "max 1 (unat len) = Suc ?n" by simp
  moreover have "length (take ?n ys) = ?n" using False by (auto simp: xs)
  ultimately show ?thesis
    using False BDecAsnIntContent_stream [of len "take ?n ys" t bd x "drop ?n ys"]
    by (simp add: int_content_def xs not_less del: tc_val.simps)
qed

section \<open>Round trips on a stream\<close>

lemma int_size_cases:
  obtains n where "int_size i = Suc n" and "n < 4"
    and "- (2 ^ 31) \<le> i \<Longrightarrow> i < 2 ^ 31 \<Longrightarrow> - (2 ^ (8 * n + 7)) \<le> i \<and> i < 2 ^ (8 * n + 7)"
proof -
  let ?P = "\<lambda>n. - (2 ^ (8 * n + 7)) \<le> i \<and> i < 2 ^ (8 * n + 7)"
  consider "?P 0" | "\<not> ?P 0" "?P 1" | "\<not> ?P 0" "\<not> ?P 1" "?P 2" | "\<not> ?P 0" "\<not> ?P 1" "\<not> ?P 2" by blast
  then show ?thesis
    by cases (rule that [of 0], simp_all add: int_size_def,
        rule that [of 1], simp_all add: int_size_def,
        rule that [of 2], simp_all add: int_size_def,
        rule that [of 3], simp_all add: int_size_def)
qed

lemma length_int_octets: "0 < length (int_octets i)" "length (int_octets i) \<le> 4"
  by (cases i rule: int_size_cases; simp add: int_octets_def)+

lemma tc_val_int_octets:
  assumes "- (2 ^ 31) \<le> i" and "i < 2 ^ 31"
  shows "tc_val (int_octets i) = i"
  by (cases i rule: int_size_cases)
    (use assms tc_val_tc_bytes in \<open>simp add: int_octets_def del: tc_bytes.simps\<close>)

lemma BDecAsnIntContent_octets:
  "BDecAsnIntContent stream_ops t (of_nat (length (int_octets (sint d)))) bd
     (stream_of (int_octets (sint d) @ ys)) =
   (Inr (d, bd + of_nat (length (int_octets (sint d)))), stream_of ys)"
proof -
  let ?xs = "int_octets (sint d)"
  obtain x xs where xs: "?xs = x # xs" using length_int_octets(1) [of "sint d"] by (cases ?xs) auto
  then have "Suc (length xs) \<le> 4" using length_int_octets(2) [of "sint d"] by simp
  then have l: "unat (of_nat (length ?xs) :: ulong) - 1 = length xs" "(of_nat (length ?xs) :: ulong) \<le> 4"
    by (simp_all add: xs unsigned_of_nat take_bit_nat_eq_self word_le_nat_alt del: of_nat_Suc)
  have "word_of_int (tc_val ?xs) = d"
    using sint_ge [of d] sint_lt [of d] by (simp add: tc_val_int_octets)
  with BDecAsnIntContent_stream [OF l] show ?thesis unfolding xs by (simp del: tc_val.simps)
qed

lemmas tlv_proper = proper_class_def proper_form_def

lemma BDecAsnInt_tlv:
  "BDecAsnInt stream_ops bd (stream_of (tlv UNIV_CLASS PRIM 2 (int_octets (sint d)) @ ys)) =
     (Inr (d, bd + of_nat (length (tlv UNIV_CLASS PRIM 2 (int_octets (sint d))))), stream_of ys)"
proof -
  have "length (int_octets (sint d)) < 2 ^ 32"
    using length_int_octets(2) [of "sint d"] by simp
  then show ?thesis
    unfolding BDecAsnInt_def code_val.simps
    by (subst read_header) (simp_all add: tlv_proper BDecAsnIntContent_octets add.assoc tlv_header_length)
qed

lemma BDecAsnEnum_tlv:
  "BDecAsnEnum stream_ops bd (stream_of (tlv UNIV_CLASS PRIM 10 (int_octets (sint d)) @ ys)) =
     (Inr (d, bd + of_nat (length (tlv UNIV_CLASS PRIM 10 (int_octets (sint d))))), stream_of ys)"
proof -
  have "length (int_octets (sint d)) < 2 ^ 32"
    using length_int_octets(2) [of "sint d"] by simp
  then show ?thesis
    unfolding BDecAsnEnum_def code_val.simps
    by (subst read_header) (simp_all add: tlv_proper BDecAsnIntContent_octets add.assoc tlv_header_length)
qed

lemma BDecAsnBool_tlv:
  "BDecAsnBool stream_ops bd (stream_of (tlv UNIV_CLASS PRIM 1 [x] @ ys)) =
     (Inr (if x \<noteq> 0 then 1 else 0, bd + of_nat (length (tlv UNIV_CLASS PRIM 1 [x]))), stream_of ys)"
  unfolding BDecAsnBool_def code_val.simps
  using tlv_header_length [of UNIV_CLASS PRIM 1 "[x]"]
  by (subst read_header) (simp_all add: tlv_proper BDecAsnBoolContent_def prog_simps add.assoc)

lemma BDecAsnNull_tlv:
  "BDecAsnNull stream_ops bd (stream_of (tlv UNIV_CLASS PRIM 5 [] @ ys)) =
     (Inr ((), bd + of_nat (length (tlv UNIV_CLASS PRIM 5 []))), stream_of ys)"
  unfolding BDecAsnNull_def code_val.simps
  using read_header [of UNIV_CLASS PRIM 5 "[]"]
  by (subst read_header) (simp_all add: tlv_proper BDecAsnNullContent_def prog_simps)

section \<open>Unsigned integers\<close>

lemma tc_val_neg: "a < 0 \<Longrightarrow> foldl (\<lambda>a y. 256 * a + uint y) a (xs :: byte list) < 0"
proof (induction xs arbitrary: a)
  case (Cons x xs)
  have "256 * a + uint x < 0" using Cons.prems uint_lt2p [of x] by simp
  with Cons.IH show ?case by simp
qed simp

lemma tc_val_upper:
  "a < 2 ^ k \<Longrightarrow> foldl (\<lambda>a y. 256 * a + uint y) a (xs :: byte list) < 2 ^ (8 * length xs + k)"
proof (induction xs arbitrary: a k)
  case (Cons x xs)
  have "256 * a + uint x < 2 ^ (8 + k)" using Cons.prems uint_lt2p [of x] by (simp add: power_add)
  from Cons.IH [OF this] show ?case by (simp add: ac_simps)
qed simp

lemma sint_byte: "sint (x :: byte) = (if bit x 7 then uint x - 256 else uint x)"
proof -
  have "sint x = signed_take_bit 7 (uint x)" by (simp add: sint_uint)
  also have "\<dots> = (if bit x 7 then uint x - 256 else uint x)"
    using uint_lt2p [of x] take_bit_int_eq_self [of "uint x" 8]
    by (simp add: signed_take_bit_eq_if_positive signed_take_bit_eq_if_negative bit_uint_iff
        signed_take_bit_eq_take_bit_minus [of 7])
  finally show ?thesis .
qed

lemma sint_char: "sint (c :: byte) = (if unat c < 128 then int (unat c) else int (unat c) - 256)"
  using sint_byte [of c] by (simp add: bit_byte_7)

lemma BDecUAsnIntContent_stream:
  assumes "unat len - 1 = length xs" and "len \<le> 5"
  shows "BDecUAsnIntContent stream_ops t len bd (stream_of (x # xs @ ys)) =
    (if bit x 7 then (Inl (LongJmp (-10)), stream_of (xs @ ys))
     else if len = 5 \<and> x \<noteq> 0 then (Inl (LongJmp (-11)), stream_of (xs @ ys))
     else (Inr (word_of_int (tc_val (x # xs)), bd + len), stream_of ys))"
proof -
  have "ucast x = (0 :: ulong) \<longleftrightarrow> x = 0" by (simp add: word_unat_eq_iff)
  moreover have "ucast (foldl (\<lambda>a y. push_bit 8 a OR ucast y) (ucast x) xs :: ulong) =
      (word_of_int (tc_val (x # xs)) :: 32 word)" if "\<not> bit x 7"
  proof -
    have "word_of_int (sint x) = (ucast x :: 32 word)"
      using that by (simp add: sint_byte)
    moreover have "ucast (ucast x :: ulong) = (ucast x :: 32 word)"
      by (rule bit_word_eqI) (simp add: bit_simps byte_bit_above)
    ultimately show ?thesis using foldl_octets_of_int [of "sint x" xs, where 'a = 32]
      by (simp add: ucast_octets_fold)
  qed
  ultimately show ?thesis
    using assms(2) [folded not_less] BDecLen_loop_stream [of xs _ ys] assms(1) [simplified]
    by (simp add: BDecUAsnIntContent_def prog_simps byte_sign del: tc_val.simps)
qed

lemma uint_octets_small:
  assumes "uint d < 2 ^ 31"
  shows "tc_bytes (int_len_pos (ucast d) INT_MASK 4) (uint (d :: UAsnInt)) = int_octets (uint d)"
proof -
  have "int (unat d) < 2 ^ 31" using assms by simp
  then have "unat d < 2 ^ 31" by (rule int_less_power)
  then have "unat (ucast d :: ulong) < 2 ^ 31" by simp
  from int_len_pos_size [OF this] show ?thesis by (simp add: int_octets_def uint_ucast_up)
qed

lemma BDecUAsnInt_tlv:
  assumes "uint d < 2 ^ 31"
  shows "BDecUAsnInt stream_ops bd (stream_of (tlv UNIV_CLASS PRIM 2 (int_octets (uint d)) @ ys)) =
    (Inr (d, bd + of_nat (length (tlv UNIV_CLASS PRIM 2 (int_octets (uint d))))), stream_of ys)"
proof -
  let ?xs = "int_octets (uint d)"
  have val: "tc_val ?xs = uint d" 
    using assms by (intro tc_val_int_octets) (auto intro: order_trans [OF _ uint_ge_0])
  obtain x xs where xs: "?xs = x # xs" using length_int_octets(1) [of "uint d"] by (cases ?xs) auto
  then have "Suc (length xs) \<le> 4" using length_int_octets(2) [of "uint d"] by simp
  then have l: "unat (of_nat (length ?xs) :: ulong) - 1 = length xs" "(of_nat (length ?xs) :: ulong) \<le> 5"
      "(of_nat (length ?xs) :: ulong) \<noteq> 5"
    by (auto simp: xs unsigned_of_nat take_bit_nat_eq_self word_le_nat_alt word_unat_eq_iff simp del: of_nat_Suc)
  have "\<not> sint x < 0" using val tc_val_neg [of "sint x" xs] by (auto simp: xs)
  then have "\<not> bit x 7" using uint_lt2p [of x] by (auto simp: sint_byte)
  with BDecUAsnIntContent_stream [OF l(1,2)] val l(3)
  have "BDecUAsnIntContent stream_ops t (of_nat (length ?xs)) b (stream_of (?xs @ zs)) =
      (Inr (d, b + of_nat (length ?xs)), stream_of zs)" for t b zs
    unfolding xs by (simp del: tc_val.simps of_nat_Suc)
  moreover have "length ?xs < 2 ^ 32" using length_int_octets(2) [of "uint d"] by simp
  ultimately show ?thesis
    unfolding BDecUAsnInt_def code_val.simps
    by (subst read_header) (simp_all add: tlv_proper add.assoc tlv_header_length)
qed

text \<open>Four octets or less denote a value below \<open>2 ^ 31\<close> for this decoder, or none.\<close>

lemma BDecUAsnIntContent_below:
  assumes "BDecUAsnIntContent stream_ops t (of_nat (length zs)) bd (stream_of (zs @ ys)) = (Inr (d, b), s)"
    and "0 < length zs" and "length zs \<le> 4"
  shows "uint d < 2 ^ 31"
proof -
  obtain x xs where zs: "zs = x # xs" using assms(2) by (cases zs) auto
  have l: "unat (of_nat (length zs) :: ulong) - 1 = length xs" "(of_nat (length zs) :: ulong) \<le> 5"
    using assms(3)
    by (auto simp: zs unsigned_of_nat take_bit_nat_eq_self word_le_nat_alt simp del: of_nat_Suc)
  from BDecUAsnIntContent_stream [OF l] assms(1)
  have d: "d = word_of_int (tc_val (x # xs))" and pos: "\<not> bit x 7"
    unfolding zs by (auto split: if_splits simp del: tc_val.simps of_nat_Suc)
  have "uint x < 2 ^ 7"
    using pos uint_lt2p [of x] sint_byte [of x] sint_lt [of x] by simp
  from tc_val_upper [OF this, of xs] pos
  have "tc_val (x # xs) < 2 ^ (8 * length xs + 7)" by (simp add: sint_byte)
  also have "\<dots> \<le> 2 ^ 31" using assms(3) by (intro power_increasing) (auto simp: zs)
  finally have "tc_val (x # xs) < 2 ^ 31" .
  moreover have "0 \<le> tc_val (x # xs)"
  proof -
    have "0 \<le> foldl (\<lambda>a y. 256 * a + uint y) a (ws :: byte list)" if "0 \<le> a" for a ws
      using that by (induction ws arbitrary: a) simp_all
    with pos show ?thesis by (simp add: sint_byte)
  qed
  ultimately show ?thesis
    unfolding d by (simp add: unsigned_of_int take_bit_int_eq_self del: tc_val.simps)
qed

lemma int_len_pos_pos: "0 < n \<Longrightarrow> 0 < int_len_pos w m n"
  by (induction w m n rule: int_len_pos.induct) (subst int_len_pos.simps, force)

lemma int_len_pos_le: "int_len_pos w m n \<le> n"
  by (induction w m n rule: int_len_pos.induct) (subst int_len_pos.simps, force)

lemma tc_val_range:
  assumes "xs \<noteq> []"
  shows "- (2 ^ (8 * length xs - 1)) \<le> tc_val xs" and "tc_val xs < 2 ^ (8 * length xs - 1)"
proof -
  obtain x ys where xs: "xs = x # ys" using assms by (cases xs) auto
  have e: "8 * length xs - 1 = 8 * length ys + 7" by (simp add: xs)
  have "foldl (\<lambda>a y. 256 * a + uint y) a (zs :: byte list) \<ge> - (2 ^ (8 * length zs + k))"
    if "- (2 ^ k) \<le> a" for a k zs
    using that
  proof (induction zs arbitrary: a k)
    case (Cons z zs)
    have "- (2 ^ (8 + k)) = 256 * (- (2 ^ k) :: int)" by (simp add: power_add)
    also have "\<dots> \<le> 256 * a + uint z" using Cons.prems uint_ge_0 [of z] by linarith
    finally have "- (2 ^ (8 + k)) \<le> 256 * a + uint z" .
    from Cons.IH [OF this] show ?case by (simp add: ac_simps)
  qed simp
  from this [of 7 "sint x" ys] sint_ge [of x] show "- (2 ^ (8 * length xs - 1)) \<le> tc_val xs"
    unfolding e by (simp add: xs)
  from tc_val_upper [of "sint x" 7 ys] sint_lt [of x] show "tc_val xs < 2 ^ (8 * length xs - 1)"
    unfolding e by (simp add: xs)
qed

lemma int_octets_shortest:
  assumes "ys \<noteq> []" and "tc_val ys = i"
  shows "length (int_octets i) \<le> length ys"
proof -
  obtain n where n: "length ys = Suc n" using assms(1) by (cases ys) auto
  have "int_size i \<le> Suc n"
    using tc_val_range [OF assms(1)] assms(2) n by (intro int_size_least) (simp_all add: add.commute)
  then show ?thesis by (simp add: int_octets_def n)
qed

lemma BDecUAsnInt_of_written:
  "(\<exists>n. fst (BDecUAsnInt stream_ops 0
      (stream_of (tlv UNIV_CLASS PRIM 2 (tc_bytes (int_len_pos (ucast d) INT_MASK 4) (uint d))))) = Inr (d, n)) \<longleftrightarrow>
    uint d < 2 ^ 31"
proof
  let ?xs = "tc_bytes (int_len_pos (ucast d) INT_MASK 4) (uint d)"
  assume "\<exists>n. fst (BDecUAsnInt stream_ops 0 (stream_of (tlv UNIV_CLASS PRIM 2 ?xs))) = Inr (d, n)"
  then obtain n s where r: "BDecUAsnInt stream_ops 0 (stream_of (tlv UNIV_CLASS PRIM 2 ?xs @ [])) = (Inr (d, n), s)"
    by (metis append_Nil2 prod.collapse)
  have l: "length ?xs \<le> 4" "0 < length ?xs"
    using int_len_pos_le [of "ucast d" INT_MASK 4] int_len_pos_pos [of 4 "ucast d" INT_MASK] by simp_all
  then have "length ?xs < 2 ^ 32" by simp
  with r obtain b where "BDecUAsnIntContent stream_ops (MAKE_TAG_ID UNIV_CLASS PRIM 2) (of_nat (length ?xs)) b
      (stream_of (?xs @ [])) = (Inr (d, n), s)"
    unfolding BDecUAsnInt_def code_val.simps by (subst (asm) read_header) (auto simp: tlv_proper)
  then show "uint d < 2 ^ 31" by (rule BDecUAsnIntContent_below) (use l in simp_all)
next
  assume "uint d < 2 ^ 31"
  then show "\<exists>n. fst (BDecUAsnInt stream_ops 0
      (stream_of (tlv UNIV_CLASS PRIM 2 (tc_bytes (int_len_pos (ucast d) INT_MASK 4) (uint d))))) = Inr (d, n)"
    using BDecUAsnInt_tlv [of d 0 "[]"] by (simp add: uint_octets_small)
qed

end
