(* ===== verification/Asn_Oid.thy ===== *)
theory Asn_Oid
  imports Asn_Bits Asn_Prim
begin

text \<open>
  OBJECT IDENTIFIER and RELATIVE-OID (\<open>c-lib/src/asn-oid.c\<close>, \<open>asn-relative-oid.c\<close>). A value is
  kept encoded, as an \<open>AsnOcts\<close>; the linked lists of arcs (\<open>OID\<close>, \<open>RELATIVE_OID\<close>) are
  converted to and from it. A \<open>next\<close> pointer is another node, \<open>NULL\<close> or, where the code
  never sets it, wild; following a wild or null pointer is undefined.
\<close>

section \<open>Encoding and decoding\<close>

definition BEncAsnOid :: "'b GenBuf \<Rightarrow> AsnOcts \<Rightarrow> ('b, AsnLen) prog" where
  "BEncAsnOid b data =
     bindP (BEncAsnOctsContent b data) (\<lambda>len.
     bindP (BEncDefLen b len) (\<lambda>l.
     bindP (BEncTag1 b UNIV_CLASS PRIM (code_val OID_TAG_CODE)) (\<lambda>t.
     returnP (len + l + t))))"

definition BEncAsnRelativeOid :: "'b GenBuf \<Rightarrow> AsnOcts \<Rightarrow> ('b, AsnLen) prog" where
  "BEncAsnRelativeOid b data =
     bindP (BEncAsnOctsContent b data) (\<lambda>len.
     bindP (BEncDefLen b len) (\<lambda>l.
     bindP (BEncTag1 b UNIV_CLASS PRIM (code_val RELATIVE_OID_TAG_CODE)) (\<lambda>t.
     returnP (len + l + t))))"

definition BDecAsnOidContent :: "'b GenBuf \<Rightarrow> AsnTag \<Rightarrow> AsnLen \<Rightarrow> AsnLen \<Rightarrow> ('b, AsnOcts \<times> AsnLen) prog" where
  "BDecAsnOidContent b tagId len bytesDecoded =
     (if len = INDEFINITE_LEN then longjmp (-66)
      else
        bindP (Asn1Alloc len) (\<lambda>blk.
        bindP (copyFcn b len) (\<lambda>bs.
        bindP (liftP (blk_write blk 0 bs)) (\<lambda>blk.
        bindP (readError b) (\<lambda>e.
        if e then longjmp (-21)
        else returnP (\<lparr>octetLen = len, octs = blk\<rparr>, bytesDecoded + len))))))"

definition BDecAsnOid :: "'b GenBuf \<Rightarrow> AsnLen \<Rightarrow> ('b, AsnOcts \<times> AsnLen) prog" where
  "BDecAsnOid b bytesDecoded =
     bindP (BDecTag b bytesDecoded) (\<lambda>(tag, bytesDecoded).
     if tag \<noteq> MAKE_TAG_ID UNIV_CLASS PRIM (code_val OID_TAG_CODE) then longjmp (-40)
     else
       bindP (BDecLen b bytesDecoded) (\<lambda>(elmtLen, bytesDecoded).
       BDecAsnOidContent b tag elmtLen bytesDecoded))"

text \<open>\<open>BDecAsnRelativeOidContent\<close> is the same routine under another name.\<close>

definition BDecAsnRelativeOidContent ::
  "'b GenBuf \<Rightarrow> AsnTag \<Rightarrow> AsnLen \<Rightarrow> AsnLen \<Rightarrow> ('b, AsnOcts \<times> AsnLen) prog" where
  "BDecAsnRelativeOidContent b tagId len bytesDecoded =
     (if len = INDEFINITE_LEN then longjmp (-66)
      else
        bindP (Asn1Alloc len) (\<lambda>blk.
        bindP (copyFcn b len) (\<lambda>bs.
        bindP (liftP (blk_write blk 0 bs)) (\<lambda>blk.
        bindP (readError b) (\<lambda>e.
        if e then longjmp (-21)
        else returnP (\<lparr>octetLen = len, octs = blk\<rparr>, bytesDecoded + len))))))"

definition BDecAsnRelativeOid :: "'b GenBuf \<Rightarrow> AsnLen \<Rightarrow> ('b, AsnOcts \<times> AsnLen) prog" where
  "BDecAsnRelativeOid b bytesDecoded =
     bindP (BDecTag b bytesDecoded) (\<lambda>(tag, bytesDecoded).
     if tag \<noteq> MAKE_TAG_ID UNIV_CLASS PRIM (code_val RELATIVE_OID_TAG_CODE) then longjmp (-40)
     else
       bindP (BDecLen b bytesDecoded) (\<lambda>(elmtLen, bytesDecoded).
       BDecAsnRelativeOidContent b tag elmtLen bytesDecoded))"

section \<open>Linked lists of arcs\<close>

datatype OID = OID_NULL | OID_WILD | OID_node (oid_arc: ulong) (oid_next: OID)

primrec oid_of :: "ulong list \<Rightarrow> OID" where
  "oid_of [] = OID_NULL"
| "oid_of (a # as) = OID_node a (oid_of as)"

text \<open>\<open>for (len = 0; (tmpArcNum >>= 7) != 0; len++)\<close>\<close>

function arc_groups :: "ulong \<Rightarrow> nat" where
  "arc_groups tmpArcNum =
     (let tmpArcNum = drop_bit 7 tmpArcNum in if tmpArcNum \<noteq> 0 then Suc (arc_groups tmpArcNum) else 0)"
  by pat_completeness auto
termination
  by (relation "measure unat") (auto simp: unat_drop_bit_less intro!: unat_drop_bit_less)

declare arc_groups.simps [simp del]

text \<open>\<open>(oid->arcNum * 40) + oid->next->arcNum\<close> in \<open>long\<close>, where an overflow is undefined.\<close>

definition head_arc :: "ulong \<Rightarrow> ulong \<Rightarrow> stop + ulong" where
  "head_arc a b =
     (let h = to_long a * 40 + to_long b in
      if - (2 ^ 63) \<le> to_long a * 40 \<and> to_long a * 40 < 2 ^ 63 \<and> - (2 ^ 63) \<le> h \<and> h < 2 ^ 63
      then Inr (word_of_int h) else Inl Fault)"

fun oid_arcs_len :: "OID \<Rightarrow> AsnLen \<Rightarrow> stop + AsnLen" where
  "oid_arcs_len OID_NULL totalLen = Inr totalLen"
| "oid_arcs_len OID_WILD totalLen = Inl Fault"
| "oid_arcs_len (OID_node a tmpOid) totalLen = oid_arcs_len tmpOid (totalLen + 1 + of_nat (arc_groups a))"

definition EncodedOidLen :: "OID \<Rightarrow> stop + AsnLen" where
  "EncodedOidLen oid =
     (case oid of
        OID_node a OID_NULL \<Rightarrow> Inr 0
      | OID_node a (OID_node b rst) \<Rightarrow>
          (case head_arc a b of
             Inl e \<Rightarrow> Inl e
           | Inr h \<Rightarrow> oid_arcs_len rst (1 + of_nat (arc_groups h)))
      | _ \<Rightarrow> Inl Fault)"

text \<open>
  The octets of one arc: the more significant groups of seven bits, with the top bit set, and the
  last group. The head arc is an \<open>unsigned long\<close>, the others are shifted as a \<open>long\<close>.
\<close>

definition arc_bytes :: "(nat \<Rightarrow> ulong \<Rightarrow> ulong) \<Rightarrow> ulong \<Rightarrow> byte list" where
  "arc_bytes shift arc =
     (let len = arc_groups arc
      in map (\<lambda>i. ucast (0x80 OR shift ((len - i) * 7) arc)) [0..<len] @ [ucast (0x7f AND arc)])"

fun build_arcs :: "OID \<Rightarrow> byte list \<Rightarrow> nat \<Rightarrow> stop + byte list \<times> nat" where
  "build_arcs OID_NULL blk buf = Inr (blk, buf)"
| "build_arcs OID_WILD blk buf = Inl Fault"
| "build_arcs (OID_node a tmpOid) blk buf =
     (let bs = arc_bytes signed_drop_bit a in
      case blk_write blk buf bs of
        Inl e \<Rightarrow> Inl e
      | Inr blk \<Rightarrow> build_arcs tmpOid blk (buf + length bs))"

definition BuildEncodedOid :: "OID \<Rightarrow> AsnOcts \<Rightarrow> stop + AsnOcts" where
  "BuildEncodedOid oid result =
     (case oid of
        OID_node a OID_NULL \<Rightarrow> Inr result
      | OID_node a (OID_node b rst) \<Rightarrow>
          (case head_arc a b of
             Inl e \<Rightarrow> Inl e
           | Inr h \<Rightarrow>
               (let bs = arc_bytes drop_bit h in
                case blk_write (octs result) 0 bs of
                  Inl e \<Rightarrow> Inl e
                | Inr blk \<Rightarrow>
                    map_sum id (\<lambda>(blk, buf). \<lparr>octetLen = of_nat buf, octs = blk\<rparr>)
                      (build_arcs rst blk (length bs))))
      | _ \<Rightarrow> Inl Fault)"

text \<open>
  One arc is read as an \<open>int\<close> (its shifts wrap): the loop stops before an octet whose top bit is
  clear or at the end of the value, and the octet there is fetched without a check.
\<close>

function get_arc :: "byte list \<Rightarrow> nat \<Rightarrow> nat \<Rightarrow> 32 word \<Rightarrow> stop + 32 word \<times> nat" where
  "get_arc blk n i arcNum =
     (case mem_read blk i of
        Inl e \<Rightarrow> Inl e
      | Inr c \<Rightarrow>
          (let arcNum = push_bit 7 arcNum + ucast (c AND 0x7f) in
           if i < n \<and> c AND 0x80 \<noteq> 0 then get_arc blk n (i + 1) arcNum else Inr (arcNum, i + 1)))"
  by pat_completeness auto
termination
  by (relation "measure (\<lambda>(blk, n, i, a). n - i)") auto

declare get_arc.simps [simp del]

lemma get_arc_mono: "get_arc blk n i a = Inr (x, j) \<Longrightarrow> i < j"
proof (induction blk n i a rule: get_arc.induct)
  case (1 blk n i a)
  then show ?case
    by (subst (asm) get_arc.simps) (fastforce split: sum.splits if_splits simp: Let_def)
qed

text \<open>\<open>for (; i < (int)(eoid->octetLen);)\<close>: each new node is terminated by \<open>NULL\<close>.\<close>

function get_arcs :: "byte list \<Rightarrow> nat \<Rightarrow> nat \<Rightarrow> OID \<Rightarrow> stop + OID" where
  "get_arcs blk n i nextOid =
     (if i < n then
        (case get_arc blk n i 0 of
           Inl e \<Rightarrow> Inl e
         | Inr (a, j) \<Rightarrow> map_sum id (OID_node (scast a)) (get_arcs blk n j OID_NULL))
      else Inr nextOid)"
  by pat_completeness auto
termination
  by (relation "measure (\<lambda>(blk, n, i, z). n - i)") (auto dest!: get_arc_mono)

declare get_arcs.simps [simp del]

definition oct_count :: "AsnOcts \<Rightarrow> nat" where
  "oct_count v = nat (to_int (octetLen v))"

definition UnbuildEncodedOid :: "AsnOcts \<Rightarrow> stop + OID" where
  "UnbuildEncodedOid eoid =
     (let n = oct_count eoid in
      case get_arc (octs eoid) n 0 0 of
        Inl e \<Rightarrow> Inl e
      | Inr (arcNum, i) \<Rightarrow>
          (let firstArcNum = (if sint arcNum sdiv 40 > 2 then 2 else sint arcNum sdiv 40);
               secondArcNum = sint arcNum - firstArcNum * 40
           in map_sum id (\<lambda>rst. OID_node (word_of_int firstArcNum) (OID_node (word_of_int secondArcNum) rst))
                (get_arcs (octs eoid) n i OID_WILD)))"

section \<open>Relative object identifiers\<close>

definition EncodedRelativeOidLen :: "OID \<Rightarrow> stop + AsnLen" where
  "EncodedRelativeOidLen oid = (if oid = OID_NULL then Inr 0 else oid_arcs_len oid 0)"

definition BuildEncodedRelativeOid :: "OID \<Rightarrow> AsnOcts \<Rightarrow> stop + AsnOcts" where
  "BuildEncodedRelativeOid oid result =
     (case oid of
        OID_node a OID_NULL \<Rightarrow> Inr result
      | OID_node a rst \<Rightarrow>
          map_sum id (\<lambda>(blk, buf). \<lparr>octetLen = of_nat buf, octs = blk\<rparr>) (build_arcs oid (octs result) 0)
      | _ \<Rightarrow> Inl Fault)"

text \<open>After the head the loop starts again at \<open>i = 1\<close>, wherever the first arc has ended.\<close>

definition UnbuildEncodedRelativeOid :: "AsnOcts \<Rightarrow> stop + OID" where
  "UnbuildEncodedRelativeOid eoid =
     (let n = oct_count eoid in
      case get_arc (octs eoid) n 0 0 of
        Inl e \<Rightarrow> Inl e
      | Inr (arcNum, i) \<Rightarrow>
          map_sum id (OID_node (scast arcNum)) (get_arcs (octs eoid) n 1 OID_WILD))"

section \<open>Seven bits at a time\<close>

text \<open>The octets of an arc by division.\<close>

fun arc_high :: "nat \<Rightarrow> byte list" where
  "arc_high k = (if k = 0 then [] else arc_high (k div 128) @ [of_nat (128 + k mod 128)])"

declare arc_high.simps [simp del]

definition arc_octets :: "nat \<Rightarrow> byte list" where
  "arc_octets k = arc_high (k div 128) @ [of_nat (k mod 128)]"

lemma arc_high_0 [simp]: "arc_high 0 = []"
  by (subst arc_high.simps) simp

lemma unat_low7: "unat w mod 128 = unat (take_bit 7 w)" for w :: "'a::len word"
proof -
  have "unat (take_bit 7 w) = take_bit 7 (unat w)" by (rule unsigned_take_bit_eq)
  then show ?thesis by (simp add: take_bit_eq_mod)
qed

lemma group_byte: "ucast (0x80 OR w) = (of_nat (128 + unat w mod 128) :: byte)" for w :: ulong
proof -
  have "unat w mod 128 = unat (take_bit 7 w)" by (rule unat_low7)
  moreover have "(of_nat (128 + unat (take_bit 7 w)) :: byte) = 0x80 + ucast (take_bit 7 w)" by simp
  moreover have "0x80 + ucast (take_bit 7 w) = (0x80 OR ucast (take_bit 7 w) :: byte)"
  proof (rule disjunctive_add)
    fix n
    have "bit (0x80 :: byte) n \<longleftrightarrow> n = 7" using bit_exp_iff [where ?'a = "byte", of 7 n] by auto
    then show "\<not> bit (0x80 :: byte) n \<or> \<not> bit (ucast (take_bit 7 w) :: byte) n" by (auto simp: bit_simps)
  qed
  moreover have "(0x80 OR ucast (take_bit 7 w) :: byte) = ucast (0x80 OR w)"
    by (rule byte_eqI) (auto simp: bit_simps)
  ultimately show ?thesis by metis
qed

lemma last_byte: "ucast (0x7f AND w) = (of_nat (unat w mod 128) :: byte)" for w :: ulong
proof -
  have "unat w mod 128 = unat (take_bit 7 w)" by (rule unat_low7)
  moreover have "ucast (0x7f AND w) = (ucast (take_bit 7 w) :: byte)"
    by (rule byte_eqI) (auto simp: bit_simps)
  ultimately show ?thesis by simp
qed

lemma arc_groups_high: "arc_groups w = length (arc_high (unat w div 128))"
proof (induction w rule: arc_groups.induct)
  case (1 w)
  have d: "unat (drop_bit 7 w) = unat w div 128" by (simp add: unat_drop_bit_div)
  show ?case
  proof (cases "drop_bit 7 w = 0")
    case True
    with d show ?thesis by (subst arc_groups.simps) simp
  next
    case False
    then have "unat w div 128 \<noteq> 0" using d by (metis unat_eq_0)
    with False 1 d show ?thesis by (subst arc_groups.simps, subst arc_high.simps) simp
  qed
qed

lemma arc_high_groups:
  "map (\<lambda>i. ucast (0x80 OR drop_bit ((arc_groups w - i) * 7) w)) [0..<arc_groups w] = arc_high (unat w div 128)"
proof (induction w rule: arc_groups.induct)
  case (1 w)
  let ?w = "drop_bit 7 w"
  have d: "unat ?w = unat w div 128" by (simp add: unat_drop_bit_div)
  show ?case
  proof (cases "?w = 0")
    case True
    with d show ?thesis by (subst arc_groups.simps) simp
  next
    case False
    then have nz: "unat w div 128 \<noteq> 0" using d by (metis unat_eq_0)
    have g: "arc_groups w = Suc (arc_groups ?w)" using False by (subst arc_groups.simps) simp
    have "map (\<lambda>i. ucast (0x80 OR drop_bit ((arc_groups w - i) * 7) w)) [0..<arc_groups ?w] =
        map (\<lambda>i. ucast (0x80 OR drop_bit ((arc_groups ?w - i) * 7) ?w)) [0..<arc_groups ?w]"
      by (auto simp: g Suc_diff_le add.commute)
    also have "\<dots> = (arc_high (unat w div 128 div 128) :: byte list)" using 1 False d by simp
    finally show ?thesis
      using nz by (subst arc_high.simps) (simp add: g group_byte [of ?w] d)
  qed
qed

lemma arc_bytes_octets: "arc_bytes drop_bit w = arc_octets (unat w)"
  using arc_high_groups [of w] by (simp add: arc_bytes_def arc_octets_def last_byte Let_def)

lemma arc_bytes_signed: "0 \<le> to_long w \<Longrightarrow> arc_bytes signed_drop_bit w = arc_octets (unat w)"
proof -
  assume "0 \<le> to_long w"
  then have "int (unat w) < 2 ^ 63"
    using to_long_nonneg [of w] sint_lt [of w] by (simp add: to_long_def)
  then have "unat w < 2 ^ 63" by (simp only: of_nat_less_numeral_power_cancel_iff)
  then have "\<not> bit w 63" by (rule not_bit_above) simp
  then have "signed_drop_bit n w = drop_bit n w" for n
    by (intro bit_word_eqI) (auto simp: bit_simps min_def dest: bit_imp_le_length)
  then have "arc_bytes signed_drop_bit w = arc_bytes drop_bit w" by (simp add: arc_bytes_def)
  then show ?thesis by (simp add: arc_bytes_octets)
qed

lemma length_arc_octets: "length (arc_octets (unat w)) = Suc (arc_groups w)"
  by (simp add: arc_octets_def arc_groups_high)

lemma low7_byte: "c AND 0x7f = take_bit 7 (c :: byte)"
  by (simp add: take_bit_eq_mask mask_eq_exp_minus_1)

lemma top_byte: "c AND 0x80 = 0 \<longleftrightarrow> unat (c :: byte) < 128"
  using and_exp_eq_0_iff_not_bit [of c 7] by (simp add: bit_byte_7)

lemma group_bytes:
  assumes "j < 128"
  shows "unat (of_nat j :: byte) = j" "unat (of_nat (128 + j) :: byte) = 128 + j"
    "ucast ((of_nat j :: byte) AND 0x7f) = (of_nat j :: 32 word)"
    "ucast ((of_nat (128 + j) :: byte) AND 0x7f) = (of_nat j :: 32 word)"
proof -
  show u: "unat (of_nat j :: byte) = j" "unat (of_nat (128 + j) :: byte) = 128 + j"
    using assms by (simp_all only: unsigned_of_nat) (simp_all add: take_bit_nat_eq_self)
  have "unat (take_bit 7 (of_nat j) :: byte) = j" "unat (take_bit 7 (of_nat (128 + j)) :: byte) = j"
    using assms by (simp_all only: unat_low7 [symmetric] u) simp_all
  moreover have "take_bit 32 j = j" by (rule take_bit_nat_eq_self) (use assms in simp)
  ultimately show "ucast ((of_nat j :: byte) AND 0x7f) = (of_nat j :: 32 word)"
    "ucast ((of_nat (128 + j) :: byte) AND 0x7f) = (of_nat j :: 32 word)"
    unfolding low7_byte by (simp_all add: word_unat_eq_iff unsigned_of_nat)
qed

lemma shift_group: "push_bit 7 (of_nat (k div 128)) + of_nat (k mod 128) = (of_nat k :: 32 word)"
proof -
  have "push_bit 7 (of_nat (k div 128)) + of_nat (k mod 128) = (of_nat (k div 128 * 128 + k mod 128) :: 32 word)"
    by (simp only: push_bit_eq_mult of_nat_add of_nat_mult) simp
  then show ?thesis by simp
qed

lemma get_arc_high:
  assumes "length pre + length (arc_high k) < n"
  shows "get_arc (pre @ arc_high k @ ys) n (length pre) 0 =
    get_arc (pre @ arc_high k @ ys) n (length pre + length (arc_high k)) (of_nat k)"
  using assms
proof (induction k arbitrary: ys rule: arc_high.induct)
  case (1 k)
  show ?case
  proof (cases "k = 0")
    case False
    let ?h = "arc_high (k div 128)" and ?b = "of_nat (128 + k mod 128) :: byte"
    have h: "arc_high k = ?h @ [?b]" using False by (subst arc_high.simps) simp
    have top: "?b AND 0x80 \<noteq> 0"
      unfolding top_byte using group_bytes(2) [of "k mod 128"] by (simp del: of_nat_add)
    have "get_arc (pre @ ?h @ [?b] @ ys) n (length pre) 0 =
        get_arc (pre @ ?h @ [?b] @ ys) n (length pre + length ?h) (of_nat (k div 128))"
      using "1.IH" [OF False, of "[?b] @ ys"] "1.prems" by (simp add: h)
    also have "\<dots> = get_arc (pre @ ?h @ [?b] @ ys) n (length pre + length ?h + 1) (of_nat k)"
      using top "1.prems" group_bytes(4) [of "k mod 128"] shift_group [of k]
      by (subst get_arc.simps) (simp add: mem_read_def nth_append h del: of_nat_add)
    finally show ?thesis by (simp add: h)
  qed simp
qed

lemma get_arc_octets:
  assumes "length pre + length (arc_octets k) \<le> n"
  shows "get_arc (pre @ arc_octets k @ ys) n (length pre) 0 =
    Inr (of_nat k, length pre + length (arc_octets k))"
proof -
  let ?h = "arc_high (k div 128)" and ?b = "of_nat (k mod 128) :: byte"
  have top: "?b AND 0x80 = 0" unfolding top_byte using group_bytes(1) [of "k mod 128"] by simp
  have "get_arc (pre @ ?h @ [?b] @ ys) n (length pre) 0 =
      get_arc (pre @ ?h @ [?b] @ ys) n (length pre + length ?h) (of_nat (k div 128))"
    using get_arc_high [of pre "k div 128" n "[?b] @ ys"] assms by (simp add: arc_octets_def)
  also have "\<dots> = Inr (of_nat k, length pre + length ?h + 1)"
    using top group_bytes(3) [of "k mod 128"] shift_group [of k]
    by (subst get_arc.simps) (simp add: mem_read_def nth_append)
  finally show ?thesis by (simp add: arc_octets_def)
qed

section \<open>Lists of arcs\<close>

definition arcs_octets :: "ulong list \<Rightarrow> byte list" where
  "arcs_octets as = concat (map (\<lambda>a. arc_octets (unat a)) as)"

lemma arcs_octets_simps [simp]:
  "arcs_octets [] = []" "arcs_octets (a # as) = arc_octets (unat a) @ arcs_octets as"
  by (simp_all add: arcs_octets_def)

lemma oid_arcs_len_octets: "oid_arcs_len (oid_of as) n = Inr (n + of_nat (length (arcs_octets as)))"
  by (induction as arbitrary: n) (simp_all add: length_arc_octets add_ac)

lemma build_arcs_octets:
  assumes "\<forall>a\<in>set as. 0 \<le> to_long a" and "i + length (arcs_octets as) \<le> length blk"
  shows "build_arcs (oid_of as) blk i = Inr (mem_put blk i (arcs_octets as), i + length (arcs_octets as))"
  using assms
proof (induction as arbitrary: blk i)
  case Nil
  then show ?case by (simp add: mem_put_def)
next
  case (Cons a as)
  then show ?case
    using mem_put_mem_put [of i "arc_octets (unat a)" "arcs_octets as" blk]
    by (simp add: arc_bytes_signed blk_write_def add.assoc Let_def)
qed

text \<open>Arcs below \<open>2 ^ 31\<close> survive the conversion through \<open>int\<close>.\<close>

definition small_arc :: "ulong \<Rightarrow> bool" where
  "small_arc a \<longleftrightarrow> unat a < 2 ^ 31"

lemma small_arc_scast: "small_arc a \<Longrightarrow> scast (ucast a :: 32 word) = a"
proof -
  assume a: "small_arc a"
  then have "sint (ucast a :: 32 word) = int (unat a)"
    using to_int_small [of a] by (simp add: small_arc_def to_int_def)
  moreover have "sint a = int (unat a)" using a by (simp add: small_arc_def sint_small)
  ultimately have "sint (scast (ucast a :: 32 word) :: ulong) = sint a" by (simp only: sint_scast_up)
  then show ?thesis by (rule signed_word_eqI)
qed

text \<open>
  \<open>UnbuildEncodedOid\<close> collects an arc in an \<open>int\<close> and stores it in a \<open>long\<close>: the low 32 bits
  are kept, and their sign is extended. An arc that is not negative as a \<open>long\<close> survives this
  exactly when it is below \<open>2 ^ 31\<close>.
\<close>

lemma small_arc_nonneg: "small_arc a \<Longrightarrow> 0 \<le> to_long a"
  by (simp add: small_arc_def to_long_small)

definition through_int :: "ulong \<Rightarrow> ulong" where
  "through_int a = scast (ucast a :: 32 word)"

lemma through_int_iff: "unat a < 2 ^ 63 \<Longrightarrow> through_int a = a \<longleftrightarrow> small_arc a"
proof
  assume a: "unat a < 2 ^ 63" and eq: "through_int a = a"
  have "sint a = sint (ucast a :: 32 word)"
    using arg_cong [OF eq, of sint] by (simp only: through_int_def sint_scast_up)
  moreover have "sint a = int (unat a)" using a by (simp add: sint_small)
  moreover have "sint (ucast a :: 32 word) < 2 ^ 31" using sint_lt [of "ucast a :: 32 word"] by simp
  ultimately have "int (unat a) < int (2 ^ 31)" by simp
  then show "small_arc a" by (simp only: small_arc_def of_nat_less_iff)
qed (simp add: through_int_def small_arc_scast)

lemma through_int_small: "\<forall>a\<in>set as. small_arc a \<Longrightarrow> map through_int as = as"
  by (intro map_idI) (simp add: through_int_def small_arc_scast)

lemma oid_of_eq_iff [simp]: "oid_of as = oid_of bs \<longleftrightarrow> as = bs"
proof (induction as arbitrary: bs)
  case Nil
  then show ?case by (cases bs) simp_all
next
  case (Cons a as)
  then show ?case by (cases bs) simp_all
qed

lemma arc_octets_pos: "0 < length (arc_octets k)"
  by (simp add: arc_octets_def)

lemma get_arcs_octets:
  "get_arcs (pre @ arcs_octets as @ ys) (length pre + length (arcs_octets as)) (length pre) z =
    Inr (if as = [] then z else oid_of (map through_int as))"
proof (induction as arbitrary: pre z)
  case Nil
  then show ?case by (subst get_arcs.simps) simp
next
  case (Cons a as)
  have "get_arc (pre @ arc_octets (unat a) @ arcs_octets as @ ys)
      (length pre + length (arc_octets (unat a) @ arcs_octets as)) (length pre) 0 =
      Inr (of_nat (unat a), length pre + length (arc_octets (unat a)))"
    by (rule get_arc_octets) simp
  moreover have "get_arcs ((pre @ arc_octets (unat a)) @ arcs_octets as @ ys)
      (length (pre @ arc_octets (unat a)) + length (arcs_octets as)) (length (pre @ arc_octets (unat a))) OID_NULL =
      Inr (if as = [] then OID_NULL else oid_of (map through_int as))"
    by (rule Cons.IH)
  moreover have "(if as = [] then OID_NULL else oid_of (map through_int as)) = oid_of (map through_int as)" by simp
  ultimately show ?case
    using arc_octets_pos [of "unat a"]
    by (subst get_arcs.simps) (simp add: through_int_def add.assoc)
qed

text \<open>
  An object identifier as X.660 wants it, of arcs that fit the field \<open>long arcNum\<close>; the first two
  also fit it together. \<open>proper_oid\<close> is one whose arcs fit an \<open>int\<close>.
\<close>

definition legal_oid :: "ulong \<Rightarrow> ulong \<Rightarrow> ulong list \<Rightarrow> bool" where
  "legal_oid a b as \<longleftrightarrow> unat a \<le> 2 \<and> (unat a = 2 \<or> unat b < 40) \<and> 40 * unat a + unat b < 2 ^ 63 \<and>
     list_all (\<lambda>c. unat c < 2 ^ 63) as"

definition proper_oid :: "ulong \<Rightarrow> ulong \<Rightarrow> ulong list \<Rightarrow> bool" where
  "proper_oid a b as \<longleftrightarrow> unat a \<le> 2 \<and> (unat a = 2 \<or> unat b < 40) \<and> 40 * unat a + unat b < 2 ^ 31 \<and>
     list_all small_arc as"

definition oid_octets :: "ulong \<Rightarrow> ulong \<Rightarrow> ulong list \<Rightarrow> byte list" where
  "oid_octets a b as = arc_octets (40 * unat a + unat b) @ arcs_octets as"

lemma head_arc_legal:
  assumes "legal_oid a b as"
  shows "head_arc a b = Inr (of_nat (40 * unat a + unat b))"
proof -
  have "unat a < 2 ^ 63" "unat b < 2 ^ 63" using assms by (auto simp: legal_oid_def)
  then have "to_long a = int (unat a)" "to_long b = int (unat b)" by (simp_all add: to_long_small)
  moreover have "int (unat a) \<le> 2" "int (unat a) * 40 + int (unat b) < 9223372036854775808"
  proof -
    have "unat a \<le> 2" "40 * unat a + unat b < 9223372036854775808" using assms by (simp_all add: legal_oid_def)
    then show "int (unat a) \<le> 2" "int (unat a) * 40 + int (unat b) < 9223372036854775808" by linarith+
  qed
  moreover have "0 \<le> int (unat a)" "0 \<le> int (unat b)" by simp_all
  ultimately show ?thesis
    unfolding head_arc_def Let_def by (auto simp del: of_nat_unat simp: algebra_simps)
qed

lemma legal_head: "legal_oid a b as \<Longrightarrow> unat (of_nat (40 * unat a + unat b) :: ulong) = 40 * unat a + unat b"
  by (rule unat_of_nat_small) (simp add: legal_oid_def)

lemma EncodedOidLen_octets:
  "legal_oid a b as \<Longrightarrow> EncodedOidLen (oid_of (a # b # as)) = Inr (of_nat (length (oid_octets a b as)))"
  using length_arc_octets [of "of_nat (40 * unat a + unat b)"] legal_head [of a b as]
  by (simp add: EncodedOidLen_def head_arc_legal oid_arcs_len_octets oid_octets_def add.assoc)

lemma BuildEncodedOid_octets:
  assumes "legal_oid a b as" and "length (oid_octets a b as) \<le> length (octs r)"
  shows "BuildEncodedOid (oid_of (a # b # as)) r =
    Inr \<lparr>octetLen = of_nat (length (oid_octets a b as)), octs = mem_put (octs r) 0 (oid_octets a b as)\<rparr>"
proof -
  let ?h = "arc_octets (40 * unat a + unat b)"
  have "\<forall>c\<in>set as. 0 \<le> to_long c"
    using assms(1) by (auto simp: legal_oid_def list_all_iff to_long_small)
  from build_arcs_octets [OF this, of "length ?h" "mem_put (octs r) 0 ?h"]
  show ?thesis
    using assms(2) mem_put_mem_put [of 0 ?h "arcs_octets as" "octs r"]
    by (simp add: BuildEncodedOid_def head_arc_legal [OF assms(1)] arc_bytes_octets legal_head [OF assms(1)]
        blk_write_def oid_octets_def Let_def del: of_nat_add of_nat_mult)
qed

lemma sdiv_nonneg:
  assumes "0 \<le> (k :: int)" and "0 < l"
  shows "k sdiv l = k div l"
proof -
  have "sgn k * sgn l * (\<bar>k\<bar> div \<bar>l\<bar>) = k div l" using assms by (cases "k = 0") simp_all
  then show ?thesis by (simp only: signed_divide_int_def)
qed

text \<open>What \<open>UnbuildEncodedOid\<close> makes of the octets of an object identifier.\<close>

definition unbuilt_oid :: "ulong \<Rightarrow> ulong \<Rightarrow> ulong list \<Rightarrow> OID" where
  "unbuilt_oid a b as =
     (let h = sint (of_nat (40 * unat a + unat b) :: 32 word);
          f = (if h sdiv 40 > 2 then 2 else h sdiv 40)
      in OID_node (word_of_int f) (OID_node (word_of_int (h - f * 40))
           (if as = [] then OID_WILD else oid_of (map through_int as))))"

lemma UnbuildEncodedOid_octets:
  assumes "octs v = oid_octets a b as @ ys" and "oct_count v = length (oid_octets a b as)"
  shows "UnbuildEncodedOid v = Inr (unbuilt_oid a b as)"
proof -
  let ?k = "40 * unat a + unat b"
  let ?h = "arc_octets ?k"
  have g: "get_arc (octs v) (oct_count v) 0 0 = Inr (of_nat ?k, length ?h)"
    using get_arc_octets [of "[]" ?k "oct_count v" "arcs_octets as @ ys"] assms by (simp add: oid_octets_def)
  have r: "get_arcs (octs v) (oct_count v) (length ?h) OID_WILD =
      Inr (if as = [] then OID_WILD else oid_of (map through_int as))"
    using get_arcs_octets [of ?h as ys OID_WILD] assms by (simp add: oid_octets_def)
  show ?thesis
    unfolding UnbuildEncodedOid_def unbuilt_oid_def Let_def g sum.case prod.case r by simp
qed

abbreviation (input) oid_list :: "ulong \<Rightarrow> ulong \<Rightarrow> ulong list \<Rightarrow> OID" where
  "oid_list a b as \<equiv> OID_node a (OID_node b (if as = [] then OID_WILD else oid_of as))"

lemma unbuilt_proper:
  assumes "proper_oid a b as"
  shows "unbuilt_oid a b as = oid_list a b as"
proof -
  let ?k = "40 * unat a + unat b"
  have k: "?k < 2 ^ 31" "unat a \<le> 2" "unat a = 2 \<or> unat b < 40" using assms by (simp_all add: proper_oid_def)
  have s: "sint (of_nat ?k :: 32 word) = int ?k"
    using k(1) by (subst sint_small) (simp_all add: unsigned_of_nat take_bit_nat_eq_self del: of_nat_add of_nat_mult)
  have q: "(if int ?k sdiv 40 > 2 then 2 else int ?k sdiv 40) = int (unat a)"
  proof -
    have "int ?k sdiv 40 = int ?k div 40" by (rule sdiv_nonneg) (simp_all only: of_nat_0_le_iff zero_less_numeral)
    also have "\<dots> = int (?k div 40)" by (simp only: zdiv_int of_nat_numeral)
    finally have "int ?k sdiv 40 = int (?k div 40)" .
    moreover have "?k div 40 = unat a + unat b div 40" by simp
    ultimately show ?thesis using k(2,3) by (auto simp del: of_nat_unat)
  qed
  have "map through_int as = as"
    using assms by (intro through_int_small) (simp add: proper_oid_def list_all_iff)
  moreover have "int ?k - int (unat a) * 40 = int (unat b)" by simp
  ultimately show ?thesis unfolding unbuilt_oid_def Let_def s q by simp
qed

lemma unbuilt_oid_iff:
  assumes "legal_oid a b as"
  shows "unbuilt_oid a b as = oid_list a b as \<longleftrightarrow> proper_oid a b as"
proof
  let ?k = "40 * unat a + unat b"
  define h where "h = sint (of_nat ?k :: 32 word)"
  define f where "f = (if h sdiv 40 > 2 then 2 else h sdiv 40)"
  assume "unbuilt_oid a b as = oid_list a b as"
  then have eq: "word_of_int f = a" "word_of_int (h - f * 40) = b" "map through_int as = as"
    by (auto simp: unbuilt_oid_def h_def [symmetric] f_def [symmetric] Let_def split: if_splits
        simp del: of_nat_add of_nat_mult)
  have "list_all small_arc as"
    using eq(3) assms map_eq_conv [of through_int as id]
    by (simp add: legal_oid_def list_all_iff through_int_iff)
  moreover have "?k < 2 ^ 31"
  proof -
    have "word_of_int h = (word_of_int (f * 40) + word_of_int (h - f * 40) :: ulong)" by simp
    also have "\<dots> = of_nat ?k" using eq(1,2) by simp
    finally have "word_of_int h = (of_nat ?k :: ulong)" .
    then have "sint (word_of_int h :: ulong) = sint (of_nat ?k :: ulong)" by (simp only:)
    moreover have "sint (word_of_int h :: ulong) = h"
      by (simp add: h_def sint_scast_up del: of_nat_add of_nat_mult)
    moreover have "sint (of_nat ?k :: ulong) = int ?k"
      using assms by (subst sint_small)
        (simp_all add: legal_oid_def unsigned_of_nat take_bit_nat_eq_self del: of_nat_add of_nat_mult)
    moreover have "h < 2 ^ 31" using sint_lt [of "of_nat ?k :: 32 word"] by (simp add: h_def)
    ultimately have "int ?k < int (2 ^ 31)" by simp
    then show ?thesis by (simp only: of_nat_less_iff)
  qed
  ultimately show "proper_oid a b as" using assms by (simp add: proper_oid_def legal_oid_def)
qed (rule unbuilt_proper)

section \<open>Lists of relative arcs\<close>

primrec oid_length :: "OID \<Rightarrow> nat" where
  "oid_length OID_NULL = 0"
| "oid_length OID_WILD = 0"
| "oid_length (OID_node a r) = Suc (oid_length r)"

lemma oid_length_of [simp]: "oid_length (oid_of as) = length as"
  by (induction as) simp_all

lemma EncodedRelativeOidLen_octets:
  "EncodedRelativeOidLen (oid_of as) = Inr (of_nat (length (arcs_octets as)))"
  by (cases as) (simp_all add: EncodedRelativeOidLen_def oid_arcs_len_octets length_arc_octets add_ac)

lemma BuildEncodedRelativeOid_octets:
  assumes "list_all small_arc (a # b # as)" and "length (arcs_octets (a # b # as)) \<le> length (octs r)"
  shows "BuildEncodedRelativeOid (oid_of (a # b # as)) r =
    Inr \<lparr>octetLen = of_nat (length (arcs_octets (a # b # as))),
         octs = mem_put (octs r) 0 (arcs_octets (a # b # as))\<rparr>"
proof -
  have "\<forall>c\<in>set (a # b # as). 0 \<le> to_long c"
    using assms(1) by (auto simp: list_all_iff small_arc_nonneg)
  from build_arcs_octets [OF this, of 0 "octs r"] assms(2) show ?thesis
    by (simp add: BuildEncodedRelativeOid_def del: build_arcs.simps arcs_octets_simps(2))
qed

lemma BuildEncodedRelativeOid_single: "BuildEncodedRelativeOid (oid_of [a]) r = Inr r"
  by (simp add: BuildEncodedRelativeOid_def)

lemma arc_high_top: "c \<in> set (arc_high k) \<Longrightarrow> c AND 0x80 \<noteq> 0"
proof (induction k rule: arc_high.induct)
  case (1 k)
  have "(of_nat (128 + k mod 128) :: byte) AND 0x80 \<noteq> 0"
    unfolding top_byte using group_bytes(2) [of "k mod 128"] by (simp del: of_nat_add)
  with 1 show ?case by (subst (asm) (2) arc_high.simps) (auto split: if_splits simp del: of_nat_add)
qed

lemma get_arc_run:
  assumes "\<forall>c\<in>set hs. c AND 0x80 \<noteq> 0" and "l AND 0x80 = 0" and "length pre + length hs < n"
  shows "\<exists>x. get_arc (pre @ hs @ [l] @ ys) n (length pre) a = Inr (x, length pre + length hs + 1)"
  using assms
proof (induction hs arbitrary: pre a)
  case Nil
  then show ?case by (subst get_arc.simps) (simp add: mem_read_def)
next
  case (Cons h hs)
  from Cons.IH [of "pre @ [h]" "push_bit 7 a + ucast (h AND 0x7f)"] Cons.prems
  show ?case by (subst get_arc.simps) (simp add: mem_read_def)
qed

lemma UnbuildEncodedRelativeOid_octets:
  assumes "list_all small_arc (a # b # as)" and "octs v = arcs_octets (a # b # as) @ ys"
    and "oct_count v = length (arcs_octets (a # b # as))"
  shows "UnbuildEncodedRelativeOid v = Inr (oid_of (a # b # as)) \<longleftrightarrow> unat a < 128"
proof -
  let ?h = "arc_octets (unat a)" and ?t = "arcs_octets (b # as)"
  let ?n = "length ?h + length ?t"
  have v: "octs v = ?h @ ?t @ ys" "oct_count v = ?n" using assms(2,3) by simp_all
  have a: "small_arc a" "\<forall>c\<in>set (b # as). small_arc c" using assms(1) by (simp_all add: list_all_iff)
  have g: "get_arc (?h @ ?t @ ys) ?n 0 0 = Inr (ucast a, length ?h)"
    using get_arc_octets [of "[]" "unat a" ?n "?t @ ys"] by simp
  have t: "get_arcs (?h @ ?t @ ys) ?n (length ?h) z = Inr (oid_of (b # as))" for z
    using get_arcs_octets [of ?h "b # as" ys z] through_int_small [OF a(2)] by simp
  have u: "UnbuildEncodedRelativeOid v = map_sum id (OID_node a) (get_arcs (?h @ ?t @ ys) ?n 1 OID_WILD)"
    by (simp only: UnbuildEncodedRelativeOid_def Let_def v g sum.case prod.case small_arc_scast [OF a(1)])
  show ?thesis
  proof (cases "unat a < 128")
    case True
    then have "length ?h = 1" by (simp add: arc_octets_def)
    with t [of OID_WILD] u True show ?thesis by simp
  next
    case False
    then have "0 < unat a div 128" by simp
    then have "arc_high (unat a div 128) \<noteq> []" by (subst arc_high.simps) simp
    then obtain h hs where hs: "arc_high (unat a div 128) = h # hs" by (cases "arc_high (unat a div 128)") auto
    let ?l = "of_nat (unat a mod 128) :: byte"
    have h: "?h = [h] @ hs @ [?l]" by (simp add: arc_octets_def hs)
    have l: "?l AND 0x80 = 0" unfolding top_byte using group_bytes(1) [of "unat a mod 128"] by simp
    have top: "\<forall>c\<in>set hs. c AND 0x80 \<noteq> 0" using arc_high_top [of _ "unat a div 128"] hs by simp
    obtain x where "get_arc (?h @ ?t @ ys) ?n 1 0 = Inr (x, length ?h)"
      using get_arc_run [OF top l, of "[h]" ?n "?t @ ys" 0] by (auto simp: h)
    moreover have "1 < ?n" by (simp add: h)
    ultimately have "get_arcs (?h @ ?t @ ys) ?n 1 OID_WILD = Inr (OID_node (scast x) (oid_of (b # as)))"
      using t [of OID_NULL] by (subst get_arcs.simps) simp
    then have r: "UnbuildEncodedRelativeOid v = Inr (OID_node a (OID_node (scast x) (oid_of (b # as))))"
      using u by simp
    have "OID_node a (OID_node (scast x) (oid_of (b # as))) \<noteq> oid_of (a # b # as)"
      by (rule notI, drule arg_cong [of _ _ oid_length]) simp
    with r False show ?thesis by simp
  qed
qed

section \<open>On the wire\<close>

context gen_writer
begin

lemma BEncAsnOid_emits:
  assumes "octs_in_memory v"
  shows "emits W out werr room (BEncAsnOid g v)
    (of_nat (length (tlv UNIV_CLASS PRIM 6 (octs_val v)))) (tlv UNIV_CLASS PRIM 6 (octs_val v))"
  unfolding BEncAsnOid_def code_val.simps by (rule emits_tlv [OF BEncAsnOctsContent_emits [OF assms]]) simp

lemma BEncAsnRelativeOid_emits:
  assumes "octs_in_memory v"
  shows "emits W out werr room (BEncAsnRelativeOid g v)
    (of_nat (length (tlv UNIV_CLASS PRIM 13 (octs_val v)))) (tlv UNIV_CLASS PRIM 13 (octs_val v))"
  unfolding BEncAsnRelativeOid_def code_val.simps by (rule emits_tlv [OF BEncAsnOctsContent_emits [OF assms]]) simp

end

lemma relative_content: "BDecAsnRelativeOidContent = BDecAsnOidContent"
  by (intro ext) (simp add: BDecAsnRelativeOidContent_def BDecAsnOidContent_def)

context gen_reader
begin

lemma BDecAsnOidContent_refines: "refines I v (=) (BDecAsnOidContent g t n bd) (BDecAsnOidContent stream_ops t n bd)"
  unfolding BDecAsnOidContent_def
  by (intro refines_intros copy_refines refines_sim [OF readError_sim] refl)

lemma BDecAsnOid_refines: "refines I v (=) (BDecAsnOid g bd) (BDecAsnOid stream_ops bd)"
  unfolding BDecAsnOid_def
  by (intro refines_intros BDecAsnOidContent_refines refines_sim [OF BDecTag_sim] refines_sim [OF BDecLen_sim])

lemma BDecAsnRelativeOid_refines: "refines I v (=) (BDecAsnRelativeOid g bd) (BDecAsnRelativeOid stream_ops bd)"
  unfolding BDecAsnRelativeOid_def relative_content
  by (intro refines_intros BDecAsnOidContent_refines refines_sim [OF BDecTag_sim] refines_sim [OF BDecLen_sim])

end

lemma BDecAsnOidContent_prim:
  assumes "length xs < 2 ^ 31"
  shows "BDecAsnOidContent stream_ops t (of_nat (length xs)) bd (stream_of (xs @ ys)) =
    (Inr (\<lparr>octetLen = of_nat (length xs), octs = xs\<rparr>, bd + of_nat (length xs)), stream_of ys)"
proof -
  have "unat (of_nat (length xs) :: ulong) = length xs"
    using assms by (intro unat_of_nat_small) simp
  moreover have "of_nat (length xs) \<noteq> INDEFINITE_LEN"
    using assms by (intro of_nat_less_indef) simp
  moreover have "mem_put (replicate (length xs) 0) 0 xs = xs" by (simp add: mem_put_def)
  ultimately show ?thesis
    using assms by (simp add: BDecAsnOidContent_def prog_simps blk_write_def)
qed

lemma BDecAsnOid_tlv:
  assumes "length xs < 2 ^ 31"
  shows "BDecAsnOid stream_ops bd (stream_of (tlv UNIV_CLASS PRIM 6 xs @ ys)) =
      (Inr (\<lparr>octetLen = of_nat (length xs), octs = xs\<rparr>, bd + of_nat (length (tlv UNIV_CLASS PRIM 6 xs))), stream_of ys)"
    and "BDecAsnRelativeOid stream_ops bd (stream_of (tlv UNIV_CLASS PRIM 13 xs @ ys)) =
      (Inr (\<lparr>octetLen = of_nat (length xs), octs = xs\<rparr>, bd + of_nat (length (tlv UNIV_CLASS PRIM 13 xs))), stream_of ys)"
proof -
  have l: "length xs < 2 ^ 32" using assms by simp
  show "BDecAsnOid stream_ops bd (stream_of (tlv UNIV_CLASS PRIM 6 xs @ ys)) =
      (Inr (\<lparr>octetLen = of_nat (length xs), octs = xs\<rparr>, bd + of_nat (length (tlv UNIV_CLASS PRIM 6 xs))), stream_of ys)"
    unfolding BDecAsnOid_def code_val.simps using l
    by (subst read_header) (simp_all add: tlv_proper BDecAsnOidContent_prim [OF assms] add.assoc tlv_header_length)
  show "BDecAsnRelativeOid stream_ops bd (stream_of (tlv UNIV_CLASS PRIM 13 xs @ ys)) =
      (Inr (\<lparr>octetLen = of_nat (length xs), octs = xs\<rparr>, bd + of_nat (length (tlv UNIV_CLASS PRIM 13 xs))), stream_of ys)"
    unfolding BDecAsnRelativeOid_def relative_content code_val.simps using l
    by (subst read_header) (simp_all add: tlv_proper BDecAsnOidContent_prim [OF assms] add.assoc tlv_header_length)
qed

section \<open>Value notation\<close>

text \<open>\<open>fprintf\<close> with \<open>%u\<close>; what is printed is returned.\<close>

fun dec_string :: "nat \<Rightarrow> string" where
  "dec_string n = (if n < 10 then [char_of (48 + n)] else dec_string (n div 10) @ [char_of (48 + n mod 10)])"

declare dec_string.simps [simp del]

function print_arcs :: "byte list \<Rightarrow> nat \<Rightarrow> nat \<Rightarrow> stop + string" where
  "print_arcs blk n i =
     (if i < n then
        (case get_arc blk n i 0 of
           Inl e \<Rightarrow> Inl e
         | Inr (a, j) \<Rightarrow> map_sum id (\<lambda>s. '' '' @ dec_string (unat a) @ s) (print_arcs blk n j))
      else Inr [])"
  by pat_completeness auto
termination
  by (relation "measure (\<lambda>(blk, n, i). n - i)") (auto dest!: get_arc_mono)

declare print_arcs.simps [simp del]

text \<open>The first arc is cut to an \<open>unsigned short\<close> before it is compared with 2.\<close>

definition PrintAsnOid :: "AsnOcts \<Rightarrow> stop + string" where
  "PrintAsnOid v =
     (let n = oct_count v in
      case get_arc (octs v) n 0 0 of
        Inl e \<Rightarrow> Inl e
      | Inr (arcNum, i) \<Rightarrow>
          (let firstArcNum = ucast (ucast (arcNum div 40) :: 16 word) :: 32 word;
               firstArcNum = (if firstArcNum > 2 then 2 else firstArcNum)
           in map_sum id
                (\<lambda>s. ''{'' @ dec_string (unat firstArcNum) @ '' '' @ dec_string (unat (arcNum - firstArcNum * 40)) @ s @ ''}'')
                (print_arcs (octs v) n i)))"

definition PrintAsnRelativeOid :: "AsnOcts \<Rightarrow> stop + string" where
  "PrintAsnRelativeOid v = map_sum id (\<lambda>s. ''{'' @ s @ ''}'') (print_arcs (octs v) (oct_count v) 0)"

definition arcs_text :: "ulong list \<Rightarrow> string" where
  "arcs_text as = concat (map (\<lambda>a. '' '' @ dec_string (unat a)) as)"

lemma print_arcs_octets:
  assumes "\<forall>a\<in>set as. small_arc a"
  shows "print_arcs (pre @ arcs_octets as @ ys) (length pre + length (arcs_octets as)) (length pre) = Inr (arcs_text as)"
  using assms
proof (induction as arbitrary: pre)
  case Nil
  then show ?case by (subst print_arcs.simps) (simp add: arcs_text_def)
next
  case (Cons a as)
  have "get_arc (pre @ arc_octets (unat a) @ arcs_octets as @ ys)
      (length pre + length (arc_octets (unat a) @ arcs_octets as)) (length pre) 0 =
      Inr (of_nat (unat a), length pre + length (arc_octets (unat a)))"
    by (rule get_arc_octets) simp
  moreover have "print_arcs ((pre @ arc_octets (unat a)) @ arcs_octets as @ ys)
      (length (pre @ arc_octets (unat a)) + length (arcs_octets as)) (length (pre @ arc_octets (unat a))) =
      Inr (arcs_text as)"
    by (rule Cons.IH) (use Cons.prems in simp)
  moreover have "unat (ucast a :: 32 word) = unat a"
    using Cons.prems by (simp add: small_arc_def unsigned_ucast_eq take_bit_nat_eq_self)
  ultimately show ?case
    using arc_octets_pos [of "unat a"]
    by (subst print_arcs.simps) (simp add: arcs_text_def add.assoc)
qed

lemma ucast_short: "unat (w :: 32 word) < 2 ^ 16 \<Longrightarrow> ucast (ucast w :: 16 word) = w"
proof -
  assume "unat w < 2 ^ 16"
  then have "\<not> bit w n" if "16 \<le> n" for n using that by (rule not_bit_above)
  then show ?thesis by (intro bit_word_eqI) (auto simp: bit_simps, meson not_less)
qed

lemma PrintAsnOid_octets:
  assumes "proper_oid a b as" and "octs v = oid_octets a b as @ ys" and "oct_count v = length (oid_octets a b as)"
    and "40 * unat a + unat b < 40 * 65536"
  shows "PrintAsnOid v = Inr (''{'' @ dec_string (unat a) @ '' '' @ dec_string (unat b) @ arcs_text as @ ''}'')"
proof -
  let ?k = "40 * unat a + unat b"
  let ?h = "arc_octets ?k" and ?w = "of_nat ?k :: 32 word"
  have k: "unat a \<le> 2" "unat a = 2 \<or> unat b < 40" using assms(1) by (simp_all add: proper_oid_def)
  have g: "get_arc (octs v) (oct_count v) 0 0 = Inr (?w, length ?h)"
    using get_arc_octets [of "[]" ?k "oct_count v" "arcs_octets as @ ys"] assms(2,3) by (simp add: oid_octets_def)
  have u: "unat ?w = ?k"
    using assms(4) by (simp only: unsigned_of_nat) (simp add: take_bit_nat_eq_self)
  have "?k div 40 < 65536" using assms(4) by (intro less_mult_imp_div_less) simp
  moreover have e: "unat (?w div 40) = ?k div 40"
    by (subst unat_div) (simp add: u del: of_nat_add of_nat_mult)
  ultimately have "unat (?w div 40) < 2 ^ 16" by (simp only:) simp
  then have "ucast (ucast (?w div 40) :: 16 word) = ?w div 40" by (rule ucast_short)
  then have q: "unat (ucast (ucast (?w div 40) :: 16 word) :: 32 word) = ?k div 40" using e by simp
  have d: "?k div 40 = unat a + unat b div 40" by simp
  define f :: "32 word" where "f = (if ucast (ucast (?w div 40) :: 16 word) > (2 :: 32 word) then 2
      else ucast (ucast (?w div 40) :: 16 word))"
  have f: "unat f = unat a"
    using k d q by (auto simp: f_def word_less_nat_alt simp del: of_nat_add of_nat_mult)
  have s: "unat (?w - f * 40) = unat b"
  proof -
    have m: "unat (f * 40) = unat a * 40"
      using k(1) f by (subst unat_mult_lem [THEN iffD1]) simp_all
    have "f * 40 \<le> ?w" unfolding word_le_nat_alt m u by simp
    then have "unat (?w - f * 40) = unat ?w - unat (f * 40)" by (rule unat_sub)
    then show ?thesis unfolding m u by simp
  qed
  have r: "print_arcs (octs v) (oct_count v) (length ?h) = Inr (arcs_text as)"
    using print_arcs_octets [of as ?h ys] assms by (simp add: proper_oid_def list_all_iff oid_octets_def)
  show ?thesis
    unfolding PrintAsnOid_def Let_def g sum.case prod.case r f_def [symmetric] f s by simp
qed

end
