(* ===== verification/Asn_Strings.thy ===== *)
theory Asn_Strings
  imports Asn_Octs Asn_Prim
begin

text \<open>
  The restricted character strings (\<open>c-lib/src/asn-NumericString.c\<close>, \<open>asn-PrintableStr.c\<close>,
  \<open>asn-TeletexString.c\<close>, \<open>asn-IA5String.c\<close>, \<open>asn-VisibleString.c\<close>, \<open>asn-UniversalString.c\<close>,
  \<open>asn-BMPString.c\<close>): OCTET STRINGs under another tag whose octets are checked when they are
  written and when they have been read. An encoder that finds a fault calls
  \<open>GenBufSetWriteError\<close> and goes on; a decoder stops with -40.
\<close>

section \<open>The checks\<close>

text \<open>
  \<open>for (i = 0; i < octetLen; i++)\<close> with an \<open>unsigned int\<close> index: it wraps at \<open>2 ^ 32\<close> and
  the loop never ends, which is the \<open>NoFuel\<close> here.
\<close>

function chk_octs :: "(byte \<Rightarrow> bool) \<Rightarrow> byte list \<Rightarrow> nat \<Rightarrow> nat \<Rightarrow> stop + int" where
  "chk_octs ok blk n i =
     (if i < n then
        if 2 ^ 32 \<le> i then Inl NoFuel
        else
          (case mem_read blk i of
             Inl e \<Rightarrow> Inl e
           | Inr c \<Rightarrow> if ok c then chk_octs ok blk n (i + 1) else Inr (-1))
      else Inr 0)"
  by pat_completeness auto
termination
  by (relation "measure (\<lambda>(ok, blk, n, i). n - i)") auto

declare chk_octs.simps [simp del]

text \<open>A \<open>char\<close> is signed when it is compared.\<close>

definition numeric_char :: "byte \<Rightarrow> bool" where
  "numeric_char c \<longleftrightarrow> \<not> (c \<noteq> 0x20 \<and> (sint c < 0x30 \<or> sint c > 0x39))"

definition chkNumericString :: "AsnOcts \<Rightarrow> stop + int" where
  "chkNumericString checkBuf = chk_octs numeric_char (octs checkBuf) (unat (octetLen checkBuf)) 0"

definition printable_char :: "byte \<Rightarrow> bool" where
  "printable_char c \<longleftrightarrow>
     (let temp = sint c in
      if temp < 0x41 \<or> temp > 0x5A then
        if temp < 0x61 \<or> temp > 0x7A then
          if temp < 0x30 \<or> temp > 0x39 then
            temp \<in> {0x20, 0x27, 0x28, 0x29, 0x2B, 0x2C, 0x2D, 0x2E, 0x2F, 0x3A, 0x3D, 0x3F}
          else True
        else True
      else True)"

definition chkPrintableString :: "AsnOcts \<Rightarrow> stop + int" where
  "chkPrintableString checkBuf = chk_octs printable_char (octs checkBuf) (unat (octetLen checkBuf)) 0"

definition checkIA5String :: "AsnOcts \<Rightarrow> stop + int" where
  "checkIA5String v = chk_octs (\<lambda>c. \<not> uint c > 0x7F) (octs v) (unat (octetLen v)) 0"

text \<open>\<open>(unsigned int) temp > 128\<close>, after the extension of the sign.\<close>

definition chkVisibleString :: "AsnOcts \<Rightarrow> stop + int" where
  "chkVisibleString checkBuf =
     chk_octs (\<lambda>c. \<not> (scast c :: 32 word) > 128) (octs checkBuf) (unat (octetLen checkBuf)) 0"

section \<open>NumericString\<close>

definition BEncNumericStringContent :: "'b GenBuf \<Rightarrow> AsnOcts \<Rightarrow> ('b, AsnLen) prog" where
  "BEncNumericStringContent b v =
     bindP (liftP (chkNumericString v)) (\<lambda>r.
     if r < 0 then thenP (setWriteError b True) (BEncAsnOctsContent b v)
     else BEncAsnOctsContent b v)"

definition BEncNumericString :: "'b GenBuf \<Rightarrow> AsnOcts \<Rightarrow> ('b, AsnLen) prog" where
  "BEncNumericString b v =
     bindP (BEncNumericStringContent b v) (\<lambda>len.
     bindP (BEncDefLen b len) (\<lambda>l.
     bindP (BEncTag1 b UNIV_CLASS PRIM (code_val NUMERICSTRING_TAG_CODE)) (\<lambda>t.
     returnP (len + l + t))))"

definition BDecNumericStringContent ::
  "nat \<Rightarrow> 'b GenBuf \<Rightarrow> AsnTag \<Rightarrow> AsnLen \<Rightarrow> AsnLen \<Rightarrow> ('b, AsnOcts \<times> AsnLen) prog" where
  "BDecNumericStringContent fuel b tagId len bytesDecoded =
     bindP (BDecAsnOctsContent fuel b tagId len bytesDecoded) (\<lambda>(result, bytesDecoded).
     bindP (liftP (chkNumericString result)) (\<lambda>r.
     if r < 0 then longjmp (-40) else returnP (result, bytesDecoded)))"

definition BDecNumericString :: "nat \<Rightarrow> 'b GenBuf \<Rightarrow> AsnLen \<Rightarrow> ('b, AsnOcts \<times> AsnLen) prog" where
  "BDecNumericString fuel b bytesDecoded =
     bindP (BDecTag b bytesDecoded) (\<lambda>(tag, bytesDecoded).
     if tag \<noteq> MAKE_TAG_ID UNIV_CLASS PRIM (code_val NUMERICSTRING_TAG_CODE) \<and>
        tag \<noteq> MAKE_TAG_ID UNIV_CLASS CONS (code_val NUMERICSTRING_TAG_CODE)
     then longjmp (-100)
     else
       bindP (BDecLen b bytesDecoded) (\<lambda>(elmtLen1, bytesDecoded).
       BDecNumericStringContent fuel b tag elmtLen1 bytesDecoded))"

section \<open>PrintableString\<close>

definition BEncPrintableStringContent :: "'b GenBuf \<Rightarrow> AsnOcts \<Rightarrow> ('b, AsnLen) prog" where
  "BEncPrintableStringContent b v =
     bindP (liftP (chkPrintableString v)) (\<lambda>r.
     if r < 0 then thenP (setWriteError b True) (BEncAsnOctsContent b v)
     else BEncAsnOctsContent b v)"

definition BEncPrintableString :: "'b GenBuf \<Rightarrow> AsnOcts \<Rightarrow> ('b, AsnLen) prog" where
  "BEncPrintableString b v =
     bindP (BEncPrintableStringContent b v) (\<lambda>len.
     bindP (BEncDefLen b len) (\<lambda>l.
     bindP (BEncTag1 b UNIV_CLASS PRIM (code_val PRINTABLESTRING_TAG_CODE)) (\<lambda>t.
     returnP (len + l + t))))"

definition BDecPrintableStringContent ::
  "nat \<Rightarrow> 'b GenBuf \<Rightarrow> AsnTag \<Rightarrow> AsnLen \<Rightarrow> AsnLen \<Rightarrow> ('b, AsnOcts \<times> AsnLen) prog" where
  "BDecPrintableStringContent fuel b tagId len bytesDecoded =
     bindP (BDecAsnOctsContent fuel b tagId len bytesDecoded) (\<lambda>(result, bytesDecoded).
     bindP (liftP (chkPrintableString result)) (\<lambda>r.
     if r < 0 then longjmp (-40) else returnP (result, bytesDecoded)))"

definition BDecPrintableString :: "nat \<Rightarrow> 'b GenBuf \<Rightarrow> AsnLen \<Rightarrow> ('b, AsnOcts \<times> AsnLen) prog" where
  "BDecPrintableString fuel b bytesDecoded =
     bindP (BDecTag b bytesDecoded) (\<lambda>(tag, bytesDecoded).
     if tag \<noteq> MAKE_TAG_ID UNIV_CLASS PRIM (code_val PRINTABLESTRING_TAG_CODE) \<and>
        tag \<noteq> MAKE_TAG_ID UNIV_CLASS CONS (code_val PRINTABLESTRING_TAG_CODE)
     then longjmp (-101)
     else
       bindP (BDecLen b bytesDecoded) (\<lambda>(elmtLen1, bytesDecoded).
       BDecPrintableStringContent fuel b tag elmtLen1 bytesDecoded))"

section \<open>TeletexString\<close>

definition BEncTeletexStringContent :: "'b GenBuf \<Rightarrow> AsnOcts \<Rightarrow> ('b, AsnLen) prog" where
  "BEncTeletexStringContent b v =
     BEncAsnOctsContent b v"

definition BEncTeletexString :: "'b GenBuf \<Rightarrow> AsnOcts \<Rightarrow> ('b, AsnLen) prog" where
  "BEncTeletexString b v =
     bindP (BEncTeletexStringContent b v) (\<lambda>len.
     bindP (BEncDefLen b len) (\<lambda>l.
     bindP (BEncTag1 b UNIV_CLASS PRIM (code_val TELETEXSTRING_TAG_CODE)) (\<lambda>t.
     returnP (len + l + t))))"

definition BDecTeletexStringContent ::
  "nat \<Rightarrow> 'b GenBuf \<Rightarrow> AsnTag \<Rightarrow> AsnLen \<Rightarrow> AsnLen \<Rightarrow> ('b, AsnOcts \<times> AsnLen) prog" where
  "BDecTeletexStringContent fuel b tagId len bytesDecoded =
     BDecAsnOctsContent fuel b tagId len bytesDecoded"

definition BDecTeletexString :: "nat \<Rightarrow> 'b GenBuf \<Rightarrow> AsnLen \<Rightarrow> ('b, AsnOcts \<times> AsnLen) prog" where
  "BDecTeletexString fuel b bytesDecoded =
     bindP (BDecTag b bytesDecoded) (\<lambda>(tag, bytesDecoded).
     if tag \<noteq> MAKE_TAG_ID UNIV_CLASS PRIM (code_val TELETEXSTRING_TAG_CODE) \<and>
        tag \<noteq> MAKE_TAG_ID UNIV_CLASS CONS (code_val TELETEXSTRING_TAG_CODE)
     then longjmp (-102)
     else
       bindP (BDecLen b bytesDecoded) (\<lambda>(elmtLen1, bytesDecoded).
       BDecTeletexStringContent fuel b tag elmtLen1 bytesDecoded))"

section \<open>IA5String\<close>

definition BEncIA5StringContent :: "'b GenBuf \<Rightarrow> AsnOcts \<Rightarrow> ('b, AsnLen) prog" where
  "BEncIA5StringContent b v =
     bindP (liftP (checkIA5String v)) (\<lambda>r.
     if r \<noteq> 0 then thenP (setWriteError b True) (BEncAsnOctsContent b v)
     else BEncAsnOctsContent b v)"

definition BEncIA5String :: "'b GenBuf \<Rightarrow> AsnOcts \<Rightarrow> ('b, AsnLen) prog" where
  "BEncIA5String b v =
     bindP (BEncIA5StringContent b v) (\<lambda>len.
     bindP (BEncDefLen b len) (\<lambda>l.
     bindP (BEncTag1 b UNIV_CLASS PRIM (code_val IA5STRING_TAG_CODE)) (\<lambda>t.
     returnP (len + l + t))))"

definition BDecIA5StringContent ::
  "nat \<Rightarrow> 'b GenBuf \<Rightarrow> AsnTag \<Rightarrow> AsnLen \<Rightarrow> AsnLen \<Rightarrow> ('b, AsnOcts \<times> AsnLen) prog" where
  "BDecIA5StringContent fuel b tagId len bytesDecoded =
     bindP (BDecAsnOctsContent fuel b tagId len bytesDecoded) (\<lambda>(result, bytesDecoded).
     bindP (liftP (checkIA5String result)) (\<lambda>r.
     if r \<noteq> 0 then longjmp (-40) else returnP (result, bytesDecoded)))"

definition BDecIA5String :: "nat \<Rightarrow> 'b GenBuf \<Rightarrow> AsnLen \<Rightarrow> ('b, AsnOcts \<times> AsnLen) prog" where
  "BDecIA5String fuel b bytesDecoded =
     bindP (BDecTag b bytesDecoded) (\<lambda>(tag, bytesDecoded).
     if tag \<noteq> MAKE_TAG_ID UNIV_CLASS PRIM (code_val IA5STRING_TAG_CODE) \<and>
        tag \<noteq> MAKE_TAG_ID UNIV_CLASS CONS (code_val IA5STRING_TAG_CODE)
     then longjmp (-105)
     else
       bindP (BDecLen b bytesDecoded) (\<lambda>(elmtLen1, bytesDecoded).
       BDecIA5StringContent fuel b tag elmtLen1 bytesDecoded))"

section \<open>VisibleString\<close>

definition BEncVisibleStringContent :: "'b GenBuf \<Rightarrow> AsnOcts \<Rightarrow> ('b, AsnLen) prog" where
  "BEncVisibleStringContent b v =
     bindP (liftP (chkVisibleString v)) (\<lambda>r.
     if r < 0 then thenP (setWriteError b True) (BEncAsnOctsContent b v)
     else BEncAsnOctsContent b v)"

definition BEncVisibleString :: "'b GenBuf \<Rightarrow> AsnOcts \<Rightarrow> ('b, AsnLen) prog" where
  "BEncVisibleString b v =
     bindP (BEncVisibleStringContent b v) (\<lambda>len.
     bindP (BEncDefLen b len) (\<lambda>l.
     bindP (BEncTag1 b UNIV_CLASS PRIM (code_val VISIBLESTRING_TAG_CODE)) (\<lambda>t.
     returnP (len + l + t))))"

definition BDecVisibleStringContent ::
  "nat \<Rightarrow> 'b GenBuf \<Rightarrow> AsnTag \<Rightarrow> AsnLen \<Rightarrow> AsnLen \<Rightarrow> ('b, AsnOcts \<times> AsnLen) prog" where
  "BDecVisibleStringContent fuel b tagId len bytesDecoded =
     bindP (BDecAsnOctsContent fuel b tagId len bytesDecoded) (\<lambda>(result, bytesDecoded).
     bindP (liftP (chkVisibleString result)) (\<lambda>r.
     if r < 0 then longjmp (-40) else returnP (result, bytesDecoded)))"

definition BDecVisibleString :: "nat \<Rightarrow> 'b GenBuf \<Rightarrow> AsnLen \<Rightarrow> ('b, AsnOcts \<times> AsnLen) prog" where
  "BDecVisibleString fuel b bytesDecoded =
     bindP (BDecTag b bytesDecoded) (\<lambda>(tag, bytesDecoded).
     if tag \<noteq> MAKE_TAG_ID UNIV_CLASS PRIM (code_val VISIBLESTRING_TAG_CODE) \<and>
        tag \<noteq> MAKE_TAG_ID UNIV_CLASS CONS (code_val VISIBLESTRING_TAG_CODE)
     then longjmp (-101)
     else
       bindP (BDecLen b bytesDecoded) (\<lambda>(elmtLen1, bytesDecoded).
       BDecVisibleStringContent fuel b tag elmtLen1 bytesDecoded))"

section \<open>UniversalString\<close>

definition BEncUniversalStringContent :: "'b GenBuf \<Rightarrow> AsnOcts \<Rightarrow> ('b, AsnLen) prog" where
  "BEncUniversalStringContent b v =
     (if octetLen v mod 4 \<noteq> 0 then thenP (setWriteError b True) (BEncAsnOctsContent b v)
      else BEncAsnOctsContent b v)"

definition BEncUniversalString :: "'b GenBuf \<Rightarrow> AsnOcts \<Rightarrow> ('b, AsnLen) prog" where
  "BEncUniversalString b v =
     bindP (BEncUniversalStringContent b v) (\<lambda>len.
     bindP (BEncDefLen b len) (\<lambda>l.
     bindP (BEncTag1 b UNIV_CLASS PRIM (code_val UNIVERSALSTRING_TAG_CODE)) (\<lambda>t.
     returnP (len + l + t))))"

definition BDecUniversalStringContent ::
  "nat \<Rightarrow> 'b GenBuf \<Rightarrow> AsnTag \<Rightarrow> AsnLen \<Rightarrow> AsnLen \<Rightarrow> ('b, AsnOcts \<times> AsnLen) prog" where
  "BDecUniversalStringContent fuel b tagId len bytesDecoded =
     bindP (BDecAsnOctsContent fuel b tagId len bytesDecoded) (\<lambda>(result, bytesDecoded).
     (if octetLen result mod 4 \<noteq> 0 then longjmp (-40) else returnP (result, bytesDecoded)))"

definition BDecUniversalString :: "nat \<Rightarrow> 'b GenBuf \<Rightarrow> AsnLen \<Rightarrow> ('b, AsnOcts \<times> AsnLen) prog" where
  "BDecUniversalString fuel b bytesDecoded =
     bindP (BDecTag b bytesDecoded) (\<lambda>(tag, bytesDecoded).
     if tag \<noteq> MAKE_TAG_ID UNIV_CLASS PRIM (code_val UNIVERSALSTRING_TAG_CODE) \<and>
        tag \<noteq> MAKE_TAG_ID UNIV_CLASS CONS (code_val UNIVERSALSTRING_TAG_CODE)
     then longjmp (-112)
     else
       bindP (BDecLen b bytesDecoded) (\<lambda>(elmtLen1, bytesDecoded).
       BDecUniversalStringContent fuel b tag elmtLen1 bytesDecoded))"

section \<open>BMPString\<close>

definition BEncBMPStringContent :: "'b GenBuf \<Rightarrow> AsnOcts \<Rightarrow> ('b, AsnLen) prog" where
  "BEncBMPStringContent b v =
     (if octetLen v mod 2 \<noteq> 0 then thenP (setWriteError b True) (BEncAsnOctsContent b v)
      else BEncAsnOctsContent b v)"

definition BEncBMPString :: "'b GenBuf \<Rightarrow> AsnOcts \<Rightarrow> ('b, AsnLen) prog" where
  "BEncBMPString b v =
     bindP (BEncBMPStringContent b v) (\<lambda>len.
     bindP (BEncDefLen b len) (\<lambda>l.
     bindP (BEncTag1 b UNIV_CLASS PRIM (code_val BMPSTRING_TAG_CODE)) (\<lambda>t.
     returnP (len + l + t))))"

definition BDecBMPStringContent ::
  "nat \<Rightarrow> 'b GenBuf \<Rightarrow> AsnTag \<Rightarrow> AsnLen \<Rightarrow> AsnLen \<Rightarrow> ('b, AsnOcts \<times> AsnLen) prog" where
  "BDecBMPStringContent fuel b tagId len bytesDecoded =
     bindP (BDecAsnOctsContent fuel b tagId len bytesDecoded) (\<lambda>(result, bytesDecoded).
     (if octetLen result mod 2 \<noteq> 0 then longjmp (-40) else returnP (result, bytesDecoded)))"

definition BDecBMPString :: "nat \<Rightarrow> 'b GenBuf \<Rightarrow> AsnLen \<Rightarrow> ('b, AsnOcts \<times> AsnLen) prog" where
  "BDecBMPString fuel b bytesDecoded =
     bindP (BDecTag b bytesDecoded) (\<lambda>(tag, bytesDecoded).
     if tag \<noteq> MAKE_TAG_ID UNIV_CLASS PRIM (code_val BMPSTRING_TAG_CODE) \<and>
        tag \<noteq> MAKE_TAG_ID UNIV_CLASS CONS (code_val BMPSTRING_TAG_CODE)
     then longjmp (-113)
     else
       bindP (BDecLen b bytesDecoded) (\<lambda>(elmtLen1, bytesDecoded).
       BDecBMPStringContent fuel b tag elmtLen1 bytesDecoded))"

section \<open>Conversion to wide characters\<close>

text \<open>
  \<open>wchar_t\<close> is a signed \<open>int\<close> here. An octet is a signed \<open>char\<close>, extended before it is
  shifted, so an octet of 80 or more sets all the bits above it (what the shift of a negative
  \<open>int\<close> gives with the compilers in use). Result: the return value and the array left in
  \<open>*outStr\<close>, whose last element stays 0; \<open>calloc\<close> is assumed to succeed. The indices
  \<open>i\<close> and \<open>j\<close> are \<open>unsigned int\<close>: \<open>j\<close> wraps, and with \<open>2 ^ 32\<close> characters or more
  the loop on \<open>i\<close> never ends, the \<open>NoFuel\<close> here.
\<close>

definition signed_char :: "byte \<Rightarrow> 32 word" where
  "signed_char c = scast c"

fun universal_wchars :: "byte list \<Rightarrow> nat \<Rightarrow> nat \<Rightarrow> stop + 32 word list" where
  "universal_wchars blk 0 j = Inr [0]"
| "universal_wchars blk (Suc n) j =
     (case mem_slice blk j 4 of
        Inl e \<Rightarrow> Inl e
      | Inr bs \<Rightarrow>
          map_sum id (Cons ((push_bit 24 (signed_char (bs ! 0)) OR push_bit 16 (signed_char (bs ! 1))) OR
              (push_bit 8 (signed_char (bs ! 2)) OR signed_char (bs ! 3))))
            (universal_wchars blk n ((j + 4) mod 2 ^ 32)))"

definition CvtUniversalString2wchar :: "AsnOcts \<Rightarrow> stop + int \<times> 32 word list" where
  "CvtUniversalString2wchar inOcts =
     (if octetLen inOcts mod 4 \<noteq> 0 then Inr (-2, [])
      else if 2 ^ 32 \<le> unat (octetLen inOcts div 4) then Inl NoFuel
      else map_sum id (Pair 0) (universal_wchars (octs inOcts) (unat (octetLen inOcts div 4)) 0))"

fun bmp_wchars :: "byte list \<Rightarrow> nat \<Rightarrow> nat \<Rightarrow> stop + 32 word list" where
  "bmp_wchars blk 0 j = Inr [0]"
| "bmp_wchars blk (Suc n) j =
     (case mem_slice blk j 2 of
        Inl e \<Rightarrow> Inl e
      | Inr bs \<Rightarrow>
          map_sum id (Cons (push_bit 8 (signed_char (bs ! 0)) OR signed_char (bs ! 1)))
            (bmp_wchars blk n ((j + 2) mod 2 ^ 32)))"

definition CvtBMPString2wchar :: "AsnOcts \<Rightarrow> stop + int \<times> 32 word list" where
  "CvtBMPString2wchar inOcts =
     (if octetLen inOcts mod 2 \<noteq> 0 then Inr (-2, [])
      else if 2 ^ 32 \<le> unat (octetLen inOcts div 2) then Inl NoFuel
      else map_sum id (Pair 0) (bmp_wchars (octs inOcts) (unat (octetLen inOcts div 2)) 0))"

section \<open>The common shape\<close>

text \<open>
  Every type above is an instance of an encoder and a decoder of an octet string with a check of the
  value, a tag code and the code of the jump at a wrong tag.
\<close>

definition enc_checked :: "(AsnOcts \<Rightarrow> stop + bool) \<Rightarrow> 32 word \<Rightarrow> 'b GenBuf \<Rightarrow> AsnOcts \<Rightarrow> ('b, AsnLen) prog" where
  "enc_checked bad cd b v =
     bindP (bindP (liftP (bad v)) (\<lambda>x.
       if x then thenP (setWriteError b True) (BEncAsnOctsContent b v) else BEncAsnOctsContent b v)) (\<lambda>len.
     bindP (BEncDefLen b len) (\<lambda>l.
     bindP (BEncTag1 b UNIV_CLASS PRIM cd) (\<lambda>t.
     returnP (len + l + t))))"

definition dec_checked ::
  "(AsnOcts \<Rightarrow> stop + bool) \<Rightarrow> 32 word \<Rightarrow> int \<Rightarrow> nat \<Rightarrow> 'b GenBuf \<Rightarrow> AsnLen \<Rightarrow> ('b, AsnOcts \<times> AsnLen) prog" where
  "dec_checked bad cd err fuel b bytesDecoded =
     bindP (BDecTag b bytesDecoded) (\<lambda>(tag, bytesDecoded).
     if tag \<noteq> MAKE_TAG_ID UNIV_CLASS PRIM cd \<and> tag \<noteq> MAKE_TAG_ID UNIV_CLASS CONS cd then longjmp err
     else
       bindP (BDecLen b bytesDecoded) (\<lambda>(elmtLen1, bytesDecoded).
       bindP (BDecAsnOctsContent fuel b tag elmtLen1 bytesDecoded) (\<lambda>(result, bytesDecoded).
       bindP (liftP (bad result)) (\<lambda>x.
       if x then longjmp (-40) else returnP (result, bytesDecoded)))))"

lemma bindP_lift_map: "bindP (liftP (map_sum id f r)) k = bindP (liftP r) (\<lambda>x. k (f x))"
  by (cases r) simp_all

lemma bindP_assoc_pair: "bindP (bindP m (\<lambda>(x, y). f x y)) k = bindP m (\<lambda>(x, y). bindP (f x y) k)"
  by (rule ext) (auto simp: bindP_def split: prod.split sum.split)

lemma bindP_return: "bindP m (\<lambda>(x, y). returnP (x, y)) = m"
  by (rule ext) (auto simp: bindP_def returnP_def split: prod.split sum.split)

abbreviation odd_chars :: "ulong \<Rightarrow> AsnOcts \<Rightarrow> stop + bool" where
  "odd_chars n v \<equiv> Inr (octetLen v mod n \<noteq> 0)"

abbreviation negative :: "stop + int \<Rightarrow> stop + bool" where
  "negative r \<equiv> map_sum id (\<lambda>i. i < 0) r"

lemma enc_checked_types:
  "BEncNumericString = enc_checked (\<lambda>v. negative (chkNumericString v)) 18"
  "BEncPrintableString = enc_checked (\<lambda>v. negative (chkPrintableString v)) 19"
  "BEncTeletexString = enc_checked (\<lambda>v. Inr False) 20"
  "BEncIA5String = enc_checked (\<lambda>v. map_sum id (\<lambda>r. r \<noteq> 0) (checkIA5String v)) 22"
  "BEncVisibleString = enc_checked (\<lambda>v. negative (chkVisibleString v)) 26"
  "BEncUniversalString = enc_checked (odd_chars 4) 28"
  "BEncBMPString = enc_checked (odd_chars 2) 30"
  by (intro ext; simp add: enc_checked_def bindP_lift_map BEncNumericString_def BEncNumericStringContent_def
      BEncPrintableString_def BEncPrintableStringContent_def BEncTeletexString_def BEncTeletexStringContent_def
      BEncIA5String_def BEncIA5StringContent_def BEncVisibleString_def BEncVisibleStringContent_def
      BEncUniversalString_def BEncUniversalStringContent_def BEncBMPString_def BEncBMPStringContent_def)+

lemma dec_checked_types:
  "BDecNumericString = dec_checked (\<lambda>v. negative (chkNumericString v)) 18 (-100)"
  "BDecPrintableString = dec_checked (\<lambda>v. negative (chkPrintableString v)) 19 (-101)"
  "BDecTeletexString = dec_checked (\<lambda>v. Inr False) 20 (-102)"
  "BDecIA5String = dec_checked (\<lambda>v. map_sum id (\<lambda>r. r \<noteq> 0) (checkIA5String v)) 22 (-105)"
  "BDecVisibleString = dec_checked (\<lambda>v. negative (chkVisibleString v)) 26 (-101)"
  "BDecUniversalString = dec_checked (odd_chars 4) 28 (-112)"
  "BDecBMPString = dec_checked (odd_chars 2) 30 (-113)"
  unfolding fun_eq_iff dec_checked_def bindP_lift_map bindP_lift if_False bindP_return code_val.simps BDecNumericString_def BDecNumericStringContent_def
      BDecPrintableString_def BDecPrintableStringContent_def BDecTeletexString_def BDecTeletexStringContent_def
      BDecIA5String_def BDecIA5StringContent_def BDecVisibleString_def BDecVisibleStringContent_def
      BDecUniversalString_def BDecUniversalStringContent_def BDecBMPString_def BDecBMPStringContent_def
  by (intro allI refl)+

context gen_reader
begin

lemma dec_checked_refines: "refines I v (=) (dec_checked bad cd err k g bd) (dec_checked bad cd err k stream_ops bd)"
  unfolding dec_checked_def
  by (intro refines_intros BDecAsnOctsContent_refines refines_sim [OF BDecTag_sim] refines_sim [OF BDecLen_sim] refl)

end

context gen_writer
begin

lemma enc_checked_emits:
  assumes "octs_in_memory v" and "bad v = Inr False" and "cd < 31"
  shows "emits W out werr room (enc_checked bad cd g v)
    (of_nat (length (tlv UNIV_CLASS PRIM cd (octs_val v)))) (tlv UNIV_CLASS PRIM cd (octs_val v))"
  unfolding enc_checked_def assms(2) bindP_lift if_False
  by (rule emits_tlv [OF BEncAsnOctsContent_emits [OF assms(1)] assms(3)])

end

text \<open>The encodings of such a string: the tag of the outermost element is replaced.\<close>

definition string_ber :: "32 word \<Rightarrow> ostring \<Rightarrow> byte list" where
  "string_ber cd t = tag_octets UNIV_CLASS (if is_cons t then CONS else PRIM) cd @ tl (ber_octets t)"

lemma universal_form:
  assumes "cd < 31"
  shows "TAG_IS_CONS (MAKE_TAG_ID UNIV_CLASS CONS cd)" and "\<not> TAG_IS_CONS (MAKE_TAG_ID UNIV_CLASS PRIM cd)"
proof -
  have b: "\<not> bit cd 5" using assms not_bit_above [of cd 5 5] by (simp add: word_less_nat_alt)
  have t: "TAG_IS_CONS t \<longleftrightarrow> bit t 29" for t
    using and_exp_eq_0_iff_not_bit [of t 29] by (simp add: TAG_IS_CONS_def)
  show "TAG_IS_CONS (MAKE_TAG_ID UNIV_CLASS CONS cd)" "\<not> TAG_IS_CONS (MAKE_TAG_ID UNIV_CLASS PRIM cd)"
    using assms b by (simp_all add: t MAKE_TAG_ID_def MAKE_TAG_ID_CODE_def MAKE_TAG_ID_CODE1_def bit_simps)
qed

lemma length_string_ber:
  assumes "cd < 31"
  shows "length (string_ber cd t) = length (ber_octets t)"
proof -
  have "length (ber_octets t) = Suc (length (tl (ber_octets t)))" by (subst ber_octets_lead) simp
  then show ?thesis using assms by (simp add: string_ber_def tag_octets_def)
qed

lemma dec_checked_ber:
  assumes "cd < 31" and "length (string_ber cd t) < 2 ^ 31 - 1" and "length (string_ber cd t) \<le> k"
    and "ber_lengths t"
    and "bad \<lparr>octetLen = of_nat (length (ostring_octets t)), octs = ostring_octets t @ [0]\<rparr> = Inr x"
  shows "dec_checked bad cd err k stream_ops bd (stream_of (string_ber cd t @ ys)) =
    (if x then Inl (LongJmp (-40))
     else Inr (\<lparr>octetLen = of_nat (length (ostring_octets t)), octs = ostring_octets t @ [0]\<rparr>,
       bd + of_nat (length (string_ber cd t))), stream_of ys)"
proof -
  define fm where "fm = (if is_cons t then CONS else PRIM)"
  define z where "z = tl (ber_octets t)"
  let ?tag = "MAKE_TAG_ID UNIV_CLASS fm cd"
  have form: "TAG_IS_CONS ?tag = is_cons t" using universal_form [OF assms(1)] by (simp add: fm_def)
  have fm: "fm = PRIM \<or> fm = CONS" by (simp add: fm_def)
  have "unat cd < 2 ^ 21" using assms(1) by (simp add: word_less_nat_alt)
  from BDecTag_tag_octets [OF _ _ this, of UNIV_CLASS fm bd "z @ ys"]
  have tag: "BDecTag stream_ops bd (stream_of (string_ber cd t @ ys)) = (Inr (?tag, bd + 1), stream_of (z @ ys))"
    using assms(1) fm
    by (auto simp: string_ber_def proper_class_def proper_form_def tag_octets_def fm_def z_def)
  have "\<not> (?tag \<noteq> MAKE_TAG_ID UNIV_CLASS PRIM cd \<and> ?tag \<noteq> MAKE_TAG_ID UNIV_CLASS CONS cd)"
    using fm by auto
  then have "dec_checked bad cd err k stream_ops bd (stream_of (string_ber cd t @ ys)) =
      bindP (bindP (BDecLen stream_ops (bd + 1)) (\<lambda>(n, bd). BDecAsnOctsContent k stream_ops ?tag n bd))
        (\<lambda>(result, bd). bindP (liftP (bad result)) (\<lambda>x. if x then longjmp (-40) else returnP (result, bd)))
        (stream_of (z @ ys))"
    unfolding bindP_assoc_pair dec_checked_def
    by (subst bindP_Inr [where m = "BDecTag stream_ops bd", OF tag]) (simp only: prod.case if_False)
  also have "\<dots> = (if x then Inl (LongJmp (-40))
     else Inr (\<lparr>octetLen = of_nat (length (ostring_octets t)), octs = ostring_octets t @ [0]\<rparr>,
       bd + 1 + of_nat (length z)), stream_of ys)"
    using assms BDecAsnOctsContent_ber [OF _ _ form assms(4), of k "bd + 1" ys, folded z_def]
    by (subst bindP_run) (simp add: length_string_ber prog_simps del: bindP_run)
  finally show ?thesis using assms(1) by (simp add: string_ber_def tag_octets_def add.assoc z_def)
qed

lemma string_ber_prim:
  "cd < 31 \<Longrightarrow> length xs < 2 ^ 32 \<Longrightarrow> string_ber cd (OPrim (own_form (length xs)) xs) = tlv UNIV_CLASS PRIM cd xs"
  by (simp add: string_ber_def tlv_def form_octets_own)

section \<open>What the checks accept\<close>

lemma chk_octs_all:
  assumes "n \<le> length blk" and "n < 2 ^ 32" and "i \<le> n"
  shows "chk_octs ok blk n i = Inr (if list_all ok (take (n - i) (drop i blk)) then 0 else -1)"
  using assms(3)
proof (induction "n - i" arbitrary: i)
  case 0
  then show ?case by (subst chk_octs.simps) simp
next
  case (Suc m)
  then have i: "i < n" by simp
  then have "drop i blk = blk ! i # drop (Suc i) blk" "n - i = Suc (n - Suc i)"
    using assms(1) by (simp_all add: Cons_nth_drop_Suc)
  then have "list_all ok (take (n - i) (drop i blk)) \<longleftrightarrow> ok (blk ! i) \<and> list_all ok (take (n - Suc i) (drop (Suc i) blk))"
    by simp
  with Suc i assms show ?case by (subst chk_octs.simps) (auto simp: mem_read_def)
qed

lemma chk_octs_val:
  assumes "octs_in_memory v"
  shows "chk_octs ok (octs v) (unat (octetLen v)) 0 = Inr (if list_all ok (octs_val v) then 0 else -1)"
proof -
  have "unat (octetLen v) \<le> length (octs v)" "unat (octetLen v) < 2 ^ 32"
    using assms by (simp_all add: octs_in_memory_def)
  then show ?thesis using chk_octs_all [of "unat (octetLen v)" "octs v" 0 ok] by (simp add: octs_val_def)
qed

text \<open>The alphabets: octets of NumericString, of PrintableString and of the seven-bit strings.\<close>

definition numeric_alphabet :: "nat set" where
  "numeric_alphabet = {0x20} \<union> {0x30..0x39}"

definition printable_alphabet :: "nat set" where
  "printable_alphabet = {0x41..0x5A} \<union> {0x61..0x7A} \<union> {0x30..0x39} \<union>
     {0x20, 0x27, 0x28, 0x29} \<union> {0x2B..0x2F} \<union> {0x3A, 0x3D, 0x3F}"

definition over :: "nat set \<Rightarrow> byte list \<Rightarrow> bool" where
  "over A xs \<longleftrightarrow> (\<forall>c\<in>set xs. unat c \<in> A)"

lemma over_list_all: "(\<And>c. P c \<longleftrightarrow> unat c \<in> A) \<Longrightarrow> list_all P xs \<longleftrightarrow> over A xs"
  by (simp add: over_def list_all_iff)

text \<open>A \<open>char\<close> is compared as a number below 128, or as a negative one.\<close>

lemma char_cases:
  obtains n where "unat (c :: byte) = n" and "n < 128" and "sint c = int n"
  | n where "unat c = n" and "128 \<le> n" and "n < 256" and "sint c = int n - 256"
  using sint_char [of c] unat_byte_less [of c] by (auto split: if_splits)

lemma char_test:
  assumes "\<And>n. n < 128 \<Longrightarrow> P (int n) \<longleftrightarrow> n \<in> A" and "A \<subseteq> {..<128}"
    and "\<And>n. 128 \<le> n \<Longrightarrow> n < 256 \<Longrightarrow> \<not> P (int n - 256)"
  shows "P (sint (c :: byte)) \<longleftrightarrow> unat c \<in> A"
proof (cases c rule: char_cases)
  case (1 n)
  then show ?thesis using assms(1) by (simp only:)
next
  case (2 n)
  then have "unat c \<notin> A" using assms(2) by auto
  with 2 show ?thesis using assms(3) by (simp only: simp_thms)
qed

lemma numeric_char_alphabet: "numeric_char c \<longleftrightarrow> unat c \<in> numeric_alphabet"
proof -
  have "c = 0x20 \<longleftrightarrow> sint c = 0x20" using signed_word_eqI [of c "0x20"] by auto
  then have "numeric_char c \<longleftrightarrow> (\<lambda>i. \<not> (i \<noteq> 0x20 \<and> (i < 0x30 \<or> i > 0x39))) (sint c)"
    by (simp only: numeric_char_def)
  also have "\<dots> \<longleftrightarrow> unat c \<in> numeric_alphabet"
    by (rule char_test) (auto simp: numeric_alphabet_def)
  finally show ?thesis .
qed

lemma printable_char_alphabet: "printable_char c \<longleftrightarrow> unat c \<in> printable_alphabet"
  unfolding printable_char_def Let_def
  by (rule char_test) (auto simp: printable_alphabet_def)

lemma ia5_char_alphabet: "\<not> uint (c :: byte) > 0x7F \<longleftrightarrow> unat c \<in> {..<0x80}"
proof -
  obtain n where "unat c = n" and "uint c = int n" using of_nat_unat [of c, where 'a = int] by metis
  then show ?thesis by (simp only: lessThan_iff) linarith
qed

lemma visible_char_alphabet: "\<not> (scast (c :: byte) :: 32 word) > 128 \<longleftrightarrow> unat c \<in> {..<0x80}"
proof -
  have u: "uint (scast c :: 32 word) = sint c mod 2 ^ 32"
    by (simp only: scast_eq unsigned_of_int take_bit_eq_mod) simp
  have "\<not> (scast c :: 32 word) > 128 \<longleftrightarrow> \<not> sint c mod 2 ^ 32 > 128"
    unfolding word_less_def u by simp
  also have "\<dots> \<longleftrightarrow> unat c \<in> {..<0x80}"
  proof (rule char_test)
    fix n :: nat assume "128 \<le> n" "n < 256"
    moreover have "(int n - 256) mod 2 ^ 32 = (int n - 256 + 2 ^ 32) mod 2 ^ 32"
      by (rule mod_add_self2 [symmetric])
    moreover have "(int n - 256 + 2 ^ 32) mod 2 ^ 32 = int n - 256 + 2 ^ 32" if "n < 256"
      using that by (intro mod_pos_pos_trivial) simp_all
    ultimately show "\<not> \<not> 128 < (int n - 256) mod 2 ^ 32" by simp
  qed auto
  finally show ?thesis .
qed

section \<open>Checked strings\<close>

text \<open>
  The interface of a checked string: the check decides a set of octet strings. From it follow the round
  trip, what a decoder makes of every encoding, and what happens to a value outside of the set.
\<close>

locale checked_string =
  fixes bad :: "AsnOcts \<Rightarrow> stop + bool" and ok :: "byte list \<Rightarrow> bool" and cd :: "32 word" and err :: int
  assumes bad_iff: "octs_in_memory v \<Longrightarrow> bad v = Inr (\<not> ok (octs_val v))"
    and small_code: "cd < 31"
begin

lemma decoded:
  assumes "length (string_ber cd t) < 2 ^ 31 - 1" and "length (string_ber cd t) \<le> k" and "ber_lengths t"
  shows "dec_checked bad cd err k stream_ops bd (stream_of (string_ber cd t @ ys)) =
    (if ok (ostring_octets t)
     then Inr (\<lparr>octetLen = of_nat (length (ostring_octets t)), octs = ostring_octets t @ [0]\<rparr>,
       bd + of_nat (length (string_ber cd t)))
     else Inl (LongJmp (-40)), stream_of ys)"
proof -
  let ?v = "\<lparr>octetLen = of_nat (length (ostring_octets t)), octs = ostring_octets t @ [0]\<rparr>"
  have "length (ostring_octets t) < 2 ^ 31 - 1"
    using length_ostring_octets [of t] assms(1) length_string_ber [OF small_code, of t] by linarith
  then have "unat (octetLen ?v) = length (ostring_octets t)" "length (ostring_octets t) < 2 ^ 31 - 1"
    by (simp_all add: unat_of_nat_small)
  then have "octs_in_memory ?v" "octs_val ?v = ostring_octets t"
    by (simp_all add: octs_in_memory_def octs_val_def)
  then have "bad ?v = Inr (\<not> ok (ostring_octets t))" using bad_iff by simp
  from dec_checked_ber [where bad = bad, OF small_code assms this] show ?thesis by simp
qed

lemma sbuf_decoded:
  assumes "length (string_ber cd t) < 2 ^ 31 - 1" and "length (string_ber cd t) \<le> k" and "ber_lengths t"
  shows "fst (dec_checked bad cd err k sBufOpsG bd (SBufInstallData (string_ber cd t @ ys))) =
    (if ok (ostring_octets t)
     then Inr (\<lparr>octetLen = of_nat (length (ostring_octets t)), octs = ostring_octets t @ [0]\<rparr>,
       bd + of_nat (length (string_ber cd t)))
     else Inl (LongJmp (-40)))"
proof -
  have "dec_checked bad cd err k stream_ops bd (sbuf_unread (SBufInstallData (string_ber cd t @ ys))) =
    (if ok (ostring_octets t)
     then Inr (\<lparr>octetLen = of_nat (length (ostring_octets t)), octs = ostring_octets t @ [0]\<rparr>,
       bd + of_nat (length (string_ber cd t)))
     else Inl (LongJmp (-40)), stream_of ys)"
    using decoded [OF assms] by (simp add: sbuf_install(2))
  then show ?thesis
    by (rule refines_run [OF sb.dec_checked_refines sbuf_install(1)]) simp_all
qed

lemma round_trip:
  assumes "octs_in_memory v" and "ok (octs_val v)" and "unat (octetLen v) + 9 \<le> length mem"
    and "length mem < 2 ^ 31 - 1" and "length mem \<le> k"
  shows "write_read (enc_checked bad cd sBufOpsG v) (dec_checked bad cd err k sBufOpsG 0) mem =
    Inr (\<lparr>octetLen = octetLen v, octs = octs_val v @ [0]\<rparr>, of_nat (length (tlv UNIV_CLASS PRIM cd (octs_val v))))"
proof -
  let ?xs = "octs_val v"
  have l: "length ?xs = unat (octetLen v)" by (rule length_octs_val [OF assms(1)])
  have room: "length (tlv UNIV_CLASS PRIM cd ?xs) \<le> length mem"
    using assms(3) l length_tlv [of UNIV_CLASS PRIM cd ?xs] by linarith
  have "length ?xs < 2 ^ 32" using l assms(3,4) by simp
  note prim = string_ber_prim [OF small_code this]
  have "dec_checked bad cd err k stream_ops 0 (stream_of (string_ber cd (OPrim (own_form (length ?xs)) ?xs) @ [])) =
      (Inr (\<lparr>octetLen = octetLen v, octs = ?xs @ [0]\<rparr>, of_nat (length (tlv UNIV_CLASS PRIM cd ?xs))), stream_of [])"
    using decoded [of "OPrim (own_form (length ?xs)) ?xs" k 0 "[]"] room assms(2,4,5)
      own_form_fits [OF \<open>length ?xs < 2 ^ 32\<close>]
    by (simp add: prim) (simp add: l)
  then have d: "dec_checked bad cd err k stream_ops 0 (stream_of (tlv UNIV_CLASS PRIM cd ?xs)) =
      (Inr (\<lparr>octetLen = octetLen v, octs = ?xs @ [0]\<rparr>, of_nat (length (tlv UNIV_CLASS PRIM cd ?xs))), stream_of [])"
    by (simp add: prim)
  have "bad v = Inr False" using bad_iff [OF assms(1)] assms(2) by simp
  from write_read_refines [OF sb.enc_checked_emits [where bad = bad, OF assms(1) this small_code] room sb.dec_checked_refines d]
  show ?thesis .
qed

lemma refused:
  assumes "octs_in_memory v" and "\<not> ok (octs_val v)"
  shows "fst (enc_checked bad cd sBufOpsG v b) = Inl Fault"
  using assms by (simp add: enc_checked_def bad_iff prog_simps)

end

text \<open>Every check of the code decides its alphabet, or the multiple of the width of a character.\<close>

lemma chk_decides:
  assumes "\<And>c. P c \<longleftrightarrow> unat c \<in> A" and "octs_in_memory v"
  shows "chk_octs P (octs v) (unat (octetLen v)) 0 = Inr (if over A (octs_val v) then 0 else -1)"
  using chk_octs_val [OF assms(2), of P] over_list_all [of P A, OF assms(1)] by simp

lemma odd_chars_iff:
  assumes "octs_in_memory v" and "n \<noteq> 0"
  shows "octetLen v mod n \<noteq> 0 \<longleftrightarrow> \<not> unat n dvd length (octs_val v)"
  by (simp add: length_octs_val [OF assms(1)] word_unat_eq_iff unat_mod dvd_eq_mod_eq_0)

interpretation numeric: checked_string "\<lambda>v. negative (chkNumericString v)" "over numeric_alphabet" 18 "-100"
  by unfold_locales (simp_all add: chkNumericString_def chk_decides [OF numeric_char_alphabet])

interpretation printable: checked_string "\<lambda>v. negative (chkPrintableString v)" "over printable_alphabet" 19 "-101"
  by unfold_locales (simp_all add: chkPrintableString_def chk_decides [OF printable_char_alphabet])

interpretation teletex: checked_string "\<lambda>v. Inr False" "\<lambda>xs. True" 20 "-102"
  by unfold_locales simp_all

interpretation ia5: checked_string "\<lambda>v. map_sum id (\<lambda>r. r \<noteq> 0) (checkIA5String v)" "over {..<0x80}" 22 "-105"
  by unfold_locales (simp_all only: checkIA5String_def chk_decides [OF ia5_char_alphabet], simp_all)

interpretation visible: checked_string "\<lambda>v. negative (chkVisibleString v)" "over {..<0x80}" 26 "-101"
  by unfold_locales (simp_all only: chkVisibleString_def chk_decides [OF visible_char_alphabet], simp_all)

interpretation universal: checked_string "odd_chars 4" "\<lambda>xs. 4 dvd length xs" 28 "-112"
  by unfold_locales (use odd_chars_iff [of _ 4] in simp_all)

interpretation bmp: checked_string "odd_chars 2" "\<lambda>xs. even (length xs)" 30 "-113"
  by unfold_locales (use odd_chars_iff [of _ 2] in simp_all)

section \<open>Wide characters\<close>

text \<open>The characters of a UniversalString or BMPString: the big-endian value of each group of octets.\<close>

primrec chunks :: "nat \<Rightarrow> nat \<Rightarrow> byte list \<Rightarrow> byte list list" where
  "chunks w 0 xs = []"
| "chunks w (Suc n) xs = take w xs # chunks w n (drop w xs)"

definition wide_chars :: "nat \<Rightarrow> byte list \<Rightarrow> 32 word list" where
  "wide_chars w xs = map be_val (chunks w (length xs div w) xs)"

lemma length_chunk: "c \<in> set (chunks w n xs) \<Longrightarrow> w * n \<le> length xs \<Longrightarrow> length c = w"
  by (induction n arbitrary: xs) (auto simp: algebra_simps)

lemma concat_chunks: "w * n \<le> length xs \<Longrightarrow> concat (chunks w n xs) = take (w * n) xs"
  by (induction n arbitrary: xs) (simp_all add: take_add [symmetric] add.commute flip: take_add)

lemma chunks_prefix: "w * n \<le> k \<Longrightarrow> chunks w n (take k xs) = chunks w n xs"
  by (induction n arbitrary: xs k) (simp_all add: drop_take min_absorb1)

lemma bit_signed_char: "bit (signed_char c) n \<longleftrightarrow> n < 32 \<and> bit c (min n 7)"
  unfolding signed_char_def scast_eq bit_word_of_int_iff bit_sint_iff
  by (cases "8 \<le> n") (simp_all add: byte_bit_above min_def)

lemma signed_char_low: "\<not> bit c 7 \<Longrightarrow> signed_char c = ucast c"
proof (rule bit_word_eqI)
  fix n assume "\<not> bit c 7" "n < LENGTH(32)"
  then show "bit (signed_char c) n = bit (ucast c :: 32 word) n"
    by (cases "8 \<le> n") (simp_all add: bit_signed_char bit_simps byte_bit_above min_def)
qed

definition bmp_char :: "byte list \<Rightarrow> 32 word" where
  "bmp_char bs = (push_bit 8 (signed_char (bs ! 0)) OR signed_char (bs ! 1))"

lemma bmp_char_exact:
  assumes "length bs = 2"
  shows "bmp_char bs = be_val bs \<longleftrightarrow> (\<forall>c\<in>set bs. unat c < 128)"
proof -
  obtain h l where bs: "bs = [h, l]" using assms by (auto simp: numeral_2_eq_2 length_Suc_conv)
  have g: "be_val bs = (push_bit 8 (ucast h) OR ucast l :: 32 word)" by (simp add: bs be_val_def)
  have f: "bmp_char bs = (push_bit 8 (signed_char h) OR signed_char l)" by (simp add: bs bmp_char_def)
  have "bit (bmp_char bs) 31 \<longleftrightarrow> bit h 7 \<or> bit l 7" by (simp add: f bit_simps bit_signed_char)
  moreover have "\<not> bit (be_val bs :: 32 word) 31" by (simp add: g bit_simps byte_bit_above)
  moreover have "bmp_char bs = be_val bs" if "\<not> bit h 7" "\<not> bit l 7"
    unfolding f g using that by (simp add: signed_char_low)
  ultimately show ?thesis by (auto simp: bs bit_byte_7)
qed

lemma bmp_wchars_chunks:
  assumes "j + 2 * n \<le> length blk" and "j + 2 * n < 2 ^ 32"
  shows "bmp_wchars blk n j = Inr (map bmp_char (chunks 2 n (drop j blk)) @ [0])"
  using assms by (induction n arbitrary: j) (simp_all add: mem_slice_def bmp_char_def)

lemma wide_chars_exact:
  assumes "\<And>bs. bs \<in> set (chunks w n xs) \<Longrightarrow> f bs = be_val bs \<longleftrightarrow> (\<forall>c\<in>set bs. unat c < 128)"
    and "w * n = length xs" and "0 < w"
  shows "map f (chunks w n xs) = wide_chars w xs \<longleftrightarrow> over {..<0x80} xs"
proof -
  have "length xs div w = n" using assms(2,3) by (metis nonzero_mult_div_cancel_left less_not_refl)
  then have "map f (chunks w n xs) = wide_chars w xs \<longleftrightarrow> (\<forall>bs\<in>set (chunks w n xs). \<forall>c\<in>set bs. unat c < 128)"
    using assms(1) by (simp add: wide_chars_def)
  also have "\<dots> \<longleftrightarrow> (\<forall>c\<in>set (concat (chunks w n xs)). unat c < 128)" by simp
  also have "concat (chunks w n xs) = xs" using concat_chunks [of w n xs] assms(2) by simp
  finally show ?thesis by (simp add: over_def)
qed

lemma octs_chunks:
  "chunks w (unat (octetLen v) div w) (octs v) = chunks w (unat (octetLen v) div w) (octs_val v)"
  unfolding octs_val_def by (rule chunks_prefix [symmetric]) simp

lemma CvtBMPString2wchar_exact:
  assumes "octs_in_memory v" and "even (length (octs_val v))"
  shows "CvtBMPString2wchar v = Inr (0, wide_chars 2 (octs_val v) @ [0]) \<longleftrightarrow> over {..<0x80} (octs_val v)"
proof -
  let ?xs = "octs_val v" and ?n = "unat (octetLen v) div 2"
  have l: "length ?xs = unat (octetLen v)" by (rule length_octs_val [OF assms(1)])
  have n: "2 * ?n = unat (octetLen v)" using assms(2) l by simp
  have b: "2 * ?n \<le> length (octs v)" "2 * ?n < 2 ^ 31 - 1" using assms(1) unfolding n by (simp_all add: octs_in_memory_def)
  have "CvtBMPString2wchar v = Inr (0, map bmp_char (chunks 2 ?n ?xs) @ [0])"
    using b assms(2) odd_chars_iff [OF assms(1), of 2] bmp_wchars_chunks [of 0 ?n "octs v"]
      octs_chunks [of _ v] by (simp add: CvtBMPString2wchar_def unat_div l)
  then have "CvtBMPString2wchar v = Inr (0, wide_chars 2 ?xs @ [0]) \<longleftrightarrow> map bmp_char (chunks 2 ?n ?xs) = wide_chars 2 ?xs"
    by simp
  also have "\<dots> \<longleftrightarrow> over {..<0x80} ?xs"
    using bmp_char_exact length_chunk [of _ 2 ?n ?xs] n l by (intro wide_chars_exact) simp_all
  finally show ?thesis .
qed

definition universal_char :: "byte list \<Rightarrow> 32 word" where
  "universal_char bs = ((push_bit 24 (signed_char (bs ! 0)) OR push_bit 16 (signed_char (bs ! 1))) OR
     (push_bit 8 (signed_char (bs ! 2)) OR signed_char (bs ! 3)))"

lemma universal_wchars_chunks:
  assumes "j + 4 * n \<le> length blk" and "j + 4 * n < 2 ^ 32"
  shows "universal_wchars blk n j = Inr (map universal_char (chunks 4 n (drop j blk)) @ [0])"
  using assms by (induction n arbitrary: j) (simp_all add: mem_slice_def universal_char_def add.commute [of 4])

lemma universal_char_exact:
  assumes "length bs = 4" and "bs ! 0 = 0"
  shows "universal_char bs = be_val bs \<longleftrightarrow> (\<forall>c\<in>set bs. unat c < 128)"
proof -
  obtain h i k l where "bs = [h, i, k, l]" using assms(1) by (auto simp: numeral_eq_Suc length_Suc_conv)
  with assms(2) have bs: "bs = [0, i, k, l]" by simp
  have g: "be_val bs = (push_bit 16 (ucast i) OR push_bit 8 (ucast k) OR ucast l :: 32 word)"
    by (rule bit_word_eqI) (auto simp: bs be_val_def bit_simps)
  have f: "universal_char bs = (push_bit 16 (signed_char i) OR push_bit 8 (signed_char k) OR signed_char l)"
    by (rule bit_word_eqI) (auto simp: bs universal_char_def bit_simps bit_signed_char)
  have "bit (universal_char bs) 31 \<longleftrightarrow> bit i 7 \<or> bit k 7 \<or> bit l 7" by (simp add: f bit_simps bit_signed_char)
  moreover have "\<not> bit (be_val bs :: 32 word) 31" by (simp add: g bit_simps byte_bit_above)
  moreover have "universal_char bs = be_val bs" if "\<not> bit i 7" "\<not> bit k 7" "\<not> bit l 7"
    unfolding f g using that by (simp add: signed_char_low)
  ultimately show ?thesis by (auto simp: bs bit_byte_7)
qed

lemma CvtUniversalString2wchar_exact:
  assumes "octs_in_memory v" and "4 dvd length (octs_val v)"
    and "list_all (\<lambda>bs. bs ! 0 = 0) (chunks 4 (length (octs_val v) div 4) (octs_val v))"
  shows "CvtUniversalString2wchar v = Inr (0, wide_chars 4 (octs_val v) @ [0]) \<longleftrightarrow> over {..<0x80} (octs_val v)"
proof -
  let ?xs = "octs_val v" and ?n = "unat (octetLen v) div 4"
  have l: "length ?xs = unat (octetLen v)" by (rule length_octs_val [OF assms(1)])
  have n: "4 * ?n = unat (octetLen v)" using assms(2) l by simp
  have b: "4 * ?n \<le> length (octs v)" "4 * ?n < 2 ^ 31 - 1" using assms(1) unfolding n by (simp_all add: octs_in_memory_def)
  have "CvtUniversalString2wchar v = Inr (0, map universal_char (chunks 4 ?n ?xs) @ [0])"
    using b assms(2) odd_chars_iff [OF assms(1), of 4] universal_wchars_chunks [of 0 ?n "octs v"]
      octs_chunks [of _ v] by (simp add: CvtUniversalString2wchar_def unat_div l)
  then have "CvtUniversalString2wchar v = Inr (0, wide_chars 4 ?xs @ [0]) \<longleftrightarrow> map universal_char (chunks 4 ?n ?xs) = wide_chars 4 ?xs"
    by simp
  also have "\<dots> \<longleftrightarrow> over {..<0x80} ?xs"
    using universal_char_exact length_chunk [of _ 4 ?n ?xs] n l assms(3)
    by (intro wide_chars_exact) (simp_all add: list_all_iff)
  finally show ?thesis .
qed

end
