(* ===== verification/Asn_UTF8.thy ===== *)
theory Asn_UTF8
  imports Asn_Strings
begin

text \<open>
  UTF8String (\<open>c-lib/src/asn-UTF8String.c\<close>): the check of the octets, the conversion of a
  null-terminated UTF-8 string to wide characters (32 bits, signed) and back.
\<close>

section \<open>The table\<close>

definition gUTF8Masks :: "(byte \<times> byte \<times> ulong) list" where
  "gUTF8Masks =
     [(0x80, 0x00, 0x0000007F),
      (0xE0, 0xC0, 0x000007FF),
      (0xF0, 0xE0, 0x0000FFFF),
      (0xF8, 0xF0, 0x0001FFFF),
      (0xFC, 0xF8, 0x03FFFFFF),
      (0xFE, 0xFC, 0x07FFFFFF)]"

definition MAX_UTF8_OCTS_PER_CHAR :: nat where
  "MAX_UTF8_OCTS_PER_CHAR = 6"

definition utf8_mask :: "nat \<Rightarrow> byte" where
  "utf8_mask j = fst (gUTF8Masks ! j)"

definition utf8_value :: "nat \<Rightarrow> byte" where
  "utf8_value j = fst (snd (gUTF8Masks ! j))"

text \<open>The loop that looks for the row of a first octet: the number of octets that follow it.\<close>

definition utf8_follow :: "byte \<Rightarrow> nat" where
  "utf8_follow c = length (takeWhile (\<lambda>(m, v, _). m AND c \<noteq> v) gUTF8Masks)"

section \<open>The check\<close>

primrec follow_ok :: "byte list \<Rightarrow> nat \<Rightarrow> nat \<Rightarrow> stop + bool" where
  "follow_ok blk 0 i = Inr True"
| "follow_ok blk (Suc j) i =
     (case mem_read blk i of
        Inl e \<Rightarrow> Inl e
      | Inr c \<Rightarrow> if c AND 0xC0 \<noteq> 0x80 then Inr False else follow_ok blk j (i + 1))"

function utf8_valid :: "byte list \<Rightarrow> nat \<Rightarrow> nat \<Rightarrow> stop + bool" where
  "utf8_valid blk n i =
     (if i < n then
        (case mem_read blk i of
           Inl e \<Rightarrow> Inl e
         | Inr c \<Rightarrow>
             (let j = utf8_follow c in
              if j = MAX_UTF8_OCTS_PER_CHAR \<or> n \<le> i + j then Inr False
              else
                (case follow_ok blk j (i + 1) of
                   Inl e \<Rightarrow> Inl e
                 | Inr ok \<Rightarrow> if ok then utf8_valid blk n (i + 1 + j) else Inr False)))
      else Inr True)"
  by pat_completeness auto
termination
  by (relation "measure (\<lambda>(blk, n, i). n - i)") auto

declare utf8_valid.simps [simp del]

definition IsValidUTF8String :: "AsnOcts \<Rightarrow> stop + bool" where
  "IsValidUTF8String v = utf8_valid (octs v) (unat (octetLen v)) 0"

definition BEncUTF8StringContent :: "'b GenBuf \<Rightarrow> AsnOcts \<Rightarrow> ('b, AsnLen) prog" where
  "BEncUTF8StringContent b v =
     bindP (liftP (IsValidUTF8String v)) (\<lambda>valid.
     if valid = False then thenP (setWriteError b True) (BEncAsnOctsContent b v)
     else BEncAsnOctsContent b v)"

definition BEncUTF8String :: "'b GenBuf \<Rightarrow> AsnOcts \<Rightarrow> ('b, AsnLen) prog" where
  "BEncUTF8String b v =
     bindP (BEncUTF8StringContent b v) (\<lambda>len.
     bindP (BEncDefLen b len) (\<lambda>l.
     bindP (BEncTag1 b UNIV_CLASS PRIM (code_val UTF8STRING_TAG_CODE)) (\<lambda>t.
     returnP (len + l + t))))"

definition BDecUTF8StringContent ::
  "nat \<Rightarrow> 'b GenBuf \<Rightarrow> AsnTag \<Rightarrow> AsnLen \<Rightarrow> AsnLen \<Rightarrow> ('b, AsnOcts \<times> AsnLen) prog" where
  "BDecUTF8StringContent fuel b tagId len bytesDecoded =
     bindP (BDecAsnOctsContent fuel b tagId len bytesDecoded) (\<lambda>(result, bytesDecoded).
     bindP (liftP (IsValidUTF8String result)) (\<lambda>valid.
     if valid = False then longjmp (-40) else returnP (result, bytesDecoded)))"

definition BDecUTF8String :: "nat \<Rightarrow> 'b GenBuf \<Rightarrow> AsnLen \<Rightarrow> ('b, AsnOcts \<times> AsnLen) prog" where
  "BDecUTF8String fuel b bytesDecoded =
     bindP (BDecTag b bytesDecoded) (\<lambda>(tag, bytesDecoded).
     if tag \<noteq> MAKE_TAG_ID UNIV_CLASS PRIM (code_val UTF8STRING_TAG_CODE) \<and>
        tag \<noteq> MAKE_TAG_ID UNIV_CLASS CONS (code_val UTF8STRING_TAG_CODE)
     then longjmp (-113)
     else
       bindP (BDecLen b bytesDecoded) (\<lambda>(elmtLen1, bytesDecoded).
       BDecUTF8StringContent fuel b tag elmtLen1 bytesDecoded))"

section \<open>Conversions\<close>

text \<open>
  A string in memory ends at its first zero octet. Lengths and indices are \<open>unsigned int\<close>; the
  array has \<open>len + 1\<close> elements, so none at all for a length of \<open>2 ^ 32 - 1\<close>. \<open>calloc\<close> and
  \<open>realloc\<close> are assumed to succeed. Result: the return value and the array left in \<open>*outStr\<close>.
\<close>

definition c_strlen :: "byte list \<Rightarrow> stop + nat" where
  "c_strlen blk = (if 0 \<in> set blk then Inr (length (takeWhile (\<lambda>c. c \<noteq> 0) blk)) else Inl Fault)"

primrec utf8_bits :: "byte list \<Rightarrow> nat \<Rightarrow> nat \<Rightarrow> 32 word \<Rightarrow> stop + 32 word option" where
  "utf8_bits blk 0 i w = Inr (Some w)"
| "utf8_bits blk (Suc j) i w =
     (case mem_read blk i of
        Inl e \<Rightarrow> Inl e
      | Inr c \<Rightarrow>
          if c AND 0xC0 \<noteq> 0x80 then Inr None
          else utf8_bits blk j (i + 1) (push_bit 6 w OR ucast (c AND 0x3F)))"

function utf8_wchars :: "byte list \<Rightarrow> nat \<Rightarrow> nat \<Rightarrow> 32 word list \<Rightarrow> stop + int \<times> 32 word list" where
  "utf8_wchars blk len i outStr =
     (if i < len then
        (case mem_read blk i of
           Inl e \<Rightarrow> Inl e
         | Inr c \<Rightarrow>
             (let j = utf8_follow c in
              if j = MAX_UTF8_OCTS_PER_CHAR \<or> len \<le> (i + j) mod 2 ^ 32 then Inr (-3, [])
              else
                (case utf8_bits blk j (i + 1) (signed_char (NOT (utf8_mask j) AND c)) of
                   Inl e \<Rightarrow> Inl e
                 | Inr None \<Rightarrow> Inr (-3, [])
                 | Inr (Some w) \<Rightarrow> utf8_wchars blk len (i + 1 + j) (outStr @ [w]))))
      else Inr (0, outStr @ [0]))"
  by pat_completeness auto
termination
  by (relation "measure (\<lambda>(blk, len, i, outStr). len - i)") auto

declare utf8_wchars.simps [simp del]

definition CvtUTF8towchar :: "byte list \<Rightarrow> stop + int \<times> 32 word list" where
  "CvtUTF8towchar utf8Str =
     (case c_strlen utf8Str of
        Inl e \<Rightarrow> Inl e
      | Inr n \<Rightarrow>
          (let len = n mod 2 ^ 32 in
           if len = 2 ^ 32 - 1 then Inl Fault else utf8_wchars utf8Str len 0 []))"

definition CvtUTF8String2wchar :: "AsnOcts \<Rightarrow> stop + int \<times> 32 word list" where
  "CvtUTF8String2wchar inOcts =
     (if octetLen inOcts = 0 then Inr (0, [0]) else CvtUTF8towchar (octs inOcts))"

text \<open>
  Back: one character gives its last octets from right to left, then the first. The array has six
  octets for each character and one more. Strings so long that the \<open>unsigned int\<close> indices may
  wrap are left out of the model (\<open>NoFuel\<close>).
\<close>

primrec utf8_tail :: "nat \<Rightarrow> 32 word \<Rightarrow> byte list" where
  "utf8_tail 0 temp_wchar = []"
| "utf8_tail (Suc y) temp_wchar =
     utf8_tail y (drop_bit 6 temp_wchar) @ [0x80 OR (ucast temp_wchar AND 0x3F)]"

definition utf8_row :: "32 word \<Rightarrow> nat" where
  "utf8_row temp_wchar = length (takeWhile (\<lambda>(_, _, maxCharValue). ucast temp_wchar > maxCharValue) gUTF8Masks)"

definition utf8_char :: "nat \<Rightarrow> 32 word \<Rightarrow> byte list" where
  "utf8_char j temp_wchar =
     (utf8_value j OR (NOT (utf8_mask j) AND ucast (drop_bit (6 * j) temp_wchar))) # utf8_tail j temp_wchar"

fun utf8_string :: "32 word list \<Rightarrow> byte list \<Rightarrow> nat \<Rightarrow> stop + int \<times> byte list" where
  "utf8_string [] utf8Str x = Inr (0, utf8Str)"
| "utf8_string (temp_wchar # ws) utf8Str x =
     (if sint temp_wchar < 0 then Inr (-3, [])
      else
        let j = utf8_row temp_wchar in
        if j = MAX_UTF8_OCTS_PER_CHAR then Inr (-3, [])
        else
          (case blk_write utf8Str x (utf8_char j temp_wchar) of
             Inl e \<Rightarrow> Inl e
           | Inr utf8Str \<Rightarrow> utf8_string ws utf8Str (x + 1 + j)))"

definition CvtWchar2UTF8 :: "32 word list \<Rightarrow> stop + int \<times> byte list" where
  "CvtWchar2UTF8 inStr =
     (if 0 \<in> set inStr then
        (let ws = takeWhile (\<lambda>w. w \<noteq> 0) inStr in
         if 2 ^ 32 \<le> 6 * length ws then Inl NoFuel
         else utf8_string ws (replicate (6 * length ws + 1) 0) 0)
      else Inl Fault)"

section \<open>One character\<close>

lemmas utf8_table = gUTF8Masks_def utf8_mask_def utf8_value_def MAX_UTF8_OCTS_PER_CHAR_def

text \<open>A first octet that holds the value of a row and any free bits is found in that row.\<close>

lemma utf8_rows:
  "list_all (\<lambda>j. utf8_mask j AND utf8_value j = utf8_value j \<and> NOT (utf8_mask j) AND utf8_value j = 0 \<and>
    list_all (\<lambda>k. utf8_mask k AND utf8_value j = utf8_mask k \<and> utf8_mask k AND NOT (utf8_mask j) = 0 \<and>
      utf8_mask k \<noteq> utf8_value k) [0..<j]) [0..<6]"
  by code_simp

lemma utf8_follow_at:
  assumes "j < 6" and "\<And>k. k < j \<Longrightarrow> utf8_mask k AND c \<noteq> utf8_value k" and "utf8_mask j AND c = utf8_value j"
  shows "utf8_follow c = j"
proof -
  let ?P = "\<lambda>(m, v, _). m AND c \<noteq> v"
  have l: "length gUTF8Masks = 6" by (simp add: gUTF8Masks_def)
  have n: "?P (gUTF8Masks ! k) \<longleftrightarrow> utf8_mask k AND c \<noteq> utf8_value k" for k
    by (simp add: utf8_mask_def utf8_value_def split: prod.split)
  have "takeWhile ?P gUTF8Masks = take j gUTF8Masks"
    by (rule takeWhile_eq_take_P_nth) (use assms l n in auto)
  then show ?thesis using assms(1) by (simp add: utf8_follow_def l)
qed

lemma utf8_follow_lead:
  assumes "j < 6"
  shows "utf8_follow (utf8_value j OR (NOT (utf8_mask j) AND b)) = j"
    and "NOT (utf8_mask j) AND (utf8_value j OR (NOT (utf8_mask j) AND b)) = NOT (utf8_mask j) AND b"
proof -
  have j: "utf8_mask j AND utf8_value j = utf8_value j" "NOT (utf8_mask j) AND utf8_value j = 0"
    using utf8_rows assms by (simp_all only: list_all_iff) auto
  have k: "utf8_mask k AND utf8_value j = utf8_mask k" "utf8_mask k AND NOT (utf8_mask j) = 0" "utf8_mask k \<noteq> utf8_value k"
    if "k < j" for k
    using utf8_rows assms that by (simp_all only: list_all_iff) auto
  note e = bit.conj_disj_distrib and.assoc [symmetric]
  show "utf8_follow (utf8_value j OR (NOT (utf8_mask j) AND b)) = j"
    by (rule utf8_follow_at [OF assms]) (simp_all only: e j k, simp_all add: k(3))
  show "NOT (utf8_mask j) AND (utf8_value j OR (NOT (utf8_mask j) AND b)) = NOT (utf8_mask j) AND b"
    by (simp only: e j) simp
qed

lemma cont_octet:
  "(0x80 OR (b AND 0x3F)) AND 0xC0 = (0x80 :: byte)" "(0x80 OR (b AND 0x3F)) AND 0x3F = (b AND 0x3F :: byte)"
  by (simp_all only: bit.conj_disj_distrib2 and.assoc) simp_all

text \<open>The octets after the first give back the low bits of the character.\<close>

lemma length_utf8_tail [simp]: "length (utf8_tail j w) = j"
  by (induction j arbitrary: w) simp_all

lemma utf8_bits_add:
  "utf8_bits blk (j + k) i w =
    (case utf8_bits blk j i w of
       Inl e \<Rightarrow> Inl e
     | Inr None \<Rightarrow> Inr None
     | Inr (Some w') \<Rightarrow> utf8_bits blk k (i + j) w')"
  by (induction j arbitrary: i w) (simp_all split: sum.split option.split)

lemma low6: "ucast ((ucast w :: byte) AND 0x3F) = (take_bit 6 w :: 32 word)"
proof -
  have m: "(0x3F :: byte) = mask 6" by (simp add: mask_eq_exp_minus_1)
  show ?thesis
    unfolding m by (rule bit_word_eqI) (auto simp: bit_simps)
qed

lemma shift_low6:
  "push_bit 6 (push_bit (6 * j) a OR take_bit (6 * j) (drop_bit 6 w)) OR take_bit 6 w =
    push_bit (6 * Suc j) a OR take_bit (6 * Suc j) (w :: 32 word)"
  by (rule bit_word_eqI) (auto simp: bit_simps not_less)

lemma utf8_bits_tail:
  "utf8_bits (pre @ utf8_tail j w @ ys) j (length pre) a = Inr (Some (push_bit (6 * j) a OR take_bit (6 * j) w))"
proof (induction j arbitrary: w ys)
  case 0
  then show ?case by simp
next
  case (Suc j)
  let ?t = "utf8_tail j (drop_bit 6 w)" and ?c = "0x80 OR (ucast w AND 0x3F) :: byte"
  let ?b = "pre @ ?t @ [?c] @ ys" and ?a = "push_bit (6 * j) a OR take_bit (6 * j) (drop_bit 6 w)"
  have "utf8_bits ?b (j + 1) (length pre) a = utf8_bits ?b 1 (length pre + j) ?a"
    unfolding utf8_bits_add Suc.IH by simp
  also have "\<dots> = Inr (Some (push_bit 6 ?a OR take_bit 6 w))"
    by (simp add: mem_read_def nth_append cont_octet low6 del: push_bit_or)
  also have "\<dots> = Inr (Some (push_bit (6 * Suc j) a OR take_bit (6 * Suc j) w))"
    unfolding shift_low6 ..
  finally show ?case by simp
qed

text \<open>A character that has a row is read back.\<close>

lemma utf8_row_bits:
  assumes "utf8_row w < 6"
  shows "unat w < 2 ^ (6 * utf8_row w + (if utf8_row w = 0 then 7 else 6 - utf8_row w))"
  using assms unfolding utf8_row_def utf8_table
  by (auto simp: word_less_nat_alt split: if_splits)

lemma utf8_row_6: "utf8_row w < 6 \<longleftrightarrow> unat w \<le> 0x7FFFFFF"
  unfolding utf8_row_def utf8_table by (auto simp: word_less_nat_alt)

lemma utf8_row_le: "utf8_row w \<le> 6"
  unfolding utf8_row_def utf8_table by auto

lemma utf8_free_bits:
  "list_all (\<lambda>j. NOT (utf8_mask j) = mask (if j = 0 then 7 else 6 - j)) [0..<6]"
  by (simp add: utf8_table upt_rec mask_eq_exp_minus_1)

lemma utf8_lead_free:
  assumes "utf8_row w < 6"
  obtains n where "n \<le> 7" and "\<forall>k. n \<le> k \<longrightarrow> \<not> bit (drop_bit (6 * utf8_row w) w) k"
    and "NOT (utf8_mask (utf8_row w)) AND ucast (drop_bit (6 * utf8_row w) w) = (ucast (drop_bit (6 * utf8_row w) w) :: byte)"
proof -
  let ?j = "utf8_row w" and ?u = "drop_bit (6 * utf8_row w) w"
  obtain n where n: "n = (if ?j = 0 then 7 else 6 - ?j)" by simp
  have "unat w < 2 ^ (6 * ?j) * 2 ^ n"
    using utf8_row_bits [OF assms] by (simp only: n power_add)
  then have "unat ?u < 2 ^ n"
    unfolding unat_drop_bit_div by (intro less_mult_imp_div_less) (simp only: mult.commute)
  then have u: "\<not> bit ?u k" if "n \<le> k" for k using that by (rule not_bit_above)
  have "NOT (utf8_mask ?j) = mask n" using utf8_free_bits assms unfolding n by (simp only: list_all_iff) auto
  moreover have "mask n AND ucast ?u = (ucast ?u :: byte)"
  proof (rule bit_word_eqI)
    fix k show "bit (mask n AND ucast ?u :: byte) k = bit (ucast ?u :: byte) k"
      by (cases "n \<le> k") (simp_all only: bit_and_iff bit_ucast_iff u bit_mask_iff, simp_all)
  qed
  ultimately have "NOT (utf8_mask ?j) AND ucast ?u = (ucast ?u :: byte)" by simp
  moreover have "n \<le> 7" unfolding n by auto
  ultimately show thesis using that u by blast
qed

lemma utf8_lead_bits:
  assumes "utf8_row w < 6"
  shows "signed_char (NOT (utf8_mask (utf8_row w)) AND ucast (drop_bit (6 * utf8_row w) w)) = drop_bit (6 * utf8_row w) w"
proof -
  let ?u = "drop_bit (6 * utf8_row w) w"
  obtain n where n: "n \<le> 7" "\<forall>k. n \<le> k \<longrightarrow> \<not> bit ?u k"
      "NOT (utf8_mask (utf8_row w)) AND ucast ?u = (ucast ?u :: byte)"
    by (rule utf8_lead_free [OF assms])
  have "\<not> bit (ucast ?u :: byte) 7" using n(1) n(2) by (simp only: bit_ucast_iff simp_thms)
  then have "signed_char (ucast ?u) = ucast (ucast ?u :: byte)" by (rule signed_char_low)
  moreover have "ucast (ucast ?u :: byte) = ?u"
  proof (rule bit_word_eqI)
    fix k :: nat assume "k < LENGTH(32)"
    then show "bit (ucast (ucast ?u :: byte) :: 32 word) k = bit ?u k"
      using n(1,2) by (cases "k < 8") (simp_all only: bit_ucast_iff, simp_all)
  qed
  ultimately show ?thesis by (simp only: n(3))
qed

abbreviation utf8_enc :: "32 word \<Rightarrow> byte list" where
  "utf8_enc w \<equiv> utf8_char (utf8_row w) w"

lemma length_utf8_enc: "length (utf8_char j w) = Suc j"
  by (simp add: utf8_char_def)

lemma utf8_enc_read:
  assumes "utf8_row w < 6" and "blk = pre @ utf8_enc w @ ys"
  obtains c where "mem_read blk (length pre) = Inr c" and "utf8_follow c = utf8_row w"
    and "utf8_bits blk (utf8_row w) (length pre + 1) (signed_char (NOT (utf8_mask (utf8_row w)) AND c)) = Inr (Some w)"
proof
  let ?j = "utf8_row w"
  let ?c = "utf8_value ?j OR (NOT (utf8_mask ?j) AND ucast (drop_bit (6 * ?j) w))"
  have b: "blk = (pre @ [?c]) @ utf8_tail ?j w @ ys" by (simp add: assms(2) utf8_char_def)
  show "mem_read blk (length pre) = Inr ?c" by (simp add: b mem_read_def nth_append)
  show "utf8_follow ?c = ?j" by (rule utf8_follow_lead(1) [OF assms(1)])
  have "push_bit (6 * ?j) (drop_bit (6 * ?j) w) OR take_bit (6 * ?j) w = w"
    by (rule bit_word_eqI) (auto simp: bit_simps)
  then show "utf8_bits blk ?j (length pre + 1) (signed_char (NOT (utf8_mask ?j) AND ?c)) = Inr (Some w)"
    using utf8_bits_tail [of "pre @ [?c]" ?j w ys] b
    by (simp only: utf8_follow_lead(2) [OF assms(1)] utf8_lead_bits [OF assms(1)] length_append list.size) simp
qed

section \<open>Strings of characters\<close>

lemma utf8_wchars_enc:
  assumes "\<forall>w\<in>set ws. utf8_row w < 6" and "length pre + length (concat (map utf8_enc ws)) < 2 ^ 32"
  shows "utf8_wchars (pre @ concat (map utf8_enc ws) @ ys) (length pre + length (concat (map utf8_enc ws))) (length pre) out =
    Inr (0, out @ ws @ [0])"
  using assms
proof (induction ws arbitrary: pre out)
  case Nil
  then show ?case by (subst utf8_wchars.simps) simp
next
  case (Cons w ws)
  let ?r = "concat (map utf8_enc ws)"
  let ?blk = "pre @ utf8_enc w @ ?r @ ys"
  have w: "utf8_row w < 6" using Cons.prems(1) by simp
  obtain c where c: "mem_read ?blk (length pre) = Inr c" "utf8_follow c = utf8_row w"
      "utf8_bits ?blk (utf8_row w) (length pre + 1) (signed_char (NOT (utf8_mask (utf8_row w)) AND c)) = Inr (Some w)"
    by (rule utf8_enc_read [OF w refl])
  have "utf8_wchars ((pre @ utf8_enc w) @ ?r @ ys) (length (pre @ utf8_enc w) + length ?r) (length (pre @ utf8_enc w)) (out @ [w]) =
      Inr (0, (out @ [w]) @ ws @ [0])"
    by (rule Cons.IH) (use Cons.prems in simp_all)
  then have r: "utf8_wchars ?blk (length pre + length (utf8_enc w) + length ?r) (length pre + 1 + utf8_row w) (out @ [w]) =
      Inr (0, out @ (w # ws) @ [0])"
    by (simp add: length_utf8_enc)
  show ?case
    using Cons.prems(2) c w r
    by (subst utf8_wchars.simps) (simp add: length_utf8_enc MAX_UTF8_OCTS_PER_CHAR_def add_ac)
qed

lemma length_utf8_string: "\<forall>w\<in>set ws. utf8_row w < 6 \<Longrightarrow> length (concat (map utf8_enc ws)) \<le> 6 * length ws"
proof (induction ws)
  case (Cons w ws)
  then have "utf8_row w < 6" "length (concat (map utf8_enc ws)) \<le> 6 * length ws" by simp_all
  then show ?case by (simp add: length_utf8_enc)
qed simp

lemma utf8_string_result:
  assumes "x + 6 * length ws \<le> length blk"
  shows "utf8_string ws blk x =
    Inr (if \<forall>w\<in>set ws. utf8_row w < 6 then (0, mem_put blk x (concat (map utf8_enc ws))) else (-3, []))"
  using assms
proof (induction ws arbitrary: blk x)
  case Nil
  then show ?case by (simp add: mem_put_def)
next
  case (Cons w ws)
  show ?case
  proof (cases "utf8_row w < 6")
    case True
    let ?blk = "mem_put blk x (utf8_enc w)" and ?x = "x + length (utf8_enc w)"
    have "0 \<le> sint w" using True utf8_row_6 [of w] by (subst sint_small) simp_all
    moreover have x: "?x + 6 * length ws \<le> length blk" using Cons.prems True by (simp add: length_utf8_enc)
    ultimately have "utf8_string (w # ws) blk x = utf8_string ws ?blk ?x"
      using True by (simp add: MAX_UTF8_OCTS_PER_CHAR_def blk_write_def length_utf8_enc Let_def)
    also have "\<dots> = Inr (if \<forall>w\<in>set ws. utf8_row w < 6 then (0, mem_put ?blk ?x (concat (map utf8_enc ws))) else (-3, []))"
      using x by (intro Cons.IH) simp
    also have "\<dots> = Inr (if \<forall>w\<in>set (w # ws). utf8_row w < 6
        then (0, mem_put blk x (concat (map utf8_enc (w # ws)))) else (-3, []))"
      using x True length_utf8_string [of ws] mem_put_mem_put [of x "utf8_enc w" "concat (map utf8_enc ws)" blk] by auto
    finally show ?thesis .
  next
    case False
    then have "utf8_row w = 6" using utf8_row_le [of w] by simp
    then show ?thesis by (simp add: MAX_UTF8_OCTS_PER_CHAR_def)
  qed
qed

lemma utf8_enc_nonzero:
  assumes "utf8_row w < 6" and "w \<noteq> 0"
  shows "0 \<notin> set (utf8_enc w)"
proof -
  let ?j = "utf8_row w"
  let ?b = "NOT (utf8_mask ?j) AND ucast (drop_bit (6 * ?j) w) :: byte"
  have "0 \<notin> set (utf8_tail k u)" for k u
  proof (induction k arbitrary: u)
    case (Suc k)
    have "(0x80 OR (ucast u AND 0x3F) :: byte) \<noteq> 0" using cont_octet(1) [of "ucast u"] by auto
    with Suc show ?case by simp
  qed simp
  moreover have "utf8_value ?j OR ?b \<noteq> 0"
  proof
    assume z: "utf8_value ?j OR ?b = 0"
    have "utf8_follow 0 = 0" by (simp add: utf8_follow_def gUTF8Masks_def)
    then have j: "?j = 0" using utf8_follow_lead(1) [OF assms(1), of "ucast (drop_bit (6 * ?j) w)"] unfolding z by simp
    with z have "?b = 0" by (simp add: utf8_value_def gUTF8Masks_def)
    then have "drop_bit (6 * ?j) w = 0" using utf8_lead_bits [OF assms(1)] by (simp add: signed_char_def)
    with j assms(2) show False by simp
  qed
  ultimately show ?thesis by (simp add: utf8_char_def)
qed

text \<open>The whole conversion, there and back.\<close>

lemma CvtWchar2UTF8_result:
  assumes "0 \<notin> set ws" and "6 * length ws < 2 ^ 32"
  shows "CvtWchar2UTF8 (ws @ 0 # zs) =
    Inr (if \<forall>w\<in>set ws. unat w \<le> 0x7FFFFFF
      then (0, concat (map utf8_enc ws) @ replicate (6 * length ws + 1 - length (concat (map utf8_enc ws))) 0)
      else (-3, []))"
proof -
  have "takeWhile (\<lambda>w. w \<noteq> 0) (ws @ 0 # zs) = ws" using assms(1) by (induction ws) auto
  then have "CvtWchar2UTF8 (ws @ 0 # zs) = utf8_string ws (replicate (6 * length ws + 1) 0) 0"
    using assms(2) by (simp add: CvtWchar2UTF8_def)
  also have "\<dots> = Inr (if \<forall>w\<in>set ws. utf8_row w < 6
      then (0, mem_put (replicate (6 * length ws + 1) 0) 0 (concat (map utf8_enc ws))) else (-3, []))"
    by (rule utf8_string_result) simp
  finally show ?thesis by (simp add: utf8_row_6 mem_put_def del: replicate_Suc)
qed

lemma CvtUTF8towchar_enc:
  assumes "0 \<notin> set ws" and "\<forall>w\<in>set ws. unat w \<le> 0x7FFFFFF" and "6 * length ws < 2 ^ 32 - 1"
  shows "CvtUTF8towchar (concat (map utf8_enc ws) @ 0 # zs) = Inr (0, ws @ [0])"
proof -
  let ?e = "concat (map utf8_enc ws)"
  have row: "\<forall>w\<in>set ws. utf8_row w < 6" using assms(2) utf8_row_6 by simp
  then have l: "length ?e < 2 ^ 32 - 1" using length_utf8_string [of ws] assms(3) by simp
  have "0 \<notin> set ?e"
  proof
    assume "0 \<in> set ?e"
    then obtain w where w: "w \<in> set ws" "0 \<in> set (utf8_enc w)" by auto
    then have "w \<noteq> 0" "utf8_row w < 6" using assms(1) row by auto
    with w(2) utf8_enc_nonzero show False by blast
  qed
  then have "takeWhile (\<lambda>c. c \<noteq> 0) (?e @ 0 # zs) = ?e" by (auto simp: takeWhile_append)
  then have "CvtUTF8towchar (?e @ 0 # zs) = utf8_wchars (?e @ 0 # zs) (length ?e) 0 []"
    using l by (simp add: CvtUTF8towchar_def c_strlen_def)
  then show ?thesis using utf8_wchars_enc [OF row, of "[]" "0 # zs" "[]"] l by simp
qed

section \<open>The standard encoding\<close>

text \<open>
  RFC 2279: a character below \<open>2 ^ 31\<close> takes the row of the smallest range it is in; the octets are
  computed by division.
\<close>

definition rfc_row :: "nat \<Rightarrow> nat" where
  "rfc_row n = length (takeWhile (\<lambda>m. m < n) [0x7F, 0x7FF, 0xFFFF, 0x1FFFFF, 0x3FFFFFF])"

definition rfc_lead :: "nat \<Rightarrow> nat" where
  "rfc_lead k = [0x00, 0xC0, 0xE0, 0xF0, 0xF8, 0xFC] ! k"

fun rfc_tail :: "nat \<Rightarrow> nat \<Rightarrow> byte list" where
  "rfc_tail 0 n = []"
| "rfc_tail (Suc k) n = rfc_tail k (n div 64) @ [of_nat (0x80 + n mod 64)]"

definition rfc_octets :: "nat \<Rightarrow> byte list" where
  "rfc_octets n = (let k = rfc_row n in of_nat (rfc_lead k + n div 64 ^ k) # rfc_tail k n)"

lemma length_rfc_tail [simp]: "length (rfc_tail k n) = k"
  by (induction k arbitrary: n) simp_all

lemma cont_octet_nat: "0x80 OR (ucast w AND 0x3F) = (of_nat (0x80 + unat w mod 64) :: byte)" for w :: "32 word"
proof -
  have m: "(0x3F :: byte) = mask 6" by (simp add: mask_eq_exp_minus_1)
  have t: "ucast w AND mask 6 = (ucast (take_bit 6 w) :: byte)" by (rule bit_word_eqI) (auto simp: bit_simps)
  have z: "(0x80 :: byte) AND ucast (take_bit 6 w) = 0"
    by (rule byte_eqI) (simp add: bit_simps)
  have "unat (take_bit 6 w) = take_bit 6 (unat w)" by (rule unsigned_take_bit_eq)
  then have "unat (take_bit 6 w) = unat w mod 64" by (simp add: take_bit_eq_mod [of 6 "unat w"])
  moreover have "(of_nat (0x80 + unat (take_bit 6 w)) :: byte) = 0x80 + ucast (take_bit 6 w)" by simp
  ultimately have "of_nat (0x80 + unat w mod 64) = (0x80 + ucast (take_bit 6 w) :: byte)" by (simp only:)
  also have "\<dots> = 0x80 OR ucast (take_bit 6 w)" using z by (simp flip: disjunctive_add_eq_or)
  finally show ?thesis unfolding m t by simp
qed

lemma utf8_tail_rfc: "utf8_tail k w = rfc_tail k (unat w)"
proof (induction k arbitrary: w)
  case (Suc k)
  have "unat (drop_bit 6 w) = unat w div 64" by (simp add: unat_drop_bit_div)
  with Suc show ?case by (simp only: utf8_tail.simps rfc_tail.simps cont_octet_nat)
qed simp

lemma utf8_value_lead: "list_all (\<lambda>j. utf8_value j = of_nat (rfc_lead j)) [0..<6]"
  by (simp add: utf8_table rfc_lead_def upt_rec)

lemma utf8_enc_rfc:
  assumes "utf8_row w < 6" and "rfc_row (unat w) = utf8_row w"
  shows "utf8_enc w = rfc_octets (unat w)"
proof -
  let ?j = "utf8_row w" and ?u = "drop_bit (6 * utf8_row w) w"
  obtain n where n: "NOT (utf8_mask ?j) AND ucast ?u = (ucast ?u :: byte)" by (rule utf8_lead_free [OF assms(1)])
  have j: "?j \<in> set [0..<6]" using assms(1) by simp
  have v: "utf8_value ?j = of_nat (rfc_lead ?j)"
    using utf8_value_lead j by (simp only: list_all_iff)
  have z: "NOT (utf8_mask ?j) AND utf8_value ?j = 0"
    using utf8_rows j by (simp only: list_all_iff)
  have "unat ?u = unat w div 64 ^ ?j" by (simp add: unat_drop_bit_div power_mult)
  moreover have "ucast ?u = (of_nat (unat ?u) :: byte)" by simp
  ultimately have u: "ucast ?u = (of_nat (unat w div 64 ^ ?j) :: byte)" by (simp only:)
  have "utf8_value ?j AND (NOT (utf8_mask ?j) AND ucast ?u) = (NOT (utf8_mask ?j) AND utf8_value ?j) AND ucast ?u"
    by (simp only: ac_simps)
  then have "utf8_value ?j AND ucast ?u = 0" by (simp only: z n zero_and_eq)
  then have "utf8_value ?j OR ucast ?u = utf8_value ?j + ucast ?u" by (rule disjunctive_add_eq_or [symmetric])
  also have "\<dots> = of_nat (rfc_lead ?j + unat w div 64 ^ ?j)" by (simp only: v u of_nat_add)
  finally show ?thesis
    unfolding utf8_char_def n rfc_octets_def assms(2) Let_def utf8_tail_rfc by (simp only:)
qed

lemma rfc_row_eq:
  assumes "unat w \<le> 0x7FFFFFF"
  shows "utf8_row w = (if unat w \<in> {0x20000..0x1FFFFF} then Suc (rfc_row (unat w)) else rfc_row (unat w))"
  using assms unfolding utf8_row_def utf8_table rfc_row_def by (auto simp: word_less_nat_alt)

lemma rfc_strings:
  assumes "\<forall>w\<in>set ws. unat w \<le> 0x7FFFFFF"
  shows "concat (map utf8_enc ws) = concat (map (\<lambda>w. rfc_octets (unat w)) ws) \<longleftrightarrow>
    (\<forall>w\<in>set ws. unat w \<notin> {0x20000..0x1FFFFF})"
proof -
  let ?r = "\<lambda>ws. concat (map (\<lambda>w. rfc_octets (unat w)) ws)" and ?e = "\<lambda>ws. concat (map utf8_enc ws)"
  have l: "length (rfc_octets n) = Suc (rfc_row n)" for n by (simp add: rfc_octets_def Let_def)
  have le: "length (?r ws) \<le> length (?e ws) \<and>
      ((\<exists>w\<in>set ws. unat w \<in> {0x20000..0x1FFFFF}) \<longrightarrow> length (?r ws) < length (?e ws))"
    using assms
  proof (induction ws)
    case (Cons w ws)
    then have "unat w \<le> 0x7FFFFFF" by simp
    from rfc_row_eq [OF this] Cons show ?case
      by (cases "unat w \<in> {0x20000..0x1FFFFF}") (auto simp: l length_utf8_enc)
  qed simp
  show ?thesis
  proof (cases "\<forall>w\<in>set ws. unat w \<notin> {0x20000..0x1FFFFF}")
    case True
    have e: "utf8_enc w = rfc_octets (unat w)" if "w \<in> set ws" for w
    proof -
      have w: "unat w \<le> 0x7FFFFFF" "unat w \<notin> {0x20000..0x1FFFFF}" using that assms True by simp_all
      then show ?thesis using utf8_row_6 [of w] rfc_row_eq [OF w(1)] by (intro utf8_enc_rfc) (simp_all only: if_False)
    qed
    have "map utf8_enc ws = map (\<lambda>w. rfc_octets (unat w)) ws" by (rule map_cong [OF refl e])
    then have "?e ws = ?r ws" by (rule arg_cong)
    with True show ?thesis by (simp only: simp_thms)
  next
    case False
    with le have "length (?r ws) < length (?e ws)" by blast
    then have "?e ws \<noteq> ?r ws" by auto
    with False show ?thesis by (simp only: simp_thms)
  qed
qed

section \<open>Well-formed octets\<close>

text \<open>
  The octets a UTF8String may hold: groups of a first octet in one of six ranges and as many following
  octets in 80 to BF as the range says. Neither the shortest form nor surrogates are checked.
\<close>

definition lead_range :: "nat \<Rightarrow> nat set" where
  "lead_range j = [{0x00..0x7F}, {0xC0..0xDF}, {0xE0..0xEF}, {0xF0..0xF7}, {0xF8..0xFB}, {0xFC..0xFD}] ! j"

definition utf8_group :: "byte list \<Rightarrow> bool" where
  "utf8_group g \<longleftrightarrow> (\<exists>j<6. length g = Suc j \<and> unat (hd g) \<in> lead_range j \<and> over {0x80..0xBF} (tl g))"

definition utf8_form :: "byte list \<Rightarrow> bool" where
  "utf8_form xs \<longleftrightarrow> (\<exists>gs. xs = concat gs \<and> (\<forall>g\<in>set gs. utf8_group g))"

lemma byte_table:
  assumes "list_all (\<lambda>i. P (word_of_int i) i) [0..255]"
  shows "P c (int (unat (c :: byte)))"
proof -
  have "uint c \<in> set [0..255]" using unat_byte_less [of c] uint_lt2p [of c] by simp
  then have "P (word_of_int (uint c)) (uint c)" using assms by (simp only: list_all_iff)
  then show ?thesis by (simp only: of_nat_unat word_of_int_uint)
qed

lemma cont_range: "c AND 0xC0 = 0x80 \<longleftrightarrow> unat (c :: byte) \<in> {0x80..0xBF}"
proof -
  have "c AND 0xC0 = 0x80 \<longleftrightarrow> 0x80 \<le> int (unat c) \<and> int (unat c) \<le> 0xBF"
    by (rule byte_table [where P = "\<lambda>c i. c AND 0xC0 = 0x80 \<longleftrightarrow> 0x80 \<le> i \<and> i \<le> 0xBF"]) code_simp
  also have "\<dots> \<longleftrightarrow> unat c \<in> {0x80..0xBF}" by (simp only: atLeastAtMost_iff) linarith
  finally show ?thesis .
qed

definition spec_follow :: "int \<Rightarrow> nat" where
  "spec_follow n = (if n \<le> 0x7F then 0 else if n < 0xC0 then 6 else if n \<le> 0xDF then 1 else if n \<le> 0xEF then 2
     else if n \<le> 0xF7 then 3 else if n \<le> 0xFB then 4 else if n \<le> 0xFD then 5 else 6)"

lemma utf8_follow_spec: "utf8_follow c = spec_follow (int (unat c))"
  by (rule byte_table [where P = "\<lambda>c n. utf8_follow c = spec_follow n"]) code_simp

lemma spec_follow_range:
  assumes "j < 6"
  shows "spec_follow (int n) = j \<longleftrightarrow> n \<in> lead_range j"
proof -
  have "j = 0 \<or> j = 1 \<or> j = 2 \<or> j = 3 \<or> j = 4 \<or> j = 5" using assms by arith
  then show ?thesis by (elim disjE; simp add: spec_follow_def lead_range_def; linarith)
qed

lemma utf8_follow_range: "j < 6 \<Longrightarrow> utf8_follow c = j \<longleftrightarrow> unat c \<in> lead_range j"
  by (simp only: utf8_follow_spec spec_follow_range)

lemma utf8_follow_le: "utf8_follow c \<le> 6"
  by (simp only: utf8_follow_spec) (simp add: spec_follow_def)

lemma utf8_form_Nil: "utf8_form []"
  by (auto simp: utf8_form_def intro: exI [of _ "[]"])

lemma utf8_form_Cons:
  "utf8_form (c # cs) \<longleftrightarrow>
     utf8_follow c < 6 \<and> utf8_follow c \<le> length cs \<and> over {0x80..0xBF} (take (utf8_follow c) cs) \<and>
     utf8_form (drop (utf8_follow c) cs)"
proof
  assume "utf8_form (c # cs)"
  then obtain gs where gs: "c # cs = concat gs" "\<forall>g\<in>set gs. utf8_group g" by (auto simp: utf8_form_def)
  then obtain g gs' where g: "gs = g # gs'" by (cases gs) auto
  then have "utf8_group g" using gs(2) by simp
  then obtain j where j: "j < 6" "length g = Suc j" "unat (hd g) \<in> lead_range j" "over {0x80..0xBF} (tl g)"
    by (auto simp: utf8_group_def)
  then obtain d ds where d: "g = d # ds" by (cases g) auto
  with gs(1) g have c: "d = c" "cs = ds @ concat gs'" by auto
  have "utf8_follow c = j" using j(1,3) d c(1) by (simp add: utf8_follow_range)
  moreover have "length ds = j" using j(2) d by simp
  moreover have "utf8_form (concat gs')" using gs(2) g by (auto simp: utf8_form_def)
  ultimately show "utf8_follow c < 6 \<and> utf8_follow c \<le> length cs \<and> over {0x80..0xBF} (take (utf8_follow c) cs) \<and>
     utf8_form (drop (utf8_follow c) cs)"
    using j(1,4) d c(2) by simp
next
  assume r: "utf8_follow c < 6 \<and> utf8_follow c \<le> length cs \<and> over {0x80..0xBF} (take (utf8_follow c) cs) \<and>
     utf8_form (drop (utf8_follow c) cs)"
  then obtain gs where gs: "drop (utf8_follow c) cs = concat gs" "\<forall>g\<in>set gs. utf8_group g" by (auto simp: utf8_form_def)
  let ?g = "c # take (utf8_follow c) cs"
  have "unat c \<in> lead_range (utf8_follow c)" using r utf8_follow_range by blast
  then have "utf8_group ?g" using r by (auto simp: utf8_group_def intro!: exI [of _ "utf8_follow c"])
  moreover have "c # cs = concat (?g # gs)" using gs(1) by (simp flip: gs(1))
  ultimately show "utf8_form (c # cs)" unfolding utf8_form_def using gs(2) by (intro exI [of _ "?g # gs"]) simp
qed

lemma follow_ok_result:
  assumes "i + j \<le> length blk"
  shows "follow_ok blk j i = Inr (over {0x80..0xBF} (take j (drop i blk)))"
  using assms
proof (induction j arbitrary: i)
  case 0
  then show ?case by (simp add: over_def)
next
  case (Suc j)
  then have "drop i blk = blk ! i # drop (Suc i) blk" by (simp add: Cons_nth_drop_Suc)
  with Suc show ?case by (auto simp: mem_read_def cont_range over_def)
qed

lemma utf8_valid_result:
  assumes "n \<le> length blk"
  shows "i \<le> n \<Longrightarrow> utf8_valid blk n i = Inr (utf8_form (take (n - i) (drop i blk)))"
proof (induction "n - i" arbitrary: i rule: less_induct)
  case less
  show ?case
  proof (cases "i < n")
    case False
    then show ?thesis by (subst utf8_valid.simps) (simp add: utf8_form_Nil)
  next
    case True
    let ?c = "blk ! i" and ?cs = "take (n - Suc i) (drop (Suc i) blk)"
    let ?j = "utf8_follow ?c"
    have xs: "take (n - i) (drop i blk) = ?c # ?cs"
      using True assms by (simp add: Cons_nth_drop_Suc [symmetric] take_Cons' Suc_diff_Suc)
    have l: "length ?cs = n - Suc i" using assms by simp
    have c: "mem_read blk i = Inr ?c" using True assms by (simp add: mem_read_def)
    show ?thesis
    proof (cases "?j < 6 \<and> i + ?j < n")
      case fits: True
      then have j: "?j \<le> n - Suc i" by linarith
      then have "take ?j ?cs = take ?j (drop (Suc i) blk)" "drop ?j ?cs = take (n - (i + 1 + ?j)) (drop (i + 1 + ?j) blk)"
        by (simp_all add: min_def drop_take add_ac)
      moreover have "utf8_valid blk n (i + 1 + ?j) = Inr (utf8_form (take (n - (i + 1 + ?j)) (drop (i + 1 + ?j) blk)))"
        using fits True by (intro less.hyps) auto
      moreover have "follow_ok blk ?j (i + 1) = Inr (over {0x80..0xBF} (take ?j (drop (Suc i) blk)))"
        using follow_ok_result [of "i + 1" ?j blk] fits assms by simp
      ultimately show ?thesis
        unfolding xs utf8_form_Cons using True c fits l j
        by (subst utf8_valid.simps) (simp add: MAX_UTF8_OCTS_PER_CHAR_def Let_def)
    next
      case False
      then have "\<not> utf8_form (?c # ?cs)" unfolding utf8_form_Cons l using True by auto
      moreover have "?j = 6 \<or> n \<le> i + ?j" using False utf8_follow_le [of ?c] by auto
      ultimately show ?thesis
        unfolding xs using True c by (subst utf8_valid.simps) (auto simp: MAX_UTF8_OCTS_PER_CHAR_def)
    qed
  qed
qed

lemma IsValidUTF8String_form:
  assumes "octs_in_memory v"
  shows "IsValidUTF8String v = Inr (utf8_form (octs_val v))"
  using utf8_valid_result [of "unat (octetLen v)" "octs v" 0] assms
  by (simp add: IsValidUTF8String_def octs_in_memory_def octs_val_def)

text \<open>UTF8String is a checked string too.\<close>

abbreviation not_utf8 :: "AsnOcts \<Rightarrow> stop + bool" where
  "not_utf8 v \<equiv> map_sum id Not (IsValidUTF8String v)"

lemma utf8_checked:
  "BEncUTF8String = enc_checked not_utf8 12" "BDecUTF8String = dec_checked not_utf8 12 (-113)"
  unfolding fun_eq_iff enc_checked_def dec_checked_def bindP_lift_map code_val.simps BEncUTF8String_def
    BEncUTF8StringContent_def BDecUTF8String_def BDecUTF8StringContent_def eq_False
  by (intro allI refl)+

interpretation utf8: checked_string not_utf8 utf8_form 12 "-113"
  by unfold_locales (simp_all add: IsValidUTF8String_form)

text \<open>What the conversion writes is well formed.\<close>

lemma utf8_form_enc:
  assumes "\<forall>w\<in>set ws. unat w \<le> 0x7FFFFFF"
  shows "utf8_form (concat (map utf8_enc ws))"
  using assms
proof (induction ws)
  case Nil
  then show ?case by (simp add: utf8_form_Nil)
next
  case (Cons w ws)
  then have row: "utf8_row w < 6" using utf8_row_6 by simp
  have "over {0x80..0xBF} (utf8_tail k u)" for k u
  proof (induction k arbitrary: u)
    case 0
    show ?case by (simp add: over_def)
  next
    case (Suc k)
    have "unat (0x80 OR (ucast u AND 0x3F) :: byte) \<in> {0x80..0xBF}" using cont_octet(1) cont_range by blast
    with Suc show ?case by (auto simp: over_def)
  qed
  moreover have "utf8_form (concat (map utf8_enc ws))" using Cons by simp
  moreover obtain zs where zs: "concat (map utf8_enc ws) = zs" by simp
  ultimately have "utf8_form (utf8_enc w @ zs)"
    unfolding utf8_char_def append_Cons utf8_form_Cons utf8_follow_lead(1) [OF row]
    using row by simp
  then have "utf8_form (utf8_enc w @ concat (map utf8_enc ws))" unfolding zs .
  then show ?case by simp
qed

end
