(* ===== verification/String_Types.thy ===== *)
theory String_Types
  imports Asn_UTF8
begin

text \<open>
  The eight character string types in one table: their routines, tag codes, jump codes and the octets
  they accept. It only names what \<open>Asn_Strings\<close> and \<open>Asn_UTF8\<close> define, so that a property can be stated
  for all of them.
\<close>

datatype string_kind = Numeric_kind | Printable_kind | Teletex_kind | IA5_kind | Visible_kind
  | Universal_kind | BMP_kind | UTF8_kind

fun string_enc :: "string_kind \<Rightarrow> 'b GenBuf \<Rightarrow> AsnOcts \<Rightarrow> ('b, AsnLen) prog" where
  "string_enc Numeric_kind = BEncNumericString"
| "string_enc Printable_kind = BEncPrintableString"
| "string_enc Teletex_kind = BEncTeletexString"
| "string_enc IA5_kind = BEncIA5String"
| "string_enc Visible_kind = BEncVisibleString"
| "string_enc Universal_kind = BEncUniversalString"
| "string_enc BMP_kind = BEncBMPString"
| "string_enc UTF8_kind = BEncUTF8String"

fun string_dec :: "string_kind \<Rightarrow> nat \<Rightarrow> 'b GenBuf \<Rightarrow> AsnLen \<Rightarrow> ('b, AsnOcts \<times> AsnLen) prog" where
  "string_dec Numeric_kind = BDecNumericString"
| "string_dec Printable_kind = BDecPrintableString"
| "string_dec Teletex_kind = BDecTeletexString"
| "string_dec IA5_kind = BDecIA5String"
| "string_dec Visible_kind = BDecVisibleString"
| "string_dec Universal_kind = BDecUniversalString"
| "string_dec BMP_kind = BDecBMPString"
| "string_dec UTF8_kind = BDecUTF8String"

fun string_code :: "string_kind \<Rightarrow> 32 word" where
  "string_code Numeric_kind = 18"
| "string_code Printable_kind = 19"
| "string_code Teletex_kind = 20"
| "string_code IA5_kind = 22"
| "string_code Visible_kind = 26"
| "string_code Universal_kind = 28"
| "string_code BMP_kind = 30"
| "string_code UTF8_kind = 12"

fun string_error :: "string_kind \<Rightarrow> int" where
  "string_error Numeric_kind = -100"
| "string_error Printable_kind = -101"
| "string_error Teletex_kind = -102"
| "string_error IA5_kind = -105"
| "string_error Visible_kind = -101"
| "string_error Universal_kind = -112"
| "string_error BMP_kind = -113"
| "string_error UTF8_kind = -113"

text \<open>A VisibleString is accepted with control characters, which X.680 excludes.\<close>

fun string_ok :: "string_kind \<Rightarrow> byte list \<Rightarrow> bool" where
  "string_ok Numeric_kind = over numeric_alphabet"
| "string_ok Printable_kind = over printable_alphabet"
| "string_ok Teletex_kind = (\<lambda>xs. True)"
| "string_ok IA5_kind = over {..<0x80}"
| "string_ok Visible_kind = over {..<0x80}"
| "string_ok Universal_kind = (\<lambda>xs. 4 dvd length xs)"
| "string_ok BMP_kind = (\<lambda>xs. even (length xs))"
| "string_ok UTF8_kind = utf8_form"

lemmas string_table = string_enc.simps string_dec.simps string_ok.simps string_code.simps string_error.simps
  enc_checked_types dec_checked_types utf8_checked

lemma string_kinds:
  obtains bad where "string_enc k sBufOpsG = enc_checked bad (string_code k) sBufOpsG"
    and "\<forall>n. string_dec k n sBufOpsG = dec_checked bad (string_code k) (string_error k) n sBufOpsG"
    and "checked_string bad (string_ok k) (string_code k)"
proof (cases k)
  case Numeric_kind
  show thesis by (rule that, (simp only: simp_thms string_table Numeric_kind)+) (rule numeric.checked_string_axioms)
next
  case Printable_kind
  show thesis by (rule that, (simp only: simp_thms string_table Printable_kind)+) (rule printable.checked_string_axioms)
next
  case Teletex_kind
  show thesis by (rule that, (simp only: simp_thms string_table Teletex_kind)+) (rule teletex.checked_string_axioms)
next
  case IA5_kind
  show thesis by (rule that, (simp only: simp_thms string_table IA5_kind)+) (rule ia5.checked_string_axioms)
next
  case Visible_kind
  show thesis by (rule that, (simp only: simp_thms string_table Visible_kind)+) (rule visible.checked_string_axioms)
next
  case Universal_kind
  show thesis by (rule that, (simp only: simp_thms string_table Universal_kind)+) (rule universal.checked_string_axioms)
next
  case BMP_kind
  show thesis by (rule that, (simp only: simp_thms string_table BMP_kind)+) (rule bmp.checked_string_axioms)
next
  case UTF8_kind
  show thesis by (rule that, (simp only: simp_thms string_table UTF8_kind)+) (rule utf8.checked_string_axioms)
qed

lemma string_code_small: "string_code k < 31"
  by (cases k) simp_all

text \<open>A tag of another type makes a decoder jump with its own code.\<close>

lemma dec_checked_other_tag:
  assumes "fst (BDecTag sBufOpsG bd (SBufInstallData xs)) = Inr (tag, n)"
    and "tag \<noteq> MAKE_TAG_ID UNIV_CLASS PRIM cd" and "tag \<noteq> MAKE_TAG_ID UNIV_CLASS CONS cd"
  shows "fst (dec_checked bad cd err k sBufOpsG bd (SBufInstallData xs)) = Inl (LongJmp err)"
  using assms by (cases "BDecTag sBufOpsG bd (SBufInstallData xs)") (simp add: dec_checked_def bindP_def stopP_def)

end
