(* ===== verification/Hash_Table.thy ===== *)
theory Hash_Table
  imports Prelude
begin

text \<open>
  The extensible hash table of \<open>c-lib/src/hash.c\<close>, which the open type ANY looks its types up in: a
  tree whose nodes are arrays of 256 slots, indexed by successive octets of the hash value; the hash
  values are taken to be unique. \<open>malloc\<close> is assumed to succeed.
\<close>

section \<open>Hashing\<close>

type_synonym Hash = "32 word"

text \<open>\<open>HASHC\<close>: the octet is a signed \<open>char\<close>, the arithmetic wraps.\<close>

definition HASHC :: "byte \<Rightarrow> Hash \<Rightarrow> Hash" where
  "HASHC c n = scast c + 65587 * n"

primrec hash_steps :: "nat \<Rightarrow> byte list \<Rightarrow> nat \<Rightarrow> Hash \<Rightarrow> stop + Hash \<times> nat" where
  "hash_steps 0 str i n = Inr (n, i)"
| "hash_steps (Suc k) str i n =
     (case mem_read str i of
        Inl e \<Rightarrow> Inl e
      | Inr c \<Rightarrow> hash_steps k str (i + 1) (HASHC c n))"

text \<open>
  The \<open>switch\<close> jumps into the body of the loop: the first round takes the steps from the label on
  (all eight at \<open>case 0\<close>), each further round eight.
\<close>

primrec duff_rounds :: "nat \<Rightarrow> byte list \<Rightarrow> nat \<Rightarrow> Hash \<Rightarrow> stop + Hash" where
  "duff_rounds 0 str i n = Inr n"
| "duff_rounds (Suc loop) str i n =
     (case hash_steps 8 str i n of
        Inl e \<Rightarrow> Inl e
      | Inr (n, i) \<Rightarrow> duff_rounds loop str i n)"

text \<open>
  \<open>loop\<close> is an \<open>int\<close>. One that is not positive after the cut counts down to an overflow, far beyond
  the string.
\<close>

definition MakeHash :: "byte list \<Rightarrow> ulong \<Rightarrow> stop + Hash" where
  "MakeHash str len =
     (if len > 0 then
        (let loop = to_int (drop_bit 3 (len + 8 - 1));
             entry = (if len AND 7 = 0 then 8 else unat (len AND 7))
         in if loop \<le> 0 then Inl Fault
            else
              (case hash_steps entry str 0 0 of
                 Inl e \<Rightarrow> Inl e
               | Inr (n, i) \<Rightarrow> duff_rounds (nat loop - 1) str i n))
      else Inr 0)"

section \<open>The table\<close>

datatype 'v HashSlot =
  HashSlot (leaf: bool) (slot_hash: Hash) (slot_value: 'v) (slot_table: "'v HashSlot option list option")

type_synonym 'v Table = "'v HashSlot option list"

definition TABLESIZE :: nat where
  "TABLESIZE = 256"

definition INDEXMASK :: Hash where
  "INDEXMASK = 0xFF"

definition INDEXSHIFT :: nat where
  "INDEXSHIFT = 8"

definition hash_index :: "Hash \<Rightarrow> nat" where
  "hash_index h = unat (h AND INDEXMASK)"

definition NewTable :: "'v Table" where
  "NewTable = replicate TABLESIZE None"

definition InitHash :: "'v Table" where
  "InitHash = NewTable"

text \<open>A new slot is cleared, then filled as a leaf.\<close>

definition NewHashSlot :: "'v \<Rightarrow> Hash \<Rightarrow> 'v HashSlot" where
  "NewHashSlot element h = HashSlot True h element None"

text \<open>
  \<open>SplitAndInsert\<close> inserts the old and the new element into a new table. The two calls of
  \<open>Insert\<close> on that table are unfolded here, which shows that the recursion ends: the hash values differ
  and lose an octet each time. That they are these calls is \<open>split_table_Insert\<close> below.
\<close>

function split_table :: "'v \<Rightarrow> Hash \<Rightarrow> 'v \<Rightarrow> Hash \<Rightarrow> 'v Table" where
  "split_table v0 h0 v h =
     (let table = NewTable[hash_index h0 := Some (NewHashSlot v0 h0)] in
      if hash_index h \<noteq> hash_index h0 then table[hash_index h := Some (NewHashSlot v h)]
      else if h = h0 then table
      else table[hash_index h :=
        Some (HashSlot False h0 v0 (Some (split_table v0 (drop_bit INDEXSHIFT h0) v (drop_bit INDEXSHIFT h))))])"
  by pat_completeness auto
termination
proof (relation "measure (\<lambda>(v0, h0, v, h). unat h0 + unat h)", simp)
  fix v0 v :: 'v and h0 h :: Hash and x
  assume "\<not> h = h0"
  then have "unat h0 \<noteq> 0 \<or> unat h \<noteq> 0" by (metis unat_eq_0)
  then have "unat h0 div 256 + unat h div 256 < unat h0 + unat h" by linarith
  then show "((v0, drop_bit INDEXSHIFT h0, v, drop_bit INDEXSHIFT h), v0, h0, v, h) \<in>
      measure (\<lambda>(v0, h0, v, h). unat h0 + unat h)"
    by (simp add: INDEXSHIFT_def unat_drop_bit_div)
qed

declare split_table.simps [simp del]

definition SplitAndInsert :: "'v HashSlot \<Rightarrow> 'v \<Rightarrow> Hash \<Rightarrow> 'v HashSlot" where
  "SplitAndInsert entry element h =
     HashSlot False (slot_hash entry) (slot_value entry)
       (Some (split_table (slot_value entry) (drop_bit INDEXSHIFT (slot_hash entry)) element (drop_bit INDEXSHIFT h)))"

text \<open>The size of a table, for the recursion into the tables of its slots.\<close>

abbreviation table_size :: "'v Table \<Rightarrow> nat" where
  "table_size t \<equiv> size_list (size_option size) t"

lemma sub_table_size:
  assumes "i < length t" and "t ! i = Some entry" and "slot_table entry = Some s"
  shows "table_size s < table_size t"
proof -
  have "Some entry \<in> set t" using assms(1,2) by (metis nth_mem)
  moreover have "table_size s < size_option size (Some entry)" using assms(3) by (cases entry) simp
  ultimately show ?thesis by (rule size_list_estimation)
qed

text \<open>Following the null pointer of a slot that is no leaf and has no table would be undefined.\<close>

function Insert :: "'v Table \<Rightarrow> 'v \<Rightarrow> Hash \<Rightarrow> stop + 'v Table" where
  "Insert table element h =
     (let i = hash_index h in
      if i < length table then
        (case table ! i of
           None \<Rightarrow> Inr (table[i := Some (NewHashSlot element h)])
         | Some entry \<Rightarrow>
             if h = slot_hash entry then Inr table
             else if leaf entry then Inr (table[i := Some (SplitAndInsert entry element h)])
             else
               (case slot_table entry of
                  None \<Rightarrow> Inl Fault
                | Some t \<Rightarrow>
                    map_sum id (\<lambda>t. table[i := Some (HashSlot False (slot_hash entry) (slot_value entry) (Some t))])
                      (Insert t element (drop_bit INDEXSHIFT h))))
      else Inl Fault)"
  by pat_completeness auto
termination
  by (relation "measure (\<lambda>(t, v, h). table_size t)") (auto intro: sub_table_size)

declare Insert.simps [simp del]

function CheckForAndReturnValue :: "'v Table \<Rightarrow> Hash \<Rightarrow> stop + 'v option" where
  "CheckForAndReturnValue table h =
     (let i = hash_index h in
      if i < length table then
        (case table ! i of
           None \<Rightarrow> Inr None
         | Some entry \<Rightarrow>
             if leaf entry then Inr (if slot_hash entry = h then Some (slot_value entry) else None)
             else
               (case slot_table entry of
                  None \<Rightarrow> Inl Fault
                | Some t \<Rightarrow> CheckForAndReturnValue t (drop_bit INDEXSHIFT h)))
      else Inl Fault)"
  by pat_completeness auto
termination
  by (relation "measure (\<lambda>(t, h). table_size t)") (auto intro: sub_table_size)

declare CheckForAndReturnValue.simps [simp del]

section \<open>Hashing is a fold\<close>

lemma hash_steps_fold:
  "i + k \<le> length str \<Longrightarrow>
     hash_steps k str i n = Inr (foldl (\<lambda>n c. HASHC c n) n (take k (drop i str)), i + k)"
proof (induction k arbitrary: i n)
  case (Suc k)
  then have "drop i str = str ! i # drop (Suc i) str" by (simp add: Cons_nth_drop_Suc)
  with Suc show ?case by (simp add: mem_read_def)
qed simp

lemma duff_rounds_fold:
  "i + 8 * loop \<le> length str \<Longrightarrow>
     duff_rounds loop str i n = Inr (foldl (\<lambda>n c. HASHC c n) n (take (8 * loop) (drop i str)))"
proof (induction loop arbitrary: i n)
  case (Suc loop)
  have "take (8 * Suc loop) (drop i str) = take 8 (drop i str) @ take (8 * loop) (drop (i + 8) str)"
    by (simp only: mult_Suc_right take_add drop_drop) (simp add: add.commute)
  with Suc show ?case by (simp only: duff_rounds.simps) (simp add: hash_steps_fold)
qed simp

lemma MakeHash_fold:
  assumes "unat len \<le> length str" and "unat len < 2 ^ 31"
  shows "MakeHash str len = Inr (foldl (\<lambda>n c. HASHC c n) 0 (take (unat len) str))"
proof (cases "len = 0")
  case True
  then show ?thesis by (simp add: MakeHash_def)
next
  case False
  let ?n = "unat len"
  obtain n where n: "?n = n" by simp
  have pos: "0 < n" using False n by (metis unat_eq_0 gr0I)
  define entry where "entry = (if len AND 7 = 0 then 8 else unat (len AND 7))"
  have m: "unat (len AND 7) = n mod 8"
  proof -
    have "len AND mask 3 = take_bit 3 len" by (simp add: take_bit_eq_mask)
    then have "len AND 7 = take_bit 3 len" by (simp add: mask_eq_exp_minus_1)
    then have "unat (len AND 7) = take_bit 3 ?n" by (simp only: unsigned_take_bit_eq)
    then show ?thesis unfolding n by (simp add: take_bit_eq_mod)
  qed
  then have z: "len AND 7 = 0 \<longleftrightarrow> n mod 8 = 0" by (metis unat_eq_0)
  have e: "entry = (if n mod 8 = 0 then 8 else n mod 8)" unfolding entry_def z m by simp
  have "len + 8 - 1 = len + of_nat 7" by simp
  moreover have "unat (len + of_nat 7) = n + 7" unfolding n [symmetric] by (rule unat_add_of_nat) (use assms(2) in simp)
  ultimately have "unat (drop_bit 3 (len + 8 - 1)) = (n + 7) div 8" by (simp add: unat_drop_bit_div add.commute)
  moreover have "(n + 7) div 8 < 2 ^ 31" using assms(2) n by simp
  ultimately have loop: "to_int (drop_bit 3 (len + 8 - 1)) = int ((n + 7) div 8)" by (simp add: to_int_small)
  have l: "n = entry + 8 * ((n + 7) div 8 - 1)"
  proof (cases "n mod 8 = 0")
    case True
    then obtain q where "n = 8 * q" by (auto elim: dvdE)
    then show ?thesis using pos unfolding e by simp
  next
    case False
    define q r where "q = n div 8" and "r = n mod 8"
    have "n = 8 * q + r" "0 < r" "r < 8" using False unfolding q_def r_def by simp_all
    then have "(n + 7) div 8 = n div 8 + 1" unfolding q_def [symmetric] by (intro div_nat_eqI) simp_all
    with False show ?thesis unfolding e by simp
  qed
  have one: "0 < (n + 7) div 8" using pos by simp
  have "entry \<le> length str" using l assms(1) n by linarith
  then have first: "hash_steps entry str 0 0 = Inr (foldl (\<lambda>n c. HASHC c n) 0 (take entry str), entry)"
    using hash_steps_fold [of 0 entry str 0] by simp
  have "duff_rounds ((n + 7) div 8 - 1) str entry (foldl (\<lambda>n c. HASHC c n) 0 (take entry str)) =
      Inr (foldl (\<lambda>n c. HASHC c n) (foldl (\<lambda>n c. HASHC c n) 0 (take entry str)) (take (8 * ((n + 7) div 8 - 1)) (drop entry str)))"
    by (rule duff_rounds_fold) (use l assms(1) n in linarith)
  also have "\<dots> = Inr (foldl (\<lambda>n c. HASHC c n) 0 (take n str))"
    by (subst (2) l) (simp add: take_add foldl_append)
  finally show ?thesis
    using False first one loop unfolding MakeHash_def n entry_def [symmetric] Let_def
    by (simp add: nat_diff_distrib' word_gt_0 del: of_nat_div)
qed

section \<open>The table is a map\<close>

text \<open>
  Well-formed: 256 slots, each hash value in the slot of its low octet, and below a slot that is no leaf a
  well-formed table that has the hash value of the slot.
\<close>

inductive wf_table :: "'v Table \<Rightarrow> bool" where
  "length t = TABLESIZE \<Longrightarrow>
   (\<And>i entry. i < TABLESIZE \<Longrightarrow> t ! i = Some entry \<Longrightarrow>
      hash_index (slot_hash entry) = i \<and>
      (leaf entry \<or>
       (\<exists>s. slot_table entry = Some s \<and> wf_table s \<and>
          CheckForAndReturnValue s (drop_bit INDEXSHIFT (slot_hash entry)) \<noteq> Inr None))) \<Longrightarrow>
   wf_table t"

inductive_cases wf_table_cases: "wf_table t"

lemma hash_index_less: "hash_index h < TABLESIZE"
proof -
  have "h AND INDEXMASK = take_bit 8 h" by (simp add: INDEXMASK_def take_bit_eq_mask mask_eq_exp_minus_1)
  then have "hash_index h = take_bit 8 (unat h)" by (simp only: hash_index_def unsigned_take_bit_eq)
  also have "\<dots> < 2 ^ 8" by (rule take_bit_nat_less_exp)
  finally show ?thesis by (simp add: TABLESIZE_def)
qed

lemma hash_split: "hash_index h = hash_index k \<Longrightarrow> drop_bit INDEXSHIFT h = drop_bit INDEXSHIFT k \<Longrightarrow> h = k"
proof -
  assume i: "hash_index h = hash_index k" and d: "drop_bit INDEXSHIFT h = drop_bit INDEXSHIFT k"
  have m: "h AND INDEXMASK = take_bit 8 h" for h by (simp add: INDEXMASK_def take_bit_eq_mask mask_eq_exp_minus_1)
  have "take_bit 8 h = take_bit 8 k" using i by (simp add: hash_index_def m word_unat_eq_iff)
  then have low: "bit (take_bit 8 h) n = bit (take_bit 8 k) n" for n by (simp only:)
  have high: "bit (drop_bit 8 h) n = bit (drop_bit 8 k) n" for n using d by (simp only: INDEXSHIFT_def)
  show "h = k"
  proof (rule bit_word_eqI)
    fix n :: nat
    show "bit h n = bit k n"
      using low [of n] high [of "n - 8"] by (cases "n < 8") (simp_all add: bit_take_bit_iff bit_drop_bit_eq)
  qed
qed

lemma length_NewTable [simp]: "length NewTable = TABLESIZE" "i < TABLESIZE \<Longrightarrow> NewTable ! i = None"
  by (simp_all add: NewTable_def)

lemma CheckFor_NewTable: "CheckForAndReturnValue NewTable h = Inr None"
  using hash_index_less [of h] by (subst CheckForAndReturnValue.simps) simp

lemma wf_NewTable: "wf_table NewTable"
  by (rule wf_table.intros) simp_all

text \<open>A lookup in a table in which one slot has been set.\<close>

lemma CheckFor_update:
  assumes "length t = TABLESIZE"
  shows "CheckForAndReturnValue (t[hash_index h := Some e]) k =
    (if hash_index k = hash_index h then
       (if leaf e then Inr (if slot_hash e = k then Some (slot_value e) else None)
        else (case slot_table e of None \<Rightarrow> Inl Fault | Some s \<Rightarrow> CheckForAndReturnValue s (drop_bit INDEXSHIFT k)))
     else CheckForAndReturnValue t k)"
  using assms hash_index_less [of h] hash_index_less [of k]
  by (subst (1 3) CheckForAndReturnValue.simps) simp

lemma wf_update:
  assumes "wf_table t" and "slot_hash e = h'" and "hash_index h' = hash_index h"
    and "leaf e \<or> (\<exists>s. slot_table e = Some s \<and> wf_table s \<and> CheckForAndReturnValue s (drop_bit INDEXSHIFT h') \<noteq> Inr None)"
  shows "wf_table (t[hash_index h := Some e])"
proof -
  have l: "length t = TABLESIZE" using assms(1) by (rule wf_table_cases)
  have o: "hash_index (slot_hash entry) = i \<and> (leaf entry \<or> (\<exists>s. slot_table entry = Some s \<and> wf_table s \<and>
      CheckForAndReturnValue s (drop_bit INDEXSHIFT (slot_hash entry)) \<noteq> Inr None))"
    if "i < TABLESIZE" "t ! i = Some entry" for i entry
    using assms(1) by (rule wf_table_cases) (use that in blast)
  show ?thesis
  proof (rule wf_table.intros)
    show "length (t[hash_index h := Some e]) = TABLESIZE" using l by simp
    fix i entry assume i: "i < TABLESIZE" "t[hash_index h := Some e] ! i = Some entry"
    show "hash_index (slot_hash entry) = i \<and> (leaf entry \<or> (\<exists>s. slot_table entry = Some s \<and> wf_table s \<and>
      CheckForAndReturnValue s (drop_bit INDEXSHIFT (slot_hash entry)) \<noteq> Inr None))"
    proof (cases "i = hash_index h")
      case True
      then have "entry = e" using i l by simp
      then show ?thesis using assms(2-4) True by simp
    next
      case False
      then show ?thesis using o i by simp
    qed
  qed
qed

lemma leaf_table:
  "wf_table t \<Longrightarrow> wf_table (t[hash_index h := Some (NewHashSlot v h)])"
  by (rule wf_update) (simp_all add: NewHashSlot_def)

text \<open>The table that \<open>SplitAndInsert\<close> builds holds the two elements.\<close>

lemma split_table_map:
  assumes "h \<noteq> h0"
  shows "wf_table (split_table v0 h0 v h) \<and>
    (\<forall>k. CheckForAndReturnValue (split_table v0 h0 v h) k =
      Inr (if k = h0 then Some v0 else if k = h then Some v else None))"
  using assms
proof (induction v0 h0 v h rule: split_table.induct)
  case (1 v0 h0 v h)
  let ?t = "NewTable[hash_index h0 := Some (NewHashSlot v0 h0)]"
  have t: "wf_table ?t" by (rule leaf_table [OF wf_NewTable])
  have look: "CheckForAndReturnValue ?t k = Inr (if k = h0 then Some v0 else None)" for k
    by (simp add: CheckFor_update NewHashSlot_def CheckFor_NewTable)
  show ?case
  proof (cases "hash_index h = hash_index h0")
    case False
    then have "split_table v0 h0 v h = ?t[hash_index h := Some (NewHashSlot v h)]"
      by (subst split_table.simps) simp
    then show ?thesis
      using False leaf_table [OF t, of h v] "1.prems"
      by (auto simp: CheckFor_update [of ?t] look) (simp_all add: NewHashSlot_def)
  next
    case True
    let ?s = "split_table v0 (drop_bit INDEXSHIFT h0) v (drop_bit INDEXSHIFT h)"
    have d: "drop_bit INDEXSHIFT h \<noteq> drop_bit INDEXSHIFT h0" using True "1.prems" hash_split by blast
    then have s: "wf_table ?s" "CheckForAndReturnValue ?s k =
        Inr (if k = drop_bit INDEXSHIFT h0 then Some v0 else if k = drop_bit INDEXSHIFT h then Some v else None)" for k
      using "1.IH" [OF refl _ "1.prems" d] True by auto
    let ?e = "HashSlot False h0 v0 (Some ?s)"
    have e: "split_table v0 h0 v h = ?t[hash_index h := Some ?e]"
      using True "1.prems" by (subst split_table.simps) simp
    have "wf_table (?t[hash_index h := Some ?e])"
      by (rule wf_update [OF t, of _ h0]) (use True s(1) s(2) [of "drop_bit INDEXSHIFT h0"] in simp_all)
    moreover have "CheckForAndReturnValue (?t[hash_index h := Some ?e]) k =
        Inr (if k = h0 then Some v0 else if k = h then Some v else None)" for k
    proof (cases "hash_index k = hash_index h")
      case same: True
      then have "drop_bit INDEXSHIFT k = drop_bit INDEXSHIFT h0 \<longleftrightarrow> k = h0" "drop_bit INDEXSHIFT k = drop_bit INDEXSHIFT h \<longleftrightarrow> k = h"
        using True hash_split by metis+
      with same show ?thesis by (simp add: CheckFor_update [of ?t] s(2))
    next
      case False
      then have "k \<noteq> h0" "k \<noteq> h" using True by auto
      with False show ?thesis by (simp add: CheckFor_update [of ?t] look)
    qed
    ultimately show ?thesis unfolding e by blast
  qed
qed

text \<open>It is what the two calls of \<open>Insert\<close> on a new table give.\<close>

lemma Insert_NewTable: "Insert NewTable v h = Inr (NewTable[hash_index h := Some (NewHashSlot v h)])"
  using hash_index_less [of h] by (subst Insert.simps) simp

lemma split_table_Insert:
  "Insert (NewTable[hash_index h0 := Some (NewHashSlot v0 h0)]) v h = Inr (split_table v0 h0 v h)"
proof (cases "hash_index h = hash_index h0")
  case False
  then show ?thesis
    using hash_index_less [of h] by (subst Insert.simps, subst split_table.simps) simp
next
  case True
  have "split_table v0 h0 v h = (let table = NewTable[hash_index h0 := Some (NewHashSlot v0 h0)] in
      if h = h0 then table else table[hash_index h := Some (SplitAndInsert (NewHashSlot v0 h0) v h)])"
    using True by (subst split_table.simps) (simp add: SplitAndInsert_def NewHashSlot_def Let_def)
  then show ?thesis
    using hash_index_less [of h0] True by (subst Insert.simps) (simp add: Let_def NewHashSlot_def)
qed

text \<open>\<open>Insert\<close> on a well-formed table adds the element, unless its hash value is there already.\<close>

lemma lookup_total:
  assumes "wf_table t"
  obtains r where "CheckForAndReturnValue t k = Inr r"
proof -
  have "\<exists>r. CheckForAndReturnValue t k = Inr r"
    using assms
  proof (induction arbitrary: k rule: wf_table.induct)
    case (1 t)
    show ?case
    proof (cases "t ! hash_index k")
      case None
      then show ?thesis using 1(1) hash_index_less [of k] by (subst CheckForAndReturnValue.simps) simp
    next
      case (Some entry)
      from 1(2) [OF hash_index_less Some] consider "leaf entry"
        | s where "slot_table entry = Some s" "\<forall>k. \<exists>r. CheckForAndReturnValue s k = Inr r" by blast
      then show ?thesis
        using 1(1) hash_index_less [of k] Some by cases (subst CheckForAndReturnValue.simps, simp)+
    qed
  qed
  then show thesis using that by blast
qed

definition table_map :: "'v Table \<Rightarrow> Hash \<rightharpoonup> 'v" where
  "table_map t k = (case CheckForAndReturnValue t k of Inl e \<Rightarrow> None | Inr r \<Rightarrow> r)"

lemma lookup_map: "wf_table t \<Longrightarrow> CheckForAndReturnValue t k = Inr (table_map t k)"
  by (rule lookup_total [of t k]) (simp_all add: table_map_def)

lemma Insert_map:
  assumes "wf_table t"
  shows "\<exists>t'. Insert t v h = Inr t' \<and> wf_table t' \<and>
    table_map t' = (if h \<in> dom (table_map t) then table_map t else (table_map t)(h \<mapsto> v))"
  using assms
proof (induction arbitrary: h rule: wf_table.induct)
  case (1 t)
  have t: "wf_table t"
  proof (rule wf_table.intros [OF 1(1)])
    fix i entry assume "i < TABLESIZE" "t ! i = Some entry"
    from 1(2) [OF this] show "hash_index (slot_hash entry) = i \<and> (leaf entry \<or> (\<exists>s. slot_table entry = Some s \<and>
        wf_table s \<and> CheckForAndReturnValue s (drop_bit INDEXSHIFT (slot_hash entry)) \<noteq> Inr None))" by blast
  qed
  have l: "hash_index h < length t" using 1(1) hash_index_less [of h] by simp
  note upd = CheckFor_update [OF 1(1), of h]
  show ?case
  proof (cases "t ! hash_index h")
    case None
    then have look: "table_map t k = None" if "hash_index k = hash_index h" for k
      using l that by (simp add: table_map_def CheckForAndReturnValue.simps [of t k])
    have "Insert t v h = Inr (t[hash_index h := Some (NewHashSlot v h)])"
      using None l by (subst Insert.simps) simp
    moreover have "table_map (t[hash_index h := Some (NewHashSlot v h)]) = (table_map t)(h \<mapsto> v)"
      by (rule ext) (simp add: table_map_def upd NewHashSlot_def look [unfolded table_map_def])
    ultimately show ?thesis using leaf_table [OF t] look [of h] by (auto simp: dom_def)
  next
    case (Some entry)
    have i: "hash_index (slot_hash entry) = hash_index h" using 1(2) [OF hash_index_less Some] by simp
    show ?thesis
    proof (cases "h = slot_hash entry")
      case same: True
      note look = CheckForAndReturnValue.simps [of t "slot_hash entry"]
      have "table_map t h \<noteq> None"
      proof (cases "leaf entry")
        case True
        then show ?thesis using same Some l by (simp add: table_map_def look)
      next
        case False
        then obtain s where s: "slot_table entry = Some s" "wf_table s"
            "CheckForAndReturnValue s (drop_bit INDEXSHIFT (slot_hash entry)) \<noteq> Inr None"
          using 1(2) [OF hash_index_less Some] by blast
        have "CheckForAndReturnValue t (slot_hash entry) = CheckForAndReturnValue s (drop_bit INDEXSHIFT (slot_hash entry))"
          unfolding look using False Some l i s(1) by simp
        then have "CheckForAndReturnValue t h \<noteq> Inr None" using s(3) same by simp
        then show ?thesis unfolding lookup_map [OF t] by simp
      qed
      moreover have "Insert t v h = Inr t" using same Some l by (subst Insert.simps) simp
      ultimately show ?thesis using t by (auto simp: dom_def)
    next
      case new: False
      then have d: "drop_bit INDEXSHIFT h \<noteq> drop_bit INDEXSHIFT (slot_hash entry)" using i hash_split by metis
      have shift: "drop_bit INDEXSHIFT k = drop_bit INDEXSHIFT h \<longleftrightarrow> k = h"
        "drop_bit INDEXSHIFT k = drop_bit INDEXSHIFT (slot_hash entry) \<longleftrightarrow> k = slot_hash entry"
        if "hash_index k = hash_index h" for k
        using that i hash_split by metis+
      show ?thesis
      proof (cases "leaf entry")
        case True
        have look: "table_map t k = (if slot_hash entry = k then Some (slot_value entry) else None)"
          if "hash_index k = hash_index h" for k
          using True Some l that by (simp add: table_map_def CheckForAndReturnValue.simps [of t k])
        let ?s = "split_table (slot_value entry) (drop_bit INDEXSHIFT (slot_hash entry)) v (drop_bit INDEXSHIFT h)"
        note s = split_table_map [OF d, of "slot_value entry" v]
        have "Insert t v h = Inr (t[hash_index h := Some (SplitAndInsert entry v h)])"
          using True Some l new by (subst Insert.simps) simp
        moreover have "wf_table (t[hash_index h := Some (SplitAndInsert entry v h)])"
          by (rule wf_update [OF t, of _ "slot_hash entry"]) (use s i in \<open>simp_all add: SplitAndInsert_def\<close>)
        moreover have "table_map (t[hash_index h := Some (SplitAndInsert entry v h)]) = (table_map t)(h \<mapsto> v)"
        proof
          fix k
          show "table_map (t[hash_index h := Some (SplitAndInsert entry v h)]) k = ((table_map t)(h \<mapsto> v)) k"
          proof (cases "hash_index k = hash_index h")
            case same: True
            then have "CheckForAndReturnValue (t[hash_index h := Some (SplitAndInsert entry v h)]) k =
                Inr (if k = slot_hash entry then Some (slot_value entry) else if k = h then Some v else None)"
              using s shift [OF same] by (simp add: upd SplitAndInsert_def)
            then show ?thesis using look [OF same] new by (simp add: table_map_def)
          next
            case False
            then show ?thesis by (auto simp: table_map_def upd)
          qed
        qed
        ultimately show ?thesis using look [OF refl] new by (auto simp: dom_def)
      next
        case False
        then obtain s where s: "slot_table entry = Some s" "wf_table s"
            "CheckForAndReturnValue s (drop_bit INDEXSHIFT (slot_hash entry)) \<noteq> Inr None"
            "\<And>h. \<exists>t'. Insert s v h = Inr t' \<and> wf_table t' \<and>
              table_map t' = (if h \<in> dom (table_map s) then table_map s else (table_map s)(h \<mapsto> v))"
          using 1(2) [OF hash_index_less Some] by blast
        have look: "table_map t k = table_map s (drop_bit INDEXSHIFT k)" if "hash_index k = hash_index h" for k
          using False Some l that s(1) by (simp add: table_map_def CheckForAndReturnValue.simps [of t k])
        obtain s' where s': "Insert s v (drop_bit INDEXSHIFT h) = Inr s'" "wf_table s'"
            "table_map s' = (if drop_bit INDEXSHIFT h \<in> dom (table_map s) then table_map s
               else (table_map s)(drop_bit INDEXSHIFT h \<mapsto> v))"
          using s(4) by blast
        let ?e = "HashSlot False (slot_hash entry) (slot_value entry) (Some s')"
        have "Insert t v h = Inr (t[hash_index h := Some ?e])"
          using False Some l new s(1) s'(1) by (subst Insert.simps) simp
        moreover have "table_map s (drop_bit INDEXSHIFT (slot_hash entry)) \<noteq> None"
          using s(3) lookup_map [OF s(2)] by simp
        then have "table_map s' (drop_bit INDEXSHIFT (slot_hash entry)) \<noteq> None"
          using s'(3) by simp
        then have "wf_table (t[hash_index h := Some ?e])"
          by (intro wf_update [OF t, of _ "slot_hash entry"]) (use i s'(2) lookup_map [OF s'(2)] in simp_all)
        moreover have "table_map (t[hash_index h := Some ?e]) =
            (if h \<in> dom (table_map t) then table_map t else (table_map t)(h \<mapsto> v))"
        proof
          fix k
          show "table_map (t[hash_index h := Some ?e]) k =
              (if h \<in> dom (table_map t) then table_map t else (table_map t)(h \<mapsto> v)) k"
          proof (cases "hash_index k = hash_index h")
            case same: True
            then have "table_map (t[hash_index h := Some ?e]) k = table_map s' (drop_bit INDEXSHIFT k)"
              by (simp add: table_map_def upd)
            then show ?thesis using look [OF same] look [OF refl] shift(1) [OF same] by (simp add: s'(3) dom_def)
          next
            case other: False
            then show ?thesis by (auto simp: table_map_def upd)
          qed
        qed
        ultimately show ?thesis by blast
      qed
    qed
  qed
qed

section \<open>Hashing as a polynomial, insertion as a map\<close>

lemma hash_fold_polynomial:
  "foldl (\<lambda>n c. HASHC c n) n0 xs =
    65587 ^ length xs * n0 + (\<Sum>i<length xs. scast (xs ! i) * 65587 ^ (length xs - 1 - i))"
proof (induction xs rule: rev_induct)
  case (snoc x xs)
  have "(\<Sum>i<length xs. scast (xs ! i) * 65587 ^ (length xs - i)) =
      (65587 :: Hash) * (\<Sum>i<length xs. scast (xs ! i) * 65587 ^ (length xs - 1 - i))"
    unfolding sum_distrib_left
  proof (rule sum.cong [OF refl])
    fix i assume "i \<in> {..<length xs}"
    then have "length xs - i = Suc (length xs - 1 - i)" by simp
    then show "scast (xs ! i) * 65587 ^ (length xs - i) = (65587 :: Hash) * (scast (xs ! i) * 65587 ^ (length xs - 1 - i))"
      by simp
  qed
  then show ?case using snoc.IH by (simp add: HASHC_def nth_append algebra_simps)
qed simp

text \<open>A client that enters a list of elements in order, as the table of ANY types is filled.\<close>

primrec Insert_all :: "(Hash \<times> 'v) list \<Rightarrow> 'v Table \<Rightarrow> stop + 'v Table" where
  "Insert_all [] t = Inr t"
| "Insert_all (e # es) t = (case Insert t (snd e) (fst e) of Inl err \<Rightarrow> Inl err | Inr t \<Rightarrow> Insert_all es t)"

lemma Insert_all_map:
  "wf_table t \<Longrightarrow> \<exists>t'. Insert_all es t = Inr t' \<and> wf_table t' \<and> table_map t' = map_of es ++ table_map t"
proof (induction es arbitrary: t)
  case (Cons e es)
  from Insert_map [OF Cons.prems, of "snd e" "fst e"] obtain t' where
    t': "Insert t (snd e) (fst e) = Inr t'" "wf_table t'"
      "table_map t' = (if fst e \<in> dom (table_map t) then table_map t else (table_map t)(fst e \<mapsto> snd e))" by blast
  have "map_of es ++ table_map t' = map_of (e # es) ++ table_map t"
    unfolding t'(3) by (rule ext) (auto simp: map_add_def dom_def split: option.split)
  then have "Insert_all (e # es) t = Insert_all es t'" "map_of (e # es) ++ table_map t = map_of es ++ table_map t'"
    using t'(1) by simp_all
  with Cons.IH [OF t'(2)] show ?case by (simp only:)
qed simp

lemma table_map_InitHash: "wf_table InitHash" "table_map InitHash = Map.empty"
  by (simp_all add: InitHash_def wf_NewTable table_map_def CheckFor_NewTable fun_eq_iff)

end
