(* ===== verification/Nibble_Alloc.thy ===== *)
theory Nibble_Alloc
  imports Prelude
begin

text \<open>
  The allocator of decoded values, \<open>c-lib/src/nibble-alloc.c\<close>: buffers that are filled from
  the front and freed together. The global \<open>nmG\<close> is the state of the programs; the chain of buffers
  is a zipper around \<open>currNibbleBuf\<close>; a buffer is its octets and the offset of \<open>curr\<close>
  (\<open>start\<close> is offset 0, \<open>end\<close> the number of octets). \<open>malloc\<close> is assumed to
  succeed, so that a buffer is smaller than \<open>2 ^ 63\<close> octets; what it returns is cleared at once.
\<close>

section \<open>The allocator\<close>

record NibbleBuf =
  nb_data :: "byte list"
  nb_curr :: nat

record NibbleMem =
  earlierBufs :: "NibbleBuf list"
  currNibbleBuf :: NibbleBuf
  laterBufs :: "NibbleBuf list"
  incrementSize :: ulong

definition newNibbleBuf :: "ulong \<Rightarrow> NibbleBuf" where
  "newNibbleBuf n = \<lparr>nb_data = replicate (unat n) 0, nb_curr = 0\<rparr>"

definition InitNibbleMem :: "ulong \<Rightarrow> ulong \<Rightarrow> (NibbleMem option, unit) prog" where
  "InitNibbleMem initialSize increment =
     (\<lambda>nmG. (Inr (), Some \<lparr>earlierBufs = [], currNibbleBuf = newNibbleBuf initialSize, laterBufs = [],
       incrementSize = increment\<rparr>))"

text \<open>Linking the new buffer in overwrites \<open>next\<close>: what followed is lost.\<close>

definition ServiceNibbleFault :: "ulong \<Rightarrow> (NibbleMem option, unit) prog" where
  "ServiceNibbleFault sz =
     (\<lambda>nmG. case nmG of
        None \<Rightarrow> (Inl Fault, nmG)
      | Some nm \<Rightarrow>
          let newBufSize = (if sz > incrementSize nm then sz else incrementSize nm) in
          (Inr (), Some (nm\<lparr>earlierBufs := earlierBufs nm @ [currNibbleBuf nm],
             currNibbleBuf := newNibbleBuf newBufSize, laterBufs := []\<rparr>)))"

text \<open>An address is the number of its buffer in the chain and an offset.\<close>

type_synonym nib_ptr = "nat \<times> nat"

definition nib_advance :: "ulong \<Rightarrow> NibbleBuf \<Rightarrow> NibbleBuf" where
  "nib_advance sz b =
     (let ndiff = sz mod 8 in
      if ndiff \<noteq> 0 then
        (let curr = nb_curr b + unat (sz + 8 - ndiff) in
         b\<lparr>nb_curr := (if curr > length (nb_data b) then length (nb_data b) else curr)\<rparr>)
      else b\<lparr>nb_curr := nb_curr b + unat sz\<rparr>)"

definition NibbleAlloc :: "ulong \<Rightarrow> (NibbleMem option, nib_ptr option) prog" where
  "NibbleAlloc sz =
     (if sz > 1024 * 1024 then returnP None
      else
        bindP (\<lambda>nmG. case nmG of
            None \<Rightarrow> (Inl Fault, nmG)
          | Some nm \<Rightarrow>
              if int (length (nb_data (currNibbleBuf nm))) - int (nb_curr (currNibbleBuf nm)) < to_int sz
              then ServiceNibbleFault sz nmG else (Inr (), nmG))
          (\<lambda>_ nmG. case nmG of
            None \<Rightarrow> (Inl Fault, nmG)
          | Some nm \<Rightarrow>
              (Inr (Some (length (earlierBufs nm), nb_curr (currNibbleBuf nm))),
               Some (nm\<lparr>currNibbleBuf := nib_advance sz (currNibbleBuf nm)\<rparr>))))"

definition ResetNibbleMem :: "(NibbleMem option, unit) prog" where
  "ResetNibbleMem =
     (\<lambda>nmG. case nmG of
        None \<Rightarrow> (Inl Fault, nmG)
      | Some nm \<Rightarrow>
          let b = hd (earlierBufs nm @ [currNibbleBuf nm]) in
          (Inr (), Some (nm\<lparr>earlierBufs := [],
             currNibbleBuf := \<lparr>nb_data = replicate (nb_curr b) 0 @ drop (nb_curr b) (nb_data b), nb_curr = 0\<rparr>,
             laterBufs := []\<rparr>)))"

definition ShutdownNibbleMem :: "(NibbleMem option, unit) prog" where
  "ShutdownNibbleMem = (\<lambda>nmG. (Inr (), None))"

section \<open>The memory seen by a client\<close>

abbreviation nib_bufs :: "NibbleMem \<Rightarrow> NibbleBuf list" where
  "nib_bufs nm \<equiv> earlierBufs nm @ currNibbleBuf nm # laterBufs nm"

definition nib_load :: "nib_ptr \<Rightarrow> nat \<Rightarrow> (NibbleMem option, byte list) prog" where
  "nib_load p n =
     (\<lambda>nmG. case nmG of
        None \<Rightarrow> (Inl Fault, nmG)
      | Some nm \<Rightarrow>
          if fst p < length (nib_bufs nm) \<and> snd p + n \<le> length (nb_data (nib_bufs nm ! fst p))
          then (Inr (take n (drop (snd p) (nb_data (nib_bufs nm ! fst p)))), nmG)
          else (Inl Fault, nmG))"

definition nib_set :: "nib_ptr \<Rightarrow> byte \<Rightarrow> NibbleMem \<Rightarrow> NibbleMem" where
  "nib_set p c nm =
     (let store = (\<lambda>b. b\<lparr>nb_data := (nb_data b)[snd p := c]\<rparr>);
          k = length (earlierBufs nm)
      in if fst p < k then nm\<lparr>earlierBufs := (earlierBufs nm)[fst p := store (earlierBufs nm ! fst p)]\<rparr>
         else if fst p = k then nm\<lparr>currNibbleBuf := store (currNibbleBuf nm)\<rparr>
         else nm\<lparr>laterBufs := (laterBufs nm)[fst p - k - 1 := store (laterBufs nm ! (fst p - k - 1))]\<rparr>)"

definition nib_store :: "nib_ptr \<Rightarrow> byte \<Rightarrow> (NibbleMem option, unit) prog" where
  "nib_store p c =
     (\<lambda>nmG. case nmG of
        None \<Rightarrow> (Inl Fault, nmG)
      | Some nm \<Rightarrow>
          if fst p < length (nib_bufs nm) \<and> snd p < length (nb_data (nib_bufs nm ! fst p))
          then (Inr (), Some (nib_set p c nm)) else (Inl Fault, nmG))"

text \<open>
  What a client does: it asks for memory, writes within the objects it was given (object \<open>k\<close>,
  octet \<open>i\<close>), or gives everything back. Object \<open>k\<close> is the \<open>k\<close>-th address it holds,
  with the size it asked for. On the other side stands the memory the client thinks it has: a list of
  arrays that have nothing to do with each other.
\<close>

datatype nib_op = Ask ulong | Put nat nat byte | GiveBack | Restart ulong ulong

type_synonym nib_objects = "(nib_ptr \<times> nat) list"

definition nib_step :: "nib_op \<Rightarrow> nib_objects \<Rightarrow> (NibbleMem option, nib_objects) prog" where
  "nib_step op ps =
     (case op of
        Ask n \<Rightarrow> bindP (NibbleAlloc n) (\<lambda>r. returnP (case r of None \<Rightarrow> ps | Some p \<Rightarrow> ps @ [(p, unat n)]))
      | Put k i c \<Rightarrow>
          if k < length ps \<and> i < snd (ps ! k)
          then thenP (nib_store (fst (fst (ps ! k)), snd (fst (ps ! k)) + i) c) (returnP ps)
          else returnP ps
      | GiveBack \<Rightarrow> thenP ResetNibbleMem (returnP [])
      | Restart n inc \<Rightarrow> thenP ShutdownNibbleMem (thenP (InitNibbleMem n inc) (returnP [])))"

primrec nib_run :: "nib_op list \<Rightarrow> nib_objects \<Rightarrow> (NibbleMem option, nib_objects) prog" where
  "nib_run [] ps = returnP ps"
| "nib_run (op # ops) ps = bindP (nib_step op ps) (nib_run ops)"

primrec nib_read_all :: "nib_objects \<Rightarrow> (NibbleMem option, byte list list) prog" where
  "nib_read_all [] = returnP []"
| "nib_read_all (p # ps) =
     bindP (nib_load (fst p) (snd p)) (\<lambda>xs. bindP (nib_read_all ps) (\<lambda>xss. returnP (xs # xss)))"

fun arrays_step :: "nib_op \<Rightarrow> byte list list \<Rightarrow> byte list list" where
  "arrays_step (Ask n) xss = (if unat n > 2 ^ 20 then xss else xss @ [replicate (unat n) 0])"
| "arrays_step (Put k i c) xss =
     (if k < length xss \<and> i < length (xss ! k) then xss[k := (xss ! k)[i := c]] else xss)"
| "arrays_step GiveBack xss = []"
| "arrays_step (Restart n inc) xss = []"

section \<open>The invariant\<close>

definition nib_buf_ok :: "NibbleBuf \<Rightarrow> bool" where
  "nib_buf_ok b \<longleftrightarrow> nb_curr b \<le> length (nb_data b) \<and>
     drop (nb_curr b) (nb_data b) = replicate (length (nb_data b) - nb_curr b) 0 \<and>
     (8 dvd nb_curr b \<or> nb_curr b = length (nb_data b))"

text \<open>An object lies in the used part of its buffer and has its contents; two objects are apart.\<close>

definition nib_holds :: "NibbleBuf list \<Rightarrow> nib_ptr \<times> nat \<Rightarrow> byte list \<Rightarrow> bool" where
  "nib_holds bs p xs \<longleftrightarrow> fst (fst p) < length bs \<and>
     snd (fst p) + snd p \<le> nb_curr (bs ! fst (fst p)) \<and>
     take (snd p) (drop (snd (fst p)) (nb_data (bs ! fst (fst p)))) = xs"

definition nib_apart :: "nib_ptr \<times> nat \<Rightarrow> nib_ptr \<times> nat \<Rightarrow> bool" where
  "nib_apart p q \<longleftrightarrow> fst (fst p) \<noteq> fst (fst q) \<or>
     snd (fst p) + snd p \<le> snd (fst q) \<or> snd (fst q) + snd q \<le> snd (fst p)"

definition nib_inv :: "NibbleMem option \<Rightarrow> nib_objects \<Rightarrow> byte list list \<Rightarrow> bool" where
  "nib_inv nmG ps xss \<longleftrightarrow> (case nmG of None \<Rightarrow> False | Some nm \<Rightarrow>
     laterBufs nm = [] \<and> list_all nib_buf_ok (nib_bufs nm) \<and>
     list_all2 (nib_holds (nib_bufs nm)) ps xss \<and> sorted_wrt nib_apart ps)"

lemma newNibbleBuf_ok: "nib_buf_ok (newNibbleBuf n)"
  by (simp add: nib_buf_ok_def newNibbleBuf_def)

lemma rounded_size:
  assumes "unat (sz :: ulong) \<le> 2 ^ 20"
  shows "sz mod 8 = 0 \<longleftrightarrow> unat sz mod 8 = 0" and "unat (sz + 8 - sz mod 8) = unat sz + 8 - unat sz mod 8"
proof -
  define s where "s = unat sz"
  then have s: "sz = of_nat s" "unat sz = s" by simp_all
  have u: "unat (sz mod 8) = s mod 8" unfolding s(2) [symmetric] by (simp add: unat_mod_distrib)
  have m: "sz mod 8 = of_nat (s mod 8)" unfolding u [symmetric] by simp
  from u have "unat (sz mod 8) = s mod 8" .
  then show "sz mod 8 = 0 \<longleftrightarrow> unat sz mod 8 = 0" unfolding s(2) by (metis unat_eq_0)
  have "sz + 8 - sz mod 8 = of_nat (s + 8 - s mod 8)" unfolding m unfolding s(1) by (simp add: of_nat_diff trans_le_add2 less_imp_le)
  moreover have "s + 8 - s mod 8 < 2 ^ 64" using assms unfolding s(2) by simp
  ultimately show "unat (sz + 8 - sz mod 8) = unat sz + 8 - unat sz mod 8"
    using unat_of_nat_small unfolding s(2) by metis
qed

lemma nib_advance_ok:
  assumes ok: "nib_buf_ok b" and sz: "unat sz \<le> 2 ^ 20" and room: "nb_curr b + unat sz \<le> length (nb_data b)"
  shows "nb_data (nib_advance sz b) = nb_data b" and "nb_curr b + unat sz \<le> nb_curr (nib_advance sz b)"
    and "nib_buf_ok (nib_advance sz b)"
proof -
  define r where "r = unat sz + 8 - unat sz mod 8"
  define curr where "curr = (if unat sz mod 8 = 0 then nb_curr b + unat sz else min (length (nb_data b)) (nb_curr b + r))"
  have b: "nib_advance sz b = b\<lparr>nb_curr := curr\<rparr>"
    by (simp add: nib_advance_def curr_def r_def rounded_size [OF sz] Let_def)
  then show "nb_data (nib_advance sz b) = nb_data b" by simp
  have "unat sz mod 8 < 8" by simp
  then have "unat sz \<le> r" unfolding r_def by linarith
  then have le: "nb_curr b + unat sz \<le> curr" and max: "curr \<le> length (nb_data b)"
    using room by (simp_all add: curr_def min_def)
  with b show "nb_curr b + unat sz \<le> nb_curr (nib_advance sz b)" by simp
  have "drop curr (nb_data b) = drop (curr - nb_curr b) (drop (nb_curr b) (nb_data b))" using le by simp
  also have "\<dots> = replicate (length (nb_data b) - curr) 0" using ok le unfolding nib_buf_ok_def by simp
  finally have z: "drop curr (nb_data b) = replicate (length (nb_data b) - curr) 0" .
  have "r = unat sz - unat sz mod 8 + 8" by (simp add: r_def)
  then have "8 dvd r" by (metis dvd_add dvd_minus_mod dvd_refl)
  then have "8 dvd curr \<or> curr = length (nb_data b)"
    using ok room unfolding nib_buf_ok_def curr_def by (auto simp: min_def dvd_eq_mod_eq_0 [symmetric])
  with z max show "nib_buf_ok (nib_advance sz b)" unfolding b nib_buf_ok_def by simp
qed

text \<open>An allocation keeps what is there, and hands out space that is clear and apart from the rest.\<close>

lemma nib_holds_advance:
  assumes "nib_holds bs p xs" and "k < length bs" and "nb_data b = nb_data (bs ! k)" and "nb_curr (bs ! k) \<le> nb_curr b"
  shows "nib_holds (bs[k := b]) p xs"
  using assms by (cases "k = fst (fst p)") (auto simp: nib_holds_def)

lemma nib_holds_append: "nib_holds bs p xs \<Longrightarrow> nib_holds (bs @ bs') p xs"
  by (auto simp: nib_holds_def nth_append)

text \<open>The buffer an allocation ends up with: the current one, or a new one.\<close>

definition nib_served :: "ulong \<Rightarrow> NibbleMem \<Rightarrow> NibbleMem" where
  "nib_served sz nm =
     (if nb_curr (currNibbleBuf nm) + unat sz \<le> length (nb_data (currNibbleBuf nm)) then nm
      else nm\<lparr>earlierBufs := earlierBufs nm @ [currNibbleBuf nm],
        currNibbleBuf := newNibbleBuf (max sz (incrementSize nm)), laterBufs := []\<rparr>)"

lemma NibbleAlloc_served:
  assumes "unat sz \<le> 2 ^ 20"
  shows "NibbleAlloc sz (Some nm) =
    (let nm' = nib_served sz nm in
     (Inr (Some (length (earlierBufs nm'), nb_curr (currNibbleBuf nm'))),
      Some (nm'\<lparr>currNibbleBuf := nib_advance sz (currNibbleBuf nm')\<rparr>)))"
proof -
  have "\<not> sz > 1024 * 1024" using assms by (simp add: word_less_nat_alt)
  moreover obtain n where n: "unat sz = n" by simp
  then have "to_int sz = int n" using assms by (simp only: n [symmetric]) (intro to_int_small, simp)
  then have "int (length (nb_data b)) - int (nb_curr b) < to_int sz \<longleftrightarrow> \<not> nb_curr b + unat sz \<le> length (nb_data b)" for b :: NibbleBuf
    unfolding n by linarith
  ultimately show ?thesis
    by (simp add: NibbleAlloc_def nib_served_def ServiceNibbleFault_def bindP_run max_def Let_def
        word_less_nat_alt word_le_nat_alt)
qed

lemma nib_served_room:
  "nb_curr (currNibbleBuf (nib_served sz nm)) + unat sz \<le> length (nb_data (currNibbleBuf (nib_served sz nm)))"
  by (simp add: nib_served_def newNibbleBuf_def max_def word_le_nat_alt)

lemma nib_served_bufs:
  assumes "laterBufs nm = []"
  shows "laterBufs (nib_served sz nm) = []"
    and "nib_bufs (nib_served sz nm) = nib_bufs nm \<or>
      nib_bufs (nib_served sz nm) = nib_bufs nm @ [currNibbleBuf (nib_served sz nm)]"
    and "list_all nib_buf_ok (nib_bufs nm) \<Longrightarrow> list_all nib_buf_ok (nib_bufs (nib_served sz nm))"
  using assms newNibbleBuf_ok by (simp_all add: nib_served_def)

text \<open>An object of \<open>nm\<close> ends before the space handed out next begins, or lies in another buffer.\<close>

lemma nib_holds_served:
  assumes "nib_holds (nib_bufs nm) p xs" and "laterBufs nm = []"
  shows "nib_holds (nib_bufs (nib_served sz nm)) p xs"
    and "nib_apart p ((length (earlierBufs (nib_served sz nm)), nb_curr (currNibbleBuf (nib_served sz nm))), n)"
proof -
  show "nib_holds (nib_bufs (nib_served sz nm)) p xs"
    using nib_served_bufs(2) [OF assms(2), of sz] assms(1) nib_holds_append by metis
  show "nib_apart p ((length (earlierBufs (nib_served sz nm)), nb_curr (currNibbleBuf (nib_served sz nm))), n)"
    using assms by (auto simp: nib_holds_def nib_apart_def nib_served_def nth_append newNibbleBuf_def)
qed

lemma take_clear: "drop i xs = replicate (length xs - i) z \<Longrightarrow> i + n \<le> length xs \<Longrightarrow> take n (drop i xs) = replicate n z"
  by simp

lemma list_all_set: "list_all P xs \<Longrightarrow> P b \<Longrightarrow> list_all P (xs[k := b])"
  by (cases "k < length xs") (auto simp: list_all_length nth_list_update)

lemma NibbleAlloc_step:
  assumes inv: "nib_inv (Some nm) ps xss" and sz: "unat sz \<le> 2 ^ 20"
  obtains p nm' where "NibbleAlloc sz (Some nm) = (Inr (Some p), Some nm')"
    and "nib_inv (Some nm') (ps @ [(p, unat sz)]) (xss @ [replicate (unat sz) 0])"
    and "0 < unat sz \<longrightarrow> 8 dvd snd p"
proof -
  let ?s = "nib_served sz nm"
  let ?b = "currNibbleBuf ?s" and ?k = "length (earlierBufs ?s)"
  let ?n = "?s\<lparr>currNibbleBuf := nib_advance sz ?b\<rparr>"
  from inv have later: "laterBufs nm = []" and ok: "list_all nib_buf_ok (nib_bufs nm)"
    and held: "list_all2 (nib_holds (nib_bufs nm)) ps xss" and apart: "sorted_wrt nib_apart ps"
    unfolding nib_inv_def option.case by blast+
  have bufs: "nib_bufs ?n = (nib_bufs ?s)[?k := nib_advance sz ?b]" and cur: "nib_bufs ?s ! ?k = ?b"
    by (simp_all add: nth_append)
  have ok': "list_all nib_buf_ok (nib_bufs ?s)" by (rule nib_served_bufs(3) [OF later ok])
  then have "nib_buf_ok ?b" by simp
  note adv = nib_advance_ok [OF this sz nib_served_room]
  have "nib_holds (nib_bufs ?n) p xs" if "nib_holds (nib_bufs nm) p xs" for p xs
    unfolding bufs by (rule nib_holds_advance [OF nib_holds_served(1) [OF that later]]) (use adv in \<open>simp_all add: nth_append\<close>)
  then have "list_all2 (nib_holds (nib_bufs ?n)) ps xss" using held by (auto elim: list_all2_mono)
  moreover have "nib_holds (nib_bufs ?n) ((?k, nb_curr ?b), unat sz) (replicate (unat sz) 0)"
    unfolding bufs nib_holds_def using adv(1,2) \<open>nib_buf_ok ?b\<close> nib_served_room [of sz nm]
    by (simp add: nib_buf_ok_def take_clear)
  moreover have "list_all nib_buf_ok (nib_bufs ?n)" unfolding bufs by (rule list_all_set [OF ok' adv(3)])
  moreover have "\<forall>p\<in>set ps. nib_apart p ((?k, nb_curr ?b), unat sz)"
  proof
    fix p assume "p \<in> set ps"
    then obtain xs where "nib_holds (nib_bufs nm) p xs" using held by (metis list_all2_conv_all_nth in_set_conv_nth)
    then show "nib_apart p ((?k, nb_curr ?b), unat sz)" using later by (rule nib_holds_served(2))
  qed
  ultimately have "nib_inv (Some ?n) (ps @ [((?k, nb_curr ?b), unat sz)]) (xss @ [replicate (unat sz) 0])"
    using apart nib_served_bufs(1) [OF later] by (simp add: nib_inv_def sorted_wrt_append list_all2_appendI)
  moreover have "NibbleAlloc sz (Some nm) = (Inr (Some (?k, nb_curr ?b)), Some ?n)"
    using NibbleAlloc_served [OF sz] by (simp add: Let_def)
  moreover have "0 < unat sz \<longrightarrow> 8 dvd nb_curr ?b"
    using \<open>nib_buf_ok ?b\<close> nib_served_room [of sz nm] by (auto simp: nib_buf_ok_def)
  ultimately show thesis using that by simp
qed

text \<open>A write into one object leaves the others alone.\<close>

lemma nib_bufs_set:
  assumes "fst q < length (nib_bufs nm)"
  shows "nib_bufs (nib_set q c nm) = (nib_bufs nm)[fst q :=
    (nib_bufs nm ! fst q)\<lparr>nb_data := (nb_data (nib_bufs nm ! fst q))[snd q := c]\<rparr>]"
proof -
  consider "fst q < length (earlierBufs nm)" | "fst q = length (earlierBufs nm)"
    | j where "fst q = Suc (length (earlierBufs nm) + j)"
    by (metis less_imp_Suc_add linorder_neqE_nat add_Suc_right)
  then show ?thesis
    by cases (simp_all add: nib_set_def nth_append list_update_append)
qed

lemma nib_holds_set:
  assumes "nib_holds bs p xs" and "k < length bs" and "\<not> (fst (fst p) = k \<and> snd (fst p) \<le> off \<and> off < snd (fst p) + snd p)"
  shows "nib_holds (bs[k := (bs ! k)\<lparr>nb_data := (nb_data (bs ! k))[off := c]\<rparr>]) p xs"
proof (cases "fst (fst p) = k")
  case True
  then have "take (snd p) (drop (snd (fst p)) ((nb_data (bs ! k))[off := c])) = take (snd p) (drop (snd (fst p)) (nb_data (bs ! k)))"
    using assms(3) by (cases "off < snd (fst p)") (simp_all add: drop_update_swap)
  then show ?thesis using assms(1,2) True by (simp add: nib_holds_def)
next
  case False
  then show ?thesis using assms(1) by (simp add: nib_holds_def)
qed

lemma nib_holds_set_same:
  assumes "nib_holds bs p xs" and "i < snd p" and "nib_buf_ok (bs ! fst (fst p))"
  shows "nib_holds (bs[fst (fst p) := (bs ! fst (fst p))\<lparr>nb_data := (nb_data (bs ! fst (fst p)))[snd (fst p) + i := c]\<rparr>]) p (xs[i := c])"
  using assms by (auto simp: nib_holds_def nib_buf_ok_def drop_update_swap take_update_swap)

lemma nib_holds_length: "nib_holds bs p xs \<Longrightarrow> nib_buf_ok (bs ! fst (fst p)) \<Longrightarrow> length xs = snd p"
  by (auto simp: nib_holds_def nib_buf_ok_def)

lemma nib_buf_ok_set:
  assumes "nib_buf_ok b" and "off < nb_curr b"
  shows "nib_buf_ok (b\<lparr>nb_data := (nb_data b)[off := c]\<rparr>)"
  using assms by (simp add: nib_buf_ok_def)

lemma nib_store_step:
  assumes inv: "nib_inv (Some nm) ps xss" and k: "k < length ps" and i: "i < snd (ps ! k)"
  obtains nm' where "nib_store (fst (fst (ps ! k)), snd (fst (ps ! k)) + i) c (Some nm) = (Inr (), Some nm')"
    and "nib_inv (Some nm') ps (xss[k := (xss ! k)[i := c]])"
proof -
  let ?p = "ps ! k" and ?q = "(fst (fst (ps ! k)), snd (fst (ps ! k)) + i)"
  let ?m = "nib_set ?q c nm"
  from inv have later: "laterBufs nm = []" and ok: "list_all nib_buf_ok (nib_bufs nm)"
    and held: "list_all2 (nib_holds (nib_bufs nm)) ps xss" and apart: "sorted_wrt nib_apart ps"
    unfolding nib_inv_def option.case by blast+
  from held k have p: "nib_holds (nib_bufs nm) ?p (xss ! k)" by (simp add: list_all2_conv_all_nth)
  then have b: "fst (fst ?p) < length (nib_bufs nm)" and off: "snd ?q < nb_curr (nib_bufs nm ! fst (fst ?p))"
    using i by (simp_all add: nib_holds_def)
  have bok: "nib_buf_ok (nib_bufs nm ! fst (fst ?p))" using ok b unfolding list_all_length by blast
  have bufs: "nib_bufs ?m = (nib_bufs nm)[fst (fst ?p) :=
      (nib_bufs nm ! fst (fst ?p))\<lparr>nb_data := (nb_data (nib_bufs nm ! fst (fst ?p)))[snd (fst ?p) + i := c]\<rparr>]"
    using nib_bufs_set [of ?q nm c] b by simp
  have "nib_holds (nib_bufs ?m) (ps ! j) (xss[k := (xss ! k)[i := c]] ! j)" if j: "j < length ps" for j
  proof (cases "j = k")
    case True
    then show ?thesis unfolding bufs using nib_holds_set_same [OF p i bok] held k by (simp add: list_all2_lengthD)
  next
    case False
    then have "nib_apart (ps ! j) ?p \<or> nib_apart ?p (ps ! j)"
      using apart j k unfolding sorted_wrt_iff_nth_less by (metis linorder_neqE_nat)
    then have "\<not> (fst (fst (ps ! j)) = fst (fst ?p) \<and> snd (fst (ps ! j)) \<le> snd (fst ?p) + i \<and>
        snd (fst ?p) + i < snd (fst (ps ! j)) + snd (ps ! j))"
      using i by (auto simp: nib_apart_def)
    then show ?thesis
      unfolding bufs using nib_holds_set [OF _ b] held j False by (simp add: list_all2_conv_all_nth)
  qed
  then have "list_all2 (nib_holds (nib_bufs ?m)) ps (xss[k := (xss ! k)[i := c]])"
    using held by (simp add: list_all2_conv_all_nth)
  moreover have "list_all nib_buf_ok (nib_bufs ?m)"
    unfolding bufs by (rule list_all_set [OF ok nib_buf_ok_set [OF bok]]) (use off in simp)
  moreover have "laterBufs ?m = []" using later b by (auto simp: nib_set_def Let_def)
  ultimately have "nib_inv (Some ?m) ps (xss[k := (xss ! k)[i := c]])"
    using apart unfolding nib_inv_def option.case by blast
  moreover have "nib_store ?q c (Some nm) = (Inr (), Some ?m)"
    using b off bok by (simp add: nib_store_def nib_buf_ok_def)
  ultimately show thesis using that by blast
qed

text \<open>The first buffer is clear after a reset.\<close>

lemma ResetNibbleMem_step:
  assumes "nib_inv (Some nm) ps xss"
  obtains nm' where "ResetNibbleMem (Some nm) = (Inr (), Some nm')" and "nib_inv (Some nm') [] []"
proof -
  from assms have ok: "list_all nib_buf_ok (nib_bufs nm)" unfolding nib_inv_def option.case by blast
  let ?b = "hd (earlierBufs nm @ [currNibbleBuf nm])"
  have "nib_buf_ok ?b" using ok by (cases "earlierBufs nm") simp_all
  then have "nib_buf_ok \<lparr>nb_data = replicate (nb_curr ?b) 0 @ drop (nb_curr ?b) (nb_data ?b), nb_curr = 0\<rparr>"
    by (simp add: nib_buf_ok_def replicate_add [symmetric])
  then show thesis using that by (simp add: ResetNibbleMem_def nib_inv_def Let_def)
qed

lemma InitNibbleMem_inv: "\<exists>nm. InitNibbleMem n inc g = (Inr (), Some nm) \<and> nib_inv (Some nm) [] []"
  by (simp add: InitNibbleMem_def nib_inv_def newNibbleBuf_ok)

lemma nib_step_inv:
  assumes "nib_inv g ps xss"
  shows "\<exists>g' ps'. nib_step op ps g = (Inr ps', g') \<and> nib_inv g' ps' (arrays_step op xss)"
proof -
  from assms obtain nm where g: "g = Some nm" by (cases g) (simp_all add: nib_inv_def)
  show ?thesis
  proof (cases op)
    case (Ask n)
    show ?thesis
    proof (cases "unat n \<le> 2 ^ 20")
      case True
      obtain p nm' where "NibbleAlloc n (Some nm) = (Inr (Some p), Some nm')"
        "nib_inv (Some nm') (ps @ [(p, unat n)]) (xss @ [replicate (unat n) 0])"
        using NibbleAlloc_step [OF assms [unfolded g] True] by metis
      then show ?thesis using True Ask g by (simp add: nib_step_def prog_simps)
    next
      case False
      then have "n > 1024 * 1024" by (simp add: word_less_nat_alt)
      then show ?thesis using False Ask assms by (simp add: nib_step_def NibbleAlloc_def prog_simps)
    qed
  next
    case (Put k i c)
    have l: "length ps = length xss" using assms g by (auto simp: nib_inv_def dest: list_all2_lengthD)
    have li: "length (xss ! k) = snd (ps ! k)" if "k < length ps"
    proof -
      have "nib_holds (nib_bufs nm) (ps ! k) (xss ! k)" and "list_all nib_buf_ok (nib_bufs nm)"
        using assms that unfolding g nib_inv_def option.case by (auto dest: list_all2_nthD)
      then show ?thesis using nib_holds_length unfolding list_all_length nib_holds_def by metis
    qed
    show ?thesis
    proof (cases "k < length ps \<and> i < snd (ps ! k)")
      case True
      then show ?thesis using nib_store_step [OF assms [unfolded g], of k i c] l li Put g
        by (fastforce simp: nib_step_def prog_simps)
    next
      case False
      then show ?thesis using Put assms l li by (auto simp: nib_step_def prog_simps)
    qed
  next
    case GiveBack
    then show ?thesis using ResetNibbleMem_step [OF assms [unfolded g]] g by (fastforce simp: nib_step_def prog_simps)
  next
    case (Restart n inc)
    then show ?thesis using InitNibbleMem_inv [of n inc None]
      by (auto simp: nib_step_def ShutdownNibbleMem_def prog_simps)
  qed
qed

lemma nib_run_inv:
  "nib_inv g ps xss \<Longrightarrow> \<exists>g' ps'. nib_run ops ps g = (Inr ps', g') \<and> nib_inv g' ps' (fold arrays_step ops xss)"
proof (induction ops arbitrary: g ps xss)
  case (Cons op ops)
  from nib_step_inv [OF Cons.prems, of op] obtain g' ps' where
    s: "nib_step op ps g = (Inr ps', g')" "nib_inv g' ps' (arrays_step op xss)" by blast
  from Cons.IH [OF s(2)] s(1) show ?case by (auto simp: prog_simps)
qed (simp add: prog_simps)

lemma nib_read_all_inv: "nib_inv g ps xss \<Longrightarrow> nib_read_all ps g = (Inr xss, g)"
proof -
  assume inv: "nib_inv g ps xss"
  then obtain nm where g: "g = Some nm" by (cases g) (simp_all add: nib_inv_def)
  from inv have ok: "list_all nib_buf_ok (nib_bufs nm)" and held: "list_all2 (nib_holds (nib_bufs nm)) ps xss"
    unfolding g nib_inv_def option.case by blast+
  from held show ?thesis
  proof (induction rule: list_all2_induct)
    case (Cons p ps xs xss)
    have "nib_buf_ok (nib_bufs nm ! fst (fst p))" using Cons(1) ok unfolding nib_holds_def list_all_length by blast
    then have "nib_load (fst p) (snd p) g = (Inr xs, g)"
      using Cons(1) unfolding g nib_load_def option.case nib_holds_def nib_buf_ok_def by auto
    then show ?case using Cons.IH by (simp add: prog_simps)
  qed (simp add: prog_simps)
qed

end
