(* ===== verification/Asn_List.thy ===== *)
theory Asn_List
  imports Prelude
begin

text \<open>
  The doubly linked lists of \<open>c-lib/src/asn-list.c\<close>, which hold the elements of SEQUENCE OF and
  SET OF values and every list of the compiler. Nodes live in a store; an address that is not in it has
  never been allocated or has been freed, and following it is undefined. Addresses are not reused.
  An element is a pointer (0 is NULL). \<open>Asn1Alloc\<close> is \<open>Malloc\<close>, which clears what it returns, so a
  new node holds NULL until its user writes to it; it is assumed to succeed.
\<close>

section \<open>Nodes and their store\<close>

type_synonym elmt = nat
type_synonym node_ptr = "nat option"

record AsnListNode =
  node_prev :: node_ptr
  node_next :: node_ptr
  node_data :: elmt

record AsnList =
  lst_first :: node_ptr
  lst_last :: node_ptr
  lst_curr :: node_ptr
  lst_count :: "32 word"
  lst_dataSize :: "32 word"

record list_mem =
  nodes :: "nat \<Rightarrow> AsnListNode option"
  fresh :: nat

definition load_node :: "nat \<Rightarrow> (list_mem, AsnListNode) prog" where
  "load_node a = (\<lambda>m. case nodes m a of None \<Rightarrow> (Inl Fault, m) | Some n \<Rightarrow> (Inr n, m))"

definition change_node :: "nat \<Rightarrow> (AsnListNode \<Rightarrow> AsnListNode) \<Rightarrow> (list_mem, unit) prog" where
  "change_node a f =
     (\<lambda>m. case nodes m a of
        None \<Rightarrow> (Inl Fault, m)
      | Some n \<Rightarrow> (Inr (), m\<lparr>nodes := (nodes m)(a := Some (f n))\<rparr>))"

definition new_node :: "node_ptr \<Rightarrow> node_ptr \<Rightarrow> (list_mem, nat) prog" where
  "new_node p n =
     (\<lambda>m. (Inr (fresh m),
        m\<lparr>nodes := (nodes m)(fresh m := Some \<lparr>node_prev = p, node_next = n, node_data = 0\<rparr>), fresh := Suc (fresh m)\<rparr>))"

definition free_node :: "nat \<Rightarrow> (list_mem, unit) prog" where
  "free_node a =
     (\<lambda>m. case nodes m a of None \<Rightarrow> (Inl Fault, m) | Some n \<Rightarrow> (Inr (), m\<lparr>nodes := (nodes m)(a := None)\<rparr>))"

section \<open>The operations\<close>

text \<open>An operation takes and returns the list structure; addresses of data are those of their nodes.\<close>

definition AsnListInit :: "32 word \<Rightarrow> AsnList" where
  "AsnListInit dataSize =
     \<lparr>lst_first = None, lst_last = None, lst_curr = None, lst_count = 0, lst_dataSize = dataSize\<rparr>"

definition AsnListNew :: "32 word \<Rightarrow> AsnList" where
  "AsnListNew dataSize =
     \<lparr>lst_first = None, lst_last = None, lst_curr = None, lst_count = 0, lst_dataSize = dataSize\<rparr>"

definition AsnListRemove :: "AsnList \<Rightarrow> (list_mem, AsnList) prog" where
  "AsnListRemove l =
     (case lst_curr l of
        None \<Rightarrow> returnP l
      | Some c \<Rightarrow>
          bindP (load_node c) (\<lambda>n.
          bindP (case node_next n of
              Some a \<Rightarrow> thenP (change_node a (\<lambda>x. x\<lparr>node_prev := node_prev n\<rparr>)) (returnP l)
            | None \<Rightarrow> returnP (l\<lparr>lst_last := node_prev n\<rparr>)) (\<lambda>l.
          bindP (load_node c) (\<lambda>n.
          bindP (case node_prev n of
              Some a \<Rightarrow> thenP (change_node a (\<lambda>x. x\<lparr>node_next := node_next n\<rparr>)) (returnP l)
            | None \<Rightarrow> returnP (l\<lparr>lst_first := node_next n\<rparr>)) (\<lambda>l.
          bindP (load_node c) (\<lambda>n.
          thenP (free_node c)
            (returnP (l\<lparr>lst_curr := node_next n, lst_count := lst_count l - 1\<rparr>))))))))"

definition AsnListAdd :: "AsnList \<Rightarrow> (list_mem, AsnList \<times> node_ptr) prog" where
  "AsnListAdd l =
     (case lst_curr l of
        None \<Rightarrow> returnP (l, None)
      | Some c \<Rightarrow>
          bindP (load_node c) (\<lambda>n.
          bindP (new_node (Some c) (node_next n)) (\<lambda>newNode.
          bindP (case node_next n of
              Some a \<Rightarrow> thenP (change_node a (\<lambda>x. x\<lparr>node_prev := Some newNode\<rparr>)) (returnP l)
            | None \<Rightarrow> returnP (l\<lparr>lst_last := Some newNode\<rparr>)) (\<lambda>l.
          thenP (change_node c (\<lambda>x. x\<lparr>node_next := Some newNode\<rparr>))
            (returnP (l\<lparr>lst_curr := Some newNode, lst_count := lst_count l + 1\<rparr>, Some newNode))))))"

definition AsnListInsert :: "AsnList \<Rightarrow> (list_mem, AsnList \<times> node_ptr) prog" where
  "AsnListInsert l =
     (case lst_curr l of
        None \<Rightarrow> returnP (l, None)
      | Some c \<Rightarrow>
          bindP (load_node c) (\<lambda>n.
          bindP (new_node (node_prev n) (Some c)) (\<lambda>newNode.
          bindP (case node_prev n of
              Some a \<Rightarrow> thenP (change_node a (\<lambda>x. x\<lparr>node_next := Some newNode\<rparr>)) (returnP l)
            | None \<Rightarrow> returnP (l\<lparr>lst_first := Some newNode\<rparr>)) (\<lambda>l.
          thenP (change_node c (\<lambda>x. x\<lparr>node_prev := Some newNode\<rparr>))
            (returnP (l\<lparr>lst_curr := Some newNode, lst_count := lst_count l + 1\<rparr>, Some newNode))))))"

definition AsnListPrev :: "AsnList \<Rightarrow> (list_mem, AsnList \<times> node_ptr) prog" where
  "AsnListPrev l =
     (case lst_curr l of
        None \<Rightarrow> returnP (l\<lparr>lst_curr := lst_last l\<rparr>, lst_last l)
      | Some c \<Rightarrow> bindP (load_node c) (\<lambda>n. returnP (l\<lparr>lst_curr := node_prev n\<rparr>, node_prev n)))"

definition AsnListNext :: "AsnList \<Rightarrow> (list_mem, AsnList \<times> node_ptr) prog" where
  "AsnListNext l =
     (case lst_curr l of
        None \<Rightarrow> returnP (l\<lparr>lst_curr := lst_first l\<rparr>, lst_first l)
      | Some c \<Rightarrow> bindP (load_node c) (\<lambda>n. returnP (l\<lparr>lst_curr := node_next n\<rparr>, node_next n)))"

definition AsnListLast :: "AsnList \<Rightarrow> (list_mem, AsnList \<times> node_ptr) prog" where
  "AsnListLast l = returnP (l\<lparr>lst_curr := lst_last l\<rparr>, lst_last l)"

definition AsnListFirst :: "AsnList \<Rightarrow> (list_mem, AsnList \<times> node_ptr) prog" where
  "AsnListFirst l = returnP (l\<lparr>lst_curr := lst_first l\<rparr>, lst_first l)"

definition AsnListPrepend :: "AsnList \<Rightarrow> (list_mem, AsnList \<times> node_ptr) prog" where
  "AsnListPrepend l =
     bindP (new_node None (lst_first l)) (\<lambda>newNode.
     bindP (case lst_first l of
         None \<Rightarrow> returnP (l\<lparr>lst_first := Some newNode, lst_last := Some newNode\<rparr>)
       | Some a \<Rightarrow> thenP (change_node a (\<lambda>x. x\<lparr>node_prev := Some newNode\<rparr>)) (returnP (l\<lparr>lst_first := Some newNode\<rparr>))) (\<lambda>l.
     returnP (l\<lparr>lst_curr := Some newNode, lst_count := lst_count l + 1\<rparr>, Some newNode)))"

definition AsnListAppend :: "AsnList \<Rightarrow> (list_mem, AsnList \<times> node_ptr) prog" where
  "AsnListAppend l =
     bindP (new_node (lst_last l) None) (\<lambda>newNode.
     bindP (case lst_last l of
         None \<Rightarrow> returnP (l\<lparr>lst_first := Some newNode, lst_last := Some newNode\<rparr>)
       | Some a \<Rightarrow> thenP (change_node a (\<lambda>x. x\<lparr>node_next := Some newNode\<rparr>)) (returnP (l\<lparr>lst_last := Some newNode\<rparr>))) (\<lambda>l.
     returnP (l\<lparr>lst_curr := Some newNode, lst_count := lst_count l + 1\<rparr>, Some newNode)))"

definition AsnListCurr :: "AsnList \<Rightarrow> (list_mem, AsnList \<times> node_ptr) prog" where
  "AsnListCurr l = returnP (l, lst_curr l)"

definition AsnListCount :: "AsnList \<Rightarrow> 32 word" where
  "AsnListCount l = lst_count l"

definition AsnListConcat :: "AsnList \<Rightarrow> AsnList \<Rightarrow> (list_mem, AsnList) prog" where
  "AsnListConcat l1 l2 =
     (if lst_count l2 = 0 then returnP l1
      else if lst_count l1 = 0 then
        returnP (l1\<lparr>lst_count := lst_count l2, lst_last := lst_last l2, lst_first := lst_first l2,
          lst_curr := lst_first l2\<rparr>)
      else
        (case (lst_last l1, lst_first l2) of
           (Some a, Some b) \<Rightarrow>
             thenP (change_node a (\<lambda>x. x\<lparr>node_next := Some b\<rparr>))
             (thenP (change_node b (\<lambda>x. x\<lparr>node_prev := Some a\<rparr>))
             (returnP (l1\<lparr>lst_count := lst_count l1 + lst_count l2, lst_last := lst_last l2\<rparr>)))
         | _ \<Rightarrow> stopP Fault))"

text \<open>
  \<open>FOR_EACH_LIST_ELMT\<close> visits the elements from \<open>curr\<close> on and ends at the end of the list or at
  the first NULL element. The fuel is the number of nodes.
\<close>

primrec for_each :: "nat \<Rightarrow> AsnList \<Rightarrow> ('s \<Rightarrow> elmt \<Rightarrow> 's + 'r) \<Rightarrow> 's \<Rightarrow> (list_mem, AsnList \<times> ('s + 'r)) prog" where
  "for_each 0 l body s = (case lst_curr l of None \<Rightarrow> returnP (l, Inl s) | Some c \<Rightarrow> stopP NoFuel)"
| "for_each (Suc k) l body s =
     (case lst_curr l of
        None \<Rightarrow> returnP (l, Inl s)
      | Some c \<Rightarrow>
          bindP (load_node c) (\<lambda>n.
          if node_data n = 0 then returnP (l, Inl s)
          else (case body s (node_data n) of
              Inr r \<Rightarrow> returnP (l, Inr r)
            | Inl s \<Rightarrow> for_each k (l\<lparr>lst_curr := node_next n\<rparr>) body s)))"

definition GetAsnListElmtIndex :: "nat \<Rightarrow> elmt \<Rightarrow> AsnList \<Rightarrow> (list_mem, AsnList \<times> int) prog" where
  "GetAsnListElmtIndex fuel e l =
     bindP (for_each fuel (l\<lparr>lst_curr := lst_first l\<rparr>)
         (\<lambda>index x. if x = e then Inr index else Inl (index + 1)) (0 :: int)) (\<lambda>(l', r).
     returnP (l'\<lparr>lst_curr := lst_curr l\<rparr>, case r of Inr index \<Rightarrow> index | Inl _ \<Rightarrow> -1))"

definition GetAsnListElmt :: "nat \<Rightarrow> AsnList \<Rightarrow> 32 word \<Rightarrow> (list_mem, AsnList \<times> elmt) prog" where
  "GetAsnListElmt fuel l index =
     (if (ucast index :: ulong) > scast (lst_count l) then returnP (l, 0)
      else
        bindP (for_each fuel (l\<lparr>lst_curr := lst_first l\<rparr>)
            (\<lambda>currIndex x. if currIndex = (ucast index :: ulong) then Inr x else Inl (currIndex + 1)) (0 :: ulong)) (\<lambda>(l', r).
        returnP (l'\<lparr>lst_curr := lst_curr l\<rparr>, case r of Inr x \<Rightarrow> x | Inl _ \<Rightarrow> 0)))"

primrec AsnListFree_loop :: "nat \<Rightarrow> node_ptr \<Rightarrow> (list_mem, unit) prog" where
  "AsnListFree_loop 0 node = (case node of None \<Rightarrow> returnP () | Some a \<Rightarrow> stopP NoFuel)"
| "AsnListFree_loop (Suc k) node =
     (case node of
        None \<Rightarrow> returnP ()
      | Some a \<Rightarrow> bindP (load_node a) (\<lambda>n. thenP (free_node a) (AsnListFree_loop k (node_next n))))"

definition AsnListFree :: "nat \<Rightarrow> AsnList \<Rightarrow> (list_mem, unit) prog" where
  "AsnListFree fuel l = AsnListFree_loop fuel (lst_first l)"

text \<open>The client writes its element through the address it gets.\<close>

definition with_elmt :: "(AsnList \<Rightarrow> (list_mem, AsnList \<times> node_ptr) prog) \<Rightarrow> elmt \<Rightarrow> AsnList \<Rightarrow> (list_mem, AsnList \<times> node_ptr) prog" where
  "with_elmt new e l =
     bindP (new l) (\<lambda>(l, p).
     case p of
       None \<Rightarrow> returnP (l, None)
     | Some a \<Rightarrow> thenP (change_node a (\<lambda>x. x\<lparr>node_data := e\<rparr>)) (returnP (l, Some a)))"

primrec append_all :: "elmt list \<Rightarrow> AsnList \<Rightarrow> (list_mem, AsnList) prog" where
  "append_all [] l = returnP l"
| "append_all (e # es) l = bindP (with_elmt AsnListAppend e l) (\<lambda>(l, p). append_all es l)"

text \<open>
  Sorting copies the elements to an array, calls \<open>qsort\<close> of the C library (an argument here) and makes a
  new list of the result; the array is clear behind the elements that were copied. The new list and
  the old one, whose cursor has moved, are returned.
\<close>

definition AsnListSort :: "(elmt list \<Rightarrow> elmt list) \<Rightarrow> nat \<Rightarrow> AsnList option \<Rightarrow> (list_mem, (AsnList \<times> AsnList) option) prog" where
  "AsnListSort qsort fuel list =
     (case list of
        None \<Rightarrow> returnP None
      | Some l \<Rightarrow>
          let n = nat (sint (lst_count l)) in
          bindP (for_each fuel (l\<lparr>lst_curr := lst_first l\<rparr>)
              (\<lambda>sortArray x. if length sortArray < n then Inl (sortArray @ [x]) else Inr sortArray) []) (\<lambda>(l, r).
          let sortArray = (case r of Inl xs \<Rightarrow> xs | Inr xs \<Rightarrow> xs) in
          bindP (append_all (qsort (sortArray @ replicate (n - length sortArray) 0)) (AsnListNew (lst_dataSize l))) (\<lambda>ret.
          returnP (Some (ret, l)))))"

section \<open>The list in the store\<close>

primrec head_ptr :: "(nat \<times> elmt) list \<Rightarrow> node_ptr \<Rightarrow> node_ptr" where
  "head_ptr [] y = y"
| "head_ptr (a # as) y = Some (fst a)"

primrec last_ptr :: "node_ptr \<Rightarrow> (nat \<times> elmt) list \<Rightarrow> node_ptr" where
  "last_ptr p [] = p"
| "last_ptr p (a # as) = last_ptr (Some (fst a)) as"

primrec dseg :: "(nat \<Rightarrow> AsnListNode option) \<Rightarrow> node_ptr \<Rightarrow> (nat \<times> elmt) list \<Rightarrow> node_ptr \<Rightarrow> bool" where
  "dseg h p [] y \<longleftrightarrow> True"
| "dseg h p (a # as) y \<longleftrightarrow>
     h (fst a) = Some \<lparr>node_prev = p, node_next = head_ptr as y, node_data = snd a\<rparr> \<and> dseg h (Some (fst a)) as y"

text \<open>\<open>list_rep m l xs ys\<close>: the list is \<open>xs @ ys\<close>, and \<open>curr\<close> is at the head of \<open>ys\<close>.\<close>

definition list_rep :: "list_mem \<Rightarrow> AsnList \<Rightarrow> (nat \<times> elmt) list \<Rightarrow> (nat \<times> elmt) list \<Rightarrow> bool" where
  "list_rep m l xs ys \<longleftrightarrow>
     dseg (nodes m) None (xs @ ys) None \<and> distinct (map fst (xs @ ys)) \<and>
     (\<forall>a\<in>set (xs @ ys). fst a < fresh m) \<and>
     lst_first l = head_ptr (xs @ ys) None \<and> lst_last l = last_ptr None (xs @ ys) \<and>
     lst_curr l = head_ptr ys None \<and> lst_count l = of_nat (length (xs @ ys))"

lemma head_ptr_append [simp]: "head_ptr (xs @ ys) y = head_ptr xs (head_ptr ys y)"
  by (cases xs) simp_all

lemma last_ptr_append [simp]: "last_ptr p (xs @ ys) = last_ptr (last_ptr p xs) ys"
  by (induction xs arbitrary: p) simp_all

lemma dseg_append [simp]: "dseg h p (xs @ ys) y \<longleftrightarrow> dseg h p xs (head_ptr ys y) \<and> dseg h (last_ptr p xs) ys y"
  by (induction xs arbitrary: p) auto

lemma dseg_other [simp]: "a \<notin> fst ` set xs \<Longrightarrow> dseg (h(a := n)) p xs y = dseg h p xs y"
  by (induction xs arbitrary: p) auto

lemma fresh_other: "\<forall>a\<in>set as. fst a < (n :: nat) \<Longrightarrow> n \<notin> fst ` set as"
  by (induction as) auto

lemma AsnListRemove_rep:
  assumes "list_rep m l xs ((c, d) # ys)"
  shows "\<exists>m' l'. AsnListRemove l m = (Inr l', m') \<and> list_rep m' l' xs ys"
proof (cases xs rule: rev_cases)
  case Nil
  show ?thesis using assms unfolding Nil
    by (cases ys) (auto simp: AsnListRemove_def prog_simps list_rep_def load_node_def change_node_def free_node_def)
next
  case (snoc xs' p)
  show ?thesis using assms unfolding snoc
    by (cases ys) (auto simp: AsnListRemove_def prog_simps list_rep_def load_node_def change_node_def free_node_def)
qed

lemmas list_defs = prog_simps list_rep_def load_node_def change_node_def free_node_def new_node_def with_elmt_def

lemma AsnListAdd_rep:
  assumes "list_rep m l xs ((c, d) # ys)"
  shows "\<exists>m' l' a. with_elmt AsnListAdd e l m = (Inr (l', Some a), m') \<and> list_rep m' l' (xs @ [(c, d)]) ((a, e) # ys)"
proof -
  have "fresh m \<notin> fst ` set (xs @ (c, d) # ys)" by (rule fresh_other) (use assms in \<open>simp add: list_rep_def\<close>)
  then show ?thesis using assms
    by (cases ys) (auto simp: AsnListAdd_def list_defs less_Suc_eq image_Un)
qed

lemma AsnListInsert_rep:
  assumes "list_rep m l xs ((c, d) # ys)"
  shows "\<exists>m' l' a. with_elmt AsnListInsert e l m = (Inr (l', Some a), m') \<and> list_rep m' l' xs ((a, e) # (c, d) # ys)"
proof -
  have "fresh m \<notin> fst ` set (xs @ (c, d) # ys)" by (rule fresh_other) (use assms in \<open>simp add: list_rep_def\<close>)
  then show ?thesis using assms
    by (cases xs rule: rev_cases) (auto simp: AsnListInsert_def list_defs less_Suc_eq image_Un)
qed

lemma AsnListAppend_rep:
  assumes "list_rep m l xs ys"
  shows "\<exists>m' l' a. with_elmt AsnListAppend e l m = (Inr (l', Some a), m') \<and> list_rep m' l' (xs @ ys) [(a, e)] \<and>
    a = fresh m \<and> fresh m' = Suc (fresh m) \<and>
    (\<forall>b. b \<notin> fst ` set (xs @ ys) \<and> b \<noteq> fresh m \<longrightarrow> nodes m' b = nodes m b)"
proof -
  define as where "as = xs @ ys"
  have "list_rep m l xs ys \<Longrightarrow> \<forall>a\<in>set as. fst a < fresh m" by (simp add: list_rep_def as_def)
  with assms fresh_other have "fresh m \<notin> fst ` set as" by blast
  with assms show ?thesis unfolding list_rep_def as_def [symmetric]
    by (cases as rule: rev_cases) (auto simp: AsnListAppend_def list_defs less_Suc_eq image_Un)
qed

lemma AsnListPrepend_rep:
  assumes "list_rep m l xs ys"
  shows "\<exists>m' l' a. with_elmt AsnListPrepend e l m = (Inr (l', Some a), m') \<and> list_rep m' l' [] ((a, e) # xs @ ys)"
proof -
  define as where "as = xs @ ys"
  have "list_rep m l xs ys \<Longrightarrow> \<forall>a\<in>set as. fst a < fresh m" by (simp add: list_rep_def as_def)
  with assms fresh_other have "fresh m \<notin> fst ` set as" by blast
  with assms show ?thesis unfolding list_rep_def as_def [symmetric]
    by (cases as) (auto simp: AsnListPrepend_def list_defs less_Suc_eq image_Un)
qed

text \<open>Moving the cursor: off the list it stands between the last and the first node.\<close>

lemma AsnListNext_rep:
  "list_rep m l xs ((c, d) # ys) \<Longrightarrow> \<exists>l'. AsnListNext l m = (Inr (l', head_ptr ys None), m) \<and> list_rep m l' (xs @ [(c, d)]) ys"
  "list_rep m l xs [] \<Longrightarrow> \<exists>l'. AsnListNext l m = (Inr (l', head_ptr xs None), m) \<and> list_rep m l' [] xs"
  by (auto simp: AsnListNext_def list_defs)

lemma AsnListPrev_rep:
  "list_rep m l (xs @ [x]) ys \<Longrightarrow> \<exists>l'. AsnListPrev l m = (Inr (l', Some (fst x)), m) \<and> list_rep m l' xs (x # ys)"
  "list_rep m l [] ys \<Longrightarrow> \<exists>l'. AsnListPrev l m = (Inr (l', None), m) \<and> list_rep m l' ys []"
  by (cases ys; auto simp: AsnListPrev_def list_defs)+

lemma AsnListFirst_rep:
  "list_rep m l xs ys \<Longrightarrow> \<exists>l'. AsnListFirst l m = (Inr (l', head_ptr (xs @ ys) None), m) \<and> list_rep m l' [] (xs @ ys)"
  by (auto simp: AsnListFirst_def list_defs)

lemma AsnListLast_rep:
  "list_rep m l xs ys \<Longrightarrow> xs @ ys = zs @ [z] \<Longrightarrow> \<exists>l'. AsnListLast l m = (Inr (l', Some (fst z)), m) \<and> list_rep m l' zs [z]"
  "list_rep m l [] [] \<Longrightarrow> \<exists>l'. AsnListLast l m = (Inr (l', None), m) \<and> list_rep m l' [] []"
  by (auto simp: AsnListLast_def list_rep_def prog_simps simp del: append_assoc)

text \<open>Joining two lists that share no node; the cursor stays unless the first list is empty.\<close>

lemma AsnListConcat_rep:
  assumes l1: "list_rep m l1 xs ys" and l2: "list_rep m l2 zs ws"
    and apart: "fst ` set (xs @ ys) \<inter> fst ` set (zs @ ws) = {}"
    and small: "length (xs @ ys) < 2 ^ 32" "length (zs @ ws) < 2 ^ 32"
  shows "\<exists>m' l'. AsnListConcat l1 l2 m = (Inr l', m') \<and> fresh m' = fresh m \<and>
    (\<forall>b. b \<notin> fst ` set (xs @ ys @ zs @ ws) \<longrightarrow> nodes m' b = nodes m b) \<and>
    (if xs @ ys = [] then list_rep m' l' [] (zs @ ws)
     else if ys = [] then list_rep m' l' (xs @ zs @ ws) []
     else list_rep m' l' xs (ys @ zs @ ws))"
proof -
  have empty: "of_nat n = (0 :: 32 word) \<longleftrightarrow> n = 0" if "n < 2 ^ 32" for n
    using that by (auto simp: word_of_nat_eq_0_iff dest: nat_dvd_not_less)
  define as bs where "as = xs @ ys" and "bs = zs @ ws"
  have rep1: "dseg (nodes m) None as None" "distinct (map fst as)" "\<forall>a\<in>set as. fst a < fresh m"
      "lst_first l1 = head_ptr as None" "lst_last l1 = last_ptr None as" "lst_curr l1 = head_ptr ys None"
      "lst_count l1 = of_nat (length as)"
    and rep2: "dseg (nodes m) None bs None" "distinct (map fst bs)" "\<forall>a\<in>set bs. fst a < fresh m"
      "lst_first l2 = head_ptr bs None" "lst_last l2 = last_ptr None bs" "lst_count l2 = of_nat (length bs)"
    using l1 l2 unfolding list_rep_def as_def bs_def by blast+
  have c1: "lst_count l1 = 0 \<longleftrightarrow> as = []" and c2: "lst_count l2 = 0 \<longleftrightarrow> bs = []"
    using rep1(7) rep2(6) empty [OF small(1)] empty [OF small(2)] unfolding as_def [symmetric] bs_def [symmetric] by simp_all
  have disj: "fst ` set as \<inter> fst ` set bs = {}" using apart by (simp add: as_def bs_def)
  show ?thesis
  proof (cases bs)
    case Nil
    then show ?thesis using l1 c2 by (auto simp: AsnListConcat_def prog_simps bs_def)
  next
    case (Cons b bs')
    show ?thesis
    proof (cases as rule: rev_cases)
      case Nil
      then show ?thesis using rep2 c1 c2 Cons
        by (simp add: AsnListConcat_def prog_simps as_def list_rep_def bs_def [symmetric])
    next
      case (snoc as' a)
      let ?h = "(nodes m)(fst a := Some \<lparr>node_prev = last_ptr None as', node_next = Some (fst b), node_data = snd a\<rparr>,
        fst b := Some \<lparr>node_prev = Some (fst a), node_next = head_ptr bs' None, node_data = snd b\<rparr>)"
      let ?l = "l1\<lparr>lst_count := lst_count l1 + lst_count l2, lst_last := lst_last l2\<rparr>"
      have run: "AsnListConcat l1 l2 m = (Inr ?l, m\<lparr>nodes := ?h\<rparr>)"
        using c1 c2 rep1 rep2 disj Cons snoc by (auto simp: AsnListConcat_def prog_simps change_node_def)
      have seg: "dseg ?h None (as @ bs) None"
        using rep1(1,2) rep2(1,2) disj Cons snoc by (auto simp: image_Un)
      have rep: "list_rep (m\<lparr>nodes := ?h\<rparr>) ?l us vs" if "us @ vs = as @ bs" and "head_ptr vs None = head_ptr ys None" for us vs
        unfolding list_rep_def that(1) using seg rep1 rep2 disj that(2) snoc Cons by auto
      have all: "set (xs @ ys @ zs @ ws) = set as \<union> set bs" unfolding as_def bs_def by (simp add: Un_assoc)
      have "fst a \<in> fst ` set (xs @ ys @ zs @ ws)" "fst b \<in> fst ` set (xs @ ys @ zs @ ws)"
        unfolding all snoc Cons by simp_all
      then have frame: "\<forall>c. c \<notin> fst ` set (xs @ ys @ zs @ ws) \<longrightarrow> ?h c = nodes m c" by (metis fun_upd_other)
      have "if xs @ ys = [] then list_rep (m\<lparr>nodes := ?h\<rparr>) ?l [] (zs @ ws)
          else if ys = [] then list_rep (m\<lparr>nodes := ?h\<rparr>) ?l (xs @ zs @ ws) []
          else list_rep (m\<lparr>nodes := ?h\<rparr>) ?l xs (ys @ zs @ ws)"
        using rep [of "xs @ zs @ ws" "[]"] rep [of xs "ys @ zs @ ws"] snoc by (cases ys) (auto simp: as_def bs_def)
      with run frame show ?thesis by (intro exI [of _ "m\<lparr>nodes := ?h\<rparr>"] exI [of _ ?l] conjI) simp_all
    qed
  qed
qed

text \<open>Traversal from the head of a segment.\<close>

primrec body_fold :: "('s \<Rightarrow> elmt \<Rightarrow> 's + 'r) \<Rightarrow> 's \<Rightarrow> elmt list \<Rightarrow> 's + 'r" where
  "body_fold body s [] = Inl s"
| "body_fold body s (e # es) = (if e = 0 then Inl s else case body s e of Inr r \<Rightarrow> Inr r | Inl s \<Rightarrow> body_fold body s es)"

lemma for_each_rep:
  "dseg (nodes m) p as None \<Longrightarrow> length as \<le> k \<Longrightarrow>
    lst_curr l = head_ptr as None \<Longrightarrow>
    \<exists>c. for_each k l body s m = (Inr (l\<lparr>lst_curr := c\<rparr>, body_fold body s (map snd as)), m)"
proof (induction as arbitrary: p k l s)
  case Nil
  then have "l\<lparr>lst_curr := None\<rparr> = l" by simp
  with Nil show ?case by (cases k) (auto simp: prog_simps intro: exI [of _ None])
next
  case (Cons a as)
  then obtain k' where k: "k = Suc k'" "length as \<le> k'" by (cases k) simp_all
  have l: "l\<lparr>lst_curr := lst_curr l\<rparr> = l" by simp
  show ?case
  proof (cases "snd a = 0 \<or> (\<exists>r. body s (snd a) = Inr r)")
    case True
    then show ?thesis using Cons.prems k l
      by (auto simp: prog_simps load_node_def intro!: exI [of _ "lst_curr l"])
  next
    case False
    then obtain s' where s': "body s (snd a) = Inl s'" by (cases "body s (snd a)") auto
    let ?l = "l\<lparr>lst_curr := head_ptr as None\<rparr>"
    from Cons.IH [of "Some (fst a)" k' ?l s'] Cons.prems(1) k(2)
    obtain c where "for_each k' ?l body s' m = (Inr (?l\<lparr>lst_curr := c\<rparr>, body_fold body s' (map snd as)), m)"
      by auto
    then show ?thesis using Cons.prems k s' False
      by (auto simp: prog_simps load_node_def)
  qed
qed

section \<open>A list with a cursor\<close>

text \<open>
  The specification: two sequences of elements, those before the cursor and those from it on; off the
  list the second one is empty. Searches see the elements before the first NULL.
\<close>

datatype list_op =
    LRemove | LAdd elmt | LInsert elmt | LPrev | LNext | LLast | LFirst | LPrepend elmt | LAppend elmt
  | LCurr | LCount | LIndex elmt | LElmt "32 word"

datatype list_res = Elmt "elmt option" | Num int

fun cursor_move :: "list_op \<Rightarrow> elmt list \<times> elmt list \<Rightarrow> elmt list \<times> elmt list" where
  "cursor_move LRemove (us, vs) = (us, tl vs)"
| "cursor_move (LAdd e) (us, vs) = (if vs = [] then (us, vs) else (us @ [hd vs], e # tl vs))"
| "cursor_move (LInsert e) (us, vs) = (if vs = [] then (us, vs) else (us, e # vs))"
| "cursor_move LPrev (us, vs) = (if us = [] then (vs, []) else (butlast us, last us # vs))"
| "cursor_move LNext (us, vs) = (if vs = [] then ([], us) else (us @ [hd vs], tl vs))"
| "cursor_move LLast (us, vs) = (if us @ vs = [] then ([], []) else (butlast (us @ vs), [last (us @ vs)]))"
| "cursor_move LFirst (us, vs) = ([], us @ vs)"
| "cursor_move (LPrepend e) (us, vs) = ([], e # us @ vs)"
| "cursor_move (LAppend e) (us, vs) = (us @ vs, [e])"
| "cursor_move _ s = s"

definition visible :: "elmt list \<Rightarrow> elmt list" where
  "visible es = takeWhile (\<lambda>e. e \<noteq> 0) es"

fun cursor_result :: "list_op \<Rightarrow> elmt list \<times> elmt list \<Rightarrow> list_res" where
  "cursor_result LRemove (us, vs) = Num (int (length (us @ vs)))"
| "cursor_result LCount (us, vs) = Num (int (length (us @ vs)))"
| "cursor_result (LIndex e) (us, vs) =
     Num (if e \<in> set (visible (us @ vs)) then int (length (takeWhile (\<lambda>x. x \<noteq> e) (visible (us @ vs)))) else -1)"
| "cursor_result (LElmt k) (us, vs) =
     Elmt (if unat k < length (visible (us @ vs)) then Some (visible (us @ vs) ! unat k) else None)"
| "cursor_result _ (us, vs) = Elmt (case vs of [] \<Rightarrow> None | v # _ \<Rightarrow> Some v)"

primrec cursor_run :: "list_op list \<Rightarrow> elmt list \<times> elmt list \<Rightarrow> list_res list" where
  "cursor_run [] s = []"
| "cursor_run (op # ops) s = (let s' = cursor_move op s in cursor_result op s' # cursor_run ops s')"

text \<open>The client of the code reads the element behind each address it gets.\<close>

definition read_elmt :: "node_ptr \<Rightarrow> (list_mem, list_res) prog" where
  "read_elmt p =
     (case p of
        None \<Rightarrow> returnP (Elmt None)
      | Some a \<Rightarrow> bindP (load_node a) (\<lambda>n. returnP (Elmt (Some (node_data n)))))"

definition then_read :: "(list_mem, AsnList \<times> node_ptr) prog \<Rightarrow> (list_mem, AsnList \<times> list_res) prog" where
  "then_read p = bindP p (\<lambda>(l, a). bindP (read_elmt a) (\<lambda>r. returnP (l, r)))"

fun list_step :: "list_op \<Rightarrow> AsnList \<Rightarrow> (list_mem, AsnList \<times> list_res) prog" where
  "list_step LRemove l = bindP (AsnListRemove l) (\<lambda>l. returnP (l, Num (sint (AsnListCount l))))"
| "list_step (LAdd e) l = then_read (with_elmt AsnListAdd e l)"
| "list_step (LInsert e) l = then_read (with_elmt AsnListInsert e l)"
| "list_step LPrev l = then_read (AsnListPrev l)"
| "list_step LNext l = then_read (AsnListNext l)"
| "list_step LLast l = then_read (AsnListLast l)"
| "list_step LFirst l = then_read (AsnListFirst l)"
| "list_step (LPrepend e) l = then_read (with_elmt AsnListPrepend e l)"
| "list_step (LAppend e) l = then_read (with_elmt AsnListAppend e l)"
| "list_step LCurr l = then_read (AsnListCurr l)"
| "list_step LCount l = returnP (l, Num (sint (AsnListCount l)))"
| "list_step (LIndex e) l =
     bindP (GetAsnListElmtIndex (unat (AsnListCount l)) e l) (\<lambda>(l, i). returnP (l, Num i))"
| "list_step (LElmt k) l =
     bindP (GetAsnListElmt (unat (AsnListCount l)) l k) (\<lambda>(l, e). returnP (l, Elmt (if e = 0 then None else Some e)))"

primrec list_run :: "list_op list \<Rightarrow> AsnList \<Rightarrow> (list_mem, AsnList \<times> list_res list) prog" where
  "list_run [] l = returnP (l, [])"
| "list_run (op # ops) l =
     bindP (list_step op l) (\<lambda>(l, r). bindP (list_run ops l) (\<lambda>(l, rs). returnP (l, r # rs)))"

definition list_holds :: "list_mem \<Rightarrow> AsnList \<Rightarrow> elmt list \<times> elmt list \<Rightarrow> bool" where
  "list_holds m l s \<longleftrightarrow> (\<exists>xs ys. list_rep m l xs ys \<and> s = (map snd xs, map snd ys))"

lemma read_curr:
  assumes "list_rep m l xs ys"
  shows "read_elmt (lst_curr l) m = (Inr (Elmt (case map snd ys of [] \<Rightarrow> None | v # _ \<Rightarrow> Some v)), m)"
  using assms by (cases ys) (auto simp: read_elmt_def list_rep_def prog_simps load_node_def)

lemma then_read_curr:
  assumes "p m = (Inr (l', a), m')" and "list_rep m' l' xs ys" and "a = lst_curr l'"
  shows "\<exists>l' m'. then_read p m = (Inr (l', Elmt (case map snd ys of [] \<Rightarrow> None | v # _ \<Rightarrow> Some v)), m') \<and>
    list_holds m' l' (map snd xs, map snd ys)"
  using assms read_curr [OF assms(2)] by (auto simp: then_read_def prog_simps list_holds_def)

lemma list_rep_curr: "list_rep m l xs ys \<Longrightarrow> lst_curr l = head_ptr ys None"
  by (simp add: list_rep_def)

lemma count_rep:
  assumes "list_rep m l xs ys" and "length (xs @ ys) < 2 ^ 31"
  shows "unat (AsnListCount l) = length (xs @ ys)" and "sint (AsnListCount l) = int (length (xs @ ys))"
proof -
  have c: "AsnListCount l = of_nat (length (xs @ ys))" using assms(1) by (simp add: list_rep_def AsnListCount_def)
  show u: "unat (AsnListCount l) = length (xs @ ys)"
    unfolding c using assms(2) by (simp only: unsigned_of_nat take_bit_nat_eq_self)  (simp add: take_bit_nat_eq_self)
  then show "sint (AsnListCount l) = int (length (xs @ ys))" using assms(2) sint_small [of "AsnListCount l"] by simp
qed

text \<open>The searches.\<close>

lemma index_fold:
  "body_fold (\<lambda>i x. if x = e then Inr i else Inl (i + 1)) (s :: int) es =
    (if e \<in> set (visible es) then Inr (s + int (length (takeWhile (\<lambda>x. x \<noteq> e) (visible es))))
     else Inl (s + int (length (visible es))))"
  by (induction es arbitrary: s) (auto simp: visible_def)

lemma elmt_fold:
  assumes "i \<le> j" and "j < 2 ^ 64" and "i + length es < 2 ^ 64"
  shows "body_fold (\<lambda>k x. if k = (of_nat j :: ulong) then Inr x else Inl (k + 1)) (of_nat i) es =
    (if j - i < length (visible es) then Inr (visible es ! (j - i)) else Inl (of_nat (i + length (visible es))))"
  using assms
proof (induction es arbitrary: i)
  case (Cons e es)
  have eq: "(of_nat i :: ulong) = of_nat j \<longleftrightarrow> i = j"
    using Cons.prems by (metis unat_of_nat_small le_less_trans)
  have next_i: "(of_nat i + 1 :: ulong) = of_nat (Suc i)" by simp
  show ?case
  proof (cases "e = 0 \<or> i = j")
    case True
    then show ?thesis using eq by (auto simp: visible_def)
  next
    case False
    then have l: "Suc i \<le> j" using Cons.prems(1) by simp
    then have "j - i = Suc (j - Suc i)" by simp
    with Cons.IH [OF l] Cons.prems(2,3) False eq show ?thesis
      unfolding body_fold.simps next_i by (auto simp: visible_def)
  qed
qed (simp add: visible_def)

lemma search_rep:
  assumes rep: "list_rep m l xs ys" and k: "length (xs @ ys) \<le> k"
  shows "\<exists>c. for_each k (l\<lparr>lst_curr := lst_first l\<rparr>) body s m =
    (Inr (l\<lparr>lst_curr := c\<rparr>, body_fold body s (map snd (xs @ ys))), m)"
proof -
  have "dseg (nodes m) None (xs @ ys) None" and "lst_first l = head_ptr (xs @ ys) None"
    using rep by (simp_all add: list_rep_def)
  from for_each_rep [OF this(1) k, of "l\<lparr>lst_curr := lst_first l\<rparr>"] this(2)
  show ?thesis by (simp add:)
qed

lemma GetAsnListElmtIndex_rep:
  assumes "list_rep m l xs ys" and "length (xs @ ys) \<le> k"
  shows "GetAsnListElmtIndex k e l m = (Inr (l, let es = visible (map snd (xs @ ys)) in
    if e \<in> set es then int (length (takeWhile (\<lambda>x. x \<noteq> e) es)) else -1), m)"
proof -
  obtain c where "for_each k (l\<lparr>lst_curr := lst_first l\<rparr>) (\<lambda>i x. if x = e then Inr i else Inl (i + 1)) (0 :: int) m =
      (Inr (l\<lparr>lst_curr := c\<rparr>, body_fold (\<lambda>i x. if x = e then Inr i else Inl (i + 1)) (0 :: int) (map snd (xs @ ys))), m)"
    using search_rep [OF assms, of "\<lambda>i x. if x = e then Inr i else Inl (i + 1)" "0 :: int"] by blast
  then show ?thesis unfolding index_fold by (simp add: GetAsnListElmtIndex_def prog_simps)
qed

lemma GetAsnListElmt_rep:
  assumes "list_rep m l xs ys" and "length (xs @ ys) < 2 ^ 31" and "length (xs @ ys) \<le> k"
  shows "GetAsnListElmt k l j m = (Inr (l, let es = visible (map snd (xs @ ys)) in
    if unat j < length es then es ! unat j else 0), m)"
proof -
  let ?es = "visible (map snd (xs @ ys))"
  have len: "length ?es \<le> length (xs @ ys)" unfolding visible_def by (metis length_takeWhile_le length_map)
  have "unat j < 2 ^ LENGTH(32)" by (rule unsigned_less)
  then have j: "unat (ucast j :: ulong) = unat j" "unat j < 2 ^ 32"
    by (simp_all add: unsigned_ucast_eq take_bit_nat_eq_self)
  then have of: "(ucast j :: ulong) = of_nat (unat j)" by simp
  have "unat (scast (lst_count l) :: ulong) = length (xs @ ys)"
  proof -
    have "sint (lst_count l) = int (length (xs @ ys))"
      using count_rep(2) [OF assms(1,2)] by (simp only: AsnListCount_def)
    then have "(scast (lst_count l) :: ulong) = of_nat (length (xs @ ys))" by (simp only: scast_eq of_int_of_nat_eq)
    moreover have "length (xs @ ys) < 2 ^ 64" using assms(2) by simp
    ultimately show ?thesis using unat_of_nat_small by metis
  qed
  then have gt: "(ucast j :: ulong) > scast (lst_count l) \<longleftrightarrow> unat j > length (xs @ ys)"
    by (simp only: word_less_nat_alt j)
  obtain c where "for_each k (l\<lparr>lst_curr := lst_first l\<rparr>) (\<lambda>i x. if i = (of_nat (unat j) :: ulong) then Inr x else Inl (i + 1)) 0 m =
      (Inr (l\<lparr>lst_curr := c\<rparr>, body_fold (\<lambda>i x. if i = (of_nat (unat j) :: ulong) then Inr x else Inl (i + 1)) 0 (map snd (xs @ ys))), m)"
    using search_rep [OF assms(1,3), of "\<lambda>i x. if i = (of_nat (unat j) :: ulong) then Inr x else Inl (i + 1)" 0] by blast
  moreover have "body_fold (\<lambda>i x. if i = (of_nat (unat j) :: ulong) then Inr x else Inl (i + 1)) 0 (map snd (xs @ ys)) =
      (if unat j < length ?es then Inr (?es ! unat j) else Inl (of_nat (length ?es)))"
    using elmt_fold [of 0 "unat j" "map snd (xs @ ys)"] j(2) assms(2) by simp
  ultimately show ?thesis
    unfolding GetAsnListElmt_def gt using len by (auto simp: prog_simps)
qed

lemma visible_nonzero: "e \<in> set (visible es) \<Longrightarrow> e \<noteq> 0"
  unfolding visible_def by (auto dest: set_takeWhileD)

lemma list_holdsI: "list_rep m l xs ys \<Longrightarrow> list_holds m l (map snd xs, map snd ys)"
  by (auto simp: list_holds_def)

text \<open>Every operation does on the store what it does on the sequences.\<close>

lemma list_step_insert:
  assumes rep: "list_rep m l xs ys"
    and op: "op \<in> {LAdd e, LInsert e, LPrepend e, LAppend e}"
  shows "\<exists>l' m'. list_step op l m = (Inr (l', cursor_result op (cursor_move op (map snd xs, map snd ys))), m') \<and>
    list_holds m' l' (cursor_move op (map snd xs, map snd ys))"
proof (cases "ys = [] \<and> op \<in> {LAdd e, LInsert e}")
  case True
  then have "with_elmt AsnListAdd e l m = (Inr (l, None), m)" "with_elmt AsnListInsert e l m = (Inr (l, None), m)"
    using list_rep_curr [OF rep] by (simp_all add: with_elmt_def AsnListAdd_def AsnListInsert_def prog_simps)
  then show ?thesis using then_read_curr [OF _ rep] list_rep_curr [OF rep] True by fastforce
next
  case False
  have new: "\<exists>l' m'. then_read (with_elmt f e l) m = (Inr (l', Elmt (Some e)), m') \<and> list_holds m' l' (map snd us, e # map snd vs)"
    if "\<exists>m' l' a. with_elmt f e l m = (Inr (l', Some a), m') \<and> list_rep m' l' us ((a, e) # vs)"
    for f us vs
  proof -
    from that obtain m' l' a where r: "with_elmt f e l m = (Inr (l', Some a), m')"
      "list_rep m' l' us ((a, e) # vs)" by auto
    from then_read_curr [where p = "with_elmt f e l", OF this] list_rep_curr [OF r(2)] show ?thesis by simp
  qed
  show ?thesis
  proof (cases ys)
    case Nil
    then show ?thesis using False op new [of AsnListAppend "xs @ ys" "[]"] new [of AsnListPrepend "[]" "xs @ ys"]
        AsnListAppend_rep [OF rep, of e] AsnListPrepend_rep [OF rep, of e] by auto
  next
    case (Cons y ys')
    with rep have rep': "list_rep m l xs ((fst y, snd y) # ys')" by simp
    show ?thesis using op Cons new [of AsnListAppend "xs @ ys" "[]"] new [of AsnListPrepend "[]" "xs @ ys"]
        new [of AsnListAdd "xs @ [y]" ys'] new [of AsnListInsert xs ys]
        AsnListAppend_rep [OF rep, of e] AsnListPrepend_rep [OF rep, of e]
        AsnListAdd_rep [OF rep', of e] AsnListInsert_rep [OF rep', of e] by auto
  qed
qed

lemma list_step_move:
  assumes rep: "list_rep m l xs ys" and op: "op \<in> {LPrev, LNext, LLast, LFirst, LCurr}"
  shows "\<exists>l' m'. list_step op l m = (Inr (l', cursor_result op (cursor_move op (map snd xs, map snd ys))), m') \<and>
    list_holds m' l' (cursor_move op (map snd xs, map snd ys))"
proof -
  have read: "\<exists>l' m'. then_read p m = (Inr (l', Elmt (case map snd vs of [] \<Rightarrow> None | v # _ \<Rightarrow> Some v)), m') \<and>
      list_holds m' l' (map snd us, map snd vs)"
    if "\<exists>l'. p m = (Inr (l', head_ptr vs None), m) \<and> list_rep m l' us vs" for p us vs
  proof -
    from that obtain l' where r: "p m = (Inr (l', head_ptr vs None), m)"
      "list_rep m l' us vs" by blast
    from then_read_curr [where p = p, OF this] list_rep_curr [OF r(2)] show ?thesis by simp
  qed
  have next_step: "list_step LNext l m = then_read (AsnListNext l) m" by simp
  from op consider "op = LPrev" | "op = LNext" | "op = LLast" | "op = LFirst" | "op = LCurr" by blast
  then show ?thesis
  proof cases
    case 1
    show ?thesis
    proof (cases xs rule: rev_cases)
      case Nil
      then show ?thesis using 1 read [of "AsnListPrev l" "[]" ys] AsnListPrev_rep(2) [of m l "ys"] rep by simp
    next
      case (snoc xs' x)
      then show ?thesis using 1 read [of "AsnListPrev l" "x # ys" xs'] rep
          AsnListPrev_rep(1) [of m l "xs'" "(fst x, snd x)" "ys"] by (simp add: butlast_append)
    qed
  next
    case 2
    then show ?thesis using read [of "AsnListNext l" xs "[]"] read [of "AsnListNext l" "tl ys" "xs @ [hd ys]"] rep
        AsnListNext_rep(2) [of m l "xs"]
        AsnListNext_rep(1) [of m l "xs" "fst (hd ys)" "snd (hd ys)" "tl ys"]
      by (cases ys) simp_all
  next
    case 3
    show ?thesis
    proof (cases "xs @ ys" rule: rev_cases)
      case Nil
      then show ?thesis using 3 read [of "AsnListLast l" "[]" "[]"] AsnListLast_rep(2) [of m l] rep by simp
    next
      case (snoc zs z)
      then have e: "xs @ ys = zs @ [(fst z, snd z)]"
        and v: "map snd xs @ map snd ys = map snd zs @ [snd z]"
        by (simp, metis map_append list.map(1,2))
      show ?thesis using 3 read [of "AsnListLast l" "[z]" zs] AsnListLast_rep(1) [OF rep e] v by (auto simp: butlast_append)
    qed
  next
    case 4
    then show ?thesis using read [of "AsnListFirst l" "xs @ ys" "[]"] AsnListFirst_rep [OF rep] by simp
  next
    case 5
    then show ?thesis using read [of "AsnListCurr l" ys xs] list_rep_curr [OF rep] rep
      by (simp add: AsnListCurr_def prog_simps)
  qed
qed

lemma list_step_search:
  assumes rep: "list_rep m l xs ys" and small: "length (xs @ ys) < 2 ^ 31"
    and op: "op \<in> {LCount, LIndex e, LElmt k}"
  shows "\<exists>l' m'. list_step op l m = (Inr (l', cursor_result op (cursor_move op (map snd xs, map snd ys))), m') \<and>
    list_holds m' l' (cursor_move op (map snd xs, map snd ys))"
proof -
  note c = count_rep [OF rep small]
  have nz: "visible es ! i \<noteq> 0" if "i < length (visible es)" for es i using that visible_nonzero nth_mem by blast
  show ?thesis
    using op list_holdsI [OF rep] c GetAsnListElmtIndex_rep [OF rep, of "unat (AsnListCount l)" e]
      GetAsnListElmt_rep [OF rep small, of "unat (AsnListCount l)" k] nz [of "unat k" "map snd xs @ map snd ys"]
    by (auto simp: prog_simps)
qed

lemma list_step_holds:
  assumes "list_holds m l s" and "length (fst s @ snd s) < 2 ^ 31"
  shows "\<exists>l' m'. list_step op l m = (Inr (l', cursor_result op (cursor_move op s)), m') \<and> list_holds m' l' (cursor_move op s)"
proof -
  from assms(1) obtain xs ys where rep: "list_rep m l xs ys" and s: "s = (map snd xs, map snd ys)"
    by (auto simp: list_holds_def)
  have small: "length (xs @ ys) < 2 ^ 31" using assms(2) s by simp
  show ?thesis
  proof (cases op)
    case LRemove
    show ?thesis
    proof (cases ys)
      case Nil
      then have "AsnListRemove l m = (Inr l, m)" using list_rep_curr [OF rep] by (simp add: AsnListRemove_def prog_simps)
      then show ?thesis using LRemove list_holdsI [OF rep] count_rep(2) [OF rep small] Nil s by (simp add: prog_simps)
    next
      case (Cons y ys')
      obtain m' l' where r: "AsnListRemove l m = (Inr l', m')" "list_rep m' l' xs ys'"
        using AsnListRemove_rep [of m l "xs" "fst y" "snd y" "ys'"] rep Cons by auto
      then show ?thesis using LRemove list_holdsI [OF r(2)] count_rep(2) [OF r(2)] small Cons s by (simp add: prog_simps)
    qed
  qed (unfold s, rule list_step_insert [OF rep] list_step_move [OF rep] list_step_search [OF rep small]; simp)+
qed

lemma cursor_move_length: "length (fst (cursor_move op s) @ snd (cursor_move op s)) \<le> Suc (length (fst s @ snd s))"
  by (cases "(op, s)" rule: cursor_move.cases) (auto simp: le_diff_conv)

lemma list_run_holds:
  "list_holds m l s \<Longrightarrow> length (fst s @ snd s) + length ops < 2 ^ 31 \<Longrightarrow>
    \<exists>l' m'. list_run ops l m = (Inr (l', cursor_run ops s), m') \<and> list_holds m' l' (fold cursor_move ops s)"
proof (induction ops arbitrary: m l s)
  case (Cons op ops)
  then obtain l' m' where st: "list_step op l m = (Inr (l', cursor_result op (cursor_move op s)), m')"
      "list_holds m' l' (cursor_move op s)"
    using list_step_holds [of m l s op] by auto
  have "length (fst (cursor_move op s) @ snd (cursor_move op s)) + length ops < 2 ^ 31"
    using cursor_move_length [of op s] Cons.prems(2) by simp
  from Cons.IH [OF st(2) this] st(1) show ?case by (auto simp: prog_simps)
qed (simp add: prog_simps)

lemma AsnListNew_holds: "list_holds m (AsnListNew n) ([], [])"
  using list_holdsI [of m "AsnListNew n" "[]" "[]"] by (simp add: list_rep_def AsnListNew_def)

section \<open>Sorting and freeing\<close>

lemma dseg_cong: "(\<And>a. a \<in> fst ` set as \<Longrightarrow> h a = h' a) \<Longrightarrow> dseg h p as y = dseg h' p as y"
  by (induction as arbitrary: p) auto

lemma copy_fold:
  "length acc + length es \<le> n \<Longrightarrow>
    body_fold (\<lambda>acc x. if length acc < n then Inl (acc @ [x]) else Inr acc) acc es = Inl (acc @ visible es)"
  by (induction es arbitrary: acc) (auto simp: visible_def)

text \<open>Appending to one list leaves another one alone.\<close>

lemma append_all_rep:
  assumes "list_rep m l2 xs ys" and "list_rep m l us vs" and "fst ` set (xs @ ys) \<inter> fst ` set (us @ vs) = {}"
  shows "\<exists>m' l2' xs' ys'. append_all es l2 m = (Inr l2', m') \<and> list_rep m' l2' xs' ys' \<and>
    map snd (xs' @ ys') = map snd (xs @ ys) @ es \<and> list_rep m' l us vs"
  using assms
proof (induction es arbitrary: m l2 xs ys)
  case (Cons e es)
  from AsnListAppend_rep [OF Cons.prems(1), of e] obtain m' l2' where
    st: "with_elmt AsnListAppend e l2 m = (Inr (l2', Some (fresh m)), m')" "list_rep m' l2' (xs @ ys) [(fresh m, e)]"
      "fresh m' = Suc (fresh m)" "\<forall>b. b \<notin> fst ` set (xs @ ys) \<and> b \<noteq> fresh m \<longrightarrow> nodes m' b = nodes m b" by blast
  have lt: "\<forall>a\<in>set (us @ vs). fst a < fresh m" using Cons.prems(2) by (simp add: list_rep_def)
  note new = fresh_other [OF this]
  have "nodes m' b = nodes m b" if "b \<in> fst ` set (us @ vs)" for b
  proof -
    have "b \<notin> fst ` set (xs @ ys)" using Cons.prems(3) that unfolding disjoint_iff by metis
    moreover have "b \<noteq> fresh m" using new that by metis
    ultimately show ?thesis using st(4) by simp
  qed
  then have "dseg (nodes m') None (us @ vs) None = dseg (nodes m) None (us @ vs) None" by (rule dseg_cong)
  then have keep: "list_rep m' l us vs" using Cons.prems(2) st(3) unfolding list_rep_def by (metis less_SucI)
  have "fst ` set ((xs @ ys) @ [(fresh m, e)]) \<inter> fst ` set (us @ vs) = {}" using Cons.prems(3) new by auto
  from Cons.IH [OF st(2) keep this] st(1) show ?case by (auto simp: prog_simps)
qed (auto simp: prog_simps)

text \<open>
  With no NULL among its elements, a list is sorted into a new one as the array of its elements is; the old
  one is as before, with its cursor somewhere.
\<close>

lemma AsnListSort_rep:
  assumes rep: "list_rep m l xs ys" and small: "length (xs @ ys) < 2 ^ 31" and k: "length (xs @ ys) \<le> k"
    and nonnull: "0 \<notin> set (map snd (xs @ ys))"
  shows "\<exists>ret l' m' us vs. AsnListSort qsort k (Some l) m = (Inr (Some (ret, l')), m') \<and>
    list_rep m' ret us vs \<and> map snd (us @ vs) = qsort (map snd (xs @ ys)) \<and>
    (\<exists>c. l' = l\<lparr>lst_curr := c\<rparr>) \<and> list_rep m' l xs ys"
proof -
  have n: "nat (sint (lst_count l)) = length (xs @ ys)" using count_rep(2) [OF rep small] by (simp add: AsnListCount_def)
  let ?es = "map snd (xs @ ys)"
  let ?body = "\<lambda>sortArray x. if length sortArray < length (xs @ ys) then Inl (sortArray @ [x]) else Inr sortArray"
  have vis: "visible ?es = ?es" unfolding visible_def takeWhile_eq_all_conv using nonnull by metis
  obtain c where loop: "for_each k (l\<lparr>lst_curr := lst_first l\<rparr>) ?body [] m =
      (Inr (l\<lparr>lst_curr := c\<rparr>, body_fold ?body [] ?es), m)"
    using search_rep [OF rep k, of ?body "[]"] by blast
  have fold: "body_fold ?body [] ?es = Inl ?es" using copy_fold [of "[]" ?es "length (xs @ ys)"] vis by simp
  have new: "list_rep m (AsnListNew n) [] []" for n by (simp add: list_rep_def AsnListNew_def)
  obtain m' ret us vs where app: "append_all (qsort ?es) (AsnListNew (lst_dataSize l)) m = (Inr ret, m')"
      "list_rep m' ret us vs" "map snd (us @ vs) = qsort ?es" "list_rep m' l xs ys"
    using append_all_rep [OF new [of "lst_dataSize l"] rep, of "qsort ?es"] by auto
  have "AsnListSort qsort k (Some l) m = (Inr (Some (ret, l\<lparr>lst_curr := c\<rparr>)), m')"
    using loop fold app(1) unfolding AsnListSort_def option.case n by (simp add: prog_simps)
  with app show ?thesis by blast
qed

text \<open>Freeing takes the nodes of the list out of the store, and nothing else.\<close>

lemma AsnListFree_loop_rep:
  "dseg (nodes m) p as None \<Longrightarrow> distinct (map fst as) \<Longrightarrow> length as \<le> k \<Longrightarrow>
    AsnListFree_loop k (head_ptr as None) m =
      (Inr (), m\<lparr>nodes := \<lambda>a. if a \<in> fst ` set as then None else nodes m a\<rparr>)"
proof (induction as arbitrary: p k m)
  case Nil
  then show ?case by (cases k) (simp_all add: prog_simps)
next
  case (Cons a as)
  then obtain k' where k: "k = Suc k'" "length as \<le> k'" by (cases k) simp_all
  let ?m = "m\<lparr>nodes := (nodes m)(fst a := None)\<rparr>"
  have "AsnListFree_loop k' (head_ptr as None) ?m =
      (Inr (), ?m\<lparr>nodes := \<lambda>b. if b \<in> fst ` set as then None else nodes ?m b\<rparr>)"
    by (rule Cons.IH [of _ "Some (fst a)"]) (use Cons.prems k in \<open>simp_all add: dseg_other [unfolded fun_upd_def]\<close>)
  moreover have "(\<lambda>b. if b \<in> fst ` set as then None else nodes ?m b) =
      (\<lambda>b. if b \<in> fst ` set (a # as) then None else nodes m b)" by (rule ext) simp
  ultimately show ?case using Cons.prems k by (simp add: prog_simps load_node_def free_node_def)
qed

lemma AsnListFree_rep:
  assumes "list_rep m l xs ys" and "length (xs @ ys) \<le> k"
  shows "AsnListFree k l m = (Inr (), m\<lparr>nodes := \<lambda>a. if a \<in> fst ` set (xs @ ys) then None else nodes m a\<rparr>)"
  using AsnListFree_loop_rep [of m None "xs @ ys" k] assms unfolding AsnListFree_def list_rep_def by metis

lemma AsnListConcat_Free:
  assumes "list_rep m l1 xs ys" and "list_rep m l2 zs ws" and "fst ` set (xs @ ys) \<inter> fst ` set (zs @ ws) = {}"
    and "length (xs @ ys) < 2 ^ 32" "length (zs @ ws) < 2 ^ 32" and k: "length (xs @ ys @ zs @ ws) \<le> k"
  shows "thenP (bindP (AsnListConcat l1 l2) (AsnListFree k)) (returnP ()) m =
    (Inr (), m\<lparr>nodes := \<lambda>a. if a \<in> fst ` set (xs @ ys @ zs @ ws) then None else nodes m a\<rparr>)"
proof -
  obtain m' l' where c: "AsnListConcat l1 l2 m = (Inr l', m')" "fresh m' = fresh m"
      "\<forall>b. b \<notin> fst ` set (xs @ ys @ zs @ ws) \<longrightarrow> nodes m' b = nodes m b"
      "if xs @ ys = [] then list_rep m' l' [] (zs @ ws) else if ys = [] then list_rep m' l' (xs @ zs @ ws) []
        else list_rep m' l' xs (ys @ zs @ ws)"
    using AsnListConcat_rep [OF assms(1-5)] by blast
  from c(4) obtain us vs where r: "list_rep m' l' us vs" "us @ vs = xs @ ys @ zs @ ws"
    by (cases "xs @ ys = []"; cases "ys = []") auto
  have "AsnListFree k l' m' = (Inr (), m'\<lparr>nodes := \<lambda>a. if a \<in> fst ` set (us @ vs) then None else nodes m' a\<rparr>)"
    by (rule AsnListFree_rep [OF r(1)]) (simp only: r(2) k)
  also have "m'\<lparr>nodes := \<lambda>a. if a \<in> fst ` set (us @ vs) then None else nodes m' a\<rparr> =
      m\<lparr>nodes := \<lambda>a. if a \<in> fst ` set (xs @ ys @ zs @ ws) then None else nodes m a\<rparr>"
    unfolding r(2) using c(2,3) by (intro list_mem.equality) (auto simp: fun_eq_iff)
  finally show ?thesis using c(1) by (simp add: prog_simps)
qed

end
