(* ===== verification/E_Buf_Laws.thy ===== *)
theory E_Buf_Laws
  imports E_Buf Asn_Prim
begin

text \<open>
  What the expandable buffer promises and what it does not. Written in reverse, it fulfils the contract of
  a writer: the octets come out in order across its blocks as long as \<open>malloc\<close> provides blocks. Read
  octet by octet from its first block, it fulfils the contract of a byte reader. It fulfils neither
  the contract for blocks, as \<open>ExpBufGetSeg\<close> sees no end of a block, nor that of a reset.
\<close>

section \<open>Writing\<close>

definition blk_data :: "EBlk \<Rightarrow> byte list" where
  "blk_data c = drop (eb_dataStart c) (take (eb_dataEnd c) (eb_blk c))"

text \<open>
  A list that grows from one block: every block has the size the library allocates, the handle is at the
  first one, and all others are full.
\<close>

definition wblk :: "nat \<Rightarrow> EBlk \<Rightarrow> bool" where
  "wblk n c \<longleftrightarrow> length (eb_blk c) = n \<and> eb_dataStart c \<le> n \<and> eb_dataEnd c = n"

definition eb_writing :: "ExpBuf \<Rightarrow> bool" where
  "eb_writing b \<longleftrightarrow> 0 < eb_blkSize b \<and> eb_prev b = [] \<and> wblk (eb_blkSize b) (eb_cur b) \<and>
     list_all (\<lambda>c. wblk (eb_blkSize b) c \<and> eb_dataStart c = 0) (eb_next b)"

definition eb_written :: "ExpBuf \<Rightarrow> byte list" where
  "eb_written b = blk_data (eb_cur b) @ concat (map blk_data (eb_next b))"

text \<open>
  The octets that still fit. When the last of them is written, \<open>ExpBufPutSegRvs\<close> asks for another block
  at once and fails: one octet cannot be counted on.
\<close>

definition eb_space :: "ExpBuf \<Rightarrow> nat" where
  "eb_space b = eb_dataStart (eb_cur b) + eb_free b * eb_blkSize b"

definition eb_werr :: "ExpBuf \<Rightarrow> bool" where
  "eb_werr b \<longleftrightarrow> eb_writeError (eb_cur b) \<or> eb_space b = 0"

definition eb_room :: "ExpBuf \<Rightarrow> nat" where
  "eb_room b = eb_space b - 1"

lemma upd_cur_sel [simp]:
  "eb_cur (upd_cur f b) = f (eb_cur b)" "eb_prev (upd_cur f b) = eb_prev b" "eb_next (upd_cur f b) = eb_next b"
  "eb_free (upd_cur f b) = eb_free b" "eb_blkSize (upd_cur f b) = eb_blkSize b"
  by (simp_all add: upd_cur_def)

text \<open>A full block is left behind for the one before it, which is empty.\<close>

lemma ExpBuf_to_prev_ok:
  assumes "eb_writing b" and "eb_dataStart (eb_cur b) = 0"
  shows "case ExpBuf_to_prev b of
      None \<Rightarrow> eb_space b = 0
    | Some b' \<Rightarrow> eb_writing b' \<and> eb_written b' = eb_written b \<and> eb_space b' = eb_space b \<and> eb_blkSize b' = eb_blkSize b \<and>
        \<not> eb_writeError (eb_cur b') \<and> 0 < eb_dataStart (eb_cur b')"
proof (cases "eb_free b")
  case 0
  then show ?thesis using assms by (simp add: ExpBuf_to_prev_def eb_space_def eb_writing_def)
next
  case (Suc k)
  then show ?thesis using assms
    by (auto simp: ExpBuf_to_prev_def eb_space_def eb_writing_def eb_written_def wblk_def blk_data_def
        ExpBufResetInWriteRvsMode_def ExpBufAllocBufAndData_def)
qed

lemma blk_data_put:
  assumes "wblk n c" and "length xs \<le> eb_dataStart c"
  shows "blk_data (c\<lparr>eb_dataStart := eb_dataStart c - length xs,
      eb_blk := mem_put (eb_blk c) (eb_dataStart c - length xs) xs\<rparr>) = xs @ blk_data c"
    and "wblk n (c\<lparr>eb_dataStart := eb_dataStart c - length xs,
      eb_blk := mem_put (eb_blk c) (eb_dataStart c - length xs) xs\<rparr>)"
  using assms by (auto simp: wblk_def blk_data_def mem_put_def)

lemma PutSegRvs_loop_ok:
  assumes "eb_writing b" and "\<not> eb_writeError (eb_cur b)" and "length xs < 2 ^ 31"
  shows "\<exists>b'. ExpBufPutSegRvs_loop xs b = (Inr (), b') \<and> eb_writing b' \<and> eb_blkSize b' = eb_blkSize b \<and>
    (length xs < eb_space b \<longrightarrow> eb_written b' = xs @ eb_written b \<and> eb_space b = eb_space b' + length xs \<and>
       \<not> eb_writeError (eb_cur b')) \<and>
    (eb_space b \<le> length xs \<longrightarrow> eb_writeError (eb_cur b'))"
  using assms
proof (induction xs b rule: ExpBufPutSegRvs_loop.induct)
  case (1 data b)
  let ?c = "eb_cur b"
  have w: "wblk (eb_blkSize b) ?c" using 1(2) by (simp add: eb_writing_def)
  have len: "to_int (of_nat (length data)) = int (length data)"
  proof -
    have "unat (of_nat (length data) :: ulong) = length data" using 1(4) by (intro unat_of_nat_small) simp
    then show ?thesis using 1(4) to_int_small [of "of_nat (length data)"] by simp
  qed
  show ?case
  proof (cases "eb_dataStart ?c > length data")
    case True
    let ?b = "upd_cur (\<lambda>c. c\<lparr>eb_dataStart := eb_dataStart ?c - length data,
        eb_blk := mem_put (eb_blk c) (eb_dataStart ?c - length data) data\<rparr>) b"
    have "ExpBufPutSegRvs_loop data b = (Inr (), ?b)"
      using True len by (subst ExpBufPutSegRvs_loop.simps) (simp add: Let_def)
    moreover have "eb_writing ?b" "eb_written ?b = data @ eb_written b"
      using 1(2) True blk_data_put [OF w, of data] by (simp_all add: eb_writing_def eb_written_def)
    ultimately show ?thesis using 1(3) True by (auto simp: eb_space_def)
  next
    case False
    let ?n = "length data - eb_dataStart ?c"
    let ?b1 = "upd_cur (\<lambda>c. c\<lparr>eb_dataStart := 0, eb_blk := mem_put (eb_blk c) 0 (drop ?n data)\<rparr>) b"
    have dl: "length (drop ?n data) = eb_dataStart ?c" using False by simp
    have b1: "eb_writing ?b1" "eb_written ?b1 = drop ?n data @ eb_written b"
      using 1(2) blk_data_put [OF w, of "drop ?n data"] dl by (simp_all add: eb_writing_def eb_written_def)
    have sp: "eb_space ?b1 + eb_dataStart ?c = eb_space b" by (simp add: eb_space_def)
    have run: "ExpBufPutSegRvs_loop data b = (case ExpBuf_to_prev ?b1 of
          None \<Rightarrow> (Inr (), upd_cur (\<lambda>c. c\<lparr>eb_writeError := True\<rparr>) ?b1)
        | Some b2 \<Rightarrow> ExpBufPutSegRvs_loop (take ?n data) b2)"
      using False len by (subst ExpBufPutSegRvs_loop.simps) (simp add: Let_def)
    show ?thesis
    proof (cases "ExpBuf_to_prev ?b1")
      case None
      with ExpBuf_to_prev_ok [OF b1(1)] have "eb_space ?b1 = 0" by simp
      with None run b1 sp False show ?thesis by (auto simp: eb_writing_def wblk_def)
    next
      case (Some b2)
      with ExpBuf_to_prev_ok [OF b1(1)]
      have b2: "eb_writing b2" "eb_written b2 = eb_written ?b1" "eb_space b2 = eb_space ?b1" "eb_blkSize b2 = eb_blkSize b"
          "\<not> eb_writeError (eb_cur b2)" by simp_all
      have "\<exists>b'. ExpBufPutSegRvs_loop (take ?n data) b2 = (Inr (), b') \<and> eb_writing b' \<and> eb_blkSize b' = eb_blkSize b2 \<and>
          (length (take ?n data) < eb_space b2 \<longrightarrow> eb_written b' = take ?n data @ eb_written b2 \<and>
             eb_space b2 = eb_space b' + length (take ?n data) \<and> \<not> eb_writeError (eb_cur b')) \<and>
          (eb_space b2 \<le> length (take ?n data) \<longrightarrow> eb_writeError (eb_cur b'))"
        using False len Some b2(1,5) 1(4) by (intro 1(1)) simp_all
      then obtain b' where b': "ExpBufPutSegRvs_loop (take ?n data) b2 = (Inr (), b')" "eb_writing b'" "eb_blkSize b' = eb_blkSize b2"
          "?n < eb_space b2 \<longrightarrow> eb_written b' = take ?n data @ eb_written b2 \<and> eb_space b2 = eb_space b' + ?n \<and>
            \<not> eb_writeError (eb_cur b')"
          "eb_space b2 \<le> ?n \<longrightarrow> eb_writeError (eb_cur b')"
        using False by auto
      have "length data = ?n + eb_dataStart ?c" using False by simp
      with b' b2 b1(2) sp run Some show ?thesis by (auto simp: append_assoc [symmetric])
    qed
  qed
qed

lemma PutSegRvs_ok:
  assumes "eb_writing b" and "length xs < 2 ^ 31"
  shows "\<exists>b'. ExpBufPutSegRvs xs b = (Inr (), b') \<and> eb_writing b' \<and> eb_blkSize b' = eb_blkSize b \<and> (eb_werr b \<longrightarrow> eb_werr b') \<and>
    (\<not> eb_werr b' \<longrightarrow> eb_written b' = xs @ eb_written b) \<and>
    (\<not> eb_werr b \<and> length xs \<le> eb_room b \<longrightarrow> \<not> eb_werr b' \<and> eb_room b \<le> eb_room b' + length xs)"
proof (cases "eb_writeError (eb_cur b)")
  case True
  then show ?thesis using assms(1) by (simp add: ExpBufPutSegRvs_def eb_werr_def)
next
  case False
  with PutSegRvs_loop_ok [OF assms(1) False assms(2)] obtain b' where
    b': "ExpBufPutSegRvs_loop xs b = (Inr (), b')" "eb_writing b'" "eb_blkSize b' = eb_blkSize b"
      "length xs < eb_space b \<longrightarrow> eb_written b' = xs @ eb_written b \<and> eb_space b = eb_space b' + length xs \<and>
         \<not> eb_writeError (eb_cur b')"
      "eb_space b \<le> length xs \<longrightarrow> eb_writeError (eb_cur b')" by blast
  show ?thesis
  proof (cases "length xs < eb_space b")
    case True
    with b' False show ?thesis by (auto simp: ExpBufPutSegRvs_def eb_werr_def eb_room_def)
  next
    case full: False
    with b' have "eb_werr b'" by (simp add: eb_werr_def)
    with b' full False show ?thesis by (auto simp: ExpBufPutSegRvs_def eb_werr_def eb_room_def)
  qed
qed

lemma PutByte_here:
  assumes "eb_writing b" and "0 < eb_dataStart (eb_cur b)"
  shows "eb_writing (upd_cur (\<lambda>c. c\<lparr>eb_dataStart := eb_dataStart c - 1, eb_blk := (eb_blk c)[eb_dataStart c - 1 := x]\<rparr>) b)"
    and "eb_written (upd_cur (\<lambda>c. c\<lparr>eb_dataStart := eb_dataStart c - 1, eb_blk := (eb_blk c)[eb_dataStart c - 1 := x]\<rparr>) b) =
      x # eb_written b"
    and "eb_space (upd_cur (\<lambda>c. c\<lparr>eb_dataStart := eb_dataStart c - 1, eb_blk := (eb_blk c)[eb_dataStart c - 1 := x]\<rparr>) b) =
      eb_space b - 1"
proof -
  obtain d where d: "eb_dataStart (eb_cur b) = Suc d" using assms(2) by (cases "eb_dataStart (eb_cur b)") simp_all
  have w: "wblk (eb_blkSize b) (eb_cur b)" using assms(1) by (simp add: eb_writing_def)
  then have "drop d ((eb_blk (eb_cur b))[d := x]) = x # drop (Suc d) (eb_blk (eb_cur b))"
    using d by (simp add: wblk_def drop_update_swap Cons_nth_drop_Suc [symmetric])
  then show "eb_written (upd_cur (\<lambda>c. c\<lparr>eb_dataStart := eb_dataStart c - 1, eb_blk := (eb_blk c)[eb_dataStart c - 1 := x]\<rparr>) b) =
      x # eb_written b" using w d by (simp add: eb_written_def blk_data_def wblk_def)
  show "eb_writing (upd_cur (\<lambda>c. c\<lparr>eb_dataStart := eb_dataStart c - 1, eb_blk := (eb_blk c)[eb_dataStart c - 1 := x]\<rparr>) b)"
    using assms(1) by (auto simp: eb_writing_def wblk_def)
  show "eb_space (upd_cur (\<lambda>c. c\<lparr>eb_dataStart := eb_dataStart c - 1, eb_blk := (eb_blk c)[eb_dataStart c - 1 := x]\<rparr>) b) =
      eb_space b - 1" using assms(2) by (simp add: eb_space_def)
qed

lemma PutByteRvs_ok:
  assumes "eb_writing b"
  shows "\<exists>b'. ExpBufPutByteRvs x b = (Inr (), b') \<and> eb_writing b' \<and> eb_blkSize b' = eb_blkSize b \<and> (eb_werr b \<longrightarrow> eb_werr b') \<and>
    (\<not> eb_werr b' \<longrightarrow> eb_written b' = [x] @ eb_written b) \<and>
    (\<not> eb_werr b \<and> length [x] \<le> eb_room b \<longrightarrow> \<not> eb_werr b' \<and> eb_room b \<le> eb_room b' + length [x])"
proof -
  let ?put = "upd_cur (\<lambda>c. c\<lparr>eb_dataStart := eb_dataStart c - 1, eb_blk := (eb_blk c)[eb_dataStart c - 1 := x]\<rparr>)"
  consider "eb_writeError (eb_cur b)"
    | "\<not> eb_writeError (eb_cur b)" "0 < eb_dataStart (eb_cur b)"
    | "\<not> eb_writeError (eb_cur b)" "eb_dataStart (eb_cur b) = 0" by blast
  then show ?thesis
  proof cases
    case 1
    then show ?thesis using assms by (simp add: ExpBufPutByteRvs_def eb_werr_def)
  next
    case 2
    then have "ExpBufPutByteRvs x b = (Inr (), ?put b)" by (simp add: ExpBufPutByteRvs_def ExpBufFull_def Let_def)
    with PutByte_here [OF assms 2(2), of x] 2 show ?thesis by (auto simp: eb_werr_def eb_room_def)
  next
    case 3
    show ?thesis
    proof (cases "ExpBuf_to_prev b")
      case None
      with ExpBuf_to_prev_ok [OF assms 3(2)] have "eb_space b = 0" by simp
      with None 3 assms show ?thesis
        by (auto simp: ExpBufPutByteRvs_def ExpBufFull_def Let_def eb_werr_def eb_writing_def wblk_def)
    next
      case (Some b2)
      with ExpBuf_to_prev_ok [OF assms 3(2)]
      have b2: "eb_writing b2" "eb_written b2 = eb_written b" "eb_space b2 = eb_space b" "eb_blkSize b2 = eb_blkSize b" "\<not> eb_writeError (eb_cur b2)"
        "0 < eb_dataStart (eb_cur b2)" by simp_all
      have "ExpBufPutByteRvs x b = (Inr (), ?put b2)"
        using 3 Some by (simp add: ExpBufPutByteRvs_def ExpBufFull_def Let_def)
      with PutByte_here [OF b2(1,6), of x] b2 3 show ?thesis by (auto simp: eb_werr_def eb_room_def)
    qed
  qed
qed

lemma expBufOpsG_sel [simp]:
  "getByte expBufOpsG = ExpBufGetByte" "getSeg expBufOpsG = ExpBufGetSeg" "copyFcn expBufOpsG = ExpBufCopy"
  "putByteRvs expBufOpsG = ExpBufPutByteRvs" "putSegRvs expBufOpsG = ExpBufPutSegRvs"
  "readError expBufOpsG = ExpBufReadError" "resetInReadMode expBufOpsG = ExpBufResetInReadMode"
  by (simp_all add: expBufOpsG_def)

text \<open>The contract, for a list of blocks of \<open>n\<close> octets.\<close>

definition eb_growing :: "nat \<Rightarrow> ExpBuf \<Rightarrow> bool" where
  "eb_growing n b \<longleftrightarrow> eb_writing b \<and> eb_blkSize b = n"

lemma expbuf_putByteRvs_emits: "emits (eb_growing n) eb_written eb_werr eb_room (ExpBufPutByteRvs x) () [x]"
  unfolding emits_def eb_growing_def using PutByteRvs_ok [of _ x] by blast

lemma expbuf_putSegRvs_emits:
  "length xs < 2 ^ 31 \<Longrightarrow> emits (eb_growing n) eb_written eb_werr eb_room (ExpBufPutSegRvs xs) () xs"
  unfolding emits_def eb_growing_def using PutSegRvs_ok [of _ xs] by blast

interpretation ebw: gen_writer expBufOpsG "eb_growing n" eb_written eb_werr eb_room for n
  by unfold_locales (simp_all add: expbuf_putByteRvs_emits expbuf_putSegRvs_emits)

section \<open>Reading octet by octet\<close>

text \<open>
  A block in reading mode. The blocks ahead hold data and are read from their start; a read error was
  only set at the very end.
\<close>

definition eb_reading :: "ExpBuf \<Rightarrow> bool" where
  "eb_reading b \<longleftrightarrow>
     eb_dataStart (eb_cur b) \<le> eb_curr (eb_cur b) \<and> eb_curr (eb_cur b) \<le> eb_dataEnd (eb_cur b) \<and>
     eb_dataEnd (eb_cur b) \<le> length (eb_blk (eb_cur b)) \<and>
     (eb_readError (eb_cur b) \<longrightarrow> eb_curr (eb_cur b) = eb_dataEnd (eb_cur b) \<and> eb_next b = []) \<and>
     list_all (\<lambda>c. eb_dataStart c < eb_dataEnd c \<and> eb_dataEnd c \<le> length (eb_blk c) \<and>
       eb_curr c = eb_dataStart c \<and> \<not> eb_readError c) (eb_next b)"

definition eb_unread :: "ExpBuf \<Rightarrow> stream" where
  "eb_unread b = \<lparr>rest = drop (eb_curr (eb_cur b)) (take (eb_dataEnd (eb_cur b)) (eb_blk (eb_cur b))) @
     concat (map blk_data (eb_next b)), rerr = eb_readError (eb_cur b)\<rparr>"

text \<open>The next octet of a block that has one.\<close>

lemma GetByte_here:
  assumes "eb_reading b" and "eb_curr (eb_cur b) < eb_dataEnd (eb_cur b)"
  shows "getByte stream_ops (eb_unread b) =
      (mem_read (eb_blk (eb_cur b)) (eb_curr (eb_cur b)), eb_unread (upd_cur (\<lambda>c. c\<lparr>eb_curr := eb_curr c + 1\<rparr>) b))"
    and "eb_reading (upd_cur (\<lambda>c. c\<lparr>eb_curr := eb_curr c + 1\<rparr>) b)"
proof -
  let ?c = "eb_cur b"
  have lt: "eb_curr ?c < length (take (eb_dataEnd ?c) (eb_blk ?c))" using assms by (simp add: eb_reading_def)
  then have "drop (eb_curr ?c) (take (eb_dataEnd ?c) (eb_blk ?c)) =
      eb_blk ?c ! eb_curr ?c # drop (Suc (eb_curr ?c)) (take (eb_dataEnd ?c) (eb_blk ?c))"
    by (simp add: Cons_nth_drop_Suc [symmetric])
  then show "getByte stream_ops (eb_unread b) =
      (mem_read (eb_blk ?c) (eb_curr ?c), eb_unread (upd_cur (\<lambda>c. c\<lparr>eb_curr := eb_curr c + 1\<rparr>) b))"
    using lt by (simp add: eb_unread_def stream_ops_def stream_getByte_def mem_read_def)
  show "eb_reading (upd_cur (\<lambda>c. c\<lparr>eb_curr := eb_curr c + 1\<rparr>) b)" using assms by (auto simp: eb_reading_def)
qed

text \<open>Going on to the next block.\<close>

lemma ExpBufNext_reading:
  assumes "eb_reading b" and "eb_next b \<noteq> []" and "eb_curr (eb_cur b) = eb_dataEnd (eb_cur b)"
  shows "eb_reading (ExpBufNext b)" and "eb_unread (ExpBufNext b) = eb_unread b"
    and "eb_curr (eb_cur (ExpBufNext b)) < eb_dataEnd (eb_cur (ExpBufNext b))"
    and "eb_curr (eb_cur (ExpBufNext b)) = eb_dataStart (eb_cur (ExpBufNext b))"
  using assms by (auto simp: ExpBufNext_def eb_reading_def eb_unread_def blk_data_def neq_Nil_conv)

lemma upd_cur_same: "f (eb_cur b) = eb_cur b \<Longrightarrow> upd_cur f b = b"
  by (simp add: upd_cur_def)

lemma expbuf_getByte_sim: "sim eb_reading eb_unread (=) ExpBufGetByte (getByte stream_ops)"
proof (rule simI)
  fix b assume b: "eb_reading b"
  let ?c = "eb_cur b"
  have read: "\<exists>x c y. (mem_read (eb_blk (eb_cur b)) (eb_curr (eb_cur b)), upd_cur (\<lambda>c. c\<lparr>eb_curr := eb_curr c + 1\<rparr>) b) = (x, c) \<and>
      getByte stream_ops (eb_unread b) = (y, eb_unread c) \<and> eb_reading c \<and> rel_sum (=) (=) x y"
    if "eb_reading b" "eb_curr (eb_cur b) < eb_dataEnd (eb_cur b)" for b
    using GetByte_here [OF that] by (simp add: sum.rel_eq)
  have data: "\<not> ExpBufHasNoData ?c" if "\<not> ExpBufAtEod ?c"
    using b that by (auto simp: ExpBufHasNoData_def ExpBufAtEod_def eb_reading_def)
  show "\<exists>x c y. ExpBufGetByte b = (x, c) \<and> getByte stream_ops (eb_unread b) = (y, eb_unread c) \<and>
      eb_reading c \<and> rel_sum (=) (=) x y"
  proof (cases "ExpBufAtEod ?c")
    case False
    then have "ExpBuf_skip_empty b = b" using data by (subst ExpBuf_skip_empty.simps) simp
    then have "ExpBufGetByte b = (mem_read (eb_blk ?c) (eb_curr ?c), upd_cur (\<lambda>c. c\<lparr>eb_curr := eb_curr c + 1\<rparr>) b)"
      using False by (simp add: ExpBufGetByte_def)
    then show ?thesis using read [OF b] b False by (simp add: ExpBufAtEod_def eb_reading_def)
  next
    case eod: True
    show ?thesis
    proof (cases "eb_next b")
      case Nil
      then have "ExpBuf_skip_empty b = b" by (subst ExpBuf_skip_empty.simps) simp
      then have "ExpBufGetByte b = (Inr 0, upd_cur (\<lambda>c. c\<lparr>eb_readError := True\<rparr>) b)"
        using eod Nil by (simp add: ExpBufGetByte_def)
      then show ?thesis using b eod Nil
        by (auto simp: ExpBufAtEod_def eb_reading_def eb_unread_def stream_ops_def stream_getByte_def)
    next
      case (Cons n ns)
      let ?n = "ExpBufNext b"
      from ExpBufNext_reading [OF b] eod Cons
      have n: "eb_reading ?n" "eb_unread ?n = eb_unread b" "eb_curr (eb_cur ?n) < eb_dataEnd (eb_cur ?n)"
        "eb_curr (eb_cur ?n) = eb_dataStart (eb_cur ?n)" by (simp_all add: ExpBufAtEod_def)
      have "ExpBuf_skip_empty ?n = ?n" using n(3,4) by (subst ExpBuf_skip_empty.simps) (simp add: ExpBufHasNoData_def)
      moreover have "upd_cur (\<lambda>c. c\<lparr>eb_curr := eb_dataStart c\<rparr>) ?n = ?n" using n(4) by (simp add: upd_cur_same)
      ultimately have "ExpBufGetByte b = (mem_read (eb_blk (eb_cur ?n)) (eb_curr (eb_cur ?n)), upd_cur (\<lambda>c. c\<lparr>eb_curr := eb_curr c + 1\<rparr>) ?n)"
        using eod Cons n(3) unfolding ExpBufGetByte_def ExpBuf_skip_empty.simps [of b]
        by (cases "ExpBufHasNoData ?c") (simp_all add: ExpBufAtEod_def Let_def)
      then show ?thesis using read [OF n(1,3)] n(2) by simp
    qed
  qed
qed

lemma expbuf_readError_sim: "sim eb_reading eb_unread (=) ExpBufReadError (readError stream_ops)"
  by (rule simI) (auto simp: ExpBufReadError_def stream_ops_def eb_unread_def)

interpretation ebr: byte_reader expBufOpsG eb_reading eb_unread
  by unfold_locales (simp_all add: expbuf_getByte_sim expbuf_readError_sim)

section \<open>From writing to reading\<close>

text \<open>A reset leaves the handle at the last block; \<open>ExpBufListFirstBuf\<close> takes it back to the first.\<close>

lemma reset_loop:
  "ExpBufResetInReadMode_loop ps c ns =
    (rev (butlast (map ExpBuf_reset_blk (c # ns))) @ ps, last (map ExpBuf_reset_blk (c # ns)))"
  by (induction ps c ns rule: ExpBufResetInReadMode_loop.induct) simp_all

lemma first_buf:
  "ExpBufListFirstBuf b = b\<lparr>eb_prev := [], eb_cur := hd (rev (eb_prev b) @ [eb_cur b]),
    eb_next := tl (rev (eb_prev b) @ [eb_cur b]) @ eb_next b\<rparr>"
proof (induction b rule: ExpBufListFirstBuf.induct)
  case (1 b)
  show ?case
  proof (cases "eb_prev b")
    case Nil
    then show ?thesis by (subst ExpBufListFirstBuf.simps) simp
  next
    case (Cons p ps)
    then have "ExpBufListFirstBuf b = ExpBufListFirstBuf (ExpBufPrev b)" by (subst ExpBufListFirstBuf.simps) simp
    also note 1 [unfolded Cons, simplified]
    finally show ?thesis using Cons by (cases "rev ps") (simp_all add: ExpBufPrev_def)
  qed
qed

lemma blk_data_reset [simp]: "blk_data (ExpBuf_reset_blk c) = blk_data c" "blk_data \<circ> ExpBuf_reset_blk = blk_data"
  by (simp_all add: blk_data_def ExpBuf_reset_blk_def fun_eq_iff)

definition rewind :: "(ExpBuf, unit) prog" where
  "rewind b = (Inr (), ExpBufListFirstBuf b)"

lemma reset_rewind:
  assumes "eb_writing b"
  shows "\<exists>b'. thenP ExpBufResetInReadMode rewind b = (Inr (), b') \<and> eb_reading b' \<and> eb_unread b' = stream_of (eb_written b)"
proof -
  let ?all = "map ExpBuf_reset_blk (eb_cur b # eb_next b)"
  have "?all = butlast ?all @ [last ?all]" by simp
  then have first: "hd (butlast ?all @ [last ?all]) = ExpBuf_reset_blk (eb_cur b)"
    "tl (butlast ?all @ [last ?all]) = map ExpBuf_reset_blk (eb_next b)" by (metis list.map(2) list.sel(1), metis list.map(2) list.sel(3))
  let ?b = "b\<lparr>eb_prev := [], eb_cur := ExpBuf_reset_blk (eb_cur b), eb_next := map ExpBuf_reset_blk (eb_next b)\<rparr>"
  have "thenP ExpBufResetInReadMode rewind b = (Inr (), ?b)"
    using assms first by (simp add: eb_writing_def bindP_run ExpBufResetInReadMode_def reset_loop rewind_def first_buf del: list.map)
  moreover have "eb_reading ?b"
    using assms by (auto simp: eb_writing_def eb_reading_def wblk_def ExpBuf_reset_blk_def list_all_iff)
  moreover have "eb_unread ?b = stream_of (eb_written b)"
    by (simp add: eb_unread_def eb_written_def stream_of_def) (simp add: ExpBuf_reset_blk_def blk_data_def)
  ultimately show ?thesis by blast
qed

text \<open>Without that, only the last block is read: the octets that were written first.\<close>

lemma reset_last:
  assumes "eb_writing b"
  shows "\<exists>b'. ExpBufResetInReadMode b = (Inr (), b') \<and> eb_reading b' \<and>
    eb_unread b' = stream_of (drop (length (eb_written b) - eb_blkSize b) (eb_written b))"
proof -
  let ?c = "last (eb_cur b # eb_next b)"
  have run: "ExpBufResetInReadMode b = (Inr (), b\<lparr>eb_prev := rev (butlast (map ExpBuf_reset_blk (eb_cur b # eb_next b))),
      eb_cur := ExpBuf_reset_blk ?c, eb_next := []\<rparr>)"
    using assms by (simp add: eb_writing_def ExpBufResetInReadMode_def reset_loop last_map del: list.map)
  have w: "wblk (eb_blkSize b) ?c" using assms by (auto simp: eb_writing_def list_all_iff)
  have "blk_data ?c = drop (length (eb_written b) - eb_blkSize b) (eb_written b)"
  proof (cases "eb_next b" rule: rev_cases)
    case Nil
    then show ?thesis using w by (simp add: eb_written_def blk_data_def wblk_def)
  next
    case (snoc ns d)
    then have "length (blk_data d) = eb_blkSize b" using assms by (simp add: eb_writing_def wblk_def blk_data_def)
    then show ?thesis using snoc by (simp add: eb_written_def)
  qed
  then have "eb_reading (b\<lparr>eb_prev := rev (butlast (map ExpBuf_reset_blk (eb_cur b # eb_next b))),
      eb_cur := ExpBuf_reset_blk ?c, eb_next := []\<rparr>)"
    "eb_unread (b\<lparr>eb_prev := rev (butlast (map ExpBuf_reset_blk (eb_cur b # eb_next b))),
      eb_cur := ExpBuf_reset_blk ?c, eb_next := []\<rparr>) = stream_of (drop (length (eb_written b) - eb_blkSize b) (eb_written b))"
    using w by (simp_all add: eb_reading_def eb_unread_def wblk_def ExpBuf_reset_blk_def stream_of_def blk_data_def)
  with run show ?thesis by blast
qed

text \<open>An expandable buffer of one empty block, and encoding and decoding on it.\<close>

definition exp_to_write :: "nat \<Rightarrow> nat \<Rightarrow> ExpBuf" where
  "exp_to_write free blkSize =
     \<lparr>eb_prev = [], eb_cur = ExpBufResetInWriteRvsMode (ExpBufAllocBufAndData blkSize), eb_next = [],
      eb_free = free, eb_blkSize = blkSize\<rparr>"

definition exp_write_read :: "(ExpBuf, 'a) prog \<Rightarrow> (ExpBuf, 'c) prog \<Rightarrow> nat \<Rightarrow> nat \<Rightarrow> stop + 'c" where
  "exp_write_read enc dec free blkSize =
     fst (thenP enc (thenP (thenP ExpBufResetInReadMode rewind) dec) (exp_to_write free blkSize))"

definition exp_write_reset_read :: "(ExpBuf, 'a) prog \<Rightarrow> (ExpBuf, 'c) prog \<Rightarrow> nat \<Rightarrow> nat \<Rightarrow> stop + 'c" where
  "exp_write_reset_read enc dec free blkSize =
     fst (thenP enc (thenP ExpBufResetInReadMode dec) (exp_to_write free blkSize))"

lemma exp_to_write_ok:
  assumes "0 < n"
  shows "eb_writing (exp_to_write free n)" and "eb_written (exp_to_write free n) = []"
    and "eb_room (exp_to_write free n) = (free + 1) * n - 1" and "\<not> eb_werr (exp_to_write free n)"
  using assms by (simp_all add: exp_to_write_def ExpBufResetInWriteRvsMode_def ExpBufAllocBufAndData_def eb_writing_def
      wblk_def eb_written_def blk_data_def eb_room_def eb_space_def eb_werr_def)

lemma exp_write:
  assumes "emits (eb_growing n) eb_written eb_werr eb_room enc r xs" and "length xs < (free + 1) * n"
  obtains b where "enc (exp_to_write free n) = (Inr r, b)" and "eb_writing b" and "eb_written b = xs"
    and "eb_blkSize b = n"
proof -
  have n: "0 < n" using assms(2) by (cases n) simp_all
  have "length xs \<le> eb_room (exp_to_write free n)" using assms(2) exp_to_write_ok(3) [OF n, of free] by simp
  moreover have "eb_growing n (exp_to_write free n)" using exp_to_write_ok(1) [OF n] by (simp add: eb_growing_def exp_to_write_def)
  ultimately show thesis
    using emits_run [OF assms(1) _ exp_to_write_ok(4) [OF n]] exp_to_write_ok(2) [OF n, of free] that
    unfolding eb_growing_def by (metis append_Nil2)
qed

lemma exp_write_read_sim:
  assumes "emits (eb_growing n) eb_written eb_werr eb_room enc r xs" and "length xs < (free + 1) * n"
    and "sim eb_reading eb_unread (=) dec dec'" and "dec' (stream_of xs) = (y, s)"
  shows "exp_write_read enc dec free n = y"
proof -
  obtain b where b: "enc (exp_to_write free n) = (Inr r, b)" "eb_writing b" "eb_written b = xs"
    by (rule exp_write [OF assms(1,2)])
  obtain b' where b': "thenP ExpBufResetInReadMode rewind b = (Inr (), b')" "eb_reading b'" "eb_unread b' = stream_of xs"
    using reset_rewind [OF b(2)] b(3) by blast
  have "fst (dec b') = y" using sim_fst [OF assms(3) b'(2)] assms(4) b'(3) by simp
  then show ?thesis unfolding exp_write_read_def bindP_Inr [where m = enc, OF b(1)]
    bindP_Inr [where m = "thenP ExpBufResetInReadMode rewind", OF b'(1)] .
qed

lemma exp_write_reset_read_sim:
  assumes "emits (eb_growing n) eb_written eb_werr eb_room enc r xs" and "length xs < (free + 1) * n"
    and "sim eb_reading eb_unread (=) dec dec'" and "dec' (stream_of (drop (length xs - n) xs)) = (y, s)"
  shows "exp_write_reset_read enc dec free n = y"
proof -
  obtain b where b: "enc (exp_to_write free n) = (Inr r, b)" "eb_writing b" "eb_written b = xs" "eb_blkSize b = n"
    by (rule exp_write [OF assms(1,2)])
  obtain b' where b': "ExpBufResetInReadMode b = (Inr (), b')" "eb_reading b'"
      "eb_unread b' = stream_of (drop (length xs - n) xs)"
    using reset_last [OF b(2)] b(3,4) by auto
  have "fst (dec b') = y" using sim_fst [OF assms(3) b'(2)] assms(4) b'(3) by simp
  then show ?thesis unfolding exp_write_reset_read_def bindP_Inr [where m = enc, OF b(1)]
    bindP_Inr [where m = ExpBufResetInReadMode, OF b'(1)] .
qed

section \<open>Any sequence of writes\<close>

datatype put = PutByte byte | PutSeg "byte list"

fun put_octets :: "put \<Rightarrow> byte list" where
  "put_octets (PutByte x) = [x]"
| "put_octets (PutSeg xs) = xs"

primrec put_all :: "put list \<Rightarrow> (ExpBuf, unit) prog" where
  "put_all [] = returnP ()"
| "put_all (p # ps) = thenP (case p of PutByte x \<Rightarrow> ExpBufPutByteRvs x | PutSeg xs \<Rightarrow> ExpBufPutSegRvs xs) (put_all ps)"

text \<open>Reading \<open>k\<close> octets and the error flag.\<close>

primrec get_bytes :: "('b, byte) prog \<Rightarrow> ('b, bool) prog \<Rightarrow> nat \<Rightarrow> ('b, byte list \<times> bool) prog" where
  "get_bytes g e 0 = bindP e (\<lambda>err. returnP ([], err))"
| "get_bytes g e (Suc k) = bindP g (\<lambda>x. bindP (get_bytes g e k) (\<lambda>(xs, err). returnP (x # xs, err)))"

lemma put_all_emits:
  "list_all (\<lambda>p. length (put_octets p) < 2 ^ 31) ps \<Longrightarrow>
    emits (eb_growing n) eb_written eb_werr eb_room (put_all ps) () (concat (map put_octets (rev ps)))"
proof (induction ps)
  case (Cons p ps)
  have "emits (eb_growing n) eb_written eb_werr eb_room
      (case p of PutByte x \<Rightarrow> ExpBufPutByteRvs x | PutSeg xs \<Rightarrow> ExpBufPutSegRvs xs) () (put_octets p)"
    using Cons.prems by (cases p) (simp_all add: expbuf_putByteRvs_emits expbuf_putSegRvs_emits)
  from emits_seq [OF this Cons.IH refl] Cons.prems show ?case by simp
qed (simp add: emits_return)

lemma get_bytes_sim:
  "sim eb_reading eb_unread (=) (get_bytes ExpBufGetByte ExpBufReadError k) (get_bytes (getByte stream_ops) (readError stream_ops) k)"
  by (induction k) (auto intro!: sim_intros expbuf_getByte_sim expbuf_readError_sim split: prod.split)

lemma get_bytes_stream:
  "get_bytes (getByte stream_ops) (readError stream_ops) k (stream_of xs) =
    (Inr (take k xs @ replicate (k - length xs) 0, length xs < k),
     if length xs < k then \<lparr>rest = [], rerr = True\<rparr> else stream_of (drop k xs))"
proof -
  define e where "e = readError stream_ops"
  have e: "e s = (Inr (rerr s), s)" for s by (simp add: e_def prog_simps)
  have eod: "get_bytes (getByte stream_ops) e k \<lparr>rest = [], rerr = True\<rparr> =
      (Inr (replicate k 0, True), \<lparr>rest = [], rerr = True\<rparr>)" for k
    by (induction k) (simp_all add: prog_simps e)
  show ?thesis unfolding e_def [symmetric]
  proof (induction k arbitrary: xs)
    case 0
    then show ?case by (simp add: prog_simps e)
  next
    case (Suc k)
    show ?case by (cases xs) (simp_all add: prog_simps eod Suc.IH)
  qed
qed

section \<open>Reading in segments\<close>

text \<open>
  \<open>ExpBufGetSeg\<close> goes on to the next block when it has taken all of one, but not when \<open>ExpBufGetByte\<close>
  has: then it sees the end of the data. Before that point, \<open>ExpBufCopy\<close> copies across blocks.
\<close>

definition eb_copying :: "ExpBuf \<Rightarrow> bool" where
  "eb_copying b \<longleftrightarrow>
     eb_curr (eb_cur b) \<le> eb_dataEnd (eb_cur b) \<and> eb_dataEnd (eb_cur b) \<le> length (eb_blk (eb_cur b)) \<and>
     \<not> eb_readError (eb_cur b) \<and>
     list_all (\<lambda>c. eb_dataStart c < eb_dataEnd c \<and> eb_dataEnd c \<le> length (eb_blk c) \<and> \<not> eb_readError c) (eb_next b)"

definition eb_ahead :: "ExpBuf \<Rightarrow> byte list" where
  "eb_ahead b = drop (eb_curr (eb_cur b)) (take (eb_dataEnd (eb_cur b)) (eb_blk (eb_cur b))) @ concat (map blk_data (eb_next b))"

definition eb_block_end :: "ExpBuf \<Rightarrow> bool" where
  "eb_block_end b \<longleftrightarrow> ExpBufAtEod (eb_cur b) \<and> eb_next b \<noteq> []"

lemma eb_reading_copying: "eb_reading b \<Longrightarrow> \<not> rerr (eb_unread b) \<Longrightarrow> eb_copying b \<and> rest (eb_unread b) = eb_ahead b"
  by (auto simp: eb_reading_def eb_copying_def eb_unread_def eb_ahead_def list_all_iff)

lemma GetSeg_ok:
  assumes b: "eb_copying b" and lt: "eb_curr (eb_cur b) < eb_dataEnd (eb_cur b)" and g: "unat g < 2 ^ 31"
  shows "\<exists>bs b'. ExpBufGetSeg g b = (Inr (bs, of_nat (length bs)), b') \<and> eb_copying b' \<and>
    eb_ahead b = bs @ eb_ahead b' \<and> length bs \<le> unat g \<and>
    (length bs = unat g \<or> bs \<noteq> [] \<and> \<not> eb_block_end b')"
proof -
  let ?c = "eb_cur b"
  let ?left = "eb_dataEnd ?c - eb_curr ?c"
  obtain n where n: "unat g = n" by simp
  then have gn: "to_int g = int n" using to_int_small [OF g] by simp
  have len: "eb_dataEnd ?c \<le> length (eb_blk ?c)" using b by (simp add: eb_copying_def)
  show ?thesis
  proof (cases "?left \<le> n")
    case fits: True
    let ?bs = "take ?left (drop (eb_curr ?c) (eb_blk ?c))"
    have bs: "?bs = drop (eb_curr ?c) (take (eb_dataEnd ?c) (eb_blk ?c))" by (simp add: drop_take)
    have l: "length ?bs = ?left" using len by simp
    have il: "int (eb_dataEnd ?c) - int (eb_curr ?c) \<le> int n" "int (eb_dataEnd ?c) - int (eb_curr ?c) \<le> to_int g"
      "nat (int (eb_dataEnd ?c) - int (eb_curr ?c)) = ?left"
      using fits gn by linarith+
    show ?thesis
    proof (cases "eb_next b")
      case Nil
      let ?b = "upd_cur (\<lambda>c. c\<lparr>eb_curr := eb_curr c + ?left\<rparr>) b"
      have "ExpBufGetSeg g b = (Inr (?bs, of_nat (length ?bs)), ?b)"
        using lt il len Nil l by (simp add: ExpBufGetSeg_def ExpBufAtEod_def Let_def mem_slice_def nat_diff_distrib' of_nat_diff)
      moreover have "eb_copying ?b" "eb_ahead b = ?bs @ eb_ahead ?b" "\<not> eb_block_end ?b"
        using b lt Nil by (simp_all add: eb_copying_def eb_ahead_def bs eb_block_end_def)
      ultimately show ?thesis using l lt fits n by (intro exI [of _ ?bs] exI [of _ ?b]) auto
    next
      case (Cons d ds)
      let ?b = "upd_cur (\<lambda>c. c\<lparr>eb_curr := eb_dataStart c\<rparr>) (ExpBufNext b)"
      have d: "eb_dataStart d < eb_dataEnd d" using b Cons by (simp add: eb_copying_def)
      then have "ExpBuf_skip_empty (ExpBufNext b) = ExpBufNext b"
        using Cons by (subst ExpBuf_skip_empty.simps) (simp add: ExpBufNext_def ExpBufHasNoData_def)
      then have "ExpBufGetSeg g b = (Inr (?bs, of_nat (length ?bs)), ?b)"
        using lt il len Cons l by (simp add: ExpBufGetSeg_def ExpBufAtEod_def Let_def mem_slice_def nat_diff_distrib' of_nat_diff)
      moreover have "eb_copying ?b" "eb_ahead b = ?bs @ eb_ahead ?b" "\<not> eb_block_end ?b"
        using b d Cons by (simp_all add: eb_copying_def eb_ahead_def bs eb_block_end_def ExpBufNext_def blk_data_def ExpBufAtEod_def)
      ultimately show ?thesis using l lt fits n by (intro exI [of _ ?bs] exI [of _ ?b]) auto
    qed
  next
    case False
    let ?bs = "take n (drop (eb_curr ?c) (eb_blk ?c))"
    let ?b = "upd_cur (\<lambda>c. c\<lparr>eb_curr := eb_curr c + n\<rparr>) b"
    have l: "length ?bs = n" using len False by simp
    have "g = of_nat n" using n by auto
    then have "ExpBufGetSeg g b = (Inr (?bs, of_nat (length ?bs)), ?b)"
      using lt False gn n l len by (auto simp: ExpBufGetSeg_def ExpBufAtEod_def Let_def mem_slice_def)
    moreover have "drop (eb_curr ?c) (take (eb_dataEnd ?c) (eb_blk ?c)) =
        ?bs @ drop (eb_curr ?c + n) (take (eb_dataEnd ?c) (eb_blk ?c))"
    proof -
      have "?bs = take n (drop (eb_curr ?c) (take (eb_dataEnd ?c) (eb_blk ?c)))" using False by (simp add: take_drop min_def)
      then show ?thesis by (metis append_take_drop_id drop_drop add.commute)
    qed
    then have "eb_ahead b = ?bs @ eb_ahead ?b" by (simp add: eb_ahead_def)
    moreover have "eb_copying ?b" using b False by (simp add: eb_copying_def)
    ultimately show ?thesis using l n by (intro exI [of _ ?bs] exI [of _ ?b]) auto
  qed
qed

lemma ExpBufCopy_loop_ok:
  "eb_copying b \<Longrightarrow> \<not> eb_block_end b \<Longrightarrow> unat len < 2 ^ 31 \<Longrightarrow> length got \<le> unat len \<Longrightarrow>
    gotLen = len - of_nat (length got) \<Longrightarrow>
    \<exists>b'. ExpBufCopy_loop len got gotLen b = (Inr (got @ take (unat len - length got) (eb_ahead b)), b') \<and>
      eb_readError (eb_cur b') = (length (eb_ahead b) < unat len - length got)"
proof (induction len got gotLen b rule: ExpBufCopy_loop.induct)
  case (1 len got gotLen b)
  obtain n where n: "unat len = n" by simp
  have tl: "to_int len = int n" using to_int_small [OF 1(4)] n by simp
  have g: "unat gotLen = n - length got"
  proof -
    have "of_nat (length got) \<le> len" using 1(4,5) by (simp add: word_le_nat_alt unat_of_nat_small)
    then show ?thesis unfolding 1(6) using 1(4,5) n by (simp add: unat_sub unat_of_nat_small)
  qed
  show ?case
  proof (cases "eb_curr (eb_cur b) < eb_dataEnd (eb_cur b)")
    case False
    then have eod: "ExpBufAtEod (eb_cur b)" "eb_next b = []" "eb_ahead b = []" "\<not> eb_readError (eb_cur b)"
      using 1(2,3) by (auto simp: eb_copying_def ExpBufAtEod_def eb_block_end_def eb_ahead_def)
    then have "ExpBufGetSeg gotLen b = (Inr ([], 0), b)" by (simp add: ExpBufGetSeg_def Let_def)
    then show ?thesis using eod tl n 1(5) by (subst ExpBufCopy_loop.simps) auto
  next
    case True
    have gl: "unat gotLen < 2 ^ 31" using g 1(4) n by simp
    obtain bs b' where
      s: "ExpBufGetSeg gotLen b = (Inr (bs, of_nat (length bs)), b')" "eb_copying b'" "eb_ahead b = bs @ eb_ahead b'"
        "length bs \<le> n - length got" "length bs = n - length got \<or> bs \<noteq> [] \<and> \<not> eb_block_end b'"
      using GetSeg_ok [OF 1(2) True gl] unfolding g by blast
    have nr: "\<not> eb_readError (eb_cur b')" using s(2) by (simp add: eb_copying_def)
    show ?thesis
    proof (cases "length bs = n - length got")
      case full: True
      then have "ExpBufCopy_loop len got gotLen b = (Inr (got @ bs), b')"
        using s(1) tl 1(5) n by (subst ExpBufCopy_loop.simps) simp
      then show ?thesis using full s(3) nr n by simp
    next
      case part: False
      with s(5) have ne: "bs \<noteq> []" "\<not> eb_block_end b'" by auto
      have small: "length bs < 2 ^ 64" using s(4) n 1(4) by simp
      then have nz: "(of_nat (length bs) :: ulong) \<noteq> 0" using ne(1) by (metis unat_of_nat_small unat_0 length_0_conv)
      have less: "length (got @ bs) < n" using part s(4) 1(5) n by simp
      have rec: "ExpBufCopy_loop len got gotLen b = ExpBufCopy_loop len (got @ bs) (len - of_nat (length (got @ bs))) b'"
        using s(1) nz less tl by (subst ExpBufCopy_loop.simps) simp
      have "\<exists>c. ExpBufCopy_loop len (got @ bs) (len - of_nat (length (got @ bs))) b' =
          (Inr ((got @ bs) @ take (unat len - length (got @ bs)) (eb_ahead b')), c) \<and>
          eb_readError (eb_cur c) = (length (eb_ahead b') < unat len - length (got @ bs))"
        by (rule 1(1) [OF s(1) [symmetric] refl refl _ nz s(2) ne(2) 1(4) _ refl]) (use less tl n in simp_all)
      then show ?thesis unfolding rec using s(3) less n by auto
    qed
  qed
qed

lemma ExpBufCopy_ok:
  assumes "eb_copying b" and "\<not> eb_block_end b" and "unat len < 2 ^ 31"
  shows "\<exists>b'. ExpBufCopy len b = (Inr (take (unat len) (eb_ahead b)), b') \<and>
    eb_readError (eb_cur b') = (length (eb_ahead b) < unat len)"
  using ExpBufCopy_loop_ok [OF assms, of "[]" len] by (simp add: ExpBufCopy_def)

lemma ExpBufCopy_block_end:
  assumes "eb_copying b" and "eb_block_end b" and "unat len < 2 ^ 31"
  shows "\<exists>b'. ExpBufCopy len b = (Inr [], b') \<and> eb_readError (eb_cur b') = (0 < unat len)"
proof -
  obtain n where n: "unat len = n" by simp
  have "to_int len = int n" using to_int_small [OF assms(3)] n by simp
  moreover have "ExpBufGetSeg len b = (Inr ([], 0), b)" using assms(2) by (simp add: ExpBufGetSeg_def eb_block_end_def Let_def)
  ultimately show ?thesis
    using assms(1) n unfolding ExpBufCopy_def by (subst ExpBufCopy_loop.simps) (auto simp: eb_copying_def)
qed

end
