(* ===== verification/Asn_Any.thy ===== *)
theory Asn_Any
  imports E_Buf_Laws Asn_Octs S_Buf Hash_Table
begin

text \<open>
  The open types ANY and ANY DEFINED BY of \<open>c-lib/src/asn-any.c\<close>. The routines of a type are found in
  two hash tables, by an object identifier or by an integer; what is not found is treated as a block of
  octets by the \<open>copyAny\<close> routines of the buffers (\<open>c-lib/src/sbuf.c\<close> and \<open>exp-buf.c\<close>).
\<close>

section \<open>Values and type information\<close>

text \<open>
  \<open>value\<close> is a \<open>void *\<close>: it points to a value of the type the routines expect, or to the octets of
  an unknown type. A routine that gets the other kind would reinterpret memory, which is undefined.
\<close>

datatype 'v any_value = Typed 'v | Blob AsnOcts

record ('b, 'v) AnyInfo =
  anyId :: int
  any_oid :: AsnOcts
  any_intId :: "32 word"
  any_size :: "32 word"
  any_Encode :: "('v any_value \<Rightarrow> ('b, AsnLen) prog) option"
  any_Decode :: "(AsnLen \<Rightarrow> ('b, 'v any_value \<times> AsnLen) prog) option"

record ('b, 'v) any_tables =
  anyOidHashTblG :: "('b, 'v) AnyInfo Table option"
  anyIntHashTblG :: "('b, 'v) AnyInfo Table option"

definition kUnknownAnyObjectID :: int where
  "kUnknownAnyObjectID = -7"

definition GetAsnAnyId :: "('b, 'v) AnyInfo option \<Rightarrow> int" where
  "GetAsnAnyId ai = (case ai of None \<Rightarrow> -1 | Some a \<Rightarrow> anyId a)"

section \<open>Unknown types\<close>

definition BEncUnknownAsnAny :: "'b GenBuf \<Rightarrow> 'v any_value \<Rightarrow> ('b, AsnLen) prog" where
  "BEncUnknownAsnAny b value =
     (case value of
        Typed v \<Rightarrow> stopP Fault
      | Blob data \<Rightarrow>
          bindP (liftP (mem_slice (octs data) 0 (unat (octetLen data)))) (\<lambda>bs.
          thenP (putSegRvs b bs) (returnP (octetLen data))))"

text \<open>\<open>GenBufCopyAny\<close> goes through the table of the buffer, which is an argument here.\<close>

definition BDecUnknownAsnAny :: "(AsnLen \<Rightarrow> ('b, int \<times> AsnOcts \<times> AsnLen) prog) \<Rightarrow> AsnLen \<Rightarrow> ('b, 'v any_value \<times> AsnLen) prog" where
  "BDecUnknownAsnAny copyAny bytesDecoded =
     bindP (copyAny bytesDecoded) (\<lambda>(err, value, bytesDecoded).
     if err \<noteq> 0 then longjmp (-900) else returnP (Blob value, bytesDecoded))"

text \<open>
  \<open>SBufCopyAny\<close> copies behind the length octets it has already read, and as many octets more.
\<close>

definition SBufCopyAny :: "AsnLen \<Rightarrow> (SBuf, int \<times> AsnOcts \<times> AsnLen) prog" where
  "SBufCopyAny bytesDecoded =
     bindP (BDecLen sBufOpsG 0) (\<lambda>(elmtLen1, totalElmtsLen1).
     if elmtLen1 = INDEFINITE_LEN then longjmp (-910)
     else
       let len = elmtLen1 + totalElmtsLen1 in
       bindP (Asn1Alloc (len + 1)) (\<lambda>blk.
       bindP (SBufCopy (totalElmtsLen1 + elmtLen1)) (\<lambda>bs.
       bindP (liftP (blk_write blk (unat totalElmtsLen1) bs)) (\<lambda>blk.
       bindP SBufReadError (\<lambda>e.
       if e then longjmp (-920)
       else
         bindP (liftP (blk_write blk (unat len) [0])) (\<lambda>blk.
         returnP (0, \<lparr>octetLen = len, octs = blk\<rparr>, bytesDecoded + len)))))))"

text \<open>
  The table calls it with a handle (\<open>SBuf **\<close>) where it takes the buffer itself.
\<close>

definition sbuf_copyAny :: "AsnLen \<Rightarrow> (SBuf, int \<times> AsnOcts \<times> AsnLen) prog" where
  "sbuf_copyAny bytesDecoded = stopP Fault"

text \<open>
  \<open>ExpBufCopyAny\<close> reads the length through a handle of its own, so that its own one stays at its block;
  \<open>curr\<close> of that block is set back. Here the handle that went ahead is taken back.
\<close>

definition ExpBuf_back :: "nat \<Rightarrow> nat \<Rightarrow> (ExpBuf, unit) prog" where
  "ExpBuf_back depth loc b =
     (Inr (), upd_cur (\<lambda>c. c\<lparr>eb_curr := loc\<rparr>) ((ExpBufPrev ^^ (length (eb_prev b) - depth)) b))"

definition ExpBufCopyAny :: "AsnLen \<Rightarrow> (ExpBuf, int \<times> AsnOcts \<times> AsnLen) prog" where
  "ExpBufCopyAny bytesDecoded =
     (\<lambda>b. let loc = eb_curr (eb_cur b); depth = length (eb_prev b) in
     bindP (BDecLen expBufOpsG 0) (\<lambda>(elmtLen1, totalElmtsLen1).
     if elmtLen1 = INDEFINITE_LEN then longjmp (-910)
     else
       let len = elmtLen1 + totalElmtsLen1 in
       bindP (Asn1Alloc (len + 1)) (\<lambda>blk.
       thenP (ExpBuf_back depth loc)
       (bindP (ExpBufCopy (totalElmtsLen1 + elmtLen1)) (\<lambda>bs.
       bindP (liftP (blk_write blk 0 bs)) (\<lambda>blk.
       bindP ExpBufReadError (\<lambda>e.
       if e then longjmp (-920)
       else
         bindP (liftP (blk_write blk (unat len) [0])) (\<lambda>blk.
         returnP (0, \<lparr>octetLen = len, octs = blk\<rparr>, bytesDecoded + len)))))))) b)"

section \<open>Finding the routines\<close>

text \<open>The octets of an \<open>int\<close> in memory, least significant first.\<close>

definition int_octets_le :: "32 word \<Rightarrow> byte list" where
  "int_octets_le i = map (\<lambda>k. ucast (drop_bit (8 * k) i)) [0..<4]"

text \<open>Looking up in a table that was never made follows a null pointer.\<close>

definition any_lookup :: "'a Table option \<Rightarrow> Hash \<Rightarrow> stop + 'a option" where
  "any_lookup tbl hash = (case tbl of None \<Rightarrow> Inl Fault | Some t \<Rightarrow> CheckForAndReturnValue t hash)"

definition SetAnyTypeByInt :: "('b, 'v) any_tables \<Rightarrow> 32 word \<Rightarrow> stop + ('b, 'v) AnyInfo option" where
  "SetAnyTypeByInt tables intId =
     (case MakeHash (int_octets_le intId) 4 of
        Inl e \<Rightarrow> Inl e
      | Inr hash \<Rightarrow> any_lookup (anyIntHashTblG tables) hash)"

definition unknown_info :: "'b GenBuf \<Rightarrow> (AsnLen \<Rightarrow> ('b, int \<times> AsnOcts \<times> AsnLen) prog) \<Rightarrow> AsnOcts \<Rightarrow> ('b, 'v) AnyInfo" where
  "unknown_info b copyAny oid =
     \<lparr>anyId = kUnknownAnyObjectID, any_oid = oid, any_intId = 0, any_size = 16,
      any_Encode = Some (BEncUnknownAsnAny b), any_Decode = Some (BDecUnknownAsnAny copyAny)\<rparr>"

definition SetAnyTypeByOid ::
  "'b GenBuf \<Rightarrow> (AsnLen \<Rightarrow> ('b, int \<times> AsnOcts \<times> AsnLen) prog) \<Rightarrow> ('b, 'v) any_tables \<Rightarrow> AsnOcts \<Rightarrow> stop + ('b, 'v) AnyInfo" where
  "SetAnyTypeByOid b copyAny tables oid =
     (case MakeHash (octs oid) (octetLen oid) of
        Inl e \<Rightarrow> Inl e
      | Inr hash \<Rightarrow>
          (case any_lookup (anyOidHashTblG tables) hash of
             Inl e \<Rightarrow> Inl e
           | Inr (Some anyInfo) \<Rightarrow> Inr anyInfo
           | Inr None \<Rightarrow> Inr (unknown_info b copyAny oid)))"

definition SetAnyTypeUnknown ::
  "'b GenBuf \<Rightarrow> (AsnLen \<Rightarrow> ('b, int \<times> AsnOcts \<times> AsnLen) prog) \<Rightarrow> ('b, 'v) AnyInfo option \<Rightarrow> ('b, 'v) AnyInfo" where
  "SetAnyTypeUnknown b copyAny ai =
     (case ai of None \<Rightarrow> unknown_info b copyAny \<lparr>octetLen = 0, octs = []\<rparr> | Some a \<Rightarrow> a)"

definition any_insert :: "'a Table option \<Rightarrow> 'a \<Rightarrow> Hash \<Rightarrow> stop + 'a Table option" where
  "any_insert tbl a h =
     map_sum id Some (Insert (case tbl of None \<Rightarrow> InitHash | Some t \<Rightarrow> t) a h)"

text \<open>A field that is not set in the new entry, which \<open>malloc\<close> returns, stands as 0.\<close>

definition InstallAnyByInt ::
  "int \<Rightarrow> 32 word \<Rightarrow> 32 word \<Rightarrow> ('v any_value \<Rightarrow> ('b, AsnLen) prog) option \<Rightarrow>
     (AsnLen \<Rightarrow> ('b, 'v any_value \<times> AsnLen) prog) option \<Rightarrow> ('b, 'v) any_tables \<Rightarrow> stop + ('b, 'v) any_tables" where
  "InstallAnyByInt anyIdent intId sz Encode Decode tables =
     (let a = \<lparr>anyId = anyIdent, any_oid = \<lparr>octetLen = 0, octs = []\<rparr>, any_intId = intId, any_size = sz,
        any_Encode = Encode, any_Decode = Decode\<rparr>
      in case MakeHash (int_octets_le intId) 4 of
        Inl e \<Rightarrow> Inl e
      | Inr h \<Rightarrow> map_sum id (\<lambda>t. tables\<lparr>anyIntHashTblG := t\<rparr>) (any_insert (anyIntHashTblG tables) a h))"

definition InstallAnyByOid ::
  "int \<Rightarrow> AsnOcts \<Rightarrow> 32 word \<Rightarrow> ('v any_value \<Rightarrow> ('b, AsnLen) prog) option \<Rightarrow>
     (AsnLen \<Rightarrow> ('b, 'v any_value \<times> AsnLen) prog) option \<Rightarrow> ('b, 'v) any_tables \<Rightarrow> stop + ('b, 'v) any_tables" where
  "InstallAnyByOid anyIdent oid sz Encode Decode tables =
     (let a = \<lparr>anyId = anyIdent, any_oid = oid, any_intId = 0, any_size = sz, any_Encode = Encode, any_Decode = Decode\<rparr>
      in case MakeHash (octs oid) (octetLen oid) of
        Inl e \<Rightarrow> Inl e
      | Inr h \<Rightarrow> map_sum id (\<lambda>t. tables\<lparr>anyOidHashTblG := t\<rparr>) (any_insert (anyOidHashTblG tables) a h))"

section \<open>Encoding and decoding\<close>

definition BEncAsnAny :: "('b, 'v) AnyInfo option \<Rightarrow> 'v any_value \<Rightarrow> ('b, AsnLen) prog" where
  "BEncAsnAny ai value =
     (case Option.bind ai any_Encode of Some Encode \<Rightarrow> Encode value | None \<Rightarrow> returnP 0)"

text \<open>The value is allocated by the size of its type, which cannot fail for a size below \<open>2 ^ 31\<close>.\<close>

definition BDecAsnAny :: "('b, 'v) AnyInfo option \<Rightarrow> AsnLen \<Rightarrow> ('b, 'v any_value \<times> AsnLen) prog" where
  "BDecAsnAny ai bytesDecoded =
     (case ai of
        Some a \<Rightarrow>
          (case any_Decode a of
             Some Decode \<Rightarrow> bindP (Asn1Alloc (ucast (any_size a))) (\<lambda>_. Decode bytesDecoded)
           | None \<Rightarrow> longjmp (-44))
      | None \<Rightarrow> longjmp (-44))"

section \<open>What a lookup finds\<close>

text \<open>The hash of an object identifier is all the table knows of it.\<close>

definition any_key :: "AsnOcts \<Rightarrow> Hash" where
  "any_key v = foldl (\<lambda>n c. HASHC c n) 0 (take (unat (octetLen v)) (octs v))"

definition any_key_ok :: "AsnOcts \<Rightarrow> bool" where
  "any_key_ok v \<longleftrightarrow> unat (octetLen v) \<le> length (octs v) \<and> unat (octetLen v) < 2 ^ 31"

lemma MakeHash_key: "any_key_ok v \<Longrightarrow> MakeHash (octs v) (octetLen v) = Inr (any_key v)"
  by (simp add: any_key_def any_key_ok_def MakeHash_fold)

definition any_table_ok :: "'a Table option \<Rightarrow> (Hash \<rightharpoonup> 'a) \<Rightarrow> bool" where
  "any_table_ok tbl m \<longleftrightarrow> (case tbl of None \<Rightarrow> m = Map.empty | Some t \<Rightarrow> wf_table t \<and> table_map t = m)"

lemma any_insert_ok:
  assumes "any_table_ok tbl m"
  shows "\<exists>t. any_insert tbl a h = Inr (Some t) \<and> any_table_ok (Some t) (if h \<in> dom m then m else m(h \<mapsto> a))"
proof -
  have "wf_table (case tbl of None \<Rightarrow> InitHash | Some t \<Rightarrow> t)" "table_map (case tbl of None \<Rightarrow> InitHash | Some t \<Rightarrow> t) = m"
    using assms table_map_InitHash by (simp_all add: any_table_ok_def split: option.splits)
  with Insert_map [OF this(1), of a h] show ?thesis by (auto simp: any_insert_def any_table_ok_def)
qed

lemma any_lookup_ok: "any_table_ok (Some t) m \<Longrightarrow> any_lookup (Some t) h = Inr (m h)"
  by (auto simp: any_lookup_def any_table_ok_def lookup_map)

text \<open>The initialisation of a program: a list of types by object identifier.\<close>

primrec install_all :: "('b, 'v) AnyInfo list \<Rightarrow> ('b, 'v) any_tables \<Rightarrow> stop + ('b, 'v) any_tables" where
  "install_all [] tables = Inr tables"
| "install_all (a # as) tables =
     (case InstallAnyByOid (anyId a) (any_oid a) (any_size a) (any_Encode a) (any_Decode a) tables of
        Inl e \<Rightarrow> Inl e
      | Inr tables \<Rightarrow> install_all as tables)"

definition any_entry :: "('b, 'v) AnyInfo \<Rightarrow> bool" where
  "any_entry a \<longleftrightarrow> any_key_ok (any_oid a) \<and> any_intId a = 0"

definition any_map :: "('b, 'v) AnyInfo list \<Rightarrow> Hash \<rightharpoonup> ('b, 'v) AnyInfo" where
  "any_map as = map_of (map (\<lambda>a. (any_key (any_oid a), a)) as)"

lemma any_map_find: "any_map as k = find (\<lambda>a. any_key (any_oid a) = k) as"
  by (induction as) (simp_all add: any_map_def)

lemma InstallAnyByOid_ok:
  assumes "any_entry a" and "any_table_ok (anyOidHashTblG tables) m"
  shows "\<exists>t. InstallAnyByOid (anyId a) (any_oid a) (any_size a) (any_Encode a) (any_Decode a) tables =
      Inr (tables\<lparr>anyOidHashTblG := Some t\<rparr>) \<and>
    any_table_ok (Some t) (if any_key (any_oid a) \<in> dom m then m else m(any_key (any_oid a) \<mapsto> a))"
proof -
  have a: "\<lparr>anyId = anyId a, any_oid = any_oid a, any_intId = 0, any_size = any_size a, any_Encode = any_Encode a,
      any_Decode = any_Decode a\<rparr> = a" using assms(1) by (simp add: any_entry_def)
  obtain t where t: "any_insert (anyOidHashTblG tables) a (any_key (any_oid a)) = Inr (Some t)"
      "any_table_ok (Some t) (if any_key (any_oid a) \<in> dom m then m else m(any_key (any_oid a) \<mapsto> a))"
    using any_insert_ok [OF assms(2)] by blast
  from t(1) assms(1) have "InstallAnyByOid (anyId a) (any_oid a) (any_size a) (any_Encode a) (any_Decode a) tables =
      Inr (tables\<lparr>anyOidHashTblG := Some t\<rparr>)"
    by (simp add: InstallAnyByOid_def a MakeHash_key any_entry_def)
  with t(2) show ?thesis by blast
qed

lemma install_all_ok:
  "list_all any_entry as \<Longrightarrow> any_table_ok (anyOidHashTblG tables) m \<Longrightarrow>
    \<exists>tables'. install_all as tables = Inr tables' \<and> any_table_ok (anyOidHashTblG tables') (any_map as ++ m) \<and>
      (anyOidHashTblG tables' = None \<longleftrightarrow> as = [] \<and> anyOidHashTblG tables = None)"
proof (induction as arbitrary: tables m)
  case (Cons a as)
  let ?k = "any_key (any_oid a)"
  from InstallAnyByOid_ok [of a tables m] Cons.prems obtain t where
    t: "InstallAnyByOid (anyId a) (any_oid a) (any_size a) (any_Encode a) (any_Decode a) tables =
        Inr (tables\<lparr>anyOidHashTblG := Some t\<rparr>)"
      "any_table_ok (Some t) (if ?k \<in> dom m then m else m(?k \<mapsto> a))" by auto
  have m: "any_map as ++ (if ?k \<in> dom m then m else m(?k \<mapsto> a)) = any_map (a # as) ++ m"
    by (rule ext) (auto simp: any_map_def map_add_def dom_def split: option.split)
  from Cons.IH [of "tables\<lparr>anyOidHashTblG := Some t\<rparr>" "if ?k \<in> dom m then m else m(?k \<mapsto> a)"] Cons.prems t(2)
  obtain tables' where "install_all as (tables\<lparr>anyOidHashTblG := Some t\<rparr>) = Inr tables'"
    "any_table_ok (anyOidHashTblG tables') (any_map (a # as) ++ m)" "anyOidHashTblG tables' \<noteq> None"
    unfolding m by auto
  then show ?case using t(1) by auto
qed (auto simp: any_map_def)

lemma SetAnyTypeByOid_installed:
  assumes "list_all any_entry as" and "any_key_ok v"
  obtains tables where "install_all as \<lparr>anyOidHashTblG = None, anyIntHashTblG = None\<rparr> = Inr tables"
    and "SetAnyTypeByOid b copyAny tables v =
      (if as = [] then Inl Fault
       else Inr (case find (\<lambda>a. any_key (any_oid a) = any_key v) as of None \<Rightarrow> unknown_info b copyAny v | Some a \<Rightarrow> a))"
proof -
  from install_all_ok [OF assms(1), of "\<lparr>anyOidHashTblG = None, anyIntHashTblG = None\<rparr>" Map.empty]
  obtain tables where t: "install_all as \<lparr>anyOidHashTblG = None, anyIntHashTblG = None\<rparr> = Inr tables"
      "any_table_ok (anyOidHashTblG tables) (any_map as)" "anyOidHashTblG tables = None \<longleftrightarrow> as = []"
    by (auto simp: any_table_ok_def)
  have "SetAnyTypeByOid b copyAny tables v =
      (if as = [] then Inl Fault
       else Inr (case find (\<lambda>a. any_key (any_oid a) = any_key v) as of None \<Rightarrow> unknown_info b copyAny v | Some a \<Rightarrow> a))"
  proof (cases "anyOidHashTblG tables")
    case None
    then show ?thesis using t assms(2) by (simp add: SetAnyTypeByOid_def MakeHash_key any_lookup_def)
  next
    case (Some tbl)
    then have "any_lookup (anyOidHashTblG tables) (any_key v) = Inr (any_map as (any_key v))" using t(2) any_lookup_ok by metis
    then show ?thesis using Some t(3) assms(2)
      by (auto simp: SetAnyTypeByOid_def MakeHash_key any_map_find split: option.split)
  qed
  with t(1) show thesis by (rule that)
qed

end
