(* ===== verification/Doubles.thy ===== *)
theory Doubles
  imports Complex_Main "HOL-Library.Log_Nat" Prelude
begin

text \<open>
  The C type \<open>double\<close> as the library uses it: IEEE 754 binary64 with rounding to nearest, ties to even.
  A finite value is a sign and a magnitude, a rational; the operations compute exactly and round. Of
  the C library \<open>frexp\<close> and \<open>pow\<close> are used, the latter on powers of two, where it is taken to be correctly rounded.
\<close>

datatype dbl = Fin (neg: bool) (mag: rat) | Infinite bool | NaN

section \<open>Rounding\<close>

text \<open>The largest power of two that is not above a positive rational.\<close>

definition ilog2 :: "rat \<Rightarrow> int" where
  "ilog2 x =
     (let (n, d) = quotient_of x; k = bitlen n - bitlen d
      in if 2 powi k \<le> x then k else k - 1)"

definition round_half_even :: "rat \<Rightarrow> int" where
  "round_half_even q =
     (let f = floor q; r = q - of_int f
      in if r < 1 / 2 \<or> r = 1 / 2 \<and> even f then f else f + 1)"

definition fl_round :: "bool \<Rightarrow> rat \<Rightarrow> dbl" where
  "fl_round s x =
     (if x = 0 then Fin s 0
      else
        let e = max (ilog2 x - 52) (- 1074); r = of_int (round_half_even (x / 2 powi e)) * 2 powi e
        in if 2 powi 1024 \<le> r then Infinite s else Fin s r)"

section \<open>Operations\<close>

definition fl_of_nat :: "nat \<Rightarrow> dbl" where
  "fl_of_nat n = Fin False (of_nat n)"

definition fl_neg :: "dbl \<Rightarrow> dbl" where
  "fl_neg a = (case a of Fin s x \<Rightarrow> Fin (\<not> s) x | Infinite s \<Rightarrow> Infinite (\<not> s) | NaN \<Rightarrow> NaN)"

definition signed_mag :: "bool \<Rightarrow> rat \<Rightarrow> rat" where
  "signed_mag s x = (if s then - x else x)"

definition fl_add :: "dbl \<Rightarrow> dbl \<Rightarrow> dbl" where
  "fl_add a b =
     (case (a, b) of
        (Fin s x, Fin t y) \<Rightarrow>
          let r = signed_mag s x + signed_mag t y
          in if r = 0 then Fin (s \<and> t) 0 else fl_round (r < 0) \<bar>r\<bar>
      | (Infinite s, Infinite t) \<Rightarrow> if s = t then Infinite s else NaN
      | (Infinite s, Fin _ _) \<Rightarrow> Infinite s
      | (Fin _ _, Infinite t) \<Rightarrow> Infinite t
      | _ \<Rightarrow> NaN)"

definition fl_mul :: "dbl \<Rightarrow> dbl \<Rightarrow> dbl" where
  "fl_mul a b =
     (case (a, b) of
        (Fin s x, Fin t y) \<Rightarrow> fl_round (s \<noteq> t) (x * y)
      | (Infinite s, Infinite t) \<Rightarrow> Infinite (s \<noteq> t)
      | (Infinite s, Fin t y) \<Rightarrow> if y = 0 then NaN else Infinite (s \<noteq> t)
      | (Fin s x, Infinite t) \<Rightarrow> if x = 0 then NaN else Infinite (s \<noteq> t)
      | _ \<Rightarrow> NaN)"

text \<open>\<open>==\<close>: the two zeros are equal, NaN equals nothing.\<close>

definition fl_eq :: "dbl \<Rightarrow> dbl \<Rightarrow> bool" where
  "fl_eq a b =
     (case (a, b) of
        (Fin s x, Fin t y) \<Rightarrow> signed_mag s x = signed_mag t y
      | (Infinite s, Infinite t) \<Rightarrow> s = t
      | _ \<Rightarrow> False)"

definition fl_neg_less :: "dbl \<Rightarrow> bool" where
  "fl_neg_less a = (case a of Fin s x \<Rightarrow> signed_mag s x < 0 | Infinite s \<Rightarrow> s | NaN \<Rightarrow> False)"

text \<open>\<open>(unsigned int) x\<close> truncates; what does not fit is undefined.\<close>

definition fl_to_uint :: "dbl \<Rightarrow> stop + nat" where
  "fl_to_uint a =
     (case a of
        Fin s x \<Rightarrow> if s \<and> 1 \<le> x \<or> 2 ^ 32 \<le> x then Inl Fault else Inr (nat (floor x))
      | _ \<Rightarrow> Inl Fault)"

text \<open>\<open>frexp\<close>; the exponent of what is not finite is unspecified, and stands as 0.\<close>

definition frexp :: "dbl \<Rightarrow> dbl \<times> int" where
  "frexp a =
     (case a of
        Fin s x \<Rightarrow> if x = 0 then (a, 0) else (Fin s (x / 2 powi (ilog2 x + 1)), ilog2 x + 1)
      | _ \<Rightarrow> (a, 0))"

definition fl_pow :: "nat \<Rightarrow> int \<Rightarrow> dbl" where
  "fl_pow base exponent = fl_round False (of_nat base powi exponent)"

text \<open>The value with given bits.\<close>

definition dbl_of_bits :: "64 word \<Rightarrow> dbl" where
  "dbl_of_bits w =
     (let s = bit w 63; e = unat (take_bit 11 (drop_bit 52 w)); f = unat (take_bit 52 w)
      in if e = 2047 then (if f = 0 then Infinite s else NaN)
         else if e = 0 then Fin s (of_nat f * 2 powi - 1074)
         else Fin s (of_nat (f + 2 ^ 52) * 2 powi (int e - 1075)))"

section \<open>What is representable\<close>

definition representable :: "rat \<Rightarrow> bool" where
  "representable x \<longleftrightarrow> (\<exists>n e. n < (2 :: nat) ^ 53 \<and> - 1074 \<le> e \<and> x = of_nat n * 2 powi e) \<and> x < 2 powi 1024"

lemma ilog2_bounds:
  assumes "0 < x"
  shows "2 powi (ilog2 x) \<le> x" and "x < 2 powi (ilog2 x + 1)"
proof -
  obtain n d where q: "quotient_of x = (n, d)" by (cases "quotient_of x")
  have d: "0 < d" using quotient_of_denom_pos [OF q] .
  have x: "x = of_int n / of_int d" using quotient_of_div [OF q] .
  have n: "0 < n" using assms d by (simp add: x zero_less_divide_iff)
  let ?a = "bitlen n" and ?b = "bitlen d"
  have bl: "2 powi (bitlen m - 1) \<le> (of_int m :: rat) \<and> (of_int m :: rat) < 2 powi (bitlen m)" if "0 < m" for m
  proof -
    have b: "0 < bitlen m" using that by (simp add: bitlen_alt_def zero_le_log_cancel_iff add_nonneg_pos)
    have "(2 :: rat) powi (bitlen m - 1) = of_int (2 ^ nat (bitlen m - 1))" "(2 :: rat) powi (bitlen m) = of_int (2 ^ nat (bitlen m))"
      using b by (simp_all add: power_int_def)
    with bitlen_bounds [OF that] show ?thesis by (simp only: of_int_le_iff of_int_less_iff)
  qed
  have up: "x < 2 powi (?a - ?b + 1)"
  proof -
    have "x * of_int d < 2 powi ?a" using bl [OF n] d by (simp add: x)
    moreover have "2 powi (?a - ?b + 1) * 2 powi (?b - 1) = (2 :: rat) powi ?a"
      by (simp flip: power_int_add)
    moreover have "2 powi (?a - ?b + 1) * 2 powi (?b - 1) \<le> (2 :: rat) powi (?a - ?b + 1) * of_int d"
      using bl [OF d] by (intro mult_left_mono) simp_all
    ultimately have "x * of_int d < 2 powi (?a - ?b + 1) * of_int d" by linarith
    then show ?thesis using d by simp
  qed
  have low: "2 powi (?a - ?b - 1) \<le> x"
  proof -
    have "(2 :: rat) powi (?a - ?b - 1) * of_int d \<le> 2 powi (?a - ?b - 1) * 2 powi ?b"
      using bl [OF d] by (intro mult_left_mono) simp_all
    also have "\<dots> = 2 powi (?a - 1)" by (simp flip: power_int_add)
    also have "\<dots> \<le> of_int n" using bl [OF n] by simp
    finally show ?thesis using d by (simp add: x pos_le_divide_eq)
  qed
  show "2 powi (ilog2 x) \<le> x" "x < 2 powi (ilog2 x + 1)"
    using up low by (auto simp: ilog2_def q Let_def)
qed

lemma powi_less: "(2 :: rat) powi a < 2 powi b \<Longrightarrow> a < b"
  by (rule ccontr) (use power_int_increasing [of b a "2 :: rat"] in simp)

lemma ilog2_le: "0 < x \<Longrightarrow> x < 2 powi k \<Longrightarrow> ilog2 x < k"
proof -
  assume "0 < x" "x < 2 powi k"
  then have "(2 :: rat) powi ilog2 x < 2 powi k" using ilog2_bounds(1) [of x] by linarith
  then show ?thesis by (rule powi_less)
qed

lemma ilog2_ge: "2 powi k \<le> x \<Longrightarrow> k \<le> ilog2 x"
proof -
  assume k: "2 powi k \<le> x"
  have "0 < (2 :: rat) powi k" by simp
  with k have "0 < x" by linarith
  from ilog2_bounds(2) [OF this] k have "(2 :: rat) powi k < 2 powi (ilog2 x + 1)" by linarith
  from powi_less [OF this] show ?thesis by simp
qed

lemma round_half_even_int [simp]: "round_half_even (of_int i) = i"
  by (simp add: round_half_even_def)

lemma fl_round_representable:
  assumes "representable x"
  shows "fl_round s x = Fin s x"
proof (cases "x = 0")
  case False
  obtain n e where ne: "n < 2 ^ 53" "- 1074 \<le> e" "x = of_nat n * 2 powi e"
    using assms by (auto simp: representable_def)
  have n: "0 < n" using False ne(3) by (cases n) auto
  then have pos: "0 < x" by (simp add: ne(3))
  have "x < 2 powi (53 + e)"
  proof -
    have "(of_nat n :: rat) < of_nat (2 ^ 53)" using ne(1) by (simp only: of_nat_less_iff)
    then have "x < 2 powi 53 * 2 powi e" by (simp add: ne(3))
    then show ?thesis by (simp add: power_int_add)
  qed
  from ilog2_le [OF pos this] ne(2) have e: "max (ilog2 x - 52) (- 1074) \<le> e" by simp
  define d where "d = nat (e - max (ilog2 x - 52) (- 1074))"
  have "x / 2 powi max (ilog2 x - 52) (- 1074) = of_int (int n * 2 ^ d)"
  proof -
    have "(2 :: rat) powi e = 2 ^ d * 2 powi max (ilog2 x - 52) (- 1074)"
    proof -
      have "(2 :: rat) ^ d = 2 powi (int d)" by simp
      moreover have "int d + max (ilog2 x - 52) (- 1074) = e" using e by (simp add: d_def)
      ultimately show ?thesis by (metis power_int_add zero_neq_numeral)
    qed
    then have "of_nat n * 2 powi e = of_int (int n * 2 ^ d) * (2 :: rat) powi max (ilog2 x - 52) (- 1074)" by simp
    then have "x = of_int (int n * 2 ^ d) * 2 powi max (ilog2 x - 52) (- 1074)" unfolding ne(3) [symmetric] .
    then show ?thesis by (metis nonzero_eq_divide_eq power_int_eq_0_iff zero_neq_numeral)
  qed
  then have "of_int (round_half_even (x / 2 powi max (ilog2 x - 52) (- 1074))) * 2 powi max (ilog2 x - 52) (- 1074) = x"
    by (metis round_half_even_int nonzero_eq_divide_eq power_int_eq_0_iff zero_neq_numeral)
  moreover have "\<not> 2 powi 1024 \<le> x" using assms by (simp add: representable_def)
  ultimately show ?thesis using False by (simp add: fl_round_def Let_def)
qed (simp add: fl_round_def)

end
