(* ===== verification/Asn_Real.thy ===== *)
theory Asn_Real
  imports Doubles Asn_Prim
begin

text \<open>
  REAL: \<open>c-lib/src/asn-real.c\<close>, in the variant that is compiled when the build sets neither
  \<open>IEEE_REAL_FMT\<close> nor \<open>IEEE_REAL_LIB\<close>, which it never does. The globals \<open>PLUS_INFINITY\<close> and
  \<open>MINUS_INFINITY\<close> are an argument.
\<close>

type_synonym AsnReal = dbl

record infinities =
  PLUS_INFINITY :: dbl
  MINUS_INFINITY :: dbl

text \<open>The octets are stored for a big-endian machine.\<close>

definition InitAsnInfinity :: infinities where
  "InitAsnInfinity =
     (let plus = dbl_of_bits (be_val (rev ([0x7f, 0xf0] @ replicate 6 0)))
      in \<lparr>PLUS_INFINITY = plus, MINUS_INFINITY = fl_neg plus\<rparr>)"

text \<open>The loop is the one of \<open>BEncAsnIntContent\<close>.\<close>

definition SignedIntOctetLen :: "ulong \<Rightarrow> nat" where
  "SignedIntOctetLen val =
     int_len_pos (if to_long val < 0 then NOT val else val) (push_bit 48 0x7f80) 8"

section \<open>Encoding\<close>

text \<open>
  The loop that turns the mantissa into octets: \<open>i\<close> counts up to \<open>sizeof (double)\<close>, the result is \<open>buf\<close>
  from \<open>i\<close> on and \<open>mantissaLen\<close>.
\<close>

primrec real_octets :: "nat \<Rightarrow> nat \<Rightarrow> nat \<Rightarrow> dbl \<Rightarrow> stop + byte list \<times> nat" where
  "real_octets 0 i mantissaLen tmpMantissa = Inr ([], mantissaLen)"
| "real_octets (Suc k) i mantissaLen tmpMantissa =
     (let tmpMantissa = fl_mul tmpMantissa (fl_of_nat 256)
      in case fl_to_uint tmpMantissa of
           Inl e \<Rightarrow> Inl e
         | Inr truncatedMantissa \<Rightarrow>
             map_sum id (\<lambda>(bs, mantissaLen). (of_nat truncatedMantissa # bs, mantissaLen))
               (real_octets k (i + 1) (if truncatedMantissa \<noteq> 0 then i + 1 else mantissaLen)
                  (fl_add tmpMantissa (fl_neg (fl_of_nat truncatedMantissa)))))"

text \<open>The exponent is an \<open>int\<close>, which shifts as the \<open>long\<close> it widens to.\<close>

definition BEncAsnRealContent :: "infinities \<Rightarrow> 'b GenBuf \<Rightarrow> AsnReal \<Rightarrow> ('b, AsnLen) prog" where
  "BEncAsnRealContent infs b value =
     (if fl_eq value (Fin False 0) then returnP 0
      else if fl_eq value (MINUS_INFINITY infs) then thenP (putByteRvs b 0x41) (returnP 1)
      else if fl_eq value (PLUS_INFINITY infs) then thenP (putByteRvs b 0x40) (returnP 1)
      else
        let (mantissa, exponent) = frexp value;
            sign = fl_neg_less mantissa;
            mantissa = (if sign then fl_mul mantissa (fl_neg (fl_of_nat 1)) else mantissa)
        in case real_octets 8 0 0 mantissa of
             Inl e \<Rightarrow> stopP e
           | Inr (buf, mantissaLen) \<Rightarrow>
               let exponent = word_of_int (exponent - int mantissaLen * 8) :: ulong;
                   expLen = SignedIntOctetLen exponent;
                   firstOctet = 0x80 OR (if sign then 0x40 else 0) OR
                     (if expLen = 1 then 0x00 else if expLen = 2 then 0x01 else if expLen = 3 then 0x02 else 0x03);
                   encLen = mantissaLen + expLen + 1
               in thenP (putSegRvs b (take mantissaLen buf))
                  (thenP (put_long b expLen exponent)
                  (thenP (if expLen > 3 then putByteRvs b (of_nat expLen) else returnP ())
                  (thenP (putByteRvs b firstOctet)
                  (returnP (of_nat (if expLen > 3 then encLen + 1 else encLen)))))))"

definition BEncAsnReal :: "infinities \<Rightarrow> 'b GenBuf \<Rightarrow> AsnReal \<Rightarrow> ('b, AsnLen) prog" where
  "BEncAsnReal infs b data =
     bindP (BEncAsnRealContent infs b data) (\<lambda>len.
     bindP (BEncDefLen b len) (\<lambda>l.
     bindP (BEncTag1 b UNIV_CLASS PRIM (code_val REAL_TAG_CODE)) (\<lambda>t.
     returnP (len + l + t))))"

section \<open>Decoding\<close>

text \<open>
  The loop for the rest of an exponent in long form tests \<open>i\<close> and decrements \<open>firstExpOctet\<close>. It gets fuel.
\<close>

primrec real_long_exponent :: "nat \<Rightarrow> 'b GenBuf \<Rightarrow> int \<Rightarrow> ulong \<Rightarrow> ('b, ulong) prog" where
  "real_long_exponent 0 b i exponent = (if i > 0 then stopP NoFuel else returnP exponent)"
| "real_long_exponent (Suc fuel) b i exponent =
     (if i > 0 then bindP (getByte b) (\<lambda>c. real_long_exponent fuel b i (push_bit 8 exponent OR ucast c))
      else returnP exponent)"

text \<open>The switch over the form of the exponent; the result is \<open>(expLen, exponent)\<close>.\<close>

definition real_exponent :: "nat \<Rightarrow> 'b GenBuf \<Rightarrow> byte \<Rightarrow> byte \<Rightarrow> ('b, nat \<times> ulong) prog" where
  "real_exponent fuel b firstOctet firstExpOctet =
     (let exponent = (if firstExpOctet AND 0x80 \<noteq> 0 then - 1 else 0); form = firstOctet AND 0x03
      in if form = 0x00 then returnP (1, push_bit 8 exponent OR ucast firstExpOctet)
         else if form = 0x01 then
           bindP (getByte b) (\<lambda>c.
           returnP (2, push_bit 16 exponent OR push_bit 8 (ucast firstExpOctet) OR ucast c))
         else if form = 0x02 then
           bindP (getByte b) (\<lambda>c.
           bindP (getByte b) (\<lambda>d.
           returnP (3, push_bit 8 (push_bit 16 exponent OR push_bit 8 (ucast firstExpOctet) OR ucast c) OR ucast d)))
         else
           bindP (getByte b) (\<lambda>c.
           bindP (real_long_exponent fuel b (int (unat firstExpOctet) - 1)
                    (if c AND 0x80 \<noteq> 0 then push_bit 8 (- 1) OR ucast c else ucast c)) (\<lambda>exponent.
           returnP (unat firstExpOctet + 1, exponent))))"

primrec real_mantissa :: "'b GenBuf \<Rightarrow> nat \<Rightarrow> dbl \<Rightarrow> ('b, dbl) prog" where
  "real_mantissa b 0 mantissa = returnP mantissa"
| "real_mantissa b (Suc n) mantissa =
     bindP (getByte b) (\<lambda>c.
     real_mantissa b n (fl_add (fl_mul mantissa (fl_of_nat 256)) (fl_of_nat (unat c))))"

definition real_base :: "byte \<Rightarrow> nat option" where
  "real_base firstOctet =
     (let m = firstOctet AND 0x30
      in if m = 0x00 then Some 2 else if m = 0x10 then Some 8 else if m = 0x20 then Some 16 else None)"

text \<open>\<open>readError\<close> is never looked at.\<close>

definition BDecAsnRealContent ::
  "infinities \<Rightarrow> nat \<Rightarrow> 'b GenBuf \<Rightarrow> AsnTag \<Rightarrow> AsnLen \<Rightarrow> AsnLen \<Rightarrow> ('b, AsnReal \<times> AsnLen) prog" where
  "BDecAsnRealContent infs fuel b tagId len bytesDecoded =
     (if len = 0 then returnP (Fin False 0, bytesDecoded)
      else if len = INDEFINITE_LEN then longjmp (-67)
      else
        bindP (getByte b) (\<lambda>firstOctet.
        if len = 1 then
          (if firstOctet = 0x40 then returnP (PLUS_INFINITY infs, bytesDecoded + 1)
           else if firstOctet = 0x41 then returnP (MINUS_INFINITY infs, bytesDecoded + 1)
           else longjmp (-22))
        else if firstOctet AND 0x80 \<noteq> 0 then
          bindP (getByte b) (\<lambda>firstExpOctet.
          bindP (real_exponent fuel b firstOctet firstExpOctet) (\<lambda>(expLen, exponent).
          bindP (real_mantissa b (nat (to_int len - int (1 + expLen))) (Fin False 0)) (\<lambda>mantissa.
          let mantissa = fl_mul mantissa (fl_of_nat (2 ^ unat (drop_bit 2 (firstOctet AND 0x0c))))
          in case real_base firstOctet of
               None \<Rightarrow> longjmp (-23)
             | Some base \<Rightarrow>
                 let result = fl_mul mantissa (fl_pow base (to_long exponent));
                     result = (if firstOctet AND 0x40 \<noteq> 0 then fl_neg result else result)
                 in returnP (result, bytesDecoded + len))))
        else longjmp (-24)))"

definition BDecAsnReal :: "infinities \<Rightarrow> nat \<Rightarrow> 'b GenBuf \<Rightarrow> AsnLen \<Rightarrow> ('b, AsnReal \<times> AsnLen) prog" where
  "BDecAsnReal infs fuel b bytesDecoded =
     bindP (BDecTag b bytesDecoded) (\<lambda>(tag, bytesDecoded).
     if tag \<noteq> MAKE_TAG_ID UNIV_CLASS PRIM (code_val REAL_TAG_CODE) then longjmp (-40)
     else
       bindP (BDecLen b bytesDecoded) (\<lambda>(elmtLen, bytesDecoded).
       BDecAsnRealContent infs fuel b tag elmtLen bytesDecoded))"

section \<open>The octets of a mantissa\<close>

text \<open>A mantissa is a fraction of \<open>2 ^ 53\<close>, of which the loop takes octet after octet.\<close>

primrec frac_octets :: "nat \<Rightarrow> nat \<Rightarrow> byte list" where
  "frac_octets 0 a = []"
| "frac_octets (Suc k) a = of_nat (256 * a div 2 ^ 53) # frac_octets k (256 * a mod 2 ^ 53)"

primrec strip :: "byte list \<Rightarrow> byte list" where
  "strip [] = []"
| "strip (c # cs) = (if strip cs = [] \<and> c = 0 then [] else c # strip cs)"

definition oval :: "byte list \<Rightarrow> nat" where
  "oval bs = foldl (\<lambda>a c. 256 * a + unat c) 0 bs"

lemma length_frac_octets [simp]: "length (frac_octets k a) = k"
  by (induction k arbitrary: a) simp_all

lemma strip_padded: "strip bs @ replicate (length bs - length (strip bs)) 0 = bs"
  by (induction bs) auto

lemma length_strip: "length (strip bs) \<le> length bs"
  by (induction bs) simp_all

lemma take_strip: "take (length (strip bs)) bs = strip bs"
  by (metis strip_padded append_eq_conv_conj)

lemma strip_snoc_0: "strip (bs @ [0]) = strip bs"
  by (induction bs) simp_all

lemma oval_snoc: "oval (bs @ [c]) = 256 * oval bs + unat c"
  by (simp add: oval_def)

lemma oval_Nil [simp]: "oval [] = 0"
  by (simp add: oval_def)

lemma oval_zeros: "oval (bs @ replicate k 0) = oval bs * 256 ^ k"
  by (induction k) (simp_all add: replicate_append_same [symmetric] oval_snoc append_assoc [symmetric] del: append_assoc)

lemma oval_less: "oval bs < 256 ^ length bs"
proof (induction bs rule: rev_induct)
  case (snoc c cs)
  then show ?case using unat_byte_less [of c] by (simp add: oval_snoc)
qed simp

lemma oval_frac_octets:
  assumes "a < 2 ^ 53"
  shows "oval (frac_octets k a) = 256 ^ k * a div 2 ^ 53"
proof -
  have "foldl (\<lambda>a c. 256 * a + unat c) b (frac_octets k a) = b * 256 ^ k + 256 ^ k * a div 2 ^ 53" for b
    using assms
  proof (induction k arbitrary: a b)
    case (Suc k)
    obtain q r where qr: "256 * a div 2 ^ 53 = q" "256 * a mod 2 ^ 53 = r" by simp
    then have r: "256 * a = q * 2 ^ 53 + r" "r < 2 ^ 53" using div_mult_mod_eq [of "256 * a" "2 ^ 53"] by auto
    have "q < 256" unfolding qr(1) [symmetric] using Suc.prems by (simp add: less_mult_imp_div_less)
    then have q: "unat (of_nat q :: byte) = q" by (simp add: unsigned_of_nat take_bit_nat_eq_self)
    obtain M :: nat where M: "2 ^ 53 = M" "0 < M" by simp
    have "256 ^ Suc k * a = 256 ^ k * (256 * a)" by simp
    also have "\<dots> = 256 ^ k * r + 256 ^ k * q * M" unfolding r(1) M(1) by (simp add: distrib_left)
    finally have "256 ^ Suc k * a div M = 256 ^ k * q + 256 ^ k * r div M" using M(2) by simp
    moreover have "foldl (\<lambda>a c. 256 * a + unat c) (256 * b + q) (frac_octets k r) = (256 * b + q) * 256 ^ k + 256 ^ k * r div M"
      using Suc.IH [OF r(2)] unfolding M(1) .
    ultimately show ?case
      by (simp only: frac_octets.simps qr [unfolded M(1)] foldl.simps q M(1)) (simp add: algebra_simps)
  qed simp
  then show ?thesis by (simp add: oval_def)
qed

text \<open>The loop computes exactly.\<close>

definition frac53 :: "nat \<Rightarrow> rat" where
  "frac53 a = of_nat a * 2 powi - 53"

lemma representable_scaled: "n < 2 ^ 53 \<Longrightarrow> - 1074 \<le> e \<Longrightarrow> e \<le> 900 \<Longrightarrow> representable (of_nat n * 2 powi e)"
proof -
  assume a: "n < 2 ^ 53" "- 1074 \<le> e" "e \<le> 900"
  have "of_nat n < (of_nat (2 ^ 53) :: rat)" using a(1) by (simp only: of_nat_less_iff)
  then have "of_nat n * 2 powi e < (2 ^ 53 :: rat) * 2 powi e" by simp
  also have "\<dots> = 2 powi (53 + e)" by (simp add: power_int_add)
  also have "\<dots> \<le> 2 powi 1024" using a(3) by (intro power_int_increasing) simp_all
  finally show ?thesis using a by (auto simp: representable_def)
qed

lemma representable_nat: "n < 2 ^ 53 \<Longrightarrow> representable (of_nat n)"
  using representable_scaled [of n 0] by simp

lemma representable_frac: "a < 2 ^ 53 \<Longrightarrow> representable (frac53 a)"
  using representable_scaled [of a "- 53"] by (simp add: frac53_def)

lemma frac_step:
  assumes "a < 2 ^ 53"
  shows "fl_mul (Fin False (frac53 a)) (fl_of_nat 256) = Fin False (frac53 a * 256)"
    and "fl_to_uint (Fin False (frac53 a * 256)) = Inr (256 * a div 2 ^ 53)"
    and "fl_add (Fin False (frac53 a * 256)) (fl_neg (fl_of_nat (256 * a div 2 ^ 53))) = Fin False (frac53 (256 * a mod 2 ^ 53))"
proof -
  obtain q r where qr: "256 * a div 2 ^ 53 = q" "256 * a mod 2 ^ 53 = r" by simp
  then have r: "256 * a = q * 2 ^ 53 + r" "r < 2 ^ 53" using div_mult_mod_eq [of "256 * a" "2 ^ 53"] by auto
  have q: "q < 256" unfolding qr(1) [symmetric] using assms by (simp add: less_mult_imp_div_less)
  have "of_nat (256 * a) = (of_nat (q * 2 ^ 53 + r) :: rat)" unfolding r(1) ..
  then have f: "frac53 a * 256 = of_nat q + frac53 r" by (simp add: frac53_def field_simps power_int_minus)
  have fr: "0 \<le> frac53 r" "frac53 r < 1"
  proof -
    have "(of_nat r :: rat) < of_nat (2 ^ 53)" using r(2) by (simp only: of_nat_less_iff)
    then show "0 \<le> frac53 r" "frac53 r < 1" by (simp_all add: frac53_def power_int_minus field_simps)
  qed
  have "frac53 a * 256 = of_nat a * 2 powi - 45" by (simp add: frac53_def power_int_minus)
  then have "representable (frac53 a * 256)" using representable_scaled [OF assms, of "- 45"] by (simp only:)
  then show "fl_mul (Fin False (frac53 a)) (fl_of_nat 256) = Fin False (frac53 a * 256)"
    by (simp add: fl_mul_def fl_of_nat_def fl_round_representable)
  have "(of_nat q :: rat) < of_nat 256" using q by (simp only: of_nat_less_iff)
  then have "\<not> 2 ^ 32 \<le> of_nat q + frac53 r" using fr by simp
  moreover have "floor (of_nat q + frac53 r) = int q" using fr by (simp add: floor_eq_iff)
  ultimately show "fl_to_uint (Fin False (frac53 a * 256)) = Inr (256 * a div 2 ^ 53)"
    unfolding f qr by (simp add: fl_to_uint_def)
  have "fl_round (frac53 r < 0) \<bar>frac53 r\<bar> = Fin False (frac53 r)" using fr r(2) by (simp add: fl_round_representable representable_frac)
  then show "fl_add (Fin False (frac53 a * 256)) (fl_neg (fl_of_nat (256 * a div 2 ^ 53))) = Fin False (frac53 (256 * a mod 2 ^ 53))"
    unfolding f qr by (auto simp: fl_add_def fl_neg_def fl_of_nat_def signed_mag_def Let_def)
qed

lemma real_octets_ok:
  "a < 2 ^ 53 \<Longrightarrow> real_octets k i ml (Fin False (frac53 a)) =
    Inr (frac_octets k a, if strip (frac_octets k a) = [] then ml else i + length (strip (frac_octets k a)))"
proof (induction k arbitrary: i ml a)
  case (Suc k)
  obtain q r where qr: "256 * a div 2 ^ 53 = q" "256 * a mod 2 ^ 53 = r" by simp
  then have r: "r < 2 ^ 53" by auto
  have "q < 256" unfolding qr(1) [symmetric] using Suc.prems by (simp add: less_mult_imp_div_less)
  then have "(of_nat q :: byte) = 0 \<longleftrightarrow> q = 0"
    by (auto simp: word_of_nat_eq_0_iff dest: dvd_imp_le)
  moreover have "frac_octets (Suc k) a = of_nat q # frac_octets k r" unfolding frac_octets.simps qr ..
  ultimately show ?case
    using frac_step [OF Suc.prems] Suc.IH [OF r] unfolding qr by (simp add: Let_def del: frac_octets.simps)
qed simp

section \<open>What the encoder writes\<close>

text \<open>The mantissa without its trailing zero octets, and the exponent that goes with it.\<close>

definition real_frac :: "rat \<Rightarrow> nat" where
  "real_frac x = nat (floor (x * 2 powi (52 - ilog2 x)))"

definition real_number :: "rat \<Rightarrow> byte list" where
  "real_number x = strip (frac_octets 8 (real_frac x))"

definition real_exp :: "rat \<Rightarrow> int" where
  "real_exp x = ilog2 x + 1 - 8 * int (length (real_number x))"

definition exp_len :: "int \<Rightarrow> nat" where
  "exp_len j = (if - 128 \<le> j \<and> j < 128 then 1 else 2)"

definition real_lead :: "bool \<Rightarrow> rat \<Rightarrow> byte" where
  "real_lead s x = 0x80 OR (if s then 0x40 else 0) OR (if exp_len (real_exp x) = 1 then 0 else 1)"

definition real_contents :: "bool \<Rightarrow> rat \<Rightarrow> byte list" where
  "real_contents s x = real_lead s x # tc_bytes (exp_len (real_exp x)) (real_exp x) @ real_number x"

lemma real_frac_facts:
  assumes "representable x" and "0 < x"
  shows "of_nat (real_frac x) = x * 2 powi (52 - ilog2 x)" and "2 ^ 52 \<le> real_frac x" and "real_frac x < 2 ^ 53"
    and "- 1074 \<le> ilog2 x" and "ilog2 x < 1024"
proof -
  obtain n e where ne: "n < 2 ^ 53" "- 1074 \<le> e" "x = of_nat n * 2 powi e" "x < 2 powi 1024"
    using assms(1) by (auto simp: representable_def)
  have "0 < n" using assms(2) ne(3) by (cases n) auto
  then have "2 powi e \<le> x" by (simp add: ne(3))
  from ilog2_ge [OF this] ne(2) show "- 1074 \<le> ilog2 x" by simp
  show "ilog2 x < 1024" using ilog2_le [OF assms(2) ne(4)] .
  have "x < 2 powi (53 + e)"
  proof -
    have "(of_nat n :: rat) < of_nat (2 ^ 53)" using ne(1) by (simp only: of_nat_less_iff)
    then show ?thesis by (simp add: ne(3) power_int_add)
  qed
  from ilog2_le [OF assms(2) this] have k: "0 \<le> e + (52 - ilog2 x)" by simp
  have "x * 2 powi (52 - ilog2 x) = of_nat n * 2 powi (e + (52 - ilog2 x))" by (simp add: ne(3) power_int_add)
  also have "\<dots> = of_nat (n * 2 ^ nat (e + (52 - ilog2 x)))" using k by (simp add: power_int_def)
  finally have i: "x * 2 powi (52 - ilog2 x) = of_nat (n * 2 ^ nat (e + (52 - ilog2 x)))" .
  then show f: "of_nat (real_frac x) = x * 2 powi (52 - ilog2 x)" unfolding real_frac_def by (simp only: floor_of_nat nat_int)
  have b: "(2 :: rat) powi ilog2 x * 2 powi (52 - ilog2 x) = of_nat (2 ^ 52)"
      "(2 :: rat) powi (ilog2 x + 1) * 2 powi (52 - ilog2 x) = of_nat (2 ^ 53)"
    by (simp_all flip: power_int_add)
  have "of_nat (2 ^ 52) \<le> (of_nat (real_frac x) :: rat)"
    unfolding f b(1) [symmetric] using ilog2_bounds(1) [OF assms(2)] by (intro mult_right_mono) simp_all
  then show "2 ^ 52 \<le> real_frac x" by (simp only: of_nat_le_iff)
  have "(of_nat (real_frac x) :: rat) < of_nat (2 ^ 53)"
    unfolding f b(2) [symmetric] using ilog2_bounds(2) [OF assms(2)] by (intro mult_strict_right_mono) simp_all
  then show "real_frac x < 2 ^ 53" by (simp only: of_nat_less_iff)
qed

lemma frac_octets_snoc:
  "a < 2 ^ 53 \<Longrightarrow> frac_octets (Suc k) a = frac_octets k a @ [of_nat (256 * (256 ^ k * a mod 2 ^ 53) div 2 ^ 53)]"
proof (induction k arbitrary: a)
  case (Suc k)
  have m: "256 ^ k * (256 * a mod 2 ^ 53) mod 2 ^ 53 = 256 ^ Suc k * a mod (2 ^ 53 :: nat)"
    by (simp only: mod_mult_right_eq) (simp add: ac_simps)
  have "frac_octets (Suc (Suc k)) a = of_nat (256 * a div 2 ^ 53) # frac_octets (Suc k) (256 * a mod 2 ^ 53)"
    by (simp only: frac_octets.simps)
  also have "frac_octets (Suc k) (256 * a mod 2 ^ 53) = frac_octets k (256 * a mod 2 ^ 53) @
      [of_nat (256 * (256 ^ Suc k * a mod 2 ^ 53) div 2 ^ 53)]"
    using Suc.IH [of "256 * a mod 2 ^ 53"] unfolding m by simp
  finally show ?case by (simp only: frac_octets.simps append.simps)
qed simp

text \<open>The eighth octet is 0: seven hold 53 bits.\<close>

lemma frac_octets_8:
  assumes "a < 2 ^ 53"
  shows "frac_octets 8 a = frac_octets 7 a @ [0]"
proof -
  have "256 ^ 7 * a = 2 ^ 53 * (8 * a)" by simp
  then have "256 ^ 7 * a mod 2 ^ 53 = 0" by (simp only: mod_mult_self1_is_0)
  then show ?thesis using frac_octets_snoc [OF assms, of 7] by simp
qed

lemma real_number_facts:
  assumes "representable x" and "0 < x"
  shows "0 < length (real_number x)" and "length (real_number x) \<le> 7"
    and "of_nat (oval (real_number x)) * 2 powi (real_exp x) = x"
    and "real_octets 8 0 0 (Fin False (frac53 (real_frac x))) =
      Inr (frac_octets 8 (real_frac x), length (real_number x))"
    and "take (length (real_number x)) (frac_octets 8 (real_frac x)) = real_number x"
proof -
  let ?a = "real_frac x" and ?l = "length (real_number x)"
  note a = real_frac_facts [OF assms]
  have n: "real_number x = strip (frac_octets 7 ?a)"
    by (simp only: real_number_def frac_octets_8 [OF a(3)] strip_snoc_0)
  then show l: "?l \<le> 7" using length_strip [of "frac_octets 7 ?a"] by simp
  have "oval (real_number x) * 256 ^ (8 - ?l) = oval (frac_octets 8 ?a)"
    using oval_zeros [of "real_number x" "8 - ?l"] strip_padded [of "frac_octets 8 ?a"]
    by (simp add: real_number_def)
  also have "\<dots> = 256 ^ 8 * ?a div 2 ^ 53" by (rule oval_frac_octets [OF a(3)])
  also have "\<dots> = 2 ^ 11 * ?a"
  proof -
    have "256 ^ 8 * ?a = 2 ^ 53 * (2 ^ 11 * ?a)" by simp
    then show ?thesis by simp
  qed
  finally have o: "oval (real_number x) * 256 ^ (8 - ?l) = 2 ^ 11 * ?a" .
  then show l0: "0 < ?l" using a(2) by (cases "real_number x") auto
  have "(of_nat (oval (real_number x)) :: rat) * 2 powi (64 - 8 * int ?l) = 2 powi 11 * of_nat ?a"
  proof -
    have "(2 :: rat) powi (64 - 8 * int ?l) = 2 ^ (8 * (8 - ?l))"
      using l by (simp add: power_int_def nat_diff_distrib nat_mult_distrib algebra_simps)
    also have "\<dots> = of_nat (256 ^ (8 - ?l))" by (simp add: power_mult)
    finally have "(of_nat (oval (real_number x)) :: rat) * 2 powi (64 - 8 * int ?l) = of_nat (oval (real_number x) * 256 ^ (8 - ?l))" by simp
    then show ?thesis unfolding o by simp
  qed
  then have "(of_nat (oval (real_number x)) :: rat) * 2 powi (64 - 8 * int ?l) * 2 powi (ilog2 x - 63) =
      2 powi 11 * (x * 2 powi (52 - ilog2 x)) * 2 powi (ilog2 x - 63)" using a(1) by simp
  then show "of_nat (oval (real_number x)) * 2 powi (real_exp x) = x"
    by (simp add: real_exp_def mult.assoc flip: power_int_add) (simp add: algebra_simps flip: power_int_add)
  show "real_octets 8 0 0 (Fin False (frac53 ?a)) = Inr (frac_octets 8 ?a, ?l)"
    using real_octets_ok [OF a(3), of 8 0 0] l0 by (auto simp: real_number_def)
  show "take ?l (frac_octets 8 ?a) = real_number x" by (simp only: real_number_def take_strip)
qed

text \<open>The length of the exponent.\<close>

lemma exp_masks:
  "push_bit 48 0x7f80 = (push_bit 55 (mask 8) :: ulong)" "drop_bit 8 (push_bit 55 (mask 8)) = (push_bit 47 (mask 8) :: ulong)"
  "drop_bit 8 (push_bit 47 (mask 8)) = (push_bit 39 (mask 8) :: ulong)" "drop_bit 8 (push_bit 39 (mask 8)) = (push_bit 31 (mask 8) :: ulong)"
  "drop_bit 8 (push_bit 31 (mask 8)) = (push_bit 23 (mask 8) :: ulong)" "drop_bit 8 (push_bit 23 (mask 8)) = (push_bit 15 (mask 8) :: ulong)"
  "drop_bit 8 (push_bit 15 (mask 8)) = (push_bit 7 (mask 8) :: ulong)"
  by (simp_all add: mask_eq_exp_minus_1)

lemma int_len_pos_8:
  assumes "unat (w :: ulong) < 2 ^ 15"
  shows "int_len_pos w (push_bit 48 0x7f80) 8 = (if unat w < 2 ^ 7 then 1 else 2)"
proof -
  have t: "w AND push_bit k (mask 8) = 0" if "15 \<le> k" "k \<le> 56" for k
  proof -
    have "(2 :: nat) ^ 15 \<le> 2 ^ k" using that(1) by (rule power_increasing) simp
    with assms have "unat w < 2 ^ k" by linarith
    moreover have "(2 :: nat) ^ k \<le> 2 ^ (k + 8)" by (rule power_increasing) simp_all
    ultimately have "unat w < 2 ^ (k + 8)" by linarith
    then show ?thesis using mask_test [of w k] that \<open>unat w < 2 ^ k\<close> by simp
  qed
  have 7: "w AND push_bit 7 (mask 8) = 0 \<longleftrightarrow> unat w < 2 ^ 7" by (rule mask_test) (use assms in simp_all)
  have step: "int_len_pos w m (Suc (Suc n)) =
      (if w AND m = 0 then int_len_pos w (drop_bit 8 m) (Suc n) else Suc (Suc n))" for m n
    by (subst int_len_pos.simps) simp
  have one: "int_len_pos w m (Suc 0) = 1" for m by (subst int_len_pos.simps) simp
  obtain m :: "nat \<Rightarrow> ulong" where m: "\<And>k. push_bit k (mask 8) = m k" by simp
  have "int_len_pos w (m 55) (Suc (Suc (Suc (Suc (Suc (Suc (Suc (Suc 0)))))))) = (if unat w < 2 ^ 7 then 1 else 2)"
    using 7 t by (simp add: m step one exp_masks [unfolded m])
  moreover have "8 = Suc (Suc (Suc (Suc (Suc (Suc (Suc (Suc 0)))))))" by simp
  ultimately show ?thesis unfolding exp_masks(1) m by metis
qed

lemma SignedIntOctetLen_small:
  assumes "- (2 ^ 15) \<le> j" and "j < 2 ^ 15"
  shows "SignedIntOctetLen (word_of_int j) = exp_len j"
proof -
  have s: "to_long (word_of_int j) = j"
    using assms by (simp add: to_long_def signed_of_int signed_take_bit_int_eq_self)
  have u: "unat (word_of_int i :: ulong) = nat i" if "0 \<le> i" "i < 2 ^ 15" for i
    using that by (simp add: unat_eq_nat_uint unsigned_of_int take_bit_int_eq_self)
  show ?thesis
  proof (cases "j < 0")
    case True
    have "NOT (word_of_int j) = (word_of_int (NOT j) :: ulong)" by (simp add: of_int_not_eq)
    then have "unat (NOT (word_of_int j) :: ulong) = nat (- j - 1)" using u [of "NOT j"] True assms by (simp add: not_int_def)
    then show ?thesis using True assms s int_len_pos_8 [of "NOT (word_of_int j)"]
      by (auto simp: SignedIntOctetLen_def exp_len_def)
  next
    case False
    then show ?thesis using assms s u [of j] int_len_pos_8 [of "word_of_int j"]
      by (auto simp: SignedIntOctetLen_def exp_len_def)
  qed
qed

lemma real_exp_range: "representable x \<Longrightarrow> 0 < x \<Longrightarrow> - 1129 \<le> real_exp x \<and> real_exp x < 1017"
  unfolding real_exp_def using real_frac_facts(4,5) [of x] real_number_facts(1,2) [of x] by linarith

lemma frexp_frac:
  assumes "representable x" and "0 < x"
  shows "x / 2 powi (ilog2 x + 1) = frac53 (real_frac x)"
proof -
  have "frac53 (real_frac x) = x * (2 powi (52 - ilog2 x) * 2 powi - 53)"
    unfolding frac53_def real_frac_facts(1) [OF assms] by (simp only: mult.assoc)
  also have "(2 :: rat) powi (52 - ilog2 x) * 2 powi - 53 = 2 powi - (ilog2 x + 1)"
    by (subst power_int_add [symmetric]) (simp_all add: algebra_simps)
  finally show ?thesis by (simp only: power_int_minus divide_inverse)
qed

context gen_writer
begin

lemma BEncAsnRealContent_emits:
  assumes "representable x" and "0 < x" and "\<not> fl_eq (Fin s x) (PLUS_INFINITY infs)" and "\<not> fl_eq (Fin s x) (MINUS_INFINITY infs)"
  shows "emits W out werr room (BEncAsnRealContent infs g (Fin s x)) (of_nat (length (real_contents s x))) (real_contents s x)"
proof -
  note n = real_number_facts [OF assms(1,2)]
  let ?l = "length (real_number x)" and ?e = "word_of_int (real_exp x) :: ulong"
  have m0: "0 < frac53 (real_frac x)"
    using real_frac_facts(2) [OF assms(1,2)] by (simp add: frac53_def)
  have r: "fl_round False (frac53 (real_frac x)) = Fin False (frac53 (real_frac x))"
    by (intro fl_round_representable representable_frac real_frac_facts(3) assms)
  have el: "SignedIntOctetLen ?e = exp_len (real_exp x)"
    using real_exp_range [OF assms(1,2)] by (intro SignedIntOctetLen_small) simp_all
  have e12: "\<not> 3 < exp_len (real_exp x)" "exp_len (real_exp x) = 1 \<or> exp_len (real_exp x) = 2" by (auto simp: exp_len_def)
  have ex: "ilog2 x + 1 - int ?l * 8 = real_exp x" by (simp add: real_exp_def)
  have z: "\<not> fl_eq (Fin s x) (Fin False 0)" using assms(2) by (auto simp: fl_eq_def signed_mag_def)
  let ?m = "frac53 (real_frac x)"
  have st: "frexp (Fin s x) = (Fin s ?m, ilog2 x + 1)" using assms(2) by (simp add: frexp_def frexp_frac [OF assms(1,2)])
  have sg: "fl_neg_less (Fin s ?m) = s" using m0 by (simp add: fl_neg_less_def signed_mag_def)
  have mm: "(if s then fl_mul (Fin s ?m) (fl_neg (fl_of_nat 1)) else Fin s ?m) = Fin False ?m"
    using r by (simp add: fl_mul_def fl_neg_def fl_of_nat_def)
  have fo: "(if exp_len (real_exp x) = 1 then 0x00 else if exp_len (real_exp x) = 2 then 0x01
      else if exp_len (real_exp x) = 3 then 0x02 else 0x03) = (if exp_len (real_exp x) = 1 then 0 else 1 :: byte)"
    using e12(2) by auto
  obtain L where lc: "length (real_contents s x) = L" by simp
  then have L: "?l + exp_len (real_exp x) + 1 = L" by (simp add: real_contents_def)
  have "BEncAsnRealContent infs g (Fin s x) =
      thenP (putSegRvs g (real_number x))
      (thenP (put_long g (exp_len (real_exp x)) ?e)
      (thenP (returnP ())
      (thenP (putByteRvs g (real_lead s x))
      (returnP (of_nat L)))))"
    unfolding BEncAsnRealContent_def real_lead_def
    by (simp only: L assms(3,4) z e12(1) st sg mm fo n(4,5) ex el Let_def prod.case sum.case if_False)
  moreover have "sint ?e = real_exp x"
    using real_exp_range [OF assms(1,2)] by (simp add: signed_of_int signed_take_bit_int_eq_self)
  ultimately show ?thesis
    unfolding lc using n(2) put_long_emits [of "exp_len (real_exp x)" ?e]
    by (auto simp: real_contents_def intro!: emits_seq [OF putSegRvs_emits] emits_seq [OF put_long_emits]
        emits_seq [OF emits_return] emits_seq [OF putByteRvs_emits] emits_return)
qed

end

section \<open>What the decoder reads\<close>

lemma real_sign_octet:
  "push_bit 8 (if c AND 0x80 \<noteq> 0 then - 1 else 0) OR ucast c = (word_of_int (sint (c :: byte)) :: ulong)"
proof (rule bit_word_eqI)
  fix n assume n: "n < LENGTH(64)"
  have "c AND 0x80 \<noteq> 0 \<longleftrightarrow> bit c 7"
    using and_exp_eq_0_iff_not_bit [of c 7] by simp
  then show "bit (push_bit 8 (if c AND 0x80 \<noteq> 0 then - 1 else 0) OR ucast c :: ulong) n = bit (word_of_int (sint c) :: ulong) n"
    using n by (cases "n = 7") (auto simp: bit_simps byte_bit_above min_def not_le split: if_splits)
qed

lemma real_exponent_stream:
  assumes "- (2 ^ 15) \<le> j" and "j < 2 ^ 15" and "firstOctet AND 0x03 = (if exp_len j = 1 then 0 else 1)"
  obtains e es w where "tc_bytes (exp_len j) j = e # es" and "to_long w = j"
    and "real_exponent fuel stream_ops firstOctet e (stream_of (es @ ys)) = (Inr (exp_len j, w), stream_of ys)"
proof -
  have v: "tc_val (tc_bytes (exp_len j) j) = j"
    using assms(1,2) tc_val_tc_bytes [of 0 j] tc_val_tc_bytes [of 1 j]
    by (auto simp: exp_len_def eval_nat_numeral simp del: tc_bytes.simps)
  have w: "to_long (word_of_int j) = j"
    using assms(1,2) by (simp add: to_long_def signed_of_int signed_take_bit_int_eq_self)
  show ?thesis
  proof (cases "exp_len j = 1")
    case True
    obtain e where e: "tc_bytes (exp_len j) j = [e]" using True by simp
    show ?thesis
      by (rule that [of e "[]" "word_of_int j"])
        (use e w v True assms(3) real_sign_octet [of e] in \<open>simp_all add: real_exponent_def prog_simps\<close>)
  next
    case False
    then have 2: "exp_len j = 2" by (auto simp: exp_len_def split: if_splits)
    then obtain e c where ec: "tc_bytes (exp_len j) j = [e, c]" by (simp add: eval_nat_numeral)
    have eq: "push_bit 16 z OR push_bit 8 (ucast e) OR ucast c = push_bit 8 (push_bit 8 z OR ucast e) OR (ucast c :: ulong)" for z
      by (simp add: push_bit_push_bit or.assoc)
    have "256 * sint e + uint c = j" using v ec by simp
    then have "push_bit 16 (if e AND 0x80 \<noteq> 0 then - 1 else 0) OR push_bit 8 (ucast e) OR ucast c = (word_of_int j :: ulong)"
      unfolding eq real_sign_octet using foldl_octets_of_int [of "sint e" "[c]", where 'a = 64]
      by (simp only: foldl.simps) simp
    then show ?thesis
      by (intro that [of e "[c]" "word_of_int j"])
        (use ec w 2 assms(3) in \<open>simp_all add: real_exponent_def prog_simps\<close>)
  qed
qed

lemma real_mantissa_append:
  "real_mantissa b (m + n) x = bindP (real_mantissa b m x) (real_mantissa b n)"
  by (induction m arbitrary: x) (auto simp: fun_eq_iff prog_simps split: prod.split sum.split)

lemma fl_add_nat:
  assumes "representable (of_nat (a + u))"
  shows "fl_add (Fin False (of_nat a)) (fl_of_nat u) = Fin False (of_nat (a + u))"
proof -
  have "signed_mag False (of_nat a) + signed_mag False (of_nat u) = (of_nat (a + u) :: rat)" by (simp add: signed_mag_def)
  moreover have "\<not> (of_nat (a + u) :: rat) < 0" "\<bar>of_nat (a + u) :: rat\<bar> = of_nat (a + u)" by simp_all
  ultimately show ?thesis
    using fl_round_representable [OF assms, of False] by (simp only: fl_add_def fl_of_nat_def prod.case dbl.case Let_def) auto
qed

lemma real_mantissa_step:
  assumes "oval bs < 2 ^ 53" and "representable (of_nat (oval (bs @ [c])))"
    and "real_mantissa stream_ops (length bs) (Fin False 0) (stream_of (bs @ c # ys)) = (Inr (Fin False (of_nat (oval bs))), stream_of (c # ys))"
  shows "real_mantissa stream_ops (length (bs @ [c])) (Fin False 0) (stream_of ((bs @ [c]) @ ys)) =
    (Inr (Fin False (of_nat (oval (bs @ [c])))), stream_of ys)"
proof -
  have "representable (of_nat (oval bs) * 2 powi 8)" using representable_scaled [OF assms(1), of 8] by simp
  then have "fl_mul (Fin False (of_nat (oval bs))) (fl_of_nat 256) = Fin False (of_nat (256 * oval bs))"
    by (simp add: fl_mul_def fl_of_nat_def fl_round_representable mult.commute)
  moreover have "fl_add (Fin False (of_nat (256 * oval bs))) (fl_of_nat (unat c)) = Fin False (of_nat (oval (bs @ [c])))"
    using fl_add_nat [of "256 * oval bs" "unat c"] assms(2) unfolding oval_snoc .
  ultimately show ?thesis
    using assms(3) real_mantissa_append [of stream_ops "length bs" 1 "Fin False 0"] by (simp add: prog_simps)
qed

lemma real_mantissa_small:
  "oval bs < 2 ^ 53 \<Longrightarrow> real_mantissa stream_ops (length bs) (Fin False 0) (stream_of (bs @ ys)) =
    (Inr (Fin False (of_nat (oval bs))), stream_of ys)"
proof (induction bs arbitrary: ys rule: rev_induct)
  case (snoc c bs)
  then have "oval bs < 2 ^ 53" by (simp add: oval_snoc)
  with snoc show ?case by (intro real_mantissa_step representable_nat) simp_all
qed (simp add: prog_simps)

lemma real_number_representable:
  assumes "representable x" and "0 < x"
  shows "representable (of_nat (oval (real_number x)))"
proof -
  note n = real_number_facts [OF assms] and a = real_frac_facts [OF assms]
  have "of_nat (oval (real_number x)) * 2 powi real_exp x = of_nat (real_frac x) * 2 powi (8 * int (length (real_number x)) - 53) * (2 :: rat) powi real_exp x"
    unfolding n(3) a(1) by (simp add: real_exp_def mult.assoc flip: power_int_add)
  then have o: "of_nat (oval (real_number x)) = of_nat (real_frac x) * (2 :: rat) powi (8 * int (length (real_number x)) - 53)"
    by simp
  show ?thesis unfolding o using n(2) by (intro representable_scaled a(3)) simp_all
qed

lemma real_mantissa_number:
  assumes "representable x" and "0 < x"
  shows "real_mantissa stream_ops (length (real_number x)) (Fin False 0) (stream_of (real_number x @ ys)) =
    (Inr (Fin False (of_nat (oval (real_number x)))), stream_of ys)"
proof -
  note n = real_number_facts [OF assms] and a = real_frac_facts [OF assms]
  obtain bs c where bs: "real_number x = bs @ [c]" using n(1) by (cases "real_number x" rule: rev_cases) auto
  have "oval bs < 256 ^ length bs" by (rule oval_less)
  also have "\<dots> \<le> 256 ^ 6" using n(2) by (intro power_increasing) (simp_all add: bs)
  finally have small: "oval bs < 2 ^ 53" by simp
  from real_number_representable [OF assms] have "representable (of_nat (oval (bs @ [c])))" by (simp only: bs)
  from real_mantissa_step [OF small this] real_mantissa_small [OF small] show ?thesis unfolding bs by simp
qed

text \<open>Powers of two below the least positive number are 0.\<close>

lemma fl_round_0:
  "x \<noteq> 0 \<Longrightarrow> max (ilog2 x - 52) (- 1074) = e \<Longrightarrow> round_half_even (x / 2 powi e) = 0 \<Longrightarrow> fl_round s x = Fin s 0"
  by (simp add: fl_round_def Let_def)

lemma powi_div: "(2 :: rat) powi a / 2 powi b = 2 powi (a - b)"
  by (simp add: power_int_diff)

lemma fl_pow_2:
  assumes "j < 1024"
  shows "fl_pow 2 j = Fin False (if j < - 1074 then 0 else 2 powi j)"
proof (cases "j < - 1074")
  case True
  have "0 < (2 :: rat) powi j" by simp
  have "(2 :: rat) powi j \<le> 2 powi - 1075" using True by (intro power_int_increasing) simp_all
  also have "\<dots> < 2 powi - 1074" by (rule power_int_strict_increasing) simp_all
  finally have "ilog2 (2 powi j) < - 1074" by (intro ilog2_le) simp_all
  then have m: "max (ilog2 (2 powi j) - 52) (- 1074) = - 1074" by simp
  have q: "(2 :: rat) powi j / 2 powi - 1074 = 2 powi (j + 1074)" by (simp only: powi_div) simp
  have h: "0 \<le> (2 :: rat) powi (j + 1074)" "(2 :: rat) powi (j + 1074) \<le> 1 / 2"
  proof -
    have "(2 :: rat) powi (j + 1074) \<le> 2 powi - 1" using True by (intro power_int_increasing) simp_all
    then show "(2 :: rat) powi (j + 1074) \<le> 1 / 2" by simp
  qed simp
  then have "floor ((2 :: rat) powi (j + 1074)) = 0" by (simp add: floor_eq_iff)
  then have "round_half_even ((2 :: rat) powi (j + 1074)) = 0" using h by (auto simp: round_half_even_def Let_def)
  from fl_round_0 [OF _ m, unfolded q, OF _ this] have "fl_round False (2 powi j) = Fin False 0" by simp
  then show ?thesis using True by (simp add: fl_pow_def)
next
  case False
  have "representable (2 powi j)"
    unfolding representable_def
  proof
    show "\<exists>n e. n < (2 :: nat) ^ 53 \<and> - 1074 \<le> e \<and> (2 :: rat) powi j = of_nat n * 2 powi e"
      using False by (intro exI [of _ 1] exI [of _ j]) simp
    show "(2 :: rat) powi j < 2 powi 1024" using assms by (intro power_int_strict_increasing) simp_all
  qed
  then show ?thesis using False by (simp add: fl_pow_def fl_round_representable)
qed

definition real_read :: "bool \<Rightarrow> rat \<Rightarrow> dbl" where
  "real_read s x = Fin s (if real_exp x < - 1074 then 0 else x)"

lemma real_lead_bits:
  "real_lead s x AND 0x80 \<noteq> 0" "real_lead s x AND 0x03 = (if exp_len (real_exp x) = 1 then 0 else 1)"
  "real_lead s x AND 0x0c = 0" "drop_bit 2 (real_lead s x) AND 3 = 0" "real_base (real_lead s x) = Some 2" "real_lead s x AND 0x40 = 0 \<longleftrightarrow> \<not> s"
  by (auto simp: real_lead_def real_base_def)

lemma BDecAsnRealContent_stream:
  assumes "representable x" and "0 < x"
  shows "BDecAsnRealContent infs fuel stream_ops t (of_nat (length (real_contents s x))) bd (stream_of (real_contents s x @ ys)) =
    (Inr (real_read s x, bd + of_nat (length (real_contents s x))), stream_of ys)"
proof -
  note n = real_number_facts [OF assms]
  let ?N = "of_nat (oval (real_number x)) :: rat"
  have r: "- (2 ^ 15) \<le> real_exp x" "real_exp x < 2 ^ 15" "real_exp x < 1024" using real_exp_range [OF assms] by simp_all
  obtain e es w where e: "tc_bytes (exp_len (real_exp x)) (real_exp x) = e # es" and w: "to_long w = real_exp x"
    and x: "real_exponent fuel stream_ops (real_lead s x) e (stream_of (es @ real_number x @ ys)) =
      (Inr (exp_len (real_exp x), w), stream_of (real_number x @ ys))"
    by (rule real_exponent_stream [OF r(1,2) real_lead_bits(2)])
  obtain L where L: "length (real_contents s x) = L" by simp
  have L': "L = 1 + exp_len (real_exp x) + length (real_number x)" using L by (auto simp: real_contents_def)
  have "1 \<le> exp_len (real_exp x)" "exp_len (real_exp x) \<le> 2" by (simp_all add: exp_len_def)
  then have b: "3 \<le> L" "L \<le> 10" using n(1,2) L' by linarith+
  then have u: "unat (of_nat L :: ulong) = L" by (simp add: unsigned_of_nat take_bit_nat_eq_self)
  then have i: "to_int (of_nat L) = int L" using b by (simp add: to_int_small)
  have ne: "(of_nat L :: ulong) \<noteq> 0" "(of_nat L :: ulong) \<noteq> 1" "(of_nat L :: ulong) \<noteq> INDEFINITE_LEN"
    using u b by (auto simp: INDEFINITE_LEN_def unsigned_minus_1_eq_mask mask_eq_exp_minus_1)
  have "fl_round False ?N = Fin False ?N" by (intro fl_round_representable real_number_representable assms)
  then have m1: "fl_mul (Fin False ?N) (fl_of_nat (Suc 0)) = Fin False ?N" by (simp add: fl_mul_def fl_of_nat_def)
  have p: "fl_mul (Fin False ?N) (fl_pow 2 (real_exp x)) = Fin False (if real_exp x < - 1074 then 0 else x)"
  proof (cases "real_exp x < - 1074")
    case True
    then show ?thesis by (simp add: fl_pow_2 r(3) fl_mul_def fl_round_def)
  next
    case False
    then show ?thesis using n(3) fl_round_representable [OF assms(1), of False] by (simp add: fl_pow_2 r(3) fl_mul_def)
  qed
  have mn: "nat (to_int (of_nat L) - int (1 + exp_len (real_exp x))) = length (real_number x)" unfolding i using L' by simp
  have "BDecAsnRealContent infs fuel stream_ops t (of_nat L) bd (stream_of (real_lead s x # e # es @ real_number x @ ys)) =
      (Inr (real_read s x, bd + of_nat L), stream_of ys)"
    using real_lead_bits(1,5,6) [of s x]
    by (simp add: BDecAsnRealContent_def prog_simps ne x mn [simplified] real_mantissa_number [OF assms] m1 real_lead_bits(4) w p real_read_def fl_neg_def
        del: of_nat_add)
  then show ?thesis unfolding L by (simp add: real_contents_def e)
qed

section \<open>On every buffer\<close>

context byte_reader
begin

lemma real_long_exponent_sim: "sim I v (=) (real_long_exponent fuel g i e) (real_long_exponent fuel stream_ops i e)"
  by (induction fuel arbitrary: e) (auto intro!: sim_intros getByte_sim)

lemma real_exponent_sim: "sim I v (=) (real_exponent fuel g fo fe) (real_exponent fuel stream_ops fo fe)"
  unfolding real_exponent_def by (intro sim_intros getByte_sim real_long_exponent_sim refl)

lemma real_mantissa_sim: "sim I v (=) (real_mantissa g n m) (real_mantissa stream_ops n m)"
  by (induction n arbitrary: m) (auto intro!: sim_intros getByte_sim)

lemma sim_case_option:
  "sim I v R m m' \<Longrightarrow> (\<And>a. sim I v R (f a) (f' a)) \<Longrightarrow>
    sim I v R (case c of None \<Rightarrow> m | Some a \<Rightarrow> f a) (case c of None \<Rightarrow> m' | Some a \<Rightarrow> f' a)"
  by (cases c) simp_all

lemma BDecAsnRealContent_sim:
  "sim I v (=) (BDecAsnRealContent infs fuel g t len bd) (BDecAsnRealContent infs fuel stream_ops t len bd)"
  unfolding BDecAsnRealContent_def
  by (intro sim_intros sim_case_option getByte_sim real_exponent_sim real_mantissa_sim refl)

lemma BDecAsnReal_sim: "sim I v (=) (BDecAsnReal infs fuel g bd) (BDecAsnReal infs fuel stream_ops bd)"
  unfolding BDecAsnReal_def by (intro sim_intros BDecAsnRealContent_sim BDecTag_sim BDecLen_sim refl)

end

lemma length_tlv_short:
  assumes "length xs < 128" and "cd < 31"
  shows "length (tlv cl fm cd xs) = length xs + 2"
proof -
  have "unat (of_nat (length xs) :: ulong) < 128" using assms(1) by (simp add: unsigned_of_nat take_bit_nat_eq_self)
  then have "(of_nat (length xs) :: ulong) < 128" by (simp add: word_less_nat_alt)
  then show ?thesis using assms(2) by (simp add: tlv_def tag_octets_def len_octets_def)
qed

lemma length_real_contents: "representable x \<Longrightarrow> 0 < x \<Longrightarrow> length (real_contents s x) \<le> 10"
  using real_number_facts(2) [of x] by (auto simp: real_contents_def exp_len_def)

lemma BDecAsnReal_tlv:
  assumes "representable x" and "0 < x"
  shows "BDecAsnReal infs fuel stream_ops bd (stream_of (tlv UNIV_CLASS PRIM 9 (real_contents s x) @ ys)) =
    (Inr (real_read s x, bd + of_nat (length (tlv UNIV_CLASS PRIM 9 (real_contents s x)))), stream_of ys)"
proof -
  have "length (real_contents s x) < 2 ^ 32" using length_real_contents [OF assms, of s] by simp
  then show ?thesis
    unfolding BDecAsnReal_def code_val.simps
    by (subst read_header) (simp_all add: tlv_proper BDecAsnRealContent_stream [OF assms] add.assoc tlv_header_length)
qed

context gen_writer
begin

lemma BEncAsnReal_emits:
  assumes "representable x" and "0 < x" and "\<not> fl_eq (Fin s x) (PLUS_INFINITY infs)" and "\<not> fl_eq (Fin s x) (MINUS_INFINITY infs)"
  shows "emits W out werr room (BEncAsnReal infs g (Fin s x))
    (of_nat (length (tlv UNIV_CLASS PRIM 9 (real_contents s x)))) (tlv UNIV_CLASS PRIM 9 (real_contents s x))"
  unfolding BEncAsnReal_def code_val.simps by (rule emits_tlv [OF BEncAsnRealContent_emits [OF assms]]) simp

end

section \<open>Zero, infinities, long exponents\<close>

lemma representable_nonneg: "representable x \<Longrightarrow> 0 \<le> x"
  by (auto simp: representable_def)

lemma BEncAsnRealContent_zero: "BEncAsnRealContent infs g (Fin s 0) = returnP 0"
  by (simp add: BEncAsnRealContent_def fl_eq_def signed_mag_def)

lemma BDecAsnReal_zero:
  "BDecAsnReal infs fuel stream_ops bd (stream_of (tlv UNIV_CLASS PRIM 9 [] @ ys)) =
    (Inr (Fin False 0, bd + of_nat (length (tlv UNIV_CLASS PRIM 9 []))), stream_of ys)"
  unfolding BDecAsnReal_def code_val.simps
  using read_header [of UNIV_CLASS PRIM 9 "[]"]
  by (subst read_header) (simp_all add: tlv_proper BDecAsnRealContent_def prog_simps)

text \<open>The globals after \<open>InitAsnInfinity\<close> are tiny numbers.\<close>

lemma PLUS_INFINITY_value: "PLUS_INFINITY InitAsnInfinity = Fin False (61567 * 2 powi - 1074)"
proof -
  have w: "be_val (rev ([0x7f, 0xf0] @ replicate 6 0)) = (0xF07F :: 64 word)" by code_simp
  have u: "unat (0xF07F :: 64 word) = 61567" by simp
  then have "unat (drop_bit 52 (0xF07F :: 64 word)) = 0" unfolding unat_drop_bit_div u by simp
  then have d: "drop_bit 52 (0xF07F :: 64 word) = 0" by (simp only: unat_eq_0)
  have b: "bit (0xF07F :: 64 word) 63 = False" "unat (take_bit 11 (0 :: 64 word)) = 0" "unat (take_bit 52 (0xF07F :: 64 word)) = 61567"
    using not_bit_above [of "0xF07F :: 64 word" 16 63] take_bit_small [of "0xF07F :: 64 word" 52] u by simp_all
  have "dbl_of_bits 0xF07F = Fin False (of_nat 61567 * 2 powi - 1074)"
    unfolding dbl_of_bits_def d b Let_def by (simp only: if_True if_False zero_neq_numeral simp_thms)
  then show ?thesis by (simp only: InitAsnInfinity_def w Let_def infinities.simps of_nat_numeral)
qed

text \<open>An infinity has no octets: its conversion to an integer is undefined.\<close>

lemma BEncAsnRealContent_Infinite:
  assumes "\<not> fl_eq (Infinite s) (PLUS_INFINITY infs)" and "\<not> fl_eq (Infinite s) (MINUS_INFINITY infs)"
  shows "BEncAsnRealContent infs g (Infinite s) = stopP Fault"
proof -
  have "real_octets 8 0 0 (Infinite t) = Inl Fault" for t
    by (simp add: eval_nat_numeral fl_mul_def fl_of_nat_def fl_to_uint_def)
  then show ?thesis
    using assms by (auto simp: BEncAsnRealContent_def fl_eq_def frexp_def fl_mul_def fl_neg_def fl_of_nat_def Let_def)
qed

text \<open>The loop for long exponents does not end.\<close>

lemma real_long_exponent_diverges: "0 < i \<Longrightarrow> fst (real_long_exponent fuel stream_ops i e s) = Inl NoFuel"
  by (induction fuel arbitrary: e s) (simp_all add: prog_simps stream_ops_def stream_getByte_def split: list.split)

lemma BDecAsnRealContent_diverges:
  assumes "fo AND 0x83 = 0x83" and "2 \<le> unat fe" and "len \<noteq> 0" and "len \<noteq> 1" and "len \<noteq> INDEFINITE_LEN"
  shows "fst (BDecAsnRealContent infs fuel stream_ops t len bd (stream_of (fo # fe # xs))) = Inl NoFuel"
proof -
  have fo: "fo AND 0x80 \<noteq> 0" "fo AND 0x03 = 0x03"
  proof -
    have "fo AND 0x80 = (fo AND 0x83) AND 0x80" "fo AND 0x03 = (fo AND 0x83) AND 0x03" by (simp_all add: and.assoc)
    then show "fo AND 0x80 \<noteq> 0" "fo AND 0x03 = 0x03" unfolding assms(1) by simp_all
  qed
  obtain c s where c: "getByte stream_ops (stream_of xs) = (Inr c, s)"
    by (cases xs) (simp_all add: prog_simps)
  have i: "0 < int (unat fe) - 1" using assms(2) by linarith
  obtain s' where "real_long_exponent fuel stream_ops (int (unat fe) - 1)
      (if c AND 0x80 \<noteq> 0 then push_bit 8 (- 1) OR ucast c else ucast c) s = (Inl NoFuel, s')"
    using real_long_exponent_diverges [OF i] by (metis prod.collapse)
  then have "real_exponent fuel stream_ops fo fe (stream_of xs) = (Inl NoFuel, s')"
    using c by (simp only: real_exponent_def fo Let_def bindP_run) (simp add: bindP_run)
  then show ?thesis
    using fo assms(3-5) by (simp add: BDecAsnRealContent_def bindP_run stream_ops_getByte_Cons)
qed

end
