(* ===== verification/Tbl_Types.thy ===== *)
theory Tbl_Types
  imports Asn_Tag
begin

text \<open>
  Type tables: ASN.1 types as data, for encoding and decoding without generated code. The structures of
  \<open>c-lib/boot/tbl.h\<close> and the utilities of \<open>c-lib/src/tbl-util.c\<close>: looking types up, resolving references,
  and preparing the tags.

  A list of the C library is a HOL list here. Its loops move the cursor \<open>curr\<close> of the list itself, so a loop over
  the elements of a type that meets the same type again would be disturbed by the inner one; each of them puts the
  cursor back when it ends, and therefore the cursor is left out. A pointer to a type definition is its place in
  the table: the index of the module and the index in the module. Field names, constraints and named values are
  only printed, and left out.
\<close>

section \<open>Tables\<close>

text \<open>An enumeration read from a file may hold any integer: \<open>TBL_OTHER\<close>.\<close>

datatype TBLTypeId =
  TBL_BOOLEAN | TBL_INTEGER | TBL_BITSTRING | TBL_OCTETSTRING | TBL_NULL | TBL_OID | TBL_REAL | TBL_ENUMERATED
  | TBL_SEQUENCE | TBL_SET | TBL_SEQUENCEOF | TBL_SETOF | TBL_CHOICE | TBL_TYPEREF | TBL_OTHER int

datatype TBLTagClass = UNIVERSAL | APPLICATION | CONTEXT | PRIVATE

record TBLTag =
  tclass :: TBLTagClass
  code :: "32 word"
  form :: BER_FORM
  encTag :: AsnTag

datatype TBLType =
  TBLType (typeId: TBLTypeId) (optional: bool) (tagList: "TBLTag list option") (content: TBLTypeContent)
and TBLTypeContent =
  PrimType
  | Elmts "TBLType list"
  | TypeRef (typeDef: "32 word") (implicit: bool) (typeDefPtr: "(nat \<times> nat) option")

record TBLTypeDef =
  typeDefId :: "32 word"
  typeName :: string
  td_type :: TBLType

record TBLModule =
  mod_name :: string
  typeDefs :: "TBLTypeDef list"

record TBL =
  modules :: "TBLModule list"

text \<open>Following a pointer to a type definition.\<close>

definition deref :: "TBL \<Rightarrow> (nat \<times> nat) option \<Rightarrow> stop + TBLTypeDef" where
  "deref tbl p =
     (case p of
        Some (m, d) \<Rightarrow>
          if m < length (modules tbl) \<and> d < length (typeDefs (modules tbl ! m)) then Inr (typeDefs (modules tbl ! m) ! d)
          else Inl Fault
      | None \<Rightarrow> Inl Fault)"

text \<open>\<open>tagList == NULL || LIST_EMPTY (tagList)\<close>, and the list as the loops see it.\<close>

definition no_tags :: "TBLType \<Rightarrow> bool" where
  "no_tags t \<longleftrightarrow> (case tagList t of None \<Rightarrow> True | Some ts \<Rightarrow> ts = [])"

definition tags_of :: "TBLType \<Rightarrow> TBLTag list" where
  "tags_of t = (case tagList t of None \<Rightarrow> [] | Some ts \<Rightarrow> ts)"

section \<open>Looking up\<close>

fun find_from :: "('a \<Rightarrow> bool) \<Rightarrow> nat \<Rightarrow> 'a list \<Rightarrow> nat option" where
  "find_from p i [] = None"
| "find_from p i (x # xs) = (if p x then Some i else find_from p (i + 1) xs)"

definition TblFindModule :: "TBL \<Rightarrow> string \<Rightarrow> nat option" where
  "TblFindModule tbl modName = find_from (\<lambda>m. mod_name m = modName) 0 (modules tbl)"

definition TblFindTypeDefInMod :: "TBLModule \<Rightarrow> string \<Rightarrow> nat option" where
  "TblFindTypeDefInMod tblMod name = find_from (\<lambda>td. typeName td = name) 0 (typeDefs tblMod)"

text \<open>The loop over the modules, with the search in each.\<close>

fun find_in_modules :: "(TBLModule \<Rightarrow> nat option) \<Rightarrow> nat \<Rightarrow> TBLModule list \<Rightarrow> (nat \<times> nat) option" where
  "find_in_modules f i [] = None"
| "find_in_modules f i (m # ms) = (case f m of Some d \<Rightarrow> Some (i, d) | None \<Rightarrow> find_in_modules f (i + 1) ms)"

definition TblFindTypeDef :: "TBL \<Rightarrow> string option \<Rightarrow> string \<Rightarrow> (nat \<times> nat) option" where
  "TblFindTypeDef tbl modName name =
     (case modName of
        Some n \<Rightarrow>
          (case TblFindModule tbl n of
             None \<Rightarrow> None
           | Some m \<Rightarrow> map_option (Pair m) (TblFindTypeDefInMod (modules tbl ! m) name))
      | None \<Rightarrow> find_in_modules (\<lambda>m. TblFindTypeDefInMod m name) 0 (modules tbl))"

definition TblFindTypeDefByIndex :: "TBL \<Rightarrow> 32 word \<Rightarrow> (nat \<times> nat) option" where
  "TblFindTypeDefByIndex tbl ident =
     find_in_modules (\<lambda>m. find_from (\<lambda>td. typeDefId td = ident) 0 (typeDefs m)) 0 (modules tbl)"

section \<open>Resolving references\<close>

text \<open>A type without the content its identifier calls for would have its union misread.\<close>

fun TblLinkTypeRefs :: "TBL \<Rightarrow> TBLType \<Rightarrow> stop + TBLType"
  and link_elmts :: "TBL \<Rightarrow> TBLType list \<Rightarrow> stop + TBLType list" where
  "TblLinkTypeRefs tbl (TBLType i opt ts c) =
     (if i \<in> {TBL_SEQUENCE, TBL_SET, TBL_SEQUENCEOF, TBL_SETOF, TBL_CHOICE} then
        (case c of
           Elmts es \<Rightarrow> map_sum id (\<lambda>es. TBLType i opt ts (Elmts es)) (link_elmts tbl es)
         | _ \<Rightarrow> Inl Fault)
      else if i = TBL_TYPEREF then
        (case c of
           TypeRef d impl p \<Rightarrow> Inr (TBLType i opt ts (TypeRef d impl (TblFindTypeDefByIndex tbl d)))
         | _ \<Rightarrow> Inl Fault)
      else Inr (TBLType i opt ts c))"
| "link_elmts tbl [] = Inr []"
| "link_elmts tbl (e # es) =
     (case TblLinkTypeRefs tbl e of
        Inl x \<Rightarrow> Inl x
      | Inr e \<Rightarrow> map_sum id (Cons e) (link_elmts tbl es))"

primrec map_stop :: "('a \<Rightarrow> stop + 'b) \<Rightarrow> 'a list \<Rightarrow> stop + 'b list" where
  "map_stop f [] = Inr []"
| "map_stop f (x # xs) = (case f x of Inl e \<Rightarrow> Inl e | Inr y \<Rightarrow> map_sum id (Cons y) (map_stop f xs))"

text \<open>The loops of \<open>TblLinkIndexes\<close> and \<open>TblFixTags\<close> over all type definitions.\<close>

definition each_type :: "(TBLType \<Rightarrow> stop + TBLType) \<Rightarrow> TBL \<Rightarrow> stop + TBL" where
  "each_type f tbl =
     map_sum id (\<lambda>ms. tbl\<lparr>modules := ms\<rparr>)
       (map_stop (\<lambda>m. map_sum id (\<lambda>tds. m\<lparr>typeDefs := tds\<rparr>)
          (map_stop (\<lambda>td. map_sum id (\<lambda>t. td\<lparr>td_type := t\<rparr>) (f (td_type td))) (typeDefs m))) (modules tbl))"

definition TblLinkIndexes :: "TBL \<Rightarrow> stop + TBL" where
  "TblLinkIndexes tbl = each_type (TblLinkTypeRefs tbl) tbl"

section \<open>Preparing tags\<close>

definition TblTagClassToBer :: "TBLTagClass \<Rightarrow> BER_CLASS" where
  "TblTagClassToBer c = (case c of UNIVERSAL \<Rightarrow> UNIV_CLASS | APPLICATION \<Rightarrow> APPL | CONTEXT \<Rightarrow> CNTX | PRIVATE \<Rightarrow> PRIV)"

text \<open>
  The loop that goes through references and counts tags; it starts at the type itself, whose tags have been
  counted before, and ends before those of the type referred to are. It never ends on a circle of references.
\<close>

fun skip_refs :: "nat \<Rightarrow> TBL \<Rightarrow> TBLType \<Rightarrow> int \<Rightarrow> stop + TBLTypeId \<times> int" where
  "skip_refs fuel tbl t numTags =
     (if typeId t \<noteq> TBL_TYPEREF then Inr (typeId t, numTags)
      else case fuel of
        0 \<Rightarrow> Inl NoFuel
      | Suc fuel \<Rightarrow>
          (case content t of
             TypeRef d impl p \<Rightarrow>
               (case deref tbl p of
                  Inl e \<Rightarrow> Inl e
                | Inr td \<Rightarrow> skip_refs fuel tbl (td_type td) (numTags + int (length (tags_of t)) - (if impl then 1 else 0)))
           | _ \<Rightarrow> Inl Fault))"

declare skip_refs.simps [simp del]

text \<open>The forms of one tag: what is kept in the tag and what goes into its encoded form.\<close>

definition tag_forms :: "TBLTypeId \<Rightarrow> int \<Rightarrow> BER_FORM \<times> BER_FORM" where
  "tag_forms tid numTags =
     (if numTags > 1 then (CONS, CONS)
      else if tid \<in> {TBL_SEQUENCE, TBL_SET, TBL_SEQUENCEOF, TBL_SETOF, TBL_CHOICE} then (CONS, CONS)
      else if tid \<in> {TBL_OCTETSTRING, TBL_BITSTRING} then (ANY_FORM, PRIM)
      else (PRIM, PRIM))"

fun set_tag_forms :: "TBLTypeId \<Rightarrow> int \<Rightarrow> TBLTag list \<Rightarrow> TBLTag list" where
  "set_tag_forms tid numTags [] = []"
| "set_tag_forms tid numTags (tg # tgs) =
     (case tag_forms tid numTags of (kept, fm) \<Rightarrow>
        tg\<lparr>form := kept, encTag := MAKE_TAG_ID (TblTagClassToBer (tclass tg)) fm (code tg)\<rparr>
        # set_tag_forms tid (numTags - 1) tgs)"

definition TblSetTagForms :: "nat \<Rightarrow> TBL \<Rightarrow> TBLType \<Rightarrow> stop + TBLType" where
  "TblSetTagForms fuel tbl t =
     (case tagList t of
        None \<Rightarrow> Inr t
      | Some tgs \<Rightarrow>
          map_sum id (\<lambda>(tid, numTags). TBLType (typeId t) (optional t) (Some (set_tag_forms tid numTags tgs)) (content t))
            (skip_refs fuel tbl t (int (length tgs))))"

fun TblFixTypeTags :: "nat \<Rightarrow> TBL \<Rightarrow> TBLType \<Rightarrow> stop + TBLType"
  and fix_elmts :: "nat \<Rightarrow> TBL \<Rightarrow> TBLType list \<Rightarrow> stop + TBLType list" where
  "TblFixTypeTags fuel tbl (TBLType i opt ts c) =
     (case TblSetTagForms fuel tbl (TBLType i opt ts c) of
        Inl e \<Rightarrow> Inl e
      | Inr t \<Rightarrow>
          if i \<in> {TBL_SEQUENCE, TBL_SET, TBL_SEQUENCEOF, TBL_SETOF, TBL_CHOICE} then
            (case c of
               Elmts es \<Rightarrow> map_sum id (\<lambda>es. TBLType i opt (tagList t) (Elmts es)) (fix_elmts fuel tbl es)
             | _ \<Rightarrow> Inl Fault)
          else Inr t)"
| "fix_elmts fuel tbl [] = Inr []"
| "fix_elmts fuel tbl (e # es) =
     (case TblFixTypeTags fuel tbl e of
        Inl x \<Rightarrow> Inl x
      | Inr e \<Rightarrow> map_sum id (Cons e) (fix_elmts fuel tbl es))"

definition TblFixTags :: "nat \<Rightarrow> TBL \<Rightarrow> stop + TBL" where
  "TblFixTags fuel tbl = each_type (TblFixTypeTags fuel tbl) tbl"

text \<open>What \<open>LoadTblFile\<close> does with a table it has decoded.\<close>

definition prepare_tbl :: "nat \<Rightarrow> TBL \<Rightarrow> stop + TBL" where
  "prepare_tbl fuel tbl = (case TblLinkIndexes tbl of Inl e \<Rightarrow> Inl e | Inr tbl \<Rightarrow> TblFixTags fuel tbl)"

end
