(* ===== verification/Asn_Peek.thy ===== *)
theory Asn_Peek
  imports Asn_Tag S_Buf
begin

text \<open>
  Looking ahead: \<open>PeekTag\<close> (\<open>asn-tag.c\<close>) and \<open>PeekEoc\<close> (\<open>asn-len.c\<close>), which the table driven decoder
  decides with. They need a buffer whose \<open>peekByte\<close> and \<open>peekCopy\<close> see the unread octets, which the simple
  buffer is and the expandable buffer, at the end of a block, is not.
\<close>

section \<open>The contract\<close>

locale peek_reader = gen_reader +
  assumes peekByte_sim: "sim I v (=) (peekByte g) (peekByte stream_ops)"
    and peekCopy_sim: "sim I v (=) (peekCopy g len) (peekCopy stream_ops len)"
begin

lemma PeekEoc_sim: "sim I v (=) (PeekEoc g) (PeekEoc stream_ops)"
  unfolding PeekEoc_def by (intro sim_intros peekByte_sim refl)

lemma sim_mem_read:
  "(\<And>e. sim I v R (stopP e) (stopP e)) \<Longrightarrow> (\<And>c. sim I v R (f c) (f' c)) \<Longrightarrow>
    sim I v R (case mem_read buf i of Inl e \<Rightarrow> stopP e | Inr c \<Rightarrow> f c) (case mem_read buf i of Inl e \<Rightarrow> stopP e | Inr c \<Rightarrow> f' c)"
  by (cases "mem_read buf i") simp_all

lemma PeekTag_loop_sim: "sim I v (=) (PeekTag_loop g buf t i) (PeekTag_loop stream_ops buf t i)"
proof (induction "4 - i" arbitrary: buf t i rule: less_induct)
  case less
  show ?case
    by (subst (1 2) PeekTag_loop.simps) (intro sim_intros sim_mem_read peekCopy_sim less refl; arith)
qed

lemma PeekTag_sim: "sim I v (=) (PeekTag g) (PeekTag stream_ops)"
  unfolding PeekTag_def by (intro sim_intros sim_mem_read peekCopy_sim PeekTag_loop_sim refl)

end

interpretation st: peek_reader stream_ops "\<lambda>_. True" id
  by unfold_locales (simp_all add: sim_refl)

lemma sbuf_peekByte_sim: "sim sbuf_reading sbuf_unread (=) SBufPeekByte (peekByte stream_ops)"
proof (rule simI)
  fix b assume b: "sbuf_reading b"
  show "\<exists>x c y. SBufPeekByte b = (x, c) \<and> peekByte stream_ops (sbuf_unread b) = (y, sbuf_unread c) \<and>
      sbuf_reading c \<and> rel_sum (=) (=) x y"
  proof (cases "SBufEod b")
    case True
    with b show ?thesis
      by (simp add: SBufPeekByte_def SBufEod_def sbuf_reading_def sbuf_unread_def stream_ops_def)
  next
    case False
    then have lt: "sb_readLoc b < sb_dataEnd b" "sb_readLoc b < length (sb_blk b)"
      using b by (simp_all add: SBufEod_def sbuf_reading_def)
    then have "drop (sb_readLoc b) (sb_blk b) = sb_blk b ! sb_readLoc b # drop (Suc (sb_readLoc b)) (sb_blk b)"
      by (simp add: Cons_nth_drop_Suc)
    then show ?thesis using b False lt
      by (simp add: SBufPeekByte_def sbuf_reading_def sbuf_unread_def mem_read_def stream_ops_def take_Cons')
  qed
qed

lemma sbuf_peekCopy_sim: "sim sbuf_reading sbuf_unread (=) (SBufPeekCopy len) (peekCopy stream_ops len)"
proof (rule simI)
  fix b assume b: "sbuf_reading b"
  obtain n where n: "unat len = n" by simp
  show "\<exists>x c y. SBufPeekCopy len b = (x, c) \<and> peekCopy stream_ops len (sbuf_unread b) = (y, sbuf_unread c) \<and>
      sbuf_reading c \<and> rel_sum (=) (=) x y"
    using b by (auto simp: SBufPeekCopy_def stream_ops_def sbuf_reading_def sbuf_unread_def mem_slice_def n min_def)
qed

interpretation sb: peek_reader sBufOpsG sbuf_reading sbuf_unread
  by unfold_locales (simp_all add: sbuf_peekByte_sim sbuf_peekCopy_sim)

section \<open>Peeking at a tag\<close>

lemma stream_peekCopy [prog_simps]:
  "peekCopy stream_ops len (stream_of xs) =
    (Inr (take (unat len) xs), if length xs < unat len then \<lparr>rest = xs, rerr = True\<rparr> else stream_of xs)"
  by (simp add: stream_ops_def stream_of_def)

lemma stream_peekByte [prog_simps]: "peekByte stream_ops (stream_of (x # xs)) = (Inr x, stream_of (x # xs))"
  by (simp add: stream_ops_def)

text \<open>At the end of the data the octet looked at has never been set.\<close>

lemma PeekTag_eod: "fst (PeekTag stream_ops (stream_of [])) = Inl Fault"
  by (simp add: PeekTag_def prog_simps mem_read_def)

text \<open>Octets \<open>p\<close> have been seen, \<open>ys\<close> follow.\<close>

lemma PeekTag_loop_stream:
  assumes "i \<le> 4" and "length p = i - 1" and "length buf = i - 1" and "1 \<le> i"
  shows "case tag_tail (5 - i) ys of
      None \<Rightarrow> fst (PeekTag_loop stream_ops buf tagId i (stream_of (p @ ys))) = Inl Fault
    | Some t \<Rightarrow> PeekTag_loop stream_ops buf tagId i (stream_of (p @ ys)) =
        (Inr (tagId OR tag_word i t, i + length t), stream_of (p @ ys)) \<and> i + length t \<le> 5"
  using assms
proof (induction "5 - i" ys arbitrary: i tagId p buf rule: tag_tail.induct)
  case 1
  have "unat (of_nat i :: ulong) = i" by (rule unat_of_nat_small) (use 1 in simp)
  with 1 show ?case by (subst PeekTag_loop.simps) (simp add: prog_simps mem_read_def)
next
  case (2 y ys)
  have u: "unat (of_nat i :: ulong) = i" by (rule unat_of_nat_small) (use "2.prems" in simp)
  have r: "mem_read (take i (p @ y # ys) @ drop (length (take i (p @ y # ys))) buf) (i - 1) = Inr y"
    using "2.prems" by (simp add: mem_read_def nth_append)
  have run: "PeekTag_loop stream_ops buf tagId i (stream_of (p @ y # ys)) =
      (if ucast y AND 0x80 \<noteq> (0 :: AsnTag) \<and> i + 1 \<le> 4
       then PeekTag_loop stream_ops (take i (p @ y # ys) @ drop (length (take i (p @ y # ys))) buf)
              (tagId OR push_bit ((4 - i) * 8) (ucast y)) (i + 1) (stream_of (p @ y # ys))
       else (Inr (tagId OR push_bit ((4 - i) * 8) (ucast y), i + 1), stream_of (p @ y # ys)))"
    using "2.prems" r by (subst PeekTag_loop.simps) (simp add: bindP_run stream_peekCopy u Let_def returnP_run)
  show ?case
  proof (cases "y AND 0x80 \<noteq> 0 \<and> 5 - i > 1")
    case True
    then have i: "i + 1 \<le> 4" "5 - i - 1 = 5 - (i + 1)" by auto
    have l: "length (p @ [y]) = i + 1 - 1" "length (take i (p @ y # ys) @ drop (length (take i (p @ y # ys))) buf) = i + 1 - 1" "1 \<le> i + 1"
      using "2.prems" by auto
    note IH = "2.hyps" [OF True i(2,1) l, of "tagId OR push_bit ((4 - i) * 8) (ucast y)"]
    show ?thesis
    proof (cases "tag_tail (5 - (i + 1)) ys")
      case None
      with IH True i run show ?thesis by (simp add: ucast_bit7)
    next
      case (Some t)
      with IH True i run show ?thesis by (simp add: ucast_bit7 or.assoc)
    qed
  next
    case False
    with 2(2) run show ?thesis by (auto simp: ucast_bit7)
  qed
qed

text \<open>\<open>PeekTag\<close> sees the tag that \<open>BDecTag\<close> reads; where that one meets the end of the data, it looks at an
  octet that has never been set.\<close>

lemma PeekTag_result:
  "case tag_result bd xs of
     Inr (t, n) \<Rightarrow> PeekTag stream_ops (stream_of xs) = (Inr t, stream_of xs)
   | Inl e \<Rightarrow> fst (PeekTag stream_ops (stream_of xs)) = Inl Fault"
proof (cases xs)
  case Nil
  then show ?thesis by (simp add: PeekTag_eod tag_result_def)
next
  case (Cons x ys)
  show ?thesis
    using PeekTag_loop_stream [where i = 2 and p = "[x]" and buf = "[x]" and ys = ys and tagId = "push_bit 24 (ucast x)"]
    by (cases "PeekTag_loop stream_ops [x] (push_bit 24 (ucast x)) 2 (stream_of (x # ys))")
      (auto simp: PeekTag_def tag_result_def prog_simps Cons long_form_simps mem_read_def numeral_2_eq_2 [symmetric]
        split: option.splits)
qed

lemma PeekTag_tag_octets:
  assumes "proper_class cl" and "proper_form fm" and "unat cd < 2 ^ 21"
  shows "PeekTag stream_ops (stream_of (tag_octets cl fm cd @ ys)) =
    (Inr (MAKE_TAG_ID cl fm cd), stream_of (tag_octets cl fm cd @ ys))"
  using PeekTag_result [where bd = 0 and xs = "tag_octets cl fm cd @ ys"] BDecTag_stream [of 0 "tag_octets cl fm cd @ ys"]
  by (simp add: BDecTag_tag_octets [OF assms] split: sum.splits)

end
