(* ===== verification/Tbl_Codec.thy ===== *)
theory Tbl_Codec
  imports Tbl_Types Asn_Peek Asn_Bits Asn_Oid Asn_Real
begin

text \<open>
  Encoding and decoding by type tables: \<open>c-lib/src/tbl-enc.c\<close> and \<open>c-lib/src/tbl-dec.c\<close>. The routines
  interpret a type of a table, calling the encoders and decoders of contents of the library.

  The recursion over types follows references and may not end; it gets fuel, and a function that runs out of it
  stops with \<open>NoFuel\<close>. The switch over the kind of the type is a definition of its own, with the recursive call
  as an argument.
\<close>

section \<open>Values\<close>

text \<open>
  An \<open>AVal\<close> is untyped memory that the code reads as the structure its type calls for; here it knows which one
  it is, and reading it as another is a \<open>Fault\<close>. A pointer that may be null is an option. The structure of a
  SEQUENCE or SET is an array of pointers, the list of a SEQUENCE OF a list of pointers, a choice the index of the
  alternative and a pointer.
\<close>

datatype AVal =
  ABool AsnBool | AInt AsnInt | ABits AsnBits | AOcts AsnOcts | ANull | AOid AsnOcts | AReal AsnReal
  | AStructVal "AVal option list" | AListVal "AVal option list" | AChoiceVal nat "AVal option"

definition bool_ptr :: "AVal option \<Rightarrow> stop + AsnBool" where
  "bool_ptr v = (case v of Some (ABool x) \<Rightarrow> Inr x | _ \<Rightarrow> Inl Fault)"

definition int_ptr :: "AVal option \<Rightarrow> stop + AsnInt" where
  "int_ptr v = (case v of Some (AInt x) \<Rightarrow> Inr x | _ \<Rightarrow> Inl Fault)"

definition bits_ptr :: "AVal option \<Rightarrow> stop + AsnBits" where
  "bits_ptr v = (case v of Some (ABits x) \<Rightarrow> Inr x | _ \<Rightarrow> Inl Fault)"

definition octs_ptr :: "AVal option \<Rightarrow> stop + AsnOcts" where
  "octs_ptr v = (case v of Some (AOcts x) \<Rightarrow> Inr x | _ \<Rightarrow> Inl Fault)"

definition oid_ptr :: "AVal option \<Rightarrow> stop + AsnOcts" where
  "oid_ptr v = (case v of Some (AOid x) \<Rightarrow> Inr x | _ \<Rightarrow> Inl Fault)"

definition real_ptr :: "AVal option \<Rightarrow> stop + AsnReal" where
  "real_ptr v = (case v of Some (AReal x) \<Rightarrow> Inr x | _ \<Rightarrow> Inl Fault)"

text \<open>The pointer at an index of a structure; a list, which may be null; a choice.\<close>

definition struct_elmt :: "AVal option \<Rightarrow> nat \<Rightarrow> stop + AVal option" where
  "struct_elmt v i =
     (case v of Some (AStructVal vs) \<Rightarrow> if i < length vs then Inr (vs ! i) else Inl Fault | _ \<Rightarrow> Inl Fault)"

definition list_ptr :: "AVal option \<Rightarrow> stop + AVal option list" where
  "list_ptr v = (case v of None \<Rightarrow> Inr [] | Some (AListVal vs) \<Rightarrow> Inr vs | _ \<Rightarrow> Inl Fault)"

definition choice_ptr :: "AVal option \<Rightarrow> stop + nat \<times> AVal option" where
  "choice_ptr v = (case v of Some (AChoiceVal i x) \<Rightarrow> Inr (i, x) | _ \<Rightarrow> Inl Fault)"

text \<open>The elements of a type that has any, and the reference of one that is one.\<close>

definition elmts_of :: "TBLType \<Rightarrow> stop + TBLType list" where
  "elmts_of t = (case content t of Elmts es \<Rightarrow> Inr es | _ \<Rightarrow> Inl Fault)"

text \<open>\<open>typeRef->typeDefPtr->type\<close> with \<open>typeRef->implicit\<close>.\<close>

definition ref_of :: "TBL \<Rightarrow> TBLType \<Rightarrow> stop + TBLType \<times> bool" where
  "ref_of tbl t =
     (case content t of
        TypeRef d impl p \<Rightarrow> map_sum id (\<lambda>td. (td_type td, impl)) (deref tbl p)
      | _ \<Rightarrow> Inl Fault)"

definition FIRST_LIST_ELMT :: "'a list \<Rightarrow> stop + 'a" where
  "FIRST_LIST_ELMT xs = (case xs of [] \<Rightarrow> Inl Fault | x # _ \<Rightarrow> Inr x)"

section \<open>Encoding\<close>

text \<open>The loop over the octets of a tag, from the last one; \<open>i\<close> of them have been looked at.\<close>

primrec TblEncTag_loop :: "nat \<Rightarrow> 'b GenBuf \<Rightarrow> AsnTag \<Rightarrow> nat \<Rightarrow> AsnLen \<Rightarrow> ('b, AsnLen) prog" where
  "TblEncTag_loop 0 b tag i encLen = returnP encLen"
| "TblEncTag_loop (Suc k) b tag i encLen =
     (let shifted = drop_bit (i * 8) tag; octet = ucast (shifted AND 0xff) :: byte
      in if octet \<noteq> 0 \<or> i < 4 - 2 \<and> shifted AND 0x8000 \<noteq> 0 then
           thenP (putByteRvs b octet) (TblEncTag_loop k b tag (i + 1) (encLen + 1))
         else TblEncTag_loop k b tag (i + 1) encLen)"

definition TblEncTag :: "'b GenBuf \<Rightarrow> TBLTag \<Rightarrow> ('b, AsnLen) prog" where
  "TblEncTag b tag = TblEncTag_loop 4 b (encTag tag) 0 0"

text \<open>The loop over the tags in reverse: the last one left is the first of the list.\<close>

primrec enc_tags :: "'b GenBuf \<Rightarrow> bool \<Rightarrow> TBLTag list \<Rightarrow> AsnLen \<Rightarrow> ('b, AsnLen) prog" where
  "enc_tags b impl [] bytesEncoded = returnP bytesEncoded"
| "enc_tags b impl (tag # tags) bytesEncoded =
     (if \<not> (impl \<and> tags = []) then
        bindP (if form tag = CONS then BEncConsLen b bytesEncoded else BEncDefLen b bytesEncoded) (\<lambda>n.
        let bytesEncoded = bytesEncoded + n in
        bindP (TblEncTag b tag) (\<lambda>n. enc_tags b impl tags (bytesEncoded + n)))
      else enc_tags b impl tags bytesEncoded)"

definition TblEncodeTagsAndLens :: "TBLType \<Rightarrow> 'b GenBuf \<Rightarrow> bool \<Rightarrow> AsnLen \<Rightarrow> ('b, AsnLen) prog" where
  "TblEncodeTagsAndLens tblT b impl bytesEncoded = enc_tags b impl (rev (tags_of tblT)) bytesEncoded"

text \<open>
  The loops over the elements of a structure and of a list, both in reverse: the result is \<open>(retVal,
  tmpBytesEncoded)\<close>. The one over a list ends at a null pointer.
\<close>

primrec enc_struct ::
  "(TBLType \<Rightarrow> AVal option \<Rightarrow> AsnLen \<Rightarrow> ('b, int \<times> AsnLen) prog) \<Rightarrow> AVal option \<Rightarrow> TBLType list \<Rightarrow> AsnLen \<Rightarrow>
     ('b, int \<times> AsnLen) prog" where
  "enc_struct enc v [] n = returnP (0, n)"
| "enc_struct enc v (e # es) n =
     bindP (liftP (struct_elmt v (length es))) (\<lambda>elmtV.
     if \<not> (optional e \<and> elmtV = None) then
       bindP (enc e elmtV n) (\<lambda>(retVal, n).
       if retVal < 0 then returnP (retVal, n) else enc_struct enc v es n)
     else enc_struct enc v es n)"

primrec enc_list ::
  "(AVal option \<Rightarrow> AsnLen \<Rightarrow> ('b, int \<times> AsnLen) prog) \<Rightarrow> AVal option list \<Rightarrow> AsnLen \<Rightarrow> ('b, int \<times> AsnLen) prog" where
  "enc_list enc [] n = returnP (0, n)"
| "enc_list enc (v # vs) n =
     (if v = None then returnP (0, n)
      else bindP (enc v n) (\<lambda>(retVal, n). if retVal < 0 then returnP (retVal, n) else enc_list enc vs n))"

text \<open>\<open>GetAsnListElmt\<close> returns a null pointer for an index without an element, which is then followed.\<close>

definition choice_elmt :: "TBLType list \<Rightarrow> nat \<Rightarrow> stop + TBLType" where
  "choice_elmt es i = (if i < length es then Inr (es ! i) else Inl Fault)"

definition content_len :: "('b, AsnLen) prog \<Rightarrow> ('b, int \<times> AsnLen) prog" where
  "content_len m = bindP m (\<lambda>n. returnP (0, n))"

definition TblEncodeContent ::
  "(TBLType \<Rightarrow> AVal option \<Rightarrow> bool \<Rightarrow> AsnLen \<Rightarrow> ('b, int \<times> AsnLen) prog) \<Rightarrow> infinities \<Rightarrow> TBL \<Rightarrow> 'b GenBuf \<Rightarrow>
     TBLType \<Rightarrow> AVal option \<Rightarrow> bool \<Rightarrow> ('b, int \<times> AsnLen) prog" where
  "TblEncodeContent enc infs tbl b tblT v impl =
     (case typeId tblT of
        TBL_TYPEREF \<Rightarrow>
          bindP (liftP (ref_of tbl tblT)) (\<lambda>(t, refImpl).
          let implicitRef = (refImpl \<or> impl \<and> no_tags tblT) in enc t v implicitRef 0)
      | TBL_SEQUENCE \<Rightarrow>
          bindP (liftP (elmts_of tblT)) (\<lambda>es. enc_struct (\<lambda>e v n. enc e v False n) v (rev es) 0)
      | TBL_SET \<Rightarrow>
          bindP (liftP (elmts_of tblT)) (\<lambda>es. enc_struct (\<lambda>e v n. enc e v False n) v (rev es) 0)
      | TBL_SEQUENCEOF \<Rightarrow>
          bindP (liftP (elmts_of tblT)) (\<lambda>es.
          bindP (liftP (FIRST_LIST_ELMT es)) (\<lambda>e.
          bindP (liftP (list_ptr v)) (\<lambda>vs. enc_list (\<lambda>v n. enc e v False n) (rev vs) 0)))
      | TBL_SETOF \<Rightarrow>
          bindP (liftP (elmts_of tblT)) (\<lambda>es.
          bindP (liftP (FIRST_LIST_ELMT es)) (\<lambda>e.
          bindP (liftP (list_ptr v)) (\<lambda>vs. enc_list (\<lambda>v n. enc e v False n) (rev vs) 0)))
      | TBL_CHOICE \<Rightarrow>
          bindP (liftP (elmts_of tblT)) (\<lambda>es.
          bindP (liftP (choice_ptr v)) (\<lambda>(choiceId, val).
          bindP (liftP (choice_elmt es choiceId)) (\<lambda>e. enc e val False 0)))
      | TBL_BOOLEAN \<Rightarrow> bindP (liftP (bool_ptr v)) (\<lambda>x. content_len (BEncAsnBoolContent b x))
      | TBL_INTEGER \<Rightarrow> bindP (liftP (int_ptr v)) (\<lambda>x. content_len (BEncAsnIntContent b x))
      | TBL_ENUMERATED \<Rightarrow> bindP (liftP (int_ptr v)) (\<lambda>x. content_len (BEncAsnIntContent b x))
      | TBL_BITSTRING \<Rightarrow> bindP (liftP (bits_ptr v)) (\<lambda>x. content_len (BEncAsnBitsContent b x))
      | TBL_OCTETSTRING \<Rightarrow> bindP (liftP (octs_ptr v)) (\<lambda>x. content_len (BEncAsnOctsContent b x))
      | TBL_NULL \<Rightarrow> content_len (BEncAsnNullContent b)
      | TBL_OID \<Rightarrow> bindP (liftP (oid_ptr v)) (\<lambda>x. content_len (BEncAsnOctsContent b x))
      | TBL_REAL \<Rightarrow> bindP (liftP (real_ptr v)) (\<lambda>x. content_len (BEncAsnRealContent infs b x))
      | TBL_OTHER _ \<Rightarrow> returnP (- 1, 0))"

text \<open>The result is \<open>(retVal, *bytesEncoded)\<close>.\<close>

primrec TblEncodeType ::
  "nat \<Rightarrow> infinities \<Rightarrow> TBL \<Rightarrow> 'b GenBuf \<Rightarrow> TBLType \<Rightarrow> AVal option \<Rightarrow> bool \<Rightarrow> AsnLen \<Rightarrow> ('b, int \<times> AsnLen) prog" where
  "TblEncodeType 0 infs tbl b tblT v impl bytesEncoded = stopP NoFuel"
| "TblEncodeType (Suc fuel) infs tbl b tblT v impl bytesEncoded =
     bindP (TblEncodeContent (TblEncodeType fuel infs tbl b) infs tbl b tblT v impl) (\<lambda>(retVal, tmpBytesEncoded).
     if retVal \<ge> 0 then
       bindP (TblEncodeTagsAndLens tblT b impl tmpBytesEncoded) (\<lambda>tmpBytesEncoded.
       returnP (0, bytesEncoded + tmpBytesEncoded))
     else returnP (retVal, bytesEncoded + tmpBytesEncoded))"

text \<open>\<open>*bytesEncoded\<close> keeps its value when the type is not found.\<close>

definition TblEncode ::
  "nat \<Rightarrow> infinities \<Rightarrow> TBL \<Rightarrow> string option \<Rightarrow> string \<Rightarrow> 'b GenBuf \<Rightarrow> AVal option \<Rightarrow> AsnLen \<Rightarrow> ('b, int \<times> AsnLen) prog" where
  "TblEncode fuel infs tbl modName name b v bytesEncoded =
     (case TblFindTypeDef tbl modName name of
        None \<Rightarrow> returnP (- 1, bytesEncoded)
      | Some p \<Rightarrow>
          bindP (liftP (deref tbl (Some p))) (\<lambda>tblTd.
          bindP (TblEncodeType fuel infs tbl b (td_type tblTd) v False 0) (\<lambda>(retVal, bytesEncoded).
          bindP (writeError b) (\<lambda>e. returnP (if e then - 1 else retVal, bytesEncoded)))))"

section \<open>The stack of tags and lengths\<close>

text \<open>
  The tags and lengths read, with the octets they took, are kept on a static stack \<open>tlStkG\<close> of 128 entries until
  the contents have been read: here a list, the last entry first. The state of the decoder is the buffer, the
  static variable of the BIT STRING decoder, and this stack.
\<close>

record TagNLen =
  tl_tag :: AsnTag
  tl_len :: AsnLen
  tl_size :: "32 word"

type_synonym 'b tbl_state = "'b bits_state \<times> TagNLen list"

definition TL_STK_SIZE :: nat where
  "TL_STK_SIZE = 128"

definition on_bits :: "('b bits_state, 'a) prog \<Rightarrow> ('b tbl_state, 'a) prog" where
  "on_bits m = (\<lambda>(s, stk). case m s of (r, s') \<Rightarrow> (r, (s', stk)))"

abbreviation on_gen :: "('b, 'a) prog \<Rightarrow> ('b tbl_state, 'a) prog" where
  "on_gen m \<equiv> on_bits (on_buf m)"

definition PUSH_TL :: "AsnTag \<Rightarrow> AsnLen \<Rightarrow> AsnLen \<Rightarrow> ('b tbl_state, unit) prog" where
  "PUSH_TL t l sz = (\<lambda>(s, stk).
     if length stk \<ge> TL_STK_SIZE then (Inl (LongJmp (- 1000)), (s, stk))
     else (Inr (), (s, \<lparr>tl_tag = t, tl_len = l, tl_size = ucast sz\<rparr> # stk)))"

text \<open>With nothing on the stack the count would become negative; that is never reached, since the length is read
  before.\<close>

definition POP_TL :: "('b tbl_state, unit) prog" where
  "POP_TL = (\<lambda>(s, stk). case stk of [] \<Rightarrow> (Inl (LongJmp (- 1001)), (s, [])) | _ # stk \<Rightarrow> (Inr (), (s, stk)))"

definition LAST_TL :: "('b tbl_state, TagNLen) prog" where
  "LAST_TL = (\<lambda>(s, stk). case stk of [] \<Rightarrow> (Inl Fault, (s, stk)) | e # _ \<Rightarrow> (Inr e, (s, stk)))"

section \<open>Tags\<close>

definition TagsEquiv :: "AsnTag \<Rightarrow> TBLTag \<Rightarrow> bool" where
  "TagsEquiv asnTag tblTag \<longleftrightarrow>
     encTag tblTag = asnTag \<or> form tblTag = ANY_FORM \<and> encTag tblTag = DECONSIFY asnTag"

text \<open>The loops that look for an alternative with a match.\<close>

primrec some_stop :: "('a \<Rightarrow> stop + bool) \<Rightarrow> 'a list \<Rightarrow> stop + bool" where
  "some_stop f [] = Inr False"
| "some_stop f (x # xs) = (case f x of Inl e \<Rightarrow> Inl e | Inr r \<Rightarrow> if r then Inr True else some_stop f xs)"

text \<open>Skipping references and trying the alternatives of an untagged CHOICE share the fuel.\<close>

primrec TagsMatch :: "nat \<Rightarrow> TBL \<Rightarrow> TBLType \<Rightarrow> AsnTag \<Rightarrow> stop + bool" where
  "TagsMatch 0 tbl tblT asnTag = Inl NoFuel"
| "TagsMatch (Suc fuel) tbl tblT asnTag =
     (if typeId tblT = TBL_TYPEREF \<and> no_tags tblT then
        (case ref_of tbl tblT of Inl e \<Rightarrow> Inl e | Inr (t, _) \<Rightarrow> TagsMatch fuel tbl t asnTag)
      else if typeId tblT = TBL_CHOICE \<and> no_tags tblT then
        (case elmts_of tblT of
           Inl e \<Rightarrow> Inl e
         | Inr es \<Rightarrow> some_stop (\<lambda>e. TagsMatch fuel tbl e asnTag) es)
      else map_sum id (TagsEquiv asnTag) (FIRST_LIST_ELMT (tags_of tblT)))"

text \<open>The index of the first element that matches, the number of elements if there is none.\<close>

primrec find_match :: "(TBLType \<Rightarrow> stop + bool) \<Rightarrow> TBLType list \<Rightarrow> stop + nat" where
  "find_match f [] = Inr 0"
| "find_match f (e # es) =
     (case f e of Inl x \<Rightarrow> Inl x | Inr r \<Rightarrow> if r then Inr 0 else map_sum id Suc (find_match f es))"

definition CountMandatoryElmts :: "TBLType list \<Rightarrow> nat" where
  "CountMandatoryElmts es = length (filter (\<lambda>e. \<not> optional e) es)"

section \<open>Decoding\<close>

primrec dec_tags :: "'b GenBuf \<Rightarrow> TBLTag list \<Rightarrow> ('b tbl_state, unit) prog" where
  "dec_tags b [] = returnP ()"
| "dec_tags b (tblTag # tags) =
     bindP (on_gen (BDecTag b 0)) (\<lambda>(tag, encSize).
     bindP (on_gen (BDecLen b encSize)) (\<lambda>(len, encSize).
     if \<not> TagsEquiv tag tblTag then longjmp (- 1002)
     else thenP (PUSH_TL tag len encSize) (dec_tags b tags)))"

definition TblDecodeTagsAndLens :: "TBLType \<Rightarrow> 'b GenBuf \<Rightarrow> bool \<Rightarrow> ('b tbl_state, unit) prog" where
  "TblDecodeTagsAndLens tblT b impl =
     (if no_tags tblT then returnP ()
      else dec_tags b (if impl then tl (tags_of tblT) else tags_of tblT))"

text \<open>The loop over the tags in reverse, as in the encoder.\<close>

primrec pop_tags :: "'b GenBuf \<Rightarrow> bool \<Rightarrow> TBLTag list \<Rightarrow> AsnLen \<Rightarrow> ('b tbl_state, AsnLen) prog" where
  "pop_tags b impl [] bytesDecoded = returnP bytesDecoded"
| "pop_tags b impl (tblTag # tags) bytesDecoded =
     (if impl \<and> tags = [] then returnP bytesDecoded
      else
        bindP LAST_TL (\<lambda>last.
        bindP (if tl_len last = INDEFINITE_LEN then on_gen (BDecEoc b bytesDecoded)
               else if bytesDecoded \<noteq> tl_len last then longjmp (- 1003)
               else returnP bytesDecoded) (\<lambda>bytesDecoded.
        bindP LAST_TL (\<lambda>last.
        thenP POP_TL (pop_tags b impl tags (bytesDecoded + ucast (tl_size last)))))))"

definition TblPopTagsAndLens :: "TBLType \<Rightarrow> 'b GenBuf \<Rightarrow> bool \<Rightarrow> AsnLen \<Rightarrow> ('b tbl_state, AsnLen) prog" where
  "TblPopTagsAndLens tblT b impl bytesDecoded = pop_tags b impl (rev (tags_of tblT)) bytesDecoded"

type_synonym 'b type_decoder = "TBLType \<Rightarrow> bool \<Rightarrow> AsnLen \<Rightarrow> ('b tbl_state, AVal option \<times> AsnLen) prog"

text \<open>The loop over the elements of a SEQUENCE: every one is looked for by peeking at the next tag, wherever the
  SEQUENCE ends.\<close>

primrec dec_sequence ::
  "(TBLType \<Rightarrow> AsnTag \<Rightarrow> stop + bool) \<Rightarrow> 'b type_decoder \<Rightarrow> 'b GenBuf \<Rightarrow> TBLType list \<Rightarrow> AsnLen \<Rightarrow>
     ('b tbl_state, AVal option list \<times> AsnLen) prog" where
  "dec_sequence mat dec b [] n = returnP ([], n)"
| "dec_sequence mat dec b (e # es) n =
     bindP (on_gen (PeekTag b)) (\<lambda>asnTag.
     bindP (liftP (mat e asnTag)) (\<lambda>m.
     bindP (if m then dec e False n else if \<not> optional e then longjmp (- 1008) else returnP (None, n)) (\<lambda>(v, n).
     bindP (dec_sequence mat dec b es n) (\<lambda>(vs, n). returnP (v # vs, n)))))"

text \<open>
  The loops over a SET, for indefinite and definite length: the elements found so far, how many mandatory ones
  there were, and the octets read. The result of a loop that has come to its end is the structure and the counts.
\<close>

definition more_octets :: "bool \<Rightarrow> 'b GenBuf \<Rightarrow> AsnLen \<Rightarrow> ('b tbl_state, bool) prog" where
  "more_octets indef b n =
     (if indef then bindP (on_gen (PeekEoc b)) (\<lambda>e. returnP (\<not> e))
      else bindP LAST_TL (\<lambda>last. returnP (n < tl_len last)))"

primrec dec_set ::
  "nat \<Rightarrow> (TBLType \<Rightarrow> AsnTag \<Rightarrow> stop + bool) \<Rightarrow> 'b type_decoder \<Rightarrow> 'b GenBuf \<Rightarrow> bool \<Rightarrow> TBLType list \<Rightarrow>
     AVal option list \<Rightarrow> nat \<Rightarrow> AsnLen \<Rightarrow> ('b tbl_state, AVal option list \<times> nat \<times> AsnLen) prog" where
  "dec_set 0 mat dec b indef es sVal mandatoryCount n = stopP NoFuel"
| "dec_set (Suc fuel) mat dec b indef es sVal mandatoryCount n =
     bindP (more_octets indef b n) (\<lambda>more.
     if \<not> more then returnP (sVal, mandatoryCount, n)
     else
       bindP (on_gen (PeekTag b)) (\<lambda>asnTag.
       bindP (liftP (find_match (\<lambda>e. mat e asnTag) es)) (\<lambda>currElmt.
       if currElmt \<ge> length es then longjmp (if indef then - 1009 else - 1007)
       else
         let mandatoryCount = (if \<not> optional (es ! currElmt) then mandatoryCount + 1 else mandatoryCount) in
         bindP (dec (es ! currElmt) False n) (\<lambda>(v, n).
         dec_set fuel mat dec b indef es (sVal[currElmt := v]) mandatoryCount n))))"

primrec dec_list :: "nat \<Rightarrow> 'b type_decoder \<Rightarrow> 'b GenBuf \<Rightarrow> bool \<Rightarrow> TBLType \<Rightarrow> AVal option list \<Rightarrow> AsnLen \<Rightarrow>
     ('b tbl_state, AVal option list \<times> AsnLen) prog" where
  "dec_list 0 dec b indef e vs n = stopP NoFuel"
| "dec_list (Suc fuel) dec b indef e vs n =
     bindP (more_octets indef b n) (\<lambda>more.
     if \<not> more then returnP (vs, n)
     else bindP (dec e False n) (\<lambda>(v, n). dec_list fuel dec b indef e (vs @ [v]) n))"

text \<open>The element that is decoded as a CHOICE: without a match the last one, with the index 0 of cleared memory.\<close>

definition chosen_elmt :: "nat \<Rightarrow> TBLType list \<Rightarrow> stop + nat \<times> TBLType" where
  "chosen_elmt i es =
     (if i < length es then Inr (i, es ! i) else if es \<noteq> [] then Inr (0, last es) else Inl Fault)"

definition a_val :: "('x \<Rightarrow> AVal) \<Rightarrow> ('s, 'x \<times> AsnLen) prog \<Rightarrow> ('s, AVal option \<times> AsnLen) prog" where
  "a_val f m = bindP m (\<lambda>(x, n). returnP (Some (f x), n))"

definition TblDecodeContent ::
  "nat \<Rightarrow> 'b type_decoder \<Rightarrow> infinities \<Rightarrow> TBL \<Rightarrow> 'b GenBuf \<Rightarrow> TBLType \<Rightarrow> bool \<Rightarrow>
     ('b tbl_state, AVal option \<times> AsnLen) prog" where
  "TblDecodeContent fuel dec infs tbl b tblT impl =
     (case typeId tblT of
        TBL_TYPEREF \<Rightarrow>
          bindP (liftP (ref_of tbl tblT)) (\<lambda>(t, refImpl).
          let implicitRef = (refImpl \<or> impl \<and> no_tags tblT) in dec t implicitRef 0)
      | TBL_SEQUENCE \<Rightarrow>
          bindP (liftP (elmts_of tblT)) (\<lambda>es. a_val AStructVal (dec_sequence (TagsMatch fuel tbl) dec b es 0))
      | TBL_SET \<Rightarrow>
          bindP (liftP (elmts_of tblT)) (\<lambda>es.
          bindP LAST_TL (\<lambda>last.
          bindP (dec_set fuel (TagsMatch fuel tbl) dec b (tl_len last = INDEFINITE_LEN) es
                   (replicate (length es) None) 0 0) (\<lambda>(sVal, mandatoryCount, n).
          if mandatoryCount \<noteq> CountMandatoryElmts es then longjmp (- 1006)
          else returnP (Some (AStructVal sVal), n))))
      | TBL_SEQUENCEOF \<Rightarrow>
          bindP (liftP (elmts_of tblT)) (\<lambda>es.
          bindP (liftP (FIRST_LIST_ELMT es)) (\<lambda>e.
          bindP LAST_TL (\<lambda>last.
          a_val AListVal (dec_list fuel dec b (tl_len last = INDEFINITE_LEN) e [] 0))))
      | TBL_SETOF \<Rightarrow>
          bindP (liftP (elmts_of tblT)) (\<lambda>es.
          bindP (liftP (FIRST_LIST_ELMT es)) (\<lambda>e.
          bindP LAST_TL (\<lambda>last.
          a_val AListVal (dec_list fuel dec b (tl_len last = INDEFINITE_LEN) e [] 0))))
      | TBL_CHOICE \<Rightarrow>
          bindP (on_gen (PeekTag b)) (\<lambda>asnTag.
          bindP (liftP (elmts_of tblT)) (\<lambda>es.
          bindP (liftP (find_match (\<lambda>e. TagsMatch fuel tbl e asnTag) es)) (\<lambda>i.
          bindP (liftP (chosen_elmt i es)) (\<lambda>(choiceId, e).
          bindP (dec e False 0) (\<lambda>(val, n). returnP (Some (AChoiceVal choiceId val), n))))))
      | TBL_BOOLEAN \<Rightarrow>
          bindP LAST_TL (\<lambda>l. a_val ABool (on_gen (BDecAsnBoolContent b (tl_tag l) (tl_len l) 0)))
      | TBL_INTEGER \<Rightarrow>
          bindP LAST_TL (\<lambda>l. a_val AInt (on_gen (BDecAsnIntContent b (tl_tag l) (tl_len l) 0)))
      | TBL_ENUMERATED \<Rightarrow>
          bindP LAST_TL (\<lambda>l. a_val AInt (on_gen (BDecAsnIntContent b (tl_tag l) (tl_len l) 0)))
      | TBL_BITSTRING \<Rightarrow>
          bindP LAST_TL (\<lambda>l. a_val ABits (on_bits (BDecAsnBitsContent fuel b (tl_tag l) (tl_len l) 0)))
      | TBL_OCTETSTRING \<Rightarrow>
          bindP LAST_TL (\<lambda>l. a_val AOcts (on_gen (BDecAsnOctsContent fuel b (tl_tag l) (tl_len l) 0)))
      | TBL_NULL \<Rightarrow>
          bindP LAST_TL (\<lambda>l. a_val (\<lambda>_. ANull) (on_gen (BDecAsnNullContent b (tl_tag l) (tl_len l) 0)))
      | TBL_OID \<Rightarrow>
          bindP LAST_TL (\<lambda>l. a_val AOid (on_gen (BDecAsnOidContent b (tl_tag l) (tl_len l) 0)))
      | TBL_REAL \<Rightarrow>
          bindP LAST_TL (\<lambda>l. a_val AReal (on_gen (BDecAsnRealContent infs fuel b (tl_tag l) (tl_len l) 0)))
      | TBL_OTHER _ \<Rightarrow> returnP (None, 0))"

primrec TblDecodeType ::
  "nat \<Rightarrow> infinities \<Rightarrow> TBL \<Rightarrow> 'b GenBuf \<Rightarrow> 'b type_decoder" where
  "TblDecodeType 0 infs tbl b tblT impl bytesDecoded = stopP NoFuel"
| "TblDecodeType (Suc fuel) infs tbl b tblT impl bytesDecoded =
     thenP (TblDecodeTagsAndLens tblT b impl)
     (bindP (TblDecodeContent fuel (TblDecodeType fuel infs tbl b) infs tbl b tblT impl) (\<lambda>(retVal, tmpBytesDecoded).
     bindP (TblPopTagsAndLens tblT b impl tmpBytesDecoded) (\<lambda>tmpBytesDecoded.
     returnP (retVal, bytesDecoded + tmpBytesDecoded))))"

text \<open>\<open>setjmp\<close>: what runs after a \<open>longjmp\<close> out of the program.\<close>

definition setjmp :: "('s, 'a) prog \<Rightarrow> ('s, 'a) prog \<Rightarrow> ('s, 'a) prog" where
  "setjmp m h = (\<lambda>s. case m s of (Inl (LongJmp _), s') \<Rightarrow> h s' | r \<Rightarrow> r)"

text \<open>The stack of tags is not reset, neither before nor after an error.\<close>

definition TblDecode ::
  "nat \<Rightarrow> infinities \<Rightarrow> TBL \<Rightarrow> string option \<Rightarrow> string \<Rightarrow> 'b GenBuf \<Rightarrow> AsnLen \<Rightarrow>
     ('b tbl_state, AVal option \<times> AsnLen) prog" where
  "TblDecode fuel infs tbl modName name b bytesDecoded =
     (case TblFindTypeDef tbl modName name of
        None \<Rightarrow> returnP (None, bytesDecoded)
      | Some p \<Rightarrow>
          bindP (liftP (deref tbl (Some p))) (\<lambda>tblTd.
          setjmp (TblDecodeType fuel infs tbl b (td_type tblTd) False 0) (returnP (None, 0))))"

end
