(* ===== verification/Tbl_Ber.thy ===== *)
theory Tbl_Ber
  imports Tbl_Codec
begin

text \<open>
  What the type tables mean: a relation between the types of a table, values and octets, in the manner of X.690,
  and the encoder of \<open>tbl-enc.c\<close>, which writes just these octets.
\<close>

section \<open>Tags and lengths\<close>

text \<open>A tag as \<open>TblSetTagForms\<close> prepares it, with a code of at most four octets, and not UNIVERSAL 0.\<close>

definition tag_form :: "TBLTag \<Rightarrow> BER_FORM" where
  "tag_form tg = (if form tg = CONS then CONS else PRIM)"

definition tag_ok :: "TBLTag \<Rightarrow> bool" where
  "tag_ok tg \<longleftrightarrow>
     encTag tg = MAKE_TAG_ID (TblTagClassToBer (tclass tg)) (tag_form tg) (code tg) \<and> unat (code tg) < 2 ^ 21 \<and>
     (tclass tg \<noteq> UNIVERSAL \<or> form tg = CONS \<or> code tg \<noteq> 0)"

definition tag_bytes :: "TBLTag \<Rightarrow> byte list" where
  "tag_bytes tg = tag_octets (TblTagClassToBer (tclass tg)) (tag_form tg) (code tg)"

lemma tag_proper: "proper_class (TblTagClassToBer c)" "proper_form (tag_form tg)"
  by (auto simp: TblTagClassToBer_def proper_class_def proper_form_def tag_form_def split: TBLTagClass.split)

text \<open>The octets of a tag are read off its encoded form.\<close>

definition four_octets :: "byte \<Rightarrow> byte \<Rightarrow> byte \<Rightarrow> byte \<Rightarrow> AsnTag" where
  "four_octets a b c d = push_bit 24 (ucast a) OR push_bit 16 (ucast b) OR push_bit 8 (ucast c) OR ucast d"

lemma byte_no_bit: "8 \<le> n \<Longrightarrow> \<not> bit (d :: byte) n"
  by (auto dest: bit_imp_le_length)

lemma four_octets_drop:
  "ucast (drop_bit 0 (four_octets a b c d) AND 0xff) = d"
  "ucast (drop_bit 8 (four_octets a b c d) AND 0xff) = c"
  "ucast (drop_bit 16 (four_octets a b c d) AND 0xff) = b"
  "ucast (drop_bit 24 (four_octets a b c d) AND 0xff) = a"
  unfolding four_octets_def by (rule byte_eqI, simp add: bit_simps byte_no_bit)+

lemma bit_mask_one: "(w :: 'a::len word) AND push_bit n 1 \<noteq> 0 \<longleftrightarrow> bit w n"
  by (metis and_zero_eq bit_1_iff bit_and_iff bit_iff_and_push_bit_not_eq_0)

lemma four_octets_more:
  "drop_bit 0 (four_octets a b c d) AND 0x8000 \<noteq> 0 \<longleftrightarrow> c AND 0x80 \<noteq> 0"
  "drop_bit 8 (four_octets a b c d) AND 0x8000 \<noteq> 0 \<longleftrightarrow> b AND 0x80 \<noteq> 0"
proof -
  have m: "(0x8000 :: AsnTag) = push_bit 15 1" "(0x80 :: byte) = push_bit 7 1" by simp_all
  show "drop_bit 0 (four_octets a b c d) AND 0x8000 \<noteq> 0 \<longleftrightarrow> c AND 0x80 \<noteq> 0"
    "drop_bit 8 (four_octets a b c d) AND 0x8000 \<noteq> 0 \<longleftrightarrow> b AND 0x80 \<noteq> 0"
    unfolding m bit_mask_one four_octets_def by (simp_all add: bit_simps byte_no_bit)
qed

lemma tag_lead_nonzero:
  assumes "proper_class cl" and "proper_form fm" and "c \<le> 31" and "cl \<noteq> UNIV_CLASS \<or> fm = CONS \<or> c \<noteq> 0"
  shows "tag_lead cl fm c \<noteq> 0"
proof
  assume z: "tag_lead cl fm c = 0"
  have "\<not> bit c n" if "5 \<le> n" for n
    using assms(3) that not_bit_above [of c 5 n] by (simp add: word_le_nat_alt)
  then have "\<not> bit c 5" "\<not> bit c 6" "\<not> bit c 7" by simp_all
  have "tag_lead cl fm c AND 0x1f = ucast c" by (rule tag_lead_low [OF assms(1-3)])
  with z have "(ucast c :: byte) = 0" by simp
  moreover have "unat (ucast c :: byte) = unat c"
    using assms(3) by (simp add: word_le_nat_alt unsigned_ucast_eq take_bit_nat_eq_self)
  ultimately have c: "c = 0" by (simp add: word_unat_eq_iff)
  with z assms show False
    by (cases cl; cases fm) (simp_all add: tag_lead_def proper_class_def proper_form_def)
qed

lemma tag_octets_four:
  assumes "proper_class cl" and "proper_form fm" and "cl \<noteq> UNIV_CLASS \<or> fm = CONS \<or> cd \<noteq> 0"
  shows "\<exists>a b c d. tag_word 1 (tag_octets cl fm cd) = four_octets a b c d \<and>
    tag_octets cl fm cd = (((if a \<noteq> 0 then [a] else []) @ (if b \<noteq> 0 then [b] else [])) @
        (if c \<noteq> 0 \<or> b AND 0x80 \<noteq> 0 then [c] else [])) @ (if d \<noteq> 0 \<or> c AND 0x80 \<noteq> 0 then [d] else [])"
proof -
  have l: "tag_lead cl fm 31 \<noteq> 0" by (rule tag_lead_nonzero) (use assms in simp_all)
  have t: "(ucast (0x80 OR w :: 32 word) :: byte) AND 0x80 \<noteq> 0" "(ucast (0x80 OR w :: 32 word) :: byte) \<noteq> 0" for w
    using cont_top [of w] by auto
  consider "cd < 31" | "\<not> cd < 31" "cd < 128" | "\<not> cd < 31" "\<not> cd < 128" "cd < 16384"
    | "\<not> cd < 31" "\<not> cd < 128" "\<not> cd < 16384" by blast
  then show ?thesis
  proof cases
    case 1
    then have "tag_lead cl fm cd \<noteq> 0" using assms by (intro tag_lead_nonzero) simp_all
    with 1 show ?thesis
      by (intro exI [of _ "tag_lead cl fm cd"] exI [of _ 0]) (simp add: tag_octets_def four_octets_def)
  next
    case 2
    then have c: "(ucast cd :: byte) \<noteq> 0" "(ucast cd :: byte) AND 0x80 = 0"
      using code7_top [OF 2(2)]
      by (simp_all add: word_unat_eq_iff word_less_nat_alt unsigned_ucast_eq take_bit_nat_eq_self)
    with 2 l show ?thesis
      by (intro exI [of _ "tag_lead cl fm 31"] exI [of _ "ucast cd"] exI [of _ 0]) (simp add: tag_octets_def four_octets_def)
  next
    case 3
    with l t low7_top [of cd] show ?thesis
      by (intro exI [of _ "tag_lead cl fm 31"] exI [of _ "ucast (0x80 OR drop_bit 7 cd)"] exI [of _ "ucast (cd AND 0x7F)"] exI [of _ 0])
        (simp add: tag_octets_def four_octets_def or.assoc)
  next
    case 4
    with l t show ?thesis
      by (intro exI [of _ "tag_lead cl fm 31"] exI [of _ "ucast (0x80 OR drop_bit 14 cd)"] exI [of _ "ucast (0x80 OR drop_bit 7 cd)"]
          exI [of _ "ucast (cd AND 0x7F)"])
        (simp add: tag_octets_def four_octets_def or.assoc)
  qed
qed

context gen_writer
begin

lemma TblEncTag_step:
  assumes "\<And>n. emits W out werr room (TblEncTag_loop k g w j n) (n + of_nat (length ys)) ys" and "j = i + 1"
    and "ucast (drop_bit (i * 8) w AND 0xff) = x" and "x \<noteq> 0 \<or> i < 4 - 2 \<and> drop_bit (i * 8) w AND 0x8000 \<noteq> 0 \<longleftrightarrow> p"
    and "zs = ys @ (if p then [x] else [])"
  shows "emits W out werr room (TblEncTag_loop (Suc k) g w i n) (n + of_nat (length zs)) zs"
proof (cases p)
  case True
  have "n + 1 + of_nat (length ys) = n + of_nat (length (ys @ [x]))" by simp
  with assms(1) [of "n + 1"] have "emits W out werr room (TblEncTag_loop k g w j (n + 1)) (n + of_nat (length (ys @ [x]))) ys"
    by simp
  from emits_seq [OF putByteRvs_emits this refl] True assms(2-5) show ?thesis by (simp add: Let_def)
next
  case False
  with assms(1) [of n] assms(2-5) show ?thesis by (auto simp: Let_def)
qed

lemma TblEncTag_loop_emits:
  assumes "zs = (((if a \<noteq> 0 then [a] else []) @ (if b \<noteq> 0 then [b] else [])) @
        (if c \<noteq> 0 \<or> b AND 0x80 \<noteq> 0 then [c] else [])) @ (if d \<noteq> 0 \<or> c AND 0x80 \<noteq> 0 then [d] else [])"
  shows "emits W out werr room (TblEncTag_loop 4 g (four_octets a b c d) 0 0) (of_nat (length zs)) zs"
proof -
  note fo = four_octets_drop [of a b c d] four_octets_more [of a b c d]
  let ?w = "four_octets a b c d"
  have "emits W out werr room (TblEncTag_loop 0 g ?w 4 n) (n + of_nat (length ([] :: byte list))) []" for n
    by (simp add: emits_return)
  note h3 = TblEncTag_step [OF this, where i = 3 and x = a and p = "a \<noteq> 0", OF _ _ _ refl]
  note h2 = TblEncTag_step [OF h3, where i = 2 and x = b and p = "b \<noteq> 0", OF _ _ _ _ _ _ refl]
  note h1 = TblEncTag_step [OF h2, where i = 1 and x = c and p = "c \<noteq> 0 \<or> b AND 0x80 \<noteq> 0", OF _ _ _ _ _ _ _ _ _ refl]
  note h0 = TblEncTag_step [OF h1, where i = 0 and x = d and p = "d \<noteq> 0 \<or> c AND 0x80 \<noteq> 0" and n = 0]
  have "emits W out werr room (TblEncTag_loop (Suc (Suc (Suc (Suc 0)))) g ?w 0 0) (0 + of_nat (length zs)) zs"
    by (rule h0) (use fo assms in simp_all)
  then show ?thesis by (simp add: numeral_eq_Suc)
qed

lemma TblEncTag_emits:
  assumes "tag_ok tg"
  shows "emits W out werr room (TblEncTag g tg) (of_nat (length (tag_bytes tg))) (tag_bytes tg)"
proof -
  obtain cl fm cd where t: "TblTagClassToBer (tclass tg) = cl" "tag_form tg = fm" "code tg = cd" by simp
  have enc: "encTag tg = tag_word 1 (tag_octets cl fm cd)"
    using assms tag_word_octets [of cd cl fm] t by (simp add: tag_ok_def)
  have pr: "proper_class cl" "proper_form fm" using tag_proper t by metis+
  have ne: "cl \<noteq> UNIV_CLASS \<or> fm = CONS \<or> cd \<noteq> 0"
    using assms t by (auto simp: tag_ok_def TblTagClassToBer_def tag_form_def split: TBLTagClass.splits if_splits)
  show ?thesis
    unfolding TblEncTag_def tag_bytes_def t enc
    using tag_octets_four [OF pr ne] TblEncTag_loop_emits by metis
qed

end

section \<open>Octets around contents\<close>

text \<open>The tags that are written for a type: without the first one where the context replaces it.\<close>

definition open_tags :: "TBLType \<Rightarrow> bool \<Rightarrow> TBLTag list" where
  "open_tags t impl = (if impl then tl (tags_of t) else tags_of t)"

text \<open>The tags with their lengths that stand before the contents \<open>c\<close>.\<close>

primrec hdr :: "TBLTag list \<Rightarrow> byte list \<Rightarrow> byte list" where
  "hdr [] c = []"
| "hdr (tg # tgs) c = tag_bytes tg @ len_octets (of_nat (length (hdr tgs c @ c))) @ hdr tgs c"

definition hdr_ok :: "TBLTag list \<Rightarrow> byte list \<Rightarrow> bool" where
  "hdr_ok tgs c \<longleftrightarrow> list_all tag_ok tgs \<and> length (hdr tgs c @ c) < 2 ^ 32"

lemma hdr_append: "hdr (tgs @ tgs') c = hdr tgs (hdr tgs' c @ c) @ hdr tgs' c"
  by (induction tgs) simp_all

lemma hdr_okD: "hdr_ok tgs c \<Longrightarrow> list_all tag_ok tgs" "hdr_ok tgs c \<Longrightarrow> length c < 2 ^ 32"
  by (simp_all add: hdr_ok_def)

lemma hdr_ok_Cons: "hdr_ok (tg # tgs) c \<Longrightarrow> tag_ok tg \<and> hdr_ok tgs c"
  by (auto simp: hdr_ok_def)

context gen_writer
begin

lemma enc_tags_emits:
  assumes "list_all tag_ok tgs"
  shows "emits W out werr room (enc_tags g False (rev tgs) (of_nat (length c)))
    (of_nat (length (hdr tgs c @ c))) (hdr tgs c)"
  using assms
proof (induction tgs arbitrary: c rule: rev_induct)
  case Nil
  then show ?case by (simp add: emits_return)
next
  case (snoc tg tgs)
  let ?c = "hdr [tg] c @ c"
  have tg: "tag_ok tg" "list_all tag_ok tgs" using snoc.prems by simp_all
  have n: "of_nat (length c) + of_nat (length (len_octets (of_nat (length c)))) + of_nat (length (tag_bytes tg)) =
      (of_nat (length ?c) :: ulong)" by simp
  note rest = snoc.IH [OF tg(2), of ?c]
  have "emits W out werr room
      (bindP (BEncDefLen g (of_nat (length c))) (\<lambda>n. let bytesEncoded = of_nat (length c) + n in
        bindP (TblEncTag g tg) (\<lambda>n. enc_tags g False (rev tgs) (bytesEncoded + n))))
      (of_nat (length (hdr tgs ?c @ ?c))) ((hdr tgs ?c @ tag_bytes tg) @ len_octets (of_nat (length c)))"
    unfolding Let_def
    by (intro emits_bind [OF BEncDefLen_emits] emits_bind [OF TblEncTag_emits [OF tg(1)]]) (use rest in \<open>simp only: n\<close>)
  then show ?case by (simp add: hdr_append BEncConsLen_def)
qed

lemma TblEncodeTagsAndLens_emits:
  assumes "hdr_ok (open_tags t impl) c"
  shows "emits W out werr room (TblEncodeTagsAndLens t g impl (of_nat (length c)))
    (of_nat (length (hdr (open_tags t impl) c @ c))) (hdr (open_tags t impl) c)"
proof -
  have skip: "enc_tags g True (xs @ [x]) n = enc_tags g False xs n" for xs x n
    by (induction xs arbitrary: n) simp_all
  show ?thesis
    using enc_tags_emits [OF hdr_okD(1) [OF assms]]
    by (cases impl; cases "tags_of t")
      (simp_all add: TblEncodeTagsAndLens_def open_tags_def skip emits_return)
qed

end

section \<open>Values and octets\<close>

text \<open>The contents of the simple types. A value is in memory as its decoder needs it; a REAL is one that is not
  changed on the way (see \<open>Asn_Real\<close>).\<close>

definition real_kept :: "infinities \<Rightarrow> dbl \<Rightarrow> bool" where
  "real_kept infs x \<longleftrightarrow>
     (\<exists>s q. x = Fin s q \<and> representable q \<and> 0 < q \<and> - 1074 \<le> real_exp q \<and>
        \<not> fl_eq x (PLUS_INFINITY infs) \<and> \<not> fl_eq x (MINUS_INFINITY infs))"

inductive prim_ber :: "infinities \<Rightarrow> TBLTypeId \<Rightarrow> AVal \<Rightarrow> byte list \<Rightarrow> bool" for infs where
  Bool: "prim_ber infs TBL_BOOLEAN (ABool x) [if x \<noteq> 0 then 0xFF else 0]"
| Int: "i \<in> {TBL_INTEGER, TBL_ENUMERATED} \<Longrightarrow> prim_ber infs i (AInt x) (int_octets (sint x))"
| Bits: "bits_in_memory x \<Longrightarrow> prim_ber infs TBL_BITSTRING (ABits x) (of_nat (unused_bits (bit_count x)) # bits_octets x)"
| Octs: "octs_in_memory x \<Longrightarrow> prim_ber infs TBL_OCTETSTRING (AOcts x) (octs_val x)"
| Null: "prim_ber infs TBL_NULL ANull []"
| Oid: "octs_in_memory x \<Longrightarrow> prim_ber infs TBL_OID (AOid x) (octs_val x)"
| Real: "real_kept infs (Fin s q) \<Longrightarrow> prim_ber infs TBL_REAL (AReal (Fin s q)) (real_contents s q)"
| Zero: "prim_ber infs TBL_REAL (AReal (Fin False 0)) []"

text \<open>The value a decoder makes of what was written: blocks of the announced size, and a TRUE that is 1.\<close>

primrec canon :: "AVal \<Rightarrow> AVal" where
  "canon (ABool x) = ABool (if x \<noteq> 0 then 1 else 0)"
| "canon (AInt x) = AInt x"
| "canon (ABits x) = ABits \<lparr>bitLen = bitLen x, bits = bits_octets x\<rparr>"
| "canon (AOcts x) = AOcts \<lparr>octetLen = octetLen x, octs = octs_val x @ [0]\<rparr>"
| "canon ANull = ANull"
| "canon (AOid x) = AOid \<lparr>octetLen = octetLen x, octs = octs_val x\<rparr>"
| "canon (AReal x) = AReal x"
| "canon (AStructVal vs) = AStructVal (map (map_option canon) vs)"
| "canon (AListVal vs) = AListVal (map (map_option canon) vs)"
| "canon (AChoiceVal i v) = AChoiceVal i (map_option canon v)"

text \<open>Whether an encoding of a type can begin with a tag: \<open>starts tbl t a b\<close> says that the answer is \<open>b\<close>.\<close>

inductive starts :: "TBL \<Rightarrow> TBLType \<Rightarrow> AsnTag \<Rightarrow> bool \<Rightarrow> bool" for tbl where
  Tagged: "tags_of t = tg # tgs \<Longrightarrow> starts tbl t a (TagsEquiv a tg)"
| Untagged_ref: "typeId t = TBL_TYPEREF \<Longrightarrow> no_tags t \<Longrightarrow> ref_of tbl t = Inr (t', i) \<Longrightarrow> starts tbl t' a r \<Longrightarrow> starts tbl t a r"
| Untagged_choice: "typeId t = TBL_CHOICE \<Longrightarrow> no_tags t \<Longrightarrow> elmts_of t = Inr es \<Longrightarrow>
    list_all2 (\<lambda>e r. starts tbl e a r) es rs \<Longrightarrow> starts tbl t a (True \<in> set rs)"

definition next_tag :: "byte list \<Rightarrow> AsnTag option" where
  "next_tag xs = (case tag_result 0 xs of Inl e \<Rightarrow> None | Inr (a, n) \<Rightarrow> Some a)"

text \<open>The tag whose contents a value is, if it is the contents of one: its own last tag, or that of the context.\<close>

definition last_tag :: "TBLType \<Rightarrow> bool \<Rightarrow> AsnTag option \<Rightarrow> AsnTag option" where
  "last_tag t impl h = (if open_tags t impl = [] then h else Some (encTag (last (open_tags t impl))))"

text \<open>
  \<open>tbl_ber infs tbl d h t impl v xs ys\<close>: the octets \<open>xs\<close> encode the value \<open>v\<close> of type \<open>t\<close>, for a reader who finds
  them followed by the octets \<open>ys\<close> and has at most \<open>d\<close> tags open at a time. The reader decides by the next tag
  whether an optional element of a SEQUENCE is there, which alternative of a CHOICE and which element of a SET.
\<close>

inductive tbl_ber ::
    "infinities \<Rightarrow> TBL \<Rightarrow> nat \<Rightarrow> AsnTag option \<Rightarrow> TBLType \<Rightarrow> bool \<Rightarrow> AVal \<Rightarrow> byte list \<Rightarrow> byte list \<Rightarrow> bool"
  and ber_fields :: "infinities \<Rightarrow> TBL \<Rightarrow> nat \<Rightarrow> TBLType list \<Rightarrow> AVal option list \<Rightarrow> byte list \<Rightarrow> byte list \<Rightarrow> bool"
  and ber_members ::
    "infinities \<Rightarrow> TBL \<Rightarrow> nat \<Rightarrow> TBLType list \<Rightarrow> TBLType list \<Rightarrow> AVal option list \<Rightarrow> byte list \<Rightarrow> byte list \<Rightarrow> bool"
  and ber_list :: "infinities \<Rightarrow> TBL \<Rightarrow> nat \<Rightarrow> TBLType \<Rightarrow> AVal option list \<Rightarrow> byte list \<Rightarrow> byte list \<Rightarrow> bool"
  for infs tbl where
  Prim: "prim_ber infs (typeId t) v c \<Longrightarrow> last_tag t impl h = Some a \<Longrightarrow>
    typeId t \<in> {TBL_OCTETSTRING, TBL_BITSTRING} \<longrightarrow> \<not> TAG_IS_CONS a \<Longrightarrow> hdr_ok (open_tags t impl) c \<Longrightarrow>
    tbl_ber infs tbl (length (open_tags t impl) + d) h t impl v (hdr (open_tags t impl) c @ c) ys"
| Ref: "typeId t = TBL_TYPEREF \<Longrightarrow> ref_of tbl t = Inr (t', ri) \<Longrightarrow>
    tbl_ber infs tbl d (last_tag t impl h) t' (ri \<or> impl \<and> no_tags t) v c ys \<Longrightarrow> hdr_ok (open_tags t impl) c \<Longrightarrow>
    tbl_ber infs tbl (length (open_tags t impl) + d) h t impl v (hdr (open_tags t impl) c @ c) ys"
| Sequence: "typeId t = TBL_SEQUENCE \<Longrightarrow> elmts_of t = Inr es \<Longrightarrow> ber_fields infs tbl d es vs c ys \<Longrightarrow>
    hdr_ok (open_tags t impl) c \<Longrightarrow>
    tbl_ber infs tbl (length (open_tags t impl) + d) h t impl (AStructVal vs) (hdr (open_tags t impl) c @ c) ys"
| Set: "typeId t = TBL_SET \<Longrightarrow> elmts_of t = Inr es \<Longrightarrow> ber_members infs tbl d [] es vs c ys \<Longrightarrow>
    last_tag t impl h \<noteq> None \<Longrightarrow> hdr_ok (open_tags t impl) c \<Longrightarrow>
    tbl_ber infs tbl (length (open_tags t impl) + d) h t impl (AStructVal vs) (hdr (open_tags t impl) c @ c) ys"
| List: "typeId t \<in> {TBL_SEQUENCEOF, TBL_SETOF} \<Longrightarrow> elmts_of t = Inr (e # es) \<Longrightarrow> ber_list infs tbl d e vs c ys \<Longrightarrow>
    last_tag t impl h \<noteq> None \<Longrightarrow> hdr_ok (open_tags t impl) c \<Longrightarrow>
    tbl_ber infs tbl (length (open_tags t impl) + d) h t impl (AListVal vs) (hdr (open_tags t impl) c @ c) ys"
| Choice: "typeId t = TBL_CHOICE \<Longrightarrow> elmts_of t = Inr (es @ e # es') \<Longrightarrow>
    tbl_ber infs tbl d (last_tag t impl h) e False v c ys \<Longrightarrow> next_tag (c @ ys) = Some a \<Longrightarrow> starts tbl e a True \<Longrightarrow>
    list_all (\<lambda>e. starts tbl e a False) es \<Longrightarrow> hdr_ok (open_tags t impl) c \<Longrightarrow>
    tbl_ber infs tbl (length (open_tags t impl) + d) h t impl (AChoiceVal (length es) (Some v))
      (hdr (open_tags t impl) c @ c) ys"
| No_fields: "ber_fields infs tbl d [] [] [] ys"
| Field: "tbl_ber infs tbl d None e False v x (xs @ ys) \<Longrightarrow> next_tag (x @ xs @ ys) = Some a \<Longrightarrow> starts tbl e a True \<Longrightarrow>
    ber_fields infs tbl d es vs xs ys \<Longrightarrow> ber_fields infs tbl d (e # es) (Some v # vs) (x @ xs) ys"
| Absent_field: "optional e \<Longrightarrow> next_tag (xs @ ys) = Some a \<Longrightarrow> starts tbl e a False \<Longrightarrow>
    ber_fields infs tbl d es vs xs ys \<Longrightarrow> ber_fields infs tbl d (e # es) (None # vs) xs ys"
| No_members: "ber_members infs tbl d pre [] [] [] ys"
| Member: "tbl_ber infs tbl d None e False v x (xs @ ys) \<Longrightarrow> x \<noteq> [] \<Longrightarrow> next_tag (x @ xs @ ys) = Some a \<Longrightarrow>
    starts tbl e a True \<Longrightarrow> list_all (\<lambda>e. starts tbl e a False) pre \<Longrightarrow>
    ber_members infs tbl d (pre @ [e]) es vs xs ys \<Longrightarrow> ber_members infs tbl d pre (e # es) (Some v # vs) (x @ xs) ys"
| Absent_member: "optional e \<Longrightarrow> ber_members infs tbl d (pre @ [e]) es vs xs ys \<Longrightarrow>
    ber_members infs tbl d pre (e # es) (None # vs) xs ys"
| Empty_list: "ber_list infs tbl d e [] [] ys"
| List_element: "tbl_ber infs tbl d None e False v x (xs @ ys) \<Longrightarrow> x \<noteq> [] \<Longrightarrow> ber_list infs tbl d e vs xs ys \<Longrightarrow>
    ber_list infs tbl d e (Some v # vs) (x @ xs) ys"

inductive_cases prim_berE: "prim_ber infs i v c"

lemma length_fields: "ber_fields infs tbl d es vs xs ys \<Longrightarrow> length vs = length es"
  by (induction es vs xs ys rule: tbl_ber_ber_fields_ber_members_ber_list.inducts(2)
    [where ?P1.0 = "\<lambda>_ _ _ _ _ _ _. True" and ?P3.0 = "\<lambda>_ _ _ _ _ _. True" and ?P4.0 = "\<lambda>_ _ _ _ _. True"]) simp_all

end
