(* ===== verification/Tbl_Enc.thy ===== *)
theory Tbl_Enc
  imports Tbl_Ber Complex_Main
begin

text \<open>
  The encoder by type tables writes the octets of the relation \<open>tbl_ber\<close>: \<open>TblEncodeType\<close> with any fuel that is
  large enough.
\<close>

abbreviation for_large :: "(nat \<Rightarrow> bool) \<Rightarrow> bool" where
  "for_large P \<equiv> eventually P sequentially"

lemma for_large_Suc: "for_large P \<Longrightarrow> (\<And>k. P k \<Longrightarrow> Q (Suc k)) \<Longrightarrow> for_large Q"
  by (subst eventually_sequentially_Suc [symmetric]) (erule eventually_mono)

lemma for_large_Suc_all: "(\<And>k. Q (Suc k)) \<Longrightarrow> for_large Q"
  by (subst eventually_sequentially_Suc [symmetric]) simp

lemma for_large_mp2: "for_large P \<Longrightarrow> for_large Q \<Longrightarrow> (\<And>k. P k \<Longrightarrow> Q k \<Longrightarrow> R k) \<Longrightarrow> for_large R"
  by (erule (1) eventually_elim2)

context gen_writer
begin

definition writes_type :: "infinities \<Rightarrow> TBL \<Rightarrow> nat \<Rightarrow> TBLType \<Rightarrow> bool \<Rightarrow> AVal \<Rightarrow> byte list \<Rightarrow> bool" where
  "writes_type infs tbl k t impl v xs \<longleftrightarrow>
     (\<forall>n. emits W out werr room (TblEncodeType k infs tbl g t (Some v) impl n) (0, n + of_nat (length xs)) xs)"

lemma writes_type_0:
  assumes "writes_type infs tbl k t impl v xs"
  shows "emits W out werr room (TblEncodeType k infs tbl g t (Some v) impl 0) (0, of_nat (length xs)) xs"
  using assms [unfolded writes_type_def, rule_format, of 0] by simp

definition writes_content :: "infinities \<Rightarrow> TBL \<Rightarrow> nat \<Rightarrow> TBLType \<Rightarrow> bool \<Rightarrow> AVal \<Rightarrow> byte list \<Rightarrow> bool" where
  "writes_content infs tbl k t impl v c \<longleftrightarrow>
     emits W out werr room (TblEncodeContent (TblEncodeType k infs tbl g) infs tbl g t (Some v) impl) (0, of_nat (length c)) c"

lemma writes_typeI:
  assumes "writes_content infs tbl k t impl v c" and "hdr_ok (open_tags t impl) c"
  shows "writes_type infs tbl (Suc k) t impl v (hdr (open_tags t impl) c @ c)"
proof -
  let ?xs = "hdr (open_tags t impl) c @ c"
  have "emits W out werr room (TblEncodeType (Suc k) infs tbl g t (Some v) impl n)
      (0, n + of_nat (length ?xs)) (([] @ hdr (open_tags t impl) c) @ c)" for n
    unfolding TblEncodeType.simps
    by (rule emits_bind [OF assms(1) [unfolded writes_content_def]])
      (simp only: prod.case if_P order_refl, intro emits_bind [OF TblEncodeTagsAndLens_emits [OF assms(2)]] emits_return)
  then show ?thesis by (simp add: writes_type_def)
qed

lemma content_len_emits: "emits W out werr room m n xs \<Longrightarrow> emits W out werr room (content_len m) (0, n) xs"
  using emits_bind [of W out werr room m n xs "\<lambda>n. returnP (0, n)" "(0, n)" "[]", OF _ emits_return]
  by (simp add: content_len_def)

lemma prim_writes: "prim_ber infs (typeId t) v c \<Longrightarrow> writes_content infs tbl k t impl v c"
  unfolding writes_content_def
proof (erule prim_berE, goal_cases)
  case (1 x)
  then show ?case
    by (auto simp: TblEncodeContent_def bool_ptr_def BEncAsnBoolContent_def
      intro!: content_len_emits emits_seq [OF putByteRvs_emits] emits_return)
next
  case (2 x)
  then show ?case
    using content_len_emits [OF BEncAsnIntContent_emits] by (auto simp: TblEncodeContent_def int_ptr_def)
next
  case (3 x)
  then show ?case
    using content_len_emits [OF BEncAsnBitsContent_emits] by (simp add: TblEncodeContent_def bits_ptr_def)
next
  case (4 x)
  then show ?case
    using content_len_emits [OF BEncAsnOctsContent_emits] by (simp add: TblEncodeContent_def octs_ptr_def)
next
  case 5
  then show ?case
    using content_len_emits [OF emits_return] by (simp add: TblEncodeContent_def BEncAsnNullContent_def)
next
  case (6 x)
  then show ?case
    using content_len_emits [OF BEncAsnOctsContent_emits] by (simp add: TblEncodeContent_def oid_ptr_def)
next
  case (7 s q)
  then show ?case
    using content_len_emits [OF BEncAsnRealContent_emits, of q s infs]
    by (auto simp: TblEncodeContent_def real_ptr_def real_kept_def)
next
  case 8
  then show ?case
    using content_len_emits [OF emits_return] by (simp add: TblEncodeContent_def real_ptr_def BEncAsnRealContent_zero)
qed

definition writes_fields :: "infinities \<Rightarrow> TBL \<Rightarrow> nat \<Rightarrow> TBLType list \<Rightarrow> AVal option list \<Rightarrow> byte list \<Rightarrow> bool" where
  "writes_fields infs tbl k es vs xs \<longleftrightarrow>
     (\<forall>n pre rvs r zs. length rvs = length pre \<longrightarrow>
        emits W out werr room (enc_struct (\<lambda>e v n. TblEncodeType k infs tbl g e v False n) (Some (AStructVal (rvs @ vs))) pre
          (n + of_nat (length xs))) r zs \<longrightarrow>
        emits W out werr room (enc_struct (\<lambda>e v n. TblEncodeType k infs tbl g e v False n) (Some (AStructVal (rvs @ vs)))
          (rev es @ pre) n) r (zs @ xs))"

definition writes_list :: "infinities \<Rightarrow> TBL \<Rightarrow> nat \<Rightarrow> TBLType \<Rightarrow> AVal option list \<Rightarrow> byte list \<Rightarrow> bool" where
  "writes_list infs tbl k e vs xs \<longleftrightarrow>
     (\<forall>n pre r zs.
        emits W out werr room (enc_list (\<lambda>v n. TblEncodeType k infs tbl g e v False n) pre (n + of_nat (length xs))) r zs \<longrightarrow>
        emits W out werr room (enc_list (\<lambda>v n. TblEncodeType k infs tbl g e v False n) (rev vs @ pre) n) r (zs @ xs))"

lemma writes_fields_Nil: "writes_fields infs tbl k [] [] []"
  by (simp add: writes_fields_def)

lemma writes_fields_Some:
  assumes "writes_type infs tbl k e False v x" and "writes_fields infs tbl k es vs xs"
  shows "writes_fields infs tbl k (e # es) (Some v # vs) (x @ xs)"
  unfolding writes_fields_def
proof (intro allI impI)
  fix n :: AsnLen and pre :: "TBLType list" and rvs :: "AVal option list" and r zs
  let ?f = "\<lambda>e v n. TblEncodeType k infs tbl g e v False n" and ?v = "Some (AStructVal (rvs @ Some v # vs))"
  assume l: "length rvs = length pre"
    and rest: "emits W out werr room (enc_struct ?f ?v pre (n + of_nat (length (x @ xs)))) r zs"
  have "emits W out werr room (enc_struct ?f ?v (e # pre) (n + of_nat (length xs))) r (zs @ x)"
  proof -
    have "emits W out werr room (bindP (TblEncodeType k infs tbl g e (Some v) False (n + of_nat (length xs)))
        (\<lambda>(retVal, n). if retVal < 0 then returnP (retVal, n) else enc_struct ?f ?v pre n)) r (zs @ x)"
      by (rule emits_bind [OF assms(1) [unfolded writes_type_def, rule_format]])
        (use rest in \<open>simp add: add.assoc add.commute add.left_commute\<close>)
    then show ?thesis using l by (simp add: struct_elmt_def nth_append)
  qed
  then have "emits W out werr room (enc_struct ?f ?v (rev es @ e # pre) n) r ((zs @ x) @ xs)"
    using assms(2) [unfolded writes_fields_def, rule_format, of "rvs @ [Some v]" "e # pre" n r "zs @ x"] l by simp
  then show "emits W out werr room (enc_struct ?f ?v (rev (e # es) @ pre) n) r (zs @ x @ xs)" by simp
qed

lemma writes_fields_None:
  assumes "optional e" and "writes_fields infs tbl k es vs xs"
  shows "writes_fields infs tbl k (e # es) (None # vs) xs"
  unfolding writes_fields_def
proof (intro allI impI)
  fix n :: AsnLen and pre :: "TBLType list" and rvs :: "AVal option list" and r zs
  let ?f = "\<lambda>e v n. TblEncodeType k infs tbl g e v False n" and ?v = "Some (AStructVal (rvs @ None # vs))"
  assume l: "length rvs = length pre" and rest: "emits W out werr room (enc_struct ?f ?v pre (n + of_nat (length xs))) r zs"
  then have "emits W out werr room (enc_struct ?f ?v (e # pre) (n + of_nat (length xs))) r zs"
    using assms(1) by (simp add: struct_elmt_def nth_append)
  then show "emits W out werr room (enc_struct ?f ?v (rev (e # es) @ pre) n) r (zs @ xs)"
    using assms(2) [unfolded writes_fields_def, rule_format, of "rvs @ [None]" "e # pre" n r zs] l by simp
qed

lemma writes_list_Some:
  assumes "writes_type infs tbl k e False v x" and "writes_list infs tbl k e vs xs"
  shows "writes_list infs tbl k e (Some v # vs) (x @ xs)"
  unfolding writes_list_def
proof (intro allI impI)
  fix n :: AsnLen and pre :: "AVal option list" and r zs
  let ?f = "\<lambda>v n. TblEncodeType k infs tbl g e v False n"
  assume rest: "emits W out werr room (enc_list ?f pre (n + of_nat (length (x @ xs)))) r zs"
  have "emits W out werr room (bindP (TblEncodeType k infs tbl g e (Some v) False (n + of_nat (length xs)))
      (\<lambda>(retVal, n). if retVal < 0 then returnP (retVal, n) else enc_list ?f pre n)) r (zs @ x)"
    by (rule emits_bind [OF assms(1) [unfolded writes_type_def, rule_format]])
      (use rest in \<open>simp add: add.assoc add.commute add.left_commute\<close>)
  then show "emits W out werr room (enc_list ?f (rev (Some v # vs) @ pre) n) r (zs @ x @ xs)"
    using assms(2) [unfolded writes_list_def, rule_format, of "Some v # pre" n r "zs @ x"] by simp
qed

lemma fields_content:
  assumes "writes_fields infs tbl k es vs c" and "typeId t \<in> {TBL_SEQUENCE, TBL_SET}" and "elmts_of t = Inr es"
  shows "writes_content infs tbl k t impl (AStructVal vs) c"
proof -
  have "emits W out werr room (enc_struct (\<lambda>e v n. TblEncodeType k infs tbl g e v False n) (Some (AStructVal ([] @ vs))) [] (0 + of_nat (length c)))
      (0, 0 + of_nat (length c)) []" by (simp add: emits_return)
  from assms(1) [unfolded writes_fields_def, rule_format, OF _ this] assms(2,3)
  show ?thesis by (auto simp: writes_content_def TblEncodeContent_def)
qed

lemma list_content:
  assumes "writes_list infs tbl k e vs c" and "typeId t \<in> {TBL_SEQUENCEOF, TBL_SETOF}" and "elmts_of t = Inr (e # es)"
  shows "writes_content infs tbl k t impl (AListVal vs) c"
proof -
  have "emits W out werr room (enc_list (\<lambda>v n. TblEncodeType k infs tbl g e v False n) [] (0 + of_nat (length c)))
      (0, 0 + of_nat (length c)) []" by (simp add: emits_return)
  from assms(1) [unfolded writes_list_def, rule_format, OF this] assms(2,3)
  show ?thesis by (auto simp: writes_content_def TblEncodeContent_def FIRST_LIST_ELMT_def list_ptr_def)
qed

theorem TblEncodeType_writes:
  "tbl_ber infs tbl d h t impl v xs ys \<Longrightarrow> for_large (\<lambda>k. writes_type infs tbl k t impl v xs)"
  "ber_fields infs tbl d es vs xs ys \<Longrightarrow> for_large (\<lambda>k. writes_fields infs tbl k es vs xs)"
  "ber_members infs tbl d pre es vs xs ys \<Longrightarrow> for_large (\<lambda>k. writes_fields infs tbl k es vs xs)"
  "ber_list infs tbl d e vs xs ys \<Longrightarrow> for_large (\<lambda>k. writes_list infs tbl k e vs xs)"
proof (induction rule: tbl_ber_ber_fields_ber_members_ber_list.inducts)
  case (Prim t v c impl h a d ys)
  then show ?case by (intro for_large_Suc_all writes_typeI prim_writes)
next
  case (Ref t t' ri d impl h v c ys)
  have IH: "for_large (\<lambda>k. writes_type infs tbl k t' (ri \<or> impl \<and> no_tags t) v c)" and ok: "hdr_ok (open_tags t impl) c"
    and t: "typeId t = TBL_TYPEREF" "ref_of tbl t = Inr (t', ri)" by fact+
  show ?case
    by (rule for_large_Suc [OF IH], rule writes_typeI [OF _ ok])
      (use t in \<open>simp add: writes_content_def TblEncodeContent_def writes_type_0\<close>)
next
  case (Sequence t es d vs c ys impl h)
  have IH: "for_large (\<lambda>k. writes_fields infs tbl k es vs c)" by fact
  show ?case by (rule for_large_Suc [OF IH], rule writes_typeI [OF fields_content]) (use Sequence in auto)
next
  case (Set t es d vs c ys impl h)
  have IH: "for_large (\<lambda>k. writes_fields infs tbl k es vs c)" by fact
  show ?case by (rule for_large_Suc [OF IH], rule writes_typeI [OF fields_content]) (use Set in auto)
next
  case (List t e es d vs c ys impl h)
  have IH: "for_large (\<lambda>k. writes_list infs tbl k e vs c)" by fact
  show ?case by (rule for_large_Suc [OF IH], rule writes_typeI [OF list_content]) (use List in auto)
next
  case (Choice t es e es' d impl h v c ys a)
  have IH: "for_large (\<lambda>k. writes_type infs tbl k e False v c)" and ok: "hdr_ok (open_tags t impl) c"
    and t: "typeId t = TBL_CHOICE" "elmts_of t = Inr (es @ e # es')" by fact+
  show ?case
    by (rule for_large_Suc [OF IH], rule writes_typeI [OF _ ok])
      (use t in \<open>simp add: writes_content_def TblEncodeContent_def writes_type_0 choice_ptr_def choice_elmt_def\<close>)
next
  case (Field d e v x xs ys a es vs)
  have "for_large (\<lambda>k. writes_type infs tbl k e False v x)" "for_large (\<lambda>k. writes_fields infs tbl k es vs xs)" by fact+
  then show ?case by (rule for_large_mp2) (rule writes_fields_Some)
next
  case (Member d e v x xs ys a pre es vs)
  have "for_large (\<lambda>k. writes_type infs tbl k e False v x)" "for_large (\<lambda>k. writes_fields infs tbl k es vs xs)" by fact+
  then show ?case by (rule for_large_mp2) (rule writes_fields_Some)
next
  case (Absent_field e xs ys a d es vs)
  have "for_large (\<lambda>k. writes_fields infs tbl k es vs xs)" by fact
  then show ?case by (rule eventually_mono) (rule writes_fields_None [OF \<open>optional e\<close>])
next
  case (Absent_member e d pre es vs xs ys)
  have "for_large (\<lambda>k. writes_fields infs tbl k es vs xs)" by fact
  then show ?case by (rule eventually_mono) (rule writes_fields_None [OF \<open>optional e\<close>])
next
  case (List_element d e v x xs ys vs)
  have "for_large (\<lambda>k. writes_type infs tbl k e False v x)" "for_large (\<lambda>k. writes_list infs tbl k e vs xs)" by fact+
  then show ?case by (rule for_large_mp2) (rule writes_list_Some)
qed (simp_all add: writes_fields_Nil writes_list_def)

end

end
