(* ===== verification/Tbl_Dec.thy ===== *)
theory Tbl_Dec
  imports Tbl_Enc
begin

text \<open>
  The decoder by type tables reads what the relation \<open>tbl_ber\<close> describes, in any context that does not fill the
  stack of tags, and leaves the stack as it was.
\<close>

section \<open>Running the parts of the decoder\<close>

lemma on_bits_run [prog_simps]: "on_bits m (s, tls) = (case m s of (r, s') \<Rightarrow> (r, (s', tls)))"
  by (simp add: on_bits_def)

lemma LAST_TL_run [prog_simps]: "LAST_TL (s, e # tls) = (Inr e, (s, e # tls))"
  by (simp add: LAST_TL_def)

lemma POP_TL_run [prog_simps]: "POP_TL (s, e # tls) = (Inr (), (s, tls))"
  by (simp add: POP_TL_def)

lemma PUSH_TL_run [prog_simps]:
  "length tls < TL_STK_SIZE \<Longrightarrow> PUSH_TL t l sz (s, tls) = (Inr (), (s, \<lparr>tl_tag = t, tl_len = l, tl_size = ucast sz\<rparr> # tls))"
  by (simp add: PUSH_TL_def)

lemma PeekTag_next: "next_tag xs = Some a \<Longrightarrow> PeekTag stream_ops (stream_of xs) = (Inr a, stream_of xs)"
  using PeekTag_result [where bd = 0 and xs = xs] by (auto simp: next_tag_def split: sum.splits)

section \<open>Tags and lengths\<close>

text \<open>The stack after the tags and lengths before the contents \<open>c\<close> have been read.\<close>

primrec pushed :: "TBLTag list \<Rightarrow> byte list \<Rightarrow> TagNLen list \<Rightarrow> TagNLen list" where
  "pushed [] c tls = tls"
| "pushed (tg # tgs) c tls =
     pushed tgs c
       (\<lparr>tl_tag = encTag tg, tl_len = of_nat (length (hdr tgs c @ c)),
         tl_size = of_nat (length (tag_bytes tg) + length (len_octets (of_nat (length (hdr tgs c @ c)))))\<rparr> # tls)"

lemma length_pushed: "length (pushed tgs c tls) = length tls + length tgs"
  by (induction tgs arbitrary: tls) simp_all

lemma pushed_append: "pushed (tgs @ tgs') c tls = pushed tgs' c (pushed tgs (hdr tgs' c @ c) tls)"
  by (induction tgs arbitrary: tls) (simp_all add: hdr_append)

lemma BDecTag_tag_bytes:
  assumes "tag_ok tg"
  shows "BDecTag stream_ops bd (stream_of (tag_bytes tg @ ys)) = (Inr (encTag tg, bd + of_nat (length (tag_bytes tg))), stream_of ys)"
  using assms BDecTag_tag_octets [OF tag_proper] by (simp add: tag_ok_def tag_bytes_def)

lemma dec_tags_stream:
  assumes "hdr_ok tgs c" and "length tls + length tgs \<le> TL_STK_SIZE"
  shows "dec_tags stream_ops tgs ((stream_of (hdr tgs c @ c @ ys), u), tls) = (Inr (), ((stream_of (c @ ys), u), pushed tgs c tls))"
  using assms
proof (induction tgs arbitrary: tls)
  case Nil
  then show ?case by (simp add: prog_simps)
next
  case (Cons tg tgs)
  note ok = hdr_ok_Cons [OF Cons.prems(1)]
  let ?l = "length (hdr tgs c @ c)"
  have l: "?l < 2 ^ 32" using ok by (simp add: hdr_ok_def)
  have e: "TagsEquiv (encTag tg) tg" by (simp add: TagsEquiv_def)
  have "length (tag_bytes tg) + length (len_octets (of_nat ?l)) \<le> 9"
    using length_tag_octets length_len_octets [of "of_nat ?l"] by (simp only: tag_bytes_def) (rule add_mono [of _ 4 _ 5, simplified])
  then have s: "(ucast (of_nat (length (tag_bytes tg)) + of_nat (length (len_octets (of_nat ?l))) :: ulong) :: 32 word) =
      of_nat (length (tag_bytes tg) + length (len_octets (of_nat ?l)))"
    by (simp only: of_nat_add [symmetric])
      (simp add: word_unat_eq_iff unsigned_of_nat unsigned_ucast_eq take_bit_nat_eq_self del: of_nat_add)
  have len: "BDecLen stream_ops m (stream_of (len_octets (of_nat ?l) @ hdr tgs c @ c @ ys)) =
      (Inr (of_nat ?l, m + of_nat (length (len_octets (of_nat ?l)))), stream_of (hdr tgs c @ c @ ys))" for m
    by (rule BDecLen_small [OF l])
  have run: "dec_tags stream_ops (tg # tgs) ((stream_of (hdr (tg # tgs) c @ c @ ys), u), tls) =
      dec_tags stream_ops tgs ((stream_of (hdr tgs c @ c @ ys), u),
        \<lparr>tl_tag = encTag tg, tl_len = of_nat ?l,
         tl_size = of_nat (length (tag_bytes tg) + length (len_octets (of_nat ?l)))\<rparr> # tls)"
    using BDecTag_tag_bytes [of tg] ok Cons.prems(2) e len s
    by (simp add: bindP_run on_bits_run on_buf_run PUSH_TL_run del: length_append of_nat_add)
  have "hdr_ok tgs c" using ok by simp
  then show ?case
    unfolding run using Cons.prems(2) by (subst Cons.IH) simp_all
qed

lemma pop_tags_stream:
  assumes "hdr_ok tgs c"
  shows "pop_tags stream_ops False (rev tgs) (of_nat (length c)) (s, pushed tgs c tls) = (Inr (of_nat (length (hdr tgs c @ c))), (s, tls))"
  using assms
proof (induction tgs arbitrary: c rule: rev_induct)
  case Nil
  then show ?case by (simp add: prog_simps)
next
  case (snoc tg tgs)
  let ?c = "hdr [tg] c @ c"
  let ?n = "length (tag_bytes tg) + length (len_octets (of_nat (length c)))"
  have ok: "hdr_ok tgs ?c" using snoc.prems by (simp add: hdr_ok_def hdr_append)
  have c: "length c < 2 ^ 32" using hdr_okD(2) [OF snoc.prems] .
  then have ni: "of_nat (length c) \<noteq> INDEFINITE_LEN" by (intro of_nat_less_indef) simp
  have n: "?n \<le> 9" using length_tag_octets length_len_octets [of "of_nat (length c)"]
    by (simp add: tag_bytes_def add_mono [of _ 4 _ 5, simplified])
  then have sz: "(ucast (of_nat ?n :: 32 word) :: ulong) = of_nat ?n"
    by (simp add: word_unat_eq_iff unsigned_of_nat unsigned_ucast_eq take_bit_nat_eq_self del: of_nat_add)
  have "pop_tags stream_ops False (rev (tgs @ [tg])) (of_nat (length c)) (s, pushed (tgs @ [tg]) c tls) =
      pop_tags stream_ops False (rev tgs) (of_nat (length ?c)) (s, pushed tgs ?c tls)"
    using ni sz by (simp add: pushed_append prog_simps add.assoc add.commute add.left_commute)
  then show ?case using snoc.IH [OF ok] by (simp add: hdr_append)
qed

section \<open>Matching tags\<close>

lemma TagsMatch_starts: "starts tbl t a r \<Longrightarrow> for_large (\<lambda>k. TagsMatch k tbl t a = Inr r)"
proof (induction rule: starts.induct)
  case (Tagged t tg tgs a)
  then have "\<not> no_tags t" by (auto simp: no_tags_def tags_of_def split: option.splits)
  with Tagged show ?case by (intro for_large_Suc_all) (simp add: FIRST_LIST_ELMT_def)
next
  case (Untagged_ref t t' i a r)
  show ?case by (rule for_large_Suc [OF Untagged_ref.IH]) (use Untagged_ref.hyps in simp)
next
  case (Untagged_choice t es a rs)
  have "for_large (\<lambda>k. some_stop (\<lambda>e. TagsMatch k tbl e a) es = Inr (True \<in> set rs))"
    using Untagged_choice.IH
  proof (induction rule: list_all2_induct)
    case (Cons e es r rs)
    from Cons(1) have "for_large (\<lambda>k. TagsMatch k tbl e a = Inr r)" by simp
    from this Cons.IH show ?case by (rule for_large_mp2) auto
  qed simp
  then show ?case by (rule for_large_Suc) (use Untagged_choice.hyps in simp)
qed

lemma for_large_all: "list_all (\<lambda>e. for_large (P e)) es \<Longrightarrow> for_large (\<lambda>k. list_all (\<lambda>e. P e k) es)"
  by (induction es) (auto elim: for_large_mp2)

lemma no_starts: "list_all (\<lambda>e. starts tbl e a False) es \<Longrightarrow> for_large (\<lambda>k. list_all (\<lambda>e. TagsMatch k tbl e a = Inr False) es)"
  by (rule for_large_all) (auto simp: list_all_iff intro: TagsMatch_starts)

lemma find_match_at:
  "list_all (\<lambda>e. f e = Inr False) es \<Longrightarrow> f e = Inr True \<Longrightarrow> find_match f (es @ e # es') = Inr (length es)"
  by (induction es) simp_all

section \<open>Contents\<close>

text \<open>With the value's contents those of the last tag, the stack says so.\<close>

definition on_top :: "AsnTag option \<Rightarrow> TagNLen list \<Rightarrow> byte list \<Rightarrow> bool" where
  "on_top h tls c \<longleftrightarrow>
     (case h of None \<Rightarrow> True
      | Some a \<Rightarrow> length c < 2 ^ 32 \<and> (\<exists>s more. tls = \<lparr>tl_tag = a, tl_len = of_nat (length c), tl_size = s\<rparr> # more))"

definition reads_type ::
  "infinities \<Rightarrow> TBL \<Rightarrow> nat \<Rightarrow> nat \<Rightarrow> AsnTag option \<Rightarrow> TBLType \<Rightarrow> bool \<Rightarrow> AVal \<Rightarrow> byte list \<Rightarrow> byte list \<Rightarrow> bool" where
  "reads_type infs tbl k d h t impl v xs ys \<longleftrightarrow>
     (\<forall>u tls bd. length tls + d \<le> TL_STK_SIZE \<longrightarrow> on_top h tls xs \<longrightarrow>
        TblDecodeType k infs tbl stream_ops t impl bd ((stream_of (xs @ ys), u), tls) =
          (Inr (Some (canon v), bd + of_nat (length xs)), ((stream_of ys, u), tls)))"

definition reads_content ::
  "infinities \<Rightarrow> TBL \<Rightarrow> nat \<Rightarrow> nat \<Rightarrow> AsnTag option \<Rightarrow> TBLType \<Rightarrow> bool \<Rightarrow> AVal \<Rightarrow> byte list \<Rightarrow> byte list \<Rightarrow> bool" where
  "reads_content infs tbl k d h t impl v c ys \<longleftrightarrow>
     (\<forall>u tls. length tls + d \<le> TL_STK_SIZE \<longrightarrow> on_top h tls c \<longrightarrow>
        TblDecodeContent k (TblDecodeType k infs tbl stream_ops) infs tbl stream_ops t impl ((stream_of (c @ ys), u), tls) =
          (Inr (Some (canon v), of_nat (length c)), ((stream_of ys, u), tls)))"

lemma on_top_pushed:
  assumes "hdr_ok tgs c" and "tgs \<noteq> []"
  shows "on_top (Some (encTag (last tgs))) (pushed tgs c tls) c"
proof -
  from assms(2) obtain ts tg where t: "tgs = ts @ [tg]" by (metis rev_exhaust)
  have "length c < 2 ^ 32" using hdr_okD(2) [OF assms(1)] .
  then show ?thesis by (simp add: t pushed_append on_top_def)
qed

lemma reads_typeI:
  assumes c: "reads_content infs tbl k d (last_tag t impl h) t impl v c ys" and ok: "hdr_ok (open_tags t impl) c"
  shows "reads_type infs tbl (Suc k) (length (open_tags t impl) + d) h t impl v (hdr (open_tags t impl) c @ c) ys"
  unfolding reads_type_def
proof (intro allI impI)
  fix u :: "16 word" and tls :: "TagNLen list" and bd :: AsnLen
  let ?ts = "open_tags t impl"
  assume l: "length tls + (length ?ts + d) \<le> TL_STK_SIZE" and top: "on_top h tls (hdr ?ts c @ c)"
  have tags: "TblDecodeTagsAndLens t stream_ops impl ((stream_of (hdr ?ts c @ c @ ys), u), tls) =
      (Inr (), ((stream_of (c @ ys), u), pushed ?ts c tls))"
  proof -
    have "no_tags t \<longleftrightarrow> tags_of t = []" by (simp add: no_tags_def tags_of_def split: option.split)
    then show ?thesis
      using dec_tags_stream [OF ok, of tls ys u] l by (auto simp: TblDecodeTagsAndLens_def open_tags_def prog_simps)
  qed
  have "on_top (last_tag t impl h) (pushed ?ts c tls) c"
    using on_top_pushed [OF ok] top by (auto simp: last_tag_def)
  moreover have "length (pushed ?ts c tls) + d \<le> TL_STK_SIZE" using l by (simp add: length_pushed)
  ultimately have content: "TblDecodeContent k (TblDecodeType k infs tbl stream_ops) infs tbl stream_ops t impl
      ((stream_of (c @ ys), u), pushed ?ts c tls) =
      (Inr (Some (canon v), of_nat (length c)), ((stream_of ys, u), pushed ?ts c tls))"
    using c by (simp add: reads_content_def)
  have skip: "pop_tags stream_ops True (xs @ [x]) n = pop_tags stream_ops False xs n" for xs x n
    by (induction xs arbitrary: n) simp_all
  have "TblPopTagsAndLens t stream_ops impl (of_nat (length c)) ((stream_of ys, u), pushed ?ts c tls) =
      (Inr (of_nat (length (hdr ?ts c @ c))), ((stream_of ys, u), tls))"
    using pop_tags_stream [OF ok, of "(stream_of ys, u)" tls]
    by (cases impl; cases "tags_of t") (simp_all add: TblPopTagsAndLens_def open_tags_def skip prog_simps)
  with tags content
  show "TblDecodeType (Suc k) infs tbl stream_ops t impl bd ((stream_of ((hdr ?ts c @ c) @ ys), u), tls) =
      (Inr (Some (canon v), bd + of_nat (length (hdr ?ts c @ c))), ((stream_of ys, u), tls))"
    by (simp add: bindP_run returnP_run)
qed

lemma prim_reads:
  assumes "prim_ber infs (typeId t) v c" and "h = Some a" and "typeId t \<in> {TBL_OCTETSTRING, TBL_BITSTRING} \<longrightarrow> \<not> TAG_IS_CONS a"
  shows "reads_content infs tbl k d h t impl v c ys"
  unfolding reads_content_def
proof (intro allI impI)
  fix u :: "16 word" and tls :: "TagNLen list"
  assume "length tls + d \<le> TL_STK_SIZE" and "on_top h tls c"
  then obtain s more where top: "tls = \<lparr>tl_tag = a, tl_len = of_nat (length c), tl_size = s\<rparr> # more" and c: "length c < 2 ^ 32"
    using assms(2) by (auto simp: on_top_def)
  note run = top TblDecodeContent_def prog_simps a_val_def
  show "TblDecodeContent k (TblDecodeType k infs tbl stream_ops) infs tbl stream_ops t impl ((stream_of (c @ ys), u), tls) =
      (Inr (Some (canon v), of_nat (length c)), ((stream_of ys, u), tls))"
    using assms(1)
  proof (cases rule: prim_ber.cases)
    case (Bool x)
    then show ?thesis by (simp add: run BDecAsnBoolContent_def)
  next
    case (Int x)
    then show ?thesis using BDecAsnIntContent_octets [of a x 0 ys] by (auto simp: run)
  next
    case (Bits x)
    then show ?thesis using BDecAsnBitsContent_value [of x a k 0 ys u] assms(3) by (simp add: run)
  next
    case (Octs x)
    then have x: "length (octs_val x) = unat (octetLen x)" "length (octs_val x) < 2 ^ 31 - 1"
      by (simp_all add: length_octs_val) (simp add: octs_in_memory_def)
    have "BDecAsnOctsContent k stream_ops a = BDecAsnOctsContent k stream_ops OCTS_PRIM"
      by (intro ext BDecAsnOctsContent_form) (use assms(3) Octs octs_tags in simp)
    then show ?thesis using BDecAsnOctsContent_prim [OF x(2), of k 0 ys] x(1) Octs by (simp add: run)
  next
    case Null
    then show ?thesis by (simp add: run BDecAsnNullContent_def)
  next
    case (Oid x)
    then have x: "length (octs_val x) = unat (octetLen x)" "length (octs_val x) < 2 ^ 31"
      by (simp_all add: length_octs_val) (simp add: octs_in_memory_def)
    then show ?thesis using BDecAsnOidContent_prim [OF x(2), of a 0 ys] Oid by (simp add: run)
  next
    case (Real s q)
    then show ?thesis using BDecAsnRealContent_stream [of q infs k a s 0 ys] by (auto simp: run real_kept_def real_read_def)
  next
    case Zero
    then show ?thesis by (simp add: run BDecAsnRealContent_def)
  qed
qed

section \<open>Structures and lists\<close>

text \<open>An element of a structure or a list is read where the context is not its last tag.\<close>

lemma element_reads:
  assumes "reads_type infs tbl k d None e False v x zs" and "length tls + d \<le> TL_STK_SIZE"
  shows "TblDecodeType k infs tbl stream_ops e False n ((stream_of (x @ zs), u), tls) =
    (Inr (Some (canon v), n + of_nat (length x)), ((stream_of zs, u), tls))"
  using assms by (simp add: reads_type_def on_top_def)

definition reads_fields ::
  "infinities \<Rightarrow> TBL \<Rightarrow> nat \<Rightarrow> nat \<Rightarrow> TBLType list \<Rightarrow> AVal option list \<Rightarrow> byte list \<Rightarrow> byte list \<Rightarrow> bool" where
  "reads_fields infs tbl k d es vs xs ys \<longleftrightarrow>
     (\<forall>u tls n. length tls + d \<le> TL_STK_SIZE \<longrightarrow>
        dec_sequence (TagsMatch k tbl) (TblDecodeType k infs tbl stream_ops) stream_ops es n ((stream_of (xs @ ys), u), tls) =
          (Inr (map (map_option canon) vs, n + of_nat (length xs)), ((stream_of ys, u), tls)))"

lemma reads_fields_Some:
  assumes "reads_type infs tbl k d None e False v x (xs @ ys)" and "next_tag (x @ xs @ ys) = Some a"
    and "TagsMatch k tbl e a = Inr True" and "reads_fields infs tbl k d es vs xs ys"
  shows "reads_fields infs tbl k d (e # es) (Some v # vs) (x @ xs) ys"
  using assms(3,4) PeekTag_next [OF assms(2)] element_reads [OF assms(1)]
  by (simp add: reads_fields_def prog_simps add.assoc)

lemma reads_fields_None:
  assumes "optional e" and "next_tag (xs @ ys) = Some a" and "TagsMatch k tbl e a = Inr False"
    and "reads_fields infs tbl k d es vs xs ys"
  shows "reads_fields infs tbl k d (e # es) (None # vs) xs ys"
  using assms(1,3,4) PeekTag_next [OF assms(2)] by (simp add: reads_fields_def prog_simps)

text \<open>A list and a SET are read until the octets of their length are used up.\<close>

definition until :: "TagNLen list \<Rightarrow> AsnLen \<Rightarrow> byte list \<Rightarrow> bool" where
  "until tls n xs \<longleftrightarrow> unat n + length xs < 2 ^ 32 \<and> (\<exists>a s more. tls = \<lparr>tl_tag = a, tl_len = n + of_nat (length xs), tl_size = s\<rparr> # more)"

lemma until_step: "until tls n (x @ xs) \<Longrightarrow> until tls (n + of_nat (length x)) xs"
proof -
  assume "until tls n (x @ xs)"
  moreover from this have "unat (n + of_nat (length x)) = unat n + length x"
    by (intro unat_add_of_nat) (simp add: until_def)
  ultimately show ?thesis by (auto simp: until_def add.assoc)
qed

lemma until_more:
  assumes "until tls n xs"
  shows "more_octets False b n (s, tls) = (Inr (xs \<noteq> []), (s, tls))"
proof -
  have "unat (n + of_nat (length xs)) = unat n + length xs"
    using assms by (intro unat_add_of_nat) (simp add: until_def)
  then show ?thesis using assms by (auto simp: until_def more_octets_def prog_simps word_less_nat_alt)
qed

definition reads_list ::
  "infinities \<Rightarrow> TBL \<Rightarrow> nat \<Rightarrow> nat \<Rightarrow> TBLType \<Rightarrow> AVal option list \<Rightarrow> byte list \<Rightarrow> byte list \<Rightarrow> bool" where
  "reads_list infs tbl k d e vs xs ys \<longleftrightarrow>
     (\<forall>u tls n fuel ws. length tls + d \<le> TL_STK_SIZE \<longrightarrow> until tls n xs \<longrightarrow> length vs < fuel \<longrightarrow>
        dec_list fuel (TblDecodeType k infs tbl stream_ops) stream_ops False e ws n ((stream_of (xs @ ys), u), tls) =
          (Inr (ws @ map (map_option canon) vs, n + of_nat (length xs)), ((stream_of ys, u), tls)))"

lemma reads_list_Nil: "reads_list infs tbl k d e [] [] ys"
  unfolding reads_list_def
proof (intro allI impI)
  fix u :: "16 word" and tls :: "TagNLen list" and n :: AsnLen and fuel :: nat and ws :: "AVal option list"
  assume "until tls n []" and "length ([] :: AVal option list) < fuel"
  then show "dec_list fuel (TblDecodeType k infs tbl stream_ops) stream_ops False e ws n ((stream_of ([] @ ys), u), tls) =
      (Inr (ws @ map (map_option canon) [], n + of_nat (length ([] :: byte list))), ((stream_of ys, u), tls))"
    by (cases fuel) (simp_all add: bindP_run until_more returnP_run)
qed

lemma reads_list_Some:
  assumes "reads_type infs tbl k d None e False v x (xs @ ys)" and "x \<noteq> []" and "reads_list infs tbl k d e vs xs ys"
  shows "reads_list infs tbl k d e (Some v # vs) (x @ xs) ys"
  unfolding reads_list_def
proof (intro allI impI)
  fix u :: "16 word" and tls :: "TagNLen list" and n :: AsnLen and fuel :: nat and ws :: "AVal option list"
  assume a: "length tls + d \<le> TL_STK_SIZE" "until tls n (x @ xs)" "length (Some v # vs) < fuel"
  then obtain fuel' where f: "fuel = Suc fuel'" "length vs < fuel'" by (cases fuel) auto
  have "dec_list fuel' (TblDecodeType k infs tbl stream_ops) stream_ops False e (ws @ [Some (canon v)]) (n + of_nat (length x))
      ((stream_of (xs @ ys), u), tls) =
    (Inr ((ws @ [Some (canon v)]) @ map (map_option canon) vs, n + of_nat (length x) + of_nat (length xs)), ((stream_of ys, u), tls))"
    using assms(3) a(1) until_step [OF a(2)] f(2) unfolding reads_list_def by blast
  then show "dec_list fuel (TblDecodeType k infs tbl stream_ops) stream_ops False e ws n ((stream_of ((x @ xs) @ ys), u), tls) =
      (Inr (ws @ map (map_option canon) (Some v # vs), n + of_nat (length (x @ xs))), ((stream_of ys, u), tls))"
    using until_more [OF a(2), where b = stream_ops] element_reads [OF assms(1) a(1)] assms(2) f(1)
    by (simp add: bindP_run add.assoc)
qed

definition reads_members ::
  "infinities \<Rightarrow> TBL \<Rightarrow> nat \<Rightarrow> nat \<Rightarrow> TBLType list \<Rightarrow> TBLType list \<Rightarrow> AVal option list \<Rightarrow> byte list \<Rightarrow> byte list \<Rightarrow> bool" where
  "reads_members infs tbl k d pre es vs xs ys \<longleftrightarrow>
     (\<forall>u tls n fuel ws m. length tls + d \<le> TL_STK_SIZE \<longrightarrow> until tls n xs \<longrightarrow> length vs < fuel \<longrightarrow> length ws = length pre \<longrightarrow>
        dec_set fuel (TagsMatch k tbl) (TblDecodeType k infs tbl stream_ops) stream_ops False (pre @ es)
            (ws @ replicate (length es) None) m n ((stream_of (xs @ ys), u), tls) =
          (Inr (ws @ map (map_option canon) vs, m + CountMandatoryElmts es, n + of_nat (length xs)), ((stream_of ys, u), tls)))"

lemma reads_members_Nil: "reads_members infs tbl k d pre [] [] [] ys"
  unfolding reads_members_def
proof (intro allI impI)
  fix u :: "16 word" and tls :: "TagNLen list" and n :: AsnLen and fuel m :: nat and ws :: "AVal option list"
  assume "until tls n []" and "length ([] :: AVal option list) < fuel" 
  then show "dec_set fuel (TagsMatch k tbl) (TblDecodeType k infs tbl stream_ops) stream_ops False (pre @ [])
            (ws @ replicate (length ([] :: TBLType list)) None) m n ((stream_of ([] @ ys), u), tls) =
          (Inr (ws @ map (map_option canon) [], m + CountMandatoryElmts [], n + of_nat (length ([] :: byte list))), ((stream_of ys, u), tls))"
    by (cases fuel) (simp_all add: bindP_run until_more returnP_run CountMandatoryElmts_def)
qed

lemma reads_members_None:
  assumes "optional e" and "reads_members infs tbl k d (pre @ [e]) es vs xs ys"
  shows "reads_members infs tbl k d pre (e # es) (None # vs) xs ys"
  unfolding reads_members_def
proof (intro allI impI)
  fix u :: "16 word" and tls :: "TagNLen list" and n :: AsnLen and fuel m :: nat and ws :: "AVal option list"
  assume a: "length tls + d \<le> TL_STK_SIZE" "until tls n xs" "length (None # vs) < fuel" "length ws = length pre"
  have "dec_set fuel (TagsMatch k tbl) (TblDecodeType k infs tbl stream_ops) stream_ops False ((pre @ [e]) @ es)
            ((ws @ [None]) @ replicate (length es) None) m n ((stream_of (xs @ ys), u), tls) =
          (Inr ((ws @ [None]) @ map (map_option canon) vs, m + CountMandatoryElmts es, n + of_nat (length xs)), ((stream_of ys, u), tls))"
    using assms(2) [unfolded reads_members_def, rule_format, OF a(1,2), of fuel "ws @ [None]"] a(3,4) by simp
  then show "dec_set fuel (TagsMatch k tbl) (TblDecodeType k infs tbl stream_ops) stream_ops False (pre @ e # es)
            (ws @ replicate (length (e # es)) None) m n ((stream_of (xs @ ys), u), tls) =
          (Inr (ws @ map (map_option canon) (None # vs), m + CountMandatoryElmts (e # es), n + of_nat (length xs)), ((stream_of ys, u), tls))"
    using assms(1) by (simp add: CountMandatoryElmts_def)
qed

lemma set_step:
  assumes "reads_type infs tbl k d None (es ! i) False v x (xs @ ys)" and "x \<noteq> []" and "next_tag (x @ xs @ ys) = Some a"
    and "find_match (\<lambda>e. TagsMatch k tbl e a) es = Inr i" and "i < length es"
    and "length tls + d \<le> TL_STK_SIZE" and "until tls n (x @ xs)"
  shows "dec_set (Suc fuel) (TagsMatch k tbl) (TblDecodeType k infs tbl stream_ops) stream_ops False es ws m n
      ((stream_of (x @ xs @ ys), u), tls) =
    dec_set fuel (TagsMatch k tbl) (TblDecodeType k infs tbl stream_ops) stream_ops False es (ws[i := Some (canon v)])
      (if \<not> optional (es ! i) then m + 1 else m) (n + of_nat (length x)) ((stream_of (xs @ ys), u), tls)"
  using until_more [OF assms(7), where b = stream_ops] element_reads [OF assms(1,6)] assms(2,4,5) PeekTag_next [OF assms(3)]
  by (simp add: bindP_run on_bits_run on_buf_run liftP_run Let_def)

lemma reads_members_Some:
  assumes "reads_type infs tbl k d None e False v x (xs @ ys)" and "x \<noteq> []" and "next_tag (x @ xs @ ys) = Some a"
    and "TagsMatch k tbl e a = Inr True" and "list_all (\<lambda>e. TagsMatch k tbl e a = Inr False) pre"
    and "reads_members infs tbl k d (pre @ [e]) es vs xs ys"
  shows "reads_members infs tbl k d pre (e # es) (Some v # vs) (x @ xs) ys"
  unfolding reads_members_def
proof (intro allI impI)
  fix u :: "16 word" and tls :: "TagNLen list" and n :: AsnLen and fuel m :: nat and ws :: "AVal option list"
  let ?dec = "TblDecodeType k infs tbl stream_ops"
  assume a: "length tls + d \<le> TL_STK_SIZE" "until tls n (x @ xs)" "length (Some v # vs) < fuel" "length ws = length pre"
  then obtain fuel' where f: "fuel = Suc fuel'" "length vs < fuel'" by (cases fuel) auto
  let ?m = "if \<not> optional e then m + 1 else m"
  have rest: "dec_set fuel' (TagsMatch k tbl) ?dec stream_ops False ((pre @ [e]) @ es)
            ((ws @ [Some (canon v)]) @ replicate (length es) None) ?m (n + of_nat (length x)) ((stream_of (xs @ ys), u), tls) =
          (Inr ((ws @ [Some (canon v)]) @ map (map_option canon) vs, ?m + CountMandatoryElmts es,
             n + of_nat (length x) + of_nat (length xs)), ((stream_of ys, u), tls))"
    using assms(6) [unfolded reads_members_def, rule_format, OF a(1) until_step [OF a(2)], of fuel' "ws @ [Some (canon v)]"] a(4) f(2)
    by simp
  have upd: "(ws @ replicate (length (e # es)) None)[length pre := Some (canon v)] = (ws @ [Some (canon v)]) @ replicate (length es) None"
    using a(4) by (simp add: list_update_append)
  have at: "(pre @ e # es) ! length pre = e" and l: "length pre < length (pre @ e # es)" by simp_all
  have "dec_set fuel (TagsMatch k tbl) ?dec stream_ops False (pre @ e # es) (ws @ replicate (length (e # es)) None) m n
      ((stream_of (x @ xs @ ys), u), tls) =
    dec_set fuel' (TagsMatch k tbl) ?dec stream_ops False (pre @ e # es) ((ws @ [Some (canon v)]) @ replicate (length es) None) ?m
      (n + of_nat (length x)) ((stream_of (xs @ ys), u), tls)"
    by (simp only: f(1) upd set_step [of infs tbl k d "pre @ e # es" "length pre", unfolded at,
      OF assms(1-3) find_match_at [OF assms(5,4)] l a(1,2)])
  with rest show "dec_set fuel (TagsMatch k tbl) ?dec stream_ops False (pre @ e # es)
            (ws @ replicate (length (e # es)) None) m n ((stream_of ((x @ xs) @ ys), u), tls) =
          (Inr (ws @ map (map_option canon) (Some v # vs), m + CountMandatoryElmts (e # es), n + of_nat (length (x @ xs))),
            ((stream_of ys, u), tls))"
    by (simp add: CountMandatoryElmts_def add.assoc)
qed

section \<open>Every type\<close>

lemma fields_reads:
  assumes "reads_fields infs tbl k d es vs c ys" and "typeId t = TBL_SEQUENCE" and "elmts_of t = Inr es"
  shows "reads_content infs tbl k d h t impl (AStructVal vs) c ys"
  using assms by (simp add: reads_content_def reads_fields_def TblDecodeContent_def prog_simps a_val_def)

lemma on_top_until:
  assumes "on_top h tls c" and "h \<noteq> None"
  obtains l where "until tls 0 c" and "LAST_TL (s, tls) = (Inr l, (s, tls))" and "tl_len l \<noteq> INDEFINITE_LEN"
    and "tl_len l = of_nat (length c)"
proof -
  from assms obtain a z more where t: "length c < 2 ^ 32" "tls = \<lparr>tl_tag = a, tl_len = of_nat (length c), tl_size = z\<rparr> # more"
    by (auto simp: on_top_def)
  have "of_nat (length c) \<noteq> INDEFINITE_LEN" by (rule of_nat_less_indef) (use t(1) in simp)
  then show thesis using that t by (simp add: until_def prog_simps)
qed

lemma list_reads:
  assumes "reads_list infs tbl k d e vs c ys" and "typeId t \<in> {TBL_SEQUENCEOF, TBL_SETOF}" and "elmts_of t = Inr (e # es)"
    and "h \<noteq> None" and "length vs < k"
  shows "reads_content infs tbl k d h t impl (AListVal vs) c ys"
  unfolding reads_content_def
proof (intro allI impI)
  fix u :: "16 word" and tls :: "TagNLen list"
  let ?s = "((stream_of (c @ ys), u), tls)"
  assume a: "length tls + d \<le> TL_STK_SIZE" "on_top h tls c"
  obtain l where l: "until tls 0 c" "LAST_TL ?s = (Inr l, ?s)" "tl_len l \<noteq> INDEFINITE_LEN"
    by (rule on_top_until [OF a(2) assms(4)])
  have "dec_list k (TblDecodeType k infs tbl stream_ops) stream_ops False e [] 0 ?s =
      (Inr ([] @ map (map_option canon) vs, 0 + of_nat (length c)), ((stream_of ys, u), tls))"
    using assms(1) a(1) l(1) assms(5) unfolding reads_list_def by blast
  then show "TblDecodeContent k (TblDecodeType k infs tbl stream_ops) infs tbl stream_ops t impl ?s =
      (Inr (Some (canon (AListVal vs)), of_nat (length c)), ((stream_of ys, u), tls))"
    using assms(2,3) l(2,3) by (auto simp: TblDecodeContent_def bindP_run liftP_run a_val_def FIRST_LIST_ELMT_def returnP_run)
qed

lemma members_reads:
  assumes "reads_members infs tbl k d [] es vs c ys" and "typeId t = TBL_SET" and "elmts_of t = Inr es"
    and "h \<noteq> None" and "length vs < k"
  shows "reads_content infs tbl k d h t impl (AStructVal vs) c ys"
  unfolding reads_content_def
proof (intro allI impI)
  fix u :: "16 word" and tls :: "TagNLen list"
  let ?s = "((stream_of (c @ ys), u), tls)"
  assume a: "length tls + d \<le> TL_STK_SIZE" "on_top h tls c"
  obtain l where l: "until tls 0 c" "LAST_TL ?s = (Inr l, ?s)" "tl_len l \<noteq> INDEFINITE_LEN"
    by (rule on_top_until [OF a(2) assms(4)])
  have "dec_set k (TagsMatch k tbl) (TblDecodeType k infs tbl stream_ops) stream_ops False ([] @ es)
            ([] @ replicate (length es) None) 0 0 ?s =
      (Inr ([] @ map (map_option canon) vs, 0 + CountMandatoryElmts es, 0 + of_nat (length c)), ((stream_of ys, u), tls))"
    using assms(1) [unfolded reads_members_def, rule_format, OF a(1) l(1) assms(5), of "[]" 0] by simp
  then show "TblDecodeContent k (TblDecodeType k infs tbl stream_ops) infs tbl stream_ops t impl ?s =
      (Inr (Some (canon (AStructVal vs)), of_nat (length c)), ((stream_of ys, u), tls))"
    using assms(2,3) l(2,3) by (simp add: TblDecodeContent_def bindP_run liftP_run returnP_run)
qed

lemma choice_reads:
  assumes "typeId t = TBL_CHOICE" and "elmts_of t = Inr (es @ e # es')" and "reads_type infs tbl k d h e False v c ys"
    and "next_tag (c @ ys) = Some a" and "TagsMatch k tbl e a = Inr True"
    and "list_all (\<lambda>e. TagsMatch k tbl e a = Inr False) es"
  shows "reads_content infs tbl k d h t impl (AChoiceVal (length es) (Some v)) c ys"
proof -
  have "find_match (\<lambda>e. TagsMatch k tbl e a) (es @ e # es') = Inr (length es)" by (rule find_match_at [OF assms(6,5)])
  moreover have "chosen_elmt (length es) (es @ e # es') = Inr (length es, e)" by (simp add: chosen_elmt_def)
  ultimately show ?thesis
    using assms(1-3) PeekTag_next [OF assms(4)]
    by (simp add: reads_content_def reads_type_def TblDecodeContent_def bindP_run liftP_run on_bits_run on_buf_run returnP_run)
qed

lemma for_large_mp3:
  "for_large P \<Longrightarrow> for_large Q \<Longrightarrow> for_large R \<Longrightarrow> (\<And>k. P k \<Longrightarrow> Q k \<Longrightarrow> R k \<Longrightarrow> S k) \<Longrightarrow> for_large S"
  by (rule for_large_mp2 [of "\<lambda>k. P k \<and> Q k" R]) (auto intro: eventually_conj)

theorem TblDecodeType_reads:
  "tbl_ber infs tbl d h t impl v xs ys \<Longrightarrow> for_large (\<lambda>k. reads_type infs tbl k d h t impl v xs ys)"
  "ber_fields infs tbl d es vs xs ys \<Longrightarrow> for_large (\<lambda>k. reads_fields infs tbl k d es vs xs ys)"
  "ber_members infs tbl d pre es vs xs ys \<Longrightarrow> for_large (\<lambda>k. reads_members infs tbl k d pre es vs xs ys)"
  "ber_list infs tbl d e vs xs ys \<Longrightarrow> for_large (\<lambda>k. reads_list infs tbl k d e vs xs ys)"
proof (induction rule: tbl_ber_ber_fields_ber_members_ber_list.inducts)
  case (Prim t v c impl h a d ys)
  show ?case by (rule for_large_Suc_all, rule reads_typeI [OF prim_reads]) (use Prim in auto)
next
  case (Ref t t' ri d impl h v c ys)
  have IH: "for_large (\<lambda>k. reads_type infs tbl k d (last_tag t impl h) t' (ri \<or> impl \<and> no_tags t) v c ys)"
    and ok: "hdr_ok (open_tags t impl) c" and t: "typeId t = TBL_TYPEREF" "ref_of tbl t = Inr (t', ri)" by fact+
  show ?case
    by (rule for_large_Suc [OF IH], rule reads_typeI [OF _ ok])
      (use t in \<open>simp add: reads_content_def reads_type_def TblDecodeContent_def bindP_run liftP_run\<close>)
next
  case (Sequence t es d vs c ys impl h)
  have IH: "for_large (\<lambda>k. reads_fields infs tbl k d es vs c ys)" by fact
  show ?case by (rule for_large_Suc [OF IH], rule reads_typeI [OF fields_reads]) (use Sequence in auto)
next
  case (Set t es d vs c ys impl h)
  have IH: "for_large (\<lambda>k. reads_members infs tbl k d [] es vs c ys)" by fact
  have "for_large (\<lambda>k. reads_members infs tbl k d [] es vs c ys \<and> length vs < k)"
    by (rule for_large_mp2 [OF IH eventually_gt_at_top [of "length vs"]]) simp
  then show ?case by (rule for_large_Suc) (rule reads_typeI [OF members_reads], use Set in auto)
next
  case (List t e es d vs c ys impl h)
  have IH: "for_large (\<lambda>k. reads_list infs tbl k d e vs c ys)" by fact
  have "for_large (\<lambda>k. reads_list infs tbl k d e vs c ys \<and> length vs < k)"
    by (rule for_large_mp2 [OF IH eventually_gt_at_top [of "length vs"]]) simp
  then show ?case by (rule for_large_Suc) (rule reads_typeI [OF list_reads], use List in auto)
next
  case (Choice t es e es' d impl h v c ys a)
  have IH: "for_large (\<lambda>k. reads_type infs tbl k d (last_tag t impl h) e False v c ys)"
    and s: "starts tbl e a True" "list_all (\<lambda>e. starts tbl e a False) es"
    and t: "hdr_ok (open_tags t impl) c" "typeId t = TBL_CHOICE" "elmts_of t = Inr (es @ e # es')" "next_tag (c @ ys) = Some a"
    by fact+
  have "for_large (\<lambda>k. reads_content infs tbl k d (last_tag t impl h) t impl (AChoiceVal (length es) (Some v)) c ys)"
    by (rule for_large_mp3 [OF IH TagsMatch_starts [OF s(1)] no_starts [OF s(2)]]) (rule choice_reads [OF t(2,3) _ t(4)])
  then show ?case by (rule for_large_Suc) (rule reads_typeI [OF _ t(1)])
next
  case (Field d e v x xs ys a es vs)
  have "for_large (\<lambda>k. reads_type infs tbl k d None e False v x (xs @ ys))" "for_large (\<lambda>k. reads_fields infs tbl k d es vs xs ys)"
    and s: "starts tbl e a True" and a: "next_tag (x @ xs @ ys) = Some a" by fact+
  from this(1,2) TagsMatch_starts [OF s] show ?case by (rule for_large_mp3) (rule reads_fields_Some [OF _ a])
next
  case (Absent_field e xs ys a d es vs)
  have "for_large (\<lambda>k. reads_fields infs tbl k d es vs xs ys)"
    and s: "starts tbl e a False" and a: "optional e" "next_tag (xs @ ys) = Some a" by fact+
  from TagsMatch_starts [OF s] this(1) show ?case by (rule for_large_mp2) (rule reads_fields_None [OF a])
next
  case (Member d e v x xs ys a pre es vs)
  have h: "for_large (\<lambda>k. reads_type infs tbl k d None e False v x (xs @ ys))"
      "for_large (\<lambda>k. reads_members infs tbl k d (pre @ [e]) es vs xs ys)"
    and s: "starts tbl e a True" "list_all (\<lambda>e. starts tbl e a False) pre" and a: "x \<noteq> []" "next_tag (x @ xs @ ys) = Some a" by fact+
  have "for_large (\<lambda>k. TagsMatch k tbl e a = Inr True \<and> list_all (\<lambda>e. TagsMatch k tbl e a = Inr False) pre)"
    by (rule for_large_mp2 [OF TagsMatch_starts [OF s(1)] no_starts [OF s(2)]]) simp
  with h show ?case by (rule for_large_mp3) (elim conjE, rule reads_members_Some [OF _ a])
next
  case (Absent_member e d pre es vs xs ys)
  have "for_large (\<lambda>k. reads_members infs tbl k d (pre @ [e]) es vs xs ys)" by fact
  then show ?case by (rule eventually_mono) (rule reads_members_None [OF \<open>optional e\<close>])
next
  case (List_element d e v x xs ys vs)
  have "for_large (\<lambda>k. reads_type infs tbl k d None e False v x (xs @ ys))" "for_large (\<lambda>k. reads_list infs tbl k d e vs xs ys)"
    and x: "x \<noteq> []" by fact+
  from this(1,2) show ?case by (rule for_large_mp2) (rule reads_list_Some [OF _ x])
qed (simp_all add: reads_fields_def reads_list_Nil reads_members_Nil prog_simps)

end
