(* ===== verification/Tbl_Sim.thy ===== *)
theory Tbl_Sim
  imports Tbl_Dec
begin

text \<open>
  The decoder by type tables does on every buffer that can look ahead what it does on a stream, where that is
  defined; and so, with the encoder, values go through a buffer unchanged.
\<close>

abbreviation tbl_inv :: "('b \<Rightarrow> bool) \<Rightarrow> 'b tbl_state \<Rightarrow> bool" where
  "tbl_inv I \<equiv> \<lambda>(s, tls). bits_inv I s"

abbreviation tbl_view :: "('b \<Rightarrow> 'v) \<Rightarrow> 'b tbl_state \<Rightarrow> 'v tbl_state" where
  "tbl_view v \<equiv> \<lambda>(s, tls). (bits_view v s, tls)"

lemma refines_on_bits [refines_intros]:
  "refines (bits_inv I) (bits_view v) R m m' \<Longrightarrow> refines (tbl_inv I) (tbl_view v) R (on_bits m) (on_bits m')"
  unfolding refines_def
proof (intro allI impI, goal_cases)
  case (1 s)
  obtain p tls where s: "s = (p, tls)" by (cases s)
  from 1(1) [rule_format, of p] 1(2) show ?case
    by (auto simp: s on_bits_def split: prod.splits)
qed

lemma refines_stack [refines_intros]:
  "refines (tbl_inv I) (tbl_view v) (=) (PUSH_TL t l sz) (PUSH_TL t l sz)"
  "refines (tbl_inv I) (tbl_view v) (=) POP_TL POP_TL"
  "refines (tbl_inv I) (tbl_view v) (=) LAST_TL LAST_TL"
  by (auto simp: refines_def PUSH_TL_def POP_TL_def LAST_TL_def split: list.split)

lemma refines_setjmp [refines_intros]:
  assumes "refines I v R m m'" and "refines I v R h h'"
  shows "refines I v R (setjmp m h) (setjmp m' h')"
  unfolding refines_def
proof (intro allI impI, elim conjE)
  fix b assume b: "I b" and nf: "fst (setjmp m' h' (v b)) \<noteq> Inl Fault"
  obtain r c where m: "m b = (r, c)" by (cases "m b")
  obtain r' c' where m': "m' (v b) = (r', c')" by (cases "m' (v b)")
  have "r' \<noteq> Inl Fault" using nf by (auto simp: setjmp_def m')
  with assms(1) b have "I c" "c' = v c" "rel_sum (=) R r r'"
    by (auto simp: refines_def m m' dest!: spec [of _ b])
  with assms(2) nf show "I (snd (setjmp m h b)) \<and> snd (setjmp m' h' (v b)) = v (snd (setjmp m h b)) \<and>
      rel_sum (=) R (fst (setjmp m h b)) (fst (setjmp m' h' (v b)))"
    by (auto simp: setjmp_def m m' rel_sum.simps refines_def split: sum.splits stop.splits)
qed

context peek_reader
begin

abbreviation tbl_refines :: "('a tbl_state, 'x) prog \<Rightarrow> (stream tbl_state, 'x) prog \<Rightarrow> bool" where
  "tbl_refines \<equiv> refines (tbl_inv I) (tbl_view v) (=)"

lemma refines_gen [refines_intros]: "sim I v (=) m m' \<Longrightarrow> tbl_refines (on_gen m) (on_gen m')"
  by (intro refines_intros refines_sim)

lemma refines_a_val [refines_intros]: "tbl_refines m m' \<Longrightarrow> tbl_refines (a_val f m) (a_val f m')"
  unfolding a_val_def by (intro refines_intros refl)

lemma dec_tags_refines: "tbl_refines (dec_tags g tgs) (dec_tags stream_ops tgs)"
  by (induction tgs) (auto intro!: refines_intros BDecTag_sim BDecLen_sim)

lemma pop_tags_refines: "tbl_refines (pop_tags g impl tgs n) (pop_tags stream_ops impl tgs n)"
  by (induction tgs arbitrary: n) (auto intro!: refines_intros BDecEoc_sim)

definition same_decoder :: "'a type_decoder \<Rightarrow> stream type_decoder \<Rightarrow> bool" where
  "same_decoder dec dec' \<longleftrightarrow> (\<forall>t impl n. tbl_refines (dec t impl n) (dec' t impl n))"

lemma same_decoderD: "same_decoder dec dec' \<Longrightarrow> tbl_refines (dec t impl n) (dec' t impl n)"
  by (simp add: same_decoder_def)

lemma dec_sequence_refines:
  assumes "same_decoder dec dec'"
  shows "tbl_refines (dec_sequence mat dec g es n) (dec_sequence mat dec' stream_ops es n)"
proof (induction es arbitrary: n)
  case (Cons e es)
  show ?case
    unfolding dec_sequence.simps by (intro refines_intros PeekTag_sim same_decoderD [OF assms] Cons refl)
qed (simp add: refines_return)

lemma more_octets_refines: "tbl_refines (more_octets indef g n) (more_octets indef stream_ops n)"
  unfolding more_octets_def by (intro refines_intros PeekEoc_sim refl)

lemma dec_set_refines:
  assumes "same_decoder dec dec'"
  shows "tbl_refines (dec_set fuel mat dec g indef es ws m n) (dec_set fuel mat dec' stream_ops indef es ws m n)"
proof (induction fuel arbitrary: ws m n)
  case (Suc fuel)
  show ?case
    unfolding dec_set.simps
    by (intro refines_intros more_octets_refines PeekTag_sim same_decoderD [OF assms] Suc refl)
qed (simp add: refines_stop)

lemma dec_list_refines:
  assumes "same_decoder dec dec'"
  shows "tbl_refines (dec_list fuel dec g indef e ws n) (dec_list fuel dec' stream_ops indef e ws n)"
proof (induction fuel arbitrary: ws n)
  case (Suc fuel)
  show ?case
    unfolding dec_list.simps by (intro refines_intros more_octets_refines same_decoderD [OF assms] Suc refl)
qed (simp add: refines_stop)

lemma contents_refine:
  "sim I v (=) (BDecAsnBoolContent g t n m) (BDecAsnBoolContent stream_ops t n m)"
  "sim I v (=) (BDecAsnNullContent g t n m) (BDecAsnNullContent stream_ops t n m)"
  "refines (bits_inv I) (bits_view v) (=) (BDecAsnBitsContent k g t n m) (BDecAsnBitsContent k stream_ops t n m)"
  unfolding BDecAsnBoolContent_def BDecAsnNullContent_def BDecAsnBitsContent_def
  by (intro sim_intros getByte_sim readError_sim refl)
    (intro sim_intros refines_intros BDecConsAsnBits_refines copy_refines refines_sim [OF readError_sim]
      refines_sim [OF getByte_sim] refl)+

lemma TblDecodeContent_refines:
  assumes "same_decoder dec dec'"
  shows "tbl_refines (TblDecodeContent fuel dec infs tbl g t impl) (TblDecodeContent fuel dec' infs tbl stream_ops t impl)"
proof -
  note simple = refines_bind_eq [OF refines_stack(3) refines_a_val [OF refines_on_bits]]
  note gen = simple [OF refines_on_buf]
  note many = refines_intros same_decoderD [OF assms] dec_sequence_refines [OF assms] dec_set_refines [OF assms]
      dec_list_refines [OF assms] PeekTag_sim
  show ?thesis
    unfolding TblDecodeContent_def
  proof (cases "typeId t", simp_all only: TBLTypeId.case, goal_cases)
    case 1 show ?case by (rule gen [OF refines_sim [OF contents_refine(1)]])
  next
    case 2 show ?case by (rule gen [OF refines_sim [OF BDecAsnIntContent_sim]])
  next
    case 3 show ?case by (rule simple [OF contents_refine(3)])
  next
    case 4 show ?case by (rule gen [OF BDecAsnOctsContent_refines])
  next
    case 5 show ?case by (rule gen [OF refines_sim [OF contents_refine(2)]])
  next
    case 6 show ?case by (rule gen [OF BDecAsnOidContent_refines])
  next
    case 7 show ?case by (rule gen [OF refines_sim [OF BDecAsnRealContent_sim]])
  next
    case 8 show ?case by (rule gen [OF refines_sim [OF BDecAsnIntContent_sim]])
  qed (intro many refl)+
qed

lemma TblDecodeType_refines: "same_decoder (TblDecodeType fuel infs tbl g) (TblDecodeType fuel infs tbl stream_ops)"
proof (induction fuel)
  case (Suc fuel)
  show ?case
    unfolding same_decoder_def TblDecodeType.simps TblDecodeTagsAndLens_def TblPopTagsAndLens_def
    by (intro allI refines_intros dec_tags_refines pop_tags_refines TblDecodeContent_refines Suc refl)
qed (simp add: same_decoder_def refines_stop)

lemma TblDecode_refines:
  "tbl_refines (TblDecode fuel infs tbl modName nm g n) (TblDecode fuel infs tbl modName nm stream_ops n)"
  unfolding TblDecode_def
  by (cases "TblFindTypeDef tbl modName nm"; simp only: option.case)
    (intro refines_intros same_decoderD [OF TblDecodeType_refines] refl)+

end

section \<open>Whole encodings\<close>

lemma TblEncode_written:
  assumes "TblFindTypeDef tbl modName nm = Some p" and "deref tbl (Some p) = Inr td"
    and "tbl_ber infs tbl d None (td_type td) False v xs ys" and "length xs \<le> length mem"
  shows "for_large (\<lambda>k. written_by (TblEncode k infs tbl modName nm sBufOpsG (Some v) n) mem = (Inr (0, of_nat (length xs)), xs))"
proof (rule eventually_mono [OF sb.TblEncodeType_writes(1) [OF assms(3)]])
  fix k
  assume k: "sb.writes_type infs tbl k (td_type td) False v xs"
  note w = sbuf_reset_write [of mem, folded sbuf_to_write_def]
  have "length xs \<le> sb_dataStart (sbuf_to_write mem)" using assms(4) w(4) by simp
  from emits_run [OF sb.writes_type_0 [OF k] w(1,2) this] obtain b where
    "TblEncodeType k infs tbl sBufOpsG (td_type td) (Some v) False 0 (sbuf_to_write mem) = (Inr (0, of_nat (length xs)), b)"
    "\<not> sb_writeError b" "sbuf_written b = xs @ sbuf_written (sbuf_to_write mem)" by metis
  with assms(1,2) w(3) show "written_by (TblEncode k infs tbl modName nm sBufOpsG (Some v) n) mem = (Inr (0, of_nat (length xs)), xs)"
    by (simp add: written_by_def TblEncode_def prog_simps SBufWriteError_def)
qed

lemma TblDecode_reads:
  assumes "TblFindTypeDef tbl modName nm = Some p" and "deref tbl (Some p) = Inr td"
    and "tbl_ber infs tbl d None (td_type td) False v xs ys" and "length tls + d \<le> TL_STK_SIZE"
  shows "for_large (\<lambda>k. \<exists>b. TblDecode k infs tbl modName nm sBufOpsG 0 ((SBufInstallData (xs @ ys), u), tls) =
      (Inr (Some (canon v), of_nat (length xs)), ((b, u), tls)) \<and> sbuf_unread b = stream_of ys)"
proof (rule eventually_mono [OF TblDecodeType_reads(1) [OF assms(3)]])
  fix k
  assume k: "reads_type infs tbl k d None (td_type td) False v xs ys"
  let ?s = "((SBufInstallData (xs @ ys), u), tls)"
  have i: "tbl_inv sbuf_reading ?s" by (simp add: sbuf_install(1))
  have "TblDecode k infs tbl modName nm stream_ops 0 (tbl_view sbuf_unread ?s) =
      (Inr (Some (canon v), of_nat (length xs)), ((stream_of ys, u), tls))"
    using assms(1,2) element_reads [OF k assms(4), of 0 u] by (simp add: TblDecode_def prog_simps setjmp_def sbuf_install(2))
  from refines_run [OF sb.TblDecode_refines i this] obtain c where
    "TblDecode k infs tbl modName nm sBufOpsG 0 ?s = (Inr (Some (canon v), of_nat (length xs)), c)"
    "tbl_view sbuf_unread c = ((stream_of ys, u), tls)" by blast
  then show "\<exists>b. TblDecode k infs tbl modName nm sBufOpsG 0 ?s = (Inr (Some (canon v), of_nat (length xs)), ((b, u), tls)) \<and>
      sbuf_unread b = stream_of ys"
    by (cases c) auto
qed

end
