(* ===== verification/Tbl_Stack.thy ===== *)
theory Tbl_Stack
  imports Tbl_Sim
begin

text \<open>
  The static stack of tags and lengths: a decoding that comes to its end leaves it as it was, one that is given up
  leaves its entries behind; nothing ever resets it, so failures add up until nothing can be decoded any new.
  Then chains of references: \<open>TblFixTags\<close> never ends on a circle of them.
\<close>

section \<open>The stack on every input\<close>

text \<open>\<open>m\<close> leaves the stack it finds under its own entries, of which there are \<open>n\<close> if it returns; it does not
  write beyond the end of the array.\<close>

definition leaves :: "nat \<Rightarrow> ('b tbl_state, 'a) prog \<Rightarrow> bool" where
  "leaves n m \<longleftrightarrow>
     (\<forall>s tls r s' tls'. m (s, tls) = (r, (s', tls')) \<longrightarrow> (\<exists>new. tls' = new @ tls \<and> (isl r \<or> length new = n) \<and> (new = [] \<or> length tls' \<le> TL_STK_SIZE)))"

named_theorems leaves_intros \<open>rules for the stack\<close>

lemma leavesD: "leaves n m \<Longrightarrow> m (s, tls) = (r, (s', tls')) \<Longrightarrow>
    \<exists>new. tls' = new @ tls \<and> (isl r \<or> length new = n) \<and> (new = [] \<or> length tls' \<le> TL_STK_SIZE)"
  unfolding leaves_def by blast

lemma leaves_return [leaves_intros]: "leaves 0 (returnP x)"
  by (simp add: leaves_def returnP_def)

lemma leaves_stop [leaves_intros]: "leaves n (stopP e)"
  by (auto simp: leaves_def stopP_def)

lemma leaves_lift [leaves_intros]: "leaves 0 (liftP r)"
  by (simp add: leaves_def liftP_def)

lemma leaves_on_bits [leaves_intros]: "leaves 0 (on_bits m)"
  by (auto simp: leaves_def on_bits_def split: prod.splits)

lemma leaves_LAST_TL [leaves_intros]: "leaves 0 LAST_TL"
  by (auto simp: leaves_def LAST_TL_def split: list.splits)

lemma leaves_PUSH_TL: "leaves 1 (PUSH_TL t l sz)"
  by (auto simp: leaves_def PUSH_TL_def)

lemma leaves_bind_sum:
  assumes "leaves j m" and "\<And>x. leaves k (f x)"
  shows "leaves (j + k) (bindP m f)"
  unfolding leaves_def
proof (intro allI impI)
  fix s tls r s' tls'
  assume run: "bindP m f (s, tls) = (r, s', tls')"
  obtain x t tl2 where m: "m (s, tls) = (x, t, tl2)" by (metis prod_cases3)
  from leavesD [OF assms(1) m] obtain new where new: "tl2 = new @ tls" "isl x \<or> length new = j"
      "new = [] \<or> length tl2 \<le> TL_STK_SIZE" by blast
  show "\<exists>new. tls' = new @ tls \<and> (isl r \<or> length new = j + k) \<and> (new = [] \<or> length tls' \<le> TL_STK_SIZE)"
  proof (cases x)
    case (Inl e)
    with run m new show ?thesis by (auto simp: bindP_def)
  next
    case (Inr y)
    with run m have "f y (t, tl2) = (r, s', tls')" by (simp add: bindP_def)
    from leavesD [OF assms(2) this] obtain new2 where "tls' = new2 @ tl2" "isl r \<or> length new2 = k"
        "new2 = [] \<or> length tls' \<le> TL_STK_SIZE" by blast
    with new Inr show ?thesis by (intro exI [of _ "new2 @ new"]) auto
  qed
qed

lemma leaves_bind [leaves_intros]: "leaves 0 m \<Longrightarrow> (\<And>x. leaves k (f x)) \<Longrightarrow> leaves k (bindP m f)"
  using leaves_bind_sum [of 0 m k f] by simp

lemma leaves_if [leaves_intros]: "(c \<Longrightarrow> leaves n m) \<Longrightarrow> (\<not> c \<Longrightarrow> leaves n m') \<Longrightarrow> leaves n (if c then m else m')"
  by simp

lemma leaves_let [leaves_intros]: "(\<And>x. leaves n (f x)) \<Longrightarrow> leaves n (let x = t in f x)"
  by simp

lemma leaves_case_prod [leaves_intros]: "(\<And>x y. leaves n (f x y)) \<Longrightarrow> leaves n (case p of (x, y) \<Rightarrow> f x y)"
  by (cases p) simp

lemma leaves_a_val [leaves_intros]: "leaves 0 m \<Longrightarrow> leaves 0 (a_val f m)"
  unfolding a_val_def by (intro leaves_intros)

lemma leaves_dec_tags: "leaves (length tgs) (dec_tags b tgs)"
proof (induction tgs)
  case (Cons tg tgs)
  have push: "leaves (length (tg # tgs)) (thenP (PUSH_TL t l sz) (dec_tags b tgs))" for t l sz
    using leaves_bind_sum [OF leaves_PUSH_TL Cons] by simp
  show ?case
    unfolding dec_tags.simps
    by (intro leaves_bind [OF leaves_on_bits] leaves_case_prod leaves_if leaves_stop push)
qed (simp add: leaves_return)

lemma leaves_open_tags: "leaves (length (open_tags t impl)) (TblDecodeTagsAndLens t b impl)"
proof -
  have "no_tags t \<longleftrightarrow> tags_of t = []" by (simp add: no_tags_def tags_of_def split: option.split)
  then show ?thesis
    using leaves_dec_tags [of "open_tags t impl" b] leaves_return [of "()"] by (auto simp: TblDecodeTagsAndLens_def open_tags_def)
qed

text \<open>Popping takes off what the reading of the tags has put on.\<close>

lemma pop_tags_pops:
  assumes "length new = length tgs" and "pop_tags b False tgs n (s, new @ tls) = (r, (s', tls'))"
  shows "\<exists>new'. tls' = new' @ tls \<and> (isl r \<or> new' = []) \<and> length new' \<le> length new"
  using assms
proof (induction tgs arbitrary: n s new)
  case Nil
  then show ?case by (auto simp: prog_simps)
next
  case (Cons tg tgs)
  then obtain e es where new: "new = e # es" "length es = length tgs" by (cases new) auto
  let ?m = "if tl_len e = INDEFINITE_LEN then on_gen (BDecEoc b n) else if n \<noteq> tl_len e then longjmp (- 1003) else returnP n"
  have "snd (snd (?m (s, new @ tls))) = new @ tls"
    by (simp add: on_bits_def stopP_def returnP_def split: prod.split)
  then obtain x t where m: "?m (s, new @ tls) = (x, (t, new @ tls))" by (metis prod.collapse)
  show ?case
  proof (cases x)
    case (Inl y)
    with Cons.prems(2) m new show ?thesis by (auto simp: bindP_run prog_simps)
  next
    case (Inr k)
    with Cons.prems(2) m new
    have "pop_tags b False tgs (k + ucast (tl_size e)) (t, es @ tls) = (r, (s', tls'))"
      by (simp add: bindP_run prog_simps)
    from Cons.IH [OF new(2) this] show ?thesis using new(1) by fastforce
  qed
qed

lemma leaves_TblPop:
  assumes "leaves (length (open_tags t impl)) m" and that: "\<And>x. leaves 0 (f x)"
  shows "leaves 0 (bindP m (\<lambda>x. bindP (f x) (\<lambda>(v, n). bindP (TblPopTagsAndLens t b impl n) (\<lambda>n. returnP (v, k + n)))))"
  unfolding leaves_def
proof (intro allI impI)
  fix s tls r s' tls'
  assume run: "bindP m (\<lambda>x. bindP (f x) (\<lambda>(v, n). bindP (TblPopTagsAndLens t b impl n) (\<lambda>n. returnP (v, k + n)))) (s, tls) = (r, s', tls')"
  have skip: "pop_tags b True (xs @ [x]) n = pop_tags b False xs n" for xs x n
    by (induction xs arbitrary: n) simp_all
  have pop: "TblPopTagsAndLens t b impl n = pop_tags b False (rev (open_tags t impl)) n" for n
    by (cases impl; cases "tags_of t") (simp_all add: TblPopTagsAndLens_def open_tags_def skip)
  have m: "leaves (length (open_tags t impl)) (bindP m f)"
    using leaves_bind_sum [OF assms] by simp
  obtain x t1 tl1 where r1: "bindP m f (s, tls) = (x, t1, tl1)" by (metis prod_cases3)
  from leavesD [OF m r1] obtain new where new: "tl1 = new @ tls" "isl x \<or> length new = length (open_tags t impl)"
      "new = [] \<or> length tl1 \<le> TL_STK_SIZE" by blast
  note run = run [unfolded bindP_assoc [symmetric]]
  show "\<exists>new. tls' = new @ tls \<and> (isl r \<or> length new = 0) \<and> (new = [] \<or> length tls' \<le> TL_STK_SIZE)"
  proof (cases x)
    case (Inl e)
    with run r1 new show ?thesis by (auto simp: bindP_run [of "bindP m f"])
  next
    case (Inr p)
    obtain v n where p: "p = (v, n)" by (cases p)
    obtain z t2 tl2 where r2: "TblPopTagsAndLens t b impl n (t1, tl1) = (z, t2, tl2)" by (metis prod_cases3)
    from pop_tags_pops [of new "rev (open_tags t impl)" b n t1 tls z t2 tl2] r2 new Inr
    obtain new' where "tl2 = new' @ tls" "isl z \<or> new' = []" "length new' \<le> length new" by (auto simp: pop)
    moreover from this new(1,3) have "new' = [] \<or> length tl2 \<le> TL_STK_SIZE" by auto
    ultimately show ?thesis using run r1 r2 Inr p by (cases z) (auto simp: bindP_run [of "bindP m f"] bindP_run [of "TblPopTagsAndLens t b impl n"] returnP_run)
  qed
qed

definition keeps_stack :: "'b type_decoder \<Rightarrow> bool" where
  "keeps_stack dec \<longleftrightarrow> (\<forall>t impl n. leaves 0 (dec t impl n))"

lemma leaves_loops:
  assumes "keeps_stack dec"
  shows "leaves 0 (dec_sequence mat dec b es n)" and "leaves 0 (dec_list fuel dec b indef e ws n)"
    and "leaves 0 (dec_set fuel mat dec b indef es ws m n)"
proof -
  have dec: "leaves 0 (dec t impl n)" for t impl n using assms by (simp add: keeps_stack_def)
  show "leaves 0 (dec_sequence mat dec b es n)"
  proof (induction es arbitrary: n)
    case (Cons e es)
    then show ?case unfolding dec_sequence.simps by (intro leaves_intros dec)
  qed (simp add: leaves_return)
  have new: "leaves 0 (more_octets indef b n)" for n unfolding more_octets_def by (intro leaves_intros)
  show "leaves 0 (dec_list fuel dec b indef e ws n)"
  proof (induction fuel arbitrary: ws n)
    case (Suc fuel)
    then show ?case unfolding dec_list.simps by (intro leaves_intros dec new)
  qed (simp add: leaves_stop)
  show "leaves 0 (dec_set fuel mat dec b indef es ws m n)"
  proof (induction fuel arbitrary: ws m n)
    case (Suc fuel)
    then show ?case unfolding dec_set.simps by (intro leaves_intros dec new)
  qed (simp add: leaves_stop)
qed

lemma leaves_content:
  assumes "keeps_stack dec"
  shows "leaves 0 (TblDecodeContent fuel dec infs tbl b t impl)"
  unfolding TblDecodeContent_def
  by (cases "typeId t"; simp only: TBLTypeId.case)
    (intro leaves_intros leaves_loops [OF assms] assms [unfolded keeps_stack_def, rule_format])+

lemma TblDecodeType_keeps: "keeps_stack (TblDecodeType fuel infs tbl b)"
proof (induction fuel)
  case (Suc fuel)
  show ?case
    unfolding keeps_stack_def TblDecodeType.simps
    by (intro allI leaves_TblPop leaves_open_tags leaves_content Suc)
qed (simp add: keeps_stack_def leaves_stop)

section \<open>Failures\<close>

lemma leaves_TblDecode:
  assumes "TblDecode fuel infs tbl modName nm b n (s, tls) = (r, (s', tls'))"
  shows "\<exists>new. tls' = new @ tls \<and> (\<forall>v m. r = Inr (Some v, m) \<longrightarrow> new = []) \<and> (new = [] \<or> length tls' \<le> TL_STK_SIZE)"
proof (cases "TblFindTypeDef tbl modName nm")
  case None
  with assms show ?thesis by (simp add: TblDecode_def prog_simps)
next
  case (Some p)
  show ?thesis
  proof (cases "deref tbl (Some p)")
    case (Inl e)
    with assms Some show ?thesis by (simp add: TblDecode_def prog_simps)
  next
    case (Inr td)
    let ?m = "TblDecodeType fuel infs tbl b (td_type td) False 0"
    obtain x t tl1 where m: "?m (s, tls) = (x, (t, tl1))" by (metis prod_cases3)
    have "leaves 0 ?m" by (rule TblDecodeType_keeps [unfolded keeps_stack_def, rule_format])
    from leavesD [OF this m] obtain new where "tl1 = new @ tls" "isl x \<or> new = []"
      "new = [] \<or> length tl1 \<le> TL_STK_SIZE" by auto
    with assms Some Inr m show ?thesis
      by (auto simp: TblDecode_def liftP_run bindP_run setjmp_def returnP_run split: sum.splits stop.splits)
  qed
qed

text \<open>A decoder that starts with a full stack gives up at the first tag, whatever the octets are.\<close>

definition only_jumps :: "('s, 'a) prog \<Rightarrow> bool" where
  "only_jumps m \<longleftrightarrow> (\<forall>s e. fst (m s) = Inl e \<longrightarrow> (\<exists>n. e = LongJmp n))"

named_theorems only_jumps_intros \<open>rules for programs that stop by a jump only\<close>

lemma only_jumps_bind [only_jumps_intros]: "only_jumps m \<Longrightarrow> (\<And>x. only_jumps (f x)) \<Longrightarrow> only_jumps (bindP m f)"
  by (auto simp: only_jumps_def bindP_def split: prod.splits sum.splits) (metis fst_conv)+

lemma only_jumps_basic [only_jumps_intros]:
  "only_jumps (returnP x)" "only_jumps (longjmp n)" "only_jumps (getByte stream_ops)" "only_jumps (readError stream_ops)"
  by (simp_all add: only_jumps_def returnP_def stopP_def stream_ops_def stream_getByte_def split: list.split)

lemma only_jumps_if [only_jumps_intros]: "(c \<Longrightarrow> only_jumps m) \<Longrightarrow> (\<not> c \<Longrightarrow> only_jumps m') \<Longrightarrow> only_jumps (if c then m else m')"
  by simp

lemma only_jumps_let [only_jumps_intros]: "(\<And>x. only_jumps (f x)) \<Longrightarrow> only_jumps (let x = t in f x)"
  by simp

lemma only_jumps_case_prod [only_jumps_intros]: "(\<And>x y. only_jumps (f x y)) \<Longrightarrow> only_jumps (case p of (x, y) \<Rightarrow> f x y)"
  by (cases p) simp

lemma only_jumps_gen [only_jumps_intros]: "only_jumps m \<Longrightarrow> only_jumps (on_gen m)"
  by (auto simp: only_jumps_def on_bits_def on_buf_def split: prod.splits) (metis fst_conv)

lemma only_jumps_tag_len [only_jumps_intros]: "only_jumps (BDecTag stream_ops bd)" "only_jumps (BDecLen stream_ops bd)"
proof -
  have loop: "only_jumps (BDecTag_loop stream_ops t n i)" for t n i
  proof (induction "5 - i" arbitrary: t n i rule: less_induct)
    case less
    show ?case by (subst BDecTag_loop.simps) (intro only_jumps_intros less; arith)
  qed
  have "only_jumps (BDecLen_loop stream_ops k l)" for k l
    by (induction k arbitrary: l) (auto intro!: only_jumps_intros)
  then show "only_jumps (BDecTag stream_ops bd)" "only_jumps (BDecLen stream_ops bd)"
    unfolding BDecTag_def BDecLen_def by (intro only_jumps_intros loop; assumption?)+
qed

lemma on_bits_cases:
  obtains p q where "on_bits m (s, tls) = (p, (q, tls))"
  by (cases "m s") (simp add: on_bits_run)

lemma only_jumpsD: "only_jumps m \<Longrightarrow> m s = (Inl e, s') \<Longrightarrow> \<exists>n. e = LongJmp n"
  unfolding only_jumps_def by (metis fst_conv)

lemma full_stack_jumps:
  assumes "TL_STK_SIZE \<le> length tls" and "tgs \<noteq> []"
  shows "\<exists>n. fst (dec_tags stream_ops tgs (s, tls)) = Inl (LongJmp n)"
proof -
  obtain tg tgs' where t: "tgs = tg # tgs'" using assms(2) by (cases tgs) auto
  obtain p q where 1: "on_gen (BDecTag stream_ops 0) (s, tls) = (p, (q, tls))"
    by (rule on_bits_cases)
  show ?thesis
  proof (cases p)
    case (Inl e)
    have "\<exists>n. e = LongJmp n"
      by (rule only_jumpsD [where m = "on_gen (BDecTag stream_ops 0)", OF _ 1 [unfolded Inl]]) (intro only_jumps_intros)
    then show ?thesis using 1 Inl by (simp add: t bindP_run)
  next
    case (Inr x)
    obtain tag m where x: "x = (tag, m)" by (cases x)
    obtain p' q' where 2: "on_gen (BDecLen stream_ops m) (q, tls) = (p', (q', tls))"
      by (rule on_bits_cases)
    show ?thesis
    proof (cases p')
      case (Inl e)
      have "\<exists>n. e = LongJmp n"
        by (rule only_jumpsD [where m = "on_gen (BDecLen stream_ops m)", OF _ 2 [unfolded Inl]]) (intro only_jumps_intros)
      then show ?thesis using 1 2 Inl Inr x by (simp add: t bindP_run)
    next
      case (Inr y)
      with 1 2 \<open>p = Inr x\<close> x assms(1) show ?thesis
        by (cases y) (simp add: t bindP_run PUSH_TL_def stopP_run)
    qed
  qed
qed

text \<open>Decoding one encoding after the other: the static variables go on from one to the next.\<close>

definition tbl_decode_octets ::
  "nat \<Rightarrow> infinities \<Rightarrow> TBL \<Rightarrow> string \<Rightarrow> byte list \<Rightarrow> 16 word \<times> TagNLen list \<Rightarrow> (stop + AVal option \<times> AsnLen) \<times> 16 word \<times> TagNLen list" where
  "tbl_decode_octets fuel infs tbl nm xs = (\<lambda>(u, tls).
     case TblDecode fuel infs tbl None nm sBufOpsG 0 ((SBufInstallData xs, u), tls) of (r, ((b, u'), tls')) \<Rightarrow> (r, u', tls'))"

lemma tbl_decode_octets_stream:
  assumes "TblDecode fuel infs tbl None nm stream_ops 0 ((stream_of xs, u), tls) = (r, ((s, u'), tls'))" and "r \<noteq> Inl Fault"
  shows "tbl_decode_octets fuel infs tbl nm xs (u, tls) = (r, u', tls')"
proof -
  have i: "tbl_inv sbuf_reading ((SBufInstallData xs, u), tls)" by (simp add: sbuf_install(1))
  have "TblDecode fuel infs tbl None nm stream_ops 0 (tbl_view sbuf_unread ((SBufInstallData xs, u), tls)) = (r, ((s, u'), tls'))"
    using assms(1) by (simp add: sbuf_install(2))
  from refines_run [OF sb.TblDecode_refines i this] assms(2) obtain c where c: "TblDecode fuel infs tbl None nm sBufOpsG 0 ((SBufInstallData xs, u), tls) = (r, c)"
      "tbl_view sbuf_unread c = ((s, u'), tls')"
    by blast
  then show ?thesis by (cases c) (auto simp: tbl_decode_octets_def)
qed

lemma full_stack_refuses:
  assumes "TblFindTypeDef tbl None nm = Some p" and "deref tbl (Some p) = Inr td" and "\<not> no_tags (td_type td)"
    and "TL_STK_SIZE \<le> length tls"
  shows "fst (tbl_decode_octets (Suc k) infs tbl nm xs (u, tls)) = Inr (None, 0)"
proof -
  have "tags_of (td_type td) \<noteq> []" using assms(3) by (auto simp: no_tags_def tags_of_def split: option.splits)
  from full_stack_jumps [OF assms(4) this] obtain n s where
    "dec_tags stream_ops (tags_of (td_type td)) ((stream_of xs, u), tls) = (Inl (LongJmp n), s)"
    by (metis fst_conv surj_pair)
  then have "TblDecode (Suc k) infs tbl None nm stream_ops 0 ((stream_of xs, u), tls) = (Inr (None, 0), s)"
    using assms(1-3) by (simp add: TblDecode_def liftP_run bindP_run setjmp_def returnP_run TblDecodeTagsAndLens_def)
  then show ?thesis by (cases s; cases "fst s") (simp add: tbl_decode_octets_stream)
qed

text \<open>An INTEGER that announces five octets is refused and leaves its tag and length behind.\<close>

lemma long_integer_leaks:
  assumes "TblFindTypeDef tbl None nm = Some p" and "deref tbl (Some p) = Inr td" and "typeId (td_type td) = TBL_INTEGER"
    and "tags_of (td_type td) = [tg]" and "tag_ok tg" and "length tls < TL_STK_SIZE"
  shows "\<exists>e. tbl_decode_octets (Suc k) infs tbl nm (tag_bytes tg @ [5]) (u, tls) = (Inr (None, 0), u, e # tls)"
proof -
  have nt: "\<not> no_tags (td_type td)" using assms(4) by (auto simp: no_tags_def tags_of_def split: option.splits)
  obtain e where "TblDecode (Suc k) infs tbl None nm stream_ops 0 ((stream_of (tag_bytes tg @ [5]), u), tls) =
      (Inr (None, 0), ((stream_of [], u), e # tls))"
    using assms BDecTag_tag_bytes [OF assms(5), of _ "[5]"]
    by (simp add: TblDecode_def liftP_run bindP_run setjmp_def returnP_run TblDecodeTagsAndLens_def nt on_bits_run on_buf_run
        BDecLen_stream_short TagsEquiv_def PUSH_TL_run TblDecodeContent_def LAST_TL_run a_val_def BDecAsnIntContent_def stopP_run)
  then show ?thesis by (auto dest: tbl_decode_octets_stream)
qed

text \<open>On a full stack it is refused too, and changes nothing.\<close>

lemma long_integer_full:
  assumes "TblFindTypeDef tbl None nm = Some p" and "deref tbl (Some p) = Inr td" and "typeId (td_type td) = TBL_INTEGER"
    and "tags_of (td_type td) = [tg]" and "tag_ok tg" and "TL_STK_SIZE \<le> length tls"
  shows "tbl_decode_octets (Suc k) infs tbl nm (tag_bytes tg @ [5]) (u, tls) = (Inr (None, 0), u, tls)"
proof -
  have nt: "\<not> no_tags (td_type td)" using assms(4) by (auto simp: no_tags_def tags_of_def split: option.splits)
  have "TblDecode (Suc k) infs tbl None nm stream_ops 0 ((stream_of (tag_bytes tg @ [5]), u), tls) =
      (Inr (None, 0), ((stream_of [], u), tls))"
    using assms BDecTag_tag_bytes [OF assms(5), of _ "[5]"]
    by (simp add: TblDecode_def liftP_run bindP_run setjmp_def returnP_run TblDecodeTagsAndLens_def nt on_bits_run on_buf_run
        BDecLen_stream_short TagsEquiv_def PUSH_TL_def)
  then show ?thesis by (auto dest: tbl_decode_octets_stream)
qed

lemma failures_add_up:
  assumes "TblFindTypeDef tbl None nm = Some p" and "deref tbl (Some p) = Inr td" and "typeId (td_type td) = TBL_INTEGER"
    and "tags_of (td_type td) = [tg]" and "tag_ok tg"
  shows "\<exists>tls. ((\<lambda>s. snd (tbl_decode_octets (Suc k) infs tbl nm (tag_bytes tg @ [5]) s)) ^^ j) (u, []) = (u, tls) \<and>
    length tls = min j TL_STK_SIZE"
proof (induction j)
  case (Suc j)
  then obtain tls where tls: "((\<lambda>s. snd (tbl_decode_octets (Suc k) infs tbl nm (tag_bytes tg @ [5]) s)) ^^ j) (u, []) = (u, tls)"
    "length tls = min j TL_STK_SIZE" by blast
  show ?case
  proof (cases "length tls < TL_STK_SIZE")
    case True
    from long_integer_leaks [OF assms True, of k infs u] tls True show ?thesis by auto
  next
    case False
    with long_integer_full [OF assms, of tls k infs u] tls show ?thesis by auto
  qed
qed simp

section \<open>The end of the preparation of tags\<close>

text \<open>A type whose references end after \<open>n\<close> steps.\<close>

inductive refs_end :: "TBL \<Rightarrow> TBLType \<Rightarrow> nat \<Rightarrow> bool" for tbl where
  End: "typeId t \<noteq> TBL_TYPEREF \<Longrightarrow> refs_end tbl t 0"
| Step: "typeId t = TBL_TYPEREF \<Longrightarrow> content t = TypeRef d i p \<Longrightarrow> deref tbl p = Inr td \<Longrightarrow> refs_end tbl (td_type td) n \<Longrightarrow>
    refs_end tbl t (Suc n)"

lemma skip_refs_ends: "refs_end tbl t n \<Longrightarrow> n \<le> fuel \<Longrightarrow> \<exists>r. skip_refs fuel tbl t m = Inr r"
proof (induction arbitrary: fuel m rule: refs_end.induct)
  case (End t)
  then show ?case by (subst skip_refs.simps) simp
next
  case (Step t d i p td n)
  then obtain fuel' where "fuel = Suc fuel'" "n \<le> fuel'" by (cases fuel) auto
  with Step show ?case by (subst skip_refs.simps) simp
qed

text \<open>A type all of whose parts are like this, and have the elements their kind calls for.\<close>

definition structured :: "TBLTypeId \<Rightarrow> bool" where
  "structured i \<longleftrightarrow> i \<in> {TBL_SEQUENCE, TBL_SET, TBL_SEQUENCEOF, TBL_SETOF, TBL_CHOICE}"

fun refs_ok :: "nat \<Rightarrow> TBL \<Rightarrow> TBLType \<Rightarrow> bool" and all_refs_ok :: "nat \<Rightarrow> TBL \<Rightarrow> TBLType list \<Rightarrow> bool" where
  "refs_ok fuel tbl (TBLType i opt ts c) \<longleftrightarrow>
     (\<exists>n\<le>fuel. refs_end tbl (TBLType i opt ts c) n) \<and>
     (structured i \<longrightarrow> (case c of Elmts es \<Rightarrow> all_refs_ok fuel tbl es | _ \<Rightarrow> False))"
| "all_refs_ok fuel tbl [] \<longleftrightarrow> True"
| "all_refs_ok fuel tbl (e # es) \<longleftrightarrow> refs_ok fuel tbl e \<and> all_refs_ok fuel tbl es"

lemma map_stop_all2:
  "list_all2 A xs ys \<Longrightarrow> (\<And>x y. x \<in> set xs \<Longrightarrow> y \<in> set ys \<Longrightarrow> A x y \<Longrightarrow> \<exists>y'. f y = Inr y' \<and> B x y') \<Longrightarrow>
    \<exists>ys'. map_stop f ys = Inr ys' \<and> list_all2 B xs ys'"
proof (induction rule: list_all2_induct)
  case (Cons x xs y ys)
  from Cons.prems [of x y] Cons.hyps(1) obtain y' where "f y = Inr y'" "B x y'" by auto
  moreover from Cons obtain ys' where "map_stop f ys = Inr ys'" "list_all2 B xs ys'" by auto
  ultimately show ?case by simp
qed simp

text \<open>A tagged reference to itself: the loop over the references goes round for ever.\<close>

lemma skip_refs_circle:
  assumes "typeId t = TBL_TYPEREF" and "content t = TypeRef d i p" and "deref tbl p = Inr td" and "td_type td = t"
  shows "skip_refs fuel tbl t m = Inl NoFuel"
  using assms by (induction fuel arbitrary: m) (subst skip_refs.simps, simp)+

lemma TblFixTags_circle:
  assumes "modules tbl = [m]" and "typeDefs m = [td]"
    and "td_type td = TBLType TBL_TYPEREF opt (Some tgs) (TypeRef d i (Some (0, 0)))"
  shows "TblFixTags fuel tbl = Inl NoFuel"
proof -
  have "deref tbl (Some (0, 0)) = Inr td" using assms(1,2) by (simp add: deref_def)
  with assms(3) have "skip_refs fuel tbl (td_type td) n = Inl NoFuel" for n
    by (intro skip_refs_circle) simp_all
  then show ?thesis using assms by (simp add: TblFixTags_def each_type_def TblSetTagForms_def)
qed

end
