(* ===== verification/Tbl_Quirks.thy ===== *)
theory Tbl_Quirks
  imports Tbl_Stack
begin

text \<open>
  Where the table driven routines depart from the encoding rules: the mandatory elements of a SET are only counted,
  an optional element at the end of a SEQUENCE is looked for behind its end, and the forms of the tags of
  references are computed from the wrong tags.
\<close>

section \<open>Mandatory elements of a SET\<close>

text \<open>An element found twice makes up for one that is missing.\<close>

lemma SET_duplicate:
  assumes t: "typeId t = TBL_SET" "elmts_of t = Inr [e, e']" "\<not> optional e" "\<not> optional e'"
    and x: "tbl_ber infs tbl d None e False v x (x' @ ys)" "x \<noteq> []" "next_tag (x @ x' @ ys) = Some a" "starts tbl e a True"
    and x': "tbl_ber infs tbl d None e False v' x' ys" "x' \<noteq> []" "next_tag (x' @ ys) = Some a'" "starts tbl e a' True"
    and tags: "open_tags t False \<noteq> []" "hdr_ok (open_tags t False) (x @ x')"
  shows "for_large (\<lambda>k. reads_type infs tbl k (length (open_tags t False) + d) None t False (AStructVal [Some v', None])
    (hdr (open_tags t False) (x @ x') @ x @ x') ys)"
proof -
  have step: "reads_content infs tbl k d (last_tag t False None) t False (AStructVal [Some v', None]) (x @ x') ys"
    if k: "reads_type infs tbl k d None e False v x (x' @ ys)" "reads_type infs tbl k d None e False v' x' ys"
      "TagsMatch k tbl e a = Inr True" "TagsMatch k tbl e a' = Inr True" "2 < k" for k
    unfolding reads_content_def
  proof (intro allI impI)
    fix u :: "16 word" and tls :: "TagNLen list"
    let ?s = "((stream_of ((x @ x') @ ys), u), tls)" and ?dec = "TblDecodeType k infs tbl stream_ops"
    assume l: "length tls + d \<le> TL_STK_SIZE" and top: "on_top (last_tag t False None) tls (x @ x')"
    have "last_tag t False None \<noteq> None" using tags(1) by (simp add: last_tag_def)
    from on_top_until [OF top this] obtain la where la: "until tls 0 (x @ x')" "LAST_TL ?s = (Inr la, ?s)" "tl_len la \<noteq> INDEFINITE_LEN"
      by metis
    obtain f where f: "k = Suc (Suc (Suc f))" using k(5) by (metis add_2_eq_Suc less_imp_Suc_add)
    note u2 = until_step [OF la(1)]
    have u3: "until tls (0 + of_nat (length x) + of_nat (length x')) []" using until_step [of tls _ x' "[]"] u2 by simp
    have "dec_set k (TagsMatch k tbl) ?dec stream_ops False [e, e'] [None, None] 0 0 ?s =
        (Inr ([Some (canon v'), None], 2, of_nat (length x) + of_nat (length x')), ((stream_of ys, u), tls))"
      using set_step [of infs tbl k d "[e, e']" 0 v x x' ys a tls 0 "Suc (Suc f)" "[None, None]" 0 u]
        set_step [of infs tbl k d "[e, e']" 0 v' x' "[]" ys a' tls "0 + of_nat (length x)" "Suc f" "[Some (canon v), None]" 1 u]
        k x(2,3) x'(2,3) l la(1) u2 t(3) until_more [OF u3, where b = stream_ops]
      by (subst f) (simp add: bindP_run returnP_run)
    then show "TblDecodeContent k ?dec infs tbl stream_ops t False ?s =
        (Inr (Some (canon (AStructVal [Some v', None])), of_nat (length (x @ x'))), ((stream_of ys, u), tls))"
      using la(2,3) t by (simp add: TblDecodeContent_def bindP_run liftP_run returnP_run CountMandatoryElmts_def numeral_2_eq_2)
  qed
  have "for_large (\<lambda>k. TagsMatch k tbl e a = Inr True \<and> TagsMatch k tbl e a' = Inr True \<and> 2 < k)"
    by (intro eventually_conj TagsMatch_starts x(4) x'(4) eventually_gt_at_top)
  with TblDecodeType_reads(1) [OF x(1)] TblDecodeType_reads(1) [OF x'(1)]
  have "for_large (\<lambda>k. reads_content infs tbl k d (last_tag t False None) t False (AStructVal [Some v', None]) (x @ x') ys)"
    by (rule for_large_mp3) (intro step; simp)
  then show ?thesis by (rule for_large_Suc) (rule reads_typeI [OF _ tags(2)])
qed

section \<open>The end of a SEQUENCE\<close>

text \<open>An empty SEQUENCE, whose only element is optional, followed by something that could be this element.\<close>

lemma SEQUENCE_reads_on:
  assumes t: "typeId t = TBL_SEQUENCE" "elmts_of t = Inr [e]" "optional e"
    and x: "tbl_ber infs tbl d None e False v x ys" "next_tag (x @ ys) = Some a" "starts tbl e a True" "x \<noteq> []" "length x < 2 ^ 32"
    and tags: "tags_of t \<noteq> []" "hdr_ok (tags_of t) []" and l: "length tls + length (tags_of t) + d \<le> TL_STK_SIZE"
  shows "for_large (\<lambda>k. fst (TblDecodeType k infs tbl stream_ops t False bd ((stream_of (hdr (tags_of t) [] @ x @ ys), u), tls)) =
    Inl (LongJmp (- 1003)))"
proof -
  have step: "fst (TblDecodeType (Suc k) infs tbl stream_ops t False bd ((stream_of (hdr (tags_of t) [] @ x @ ys), u), tls)) =
      Inl (LongJmp (- 1003))"
    if k: "reads_type infs tbl k d None e False v x ys" "TagsMatch k tbl e a = Inr True" for k
  proof -
    let ?p = "pushed (tags_of t) [] tls"
    have nt: "\<not> no_tags t" using tags(1) by (auto simp: no_tags_def tags_of_def split: option.splits)
    have 1: "TblDecodeTagsAndLens t stream_ops False ((stream_of (hdr (tags_of t) [] @ x @ ys), u), tls) = (Inr (), ((stream_of (x @ ys), u), ?p))"
      using dec_tags_stream [OF tags(2), of tls "x @ ys" u] l nt by (simp add: TblDecodeTagsAndLens_def)
    have "length ?p + d \<le> TL_STK_SIZE" using l by (simp add: length_pushed)
    from element_reads [OF k(1) this] PeekTag_next [OF x(2)] k(2)
    have 2: "TblDecodeContent k (TblDecodeType k infs tbl stream_ops) infs tbl stream_ops t False ((stream_of (x @ ys), u), ?p) =
        (Inr (Some (AStructVal [Some (canon v)]), of_nat (length x)), ((stream_of ys, u), ?p))"
      using t by (simp add: TblDecodeContent_def prog_simps a_val_def)
    obtain ts tg where ts: "tags_of t = ts @ [tg]" using tags(1) by (metis rev_exhaust)
    have "unat (of_nat (length x) :: ulong) = length x" by (rule unat_of_nat_small) (use x(5) in simp)
    then have "(of_nat (length x) :: ulong) \<noteq> 0" using x(4) by (metis length_0_conv unat_0)
    then have 3: "fst (TblPopTagsAndLens t stream_ops False (of_nat (length x)) ((stream_of ys, u), ?p)) = Inl (LongJmp (- 1003))"
      by (simp add: TblPopTagsAndLens_def ts pushed_append prog_simps INDEFINITE_LEN_def)
    then obtain s where "TblPopTagsAndLens t stream_ops False (of_nat (length x)) ((stream_of ys, u), ?p) = (Inl (LongJmp (- 1003)), s)"
      by (metis prod.collapse)
    with 1 2 show ?thesis by (simp add: bindP_run)
  qed
  from TblDecodeType_reads(1) [OF x(1)] TagsMatch_starts [OF x(3)]
  have "for_large (\<lambda>k. reads_type infs tbl k d None e False v x ys \<and> TagsMatch k tbl e a = Inr True)"
    by (rule for_large_mp2) simp
  then show ?thesis by (rule for_large_Suc) (rule step; simp)
qed

section \<open>The forms of tags\<close>

definition prepared :: "BER_FORM \<Rightarrow> BER_FORM \<Rightarrow> TBLTag \<Rightarrow> TBLTag" where
  "prepared kept fm tg = tg\<lparr>form := kept, encTag := MAKE_TAG_ID (TblTagClassToBer (tclass tg)) fm (code tg)\<rparr>"

definition prepared_for :: "TBLTypeId \<Rightarrow> TBLTag \<Rightarrow> TBLTag" where
  "prepared_for i =
     (if structured i then prepared CONS CONS
      else if i \<in> {TBL_OCTETSTRING, TBL_BITSTRING} then prepared ANY_FORM PRIM
      else prepared PRIM PRIM)"

lemma set_tag_forms_outer: "int (length tgs) < n \<Longrightarrow> set_tag_forms i n tgs = map (prepared CONS CONS) tgs"
  by (induction tgs arbitrary: n) (simp_all add: tag_forms_def prepared_def)

lemma set_tag_forms_last:
  "tgs \<noteq> [] \<Longrightarrow> set_tag_forms i (int (length tgs)) tgs = map (prepared CONS CONS) (butlast tgs) @ [prepared_for i (last tgs)]"
proof (induction tgs)
  case (Cons tg tgs)
  show ?case
  proof (cases "tgs = []")
    case True
    then show ?thesis by (simp add: tag_forms_def prepared_for_def prepared_def structured_def)
  next
    case False
    then have "1 < int (length (tg # tgs))" by (cases tgs) simp_all
    with Cons.IH [OF False] False show ?thesis by (simp add: tag_forms_def prepared_def)
  qed
qed simp

lemma set_tag_forms_own:
  assumes "typeId t \<noteq> TBL_TYPEREF" and "tagList t = Some tgs" and "tgs \<noteq> []"
  shows "\<exists>t'. TblSetTagForms fuel tbl t = Inr t' \<and>
    tags_of t' = map (prepared CONS CONS) (butlast tgs) @ [prepared_for (typeId t) (last tgs)]"
  using assms set_tag_forms_last [OF assms(3)] by (simp add: TblSetTagForms_def skip_refs.simps tags_of_def)

lemma set_tag_forms_implicit_ref:
  assumes "typeId t = TBL_TYPEREF" and "content t = TypeRef d True p" and "deref tbl p = Inr td"
    and "typeId (td_type td) \<noteq> TBL_TYPEREF" and "tagList t = Some tgs" and "tgs \<noteq> []" and "0 < fuel"
  shows "\<exists>t'. TblSetTagForms fuel tbl t = Inr t' \<and>
    tags_of t' = (if length tgs = 1 then [prepared_for (typeId (td_type td)) (hd tgs)] else map (prepared CONS CONS) tgs)"
proof -
  obtain f where f: "fuel = Suc f" using assms(7) by (cases fuel) auto
  have skip: "skip_refs fuel tbl t (int (length tgs)) = Inr (typeId (td_type td), 2 * int (length tgs) - 1)"
    using assms by (subst f, subst skip_refs.simps) (subst skip_refs.simps, simp add: tags_of_def)
  show ?thesis
  proof (cases "length tgs = 1")
    case True
    then obtain tg where "tgs = [tg]" by (cases tgs) auto
    then show ?thesis using skip assms(5) set_tag_forms_last [of "[tg]" "typeId (td_type td)"]
      by (simp add: TblSetTagForms_def tags_of_def)
  next
    case False
    then have "int (length tgs) < 2 * int (length tgs) - 1" using assms(6) by (cases tgs) (auto simp: neq_Nil_conv)
    from set_tag_forms_outer [OF this] False skip assms(5) show ?thesis by (simp add: TblSetTagForms_def tags_of_def)
  qed
qed

end
