(* ===== verification/Tbl_Prepare.thy ===== *)
theory Tbl_Prepare
  imports Tbl_Quirks
begin

text \<open>
  What \<open>TblFixTags\<close> of \<open>c-lib/src/tbl-util.c\<close> makes of a table, against a specification that does not
  follow its recursion: the form and the encoded form of every tag of every type and element, the rest
  of the table unchanged, and the number of type definitions as a bound of the steps along references.
\<close>

section \<open>What the preparation of a table does\<close>

text \<open>
  Specification. The references from a type end in one of another kind \<open>i\<close>; \<open>m\<close> is the number of the
  tags on the way, from the type itself on and without those of the last one, each IMPLICIT reference
  taking one away.
\<close>

inductive ref_chain :: "TBL \<Rightarrow> TBLType \<Rightarrow> TBLTypeId \<Rightarrow> int \<Rightarrow> bool" for tbl where
  Chain_end: "typeId t \<noteq> TBL_TYPEREF \<Longrightarrow> ref_chain tbl t (typeId t) 0"
| Chain_step: "typeId t = TBL_TYPEREF \<Longrightarrow> content t = TypeRef d impl p \<Longrightarrow> deref tbl p = Inr td \<Longrightarrow>
    ref_chain tbl (td_type td) i m \<Longrightarrow> ref_chain tbl t i (m + int (length (tags_of t)) - (if impl then 1 else 0))"

text \<open>
  A type and what it becomes: the same kind, the same references and the elements in their order, prepared
  alike; each of its own tags constructed when the count from it on, own tags and \<open>m\<close>, is above one, and
  else as the kind at the end of the references says.
\<close>

definition tags_fixed :: "TBL \<Rightarrow> TBLType \<Rightarrow> TBLTag list option \<Rightarrow> bool" where
  "tags_fixed tbl t ts \<longleftrightarrow>
     (case tagList t of
        None \<Rightarrow> ts = None
      | Some tgs \<Rightarrow> (\<exists>i m tgs'. ref_chain tbl t i m \<and> ts = Some tgs' \<and> length tgs' = length tgs \<and>
          (\<forall>k<length tgs. tgs' ! k =
             (if int (length tgs) + m - int k > 1 then prepared CONS CONS else prepared_for i) (tgs ! k))))"

inductive type_fixed :: "TBL \<Rightarrow> TBLType \<Rightarrow> TBLType \<Rightarrow> bool" for tbl where
  Fixed_plain: "\<not> structured (typeId t) \<Longrightarrow> tags_fixed tbl t ts \<Longrightarrow>
    type_fixed tbl t (TBLType (typeId t) (optional t) ts (content t))"
| Fixed_elmts: "structured (typeId t) \<Longrightarrow> tags_fixed tbl t ts \<Longrightarrow> content t = Elmts es \<Longrightarrow>
    list_all2 (type_fixed tbl) es es' \<Longrightarrow> type_fixed tbl t (TBLType (typeId t) (optional t) ts (Elmts es'))"

definition table_fixed :: "TBL \<Rightarrow> TBL \<Rightarrow> bool" where
  "table_fixed tbl tbl' \<longleftrightarrow>
     list_all2 (\<lambda>m m'. mod_name m' = mod_name m \<and>
       list_all2 (\<lambda>td td'. typeDefId td' = typeDefId td \<and> typeName td' = typeName td \<and>
         type_fixed tbl (td_type td) (td_type td')) (typeDefs m) (typeDefs m')) (modules tbl) (modules tbl')"

lemma skip_refs_chain:
  "refs_end tbl t n \<Longrightarrow> n \<le> fuel \<Longrightarrow> \<exists>i m. ref_chain tbl t i m \<and> (\<forall>c. skip_refs fuel tbl t c = Inr (i, c + m))"
proof (induction arbitrary: fuel rule: refs_end.induct)
  case (End t)
  then show ?case by (intro exI [of _ "typeId t"] exI [of _ 0]) (auto simp: skip_refs.simps [of fuel] intro: Chain_end)
next
  case (Step t d impl p td n)
  then obtain f where f: "fuel = Suc f" "n \<le> f" by (cases fuel) auto
  from Step.IH [OF f(2)] obtain i m where "ref_chain tbl (td_type td) i m" "\<And>c. skip_refs f tbl (td_type td) c = Inr (i, c + m)"
    by blast
  then show ?case
    using Step.hyps f(1) Chain_step [OF Step.hyps(1-3), of i m]
    by (intro exI [of _ i] exI [of _ "m + int (length (tags_of t)) - (if impl then 1 else 0)"])
      (simp add: skip_refs.simps [of "Suc f"] algebra_simps)
qed

lemma length_set_tag_forms [simp]: "length (set_tag_forms i n tgs) = length tgs"
  by (induction i n tgs rule: set_tag_forms.induct) (simp_all split: prod.split)

lemma set_tag_forms_nth:
  "k < length tgs \<Longrightarrow>
    set_tag_forms i n tgs ! k = (if n - int k > 1 then prepared CONS CONS else prepared_for i) (tgs ! k)"
proof (induction tgs arbitrary: n k)
  case (Cons tg tgs)
  then show ?case
    by (cases k) (auto simp: tag_forms_def prepared_def prepared_for_def structured_def)
qed simp

lemma TblSetTagForms_fixes:
  assumes "refs_end tbl t n" and "n \<le> fuel"
  shows "\<exists>ts. TblSetTagForms fuel tbl t = Inr (TBLType (typeId t) (optional t) ts (content t)) \<and> tags_fixed tbl t ts"
proof (cases "tagList t")
  case None
  then show ?thesis by (cases t) (simp add: TblSetTagForms_def tags_fixed_def)
next
  case (Some tgs)
  from skip_refs_chain [OF assms] obtain i m where
    "ref_chain tbl t i m" "\<And>c. skip_refs fuel tbl t c = Inr (i, c + m)" by blast
  with Some show ?thesis
    by (auto simp: TblSetTagForms_def tags_fixed_def set_tag_forms_nth
        intro!: exI [of _ i] exI [of _ m])
qed

lemma TblFixTypeTags_fixes:
  "refs_ok fuel tbl t \<Longrightarrow> \<exists>t'. TblFixTypeTags fuel tbl t = Inr t' \<and> type_fixed tbl t t'"
  "all_refs_ok fuel tbl es \<Longrightarrow> \<exists>es'. fix_elmts fuel tbl es = Inr es' \<and> list_all2 (type_fixed tbl) es es'"
proof (induction fuel tbl t and fuel tbl es rule: TblFixTypeTags_fix_elmts.induct)
  case (1 fuel tbl i opt ts c)
  let ?t = "TBLType i opt ts c"
  from 1 obtain n where "n \<le> fuel" "refs_end tbl ?t n" by auto
  from TblSetTagForms_fixes [OF this(2,1)] obtain ts' where
    t': "TblSetTagForms fuel tbl ?t = Inr (TBLType i opt ts' c)" and fixed: "tags_fixed tbl ?t ts'" by auto
  show ?case
  proof (cases "structured i")
    case True
    then obtain es where c: "c = Elmts es" "all_refs_ok fuel tbl es" using "1.prems" by (auto split: TBLTypeContent.splits)
    moreover from this obtain es' where "fix_elmts fuel tbl es = Inr es'" "list_all2 (type_fixed tbl) es es'"
      using "1.IH" t' True by (auto simp: structured_def)
    ultimately show ?thesis using t' True Fixed_elmts [OF _ fixed] by (auto simp: structured_def)
  next
    case False
    with t' Fixed_plain [OF _ fixed] show ?thesis by (auto simp: structured_def)
  qed
qed auto

lemma TblFixTags_fixes:
  assumes "list_all (\<lambda>m. list_all (\<lambda>td. refs_ok fuel tbl (td_type td)) (typeDefs m)) (modules tbl)"
  shows "\<exists>tbl'. TblFixTags fuel tbl = Inr tbl' \<and> table_fixed tbl tbl'"
proof -
  let ?same = "\<lambda>td td'. typeDefId td' = typeDefId td \<and> typeName td' = typeName td \<and> type_fixed tbl (td_type td) (td_type td')"
  have "\<exists>tds. map_stop (\<lambda>td. map_sum id (\<lambda>t. td\<lparr>td_type := t\<rparr>) (TblFixTypeTags fuel tbl (td_type td))) (typeDefs m) = Inr tds \<and>
      list_all2 ?same (typeDefs m) tds" if "m \<in> set (modules tbl)" for m
  proof (rule map_stop_all2 [where A = "(=)"])
    fix x y assume "y \<in> set (typeDefs m)" "x = y"
    then have "refs_ok fuel tbl (td_type y)" using assms that by (auto simp: list_all_iff)
    with TblFixTypeTags_fixes(1) [OF this] \<open>x = y\<close>
    show "\<exists>y'. map_sum id (\<lambda>t. y\<lparr>td_type := t\<rparr>) (TblFixTypeTags fuel tbl (td_type y)) = Inr y' \<and> ?same x y'" by auto
  qed (rule list.rel_refl, simp)
  then have "\<exists>ms. map_stop (\<lambda>m. map_sum id (\<lambda>tds. m\<lparr>typeDefs := tds\<rparr>)
      (map_stop (\<lambda>td. map_sum id (\<lambda>t. td\<lparr>td_type := t\<rparr>) (TblFixTypeTags fuel tbl (td_type td))) (typeDefs m))) (modules tbl) = Inr ms \<and>
      list_all2 (\<lambda>m m'. mod_name m' = mod_name m \<and> list_all2 ?same (typeDefs m) (typeDefs m')) (modules tbl) ms"
    by (intro map_stop_all2 [where A = "(=)"]) (fastforce simp: list.rel_refl)+
  then show ?thesis by (auto simp: TblFixTags_def each_type_def table_fixed_def)
qed

text \<open>
  How much fuel is enough: references that end pass each type definition at most once, so the number of type
  definitions is a bound of their length.
\<close>

lemma refs_end_unique: "refs_end tbl t n \<Longrightarrow> refs_end tbl t m \<Longrightarrow> n = m"
proof (induction arbitrary: m rule: refs_end.induct)
  case (End t)
  from End(2) End(1) show ?case by (cases rule: refs_end.cases) simp_all
next
  case (Step t d i p td n)
  from Step.prems Step.hyps(1) obtain d' i' p' td' m' where
    "content t = TypeRef d' i' p'" "deref tbl p' = Inr td'" "refs_end tbl (td_type td') m'" "m = Suc m'"
    by (cases rule: refs_end.cases) auto
  with Step.hyps(2,3) Step.IH show ?case by simp
qed

definition positions :: "TBL \<Rightarrow> (nat \<times> nat) set" where
  "positions tbl = (SIGMA m:{..<length (modules tbl)}. {..<length (typeDefs (modules tbl ! m))})"

definition num_typeDefs :: "TBL \<Rightarrow> nat" where
  "num_typeDefs tbl = sum_list (map (\<lambda>m. length (typeDefs m)) (modules tbl))"

lemma card_positions: "finite (positions tbl)" "card (positions tbl) = num_typeDefs tbl"
  by (simp_all add: positions_def num_typeDefs_def sum_list_sum_nth atLeast0LessThan)

lemma refs_end_passes:
  "refs_end tbl t n \<Longrightarrow> j < n \<Longrightarrow> \<exists>q\<in>positions tbl. \<exists>td. deref tbl (Some q) = Inr td \<and> refs_end tbl (td_type td) j"
proof (induction rule: refs_end.induct)
  case (Step t d i p td n)
  show ?case
  proof (cases "j = n")
    case True
    from Step.hyps(3) obtain q where "p = Some q" "q \<in> positions tbl"
      by (auto simp: deref_def positions_def split: option.splits if_splits)
    with True Step.hyps(3,4) show ?thesis by auto
  qed (use Step in simp)
qed simp

lemma refs_end_bound:
  assumes "refs_end tbl t n"
  shows "n \<le> num_typeDefs tbl"
proof -
  have "\<forall>j\<in>{..<n}. \<exists>q. q \<in> positions tbl \<and> (\<exists>td. deref tbl (Some q) = Inr td \<and> refs_end tbl (td_type td) j)"
    using refs_end_passes [OF assms] by blast
  from bchoice [OF this] obtain f where "\<forall>j\<in>{..<n}. f j \<in> positions tbl \<and>
      (\<exists>td. deref tbl (Some (f j)) = Inr td \<and> refs_end tbl (td_type td) j)" ..
  then have f: "j < n \<Longrightarrow> f j \<in> positions tbl \<and> (\<exists>td. deref tbl (Some (f j)) = Inr td \<and> refs_end tbl (td_type td) j)" for j
    by blast
  have "inj_on f {..<n}"
  proof (rule inj_onI)
    fix x y assume "x \<in> {..<n}" "y \<in> {..<n}" "f x = f y"
    with f [of x] f [of y] show "x = y" by (auto dest: refs_end_unique)
  qed
  moreover have "f ` {..<n} \<subseteq> positions tbl" using f by auto
  ultimately have "card {..<n} \<le> card (positions tbl)" using card_inj_on_le card_positions(1) by blast
  then show ?thesis by (simp add: card_positions(2))
qed

text \<open>No circle of references and no null pointer, and elements where the kind calls for them.\<close>

fun refs_lead :: "TBL \<Rightarrow> TBLType \<Rightarrow> bool" and all_refs_lead :: "TBL \<Rightarrow> TBLType list \<Rightarrow> bool" where
  "refs_lead tbl (TBLType i opt ts c) \<longleftrightarrow>
     (\<exists>n. refs_end tbl (TBLType i opt ts c) n) \<and>
     (structured i \<longrightarrow> (case c of Elmts es \<Rightarrow> all_refs_lead tbl es | _ \<Rightarrow> False))"
| "all_refs_lead tbl [] \<longleftrightarrow> True"
| "all_refs_lead tbl (e # es) \<longleftrightarrow> refs_lead tbl e \<and> all_refs_lead tbl es"

lemma refs_lead_ok:
  "refs_lead tbl t \<Longrightarrow> num_typeDefs tbl \<le> fuel \<Longrightarrow> refs_ok fuel tbl t"
  "all_refs_lead tbl es \<Longrightarrow> num_typeDefs tbl \<le> fuel \<Longrightarrow> all_refs_ok fuel tbl es"
proof (induction tbl t and tbl es rule: refs_lead_all_refs_lead.induct)
  case (1 tbl i opt ts c)
  then obtain n where "refs_end tbl (TBLType i opt ts c) n" by auto
  moreover from this have "n \<le> fuel" using refs_end_bound 1(3) by (meson order_trans)
  ultimately show ?case using 1 by (auto split: TBLTypeContent.splits)
qed simp_all

end
