(* ===== verification/Tbl_Examples.thy ===== *)
theory Tbl_Examples
  imports Tbl_Prepare
begin

text \<open>Concrete tables: the types of some small modules and encodings of their values.\<close>

definition u_tag :: "BER_FORM \<Rightarrow> 32 word \<Rightarrow> TBLTag" where
  "u_tag fm cd = \<lparr>tclass = UNIVERSAL, code = cd, form = fm, encTag = MAKE_TAG_ID UNIV_CLASS (if fm = CONS then CONS else PRIM) cd\<rparr>"

definition simple_type :: "TBLTypeId \<Rightarrow> bool \<Rightarrow> BER_FORM \<Rightarrow> 32 word \<Rightarrow> TBLType" where
  "simple_type i opt fm cd = TBLType i opt (Some [u_tag fm cd]) PrimType"

definition int_type :: TBLType where
  "int_type = simple_type TBL_INTEGER False PRIM 2"

text \<open>
  \<open>Order ::= SEQUENCE \{ id INTEGER, urgent BOOLEAN OPTIONAL, key CHOICE \{ none NULL, octs OCTET STRING \},
  items SEQUENCE OF INTEGER \}\<close>
\<close>

definition key_type :: TBLType where
  "key_type = TBLType TBL_CHOICE False None (Elmts [simple_type TBL_NULL False PRIM 5, simple_type TBL_OCTETSTRING False ANY_FORM 4])"

definition items_type :: TBLType where
  "items_type = TBLType TBL_SEQUENCEOF False (Some [u_tag CONS 16]) (Elmts [int_type])"

definition order_type :: TBLType where
  "order_type = TBLType TBL_SEQUENCE False (Some [u_tag CONS 16])
     (Elmts [int_type, simple_type TBL_BOOLEAN True PRIM 1, key_type, items_type])"

definition one_type :: "TBLType \<Rightarrow> TBL" where
  "one_type t = \<lparr>modules = [\<lparr>mod_name = ''M'', typeDefs = [\<lparr>typeDefId = 0, typeName = ''T'', td_type = t\<rparr>]\<rparr>]\<rparr>"

lemma one_type_find: "TblFindTypeDef (one_type t) None ''T'' = Some (0, 0)"
  "deref (one_type t) (Some (0, 0)) = Inr \<lparr>typeDefId = 0, typeName = ''T'', td_type = t\<rparr>"
  by (simp_all add: one_type_def TblFindTypeDef_def TblFindTypeDefInMod_def deref_def)

lemma u_tags:
  "tag_ok (u_tag PRIM 2)" "tag_ok (u_tag CONS 16)" "tag_ok (u_tag PRIM 1)" "tag_ok (u_tag ANY_FORM 4)" "tag_ok (u_tag PRIM 5)"
  by (simp_all add: tag_ok_def u_tag_def TblTagClassToBer_def tag_form_def)

lemma simple_type_sel [simp]:
  "typeId (simple_type i opt fm cd) = i" "tags_of (simple_type i opt fm cd) = [u_tag fm cd]"
  "open_tags (simple_type i opt fm cd) False = [u_tag fm cd]" "optional (simple_type i opt fm cd) = opt"
  by (simp_all add: simple_type_def tags_of_def open_tags_def)

lemma simple_ber:
  assumes "prim_ber infs i v c" and "tag_ok (u_tag fm cd)" and "length (hdr [u_tag fm cd] c @ c) < 2 ^ 32"
    and "i \<in> {TBL_OCTETSTRING, TBL_BITSTRING} \<longrightarrow> \<not> TAG_IS_CONS (encTag (u_tag fm cd))" and "xs = hdr [u_tag fm cd] c @ c"
  shows "tbl_ber infs tbl (Suc d) h (simple_type i opt fm cd) False v xs ys"
  using tbl_ber_ber_fields_ber_members_ber_list.Prim [of infs "simple_type i opt fm cd" v c False h "encTag (u_tag fm cd)" tbl d ys] assms
  by (simp add: last_tag_def hdr_ok_def)

lemma simple_starts: "starts tbl (simple_type i opt fm cd) a (TagsEquiv a (u_tag fm cd))"
  by (rule starts.Tagged [where tgs = "[]"]) simp

lemma int_octets_5: "int_octets (sint (5 :: 32 word)) = [5]" "int_octets (sint (1 :: 32 word)) = [1]" "int_octets (sint (7 :: 32 word)) = [7]"
  by (simp_all add: int_octets_def int_size_def)

lemma int_ber:
  "int_octets (sint x) = [c] \<Longrightarrow> tbl_ber infs tbl (Suc d) h int_type False (AInt x) [2, 1, c] ys"
  unfolding int_type_def
  using prim_ber.Int [of TBL_INTEGER infs x] u_tags(1)
  by (intro simple_ber [where c = "[c]"]) (auto simp: tag_bytes_def tag_octets_def tag_form_def u_tag_def TblTagClassToBer_def
    tag_lead_def len_octets_def)

definition order_val :: AVal where
  "order_val = AStructVal
     [Some (AInt 5), None, Some (AChoiceVal 1 (Some (AOcts \<lparr>octetLen = 1, octs = [7]\<rparr>))), Some (AListVal [Some (AInt 1)])]"

definition order_octets :: "byte list" where
  "order_octets = [0x30, 0x0B, 2, 1, 5, 4, 1, 7, 0x30, 3, 2, 1, 1]"

lemma next_tag_short: "x AND 0x1f \<noteq> 0x1f \<Longrightarrow> next_tag (x # xs) = Some (push_bit 24 (ucast x))"
  by (simp add: next_tag_def tag_result_def)

lemma example_hdr:
  "hdr [u_tag CONS 16] [2, 1, 1] = [0x30, 3]"
  "hdr [u_tag CONS 16] [2, 1, 5, 4, 1, 7, 0x30, 3, 2, 1, 1] = [0x30, 0x0B]"
  "hdr [u_tag CONS 16] [] = [0x30, 0]"
  "hdr [u_tag ANY_FORM 4] [7] = [4, 1]"
  by (simp_all add: tag_bytes_def tag_octets_def tag_form_def u_tag_def TblTagClassToBer_def tag_lead_def len_octets_def)

lemma tag_values:
  "encTag (u_tag PRIM 2) = 0x02000000" "encTag (u_tag PRIM 1) = 0x01000000" "encTag (u_tag PRIM 5) = 0x05000000"
  "encTag (u_tag ANY_FORM 4) = 0x04000000" "encTag (u_tag CONS 16) = 0x30000000"
  "form (u_tag fm cd) = fm"
  by (simp_all add: u_tag_def MAKE_TAG_ID_def MAKE_TAG_ID_CODE_def MAKE_TAG_ID_CODE1_def)

lemma starts_simple:
  "r = TagsEquiv a (u_tag fm cd) \<Longrightarrow> starts tbl (simple_type i opt fm cd) a r"
  using simple_starts by simp

text \<open>Octets around an element, from the tags that are written for it.\<close>

lemma hdr_ok_one: "tag_ok tg \<Longrightarrow> hdr [tg] c = h \<Longrightarrow> length (h @ c) < 2 ^ 32 \<Longrightarrow> hdr_ok [tg] c"
  by (simp add: hdr_ok_def)

lemma type_sel:
  "open_tags key_type False = []" "typeId key_type = TBL_CHOICE" "no_tags key_type"
  "elmts_of key_type = Inr ([simple_type TBL_NULL False PRIM 5] @ simple_type TBL_OCTETSTRING False ANY_FORM 4 # [])"
  "open_tags items_type False = [u_tag CONS 16]" "typeId items_type \<in> {TBL_SEQUENCEOF, TBL_SETOF}"
  "tags_of items_type = u_tag CONS 16 # []" "elmts_of items_type = Inr (int_type # [])"
  "open_tags order_type False = [u_tag CONS 16]" "typeId order_type = TBL_SEQUENCE"
  "elmts_of order_type = Inr [int_type, simple_type TBL_BOOLEAN True PRIM 1, key_type, items_type]"
  by (simp_all add: key_type_def items_type_def order_type_def open_tags_def tags_of_def elmts_of_def no_tags_def)

lemma key_ber: "tbl_ber infs tbl (Suc d) h key_type False (AChoiceVal 1 (Some (AOcts \<lparr>octetLen = 1, octs = [7]\<rparr>))) [4, 1, 7] ys"
proof -
  let ?v = "AOcts \<lparr>octetLen = 1, octs = [7]\<rparr>" and ?e = "simple_type TBL_OCTETSTRING False ANY_FORM 4"
  have "prim_ber infs TBL_OCTETSTRING ?v (octs_val \<lparr>octetLen = 1, octs = [7]\<rparr>)"
    by (rule prim_ber.Octs) (simp add: octs_in_memory_def)
  then have p: "prim_ber infs TBL_OCTETSTRING ?v [7]" by (simp add: octs_val_def)
  have e: "tbl_ber infs tbl (Suc d) (last_tag key_type False h) ?e False ?v [4, 1, 7] ys"
    by (rule simple_ber [OF p u_tags(4)]) (simp_all only: example_hdr tag_values, simp_all add: TAG_IS_CONS_def)
  have ok: "hdr_ok (open_tags key_type False) [4, 1, 7]" by (simp add: type_sel hdr_ok_def)
  have st: "starts tbl ?e 0x04000000 True" "list_all (\<lambda>e. starts tbl e 0x04000000 False) [simple_type TBL_NULL False PRIM 5]"
    by (simp_all add: starts_simple TagsEquiv_def tag_values)
  have nt: "next_tag ([4, 1, 7] @ ys) = Some 0x04000000" by (simp add: next_tag_short)
  show ?thesis
    using tbl_ber_ber_fields_ber_members_ber_list.Choice [OF type_sel(2) type_sel(4) e nt st ok] by (simp add: type_sel(1))
qed

lemma items_ber: "tbl_ber infs tbl (Suc (Suc d)) h items_type False (AListVal [Some (AInt 1)]) [0x30, 3, 2, 1, 1] ys"
proof -
  have "ber_list infs tbl (Suc d) int_type ([Some (AInt 1)]) ([2, 1, 1] @ []) ys"
    by (intro List_element Empty_list int_ber int_octets_5) simp
  then have l: "ber_list infs tbl (Suc d) int_type [Some (AInt 1)] [2, 1, 1] ys" by simp
  have ok: "hdr_ok (open_tags items_type False) [2, 1, 1]"
    unfolding type_sel(5) by (rule hdr_ok_one [OF u_tags(2) example_hdr(1)]) simp
  have lt: "last_tag items_type False h \<noteq> None" by (simp add: last_tag_def type_sel)
  show ?thesis
    using tbl_ber_ber_fields_ber_members_ber_list.List [OF type_sel(6) type_sel(8) l lt ok]
    unfolding type_sel(5) example_hdr by simp
qed

lemma starts_key:
  "starts tbl key_type a (TagsEquiv a (u_tag PRIM 5) \<or> TagsEquiv a (u_tag ANY_FORM 4))"
  using starts.Untagged_choice [OF type_sel(2,3), of "[simple_type TBL_NULL False PRIM 5, simple_type TBL_OCTETSTRING False ANY_FORM 4]"
      tbl a "[TagsEquiv a (u_tag PRIM 5), TagsEquiv a (u_tag ANY_FORM 4)]"]
  by (auto simp: type_sel starts_simple)

lemma order_ber: "tbl_ber infs tbl (Suc (Suc (Suc d))) h order_type False order_val order_octets ys"
proof -
  let ?c = "[2, 1, 5, 4, 1, 7, 0x30, 3, 2, 1, 1] :: byte list"
  let ?items = "[0x30, 3, 2, 1, 1] :: byte list"
  note Field = tbl_ber_ber_fields_ber_members_ber_list.Field
  have st: "starts tbl items_type 0x30000000 True" "starts tbl int_type 0x02000000 True"
    "starts tbl (simple_type TBL_BOOLEAN True PRIM 1) 0x04000000 False" "starts tbl key_type 0x04000000 True"
    using starts.Tagged [OF type_sel(7), of tbl "0x30000000"] starts_key [of tbl "0x04000000"]
    by (simp_all add: int_type_def starts_simple TagsEquiv_def tag_values)
  have f1: "ber_fields infs tbl (Suc (Suc d)) [items_type] [Some (AListVal [Some (AInt 1)])] (?items @ []) ys"
    by (rule Field [OF items_ber _ st(1) No_fields]) (simp add: next_tag_short)
  have f2: "ber_fields infs tbl (Suc (Suc d)) [key_type, items_type]
      [Some (AChoiceVal 1 (Some (AOcts \<lparr>octetLen = 1, octs = [7]\<rparr>))), Some (AListVal [Some (AInt 1)])] ([4, 1, 7] @ (?items @ [])) ys"
    by (rule Field [OF key_ber _ st(4) f1]) (simp add: next_tag_short)
  have f3: "ber_fields infs tbl (Suc (Suc d)) [simple_type TBL_BOOLEAN True PRIM 1, key_type, items_type]
      [None, Some (AChoiceVal 1 (Some (AOcts \<lparr>octetLen = 1, octs = [7]\<rparr>))), Some (AListVal [Some (AInt 1)])]
      ([4, 1, 7] @ (?items @ [])) ys"
    by (rule Absent_field [OF _ _ st(3) f2]) (simp_all add: next_tag_short)
  have f4: "ber_fields infs tbl (Suc (Suc d)) [int_type, simple_type TBL_BOOLEAN True PRIM 1, key_type, items_type]
      [Some (AInt 5), None, Some (AChoiceVal 1 (Some (AOcts \<lparr>octetLen = 1, octs = [7]\<rparr>))), Some (AListVal [Some (AInt 1)])]
      ([2, 1, 5] @ ([4, 1, 7] @ (?items @ []))) ys"
    by (rule Field [OF int_ber [OF int_octets_5(1)] _ st(2) f3]) (simp add: next_tag_short)
  from f4 have f: "ber_fields infs tbl (Suc (Suc d)) [int_type, simple_type TBL_BOOLEAN True PRIM 1, key_type, items_type]
      [Some (AInt 5), None, Some (AChoiceVal 1 (Some (AOcts \<lparr>octetLen = 1, octs = [7]\<rparr>))), Some (AListVal [Some (AInt 1)])] ?c ys"
    by simp
  have ok: "hdr_ok (open_tags order_type False) ?c"
    unfolding type_sel(9) by (rule hdr_ok_one [OF u_tags(2) example_hdr(2)]) simp
  show ?thesis
    using tbl_ber_ber_fields_ber_members_ber_list.Sequence [OF type_sel(10,11) f ok]
    unfolding type_sel(9) example_hdr order_octets_def order_val_def by simp
qed

text \<open>\<open>Pair ::= SET \{ number INTEGER, flag BOOLEAN \}\<close>, \<open>Tail ::= SEQUENCE \{ number INTEGER OPTIONAL \}\<close>\<close>

definition pair_type :: TBLType where
  "pair_type = TBLType TBL_SET False (Some [u_tag CONS 17]) (Elmts [int_type, simple_type TBL_BOOLEAN False PRIM 1])"

definition tail_type :: TBLType where
  "tail_type = TBLType TBL_SEQUENCE False (Some [u_tag CONS 16]) (Elmts [simple_type TBL_INTEGER True PRIM 2])"

lemma int_starts: "starts tbl int_type 0x02000000 True"
  by (simp add: int_type_def starts_simple TagsEquiv_def tag_values)

lemma simple_int_starts: "starts tbl (simple_type TBL_INTEGER opt PRIM 2) 0x02000000 True"
  by (simp add: starts_simple TagsEquiv_def tag_values)

lemma simple_int_ber:
  "int_octets (sint x) = [c] \<Longrightarrow> tbl_ber infs tbl (Suc d) h (simple_type TBL_INTEGER opt PRIM 2) False (AInt x) [2, 1, c] ys"
  using prim_ber.Int [of TBL_INTEGER infs x] u_tags(1)
  by (intro simple_ber [where c = "[c]"]) (auto simp: tag_bytes_def tag_octets_def tag_form_def u_tag_def TblTagClassToBer_def
    tag_lead_def len_octets_def)

lemma pair_sel:
  "typeId pair_type = TBL_SET" "elmts_of pair_type = Inr [int_type, simple_type TBL_BOOLEAN False PRIM 1]"
  "\<not> optional int_type" "\<not> optional (simple_type TBL_BOOLEAN False PRIM 1)"
  "open_tags pair_type False = [u_tag CONS 17]" "hdr_ok [u_tag CONS 17] [2, 1, 5, 2, 1, 7]"
proof -
  have h: "hdr [u_tag CONS 17] [2, 1, 5, 2, 1, 7] = [0x31, 6]"
    by (simp add: tag_bytes_def tag_octets_def tag_form_def u_tag_def TblTagClassToBer_def tag_lead_def len_octets_def)
  have ok: "tag_ok (u_tag CONS 17)" by (simp add: tag_ok_def u_tag_def TblTagClassToBer_def tag_form_def)
  show "hdr_ok [u_tag CONS 17] [2, 1, 5, 2, 1, 7]" by (rule hdr_ok_one [OF ok h]) simp
qed (simp_all add: pair_type_def elmts_of_def int_type_def open_tags_def tags_of_def)

lemma tail_sel:
  "typeId tail_type = TBL_SEQUENCE" "elmts_of tail_type = Inr [simple_type TBL_INTEGER True PRIM 2]"
  "optional (simple_type TBL_INTEGER True PRIM 2)" "tags_of tail_type = [u_tag CONS 16]" "hdr_ok [u_tag CONS 16] []"
  using hdr_ok_one [OF u_tags(2) example_hdr(3)] by (simp_all add: tail_type_def elmts_of_def tags_of_def)

end
