(* ===== verification/Comp_Types.thy ===== *)
theory Comp_Types
  imports Asn_Tag
begin

text \<open>
  The compiler's view of ASN.1 types, from \<open>compiler/core/asn1module.h\<close>: what its passes over types look at. Type
  definitions are in a store, and a pointer to one is its index; a pointer to a type is the type. A reference has
  a link once it has been resolved. Of the information for the target languages only \<open>isPtr\<close> is kept, and whether
  there is any.
\<close>

datatype BasicTypeChoiceId =
  BASICTYPE_UNKNOWN | BASICTYPE_BOOLEAN | BASICTYPE_INTEGER | BASICTYPE_BITSTRING | BASICTYPE_OCTETSTRING
  | BASICTYPE_NULL | BASICTYPE_OID | BASICTYPE_REAL | BASICTYPE_ENUMERATED | BASICTYPE_COMPONENTSOF
  | BASICTYPE_ANY | BASICTYPE_ANYDEFINEDBY | BASICTYPE_MACROTYPE | BASICTYPE_MACRODEF
  | BASICTYPE_NUMERIC_STR | BASICTYPE_PRINTABLE_STR | BASICTYPE_UNIVERSAL_STR | BASICTYPE_IA5_STR | BASICTYPE_BMP_STR
  | BASICTYPE_UTF8_STR | BASICTYPE_UTCTIME | BASICTYPE_GENERALIZEDTIME | BASICTYPE_GRAPHIC_STR | BASICTYPE_VISIBLE_STR
  | BASICTYPE_GENERAL_STR | BASICTYPE_OBJECTDESCRIPTOR | BASICTYPE_VIDEOTEX_STR | BASICTYPE_T61_STR | BASICTYPE_EXTERNAL
  | BASICTYPE_OCTETCONTAINING | BASICTYPE_BITCONTAINING | BASICTYPE_RELATIVE_OID | BASICTYPE_EXTENSION
  | BASICTYPE_SEQUENCET | BASICTYPE_OBJECTCLASSFIELDTYPE

text \<open>A tag; the reference to its value is left out.\<close>

record Tag =
  tg_class :: BER_CLASS
  tg_form :: BER_FORM
  tg_code :: "32 word"
  tg_explicit :: bool

datatype Type =
  Type (t_optional: bool) (t_implicit: bool) (t_tags: "Tag list option") (t_default: bool)
    (cTypeRefInfo: "bool option") (cxxTypeRefInfo: "bool option") (basicType: BasicType)
and BasicType =
  BASICTYPE_SEQUENCE "Type list" | BASICTYPE_SEQUENCEOF Type | BASICTYPE_SET "Type list" | BASICTYPE_SETOF Type
  | BASICTYPE_CHOICE "Type list" | BASICTYPE_OBJECTCLASS "Type list" | BASICTYPE_SELECTION "Type option"
  | BASICTYPE_LOCALTYPEREF "nat option" | BASICTYPE_IMPORTTYPEREF "nat option"
  | BASICTYPE BasicTypeChoiceId

record TypeDef =
  definedName :: string
  type :: Type
  recursive :: bool
  localRefCount :: "32 word"
  cTypeDefInfo :: bool

type_synonym store = "TypeDef list"

text \<open>\<open>link->type\<close>, where the link may be null.\<close>

definition link_type :: "store \<Rightarrow> nat option \<Rightarrow> stop + Type" where
  "link_type tds p = (case p of Some i \<Rightarrow> if i < length tds then Inr (type (tds ! i)) else Inl Fault | None \<Rightarrow> Inl Fault)"

text \<open>The predicates of \<open>snacc-util.c\<close>. A SELECTION that is not linked is not primitive; the contents of types that no pass here looks into are left out.\<close>

fun IsPrimitiveByDef :: "Type \<Rightarrow> bool" where
  "IsPrimitiveByDef (Type op im ts df ci xi (BASICTYPE_SELECTION (Some t))) = IsPrimitiveByDef t"
| "IsPrimitiveByDef (Type op im ts df ci xi (BASICTYPE i)) \<longleftrightarrow>
     i \<notin> {BASICTYPE_SEQUENCET, BASICTYPE_OBJECTCLASSFIELDTYPE, BASICTYPE_COMPONENTSOF, BASICTYPE_ANYDEFINEDBY, BASICTYPE_ANY,
       BASICTYPE_UNKNOWN, BASICTYPE_MACROTYPE, BASICTYPE_MACRODEF, BASICTYPE_EXTERNAL,
       BASICTYPE_OCTETCONTAINING, BASICTYPE_BITCONTAINING, BASICTYPE_EXTENSION}"
| "IsPrimitiveByDef _ \<longleftrightarrow> False"

definition IsTypeRef :: "Type \<Rightarrow> bool" where
  "IsTypeRef t = (case basicType t of BASICTYPE_LOCALTYPEREF _ \<Rightarrow> True | BASICTYPE_IMPORTTYPEREF _ \<Rightarrow> True | _ \<Rightarrow> False)"

definition IsDefinedByLibraryType :: "Type \<Rightarrow> bool" where
  "IsDefinedByLibraryType t \<longleftrightarrow>
     (if IsPrimitiveByDef t then True
      else (case basicType t of BASICTYPE i \<Rightarrow> i \<in> {BASICTYPE_ANYDEFINEDBY, BASICTYPE_ANY} | _ \<Rightarrow> False))"

end
