(* ===== verification/Comp_Rec.thy ===== *)
theory Comp_Rec
  imports Comp_Types
begin

text \<open>
  Finding recursive types: \<open>compiler/core/recursive.c\<close>. The search follows references from a type definition and
  marks it when it meets it again; \<open>tmpRefCount\<close> marks the definitions the search is within, here a set of
  pointers. It ends because there are only so many definitions to enter, and it is exact.
\<close>

section \<open>The search\<close>

datatype rec_warning = Circular_references | Infinitely_sized

text \<open>The result: whether \<open>td\<close> has been marked, and the warnings printed.\<close>

type_synonym rec_result = "stop + bool \<times> rec_warning list"

definition both :: "rec_result \<Rightarrow> rec_result \<Rightarrow> rec_result" where
  "both x y = (case x of Inl e \<Rightarrow> Inl e | Inr (r, ws) \<Rightarrow>
     (case y of Inl e \<Rightarrow> Inl e | Inr (r', ws') \<Rightarrow> Inr (r \<or> r', ws @ ws')))"

lemma enter_less: "i < length (tds :: store) \<Longrightarrow> i \<notin> E \<Longrightarrow> card ({..<length tds} - E) - Suc 0 < card ({..<length tds} - E)"
  by (metis DiffI card_gt_0_iff diff_Suc_less empty_iff finite_Diff finite_lessThan lessThan_iff)

text \<open>
  \<open>MkRec_elmts\<close> is the loop over elements; in a SET or SEQUENCE (\<open>sq\<close>) an element may be optional. \<open>MkRec_ref\<close>
  is the case of a reference, from a type that is optional or has a default (\<open>tOpt\<close>).
\<close>

function (sequential) MkRecType :: "store \<Rightarrow> nat \<Rightarrow> nat set \<Rightarrow> bool \<Rightarrow> bool \<Rightarrow> Type \<Rightarrow> rec_result"
  and MkRec_elmts :: "store \<Rightarrow> nat \<Rightarrow> nat set \<Rightarrow> bool \<Rightarrow> bool \<Rightarrow> bool \<Rightarrow> Type list \<Rightarrow> rec_result"
  and MkRec_ref :: "store \<Rightarrow> nat \<Rightarrow> nat set \<Rightarrow> bool \<Rightarrow> bool \<Rightarrow> bool \<Rightarrow> nat option \<Rightarrow> rec_result" where
  "MkRecType tds td entered opt empt (Type op im ts df ci xi bt) =
     (case bt of
        BASICTYPE_CHOICE es \<Rightarrow>
          (if length es > 1 then MkRec_elmts tds td entered False True False es
           else MkRec_elmts tds td entered False opt empt es)
      | BASICTYPE_SET es \<Rightarrow> MkRec_elmts tds td entered True opt False es
      | BASICTYPE_SEQUENCE es \<Rightarrow> MkRec_elmts tds td entered True opt False es
      | BASICTYPE_SETOF t \<Rightarrow> MkRecType tds td entered True False t
      | BASICTYPE_SEQUENCEOF t \<Rightarrow> MkRecType tds td entered True False t
      | BASICTYPE_LOCALTYPEREF p \<Rightarrow> MkRec_ref tds td entered opt empt (op \<or> df) p
      | BASICTYPE_IMPORTTYPEREF p \<Rightarrow> MkRec_ref tds td entered opt empt (op \<or> df) p
      | _ \<Rightarrow> Inr (False, []))"
| "MkRec_elmts tds td entered sq opt empt [] = Inr (False, [])"
| "MkRec_elmts tds td entered sq opt empt (e # es) =
     both (MkRecType tds td entered (opt \<or> sq \<and> (t_optional e \<or> t_default e)) empt e)
       (MkRec_elmts tds td entered sq opt empt es)"
| "MkRec_ref tds td entered opt empt tOpt None = Inl Fault"
| "MkRec_ref tds td entered opt empt tOpt (Some i) =
     (if i = td then Inr (True, if empt then [Circular_references] else if \<not> opt then [Infinitely_sized] else [])
      else if i \<in> entered then Inr (False, [])
      else if i < length tds then MkRecType tds td (insert i entered) (opt \<or> tOpt) empt (type (tds ! i))
      else Inl Fault)"
  by pat_completeness auto
termination
proof (relation "measures [\<lambda>x. case x of Inl (tds, td, ent, _) \<Rightarrow> card ({..<length tds} - ent)
      | Inr (Inl (tds, td, ent, _)) \<Rightarrow> card ({..<length tds} - ent)
      | Inr (Inr (tds, td, ent, _)) \<Rightarrow> card ({..<length tds} - ent),
    \<lambda>x. case x of Inl (_, _, _, _, _, t) \<Rightarrow> size t | Inr (Inl (_, _, _, _, _, _, es)) \<Rightarrow> size_list size es | Inr (Inr _) \<Rightarrow> 0]")
qed (simp_all add: enter_less)

declare MkRecType.simps [simp del]

definition MkRecTypeDef :: "store \<Rightarrow> nat \<Rightarrow> rec_result" where
  "MkRecTypeDef tds td = (case link_type tds (Some td) of Inl e \<Rightarrow> Inl e | Inr t \<Rightarrow> MkRecType tds td {} False True t)"

text \<open>The loop over the type definitions of a module.\<close>

primrec MarkRecursiveTypes :: "store \<Rightarrow> nat list \<Rightarrow> stop + store \<times> rec_warning list" where
  "MarkRecursiveTypes tds [] = Inr (tds, [])"
| "MarkRecursiveTypes tds (td # typeDefs) =
     (case MkRecTypeDef tds td of
        Inl e \<Rightarrow> Inl e
      | Inr (r, ws) \<Rightarrow>
          map_sum id (\<lambda>(tds, ws'). (tds, ws @ ws'))
            (MarkRecursiveTypes (if r then tds[td := (tds ! td)\<lparr>recursive := True\<rparr>] else tds) typeDefs))"

section \<open>The search is exact\<close>

text \<open>The references of a type that the search follows.\<close>

fun type_refs :: "Type \<Rightarrow> nat option list" and elmts_refs :: "Type list \<Rightarrow> nat option list" where
  "type_refs (Type op im ts df ci xi bt) =
     (case bt of
        BASICTYPE_CHOICE es \<Rightarrow> elmts_refs es | BASICTYPE_SET es \<Rightarrow> elmts_refs es | BASICTYPE_SEQUENCE es \<Rightarrow> elmts_refs es
      | BASICTYPE_SETOF t \<Rightarrow> type_refs t | BASICTYPE_SEQUENCEOF t \<Rightarrow> type_refs t
      | BASICTYPE_LOCALTYPEREF p \<Rightarrow> [p] | BASICTYPE_IMPORTTYPEREF p \<Rightarrow> [p] | _ \<Rightarrow> [])"
| "elmts_refs [] = []"
| "elmts_refs (e # es) = type_refs e @ elmts_refs es"

declare type_refs.simps [simp del]

definition linked :: "store \<Rightarrow> nat option list \<Rightarrow> bool" where
  "linked tds ps \<longleftrightarrow> list_all (\<lambda>p. case p of Some i \<Rightarrow> i < length tds | None \<Rightarrow> False) ps"

definition all_linked :: "store \<Rightarrow> bool" where
  "all_linked tds \<longleftrightarrow> list_all (\<lambda>d. linked tds (type_refs (type d))) tds"

text \<open>References between definitions, and those that do not lead into \<open>E\<close>, but possibly to \<open>td\<close>.\<close>

definition ref_step :: "store \<Rightarrow> (nat \<times> nat) set" where
  "ref_step tds = {(i, j). i < length tds \<and> Some j \<in> set (type_refs (type (tds ! i)))}"

definition avoiding :: "store \<Rightarrow> nat \<Rightarrow> nat set \<Rightarrow> (nat \<times> nat) set" where
  "avoiding tds td E = {(i, j) \<in> ref_step tds. j \<notin> E \<or> j = td}"

definition found :: "store \<Rightarrow> nat \<Rightarrow> nat set \<Rightarrow> nat option list \<Rightarrow> bool" where
  "found tds td E ps \<longleftrightarrow> (\<exists>j. Some j \<in> set ps \<and> (j \<notin> E \<or> j = td) \<and> (j, td) \<in> (avoiding tds td E)\<^sup>*)"

lemma found_simps [simp]:
  "\<not> found tds td E []" "found tds td E (ps @ qs) \<longleftrightarrow> found tds td E ps \<or> found tds td E qs"
  "linked tds (ps @ qs) \<longleftrightarrow> linked tds ps \<and> linked tds qs"
  by (auto simp: found_def linked_def)

text \<open>Leaving out all but the last visit of \<open>i\<close>.\<close>

lemma last_visit:
  assumes "(x, td) \<in> (avoiding tds td E)\<^sup>*"
  shows "(x, td) \<in> (avoiding tds td (insert i E))\<^sup>* \<or> (i, td) \<in> (avoiding tds td (insert i E))\<^sup>*"
  using assms
proof (induction rule: converse_rtrancl_induct)
  case (step x y)
  show ?case
  proof (cases "y = i \<and> y \<noteq> td")
    case False
    with step.hyps(1) have "(x, y) \<in> avoiding tds td (insert i E)" by (auto simp: avoiding_def)
    with step.IH show ?thesis by (auto intro: converse_rtrancl_into_rtrancl)
  qed (use step.IH in auto)
qed simp

lemma found_enter:
  assumes "i < length tds" and "i \<notin> E" and "i \<noteq> td"
  shows "found tds td E [Some i] \<longleftrightarrow> found tds td (insert i E) (type_refs (type (tds ! i)))"
proof
  assume "found tds td E [Some i]"
  then have "(i, td) \<in> (avoiding tds td E)\<^sup>*" by (auto simp: found_def)
  from last_visit [OF this, of i] have "(i, td) \<in> (avoiding tds td (insert i E))\<^sup>*" by blast
  with assms(3) obtain j where "(i, j) \<in> avoiding tds td (insert i E)" "(j, td) \<in> (avoiding tds td (insert i E))\<^sup>*"
    by (meson converse_rtranclE)
  then show "found tds td (insert i E) (type_refs (type (tds ! i)))"
    by (auto simp: found_def avoiding_def ref_step_def)
next
  have sub: "(avoiding tds td (insert i E))\<^sup>* \<subseteq> (avoiding tds td E)\<^sup>*" by (rule rtrancl_mono) (auto simp: avoiding_def)
  assume "found tds td (insert i E) (type_refs (type (tds ! i)))"
  then obtain j where j: "Some j \<in> set (type_refs (type (tds ! i)))" "j \<notin> insert i E \<or> j = td"
    "(j, td) \<in> (avoiding tds td E)\<^sup>*" using sub by (auto simp: found_def)
  then have "(i, j) \<in> avoiding tds td E" using assms(1) by (auto simp: avoiding_def ref_step_def)
  with j(3) assms show "found tds td E [Some i]" by (auto simp: found_def intro: converse_rtrancl_into_rtrancl)
qed

definition exact :: "rec_result \<Rightarrow> bool \<Rightarrow> bool" where
  "exact x b \<longleftrightarrow> (\<exists>ws. x = Inr (b, ws))"

lemma exact_simps [simp]: "exact (Inr (r, ws)) b \<longleftrightarrow> r = b" "\<not> exact (Inl e) b"
  by (auto simp: exact_def)

lemma exact_both: "exact x b \<Longrightarrow> exact y c \<Longrightarrow> exact (both x y) (b \<or> c)"
  by (auto simp: exact_def both_def)

lemma MkRecType_exact:
  assumes "all_linked tds"
  shows "linked tds (type_refs t) \<Longrightarrow> exact (MkRecType tds td E opt empt t) (found tds td E (type_refs t))"
    and "linked tds (elmts_refs es) \<Longrightarrow> exact (MkRec_elmts tds td E sq opt empt es) (found tds td E (elmts_refs es))"
    and "linked tds [p] \<Longrightarrow> exact (MkRec_ref tds td E opt empt tOpt p) (found tds td E [p])"
  using assms
proof (induction tds td E opt empt t and tds td E sq opt empt es and tds td E opt empt tOpt p
    rule: MkRecType_MkRec_elmts_MkRec_ref.induct)
  case (1 tds td E opt empt op im ts df ci xi bt)
  then show ?case by (cases bt) (auto simp: MkRecType.simps type_refs.simps)
next
  case (3 tds td E sq opt empt e es)
  then show ?case by (auto intro: exact_both)
next
  case (5 tds td E opt empt tOpt i)
  show ?case
  proof (cases "i = td \<or> i \<in> E")
    case True
    then show ?thesis by (auto simp: found_def)
  next
    case False
    have i: "i < length tds" using "5.prems"(1) by (simp add: linked_def)
    then have "linked tds (type_refs (type (tds ! i)))" using "5.prems"(2) by (simp add: all_linked_def list_all_length)
    with "5.IH" "5.prems"(2) False i found_enter [of i tds E td] show ?thesis by simp
  qed
qed (simp_all add: linked_def)

lemma avoiding_nothing: "avoiding tds td {} = ref_step tds"
  by (auto simp: avoiding_def)

theorem MkRecTypeDef_exact:
  assumes "all_linked tds" and "td < length tds"
  shows "exact (MkRecTypeDef tds td) ((td, td) \<in> (ref_step tds)\<^sup>+)"
proof -
  have "linked tds (type_refs (type (tds ! td)))" using assms by (simp add: all_linked_def list_all_length)
  moreover have "found tds td {} (type_refs (type (tds ! td))) \<longleftrightarrow> (td, td) \<in> (ref_step tds)\<^sup>+"
    using assms(2) by (auto simp: found_def avoiding_nothing trancl_unfold_left ref_step_def)
  ultimately show ?thesis using MkRecType_exact(1) [OF assms(1), of "type (tds ! td)" td "{}" False True] assms(2)
    by (simp add: MkRecTypeDef_def link_type_def)
qed

section \<open>Marking the definitions of a module\<close>

definition mark_all :: "store \<Rightarrow> nat set \<Rightarrow> store" where
  "mark_all tds M = map (\<lambda>i. if i \<in> M then (tds ! i)\<lparr>recursive := True\<rparr> else tds ! i) [0..<length tds]"

lemma mark_all_sel [simp]:
  "length (mark_all tds M) = length tds" "i < length tds \<Longrightarrow> type (mark_all tds M ! i) = type (tds ! i)"
  by (simp_all add: mark_all_def)

lemma mark_all_same: "ref_step (mark_all tds M) = ref_step tds" "all_linked (mark_all tds M) = all_linked tds"
  by (auto simp: ref_step_def all_linked_def linked_def list_all_length cong: option.case_cong)

lemma mark_all_simps:
  "mark_all tds {} = tds" "td < length tds \<Longrightarrow> tds[td := (tds ! td)\<lparr>recursive := True\<rparr>] = mark_all tds {td}"
  "mark_all (mark_all tds A) B = mark_all tds (A \<union> B)"
  by (rule nth_equalityI; simp add: mark_all_def nth_list_update)+

theorem MarkRecursiveTypes_exact:
  assumes "all_linked tds" and "list_all (\<lambda>p. p < length tds) ps"
  shows "\<exists>ws. MarkRecursiveTypes tds ps = Inr (mark_all tds {p \<in> set ps. (p, p) \<in> (ref_step tds)\<^sup>+}, ws)"
  using assms
proof (induction ps arbitrary: tds)
  case Nil
  then show ?case by (simp add: mark_all_simps)
next
  case (Cons p ps)
  let ?r = "(p, p) \<in> (ref_step tds)\<^sup>+" and ?M = "\<lambda>ps. {p \<in> set ps. (p, p) \<in> (ref_step tds)\<^sup>+}"
  from Cons.prems have p: "p < length tds" by simp
  from MkRecTypeDef_exact [OF Cons.prems(1) p] obtain ws where ws: "MkRecTypeDef tds p = Inr (?r, ws)"
    by (auto simp: exact_def)
  define tds' where "tds' = mark_all tds (if ?r then {p} else {})"
  have t: "(if ?r then tds[p := (tds ! p)\<lparr>recursive := True\<rparr>] else tds) = tds'"
    using p by (simp add: tds'_def mark_all_simps)
  obtain ws' where "MarkRecursiveTypes tds' ps = Inr (mark_all tds' (?M ps), ws')"
    using Cons.IH [of tds'] Cons.prems by (auto simp: tds'_def mark_all_same)
  moreover have "mark_all tds' (?M ps) = mark_all tds (?M (p # ps))"
    unfolding tds'_def mark_all_simps(3) by (rule arg_cong [where f = "mark_all tds"]) auto
  ultimately show ?case using ws t by simp
qed

end
