(* ===== verification/Comp_Sort.thy ===== *)
theory Comp_Sort
  imports Comp_Rec "HOL-Library.Multiset"
begin

text \<open>
  Sorting type definitions so that a definition comes after those it depends on: \<open>compiler/core/dependency.c\<close>. A
  list of type definitions is a list of pointers into the store. The member \<open>refList\<close> of the definitions being
  sorted is a function from pointers to lists of pointers.
\<close>

section \<open>The code\<close>

text \<open>\<open>FOR_EACH_LIST_ELMT\<close> ends at a null pointer in the list.\<close>

definition elmts_up_to_null :: "'a option list \<Rightarrow> 'a list" where
  "elmts_up_to_null ps = map the (takeWhile (\<lambda>p. p \<noteq> None) ps)"

text \<open>The references appended to \<open>refList\<close>; the second function is the loop over elements.\<close>

fun BuildLocalRefList :: "Type \<Rightarrow> nat option list" and local_refs :: "Type list \<Rightarrow> nat option list" where
  "BuildLocalRefList (Type op im ts df ci xi bt) =
     (case bt of
        BASICTYPE_CHOICE es \<Rightarrow> local_refs es | BASICTYPE_SET es \<Rightarrow> local_refs es | BASICTYPE_SEQUENCE es \<Rightarrow> local_refs es
      | BASICTYPE_OBJECTCLASS es \<Rightarrow> local_refs es
      | BASICTYPE_SETOF t \<Rightarrow> BuildLocalRefList t | BASICTYPE_SEQUENCEOF t \<Rightarrow> BuildLocalRefList t
      | BASICTYPE_LOCALTYPEREF p \<Rightarrow> [p] | _ \<Rightarrow> [])"
| "local_refs [] = []"
| "local_refs (e # es) = BuildLocalRefList e @ local_refs es"

fun BuildWeightedLocalRefList :: "Type \<Rightarrow> nat option list" and weighted_refs :: "Type list \<Rightarrow> nat option list" where
  "BuildWeightedLocalRefList (Type op im ts df ci xi bt) =
     (case bt of
        BASICTYPE_CHOICE es \<Rightarrow> weighted_refs es | BASICTYPE_SET es \<Rightarrow> weighted_refs es
      | BASICTYPE_SEQUENCE es \<Rightarrow> weighted_refs es
      | BASICTYPE_SETOF t \<Rightarrow> if ci = None then BuildWeightedLocalRefList t else []
      | BASICTYPE_SEQUENCEOF t \<Rightarrow> if ci = None then BuildWeightedLocalRefList t else []
      | BASICTYPE_LOCALTYPEREF p \<Rightarrow> if xi = Some False \<or> ci = Some False then [p] else []
      | _ \<Rightarrow> [])"
| "weighted_refs [] = []"
| "weighted_refs (e # es) = BuildWeightedLocalRefList e @ weighted_refs es"

declare BuildLocalRefList.simps [simp del] BuildWeightedLocalRefList.simps [simp del]

fun elmt_index :: "nat \<Rightarrow> int \<Rightarrow> nat list \<Rightarrow> int" where
  "elmt_index td i [] = - 1"
| "elmt_index td i (x # xs) = (if x = td then i else elmt_index td (i + 1) xs)"

definition GetElmtIndex :: "nat \<Rightarrow> nat list \<Rightarrow> int" where
  "GetElmtIndex td tdl = elmt_index td 0 tdl"

type_synonym ref_lists = "nat \<Rightarrow> nat option list"

definition must_stay :: "ref_lists \<Rightarrow> nat \<Rightarrow> nat list \<Rightarrow> bool" where
  "must_stay refList currTd tdl \<longleftrightarrow>
     list_ex (\<lambda>tdRef. tdRef \<noteq> currTd \<and> GetElmtIndex tdRef tdl \<ge> 0) (elmts_up_to_null (refList currTd))"

text \<open>One pass over the list: \<open>kept\<close> are the definitions passed and left in it, the third list is the rest. The result is
  \<open>(subList, tdl)\<close>.\<close>

primrec sort_pass :: "ref_lists \<Rightarrow> nat \<Rightarrow> nat list \<Rightarrow> nat list \<Rightarrow> nat list \<Rightarrow> nat list \<times> nat list" where
  "sort_pass refList lst kept [] subList = (subList, kept)"
| "sort_pass refList lst kept (currTd # tds) subList =
     (let keep = must_stay refList currTd (kept @ currTd # tds);
          kept = (if keep then kept @ [currTd] else kept);
          subList = (if keep then subList else subList @ [currTd])
      in if currTd = lst then (subList, kept @ tds) else sort_pass refList lst kept tds subList)"

lemma sort_pass_length:
  "length (fst (sort_pass refList lst kept tds sub)) + length (snd (sort_pass refList lst kept tds sub)) =
     length sub + length kept + length tds"
  by (induction tds arbitrary: kept sub) (auto simp: Let_def)

lemma sort_pass_prefix: "\<exists>new. fst (sort_pass refList lst kept tds sub) = sub @ new"
  by (induction tds arbitrary: kept sub) (auto simp: Let_def, metis append.assoc)

lemma sort_pass_shrinks:
  assumes "sort_pass refList lst [] tdl sub = (sub', tdl')"
  shows "length tdl' < length tdl \<or> length tdl' = length tdl \<and> sub' = sub"
proof -
  obtain new where "sub' = sub @ new" using sort_pass_prefix [of refList lst "[]" tdl sub] assms by (metis fst_conv)
  moreover have "length sub' + length tdl' = length sub + length tdl"
    using sort_pass_length [of refList lst "[]" tdl sub] by (simp add: assms)
  ultimately show ?thesis by (cases new) auto
qed

text \<open>The passes go on as long as the last one has moved something.\<close>

function sort_passes :: "ref_lists \<Rightarrow> int \<Rightarrow> nat list \<Rightarrow> nat list \<Rightarrow> nat list \<times> nat list" where
  "sort_passes refList lastSLCount subList tdl =
     (if int (length subList) > lastSLCount \<and> tdl \<noteq> [] then
        (case sort_pass refList (last tdl) [] tdl subList of
           (subList', tdl') \<Rightarrow> sort_passes refList (int (length subList)) subList' tdl')
      else (subList, tdl))"
  by pat_completeness auto
termination
proof (relation "measures [\<lambda>(refList, lastSLCount, subList, tdl). length tdl,
    \<lambda>(refList, lastSLCount, subList, tdl). if int (length subList) > lastSLCount then 1 else 0]")
qed (auto split: prod.split dest: sort_pass_shrinks)

declare sort_passes.simps [simp del]

definition RemoveAndSortIndependents :: "ref_lists \<Rightarrow> nat list \<Rightarrow> nat list \<times> nat list" where
  "RemoveAndSortIndependents refList tdl = (if tdl = [] then ([], []) else sort_passes refList (- 1) [] tdl)"

text \<open>A loop that moves the elements with a property to another list, up to the element \<open>lst\<close>: what has been moved, and
  what is left.\<close>

primrec move_up_to :: "(nat \<Rightarrow> bool) \<Rightarrow> nat \<Rightarrow> nat list \<Rightarrow> nat list \<times> nat list" where
  "move_up_to P lst [] = ([], [])"
| "move_up_to P lst (x # xs) =
     (let (moved, left) = (if x = lst then ([], xs) else move_up_to P lst xs)
      in if P x then (x # moved, left) else (moved, x # left))"

definition is_list :: "Type \<Rightarrow> bool" where
  "is_list t = (case basicType t of BASICTYPE_SETOF _ \<Rightarrow> True | BASICTYPE_SEQUENCEOF _ \<Rightarrow> True | _ \<Rightarrow> False)"

text \<open>The result is the list sorted, and whether the message about an internal compiler error has been printed.\<close>

definition SortTypeDefs :: "store \<Rightarrow> ref_lists \<Rightarrow> nat list \<Rightarrow> nat list \<times> bool" where
  "SortTypeDefs tds refList tdl =
     (if tdl = [] then (tdl, False)
      else case RemoveAndSortIndependents refList tdl of (subList, tdl) \<Rightarrow>
        if tdl = [] then (subList, False)
        else case move_up_to (\<lambda>td. \<not> recursive (tds ! td)) (last tdl) tdl of (nonRec, tdl) \<Rightarrow>
          case RemoveAndSortIndependents refList nonRec of (sortedNonRec, nonRec) \<Rightarrow>
          case move_up_to (\<lambda>td. cTypeDefInfo (tds ! td) \<and> is_list (type (tds ! td))) (last tdl) tdl of (cLists, tdl) \<Rightarrow>
          case RemoveAndSortIndependents (\<lambda>td. BuildWeightedLocalRefList (type (tds ! td))) tdl of (sortedRec, tdl) \<Rightarrow>
            (subList @ cLists @ sortedRec @ tdl @ sortedNonRec @ nonRec, nonRec \<noteq> []))"

text \<open>The loop that puts each definition in one of the lists \<open>prims\<close>, \<open>noRefs\<close>, \<open>refs\<close> and \<open>notRefd\<close>.\<close>

fun put_in_groups :: "store \<Rightarrow> nat list \<Rightarrow> nat list \<times> nat list \<times> nat list \<times> nat list" where
  "put_in_groups tds [] = ([], [], [], [])"
| "put_in_groups tds (td # typeDefs) =
     (case put_in_groups tds typeDefs of (prims, noRefs, refs, notRefd) \<Rightarrow>
        if IsDefinedByLibraryType (type (tds ! td)) then (td # prims, noRefs, refs, notRefd)
        else if localRefCount (tds ! td) = 0 then (prims, noRefs, refs, td # notRefd)
        else if BuildLocalRefList (type (tds ! td)) = [] then (prims, td # noRefs, refs, notRefd)
        else (prims, noRefs, td # refs, notRefd))"

definition SortTypeDependencies :: "store \<Rightarrow> nat list \<Rightarrow> nat list \<times> bool" where
  "SortTypeDependencies tds typeDefs =
     (case put_in_groups tds typeDefs of (prims, noRefs, refs, notRefd) \<Rightarrow>
      case SortTypeDefs tds (\<lambda>td. BuildLocalRefList (type (tds ! td))) refs of (refs, err) \<Rightarrow>
        (prims @ noRefs @ refs @ notRefd, err))"

text \<open>The type definitions of all modules.\<close>

definition SortAllDependencies :: "store \<Rightarrow> nat list list \<Rightarrow> (nat list \<times> bool) list" where
  "SortAllDependencies tds modList = map (SortTypeDependencies tds) modList"

section \<open>Sorting what can be sorted\<close>

text \<open>
  \<open>ordered R S xs\<close>: of the definitions \<open>S\<close> that are still to come, the next one in \<open>xs\<close> refers to none but itself.
\<close>

definition targets :: "ref_lists \<Rightarrow> nat \<Rightarrow> nat set" where
  "targets refList td = set (elmts_up_to_null (refList td))"

primrec ordered :: "(nat \<Rightarrow> nat set) \<Rightarrow> nat set \<Rightarrow> nat list \<Rightarrow> bool" where
  "ordered R S [] \<longleftrightarrow> True"
| "ordered R S (x # xs) \<longleftrightarrow> R x \<inter> S \<subseteq> {x} \<and> ordered R (S - {x}) xs"

lemma ordered_append: "ordered R S (xs @ ys) \<longleftrightarrow> ordered R S xs \<and> ordered R (S - set xs) ys"
  by (induction xs arbitrary: S) (auto simp: Diff_insert2 [symmetric] insert_commute)

lemma ordered_mono: "ordered R S xs \<Longrightarrow> S' \<subseteq> S \<Longrightarrow> ordered R S' xs"
  by (induction xs arbitrary: S S') (auto, meson Diff_mono order_refl)

text \<open>So what a definition refers to comes before it.\<close>

lemma ordered_before: "ordered R S (xs @ x # ys) \<Longrightarrow> r \<in> R x \<Longrightarrow> r \<in> S \<Longrightarrow> r \<noteq> x \<Longrightarrow> r \<in> set xs"
  by (auto simp: ordered_append)

lemma elmt_index_iff: "0 \<le> i \<Longrightarrow> 0 \<le> elmt_index td i xs \<longleftrightarrow> td \<in> set xs"
  by (induction xs arbitrary: i) auto

lemma must_stay_iff: "must_stay refList c tdl \<longleftrightarrow> \<not> targets refList c \<inter> set tdl \<subseteq> {c}"
  by (auto simp: must_stay_def targets_def list_ex_iff GetElmtIndex_def elmt_index_iff)

lemma sort_pass_sorts:
  assumes "distinct (kept @ tds)" and "tds \<noteq> []" and "lst = last tds"
  shows "\<exists>new tdl. sort_pass refList lst kept tds sub = (sub @ new, tdl) \<and> mset new + mset tdl = mset (kept @ tds) \<and>
    ordered (targets refList) (set (kept @ tds)) new \<and>
    (new = [] \<longrightarrow> (\<forall>c\<in>set tds. must_stay refList c (kept @ tds)))"
  using assms
proof (induction tds arbitrary: kept sub)
  case (Cons c tds)
  let ?tdl = "kept @ c # tds"
  show ?case
  proof (cases "tds = []")
    case True
    with Cons.prems show ?thesis
      by (auto simp: Let_def must_stay_iff)
  next
    case False
    with Cons.prems have l: "lst = last tds" "c \<noteq> lst" by auto
    show ?thesis
    proof (cases "must_stay refList c ?tdl")
      case True
      have "distinct ((kept @ [c]) @ tds)" using Cons.prems(1) by auto
      from Cons.IH [OF this False l(1), of sub] obtain new tdl where
        "sort_pass refList lst (kept @ [c]) tds sub = (sub @ new, tdl)" "mset new + mset tdl = mset ((kept @ [c]) @ tds)"
        "ordered (targets refList) (set ((kept @ [c]) @ tds)) new"
        "new = [] \<longrightarrow> (\<forall>x\<in>set tds. must_stay refList x ((kept @ [c]) @ tds))" by blast
      with True l(2) show ?thesis by (intro exI [of _ new] exI [of _ tdl]) auto
    next
      case False': False
      have "distinct (kept @ tds)" using Cons.prems(1) by auto
      from Cons.IH [OF this False l(1), of "sub @ [c]"] obtain new tdl where
        new: "sort_pass refList lst kept tds (sub @ [c]) = ((sub @ [c]) @ new, tdl)" "mset new + mset tdl = mset (kept @ tds)"
        "ordered (targets refList) (set (kept @ tds)) new" by blast
      have "set ?tdl - {c} = set (kept @ tds)" using Cons.prems(1) by auto
      with new False' l(2) show ?thesis
        by (intro exI [of _ "c # new"] exI [of _ tdl]) (auto simp: must_stay_iff)
    qed
  qed
qed simp

text \<open>Every definition left refers to another one left.\<close>

definition stuck :: "ref_lists \<Rightarrow> nat list \<Rightarrow> bool" where
  "stuck refList tdl \<longleftrightarrow> (\<forall>c\<in>set tdl. must_stay refList c tdl)"

lemma sort_passes_sort:
  assumes "distinct tdl" and "int (length sub) \<le> lst \<Longrightarrow> stuck refList tdl"
  shows "\<exists>new tdl'. sort_passes refList lst sub tdl = (sub @ new, tdl') \<and> mset new + mset tdl' = mset tdl \<and>
    ordered (targets refList) (set tdl) new \<and> stuck refList tdl'"
  using assms
proof (induction refList lst sub tdl rule: sort_passes.induct)
  case (1 refList lst sub tdl)
  show ?case
  proof (cases "lst < int (length sub) \<and> tdl \<noteq> []")
    case False
    with "1.prems" show ?thesis by (subst sort_passes.simps) (auto simp: stuck_def)
  next
    case True
    from sort_pass_sorts [of "[]" tdl "last tdl" refList sub] "1.prems"(1) True obtain new tdl' where
      pass: "sort_pass refList (last tdl) [] tdl sub = (sub @ new, tdl')" "mset new + mset tdl' = mset tdl"
      "ordered (targets refList) (set tdl) new" "new = [] \<longrightarrow> (\<forall>c\<in>set tdl. must_stay refList c tdl)" by auto
    have "distinct (new @ tdl')" using "1.prems"(1) pass(2) by (metis mset_append mset_eq_imp_distinct_iff)
    then have d: "distinct tdl'" and diff: "set tdl - set new = set tdl'"
      using mset_eq_setD [OF pass(2) [folded mset_append]] by auto
    have st: "stuck refList tdl'" if "int (length (sub @ new)) \<le> int (length sub)"
    proof -
      have "new = []" using that by simp
      moreover from this pass(2) have "set tdl' = set tdl" by (metis add_0 mset.simps(1) mset_eq_setD)
      ultimately show ?thesis using pass(4) by (simp add: stuck_def must_stay_iff)
    qed
    from "1.IH" [OF True pass(1) [symmetric] d st] obtain new' tdl'' where
      ih: "sort_passes refList (int (length sub)) (sub @ new) tdl' = ((sub @ new) @ new', tdl'')"
      "mset new' + mset tdl'' = mset tdl'" "ordered (targets refList) (set tdl') new'" "stuck refList tdl''" by blast
    note ih
    moreover from ih(2) pass(2) have "mset new + mset new' + mset tdl'' = mset tdl" by (simp add: add.assoc)
    ultimately show ?thesis using True pass diff
      by (subst sort_passes.simps) (auto simp: ordered_append intro!: exI [of _ "new @ new'"])
  qed
qed

theorem RemoveAndSortIndependents_sorts:
  assumes "distinct tdl"
  shows "\<exists>sub tdl'. RemoveAndSortIndependents refList tdl = (sub, tdl') \<and> mset sub + mset tdl' = mset tdl \<and>
    ordered (targets refList) (set tdl) sub \<and> stuck refList tdl'"
  using sort_passes_sort [OF assms, of "[]" "- 1" refList] by (auto simp: RemoveAndSortIndependents_def stuck_def)

text \<open>Definitions that are stuck refer to each other in a circle.\<close>

definition other_refs :: "ref_lists \<Rightarrow> (nat \<times> nat) set" where
  "other_refs refList = {(x, y). y \<in> targets refList x \<and> y \<noteq> x}"

lemma stuck_circle:
  assumes "stuck refList tdl" and "tdl \<noteq> []"
  obtains x where "x \<in> set tdl" and "(x, x) \<in> (other_refs refList \<inter> set tdl \<times> set tdl)\<^sup>+"
proof -
  let ?r = "other_refs refList \<inter> set tdl \<times> set tdl"
  have "\<not> acyclic ?r"
  proof
    assume "acyclic ?r"
    moreover have "finite ?r" by simp
    ultimately have wf: "wf (?r\<inverse>)" by (intro finite_acyclic_wf_converse)
    from assms(2) obtain x where x: "x \<in> set tdl" by (cases tdl) auto
    have "\<exists>z\<in>set tdl. \<forall>y. (y, z) \<in> ?r\<inverse> \<longrightarrow> y \<notin> set tdl"
      by (rule wf [unfolded wf_eq_minimal, rule_format, OF x])
    then obtain z where z: "z \<in> set tdl" "\<forall>y. (y, z) \<in> ?r\<inverse> \<longrightarrow> y \<notin> set tdl" ..
    from assms(1) z(1) have "must_stay refList z tdl" by (simp add: stuck_def)
    then obtain y where "y \<in> targets refList z" "y \<in> set tdl" "y \<noteq> z" unfolding must_stay_iff by blast
    then have "(y, z) \<in> ?r\<inverse>" "y \<in> set tdl" using z(1) by (simp_all add: other_refs_def)
    with z(2) show False by blast
  qed
  then obtain x where x: "(x, x) \<in> ?r\<^sup>+" by (auto simp: acyclic_def)
  then have "x \<in> set tdl" by (meson IntD2 SigmaD1 tranclD)
  from this x show thesis by (rule that)
qed

section \<open>The definitions of a module\<close>

lemma move_up_to_last:
  "distinct xs \<Longrightarrow> move_up_to P (last xs) xs = (filter P xs, filter (\<lambda>x. \<not> P x) xs)"
proof (induction xs)
  case (Cons x xs)
  show ?case
  proof (cases "xs = []")
    case False
    with Cons.prems have "x \<noteq> last xs" by auto
    with Cons False show ?thesis by (simp add: Let_def)
  qed (simp add: Let_def)
qed simp

abbreviation refs_in :: "store \<Rightarrow> ref_lists" where
  "refs_in tds \<equiv> \<lambda>td. BuildLocalRefList (type (tds ! td))"

lemma mset_split: "mset (filter P xs) + mset (filter (\<lambda>x. \<not> P x) xs) = mset xs"
  by (induction xs) auto

lemma SortTypeDefs_permutes:
  assumes "distinct tdl"
  shows "mset (fst (SortTypeDefs tds refList tdl)) = mset tdl"
proof (cases "tdl = []")
  case False
  from RemoveAndSortIndependents_sorts [OF assms, of refList] obtain A tdl1 where
    A: "RemoveAndSortIndependents refList tdl = (A, tdl1)" "mset A + mset tdl1 = mset tdl" by blast
  have d1: "distinct tdl1" using assms A(2) by (metis distinct_append mset_append mset_eq_imp_distinct_iff)
  let ?P = "\<lambda>td. \<not> recursive (tds ! td)" and ?L = "\<lambda>td. cTypeDefInfo (tds ! td) \<and> is_list (type (tds ! td))"
  let ?rec = "filter (\<lambda>td. \<not> ?P td) tdl1"
  from RemoveAndSortIndependents_sorts [of "filter ?P tdl1" refList] d1 obtain C left where
    C: "RemoveAndSortIndependents refList (filter ?P tdl1) = (C, left)" "mset C + mset left = mset (filter ?P tdl1)" by auto
  let ?w = "\<lambda>td. BuildWeightedLocalRefList (type (tds ! td))"
  have d2: "distinct (filter (\<lambda>td. \<not> ?L td) ?rec)" using d1 by simp
  from RemoveAndSortIndependents_sorts [OF d2, of ?w] obtain B left2 where
    B: "RemoveAndSortIndependents ?w (filter (\<lambda>td. \<not> ?L td) ?rec) = (B, left2)"
      "mset B + mset left2 = mset (filter (\<lambda>td. \<not> ?L td) ?rec)" by blast
  note split = mset_split [of ?P tdl1] mset_split [of ?L ?rec]
  let ?all = "mset A + (mset (filter ?L ?rec) + (mset B + (mset left2 + (mset C + mset left))))"
  have all: "?all = mset tdl"
    unfolding A(2) [symmetric] split(1) [symmetric] split(2) [symmetric] B(2) [symmetric] C(2) [symmetric]
    by (simp add: ac_simps)
  show ?thesis
  proof (cases "tdl1 = []")
    case True
    with False A show ?thesis by (simp add: SortTypeDefs_def)
  next
    case tdl1: False
    have "fst (SortTypeDefs tds refList tdl) = A @ filter ?L ?rec @ B @ left2 @ C @ left"
      unfolding SortTypeDefs_def A(1) prod.case move_up_to_last [OF d1] C(1)
        move_up_to_last [OF distinct_filter [OF d1]] B(1)
      using False tdl1 by simp
    then have "mset (fst (SortTypeDefs tds refList tdl)) = ?all" by (simp del: mset_filter)
    then show ?thesis unfolding all .
  qed
qed (simp add: SortTypeDefs_def)

lemma put_in_groups_mset:
  "put_in_groups tds ps = (a, b, c, d) \<Longrightarrow> mset a + mset b + mset c + mset d = mset ps"
  by (induction ps arbitrary: a b c d) (auto split: prod.splits if_splits)

lemma put_in_groups_sets:
  assumes "put_in_groups tds ps = (prims, noRefs, refs, notRefd)"
  shows "set prims = {p \<in> set ps. IsDefinedByLibraryType (type (tds ! p))}"
    and "x \<in> set noRefs \<Longrightarrow> refs_in tds x = []"
    and "set notRefd = {p \<in> set ps. \<not> IsDefinedByLibraryType (type (tds ! p)) \<and> localRefCount (tds ! p) = 0}"
  using assms by (induction ps arbitrary: prims noRefs refs notRefd) (auto split: prod.splits if_splits)

theorem SortTypeDependencies_permutes:
  assumes "distinct ps"
  shows "mset (fst (SortTypeDependencies tds ps)) = mset ps"
proof -
  obtain a b c d where g: "put_in_groups tds ps = (a, b, c, d)" by (metis prod_cases4)
  note m = put_in_groups_mset [OF g]
  then have "distinct (a @ b @ c @ d)" using assms by (metis mset_append mset_eq_imp_distinct_iff add.assoc)
  then have "mset (fst (SortTypeDefs tds (refs_in tds) c)) = mset c" by (intro SortTypeDefs_permutes) simp
  with g m show ?thesis
    by (simp add: SortTypeDependencies_def split: prod.split) (metis add.assoc fst_conv)
qed

text \<open>References that the sorting counts are references that the search for recursive types follows, but for those in
  object classes.\<close>

fun no_classes :: "Type \<Rightarrow> bool" and elmts_no_classes :: "Type list \<Rightarrow> bool" where
  "no_classes (Type op im ts df ci xi bt) \<longleftrightarrow>
     (case bt of
        BASICTYPE_CHOICE es \<Rightarrow> elmts_no_classes es | BASICTYPE_SET es \<Rightarrow> elmts_no_classes es
      | BASICTYPE_SEQUENCE es \<Rightarrow> elmts_no_classes es | BASICTYPE_SETOF t \<Rightarrow> no_classes t
      | BASICTYPE_SEQUENCEOF t \<Rightarrow> no_classes t | BASICTYPE_OBJECTCLASS es \<Rightarrow> False | _ \<Rightarrow> True)"
| "elmts_no_classes [] \<longleftrightarrow> True"
| "elmts_no_classes (e # es) \<longleftrightarrow> no_classes e \<and> elmts_no_classes es"

lemma local_refs_followed:
  "no_classes t \<Longrightarrow> set (BuildLocalRefList t) \<subseteq> set (type_refs t)"
  "elmts_no_classes es \<Longrightarrow> set (local_refs es) \<subseteq> set (elmts_refs es)"
proof (induction t and es rule: no_classes_elmts_no_classes.induct)
  case (1 op im ts df ci xi bt)
  then show ?case by (cases bt) (auto simp: BuildLocalRefList.simps type_refs.simps)
qed auto

lemma targets_subset: "targets refList x \<subseteq> {y. Some y \<in> set (refList x)}"
  by (auto simp: targets_def elmts_up_to_null_def dest: set_takeWhileD)

text \<open>Once the recursive definitions have been marked, sorting the others leaves none over.\<close>

theorem no_internal_error:
  assumes "distinct ps" and "list_all (\<lambda>d. no_classes (type d)) tds"
    and "list_all (\<lambda>p. p < length tds) ps" and "list_all (\<lambda>p. (p, p) \<in> (ref_step tds)\<^sup>+ \<longrightarrow> recursive (tds ! p)) ps"
  shows "\<not> snd (SortTypeDependencies tds ps)"
proof -
  obtain a b c d where g: "put_in_groups tds ps = (a, b, c, d)" by (metis prod_cases4)
  note m = put_in_groups_mset [OF g]
  then have "distinct (a @ b @ c @ d)" using assms(1) by (metis mset_append mset_eq_imp_distinct_iff add.assoc)
  then have d: "distinct c" by simp
  have ps: "set c \<subseteq> set ps" using mset_eq_setD [OF m [folded mset_append]] by auto
  from RemoveAndSortIndependents_sorts [OF d, of "refs_in tds"] obtain A tdl where
    A: "RemoveAndSortIndependents (refs_in tds) c = (A, tdl)" "mset A + mset tdl = mset c" by blast
  have d1: "distinct tdl" using d A(2) by (metis distinct_append mset_append mset_eq_imp_distinct_iff)
  have tdl: "set tdl \<subseteq> set ps" using mset_eq_setD [OF A(2) [folded mset_append]] ps by auto
  let ?P = "\<lambda>td. \<not> recursive (tds ! td)"
  have "distinct (filter ?P tdl)" using d1 by simp
  from RemoveAndSortIndependents_sorts [OF this, of "refs_in tds"] obtain C left where
    C: "RemoveAndSortIndependents (refs_in tds) (filter ?P tdl) = (C, left)" "mset C + mset left = mset (filter ?P tdl)"
      "stuck (refs_in tds) left" by blast
  have left: "set left \<subseteq> {p \<in> set ps. \<not> recursive (tds ! p)}"
    using mset_eq_setD [OF C(2) [folded mset_append]] tdl by auto
  have "left = []"
  proof (rule ccontr)
    assume "left \<noteq> []"
    from stuck_circle [OF C(3) this] obtain x where x: "x \<in> set left"
      "(x, x) \<in> (other_refs (refs_in tds) \<inter> set left \<times> set left)\<^sup>+" by blast
    have "other_refs (refs_in tds) \<inter> set left \<times> set left \<subseteq> ref_step tds"
    proof (rule subrelI)
      fix y z assume yz: "(y, z) \<in> other_refs (refs_in tds) \<inter> set left \<times> set left"
      then have y: "y < length tds" using left assms(3) by (auto simp: list_all_iff)
      then have "no_classes (type (tds ! y))" using assms(2) by (simp add: list_all_length)
      from local_refs_followed(1) [OF this] yz y targets_subset [of "refs_in tds" y] show "(y, z) \<in> ref_step tds"
        by (auto simp: other_refs_def ref_step_def)
    qed
    from trancl_mono [OF x(2) this] x(1) left assms(4) show False by (auto simp: list_all_iff)
  qed
  with g A(1) C(1) d1 show ?thesis
    by (auto simp: SortTypeDependencies_def SortTypeDefs_def move_up_to_last split: prod.splits)
qed

text \<open>Without recursive definitions the module is put in order, when \<open>localRefCount\<close> counts each reference.\<close>

lemma ordered_disjoint: "(\<And>x. x \<in> set xs \<Longrightarrow> R x \<inter> S = {}) \<Longrightarrow> ordered R S xs"
proof (induction xs arbitrary: S)
  case (Cons x xs)
  have "R y \<inter> (S - {x}) = {}" if "y \<in> set xs" for y
    using Cons.prems [of y] that by auto
  then have "ordered R (S - {x}) xs" by (rule Cons.IH)
  with Cons.prems [of x] show ?case by auto
qed simp

lemma ordered_extend:
  "ordered R S xs \<Longrightarrow> (\<And>x. x \<in> set xs \<Longrightarrow> R x \<inter> T = {}) \<Longrightarrow> ordered R (S \<union> T) xs"
proof (induction xs arbitrary: S T)
  case (Cons x xs)
  have "ordered R ((S - {x}) \<union> (T - {x})) xs" using Cons.prems by (intro Cons.IH) auto
  moreover have "(S - {x}) \<union> (T - {x}) = (S \<union> T) - {x}" by blast
  moreover have "R x \<inter> T = {}" using Cons.prems(2) by simp
  ultimately show ?case using Cons.prems(1) by auto
qed simp

lemma library_no_refs: "IsDefinedByLibraryType t \<Longrightarrow> BuildLocalRefList t = []"
  by (cases t; cases "basicType t") (auto simp: IsDefinedByLibraryType_def BuildLocalRefList.simps)

lemma targets_nothing: "refList x = [] \<Longrightarrow> targets refList x = {}"
  by (simp add: targets_def elmts_up_to_null_def)

lemma SortTypeDefs_orders:
  assumes d: "distinct tdl" and rec: "\<And>p. p \<in> set tdl \<Longrightarrow> \<not> recursive (tds ! p)"
    and ok: "\<not> snd (SortTypeDefs tds refList tdl)"
  shows "ordered (targets refList) (set tdl) (fst (SortTypeDefs tds refList tdl))"
proof -
  from RemoveAndSortIndependents_sorts [OF d, of refList] obtain A tdl1 where
    A: "RemoveAndSortIndependents refList tdl = (A, tdl1)" "mset A + mset tdl1 = mset tdl"
      "ordered (targets refList) (set tdl) A" by blast
  have dA: "distinct (A @ tdl1)" using d A(2) by (metis mset_append mset_eq_imp_distinct_iff)
  then have d1: "distinct tdl1" by simp
  have sets: "set A \<union> set tdl1 = set tdl" using mset_eq_setD [OF A(2) [folded mset_append]] by simp
  show ?thesis
  proof (cases "tdl1 = [] \<or> tdl = []")
    case True
    with A show ?thesis by (auto simp: SortTypeDefs_def)
  next
    case False
    have all: "filter (\<lambda>td. \<not> recursive (tds ! td)) tdl1 = tdl1" "filter (\<lambda>td. recursive (tds ! td)) tdl1 = []"
      using rec sets by (auto simp: filter_id_conv filter_empty_conv)
    from RemoveAndSortIndependents_sorts [OF d1, of refList] obtain C left where
      C: "RemoveAndSortIndependents refList tdl1 = (C, left)" "mset C + mset left = mset tdl1"
        "ordered (targets refList) (set tdl1) C" by blast
    have res: "SortTypeDefs tds refList tdl = (A @ C @ left, left \<noteq> [])"
      using False by (simp add: SortTypeDefs_def A(1) move_up_to_last [OF d1] all C(1)) (simp add: RemoveAndSortIndependents_def)
    have "set tdl - set A = set tdl1" using dA sets by auto
    with A(3) C(3) ok show ?thesis by (simp add: res ordered_append)
  qed
qed

theorem SortTypeDependencies_orders:
  assumes "distinct ps" and "\<And>p. p \<in> set ps \<Longrightarrow> \<not> recursive (tds ! p)" and "\<not> snd (SortTypeDependencies tds ps)"
    and refs: "\<And>p q. p \<in> set ps \<Longrightarrow> q \<in> targets (refs_in tds) p \<Longrightarrow> localRefCount (tds ! q) \<noteq> 0"
  shows "ordered (targets (refs_in tds)) (set ps) (fst (SortTypeDependencies tds ps))"
proof -
  let ?R = "targets (refs_in tds)"
  obtain a b c d where g: "put_in_groups tds ps = (a, b, c, d)" by (metis prod_cases4)
  note m = put_in_groups_mset [OF g]
  then have dist: "distinct (a @ b @ c @ d)" using assms(1) by (metis mset_append mset_eq_imp_distinct_iff add.assoc)
  have "mset (a @ b @ c @ d) = mset ps" using m by (simp add: add.assoc)
  from mset_eq_setD [OF this] have sets: "set ps = set a \<union> (set b \<union> (set c \<union> set d))" by simp
  obtain c' err where c': "SortTypeDefs tds (refs_in tds) c = (c', err)" by fastforce
  have dc: "distinct c" using dist by simp
  have "mset c' = mset c" using SortTypeDefs_permutes [OF dc, of tds "refs_in tds"] c' by simp
  then have sc: "set c' = set c" by (rule mset_eq_setD)
  have res: "SortTypeDependencies tds ps = (a @ b @ c' @ d, err)" by (simp add: SortTypeDependencies_def g c')
  have no_d: "?R p \<inter> set d = {}" if "p \<in> set ps" for p
    using refs [OF that] put_in_groups_sets(3) [OF g] by blast
  have "?R p = {}" if "p \<in> set a" for p
    using that put_in_groups_sets(1) [OF g] by (intro targets_nothing library_no_refs) simp
  then have oa: "ordered ?R S a" for S by (intro ordered_disjoint) simp
  have "?R p = {}" if "p \<in> set b" for p
    using put_in_groups_sets(2) [OF g that] by (intro targets_nothing)
  then have ob: "ordered ?R S b" for S by (intro ordered_disjoint) simp
  have "ordered ?R (set c) c'"
    using SortTypeDefs_orders [OF dc, of tds "refs_in tds"] assms(2,3) sets by (simp add: c' res)
  then have "ordered ?R (set c \<union> set d) c'"
    by (rule ordered_extend) (use no_d sets sc in auto)
  moreover have "ordered ?R (set d) d" using no_d sets by (intro ordered_disjoint) auto
  moreover have "set ps - set a - set b = set c \<union> set d" "(set c \<union> set d) - set c' = set d"
    using dist sets sc by auto
  ultimately show ?thesis using oa ob by (simp add: res ordered_append)
qed

end
