(* ===== verification/Comp_Passes.thy ===== *)
theory Comp_Passes
  imports Comp_Sort
begin

text \<open>
  The compiler's passes over the types of a module one after the other: the search for recursive types, then the
  sorting (\<open>compiler/core/snacc.c\<close> calls them in this order); and small stores of type definitions.
\<close>

section \<open>Marking before sorting\<close>

lemma mark_all_more [simp]:
  "i < length tds \<Longrightarrow> localRefCount (mark_all tds M ! i) = localRefCount (tds ! i)"
  "i < length tds \<Longrightarrow> recursive (mark_all tds M ! i) \<longleftrightarrow> i \<in> M \<or> recursive (tds ! i)"
  by (simp_all add: mark_all_def)

lemma no_circle_no_self: "\<not> (p, p) \<in> (ref_step tds)\<^sup>+ \<Longrightarrow> p < length tds \<Longrightarrow> Some p \<notin> set (type_refs (type (tds ! p)))"
  by (auto simp: ref_step_def)

lemma module_marked:
  assumes "MarkRecursiveTypes tds ps = Inr (tds', ws)" and "all_linked tds" and "list_all (\<lambda>p. p < length tds) ps"
  shows "tds' = mark_all tds {p \<in> set ps. (p, p) \<in> (ref_step tds)\<^sup>+}"
  using MarkRecursiveTypes_exact [OF assms(2,3)] assms(1) by auto

theorem marked_module_sorts:
  assumes "MarkRecursiveTypes tds ps = Inr (tds', ws)" and "all_linked tds" and "list_all (\<lambda>p. p < length tds) ps"
    and "distinct ps" and "list_all (\<lambda>d. no_classes (type d)) tds"
  shows "\<not> snd (SortTypeDependencies tds' ps)"
  using assms(2-) by (intro no_internal_error) (auto simp: module_marked [OF assms(1-3)] list_all_length list_all_iff mark_all_same)

lemma up_to_null_Some: "y \<in> set (elmts_up_to_null ps) \<Longrightarrow> Some y \<in> set ps"
  by (auto simp: elmts_up_to_null_def dest!: set_takeWhileD)

text \<open>References are followed up to the first that has no link; when all have one, to the end.\<close>

lemma linked_targets:
  assumes "linked tds (type_refs t)" and "no_classes t" and "Some q \<in> set (BuildLocalRefList t)"
  shows "q \<in> set (elmts_up_to_null (BuildLocalRefList t))"
proof -
  have none: "None \<notin> set (BuildLocalRefList t)"
    using local_refs_followed(1) [OF assms(2)] assms(1) by (auto simp: linked_def list_all_iff split: option.splits)
  have "\<forall>p\<in>set (BuildLocalRefList t). p \<noteq> None"
  proof
    fix p assume "p \<in> set (BuildLocalRefList t)"
    with none show "p \<noteq> None" by (cases p) simp_all
  qed
  then have "takeWhile (\<lambda>p. p \<noteq> None) (BuildLocalRefList t) = BuildLocalRefList t"
    unfolding takeWhile_eq_all_conv .
  then have "elmts_up_to_null (BuildLocalRefList t) = map the (BuildLocalRefList t)" by (simp only: elmts_up_to_null_def)
  with imageI [OF assms(3), of the] show ?thesis by simp
qed

theorem marked_module_in_order:
  assumes "MarkRecursiveTypes tds ps = Inr (tds', ws)" and "list_all (\<lambda>p. \<not> recursive (tds' ! p)) ps"
    and "all_linked tds" and "list_all (\<lambda>p. p < length tds) ps" and "distinct ps" and "list_all (\<lambda>d. no_classes (type d)) tds"
    and "list_all (\<lambda>d. list_all (\<lambda>q. localRefCount (tds ! q) \<noteq> 0) (elmts_up_to_null (BuildLocalRefList (type d)))) tds"
    and "fst (SortTypeDependencies tds' ps) = xs @ p # ys" and "Some q \<in> set (BuildLocalRefList (type (tds ! p)))"
    and "q \<in> set ps"
  shows "q \<in> set xs"
proof -
  let ?M = "{p \<in> set ps. (p, p) \<in> (ref_step tds)\<^sup>+}" and ?R = "targets (refs_in tds')"
  note tds' = module_marked [OF assms(1,3,4)]
  have len: "length tds' = length tds" and ty: "i < length tds \<Longrightarrow> type (tds' ! i) = type (tds ! i)" for i
    by (simp_all add: tds')
  have "set (fst (SortTypeDependencies tds' ps)) = set ps"
    by (rule mset_eq_setD [OF SortTypeDependencies_permutes [OF assms(5)]])
  then have p: "p \<in> set ps" "p < length tds" using assms(4,8) by (auto simp: list_all_iff)
  have "no_classes (type (tds ! p))" "linked tds (type_refs (type (tds ! p)))"
    using assms(3,6) p(2) by (simp_all add: all_linked_def list_all_length)
  note q = linked_targets [OF this(2,1) assms(9)] local_refs_followed(1) [OF this(1)]
  have noM: "(p, p) \<notin> (ref_step tds)\<^sup>+" using assms(2) p by (auto simp: list_all_iff tds')
  have "q \<noteq> p" using no_circle_no_self [OF noM p(2)] q(2) assms(9) by blast
  have "ordered ?R (set ps) (fst (SortTypeDependencies tds' ps))"
  proof (rule SortTypeDependencies_orders [OF assms(5)])
    show "\<not> snd (SortTypeDependencies tds' ps)" by (rule marked_module_sorts [OF assms(1,3,4,5,6)])
    show "\<not> recursive (tds' ! x)" if "x \<in> set ps" for x using assms(2) that by (simp add: list_all_iff)
    show "localRefCount (tds' ! y) \<noteq> 0" if "x \<in> set ps" and "y \<in> ?R x" for x y
    proof -
      have x: "x < length tds" using assms(4) that(1) by (simp add: list_all_iff)
      have y: "y \<in> set (elmts_up_to_null (BuildLocalRefList (type (tds ! x))))"
        using that(2) by (simp add: targets_def ty [OF x])
      then have "Some y \<in> set (type_refs (type (tds ! x)))"
        using local_refs_followed(1) [of "type (tds ! x)"] assms(6) x
        by (auto simp: list_all_length dest: up_to_null_Some)
      moreover have "linked tds (type_refs (type (tds ! x)))" using assms(3) x by (simp add: all_linked_def list_all_length)
      ultimately have "y < length tds" by (auto simp: linked_def list_all_iff)
      moreover have "localRefCount (tds ! y) \<noteq> 0" using assms(7) nth_mem [OF x] y by (auto simp: list_all_iff)
      ultimately show ?thesis by (simp add: tds')
    qed
  qed
  then have "ordered ?R (set ps) (xs @ p # ys)" unfolding assms(8) .
  from ordered_before [OF this _ assms(10) \<open>q \<noteq> p\<close>] q(1) show ?thesis by (simp add: targets_def ty [OF p(2)])
qed

section \<open>Examples\<close>

definition plain_type :: "bool \<Rightarrow> BasicType \<Rightarrow> Type" where
  "plain_type opt bt = Type opt False None False (Some False) None bt"

definition type_def :: "32 word \<Rightarrow> BasicType \<Rightarrow> TypeDef" where
  "type_def n bt = \<lparr>definedName = [], type = plain_type False bt, recursive = False, localRefCount = n, cTypeDefInfo = True\<rparr>"

abbreviation ref_to :: "nat \<Rightarrow> BasicType" where
  "ref_to p \<equiv> BASICTYPE_LOCALTYPEREF (Some p)"

text \<open>A list in two definitions with a definition of its elements; definitions that do not refer back; a type and a class
  that refer to each other.\<close>

definition circular_types :: store where
  "circular_types = [type_def 1 (BASICTYPE_SEQUENCE [plain_type False (ref_to 1), plain_type True (ref_to 2)]),
     type_def 1 (BASICTYPE BASICTYPE_INTEGER), type_def 1 (BASICTYPE_CHOICE [plain_type False (ref_to 0)])]"

definition straight_types :: store where
  "straight_types = [type_def 0 (BASICTYPE_SEQUENCE [plain_type False (ref_to 2), plain_type False (ref_to 1)]),
     type_def 1 (BASICTYPE BASICTYPE_INTEGER), type_def 1 (BASICTYPE_SEQUENCEOF (plain_type False (ref_to 1)))]"

definition class_types :: store where
  "class_types = [type_def 1 (BASICTYPE_SEQUENCE [plain_type False (ref_to 1)]),
     type_def 1 (BASICTYPE_OBJECTCLASS [plain_type False (ref_to 0)])]"

lemmas example_types = circular_types_def straight_types_def class_types_def type_def_def plain_type_def

lemmas run_types = MkRecTypeDef_def link_type_def MkRecType.simps both_def BuildLocalRefList.simps

lemmas run_sort = SortTypeDependencies_def SortTypeDefs_def IsDefinedByLibraryType_def
  RemoveAndSortIndependents_def sort_passes.simps must_stay_def GetElmtIndex_def elmts_up_to_null_def Let_def

lemma example_linked: "all_linked circular_types" "all_linked straight_types"
  by (simp_all add: all_linked_def linked_def example_types type_refs.simps)

lemma circular_types_marked: "MarkRecursiveTypes circular_types [0, 1, 2] = Inr (mark_all circular_types {0, 2}, [])"
  by (simp add: example_types run_types mark_all_def)

lemma straight_types_marked: "MarkRecursiveTypes straight_types [0, 1, 2] = Inr (straight_types, [])"
  by (simp add: example_types run_types)

lemma straight_types_sorted: "fst (SortTypeDependencies straight_types [0, 1, 2]) = [1, 2, 0]"
  by (simp add: example_types run_types run_sort)

lemma class_types_marked: "MarkRecursiveTypes class_types [0, 1] = Inr (class_types, [])"
  by (simp add: example_types run_types)

lemma class_types_sorted: "SortTypeDependencies class_types [0, 1] = ([0, 1], True)"
  by (simp add: example_types run_types run_sort)

end
