(* ===== verification/Comp_Tags.thy ===== *)
theory Comp_Tags
  imports Comp_Rec
begin

text \<open>
  The tags of a type, as the back ends use them: \<open>GetTags\<close>, \<open>CountTags\<close> and \<open>CmpTags\<close> of \<open>compiler/back-ends/tag-util.c\<close>, with
  \<open>GetType\<close> and \<open>GetBuiltinType\<close> of \<open>snacc-util.c\<close> and the tables of \<open>lib-types.c\<close>. A chain of references need not end, so
  there is fuel for its length.
\<close>

section \<open>The code\<close>

text \<open>The tables of universal tag codes and forms, \<open>None\<close> being an access past their end.\<close>

fun simple_lib_type :: "BasicTypeChoiceId \<Rightarrow> (BER_UNIV_CODE \<times> BER_FORM) option" where
  "simple_lib_type BASICTYPE_UNKNOWN = Some (NO_TAG_CODE, NULL_FORM)"
| "simple_lib_type BASICTYPE_BOOLEAN = Some (BOOLEAN_TAG_CODE, PRIM)"
| "simple_lib_type BASICTYPE_INTEGER = Some (INTEGER_TAG_CODE, PRIM)"
| "simple_lib_type BASICTYPE_BITSTRING = Some (BITSTRING_TAG_CODE, ANY_FORM)"
| "simple_lib_type BASICTYPE_OCTETSTRING = Some (OCTETSTRING_TAG_CODE, ANY_FORM)"
| "simple_lib_type BASICTYPE_NULL = Some (NULLTYPE_TAG_CODE, PRIM)"
| "simple_lib_type BASICTYPE_OID = Some (OID_TAG_CODE, PRIM)"
| "simple_lib_type BASICTYPE_REAL = Some (REAL_TAG_CODE, PRIM)"
| "simple_lib_type BASICTYPE_ENUMERATED = Some (ENUM_TAG_CODE, PRIM)"
| "simple_lib_type BASICTYPE_COMPONENTSOF = Some (NO_TAG_CODE, CONS)"
| "simple_lib_type BASICTYPE_ANY = Some (NO_TAG_CODE, CONS)"
| "simple_lib_type BASICTYPE_ANYDEFINEDBY = Some (NO_TAG_CODE, CONS)"
| "simple_lib_type BASICTYPE_MACROTYPE = Some (NO_TAG_CODE, NULL_FORM)"
| "simple_lib_type BASICTYPE_MACRODEF = Some (NO_TAG_CODE, NULL_FORM)"
| "simple_lib_type BASICTYPE_NUMERIC_STR = Some (NUMERICSTRING_TAG_CODE, ANY_FORM)"
| "simple_lib_type BASICTYPE_PRINTABLE_STR = Some (PRINTABLESTRING_TAG_CODE, ANY_FORM)"
| "simple_lib_type BASICTYPE_UNIVERSAL_STR = Some (UNIVERSALSTRING_TAG_CODE, ANY_FORM)"
| "simple_lib_type BASICTYPE_IA5_STR = Some (IA5STRING_TAG_CODE, ANY_FORM)"
| "simple_lib_type BASICTYPE_BMP_STR = Some (BMPSTRING_TAG_CODE, ANY_FORM)"
| "simple_lib_type BASICTYPE_UTF8_STR = Some (UTF8STRING_TAG_CODE, ANY_FORM)"
| "simple_lib_type BASICTYPE_UTCTIME = Some (UTCTIME_TAG_CODE, ANY_FORM)"
| "simple_lib_type BASICTYPE_GENERALIZEDTIME = Some (GENERALIZEDTIME_TAG_CODE, ANY_FORM)"
| "simple_lib_type BASICTYPE_GRAPHIC_STR = Some (GRAPHICSTRING_TAG_CODE, ANY_FORM)"
| "simple_lib_type BASICTYPE_VISIBLE_STR = Some (VISIBLESTRING_TAG_CODE, ANY_FORM)"
| "simple_lib_type BASICTYPE_GENERAL_STR = Some (GENERALSTRING_TAG_CODE, ANY_FORM)"
| "simple_lib_type BASICTYPE_OBJECTDESCRIPTOR = Some (OD_TAG_CODE, ANY_FORM)"
| "simple_lib_type BASICTYPE_VIDEOTEX_STR = Some (VIDEOTEXSTRING_TAG_CODE, ANY_FORM)"
| "simple_lib_type BASICTYPE_T61_STR = Some (TELETEXSTRING_TAG_CODE, ANY_FORM)"
| "simple_lib_type BASICTYPE_EXTERNAL = Some (EXTERNAL_TAG_CODE, CONS)"
| "simple_lib_type BASICTYPE_OCTETCONTAINING = Some (OCTETSTRING_TAG_CODE, PRIM)"
| "simple_lib_type BASICTYPE_BITCONTAINING = Some (BITSTRING_TAG_CODE, PRIM)"
| "simple_lib_type BASICTYPE_RELATIVE_OID = Some (RELATIVE_OID_TAG_CODE, PRIM)"
| "simple_lib_type _ = None"

type_synonym lib_types = "BasicType \<Rightarrow> (BER_UNIV_CODE \<times> BER_FORM) option"

fun libBERTypesG :: lib_types where
  "libBERTypesG (BASICTYPE_SEQUENCE es) = Some (SEQ_TAG_CODE, CONS)"
| "libBERTypesG (BASICTYPE_SEQUENCEOF t) = Some (SEQ_TAG_CODE, CONS)"
| "libBERTypesG (BASICTYPE_SET es) = Some (SET_TAG_CODE, CONS)"
| "libBERTypesG (BASICTYPE_SETOF t) = Some (SET_TAG_CODE, CONS)"
| "libBERTypesG (BASICTYPE_CHOICE es) = Some (NO_TAG_CODE, CONS)"
| "libBERTypesG (BASICTYPE_SELECTION t) = Some (NO_TAG_CODE, NULL_FORM)"
| "libBERTypesG (BASICTYPE_LOCALTYPEREF p) = Some (NO_TAG_CODE, NULL_FORM)"
| "libBERTypesG (BASICTYPE_IMPORTTYPEREF p) = Some (NO_TAG_CODE, NULL_FORM)"
| "libBERTypesG (BASICTYPE_OBJECTCLASS es) = None"
| "libBERTypesG (BASICTYPE i) = simple_lib_type i"

text \<open>The table for DER differs in three rows; the last of them has the wrong code.\<close>

definition libDERTypesG :: lib_types where
  "libDERTypesG bt =
     (if bt = BASICTYPE BASICTYPE_BITSTRING then Some (BITSTRING_TAG_CODE, PRIM)
      else if bt = BASICTYPE BASICTYPE_OCTETSTRING then Some (OCTETSTRING_TAG_CODE, PRIM)
      else if bt = BASICTYPE BASICTYPE_BITCONTAINING then Some (OCTETSTRING_TAG_CODE, PRIM)
      else libBERTypesG bt)"

text \<open>The link of a reference.\<close>

definition ref_link :: "BasicType \<Rightarrow> nat option option" where
  "ref_link bt = (case bt of BASICTYPE_LOCALTYPEREF p \<Rightarrow> Some p | BASICTYPE_IMPORTTYPEREF p \<Rightarrow> Some p | _ \<Rightarrow> None)"

primrec GetType_loop :: "nat \<Rightarrow> store \<Rightarrow> Type \<Rightarrow> Type \<Rightarrow> stop + Type" where
  "GetType_loop 0 tds ty t = Inl NoFuel"
| "GetType_loop (Suc k) tds ty t =
     (case ref_link (basicType t) of
        Some None \<Rightarrow> Inr ty
      | Some (Some td) \<Rightarrow> (case link_type tds (Some td) of Inl e \<Rightarrow> Inl e | Inr t \<Rightarrow> GetType_loop k tds ty t)
      | None \<Rightarrow> Inr t)"

definition GetType :: "nat \<Rightarrow> store \<Rightarrow> Type \<Rightarrow> stop + Type" where
  "GetType fuel tds ty = GetType_loop (Suc fuel) tds ty ty"

text \<open>The kind of a type stands for its choice id.\<close>

definition GetBuiltinType :: "nat \<Rightarrow> store \<Rightarrow> Type \<Rightarrow> stop + BasicType" where
  "GetBuiltinType fuel tds t = map_sum id basicType (GetType fuel tds t)"

definition own_tags :: "Type \<Rightarrow> Tag list" where
  "own_tags t = (case t_tags t of None \<Rightarrow> [] | Some tags \<Rightarrow> tags)"

text \<open>All tags but the last are constructed, the last one is as its type says.\<close>

definition with_forms :: "BER_FORM \<Rightarrow> Tag list \<Rightarrow> Tag list" where
  "with_forms fm tags = map (\<lambda>tag. tag\<lparr>tg_form := CONS\<rparr>) (butlast tags) @ [(last tags)\<lparr>tg_form := fm\<rparr>]"

definition set_forms :: "lib_types \<Rightarrow> nat \<Rightarrow> store \<Rightarrow> Type \<Rightarrow> Tag list \<Rightarrow> stop + Tag list \<times> bool" where
  "set_forms libTypesG fuel tds t retVal =
     (if retVal = [] then Inr ([], False)
      else case GetBuiltinType fuel tds t of
        Inl e \<Rightarrow> Inl e
      | Inr bt \<Rightarrow> (case libTypesG bt of None \<Rightarrow> Inl Fault | Some (cd, fm) \<Rightarrow> Inr (with_forms fm retVal, False)))"

text \<open>The loop over the alternatives of a CHOICE, where \<open>tags_of\<close> is \<open>GetTags\<close>.\<close>

primrec choice_tags :: "(Type \<Rightarrow> stop + Tag list \<times> bool) \<Rightarrow> Type list \<Rightarrow> stop + Tag list" where
  "choice_tags tags_of [] = Inr []"
| "choice_tags tags_of (e # es) =
     (case tags_of e of
        Inl x \<Rightarrow> Inl x
      | Inr (tags, stoleChoicesAgain) \<Rightarrow>
          if basicType e = BASICTYPE BASICTYPE_EXTENSION then choice_tags tags_of es
          else if stoleChoicesAgain then map_sum id (\<lambda>ts. tags @ ts) (choice_tags tags_of es)
          else (case tags of [] \<Rightarrow> Inl Fault | tag # _ \<Rightarrow> map_sum id (Cons tag) (choice_tags tags_of es)))"

definition end_of_refs ::
  "lib_types \<Rightarrow> nat \<Rightarrow> store \<Rightarrow> (Type \<Rightarrow> stop + Tag list \<times> bool) \<Rightarrow> Type \<Rightarrow> Tag list \<Rightarrow> stop + Tag list \<times> bool" where
  "end_of_refs libTypesG fuel tds tags_of t retVal =
     (case basicType t of
        BASICTYPE_CHOICE es \<Rightarrow>
          if retVal = [] then map_sum id (\<lambda>tags. (tags, True)) (choice_tags tags_of es)
          else set_forms libTypesG fuel tds t retVal
      | _ \<Rightarrow> set_forms libTypesG fuel tds t retVal)"

text \<open>The loop, where \<open>left\<close> are the tags of \<open>t\<close> from its current one on. The result is the list and \<open>stoleChoiceTags\<close>.\<close>

primrec GetTags_loop :: "nat \<Rightarrow> lib_types \<Rightarrow> store \<Rightarrow> Type \<Rightarrow> Tag list \<Rightarrow> bool \<Rightarrow> Tag list \<Rightarrow> stop + Tag list \<times> bool" where
  "GetTags_loop 0 libTypesG tds t left implicitRef retVal = Inl NoFuel"
| "GetTags_loop (Suc k) libTypesG tds t left implicitRef retVal =
     (let retVal = retVal @ left
      in case ref_link (basicType t) of
        Some None \<Rightarrow> set_forms libTypesG k tds t retVal
      | Some (Some td) \<Rightarrow>
          (case link_type tds (Some td) of
             Inl e \<Rightarrow> Inl e
           | Inr t' \<Rightarrow>
               let implicitRef = (if \<not> implicitRef then t_implicit t else implicitRef)
               in if own_tags t' \<noteq> [] \<and> implicitRef then GetTags_loop k libTypesG tds t' (drop 1 (own_tags t')) False retVal
                  else GetTags_loop k libTypesG tds t' (own_tags t') implicitRef retVal)
      | None \<Rightarrow>
          end_of_refs libTypesG k tds (\<lambda>e. GetTags_loop k libTypesG tds e (own_tags e) False []) t retVal)"

definition GetTags :: "nat \<Rightarrow> lib_types \<Rightarrow> store \<Rightarrow> Type \<Rightarrow> stop + Tag list \<times> bool" where
  "GetTags fuel libTypesG tds t = GetTags_loop fuel libTypesG tds t (own_tags t) False []"

primrec CountTags_loop :: "nat \<Rightarrow> store \<Rightarrow> Type \<Rightarrow> Tag list \<Rightarrow> bool \<Rightarrow> nat \<Rightarrow> stop + nat" where
  "CountTags_loop 0 tds t left implicitRef tagCount = Inl NoFuel"
| "CountTags_loop (Suc k) tds t left implicitRef tagCount =
     (let tagCount = tagCount + length left
      in case ref_link (basicType t) of
        Some None \<Rightarrow> Inr tagCount
      | Some (Some td) \<Rightarrow>
          (case link_type tds (Some td) of
             Inl e \<Rightarrow> Inl e
           | Inr t' \<Rightarrow>
               let implicitRef = (if \<not> implicitRef then t_implicit t else implicitRef)
               in if own_tags t' \<noteq> [] \<and> implicitRef then CountTags_loop k tds t' (drop 1 (own_tags t')) False tagCount
                  else CountTags_loop k tds t' (own_tags t') implicitRef tagCount)
      | None \<Rightarrow> Inr tagCount)"

definition CountTags :: "nat \<Rightarrow> store \<Rightarrow> Type \<Rightarrow> stop + nat" where
  "CountTags fuel tds t = CountTags_loop fuel tds t (own_tags t) False 0"

text \<open>The sign of \<open>memcmp\<close>, and the octets of an array of unsigned integers.\<close>

fun memcmp :: "byte list \<Rightarrow> byte list \<Rightarrow> int" where
  "memcmp (x # xs) (y # ys) = (if x < y then - 1 else if y < x then 1 else memcmp xs ys)"
| "memcmp _ _ = 0"

definition uint_octets :: "32 word list \<Rightarrow> byte list" where
  "uint_octets ws = concat (map (\<lambda>w. [ucast w, ucast (drop_bit 8 w), ucast (drop_bit 16 w), ucast (drop_bit 24 w)]) ws)"

definition tag_ids :: "Tag list \<Rightarrow> AsnTag list" where
  "tag_ids tags = map (\<lambda>tg. MAKE_TAG_ID (tg_class tg) (tg_form tg) (tg_code tg)) tags"

text \<open>\<open>abort ()\<close> is an exit with the status a shell shows for it.\<close>

definition CmpTags :: "nat \<Rightarrow> lib_types \<Rightarrow> store \<Rightarrow> Type \<Rightarrow> Type \<Rightarrow> stop + int" where
  "CmpTags fuel libTypesG tds a b =
     (case GetTags fuel libTypesG tds a of Inl e \<Rightarrow> Inl e | Inr (t1, _) \<Rightarrow>
      (case GetTags fuel libTypesG tds b of Inl e \<Rightarrow> Inl e | Inr (t2, _) \<Rightarrow>
        if length t1 \<ge> 256 \<or> length t2 \<ge> 256 then Inl (Exit 134)
        else
          (let m = min (length t1) (length t2);
               cmp = memcmp (uint_octets (take m (tag_ids t1))) (uint_octets (take m (tag_ids t2)))
           in Inr (if cmp \<noteq> 0 then cmp else int (length t1) - int (length t2)))))"

section \<open>The tags a type has\<close>

text \<open>
  \<open>tagged tds n t ts b\<close>: behind \<open>n\<close> references the type \<open>t\<close> is \<open>b\<close>, and its values are encoded with the tags \<open>ts\<close>, outermost
  first. An implicit reference replaces the first tag of the type it refers to by its own.
\<close>

inductive tagged :: "store \<Rightarrow> nat \<Rightarrow> Type \<Rightarrow> Tag list \<Rightarrow> Type \<Rightarrow> bool" for tds where
  tagged_end: "ref_link (basicType t) = None \<Longrightarrow> tagged tds 0 t (own_tags t) t"
| tagged_ref: "ref_link (basicType t) = Some (Some i) \<Longrightarrow> i < length tds \<Longrightarrow> tagged tds n (type (tds ! i)) ts b \<Longrightarrow>
    (t_implicit t \<Longrightarrow> own_tags t \<noteq> []) \<Longrightarrow>
    tagged tds (Suc n) t (own_tags t @ (if t_implicit t then drop 1 ts else ts)) b"

lemma tagged_end_type: "tagged tds n t ts b \<Longrightarrow> ref_link (basicType b) = None"
  by (induction rule: tagged.induct)

lemma tagged_unique: "tagged tds n t ts b \<Longrightarrow> tagged tds n' t ts' b' \<Longrightarrow> n' = n \<and> ts' = ts \<and> b' = b"
proof (induction arbitrary: n' ts' b' rule: tagged.induct)
  case (tagged_end t)
  from tagged_end(2) show ?case by cases (simp_all add: tagged_end(1))
next
  case (tagged_ref t i n ts b)
  from tagged_ref.prems show ?case
  proof cases
    case tagged_end
    with tagged_ref.hyps(1) show ?thesis by simp
  next
    case (tagged_ref j m us)
    with \<open>ref_link (basicType t) = Some (Some i)\<close> have "j = i" by simp
    with tagged_ref tagged_ref.IH [of m us b'] show ?thesis by simp
  qed
qed

lemma drop_effective:
  assumes "t_implicit t \<longrightarrow> own_tags t \<noteq> []"
  shows "(if p then drop 1 (own_tags t @ (if t_implicit t then drop 1 ts else ts)) else own_tags t @ (if t_implicit t then drop 1 ts else ts)) =
    (if p then drop 1 (own_tags t) else own_tags t) @ (if p \<and> own_tags t = [] \<or> t_implicit t then drop 1 ts else ts)"
  using assms by (cases p; cases "t_implicit t"; cases "own_tags t") simp_all

lemma loop_tagged:
  "tagged tds n t ts b \<Longrightarrow>
    GetTags_loop (Suc (n + k)) libTypesG tds t (if p then drop 1 (own_tags t) else own_tags t) (p \<and> own_tags t = []) retVal =
    end_of_refs libTypesG k tds (\<lambda>e. GetTags_loop k libTypesG tds e (own_tags e) False []) b (retVal @ (if p then drop 1 ts else ts))"
proof (induction arbitrary: p retVal rule: tagged.induct)
  case (tagged_end t)
  then show ?case by (simp add: Let_def)
next
  case (tagged_ref t i n ts b)
  let ?own = "own_tags t" and ?t = "type (tds ! i)"
  let ?left = "if p then drop 1 ?own else ?own" and ?imp = "p \<and> ?own = [] \<or> t_implicit t"
  have "t_implicit t \<longrightarrow> ?own \<noteq> []" using tagged_ref.hyps(4) by blast
  note drop = drop_effective [OF this, of p ts]
  have "GetTags_loop (Suc (Suc n + k)) libTypesG tds t ?left (p \<and> ?own = []) retVal =
      GetTags_loop (Suc (n + k)) libTypesG tds ?t (if ?imp then drop 1 (own_tags ?t) else own_tags ?t) (?imp \<and> own_tags ?t = []) (retVal @ ?left)"
    using tagged_ref.hyps(1,2) by (subst GetTags_loop.simps(2)) (auto simp: Let_def link_type_def simp del: GetTags_loop.simps)
  then show ?case unfolding tagged_ref.IH by (simp add: drop)
qed

theorem GetTags_tagged:
  assumes "tagged tds n t ts b"
  shows "GetTags (Suc (n + k)) libTypesG tds t = end_of_refs libTypesG k tds (GetTags k libTypesG tds) b ts"
  using loop_tagged [OF assms, of k libTypesG False "[]"] by (simp add: GetTags_def [abs_def])

lemma GetBuiltinType_end: "ref_link (basicType b) = None \<Longrightarrow> GetBuiltinType k tds b = Inr (basicType b)"
  by (simp add: GetBuiltinType_def GetType_def)

theorem GetTags_effective:
  assumes "tagged tds n t ts b" and "ts \<noteq> []" and "libTypesG (basicType b) = Some (cd, fm)"
  shows "GetTags (Suc (n + k)) libTypesG tds t = Inr (with_forms fm ts, False)"
  using assms GetBuiltinType_end [OF tagged_end_type [OF assms(1)]]
  by (auto simp: GetTags_tagged end_of_refs_def set_forms_def split: BasicType.split)

lemma count_tagged:
  "tagged tds n t ts b \<Longrightarrow>
    CountTags_loop (Suc (n + k)) tds t (if p then drop 1 (own_tags t) else own_tags t) (p \<and> own_tags t = []) c =
    Inr (c + length (if p then drop 1 ts else ts))"
proof (induction arbitrary: p c rule: tagged.induct)
  case (tagged_end t)
  then show ?case by (simp add: Let_def)
next
  case (tagged_ref t i n ts b)
  let ?own = "own_tags t" and ?t = "type (tds ! i)"
  let ?left = "if p then drop 1 ?own else ?own" and ?imp = "p \<and> ?own = [] \<or> t_implicit t"
  have "t_implicit t \<longrightarrow> ?own \<noteq> []" using tagged_ref.hyps(4) by blast
  from arg_cong [OF drop_effective [OF this, of p ts], of length]
  have drop: "length (if p then drop 1 (?own @ (if t_implicit t then drop 1 ts else ts)) else ?own @ (if t_implicit t then drop 1 ts else ts)) =
      length ?left + length (if ?imp then drop 1 ts else ts)"
    by simp
  have "CountTags_loop (Suc (Suc n + k)) tds t ?left (p \<and> ?own = []) c =
      CountTags_loop (Suc (n + k)) tds ?t (if ?imp then drop 1 (own_tags ?t) else own_tags ?t) (?imp \<and> own_tags ?t = []) (c + length ?left)"
    using tagged_ref.hyps(1,2) by (subst CountTags_loop.simps(2)) (auto simp: Let_def link_type_def simp del: CountTags_loop.simps)
  then show ?case unfolding tagged_ref.IH by (simp add: drop)
qed

theorem CountTags_effective: "tagged tds n t ts b \<Longrightarrow> CountTags (Suc (n + k)) tds t = Inr (length ts)"
  using count_tagged [of tds n t ts b k False 0] by (simp add: CountTags_def)

section \<open>The first tags of a type\<close>

text \<open>The tag an encoding of a type may begin with: the first of its own, or that of an alternative.\<close>

inductive first_tag :: "lib_types \<Rightarrow> store \<Rightarrow> Type \<Rightarrow> Tag \<Rightarrow> bool" for libTypesG tds where
  first_own: "tagged tds n t ts b \<Longrightarrow> ts \<noteq> [] \<Longrightarrow> libTypesG (basicType b) = Some (cd, fm) \<Longrightarrow>
    first_tag libTypesG tds t (hd (with_forms fm ts))"
| first_alternative: "tagged tds n t [] b \<Longrightarrow> basicType b = BASICTYPE_CHOICE es \<Longrightarrow> e \<in> set es \<Longrightarrow>
    basicType e \<noteq> BASICTYPE BASICTYPE_EXTENSION \<Longrightarrow> first_tag libTypesG tds e tg \<Longrightarrow> first_tag libTypesG tds t tg"

text \<open>An implicit reference has a tag.\<close>

fun implicit_ok :: "Type \<Rightarrow> bool" and elmts_implicit_ok :: "Type list \<Rightarrow> bool" where
  "implicit_ok (Type op im ts df ci xi bt) \<longleftrightarrow> (im \<longrightarrow> ts \<noteq> None \<and> ts \<noteq> Some []) \<and>
     (case bt of
        BASICTYPE_CHOICE es \<Rightarrow> elmts_implicit_ok es | BASICTYPE_SET es \<Rightarrow> elmts_implicit_ok es
      | BASICTYPE_SEQUENCE es \<Rightarrow> elmts_implicit_ok es | BASICTYPE_SETOF t \<Rightarrow> implicit_ok t
      | BASICTYPE_SEQUENCEOF t \<Rightarrow> implicit_ok t | _ \<Rightarrow> True)"
| "elmts_implicit_ok [] \<longleftrightarrow> True"
| "elmts_implicit_ok (e # es) \<longleftrightarrow> implicit_ok e \<and> elmts_implicit_ok es"

lemma implicit_ok_own: "implicit_ok t \<Longrightarrow> t_implicit t \<Longrightarrow> own_tags t \<noteq> []"
  by (cases t) (auto simp: own_tags_def)

lemma elmts_ok: "elmts_implicit_ok es \<longleftrightarrow> (\<forall>e\<in>set es. implicit_ok e)"
  by (induction es) auto

lemma elmts_linked: "linked tds (elmts_refs es) \<longleftrightarrow> (\<forall>e\<in>set es. linked tds (type_refs e))"
  by (induction es) (auto simp: linked_def)

definition sound_type :: "store \<Rightarrow> Type \<Rightarrow> bool" where
  "sound_type tds t \<longleftrightarrow> linked tds (type_refs t) \<and> implicit_ok t"

definition sound_store :: "store \<Rightarrow> bool" where
  "sound_store tds \<longleftrightarrow> list_all (\<lambda>d. sound_type tds (type d)) tds"

lemma sound_ref:
  assumes "sound_type tds t" and "ref_link (basicType t) = Some p"
  shows "\<exists>i. p = Some i \<and> i < length tds"
  using assms by (cases t; cases "basicType t")
    (auto simp: sound_type_def ref_link_def type_refs.simps linked_def split: option.splits)

lemma sound_alternatives:
  assumes "sound_type tds b" and "basicType b = BASICTYPE_CHOICE es" and "e \<in> set es"
  shows "sound_type tds e"
  using assms by (cases b) (auto simp: sound_type_def type_refs.simps elmts_ok elmts_linked)

lemma loop_returns:
  assumes "sound_store tds"
  shows "sound_type tds t \<Longrightarrow> GetTags_loop k libTypesG tds t left imp rv = Inr r \<Longrightarrow>
    \<exists>n ts b. n < k \<and> tagged tds n t ts b \<and> sound_type tds b"
proof (induction k arbitrary: t left imp rv)
  case (Suc k)
  show ?case
  proof (cases "ref_link (basicType t)")
    case None
    from tagged_end [OF this] Suc.prems(1) show ?thesis by blast
  next
    case (Some p)
    with sound_ref [OF Suc.prems(1)] obtain i where i: "p = Some i" "i < length tds" by blast
    let ?t = "type (tds ! i)"
    have "sound_type tds ?t" using assms i(2) by (simp add: sound_store_def list_all_length)
    moreover have "\<exists>left imp rv. GetTags_loop k libTypesG tds ?t left imp rv = Inr r"
      using Suc.prems(2) Some i by (auto simp: Let_def link_type_def split: if_splits)
    ultimately obtain n ts b where n: "n < k" "tagged tds n ?t ts b" "sound_type tds b" using Suc.IH by blast
    have "implicit_ok t" using Suc.prems(1) by (simp add: sound_type_def)
    with Some i n(2) implicit_ok_own have "tagged tds (Suc n) t (own_tags t @ (if t_implicit t then drop 1 ts else ts)) b"
      by (intro tagged_ref) auto
    with n show ?thesis by blast
  qed
qed simp

lemma with_forms_Cons: "ts \<noteq> [] \<Longrightarrow> take 1 (with_forms fm ts) = [hd (with_forms fm ts)]"
  by (cases "with_forms fm ts") (auto simp: with_forms_def)

lemma choice_tags_first:
  assumes "\<And>e tags stole. e \<in> set es \<Longrightarrow> tags_of e = Inr (tags, stole) \<Longrightarrow>
      set (if stole then tags else take 1 tags) = {tg. first_tag libTypesG tds e tg}"
  shows "choice_tags tags_of es = Inr tags \<Longrightarrow>
    set tags = {tg. \<exists>e\<in>set es. basicType e \<noteq> BASICTYPE BASICTYPE_EXTENSION \<and> first_tag libTypesG tds e tg}"
  using assms
proof (induction es arbitrary: tags)
  case (Cons e es)
  from Cons.prems(1) obtain ts stole where e: "tags_of e = Inr (ts, stole)"
    by (cases "tags_of e") (auto split: prod.splits)
  note first = Cons.prems(2) [of e ts stole, OF _ e]
  have IH: "set us = {tg. \<exists>e\<in>set es. basicType e \<noteq> BASICTYPE BASICTYPE_EXTENSION \<and> first_tag libTypesG tds e tg}"
    if "choice_tags tags_of es = Inr us" for us
    by (rule Cons.IH [OF that]) (use Cons.prems(2) in simp)
  show ?case
  proof (cases "basicType e = BASICTYPE BASICTYPE_EXTENSION")
    case True
    with Cons.prems(1) e have "choice_tags tags_of es = Inr tags" by simp
    from IH [OF this] True show ?thesis by auto
  next
    case False
    with Cons.prems(1) e obtain us where us: "choice_tags tags_of es = Inr us"
      "set tags = set (if stole then ts else take 1 ts) \<union> set us"
      by (cases "choice_tags tags_of es"; cases ts) (auto split: if_splits)
    with IH [OF us(1)] first False show ?thesis by auto
  qed
qed simp

theorem GetTags_first:
  assumes "sound_store tds"
  shows "sound_type tds t \<Longrightarrow> GetTags k libTypesG tds t = Inr (tags, stole) \<Longrightarrow>
    set (if stole then tags else take 1 tags) = {tg. first_tag libTypesG tds t tg}"
proof (induction k arbitrary: t tags stole rule: less_induct)
  case (less k)
  from loop_returns [OF assms less.prems(1) less.prems(2) [unfolded GetTags_def]] obtain n ts b where
    n: "n < k" and t: "tagged tds n t ts b" and b: "sound_type tds b" by blast
  then obtain k' where k: "k = Suc (n + k')" using less_imp_Suc_add by blast
  from GetTags_tagged [OF t, of k' libTypesG] less.prems(2) have
    run: "end_of_refs libTypesG k' tds (GetTags k' libTypesG tds) b ts = Inr (tags, stole)" by (simp add: k)
  show ?case
  proof (cases "ts = []")
    case False
    with run obtain cd fm where lib: "libTypesG (basicType b) = Some (cd, fm)" "tags = with_forms fm ts" "\<not> stole"
      using GetBuiltinType_end [OF tagged_end_type [OF t]]
      by (auto simp: end_of_refs_def set_forms_def split: BasicType.splits option.splits)
    have "first_tag libTypesG tds t tg \<longleftrightarrow> tg = hd (with_forms fm ts)" for tg
    proof
      assume "first_tag libTypesG tds t tg"
      then show "tg = hd (with_forms fm ts)"
      proof cases
        case (first_own n' ts' b' cd' fm')
        from tagged_unique [OF t first_own(2)] lib(1) first_own show ?thesis by simp
      next
        case (first_alternative n' b' es e)
        from tagged_unique [OF t first_alternative(1)] False show ?thesis by simp
      qed
    next
      assume "tg = hd (with_forms fm ts)"
      then show "first_tag libTypesG tds t tg" using t False lib(1) by (simp add: first_own)
    qed
    with lib(3) with_forms_Cons [OF False, of fm] show ?thesis by (simp add: lib(2))
  next
    case empty: True
    have none: "first_tag libTypesG tds t tg \<longleftrightarrow>
        (\<exists>es e. basicType b = BASICTYPE_CHOICE es \<and> e \<in> set es \<and> basicType e \<noteq> BASICTYPE BASICTYPE_EXTENSION \<and> first_tag libTypesG tds e tg)" for tg
    proof
      assume "first_tag libTypesG tds t tg"
      then show "\<exists>es e. basicType b = BASICTYPE_CHOICE es \<and> e \<in> set es \<and> basicType e \<noteq> BASICTYPE BASICTYPE_EXTENSION \<and> first_tag libTypesG tds e tg"
      proof cases
        case (first_own n' ts' b' cd' fm')
        from tagged_unique [OF t first_own(2)] empty first_own show ?thesis by simp
      next
        case (first_alternative n' b' es e)
        from tagged_unique [OF t first_alternative(1)] first_alternative show ?thesis by blast
      qed
    qed (use t empty in \<open>auto intro: first_alternative\<close>)
    show ?thesis
    proof (cases "\<exists>es. basicType b = BASICTYPE_CHOICE es")
      case True
      then obtain es where es: "basicType b = BASICTYPE_CHOICE es" ..
      with run empty have "stole" "choice_tags (GetTags k' libTypesG tds) es = Inr tags"
        by (cases "choice_tags (GetTags k' libTypesG tds) es"; auto simp: end_of_refs_def)+
      moreover have "set (if stole then tags else take 1 tags) = {tg. first_tag libTypesG tds e tg}"
        if "e \<in> set es" "GetTags k' libTypesG tds e = Inr (tags, stole)" for e tags stole
        by (rule less.IH [OF _ sound_alternatives [OF b es that(1)] that(2)]) (simp add: k)
      ultimately show ?thesis using choice_tags_first [of es "GetTags k' libTypesG tds" libTypesG tds tags] by (auto simp: none es)
    next
      case False
      with run empty have "tags = []" by (auto simp: end_of_refs_def set_forms_def split: BasicType.splits)
      with False show ?thesis by (auto simp: none)
    qed
  qed
qed

section \<open>Comparing tags\<close>

lemma memcmp_eq: "length xs = length ys \<Longrightarrow> memcmp xs ys = 0 \<longleftrightarrow> xs = ys"
  by (induction xs ys rule: list_induct2) auto

text \<open>Character strings have \<open>ANY_FORM\<close>, of which \<open>MAKE_TAG_ID\<close> makes all ones: their codes are lost, and they are put after
  all other types, of whatever class.\<close>

definition string_type :: "32 word \<Rightarrow> BasicTypeChoiceId \<Rightarrow> Type" where
  "string_type cd i = Type False False (Some [\<lparr>tg_class = UNIV_CLASS, tg_form = PRIM, tg_code = cd, tg_explicit = False\<rparr>]) False None None (BASICTYPE i)"

lemmas run_tags = GetTags_def own_tags_def ref_link_def end_of_refs_def set_forms_def GetBuiltinType_def GetType_def with_forms_def

theorem CmpTags_strings:
  "CmpTags (Suc k) libDERTypesG tds (string_type 22 BASICTYPE_IA5_STR) (string_type 12 BASICTYPE_UTF8_STR) = Inr 0"
  by (simp add: CmpTags_def run_tags string_type_def libDERTypesG_def tag_ids_def uint_octets_def MAKE_TAG_ID_def MAKE_TAG_ID_CODE_def
      MAKE_TAG_ID_CODE1_def)

theorem CmpTags_string_last:
  "CmpTags (Suc k) libDERTypesG tds (string_type 22 BASICTYPE_IA5_STR)
     (Type False False (Some [\<lparr>tg_class = CNTX, tg_form = PRIM, tg_code = 0, tg_explicit = False\<rparr>]) False None None (BASICTYPE BASICTYPE_INTEGER)) = Inr 1"
  by (simp add: CmpTags_def run_tags string_type_def libDERTypesG_def tag_ids_def uint_octets_def MAKE_TAG_ID_def MAKE_TAG_ID_CODE_def
      MAKE_TAG_ID_CODE1_def)

end
