(* ===== verification/Comp_Names.thy ===== *)
theory Comp_Names
  imports Prelude "HOL-Library.Char_ord"
begin

text \<open>
  Names for the generated code: lists of defined objects (\<open>compiler/core/define.c\<close>), key words (\<open>kwd.c\<close> of the C and
  C++ back ends, \<open>py-gen/types.c\<close>) and the string routines of \<open>compiler/back-ends/str-util.c\<close>. A null-terminated
  string is the list of its characters, a string that may be missing an option; character tests are those of the C
  locale, for ASCII characters.
\<close>

section \<open>Lists of defined objects\<close>

definition StrObjCmp :: "string option \<Rightarrow> string option \<Rightarrow> bool" where
  "StrObjCmp s1 s2 \<longleftrightarrow> (if s1 = None \<or> s2 = None then False else s1 = s2)"

definition DefineObj :: "'a list \<Rightarrow> 'a \<Rightarrow> 'a list" where
  "DefineObj objList ob = ob # objList"

primrec UndefineObj :: "'a list \<Rightarrow> 'a \<Rightarrow> ('a \<Rightarrow> 'a \<Rightarrow> bool) \<Rightarrow> 'a list" where
  "UndefineObj [] ob cmpRoutine = []"
| "UndefineObj (x # objList) ob cmpRoutine =
     (if cmpRoutine x ob then UndefineObj objList ob cmpRoutine else x # UndefineObj objList ob cmpRoutine)"

primrec ObjIsDefined :: "'a list \<Rightarrow> 'a \<Rightarrow> ('a \<Rightarrow> 'a \<Rightarrow> bool) \<Rightarrow> bool" where
  "ObjIsDefined [] ob cmpRoutine = False"
| "ObjIsDefined (x # objList) ob cmpRoutine = (if cmpRoutine x ob then True else ObjIsDefined objList ob cmpRoutine)"

text \<open>A set of names: an object is defined once it has been defined and until it has been undefined. All identical
  objects are removed, not only the first.\<close>

lemma ObjIsDefined_str: "ObjIsDefined names (Some s) StrObjCmp \<longleftrightarrow> Some s \<in> set names"
  by (induction names) (auto simp: StrObjCmp_def)

lemma UndefineObj_filter: "UndefineObj names ob cmp = filter (\<lambda>x. \<not> cmp x ob) names"
  by (induction names) auto

theorem names_as_set:
  "ObjIsDefined [] (Some s) StrObjCmp = False"
  "ObjIsDefined (DefineObj names (Some t)) (Some s) StrObjCmp \<longleftrightarrow> s = t \<or> ObjIsDefined names (Some s) StrObjCmp"
  "ObjIsDefined (UndefineObj names (Some t) StrObjCmp) (Some s) StrObjCmp \<longleftrightarrow> s \<noteq> t \<and> ObjIsDefined names (Some s) StrObjCmp"
  by (auto simp: ObjIsDefined_str DefineObj_def UndefineObj_filter StrObjCmp_def)

section \<open>Key words\<close>

definition cKWdG :: "string list" where
  "cKWdG = [''auto'', ''break'', ''case'', ''char'', ''const'', ''continue'',
     ''default'', ''do'', ''double'', ''else'', ''enum'', ''extern'',
     ''float'', ''for'', ''goto'', ''if'', ''int'', ''long'', ''register'',
     ''return'', ''short'', ''signed'', ''sizeof'', ''static'', ''struct'',
     ''switch'', ''typedef'', ''union'', ''unsigned'', ''void'', ''volatile'',
     ''while'']"

text \<open>Nothing in the repository defines \<open>BOOL_BUILTIN\<close>.\<close>

definition cxxKWdG :: "string list" where
  "cxxKWdG = [''asm'', ''auto'', ''break'', ''case'', ''catch'', ''char'', ''class'', ''const'',
     ''continue'', ''default'', ''delete'', ''do'', ''double'', ''else'', ''enum'',
     ''extern'', ''float'', ''for'', ''friend'', ''goto'', ''if'', ''inline'', ''int'',
     ''long'', ''new'', ''operator'', ''private'', ''protected'', ''public'',
     ''register'', ''return'', ''short'', ''signed'', ''sizeof'', ''static'',
     ''struct'', ''switch'', ''template'', ''this'', ''throw'', ''try'', ''typedef'',
     ''union'', ''unsigned'', ''virtual'', ''void'', ''volatile'', ''while'']"

definition pykwds :: "string list" where
  "pykwds = [''False'', ''class'', ''finally'', ''is'', ''return'', ''None'', ''continue'', ''for'', ''lambda'', ''try'',
     ''True'', ''def'', ''from'', ''nonlocal'', ''while'', ''and'', ''del'', ''global'', ''not'', ''with'',
     ''as'', ''elif'', ''if'', ''or'', ''yield'', ''assert'', ''else'', ''import'', ''pass'',
     ''break'', ''except'', ''in'', ''raise'']"

definition IsCKeyWord :: "string \<Rightarrow> bool" where
  "IsCKeyWord str = list_ex (\<lambda>kw. kw = str) cKWdG"

definition IsCxxKeyWord :: "string \<Rightarrow> bool" where
  "IsCxxKeyWord str = list_ex (\<lambda>kw. kw = str) cxxKWdG"

definition IsPyKeyWord :: "string \<Rightarrow> bool" where
  "IsPyKeyWord str = list_ex (\<lambda>kw. kw = str) pykwds"

section \<open>Characters\<close>

definition isupper :: "char \<Rightarrow> bool" where
  "isupper c \<longleftrightarrow> CHR ''A'' \<le> c \<and> c \<le> CHR ''Z''"

definition islower :: "char \<Rightarrow> bool" where
  "islower c \<longleftrightarrow> CHR ''a'' \<le> c \<and> c \<le> CHR ''z''"

definition isdigit :: "char \<Rightarrow> bool" where
  "isdigit c \<longleftrightarrow> CHR ''0'' \<le> c \<and> c \<le> CHR ''9''"

definition toupper :: "char \<Rightarrow> char" where
  "toupper c = (if islower c then char_of (of_char c - (32 :: nat)) else c)"

definition tolower :: "char \<Rightarrow> char" where
  "tolower c = (if isupper c then char_of (of_char c + (32 :: nat)) else c)"

definition GetCaps :: "string option \<Rightarrow> string option" where
  "GetCaps str = map_option (filter isupper) str"

definition GetCapsAndDigits :: "string option \<Rightarrow> string option" where
  "GetCapsAndDigits str = map_option (filter (\<lambda>c. isupper c \<or> isdigit c)) str"

text \<open>The routines that change the first \<open>len\<close> characters in place; \<open>len\<close> is at most the length.\<close>

definition change_chars :: "(char \<Rightarrow> char) \<Rightarrow> string \<Rightarrow> int \<Rightarrow> string" where
  "change_chars f str len = map f (take (nat len) str) @ drop (nat len) str"

definition Str2UCase :: "string \<Rightarrow> int \<Rightarrow> string" where
  "Str2UCase str len = change_chars (\<lambda>c. if islower c then toupper c else c) str len"

definition Str2LCase :: "string \<Rightarrow> int \<Rightarrow> string" where
  "Str2LCase str len = change_chars (\<lambda>c. if isupper c then tolower c else c) str len"

definition Dash2Underscore :: "string \<Rightarrow> int \<Rightarrow> string" where
  "Dash2Underscore str len = change_chars (\<lambda>c. if c = CHR ''-'' then CHR ''_'' else c) str len"

definition Asn1TypeName2CTypeName :: "string option \<Rightarrow> string option" where
  "Asn1TypeName2CTypeName aName =
     (case aName of None \<Rightarrow> None | Some str \<Rightarrow> Some (Dash2Underscore str (int (length str))))"

definition Asn1FieldName2CFieldName :: "string option \<Rightarrow> string option" where
  "Asn1FieldName2CFieldName aName =
     (case aName of None \<Rightarrow> None | Some str \<Rightarrow> Some (Dash2Underscore str (int (length str))))"

definition Asn1ValueName2CValueName :: "string option \<Rightarrow> string option" where
  "Asn1ValueName2CValueName aName =
     (case aName of None \<Rightarrow> None | Some str \<Rightarrow> Some (Dash2Underscore str (int (length str))))"

section \<open>Making names unique\<close>

definition DIGIT_TO_ASCII :: "int \<Rightarrow> char" where
  "DIGIT_TO_ASCII d = char_of (nat (d mod 10 + 48))"

function digit_loop :: "int \<Rightarrow> int \<Rightarrow> string" where
  "digit_loop high digit =
     (if high > 0 then
        (let value = digit div high
         in (if value \<noteq> 0 then [DIGIT_TO_ASCII value] else []) @ digit_loop (high div 10) (digit mod high))
      else [])"
  by pat_completeness auto
termination by (relation "measure (\<lambda>(high, digit). nat high)") auto

declare digit_loop.simps [simp del]

text \<open>For a \<open>digit\<close> above \<open>- 2 ^ 31\<close>, whose negation overflows.\<close>

definition AppendDigit :: "string \<Rightarrow> int \<Rightarrow> string" where
  "AppendDigit str digit =
     (let digitStr = digit_loop 1000000000 (if digit < 0 then digit * - 1 else digit)
      in if digitStr = [] then str @ ''0'' else str @ digitStr)"

text \<open>The loop: digits are tried until the name is not defined or the next digit is \<open>maxDigitVal\<close>.\<close>

function unique_loop :: "(string \<Rightarrow> bool) \<Rightarrow> string \<Rightarrow> int \<Rightarrow> int \<Rightarrow> string" where
  "unique_loop defined base maxDigitVal digit =
     (let str = AppendDigit base digit; digit = digit + 1
      in if defined str \<and> digit < maxDigitVal then unique_loop defined base maxDigitVal digit else str)"
  by pat_completeness auto
termination by (relation "measure (\<lambda>(defined, base, maxDigitVal, digit). nat (maxDigitVal - digit))") auto

declare unique_loop.simps [simp del]

text \<open>What the three routines have in common; \<open>maxDigits\<close> is below 10, else \<open>maxDigitVal\<close> overflows.\<close>

definition make_unique :: "(string \<Rightarrow> bool) \<Rightarrow> string option list \<Rightarrow> string \<Rightarrow> int \<Rightarrow> int \<Rightarrow> string" where
  "make_unique IsKeyWord nameList str maxDigits startingDigit =
     (if ObjIsDefined nameList (Some str) StrObjCmp \<or> IsKeyWord str then
        unique_loop (\<lambda>s. ObjIsDefined nameList (Some s) StrObjCmp) str (10 ^ nat maxDigits) startingDigit
      else str)"

definition MakeCStrUnique :: "string option list \<Rightarrow> string \<Rightarrow> int \<Rightarrow> int \<Rightarrow> string" where
  "MakeCStrUnique nameList str maxDigits startingDigit = make_unique IsCKeyWord nameList str maxDigits startingDigit"

definition MakeCxxStrUnique :: "string option list \<Rightarrow> string \<Rightarrow> int \<Rightarrow> int \<Rightarrow> string" where
  "MakeCxxStrUnique nameList str maxDigits startingDigit = make_unique IsCxxKeyWord nameList str maxDigits startingDigit"

definition MakePyStrUnique :: "string option list \<Rightarrow> string \<Rightarrow> int \<Rightarrow> int \<Rightarrow> string" where
  "MakePyStrUnique nameList str maxDigits startingDigit = make_unique IsPyKeyWord nameList str maxDigits startingDigit"

section \<open>File names\<close>

text \<open>The loop from the end of \<open>path\<close> to the last separator; the character at index 0 is not looked at.\<close>

fun file_name_loop :: "string \<Rightarrow> nat \<Rightarrow> nat" where
  "file_name_loop path i =
     (if i = 0 then 0
      else if i < length path \<and> (path ! i = CHR 0x5C \<or> path ! i = CHR ''/'') then i + 1
      else file_name_loop path (i - 1))"

declare file_name_loop.simps [simp del]

definition FileNameOnly :: "string \<Rightarrow> string" where
  "FileNameOnly path = drop (file_name_loop path (length path)) path"

definition MakeFileName :: "bool \<Rightarrow> string option \<Rightarrow> string \<Rightarrow> string \<Rightarrow> string" where
  "MakeFileName keepbaseG OutputDirectoryName refName suffix =
     (let fName =
        (if keepbaseG then FileNameOnly refName @ suffix
         else let fName = refName @ suffix
              in Str2LCase (Dash2Underscore fName (int (length fName))) (int (length fName) - int (length suffix)))
      in case OutputDirectoryName of Some dir \<Rightarrow> dir @ fName | None \<Rightarrow> fName)"

definition MakeCHdrFileName :: "bool \<Rightarrow> string option \<Rightarrow> string \<Rightarrow> string" where
  "MakeCHdrFileName keepbaseG dir refName = MakeFileName keepbaseG dir refName ''.h''"

definition MakeCSrcFileName :: "bool \<Rightarrow> string option \<Rightarrow> string \<Rightarrow> string" where
  "MakeCSrcFileName keepbaseG dir refName = MakeFileName keepbaseG dir refName ''.c''"

definition MakeCxxHdrFileName :: "bool \<Rightarrow> string option \<Rightarrow> string \<Rightarrow> string" where
  "MakeCxxHdrFileName keepbaseG dir refName = MakeFileName keepbaseG dir refName ''.h''"

definition MakeCxxSrcFileName :: "bool \<Rightarrow> string option \<Rightarrow> string \<Rightarrow> string" where
  "MakeCxxSrcFileName keepbaseG dir refName = MakeFileName keepbaseG dir refName ''.cpp''"

definition MakePySrcFileName :: "bool \<Rightarrow> string option \<Rightarrow> string \<Rightarrow> string" where
  "MakePySrcFileName keepbaseG dir refName =
     MakeFileName keepbaseG dir (Dash2Underscore refName (int (length refName))) ''.py''"

definition StoreOutputDirectory :: "string \<Rightarrow> stop + string" where
  "StoreOutputDirectory dir =
     (if dir = [] then Inl Fault else Inr (if last dir \<noteq> CHR ''/'' then dir @ ''/'' else dir))"

section \<open>The digits appended\<close>

text \<open>\<open>AppendDigit\<close> leaves out zeros. Numbers without zeros are appended as they are: \<open>num ds\<close> has the digits \<open>ds\<close>.\<close>

primrec num :: "int list \<Rightarrow> int" where
  "num [] = 0"
| "num (d # ds) = d * 10 ^ length ds + num ds"

abbreviation digits :: "int list \<Rightarrow> bool" where
  "digits ds \<equiv> list_all (\<lambda>d. 1 \<le> d \<and> d \<le> 9) ds"

lemma num_bounds: "digits ds \<Longrightarrow> 0 \<le> num ds \<and> num ds < 10 ^ length ds"
proof (induction ds)
  case (Cons d ds)
  then have d: "1 \<le> d" "d \<le> 9" and ih: "0 \<le> num ds" "num ds < 10 ^ length ds" by auto
  from d(2) have "d * 10 ^ length ds \<le> 9 * 10 ^ length ds" by (intro mult_right_mono) simp_all
  moreover have "0 \<le> d * 10 ^ length ds" using d(1) by simp
  ultimately have "0 \<le> d * 10 ^ length ds + num ds" "d * 10 ^ length ds + num ds < 10 * 10 ^ length ds" using ih by linarith+
  then show ?case by simp
qed simp

lemma num_pos: "digits ds \<Longrightarrow> ds \<noteq> [] \<Longrightarrow> 1 \<le> num ds"
  using num_bounds [of "tl ds"] by (cases ds) (auto simp: int_one_le_iff_zero_less intro!: add_pos_nonneg)

lemma digit_loop_digits:
  "digits ds \<Longrightarrow> length ds \<le> Suc k \<Longrightarrow> digit_loop (10 ^ k) (num ds) = map DIGIT_TO_ASCII ds"
proof (induction k arbitrary: ds)
  case 0
  then consider "ds = []" | d where "ds = [d]" "1 \<le> d" by (cases ds) auto
  then show ?case by cases (simp_all add: digit_loop.simps)
next
  case (Suc k)
  show ?case
  proof (cases "length ds = Suc (Suc k)")
    case True
    then obtain d es where ds: "ds = d # es" "length es = Suc k" by (cases ds) auto
    with Suc.prems have d: "1 \<le> d" "digits es" by auto
    note b = num_bounds [OF d(2)]
    have "num ds div 10 ^ Suc k = d" "num ds mod 10 ^ Suc k = num es"
      using b by (simp_all add: ds)
    with Suc.IH [OF d(2)] d(1) ds show ?thesis by (subst digit_loop.simps) (simp add: Let_def)
  next
    case False
    with Suc.prems have l: "length ds \<le> Suc k" by simp
    have "num ds < 10 ^ length ds" using num_bounds [OF Suc.prems(1)] by simp
    also have "\<dots> \<le> (10 :: int) ^ Suc k" using l by (rule power_increasing) simp
    finally have "num ds div 10 ^ Suc k = 0" "num ds mod 10 ^ Suc k = num ds"
      using num_bounds [OF Suc.prems(1)] by simp_all
    with Suc.IH [OF Suc.prems(1) l] show ?thesis by (subst digit_loop.simps) (simp add: Let_def)
  qed
qed

lemma AppendDigit_num:
  assumes "digits ds" and "ds \<noteq> []" and "length ds \<le> 10"
  shows "AppendDigit str (num ds) = str @ map DIGIT_TO_ASCII ds"
  using digit_loop_digits [of ds 9] num_bounds [OF assms(1)] assms by (simp add: AppendDigit_def)

lemma DIGIT_TO_ASCII_inj: "inj_on DIGIT_TO_ASCII {1..9}"
proof (rule inj_onI)
  fix x y :: int assume xy: "x \<in> {1..9}" "y \<in> {1..9}" "DIGIT_TO_ASCII x = DIGIT_TO_ASCII y"
  have code: "of_char (DIGIT_TO_ASCII z) = nat z + 48" if "z \<in> {1..9}" for z
  proof -
    have "nat z + 48 < 256" using that by (simp; linarith)
    with that show ?thesis by (simp add: DIGIT_TO_ASCII_def nat_add_distrib)
  qed
  have "nat x + 48 = nat y + 48" unfolding code [OF xy(1), symmetric] code [OF xy(2), symmetric] xy(3) ..
  moreover have "0 \<le> x" "0 \<le> y" using xy(1,2) by simp_all
  ultimately show "x = y" by (simp add: eq_nat_nat_iff)
qed

text \<open>A number below \<open>10 ^ n\<close> takes at most \<open>n\<close> characters, all of them digits.\<close>

lemma digit_loop_length: "0 \<le> d \<Longrightarrow> d < 10 ^ n \<Longrightarrow> length (digit_loop (10 ^ k) d) \<le> n"
proof (induction k arbitrary: d n)
  case 0
  then show ?case by (cases n) (auto simp: digit_loop.simps)
next
  case (Suc k)
  have high: "(10 :: int) ^ Suc k div 10 = 10 ^ k" by simp
  show ?case
  proof (cases "d div 10 ^ Suc k = 0")
    case True
    then have "d mod 10 ^ Suc k = d" by (metis div_mult_mod_eq add_0 mult_zero_left)
    with Suc.IH [OF Suc.prems] True show ?thesis by (subst digit_loop.simps) (simp add: Let_def del: power_Suc, simp)
  next
    case False
    have "Suc k < n"
    proof (rule ccontr)
      assume "\<not> Suc k < n"
      then have "(10 :: int) ^ n \<le> 10 ^ Suc k" by (intro power_increasing) simp_all
      with Suc.prems False show False by (simp add: div_pos_pos_trivial)
    qed
    have "d mod 10 ^ Suc k < 10 ^ Suc k" by simp
    with Suc.IH [of "d mod 10 ^ Suc k" "Suc k"] have "length (digit_loop (10 ^ k) (d mod 10 ^ Suc k)) \<le> Suc k" by simp
    with \<open>Suc k < n\<close> show ?thesis by (subst digit_loop.simps) (simp add: Let_def)
  qed
qed

lemma isdigit_ascii: "isdigit (DIGIT_TO_ASCII d)"
proof -
  have "0 \<le> d mod 10" "d mod 10 \<le> 9" by simp_all
  then have "nat (d mod 10 + 48) < 256" "48 \<le> nat (d mod 10 + 48)" "nat (d mod 10 + 48) \<le> 57" by linarith+
  then show ?thesis by (simp only: isdigit_def DIGIT_TO_ASCII_def less_eq_char_def of_char_of) simp
qed

lemma digit_loop_isdigit: "list_all isdigit (digit_loop high d)"
proof (induction high d rule: digit_loop.induct)
  case (1 high d)
  then show ?case by (subst digit_loop.simps) (simp add: Let_def isdigit_ascii)
qed

lemma AppendDigit_suffix:
  assumes "0 \<le> d" and "d < 10 ^ n" and "1 \<le> n"
  obtains suffix where "AppendDigit str d = str @ suffix" and "suffix \<noteq> []" and "length suffix \<le> n" and "list_all isdigit suffix"
proof (cases "digit_loop 1000000000 d = []")
  case True
  with assms show thesis by (intro that [of "''0''"]) (simp_all add: AppendDigit_def isdigit_def)
next
  case False
  moreover have "length (digit_loop 1000000000 d) \<le> n" using digit_loop_length [OF assms(1,2), of 9] by simp
  ultimately show thesis using assms digit_loop_isdigit by (intro that [of "digit_loop 1000000000 d"]) (simp_all add: AppendDigit_def)
qed

section \<open>The name found\<close>

lemma unique_loop_form:
  "\<exists>d. digit \<le> d \<and> (d = digit \<or> d < maxDigitVal) \<and> unique_loop defined base maxDigitVal digit = AppendDigit base d"
proof (induction defined base maxDigitVal digit rule: unique_loop.induct)
  case (1 defined base maxDigitVal digit)
  show ?case
  proof (cases "defined (AppendDigit base digit) \<and> digit + 1 < maxDigitVal")
    case True
    from "1.IH" [OF refl refl True] True obtain d where "digit + 1 \<le> d" "d = digit + 1 \<or> d < maxDigitVal"
      "unique_loop defined base maxDigitVal (digit + 1) = AppendDigit base d" by blast
    with True show ?thesis by (subst unique_loop.simps) (auto simp: Let_def intro!: exI [of _ d])
  qed (subst unique_loop.simps, auto simp: Let_def)
qed

lemma unique_loop_fresh:
  "digit \<le> d \<Longrightarrow> d < maxDigitVal \<Longrightarrow> \<not> defined (AppendDigit base d) \<Longrightarrow> \<not> defined (unique_loop defined base maxDigitVal digit)"
proof (induction defined base maxDigitVal digit rule: unique_loop.induct)
  case (1 defined base maxDigitVal digit)
  show ?case
  proof (cases "defined (AppendDigit base digit) \<and> digit + 1 < maxDigitVal")
    case True
    then have "digit \<noteq> d" using "1.prems"(3) by auto
    with "1.IH" [OF refl refl True] True "1.prems" show ?thesis by (subst unique_loop.simps) (simp add: Let_def)
  next
    case False
    have "\<not> defined (AppendDigit base digit)"
    proof
      assume "defined (AppendDigit base digit)"
      with False have "maxDigitVal \<le> digit + 1" by simp
      with "1.prems" have "digit = d" by simp
      with "1.prems"(3) \<open>defined (AppendDigit base digit)\<close> show False by simp
    qed
    then show ?thesis by (subst unique_loop.simps) (simp add: Let_def)
  qed
qed

lemma free_name:
  assumes "finite names" and "card names < 9 ^ m"
  obtains ds where "digits ds" and "length ds = m" and "Some (str @ map DIGIT_TO_ASCII ds) \<notin> names"
proof (rule ccontr)
  let ?D = "{ds. set ds \<subseteq> {1..9 :: int} \<and> length ds = m}" and ?f = "\<lambda>ds. Some (str @ map DIGIT_TO_ASCII ds)"
  have inj: "inj_on ?f ?D"
  proof (rule inj_onI)
    fix xs ys assume xy: "xs \<in> ?D" "ys \<in> ?D" "?f xs = ?f ys"
    then have "map DIGIT_TO_ASCII xs = map DIGIT_TO_ASCII ys" by simp
    moreover have "inj_on DIGIT_TO_ASCII (set xs \<union> set ys)" by (rule inj_on_subset [OF DIGIT_TO_ASCII_inj]) (use xy in auto)
    ultimately show "xs = ys" by (simp add: inj_on_map_eq_map)
  qed
  assume no: "\<not> thesis"
  have "?f ` ?D \<subseteq> names"
  proof
    fix n assume "n \<in> ?f ` ?D"
    then obtain ds where ds: "n = ?f ds" "set ds \<subseteq> {1..9}" "length ds = m" by auto
    show "n \<in> names"
    proof (rule ccontr)
      assume "n \<notin> names"
      moreover have "digits ds" using ds(2) by (auto simp: list_all_iff)
      ultimately show False using no that [of ds] ds by blast
    qed
  qed
  then have "card (?f ` ?D) \<le> card names" by (rule card_mono [OF assms(1)])
  moreover have "card (?f ` ?D) = 9 ^ m"
    unfolding card_image [OF inj] using card_lists_length_eq [of "{1..9 :: int}" m] by simp
  ultimately show False using assms(2) by simp
qed

theorem make_unique_fresh:
  assumes few: "card (set nameList) < 9 ^ m" and m: "1 \<le> m" "m \<le> 9" and start: "0 \<le> startingDigit" "startingDigit \<le> 1"
    and kws: "\<And>kw. IsKeyWord kw \<Longrightarrow> \<not> isdigit (last kw)"
  shows "Some (make_unique IsKeyWord nameList str (int m) startingDigit) \<notin> set nameList"
    and "\<not> IsKeyWord (make_unique IsKeyWord nameList str (int m) startingDigit)"
    and "\<exists>suffix. make_unique IsKeyWord nameList str (int m) startingDigit = str @ suffix \<and> length suffix \<le> m"
proof -
  let ?r = "make_unique IsKeyWord nameList str (int m) startingDigit" and ?def = "\<lambda>s. ObjIsDefined nameList (Some s) StrObjCmp"
  have "Some ?r \<notin> set nameList \<and> \<not> IsKeyWord ?r \<and> (\<exists>suffix. ?r = str @ suffix \<and> length suffix \<le> m)"
  proof (cases "?def str \<or> IsKeyWord str")
    case False
    then show ?thesis by (simp add: make_unique_def ObjIsDefined_str)
  next
    case True
    then have r: "?r = unique_loop ?def str (10 ^ m) startingDigit" by (simp add: make_unique_def)
    from free_name [OF _ few] obtain ds where ds: "digits ds" "length ds = m" "Some (str @ map DIGIT_TO_ASCII ds) \<notin> set nameList"
      by (metis finite_set)
    from ds(2) m have "ds \<noteq> []" "length ds \<le> 10" by auto
    note app = AppendDigit_num [OF ds(1) this, of str] and pos = num_pos [OF ds(1) this(1)] num_bounds [OF ds(1)]
    have "\<not> ?def (unique_loop ?def str (10 ^ m) startingDigit)"
      by (rule unique_loop_fresh [of _ "num ds"]) (use pos start ds app in \<open>auto simp: ObjIsDefined_str\<close>)
    then have fresh: "Some ?r \<notin> set nameList" by (simp add: r ObjIsDefined_str)
    obtain d where d: "startingDigit \<le> d" "d = startingDigit \<or> d < 10 ^ m" "?r = AppendDigit str d"
      using unique_loop_form [of startingDigit "10 ^ m" ?def str] by (auto simp: r)
    have "(10 :: int) ^ 1 \<le> 10 ^ m" using m(1) by (rule power_increasing) simp
    then have "0 \<le> d" "d < 10 ^ m" using d start by auto
    from AppendDigit_suffix [OF this m(1), of str] obtain suffix where
      suffix: "?r = str @ suffix" "suffix \<noteq> []" "length suffix \<le> m" "list_all isdigit suffix" unfolding d(3) by blast
    then have "isdigit (last ?r)" by (simp add: list_all_iff)
    with kws have "\<not> IsKeyWord ?r" by blast
    with fresh suffix show ?thesis by blast
  qed
  then show "Some ?r \<notin> set nameList" "\<not> IsKeyWord ?r" "\<exists>suffix. ?r = str @ suffix \<and> length suffix \<le> m" by blast+
qed

lemma keywords_no_digit:
  "IsCKeyWord kw \<Longrightarrow> \<not> isdigit (last kw)" "IsCxxKeyWord kw \<Longrightarrow> \<not> isdigit (last kw)" "IsPyKeyWord kw \<Longrightarrow> \<not> isdigit (last kw)"
proof -
  have "list_all (\<lambda>kw. \<not> isdigit (last kw)) cKWdG" "list_all (\<lambda>kw. \<not> isdigit (last kw)) cxxKWdG"
    "list_all (\<lambda>kw. \<not> isdigit (last kw)) pykwds"
    by (simp_all add: cKWdG_def cxxKWdG_def pykwds_def isdigit_def)
  then show "IsCKeyWord kw \<Longrightarrow> \<not> isdigit (last kw)" "IsCxxKeyWord kw \<Longrightarrow> \<not> isdigit (last kw)" "IsPyKeyWord kw \<Longrightarrow> \<not> isdigit (last kw)"
    by (auto simp: IsCKeyWord_def IsCxxKeyWord_def IsPyKeyWord_def list_ex_iff list_all_iff)
qed

end
