(* ===== verification/Comp_Norm.thy ===== *)
theory Comp_Norm
  imports Comp_Tags Comp_Names
begin

text \<open>
  Two steps of \<open>compiler/core/normalize.c\<close>: giving a type inside another one a definition and a name of its own
  (\<open>AddConsTypeDef\<close>), and making tagged references implicit where the module says so (\<open>NormalizeType\<close>). Neither changes
  the tags values are encoded with.
\<close>

section \<open>The code\<close>

definition LookupType :: "store \<Rightarrow> nat list \<Rightarrow> string \<Rightarrow> nat option" where
  "LookupType tds typeDefList typeName = find (\<lambda>td. typeName = definedName (tds ! td)) typeDefList"

text \<open>The loop that makes a name unique. There is space for three characters after \<open>base\<close>.\<close>

primrec def_name_loop :: "nat \<Rightarrow> (string \<Rightarrow> bool) \<Rightarrow> string \<Rightarrow> string \<Rightarrow> int \<Rightarrow> stop + string" where
  "def_name_loop 0 is_used base nm digit = Inl NoFuel"
| "def_name_loop (Suc k) is_used base nm digit =
     (if is_used nm then
        (let nm = AppendDigit base digit
         in if length nm > length base + 3 then Inl Fault else def_name_loop k is_used base nm (digit + 1))
      else Inr nm)"

text \<open>The result: the store with the new definition at its end, the definitions of the module, and the type, now a
  reference. New memory is zero.\<close>

definition AddConsTypeDef ::
  "nat \<Rightarrow> lib_types \<Rightarrow> store \<Rightarrow> nat list \<Rightarrow> nat \<Rightarrow> Type \<Rightarrow> string \<Rightarrow> stop + store \<times> nat list \<times> Type" where
  "AddConsTypeDef fuel libTypesG tds typeDefs td t suffix =
     (let base = definedName (tds ! td) @ suffix
      in case def_name_loop fuel (\<lambda>nm. LookupType tds typeDefs nm \<noteq> None) base base 1 of
        Inl e \<Rightarrow> Inl e
      | Inr nm \<Rightarrow>
          (case libTypesG (basicType t) of
             None \<Rightarrow> Inl Fault
           | Some (cd, _) \<Rightarrow>
               let universal = \<lparr>tg_class = UNIV_CLASS, tg_form = PRIM, tg_code = code_val cd, tg_explicit = False\<rparr>;
                   newTags = (if cd \<noteq> NO_TAG_CODE then [universal] else []);
                   lastTag = last (own_tags t);
                   (tags, imp) =
                     (if cd \<noteq> NO_TAG_CODE \<and> own_tags t \<noteq> [] then
                        if tg_class lastTag = UNIV_CLASS \<and> tg_code lastTag = code_val cd then (Some (butlast (own_tags t)), False)
                        else (t_tags t, True)
                      else (t_tags t, t_implicit t));
                   newDef = \<lparr>definedName = nm, type = Type False False (Some newTags) False None None (basicType t),
                     recursive = False, localRefCount = 1, cTypeDefInfo = False\<rparr>
               in Inr (tds @ [newDef], length tds # typeDefs,
                    Type (t_optional t) imp tags (t_default t) (cTypeRefInfo t) (cxxTypeRefInfo t)
                      (BASICTYPE_LOCALTYPEREF (Some (length tds))))))"

datatype tag_default = EXPLICIT_TAGS | IMPLICIT_TAGS | AUTOMATIC_TAGS

text \<open>The second half of \<open>NormalizeType\<close>.\<close>

definition make_ref_implicit :: "nat \<Rightarrow> tag_default \<Rightarrow> store \<Rightarrow> Type \<Rightarrow> stop + Type" where
  "make_ref_implicit fuel tagDefault tds t =
     (if tagDefault = IMPLICIT_TAGS \<and> own_tags t \<noteq> [] \<and> \<not> tg_explicit (last (own_tags t)) then
        (case ref_link (basicType t) of
           None \<Rightarrow> Inr t
         | Some p \<Rightarrow>
             (case link_type tds p of Inl e \<Rightarrow> Inl e | Inr t' \<Rightarrow>
               (case CountTags fuel tds t' of Inl e \<Rightarrow> Inl e | Inr n \<Rightarrow>
                 Inr (if n \<noteq> 0 then Type (t_optional t) True (t_tags t) (t_default t) (cTypeRefInfo t) (cxxTypeRefInfo t) (basicType t)
                      else t))))
      else Inr t)"

section \<open>The new name\<close>

lemma LookupType_None: "LookupType tds ps nm = None \<longleftrightarrow> nm \<notin> (\<lambda>p. definedName (tds ! p)) ` set ps"
  by (auto simp: LookupType_def find_None_iff)

lemma def_name_loop_finds:
  assumes "1 \<le> d" and "d < 1000" and "\<not> is_used (AppendDigit base d)"
  shows "1 \<le> digit \<Longrightarrow> digit \<le> d \<Longrightarrow> d - digit < int k \<Longrightarrow> length nm \<le> length base + 3 \<Longrightarrow> (\<exists>s. nm = base @ s) \<Longrightarrow>
    \<exists>s. def_name_loop (Suc k) is_used base nm digit = Inr (base @ s) \<and> length s \<le> 3 \<and> \<not> is_used (base @ s)"
proof (induction k arbitrary: digit nm)
  case (Suc k)
  have "digit < 10 ^ 3" "0 \<le> digit" using Suc.prems(1,2) assms(2) by simp_all
  from AppendDigit_suffix [OF this(2,1), of base] obtain s where
    s: "AppendDigit base digit = base @ s" "length s \<le> 3" by (metis one_le_numeral)
  show ?case
  proof (cases "is_used nm")
    case True
    show ?thesis
    proof (cases "digit = d")
      case True
      with \<open>is_used nm\<close> s assms(3) show ?thesis by (auto simp: Let_def)
    next
      case False
      then have "\<exists>s'. def_name_loop (Suc k) is_used base (base @ s) (digit + 1) = Inr (base @ s') \<and> length s' \<le> 3 \<and> \<not> is_used (base @ s')"
        using Suc.prems s by (intro Suc.IH) auto
      with \<open>is_used nm\<close> s show ?thesis by (subst def_name_loop.simps(2)) (simp add: Let_def del: def_name_loop.simps)
    qed
  next
    case False
    with Suc.prems show ?thesis by auto
  qed
qed simp

theorem def_name_unique:
  assumes "length ps < 9 ^ 3" and "1000 \<le> fuel"
  shows "\<exists>s. def_name_loop fuel (\<lambda>nm. LookupType tds ps nm \<noteq> None) base base 1 = Inr (base @ s) \<and> length s \<le> 3 \<and>
    LookupType tds ps (base @ s) = None"
proof -
  let ?names = "Some ` (\<lambda>p. definedName (tds ! p)) ` set ps"
  have "card ?names \<le> card (set ps)" by (meson card_image_le finite_imageI finite_set le_trans)
  with assms(1) have "card ?names < 9 ^ 3" using card_length [of ps] by linarith
  from free_name [OF _ this, of base] obtain ds where ds: "digits ds" "length ds = 3" "Some (base @ map DIGIT_TO_ASCII ds) \<notin> ?names"
    by blast
  have "ds \<noteq> []" "length ds \<le> 10" using ds(2) by auto
  note app = AppendDigit_num [OF ds(1) this, of base]
  have "1 \<le> num ds" "num ds < 1000" using num_pos [OF ds(1) \<open>ds \<noteq> []\<close>] num_bounds [OF ds(1)] ds(2) by simp_all
  moreover obtain k where k: "fuel = Suc k" "999 \<le> k" using assms(2) by (cases fuel) auto
  moreover have "base @ map DIGIT_TO_ASCII ds \<notin> (\<lambda>p. definedName (tds ! p)) ` set ps" using ds(3) by auto
  then have "LookupType tds ps (AppendDigit base (num ds)) = None" unfolding app LookupType_None .
  ultimately show ?thesis
    using def_name_loop_finds [of "num ds" "\<lambda>nm. LookupType tds ps nm \<noteq> None" base 1 k base] by auto
qed

text \<open>So the names of a module stay different.\<close>

theorem AddConsTypeDef_names:
  assumes "length ps < 9 ^ 3" and "1000 \<le> fuel" and "list_all (\<lambda>p. p < length tds) ps"
    and "distinct (map (\<lambda>p. definedName (tds ! p)) ps)" and "libTypesG (basicType t) \<noteq> None"
  shows "\<exists>tds' ps' t'. AddConsTypeDef fuel libTypesG tds ps td t suffix = Inr (tds', ps', t') \<and>
    ps' = length tds # ps \<and> list_all (\<lambda>p. p < length tds') ps' \<and> take (length tds) tds' = tds \<and>
    distinct (map (\<lambda>p. definedName (tds' ! p)) ps')"
proof -
  from def_name_unique [OF assms(1,2), of tds "definedName (tds ! td) @ suffix"] obtain nm where
    nm: "def_name_loop fuel (\<lambda>nm. LookupType tds ps nm \<noteq> None) (definedName (tds ! td) @ suffix) (definedName (tds ! td) @ suffix) 1 = Inr nm"
      "LookupType tds ps nm = None" by auto
  obtain cd fm where lib: "libTypesG (basicType t) = Some (cd, fm)" using assms(5) by auto
  have "\<exists>d t'. AddConsTypeDef fuel libTypesG tds ps td t suffix = Inr (tds @ [d], length tds # ps, t') \<and> definedName d = nm"
    unfolding AddConsTypeDef_def Let_def nm(1) sum.case lib option.case split_beta
    by (rule exI, rule exI, rule conjI, rule refl) simp
  then obtain d t' where d: "AddConsTypeDef fuel libTypesG tds ps td t suffix = Inr (tds @ [d], length tds # ps, t')"
    "definedName d = nm" by blast
  have "map (\<lambda>p. definedName ((tds @ [d]) ! p)) ps = map (\<lambda>p. definedName (tds ! p)) ps"
    using assms(3) by (auto simp: list_all_iff nth_append)
  then have names: "map (\<lambda>p. definedName ((tds @ [d]) ! p)) (length tds # ps) = nm # map (\<lambda>p. definedName (tds ! p)) ps"
    by (simp add: d(2))
  have "nm \<notin> set (map (\<lambda>p. definedName (tds ! p)) ps)" using nm(2) by (simp add: LookupType_None)
  with assms(4) have "distinct (map (\<lambda>p. definedName ((tds @ [d]) ! p)) (length tds # ps))" unfolding names by simp
  moreover have "list_all (\<lambda>p. p < length (tds @ [d])) (length tds # ps)" using assms(3) by (auto simp: list_all_iff)
  ultimately show ?thesis unfolding d(1) by auto
qed

section \<open>The tags stay the same\<close>

definition tag_view :: "Tag \<Rightarrow> BER_CLASS \<times> BER_FORM \<times> 32 word" where
  "tag_view tg = (tg_class tg, tg_form tg, tg_code tg)"

definition tag_name :: "Tag \<Rightarrow> BER_CLASS \<times> 32 word" where
  "tag_name tg = (tg_class tg, tg_code tg)"

lemma with_forms_view:
  assumes "map tag_name ts = map tag_name ts'"
  shows "map tag_view (with_forms fm ts) = map tag_view (with_forms fm ts')"
proof (cases ts rule: rev_cases)
  case Nil
  with assms show ?thesis by simp
next
  case (snoc us u)
  with assms obtain us' u' where ts': "ts' = us' @ [u']" by (cases ts' rule: rev_cases) auto
  have view: "map (tag_view \<circ> tg_form_update (\<lambda>_. CONS)) xs = map (\<lambda>(c, n). (c, CONS, n)) (map tag_name xs)" for xs
    by (simp add: tag_view_def tag_name_def)
  from assms snoc ts' have "map tag_name us = map tag_name us'" "tag_name u = tag_name u'" by simp_all
  then have "map (tag_view \<circ> tg_form_update (\<lambda>_. CONS)) us = map (tag_view \<circ> tg_form_update (\<lambda>_. CONS)) us'"
    "tag_view (u\<lparr>tg_form := fm\<rparr>) = tag_view (u'\<lparr>tg_form := fm\<rparr>)"
    unfolding view by (simp_all add: tag_view_def tag_name_def)
  then show ?thesis by (simp add: snoc ts' with_forms_def)
qed

theorem AddConsTypeDef_tags:
  assumes "AddConsTypeDef fuel libTypesG tds ps td t suffix = Inr (tds', ps', t')" and "ref_link (basicType t) = None"
    and "own_tags t \<noteq> []"
  shows "\<exists>ts b. tagged tds' 1 t' ts b \<and> basicType b = basicType t \<and> map tag_name ts = map tag_name (own_tags t)"
proof -
  from assms(1) obtain nm cd fm where
    nm: "def_name_loop fuel (\<lambda>nm. LookupType tds ps nm \<noteq> None) (definedName (tds ! td) @ suffix) (definedName (tds ! td) @ suffix) 1 = Inr nm"
    and lib: "libTypesG (basicType t) = Some (cd, fm)"
    by (auto simp: AddConsTypeDef_def Let_def split: sum.splits option.splits)
  let ?u = "\<lparr>tg_class = UNIV_CLASS, tg_form = PRIM, tg_code = code_val cd, tg_explicit = False\<rparr>"
  let ?new = "Type False False (Some (if cd \<noteq> NO_TAG_CODE then [?u] else [])) False None None (basicType t)"
  have new: "tagged tds' 0 ?new (if cd \<noteq> NO_TAG_CODE then [?u] else []) ?new"
    using tagged_end [of ?new tds'] assms(2) by (simp add: own_tags_def)
  from assms(1) nm lib have tds': "length tds < length tds'" "type (tds' ! length tds) = ?new"
    and link: "ref_link (basicType t') = Some (Some (length tds))"
    and t': "(if cd \<noteq> NO_TAG_CODE then
        if tg_class (last (own_tags t)) = UNIV_CLASS \<and> tg_code (last (own_tags t)) = code_val cd then
          own_tags t' = butlast (own_tags t) \<and> \<not> t_implicit t'
        else own_tags t' = own_tags t \<and> t_implicit t'
      else own_tags t' = own_tags t)"
    using assms(3) by (auto simp: AddConsTypeDef_def Let_def ref_link_def own_tags_def split: if_splits)
  have last: "own_tags t = butlast (own_tags t) @ [last (own_tags t)]" using assms(3) by simp
  have "t_implicit t' \<Longrightarrow> own_tags t' \<noteq> []" using t' assms(3) by (auto split: if_splits)
  moreover have "tagged tds' 0 (type (tds' ! length tds)) (if cd \<noteq> NO_TAG_CODE then [?u] else []) ?new" using new by (simp only: tds'(2))
  ultimately have "tagged tds' (Suc 0) t' (own_tags t' @ (if t_implicit t' then drop 1 (if cd \<noteq> NO_TAG_CODE then [?u] else [])
      else if cd \<noteq> NO_TAG_CODE then [?u] else [])) ?new"
    by (intro tagged_ref [OF link tds'(1)])
  then have tags: "tagged tds' 1 t' (own_tags t' @ (if t_implicit t' then [] else if cd \<noteq> NO_TAG_CODE then [?u] else [])) ?new"
    by (cases "t_implicit t'"; cases "cd \<noteq> NO_TAG_CODE") simp_all
  have names: "map tag_name (own_tags t' @ (if t_implicit t' then [] else if cd \<noteq> NO_TAG_CODE then [?u] else [])) = map tag_name (own_tags t)"
    using t' arg_cong [OF last, of "map tag_name"] by (auto simp: tag_name_def split: if_splits)
  show ?thesis by (rule exI, rule exI [of _ ?new], rule conjI, rule tags, rule conjI, simp, rule names)
qed

text \<open>Definitions added at the end of the store do not change the tags of a type.\<close>

lemma link_type_more: "link_type tds p = Inr t \<Longrightarrow> link_type (tds @ ds) p = Inr t"
  by (auto simp: link_type_def nth_append split: option.splits if_splits)

lemma GetType_loop_more: "GetType_loop k tds ty t = Inr r \<Longrightarrow> GetType_loop k (tds @ ds) ty t = Inr r"
proof (induction k arbitrary: t)
  case (Suc k)
  show ?case
  proof (cases "ref_link (basicType t)")
    case (Some p)
    with Suc.prems Suc.IH show ?thesis
      by (cases p; cases "link_type tds p") (simp_all add: link_type_more)
  qed (use Suc.prems in simp)
qed simp

lemma set_forms_more: "set_forms libTypesG k tds t ts = Inr r \<Longrightarrow> set_forms libTypesG k (tds @ ds) t ts = Inr r"
  by (cases "GetType_loop (Suc k) tds t t")
    (auto simp: set_forms_def GetBuiltinType_def GetType_def GetType_loop_more simp del: GetType_loop.simps split: if_splits)

lemma choice_tags_more:
  assumes "\<And>e r. f e = Inr r \<Longrightarrow> g e = Inr r"
  shows "choice_tags f es = Inr ts \<Longrightarrow> choice_tags g es = Inr ts"
proof (induction es arbitrary: ts)
  case (Cons e es)
  then obtain tags stole where "f e = Inr (tags, stole)" by (auto split: sum.splits)
  moreover from this have "g e = Inr (tags, stole)" by (rule assms)
  ultimately show ?case
    using Cons by (cases "choice_tags f es") (auto split: if_splits list.splits)
qed simp

lemma end_of_refs_more:
  assumes "\<And>e r. f e = Inr r \<Longrightarrow> g e = Inr r" and "end_of_refs libTypesG k tds f t ts = Inr r"
  shows "end_of_refs libTypesG k (tds @ ds) g t ts = Inr r"
proof -
  have "map_sum id (\<lambda>tags. (tags, True)) (choice_tags g es) = Inr r"
    if "map_sum id (\<lambda>tags. (tags, True)) (choice_tags f es) = Inr r" for es
    using that choice_tags_more [of f g es, OF assms(1)] by (cases "choice_tags f es") auto
  moreover have "set_forms libTypesG k tds t ts = Inr r \<Longrightarrow> set_forms libTypesG k (tds @ ds) t ts = Inr r"
    by (rule set_forms_more)
  ultimately show ?thesis
    using assms(2) by (cases "basicType t") (simp_all add: end_of_refs_def split: if_splits)
qed

lemma GetTags_loop_more:
  "GetTags_loop k libTypesG tds t left imp rv = Inr r \<Longrightarrow> GetTags_loop k libTypesG (tds @ ds) t left imp rv = Inr r"
proof (induction k arbitrary: t left imp rv r)
  case (Suc k)
  show ?case
  proof (cases "ref_link (basicType t)")
    case None
    with Suc.prems have "end_of_refs libTypesG k tds (\<lambda>e. GetTags_loop k libTypesG tds e (own_tags e) False []) t (rv @ left) = Inr r"
      by (simp add: Let_def)
    from end_of_refs_more [OF Suc.IH this] None show ?thesis by (simp add: Let_def)
  next
    case (Some p)
    with Suc.prems Suc.IH [where r = r] set_forms_more [where r = r] show ?thesis
      by (cases p; cases "link_type tds p") (auto simp: Let_def link_type_more split: if_splits)
  qed
qed simp

text \<open>
  Without tags of its own: an untagged CHOICE (or ANY) has those of its alternatives, in its new definition too; the
  definition of any other type gets the universal tag, so the type is encoded with it afterwards.
\<close>

lemma AddConsTypeDef_untagged:
  assumes "AddConsTypeDef fuel libTypesG tds ps td t suffix = Inr (tds', ps', t')" and "libTypesG (basicType t) = Some (cd, fm)"
    and "own_tags t = []"
  obtains d where "tds' = tds @ [d]" and "basicType (type d) = basicType t"
    and "own_tags (type d) =
      (if cd \<noteq> NO_TAG_CODE then [\<lparr>tg_class = UNIV_CLASS, tg_form = PRIM, tg_code = code_val cd, tg_explicit = False\<rparr>] else [])"
    and "ref_link (basicType t') = Some (Some (length tds))" and "own_tags t' = []" and "t_implicit t' = t_implicit t"
  using assms by (auto simp: AddConsTypeDef_def Let_def ref_link_def own_tags_def split: sum.splits)

lemma untagged_kept:
  assumes "AddConsTypeDef fuel libTypesG tds ps td t suffix = Inr (tds', ps', t')" and "libTypesG (basicType t) = Some (NO_TAG_CODE, fm)"
    and "own_tags t = []" and "ref_link (basicType t) = None" and "GetTags (Suc k) libTypesG tds t = Inr r"
  shows "GetTags (Suc (Suc k)) libTypesG tds' t' = Inr r"
proof -
  obtain d where d: "tds' = tds @ [d]" "basicType (type d) = basicType t" "own_tags (type d) = []"
    "ref_link (basicType t') = Some (Some (length tds))" "own_tags t' = []"
    by (rule AddConsTypeDef_untagged [OF assms(1-3)]) auto
  have "end_of_refs libTypesG k tds (\<lambda>e. GetTags_loop k libTypesG tds e (own_tags e) False []) t [] = Inr r"
    using assms(3-5) by (simp add: GetTags_def Let_def)
  from end_of_refs_more [OF GetTags_loop_more this] have
    "end_of_refs libTypesG k tds' (\<lambda>e. GetTags_loop k libTypesG tds' e (own_tags e) False []) t [] = Inr r" unfolding d(1) .
  moreover have "end_of_refs libTypesG k tds' f (type d) [] = end_of_refs libTypesG k tds' f t []" for f
    using d(2) by (auto simp: end_of_refs_def set_forms_def split: BasicType.split)
  ultimately show ?thesis using d assms(4) by (simp add: GetTags_def Let_def link_type_def)
qed

lemma untagged_universal:
  assumes "AddConsTypeDef fuel libTypesG tds ps td t suffix = Inr (tds', ps', t')" and "libTypesG (basicType t) = Some (cd, fm)"
    and "own_tags t = []" and "ref_link (basicType t) = None" and "cd \<noteq> NO_TAG_CODE" and "\<not> t_implicit t"
  shows "\<exists>tag. GetTags (Suc (Suc k)) libTypesG tds' t' = Inr ([tag], False) \<and> tag_view tag = (UNIV_CLASS, fm, code_val cd)"
proof -
  let ?u = "\<lparr>tg_class = UNIV_CLASS, tg_form = PRIM, tg_code = code_val cd, tg_explicit = False\<rparr>"
  obtain d where d: "tds' = tds @ [d]" "basicType (type d) = basicType t" "own_tags (type d) = [?u]"
    "ref_link (basicType t') = Some (Some (length tds))" "own_tags t' = []" "\<not> t_implicit t'"
    using assms(5,6) by (auto intro: AddConsTypeDef_untagged [OF assms(1-3)])
  have "tagged tds' 0 (type (tds' ! length tds)) [?u] (type d)"
    using tagged_end [of "type d" tds'] d assms(4) by simp
  from tagged_ref [OF d(4) _ this] have "tagged tds' 1 t' [?u] (type d)" using d by simp
  from GetTags_effective [OF this, of libTypesG cd fm k] show ?thesis
    using assms(2) d(2) by (simp add: with_forms_def tag_view_def)
qed

text \<open>A reference made implicit loses the first tag of a type that has one.\<close>

lemma make_ref_implicit_tags:
  assumes "make_ref_implicit (Suc (n + k)) IMPLICIT_TAGS tds t = Inr t'" and "own_tags t \<noteq> []" and "\<not> tg_explicit (last (own_tags t))"
    and "ref_link (basicType t) = Some (Some i)" and "i < length tds" and "tagged tds n (type (tds ! i)) ts b" and "\<not> t_implicit t"
  shows "tagged tds (Suc n) t' (own_tags t @ drop 1 ts) b"
proof -
  have t': "t' = (if ts \<noteq> [] then Type (t_optional t) True (t_tags t) (t_default t) (cTypeRefInfo t) (cxxTypeRefInfo t) (basicType t) else t)"
    using assms(1-5) CountTags_effective [OF assms(6), of k] by (simp add: make_ref_implicit_def link_type_def split: if_splits)
  have link: "ref_link (basicType t') = Some (Some i)" and own: "own_tags t' = own_tags t" and imp: "t_implicit t' \<longleftrightarrow> ts \<noteq> []"
    using assms(4,7) by (simp_all add: t' own_tags_def)
  from tagged_ref [OF link assms(5,6)] assms(2) show ?thesis by (auto simp: own imp split: if_splits)
qed

end
