(* ===== verification/Comp_Check.thy ===== *)
theory Comp_Check
  imports Comp_Norm
begin

text \<open>
  The checks that the tags of elements are different: \<open>HasDistinctTags\<close>, for the elements of a SET and the alternatives of a
  CHOICE, and \<open>ChkSeqTags\<close>, for the optional elements of a SEQUENCE, in \<open>compiler/core/err-chk.c\<close>. Tags given by a value
  reference are left out, as in \<open>Comp_Types\<close>.
\<close>

section \<open>The code\<close>

definition TagObjCmp :: "Tag \<Rightarrow> Tag \<Rightarrow> bool" where
  "TagObjCmp t1 t2 \<longleftrightarrow> tg_class t1 = tg_class t2 \<and> tg_code t1 = tg_code t2"

text \<open>The loop over alternatives; it ends at the first that returns FALSE.\<close>

primrec AddFirstTag_elmts :: "(Tag list \<Rightarrow> Type \<Rightarrow> stop + bool \<times> Tag list) \<Rightarrow> Tag list \<Rightarrow> Type list \<Rightarrow> stop + bool \<times> Tag list" where
  "AddFirstTag_elmts add definedTags [] = Inr (True, definedTags)"
| "AddFirstTag_elmts add definedTags (e # es) =
     (case add definedTags e of
        Inl x \<Rightarrow> Inl x
      | Inr (r, definedTags) \<Rightarrow> if \<not> r then Inr (False, definedTags) else AddFirstTag_elmts add definedTags es)"

primrec AddFirstTag_loop :: "nat \<Rightarrow> store \<Rightarrow> Tag list \<Rightarrow> Type \<Rightarrow> Tag list \<Rightarrow> bool \<Rightarrow> stop + bool \<times> Tag list" where
  "AddFirstTag_loop 0 tds definedTags t left implicitRef = Inl NoFuel"
| "AddFirstTag_loop (Suc k) tds definedTags t left implicitRef =
     (case left of
        tag # _ \<Rightarrow>
          if ObjIsDefined definedTags tag TagObjCmp then Inr (False, definedTags) else Inr (True, DefineObj definedTags tag)
      | [] \<Rightarrow>
         (case ref_link (basicType t) of
            Some None \<Rightarrow> Inr (True, definedTags)
          | Some (Some td) \<Rightarrow>
              (case link_type tds (Some td) of
                 Inl e \<Rightarrow> Inl e
               | Inr t' \<Rightarrow>
                   let implicitRef = (if \<not> implicitRef then t_implicit t else implicitRef)
                   in if own_tags t' \<noteq> [] \<and> implicitRef then AddFirstTag_loop k tds definedTags t' (drop 1 (own_tags t')) False
                      else AddFirstTag_loop k tds definedTags t' (own_tags t') implicitRef)
          | None \<Rightarrow>
              (case basicType t of
                 BASICTYPE_CHOICE es \<Rightarrow> AddFirstTag_elmts (\<lambda>d e. AddFirstTag_loop k tds d e (own_tags e) False) definedTags es
               | _ \<Rightarrow> Inr (True, definedTags))))"

definition AddFirstTag :: "nat \<Rightarrow> store \<Rightarrow> Tag list \<Rightarrow> Type \<Rightarrow> stop + bool \<times> Tag list" where
  "AddFirstTag fuel tds definedTags t = AddFirstTag_loop fuel tds definedTags t (own_tags t) False"

definition HasDistinctTags :: "nat \<Rightarrow> store \<Rightarrow> Type list \<Rightarrow> stop + bool" where
  "HasDistinctTags fuel tds elmts = map_sum id fst (AddFirstTag_elmts (AddFirstTag fuel tds) [] elmts)"

text \<open>The loop over the elements of a SEQUENCE; the result is whether an error has been reported.\<close>

primrec ChkSeqTags_loop :: "nat \<Rightarrow> store \<Rightarrow> Tag list \<Rightarrow> Type list \<Rightarrow> stop + bool" where
  "ChkSeqTags_loop fuel tds dO [] = Inr False"
| "ChkSeqTags_loop fuel tds dO (e # es) =
     (if t_optional e \<or> t_default e then
        (case AddFirstTag fuel tds dO e of
           Inl x \<Rightarrow> Inl x
         | Inr (r, dO) \<Rightarrow> map_sum id (\<lambda>err. \<not> r \<or> err) (ChkSeqTags_loop fuel tds dO es))
      else if dO \<noteq> [] then
        (case AddFirstTag fuel tds dO e of
           Inl x \<Rightarrow> Inl x
         | Inr (r, dO) \<Rightarrow> map_sum id (\<lambda>err. \<not> r \<or> err) (ChkSeqTags_loop fuel tds [] es))
      else ChkSeqTags_loop fuel tds dO es)"

definition ChkSeqTags :: "nat \<Rightarrow> store \<Rightarrow> Type \<Rightarrow> stop + bool" where
  "ChkSeqTags fuel tds t = (case basicType t of BASICTYPE_SEQUENCE es \<Rightarrow> ChkSeqTags_loop fuel tds [] es | _ \<Rightarrow> Inr False)"

section \<open>What is different\<close>

text \<open>The class and code of a tag an encoding may begin with, whatever its form.\<close>

inductive first_name :: "store \<Rightarrow> Type \<Rightarrow> BER_CLASS \<times> 32 word \<Rightarrow> bool" for tds where
  first_name_own: "tagged tds n t ts b \<Longrightarrow> ts \<noteq> [] \<Longrightarrow> first_name tds t (tag_name (hd ts))"
| first_name_alternative: "tagged tds n t [] b \<Longrightarrow> basicType b = BASICTYPE_CHOICE es \<Longrightarrow> e \<in> set es \<Longrightarrow> first_name tds e nm \<Longrightarrow>
    first_name tds t nm"

definition first_names :: "store \<Rightarrow> Type \<Rightarrow> (BER_CLASS \<times> 32 word) set" where
  "first_names tds t = {nm. first_name tds t nm}"

definition apart :: "store \<Rightarrow> Type list \<Rightarrow> bool" where
  "apart tds es \<longleftrightarrow> sorted_wrt (\<lambda>e e'. first_names tds e \<inter> first_names tds e' = {}) es"

text \<open>Two alternatives of an untagged CHOICE, or of one inside it, may begin alike.\<close>

inductive ambiguous :: "store \<Rightarrow> Type \<Rightarrow> bool" for tds where
  ambiguous_here: "tagged tds n t [] b \<Longrightarrow> basicType b = BASICTYPE_CHOICE es \<Longrightarrow> \<not> apart tds es \<Longrightarrow> ambiguous tds t"
| ambiguous_inside: "tagged tds n t [] b \<Longrightarrow> basicType b = BASICTYPE_CHOICE es \<Longrightarrow> e \<in> set es \<Longrightarrow> ambiguous tds e \<Longrightarrow> ambiguous tds t"

lemma first_tag_name: "first_tag libTypesG tds t tg \<Longrightarrow> first_name tds t (tag_name tg)"
proof (induction rule: first_tag.induct)
  case (first_own n t ts b cd fm)
  have "tag_name (hd (with_forms fm ts)) = tag_name (hd ts)" using first_own(2)
    by (cases ts rule: rev_cases; cases "butlast ts") (auto simp: with_forms_def tag_name_def hd_append)
  with first_name_own [OF first_own(1,2)] show ?case by simp
next
  case (first_alternative n t b es e tg)
  then show ?case by (auto intro: first_name_alternative)
qed

lemma first_names_own:
  assumes "tagged tds n t ts b" and "ts \<noteq> []"
  shows "first_names tds t = {tag_name (hd ts)}"
proof -
  have "nm = tag_name (hd ts)" if "first_name tds t nm" for nm
    using that
  proof cases
    case (first_name_own n' ts' b')
    with tagged_unique [OF assms(1) first_name_own(2)] show ?thesis by simp
  next
    case (first_name_alternative n' b' es e)
    with tagged_unique [OF assms(1) first_name_alternative(1)] assms(2) show ?thesis by simp
  qed
  with first_name_own [OF assms] show ?thesis unfolding first_names_def by blast
qed

lemma first_names_nothing:
  assumes "tagged tds n t [] b" and "\<nexists>es. basicType b = BASICTYPE_CHOICE es"
  shows "first_names tds t = {}"
proof -
  have False if "first_name tds t nm" for nm
    using that
  proof cases
    case (first_name_own n' ts' b')
    with tagged_unique [OF assms(1) first_name_own(2)] show ?thesis by simp
  next
    case (first_name_alternative n' b' es e)
    with tagged_unique [OF assms(1) first_name_alternative(1)] assms(2) show ?thesis by simp
  qed
  then show ?thesis by (auto simp: first_names_def)
qed

lemma not_ambiguous:
  assumes "tagged tds n t ts b" and "ts \<noteq> [] \<or> (\<nexists>es. basicType b = BASICTYPE_CHOICE es)"
  shows "\<not> ambiguous tds t"
proof
  assume "ambiguous tds t"
  then show False
  proof cases
    case (ambiguous_here n' b' es)
    with tagged_unique [OF assms(1) ambiguous_here(1)] assms(2) show ?thesis by simp
  next
    case (ambiguous_inside n' b' es e)
    with tagged_unique [OF assms(1) ambiguous_inside(1)] assms(2) show ?thesis by simp
  qed
qed

lemma first_names_choice:
  assumes "tagged tds n t [] b" and "basicType b = BASICTYPE_CHOICE es"
  shows "first_names tds t = \<Union> (first_names tds ` set es)"
    and "ambiguous tds t \<longleftrightarrow> \<not> apart tds es \<or> (\<exists>e\<in>set es. ambiguous tds e)"
proof -
  have "\<exists>e\<in>set es. first_name tds e nm" if "first_name tds t nm" for nm
    using that
  proof cases
    case (first_name_own n' ts' b')
    with tagged_unique [OF assms(1) first_name_own(2)] show ?thesis by simp
  next
    case (first_name_alternative n' b' es' e)
    with tagged_unique [OF assms(1) first_name_alternative(1)] assms(2) show ?thesis by auto
  qed
  with first_name_alternative [OF assms] show "first_names tds t = \<Union> (first_names tds ` set es)"
    by (auto simp: first_names_def)
  have "\<not> apart tds es \<or> (\<exists>e\<in>set es. ambiguous tds e)" if "ambiguous tds t"
    using that
  proof cases
    case (ambiguous_here n' b' es')
    with tagged_unique [OF assms(1) ambiguous_here(1)] assms(2) show ?thesis by simp
  next
    case (ambiguous_inside n' b' es' e)
    with tagged_unique [OF assms(1) ambiguous_inside(1)] assms(2) show ?thesis by auto
  qed
  with ambiguous_here [OF assms] ambiguous_inside [OF assms]
  show "ambiguous tds t \<longleftrightarrow> \<not> apart tds es \<or> (\<exists>e\<in>set es. ambiguous tds e)" by blast
qed

section \<open>The check is exact\<close>

text \<open>The list of defined tags stands for the set of their names.\<close>

abbreviation names :: "Tag list \<Rightarrow> (BER_CLASS \<times> 32 word) set" where
  "names d \<equiv> tag_name ` set d"

lemma ObjIsDefined_tag: "ObjIsDefined d tag TagObjCmp \<longleftrightarrow> tag_name tag \<in> names d"
  by (induction d) (auto simp: TagObjCmp_def tag_name_def)

text \<open>\<open>added\<close>: the result of adding the first tags of \<open>t\<close> to \<open>d\<close>.\<close>

definition added :: "store \<Rightarrow> Tag list \<Rightarrow> (BER_CLASS \<times> 32 word) set \<Rightarrow> bool \<Rightarrow> bool \<times> Tag list \<Rightarrow> bool" where
  "added tds d N bad r \<longleftrightarrow> (fst r \<longleftrightarrow> names d \<inter> N = {} \<and> \<not> bad) \<and> (fst r \<longrightarrow> names (snd r) = names d \<union> N)"


lemma AddFirstTag_elmts_added:
  assumes "\<And>e d r. e \<in> set es \<Longrightarrow> add d e = Inr r \<Longrightarrow> added tds d (first_names tds e) (ambiguous tds e) r"
  shows "AddFirstTag_elmts add d es = Inr r \<Longrightarrow>
    added tds d (\<Union> (first_names tds ` set es)) (\<not> apart tds es \<or> (\<exists>e\<in>set es. ambiguous tds e)) r"
  using assms
proof (induction es arbitrary: d)
  case Nil
  then have "r = (True, d)" by simp
  then show ?case by (simp add: added_def apart_def)
next
  case (Cons e es)
  from Cons.prems(1) obtain q d' where e: "add d e = Inr (q, d')" by (cases "add d e") auto
  with Cons.prems(2) have first: "added tds d (first_names tds e) (ambiguous tds e) (q, d')" by simp
  show ?case
  proof (cases q)
    case False
    with Cons.prems(1) e first show ?thesis by (auto simp: added_def apart_def)
  next
    case True
    with Cons.prems(1) e have "AddFirstTag_elmts add d' es = Inr r" by simp
    from Cons.IH [OF this] Cons.prems(2) have
      "added tds d' (\<Union> (first_names tds ` set es)) (\<not> apart tds es \<or> (\<exists>e\<in>set es. ambiguous tds e)) r" by simp
    with first True show ?thesis by (auto simp: added_def apart_def)
  qed
qed

text \<open>What the loop comes to, with the tags \<open>l\<close> of a type that is \<open>b\<close> behind its references.\<close>

definition comes_to :: "store \<Rightarrow> nat \<Rightarrow> Tag list \<Rightarrow> Type \<Rightarrow> Tag list \<Rightarrow> bool \<times> Tag list \<Rightarrow> bool" where
  "comes_to tds k d b l r \<longleftrightarrow>
     (case l of
        tag # _ \<Rightarrow> added tds d {tag_name tag} False r
      | [] \<Rightarrow>
         (case basicType b of
            BASICTYPE_CHOICE es \<Rightarrow> \<exists>k'<k. AddFirstTag_elmts (AddFirstTag k' tds) d es = Inr r
          | _ \<Rightarrow> r = (True, d)))"

lemma comes_to_Suc: "comes_to tds k d b l r \<Longrightarrow> comes_to tds (Suc k) d b l r"
  by (auto simp: comes_to_def split: list.splits BasicType.splits intro: less_SucI)

lemma found_tag:
  "(if ObjIsDefined d tag TagObjCmp then (False, d) else (True, DefineObj d tag)) = r \<Longrightarrow> comes_to tds k d b (tag # tags) r"
  by (auto simp: comes_to_def ObjIsDefined_tag added_def DefineObj_def split: if_splits)

lemma loop_added:
  "tagged tds n t ts b \<Longrightarrow>
    AddFirstTag_loop k tds d t (if p then drop 1 (own_tags t) else own_tags t) (p \<and> own_tags t = []) = Inr r \<Longrightarrow>
    comes_to tds k d b (if p then drop 1 ts else ts) r"
proof (induction arbitrary: p k rule: tagged.induct)
  case (tagged_end t)
  then obtain k' where k: "k = Suc k'" by (cases k) auto
  show ?case
  proof (cases "if p then drop 1 (own_tags t) else own_tags t")
    case Nil
    with tagged_end show ?thesis by (auto simp: k comes_to_def AddFirstTag_def [abs_def] split: BasicType.splits)
  next
    case (Cons tag tags)
    with tagged_end.prems show ?thesis unfolding Cons by (intro found_tag) (simp add: k split: if_splits)
  qed
next
  case (tagged_ref t i n ts b)
  then obtain k' where k: "k = Suc k'" by (cases k) auto
  let ?own = "own_tags t" and ?t = "type (tds ! i)"
  let ?left = "if p then drop 1 ?own else ?own" and ?imp = "p \<and> ?own = [] \<or> t_implicit t"
  have "t_implicit t \<longrightarrow> ?own \<noteq> []" using tagged_ref.hyps(4) by blast
  note drop = drop_effective [OF this, of p ts]
  show ?case
  proof (cases ?left)
    case Nil
    with tagged_ref.prems tagged_ref.hyps(1,2) have
      "AddFirstTag_loop k' tds d ?t (if ?imp then drop 1 (own_tags ?t) else own_tags ?t) (?imp \<and> own_tags ?t = []) = Inr r"
      unfolding k by (subst (asm) AddFirstTag_loop.simps(2)) (auto simp: Let_def link_type_def simp del: AddFirstTag_loop.simps split: if_splits)
    from tagged_ref.IH [OF this] show ?thesis unfolding drop Nil append_Nil k by (rule comes_to_Suc)
  next
    case (Cons tag tags)
    with tagged_ref.prems show ?thesis unfolding drop Cons append_Cons by (intro found_tag) (simp add: k split: if_splits)
  qed
qed

text \<open>The references of the definitions do not go round in a circle.\<close>

definition references_end :: "store \<Rightarrow> bool" where
  "references_end tds \<longleftrightarrow> list_all (\<lambda>d. \<exists>n ts b. tagged tds n (type d) ts b) tds"

lemma type_tagged:
  assumes "references_end tds" and "sound_type tds t"
  shows "\<exists>n ts b. tagged tds n t ts b"
proof (cases "ref_link (basicType t)")
  case None
  then show ?thesis by (blast intro: tagged_end)
next
  case (Some p)
  with sound_ref [OF assms(2)] obtain i where i: "p = Some i" "i < length tds" by blast
  with assms(1) obtain n ts b where "tagged tds n (type (tds ! i)) ts b"
    unfolding references_end_def list_all_length by blast
  have "implicit_ok t" using assms(2) by (simp add: sound_type_def)
  from tagged_ref [OF _ i(2) \<open>tagged tds n (type (tds ! i)) ts b\<close> implicit_ok_own [OF this]] Some i(1) show ?thesis by blast
qed

lemma tagged_sound: "sound_store tds \<Longrightarrow> tagged tds n t ts b \<Longrightarrow> sound_type tds t \<Longrightarrow> sound_type tds b"
  by (rotate_tac 1, induction rule: tagged.induct) (auto simp: sound_store_def list_all_length)

theorem AddFirstTag_added:
  assumes "sound_store tds" and "references_end tds"
  shows "sound_type tds t \<Longrightarrow> AddFirstTag k tds d t = Inr r \<Longrightarrow> added tds d (first_names tds t) (ambiguous tds t) r"
proof (induction k arbitrary: t d r rule: less_induct)
  case (less k)
  from type_tagged [OF assms(2) less.prems(1)] obtain n ts b where t: "tagged tds n t ts b" by blast
  note b = tagged_sound [OF assms(1) t less.prems(1)]
  from loop_added [OF t, of k d False r] less.prems(2) have r: "comes_to tds k d b ts r" by (simp add: AddFirstTag_def)
  show ?case
  proof (cases "\<exists>es. ts = [] \<and> basicType b = BASICTYPE_CHOICE es")
    case True
    then obtain es where es: "ts = []" "basicType b = BASICTYPE_CHOICE es" by blast
    with r obtain k' where k': "k' < k" "AddFirstTag_elmts (AddFirstTag k' tds) d es = Inr r" by (auto simp: comes_to_def)
    have "added tds d (\<Union> (first_names tds ` set es)) (\<not> apart tds es \<or> (\<exists>e\<in>set es. ambiguous tds e)) r"
      by (rule AddFirstTag_elmts_added [OF _ k'(2)]) (rule less.IH [OF k'(1) sound_alternatives [OF b es(2)]])
    then show ?thesis unfolding first_names_choice [OF t [unfolded es(1)] es(2)] .
  next
    case no_choice: False
    show ?thesis
    proof (cases ts)
      case Nil
      with no_choice r have "r = (True, d)" by (auto simp: comes_to_def split: BasicType.splits)
      moreover have "first_names tds t = {}" "\<not> ambiguous tds t"
        using first_names_nothing [OF t [unfolded Nil]] not_ambiguous [OF t] no_choice Nil by blast+
      ultimately show ?thesis by (simp add: added_def)
    next
      case (Cons tag tags)
      with r have "added tds d {tag_name tag} False r" by (simp add: comes_to_def)
      moreover have "first_names tds t = {tag_name tag}" "\<not> ambiguous tds t"
        using first_names_own [OF t] not_ambiguous [OF t] Cons by simp_all
      ultimately show ?thesis by simp
    qed
  qed
qed

theorem HasDistinctTags_exact:
  assumes "sound_store tds" and "references_end tds" and "list_all (sound_type tds) es" and "HasDistinctTags k tds es = Inr r"
  shows "r \<longleftrightarrow> apart tds es \<and> list_all (\<lambda>e. \<not> ambiguous tds e) es"
proof -
  from assms(4) obtain d where run: "AddFirstTag_elmts (AddFirstTag k tds) [] es = Inr (r, d)"
    by (cases "AddFirstTag_elmts (AddFirstTag k tds) [] es") (auto simp: HasDistinctTags_def)
  have "added tds [] (\<Union> (first_names tds ` set es)) (\<not> apart tds es \<or> (\<exists>e\<in>set es. ambiguous tds e)) (r, d)"
    by (rule AddFirstTag_elmts_added [OF _ run])
      (use assms(3) in \<open>auto simp: list_all_iff intro: AddFirstTag_added [OF assms(1,2)]\<close>)
  then show ?thesis by (auto simp: added_def list_all_iff)
qed

section \<open>The check ends\<close>

text \<open>Untagged CHOICEs are not nested in themselves.\<close>

inductive choices_end :: "store \<Rightarrow> Type \<Rightarrow> bool" for tds where
  choices_end_here: "tagged tds n t ts b \<Longrightarrow> ts \<noteq> [] \<or> (\<nexists>es. basicType b = BASICTYPE_CHOICE es) \<Longrightarrow> choices_end tds t"
| choices_end_inside: "tagged tds n t [] b \<Longrightarrow> basicType b = BASICTYPE_CHOICE es \<Longrightarrow> (\<And>e. e \<in> set es \<Longrightarrow> choices_end tds e) \<Longrightarrow>
    choices_end tds t"

text \<open>What \<open>AddFirstTag\<close> does once it knows the tags of a type and the type behind its references.\<close>

definition add_first :: "(Tag list \<Rightarrow> Type \<Rightarrow> stop + bool \<times> Tag list) \<Rightarrow> Tag list \<Rightarrow> Type \<Rightarrow> Tag list \<Rightarrow> stop + bool \<times> Tag list" where
  "add_first add d b ts =
     (case ts of
        tag # _ \<Rightarrow> if ObjIsDefined d tag TagObjCmp then Inr (False, d) else Inr (True, DefineObj d tag)
      | [] \<Rightarrow> (case basicType b of BASICTYPE_CHOICE es \<Rightarrow> AddFirstTag_elmts add d es | _ \<Rightarrow> Inr (True, d)))"

lemma loop_runs:
  "tagged tds n t ts b \<Longrightarrow>
    AddFirstTag_loop (Suc (n + k)) tds d t (if p then drop 1 (own_tags t) else own_tags t) (p \<and> own_tags t = []) =
    add_first (AddFirstTag k tds) d b (if p then drop 1 ts else ts)"
proof (induction arbitrary: p rule: tagged.induct)
  case (tagged_end t)
  then show ?case by (simp add: add_first_def AddFirstTag_def [abs_def] split: list.split BasicType.split)
next
  case (tagged_ref t i n ts b)
  let ?own = "own_tags t" and ?t = "type (tds ! i)"
  let ?left = "if p then drop 1 ?own else ?own" and ?imp = "p \<and> ?own = [] \<or> t_implicit t"
  have "t_implicit t \<longrightarrow> ?own \<noteq> []" using tagged_ref.hyps(4) by blast
  note drop = drop_effective [OF this, of p ts]
  show ?case
  proof (cases ?left)
    case Nil
    with tagged_ref.hyps(1,2) have "AddFirstTag_loop (Suc (Suc n + k)) tds d t ?left (p \<and> ?own = []) =
      AddFirstTag_loop (Suc (n + k)) tds d ?t (if ?imp then drop 1 (own_tags ?t) else own_tags ?t) (?imp \<and> own_tags ?t = [])"
      by (subst AddFirstTag_loop.simps(2)) (auto simp: Let_def link_type_def simp del: AddFirstTag_loop.simps)
    with tagged_ref.IH [of ?imp] show ?thesis unfolding drop Nil append_Nil by simp
  next
    case (Cons tag tags)
    then show ?thesis unfolding drop Cons append_Cons by (simp add: add_first_def)
  qed
qed

lemma AddFirstTag_run: "tagged tds n t ts b \<Longrightarrow> AddFirstTag (Suc (n + k)) tds d t = add_first (AddFirstTag k tds) d b ts"
  using loop_runs [of tds n t ts b k d False] by (simp add: AddFirstTag_def)

lemma AddFirstTag_elmts_ends: "(\<And>e d. e \<in> set es \<Longrightarrow> \<exists>r. add d e = Inr r) \<Longrightarrow> \<exists>r. AddFirstTag_elmts add d es = Inr r"
proof (induction es arbitrary: d)
  case (Cons e es)
  from Cons.prems obtain q d' where "add d e = Inr (q, d')" by fastforce
  with Cons show ?case by (cases q) auto
qed auto

lemma common_fuel: "(\<And>e. e \<in> set es \<Longrightarrow> \<exists>k::nat. \<forall>k'\<ge>k. P k' e) \<Longrightarrow> \<exists>k. \<forall>k'\<ge>k. \<forall>e\<in>set es. P k' e"
proof (induction es)
  case (Cons e es)
  then obtain k where k: "\<forall>k'\<ge>k. \<forall>e\<in>set es. P k' e" by fastforce
  from Cons.prems obtain l where "\<forall>k'\<ge>l. P k' e" by fastforce
  with k have "\<forall>k'\<ge>max k l. \<forall>e\<in>set (e # es). P k' e" by simp
  then show ?case by blast
qed simp

theorem AddFirstTag_ends: "choices_end tds t \<Longrightarrow> \<exists>k. \<forall>k'\<ge>k. \<forall>d. \<exists>r. AddFirstTag k' tds d t = Inr r"
proof (induction rule: choices_end.induct)
  case (choices_end_here n t ts b)
  have "\<exists>r. AddFirstTag k' tds d t = Inr r" if "k' \<ge> Suc n" for k' d
  proof -
    from that obtain k where "k' = Suc (n + k)" by (metis add_Suc le_iff_add)
    with AddFirstTag_run [OF choices_end_here(1), of k d] choices_end_here(2) show ?thesis
      by (auto simp: add_first_def split: list.split BasicType.split)
  qed
  then show ?case by blast
next
  case (choices_end_inside n t b es)
  from common_fuel [of es "\<lambda>k' e. \<forall>d. \<exists>r. AddFirstTag k' tds d e = Inr r"] choices_end_inside(4) obtain k where
    k: "\<forall>k'\<ge>k. \<forall>e\<in>set es. \<forall>d. \<exists>r. AddFirstTag k' tds d e = Inr r" by blast
  have "\<exists>r. AddFirstTag k' tds d t = Inr r" if "k' \<ge> Suc (n + k)" for k' d
  proof -
    from that obtain l where l: "k' = Suc (n + l)" "l \<ge> k" by (metis Suc_le_D add_le_cancel_left add.assoc le_iff_add add_Suc)
    have "AddFirstTag k' tds d t = AddFirstTag_elmts (AddFirstTag l tds) d es"
      using AddFirstTag_run [OF choices_end_inside(1), of l d] choices_end_inside(2) by (simp add: l add_first_def)
    with AddFirstTag_elmts_ends [of es "AddFirstTag l tds" d] k l(2) show ?thesis by simp
  qed
  then show ?case by blast
qed

theorem HasDistinctTags_total:
  assumes "sound_store tds" and "references_end tds" and "list_all (sound_type tds) es" and "list_all (choices_end tds) es"
  shows "\<exists>k. \<forall>k'\<ge>k. HasDistinctTags k' tds es = Inr (apart tds es \<and> list_all (\<lambda>e. \<not> ambiguous tds e) es)"
proof -
  from common_fuel [of es "\<lambda>k' e. \<forall>d. \<exists>r. AddFirstTag k' tds d e = Inr r"] AddFirstTag_ends assms(4) obtain k where
    k: "\<forall>k'\<ge>k. \<forall>e\<in>set es. \<forall>d. \<exists>r. AddFirstTag k' tds d e = Inr r" by (metis list_all_iff)
  have "HasDistinctTags k' tds es = Inr (apart tds es \<and> list_all (\<lambda>e. \<not> ambiguous tds e) es)" if "k' \<ge> k" for k'
  proof -
    from AddFirstTag_elmts_ends [of es "AddFirstTag k' tds" "[]"] k that obtain r where
      "AddFirstTag_elmts (AddFirstTag k' tds) [] es = Inr r" by blast
    then have "HasDistinctTags k' tds es = Inr (fst r)" by (simp add: HasDistinctTags_def)
    with HasDistinctTags_exact [OF assms(1-3) this] show ?thesis by simp
  qed
  then show ?thesis by blast
qed

text \<open>Without this the recursion never ends: \<open>A ::= CHOICE { a A }\<close>.\<close>

lemma AddFirstTag_circle:
  assumes "ref_link (basicType t) = Some (Some 0)" and "own_tags t = []" and "tds \<noteq> []"
    and "own_tags (type (tds ! 0)) = []" and "basicType (type (tds ! 0)) = BASICTYPE_CHOICE (t # es)"
  shows "AddFirstTag k tds d t = Inl NoFuel"
proof (induction k rule: less_induct)
  case (less k)
  have "ref_link (BASICTYPE_CHOICE (t # es)) = None" by (simp add: ref_link_def)
  with assms less.IH show ?case
    by (cases k; cases "k - 1") (auto simp: AddFirstTag_def Let_def link_type_def split: if_splits)
qed

section \<open>The optional elements of a SEQUENCE\<close>

abbreviation may_be_absent :: "Type \<Rightarrow> bool" where
  "may_be_absent e \<equiv> t_optional e \<or> t_default e"

text \<open>Each element is different from the run of optional elements before it, whose first tags are \<open>N\<close>.\<close>

primrec runs_apart :: "store \<Rightarrow> (BER_CLASS \<times> 32 word) set \<Rightarrow> Type list \<Rightarrow> bool" where
  "runs_apart tds N [] \<longleftrightarrow> True"
| "runs_apart tds N (e # es) \<longleftrightarrow> N \<inter> first_names tds e = {} \<and>
     runs_apart tds (if may_be_absent e then N \<union> first_names tds e else {}) es"

lemma runs_apart_before:
  "runs_apart tds N es \<Longrightarrow> j < length es \<Longrightarrow> (\<And>m. m < j \<Longrightarrow> may_be_absent (es ! m)) \<Longrightarrow> N \<inter> first_names tds (es ! j) = {}"
proof (induction es arbitrary: N j)
  case (Cons e es)
  show ?case
  proof (cases j)
    case (Suc j')
    have "may_be_absent e" using Cons.prems(3) [of 0] Suc by simp
    with Cons.prems(1) have "runs_apart tds (N \<union> first_names tds e) es" by simp
    from Cons.IH [OF this, of j'] Cons.prems(2) Cons.prems(3) [of "Suc _"] Suc show ?thesis by auto
  qed (use Cons.prems(1) in simp)
qed simp

lemma runs_apart_pairs:
  "runs_apart tds N es \<Longrightarrow> j < length es \<Longrightarrow> i < j \<Longrightarrow> (\<And>m. i \<le> m \<Longrightarrow> m < j \<Longrightarrow> may_be_absent (es ! m)) \<Longrightarrow>
    first_names tds (es ! i) \<inter> first_names tds (es ! j) = {}"
proof (induction es arbitrary: N i j)
  case (Cons e es)
  obtain j' where j: "j = Suc j'" "j' < length es" using Cons.prems(2,3) by (cases j) auto
  show ?case
  proof (cases i)
    case 0
    have "may_be_absent e" using Cons.prems(4) [of 0] 0 j by simp
    with Cons.prems(1) have "runs_apart tds (N \<union> first_names tds e) es" by simp
    from runs_apart_before [OF this j(2)] Cons.prems(4) [of "Suc _"] show ?thesis by (auto simp: 0 j)
  next
    case (Suc i')
    from Cons.prems(1) have "runs_apart tds (if may_be_absent e then N \<union> first_names tds e else {}) es" by simp
    from Cons.IH [OF this j(2), of i'] Cons.prems(3) Cons.prems(4) [of "Suc _"] show ?thesis by (simp add: j Suc)
  qed
qed simp

lemma ChkSeqTags_runs:
  assumes "sound_store tds" and "references_end tds"
  shows "list_all (sound_type tds) es \<Longrightarrow> ChkSeqTags_loop k tds d es = Inr False \<Longrightarrow> runs_apart tds (names d) es"
proof (induction es arbitrary: d)
  case (Cons e es)
  have sound: "sound_type tds e" "list_all (sound_type tds) es" using Cons.prems(1) by simp_all
  show ?case
  proof (cases "may_be_absent e \<or> d \<noteq> []")
    case True
    with Cons.prems(2) obtain r d' where q: "AddFirstTag k tds d e = Inr (r, d')"
      by (cases "AddFirstTag k tds d e") (auto split: if_splits)
    obtain err where err: "ChkSeqTags_loop k tds (if may_be_absent e then d' else []) es = Inr err" "r" "\<not> err"
      using Cons.prems(2) True q
      by (cases "ChkSeqTags_loop k tds (if may_be_absent e then d' else []) es") (auto split: if_splits)
    have "names d \<inter> first_names tds e = {}" "names d' = names d \<union> first_names tds e"
      using AddFirstTag_added [OF assms sound(1) q] err(2) by (simp_all add: added_def)
    with Cons.IH [OF sound(2), of "if may_be_absent e then d' else []"] err show ?thesis
      by (cases "may_be_absent e") simp_all
  next
    case False
    with Cons.prems(2) Cons.IH [OF sound(2), of "[]"] show ?thesis by simp
  qed
qed simp

theorem ChkSeqTags_sound:
  assumes "sound_store tds" and "references_end tds" and "basicType t = BASICTYPE_SEQUENCE es" and "list_all (sound_type tds) es"
    and "ChkSeqTags k tds t = Inr False" and "j < length es" and "i < j" and "\<And>m. i \<le> m \<Longrightarrow> m < j \<Longrightarrow> may_be_absent (es ! m)"
  shows "first_names tds (es ! i) \<inter> first_names tds (es ! j) = {}"
  using runs_apart_pairs [OF ChkSeqTags_runs [OF assms(1,2,4)] assms(6,7,8)] assms(3,5) by (simp add: ChkSeqTags_def)

end
