(* ===== verification/Comp_Examples.thy ===== *)
theory Comp_Examples
  imports Comp_Check
begin

text \<open>Small stores of type definitions for the tags of types: a definition with a tag, an implicit reference to it, a CHOICE
  with a CHOICE inside, and a SEQUENCE with an explicit tag that is moved to a definition of its own.\<close>

definition cntx_tag :: "32 word \<Rightarrow> Tag" where
  "cntx_tag cd = \<lparr>tg_class = CNTX, tg_form = PRIM, tg_code = cd, tg_explicit = False\<rparr>"

definition tagged_def :: "string \<Rightarrow> Type \<Rightarrow> TypeDef" where
  "tagged_def nm t = \<lparr>definedName = nm, type = t, recursive = False, localRefCount = 1, cTypeDefInfo = True\<rparr>"

definition int_with :: "32 word \<Rightarrow> Type" where
  "int_with cd = Type False False (Some [cntx_tag cd]) False None None (BASICTYPE BASICTYPE_INTEGER)"

definition choice_of :: "Type list \<Rightarrow> Type" where
  "choice_of es = Type False False None False None None (BASICTYPE_CHOICE es)"

definition tagged_types :: store where
  "tagged_types = [tagged_def ''Number'' (int_with 3), tagged_def ''Inner'' (choice_of [int_with 8])]"

definition implicit_ref :: "nat \<Rightarrow> Type" where
  "implicit_ref p = Type False True (Some [cntx_tag 7]) False None None (BASICTYPE_LOCALTYPEREF (Some p))"

definition nested_choice :: Type where
  "nested_choice = choice_of [implicit_ref 0, Type False False None False None None (BASICTYPE_LOCALTYPEREF (Some 1))]"

lemmas example_tags = tagged_types_def tagged_def_def int_with_def choice_of_def implicit_ref_def nested_choice_def

lemma implicit_ref_tagged: "tagged tagged_types 1 (implicit_ref 0) [cntx_tag 7] (int_with 3)"
proof -
  have "tagged tagged_types 0 (type (tagged_types ! 0)) [cntx_tag 3] (int_with 3)"
    using tagged_end [of "int_with 3" tagged_types] by (simp add: example_tags own_tags_def ref_link_def)
  from tagged_ref [of "implicit_ref 0" 0, OF _ _ this] show ?thesis
    by (simp add: example_tags own_tags_def ref_link_def)
qed

lemma implicit_ref_lib: "libBERTypesG (basicType (int_with 3)) = Some (INTEGER_TAG_CODE, PRIM)"
  by (simp add: int_with_def)

lemma tagged_types_sound: "sound_store tagged_types"
  by (simp add: sound_store_def sound_type_def linked_def example_tags type_refs.simps)

lemma nested_choice_sound: "sound_type tagged_types nested_choice"
  by (simp add: sound_type_def linked_def example_tags type_refs.simps)

lemma nested_choice_tags: "GetTags 4 libBERTypesG tagged_types nested_choice = Inr ([cntx_tag 7, cntx_tag 8], True)"
  by (simp add: run_tags example_tags eval_nat_numeral link_type_def cntx_tag_def)

definition universal_tag :: "32 word \<Rightarrow> Tag" where
  "universal_tag cd = \<lparr>tg_class = UNIV_CLASS, tg_form = PRIM, tg_code = cd, tg_explicit = False\<rparr>"

definition explicit_seq :: Type where
  "explicit_seq = Type False False (Some [cntx_tag 1, universal_tag 16]) False None None (BASICTYPE_SEQUENCE [])"

definition moved_types :: store where
  "moved_types = tagged_types @ [\<lparr>definedName = ''NumberSeq'',
     type = Type False False (Some [universal_tag 16]) False None None (BASICTYPE_SEQUENCE []),
     recursive = False, localRefCount = 1, cTypeDefInfo = False\<rparr>]"

definition moved_ref :: Type where
  "moved_ref = Type False False (Some [cntx_tag 1]) False None None (BASICTYPE_LOCALTYPEREF (Some 2))"

lemma explicit_seq_moved:
  "AddConsTypeDef 1 libBERTypesG tagged_types [0, 1] 0 explicit_seq ''Seq'' = Inr (moved_types, [2, 0, 1], moved_ref)"
  by (simp add: AddConsTypeDef_def LookupType_def example_tags explicit_seq_def moved_types_def moved_ref_def own_tags_def
      universal_tag_def)

text \<open>An untagged CHOICE, moved.\<close>

definition moved_choices :: store where
  "moved_choices = tagged_types @ [\<lparr>definedName = ''NumberChoice'',
     type = Type False False (Some []) False None None (basicType nested_choice),
     recursive = False, localRefCount = 1, cTypeDefInfo = False\<rparr>]"

definition choice_ref :: Type where
  "choice_ref = Type (t_optional nested_choice) (t_implicit nested_choice) (t_tags nested_choice) (t_default nested_choice)
     (cTypeRefInfo nested_choice) (cxxTypeRefInfo nested_choice) (BASICTYPE_LOCALTYPEREF (Some 2))"

lemma nested_choice_moved:
  "AddConsTypeDef 1 libBERTypesG tagged_types [0, 1] 0 nested_choice ''Choice'' = Inr (moved_choices, [2, 0, 1], choice_ref)"
  by (simp add: AddConsTypeDef_def LookupType_def example_tags moved_choices_def choice_ref_def own_tags_def)

lemma tagged_types_end: "references_end tagged_types"
proof -
  have "ref_link (basicType (int_with 3)) = None" "ref_link (basicType (choice_of [int_with 8])) = None"
    by (simp_all add: example_tags ref_link_def)
  from this [THEN tagged_end [of _ tagged_types]] show ?thesis
    unfolding references_end_def by (auto simp: tagged_types_def tagged_def_def)
qed

definition two_alternatives :: "Type list" where
  "two_alternatives = [implicit_ref 0, Type False False None False None None (BASICTYPE_LOCALTYPEREF (Some 1))]"

lemma two_alternatives_sound: "list_all (sound_type tagged_types) two_alternatives"
  by (simp add: two_alternatives_def sound_type_def linked_def example_tags type_refs.simps)

lemma two_alternatives_checked: "HasDistinctTags 4 tagged_types two_alternatives = Inr True"
  by (simp add: HasDistinctTags_def two_alternatives_def example_tags AddFirstTag_def own_tags_def ref_link_def link_type_def
      eval_nat_numeral DefineObj_def TagObjCmp_def cntx_tag_def)

lemma two_alternatives_tags:
  "GetTags 4 libBERTypesG tagged_types (two_alternatives ! 0) = Inr ([cntx_tag 7], False)"
  "GetTags 4 libBERTypesG tagged_types (two_alternatives ! 1) = Inr ([cntx_tag 8], True)"
  by (simp_all add: two_alternatives_def run_tags example_tags eval_nat_numeral link_type_def cntx_tag_def)

definition optional_ints :: "Type list" where
  "optional_ints = [Type True False (Some [cntx_tag 1]) False None None (BASICTYPE BASICTYPE_INTEGER), int_with 2]"

definition optional_seq :: Type where
  "optional_seq = Type False False (Some [universal_tag 16]) False None None (BASICTYPE_SEQUENCE optional_ints)"

lemma optional_ints_sound: "list_all (sound_type tagged_types) optional_ints"
  by (simp add: optional_ints_def sound_type_def linked_def example_tags type_refs.simps)

lemma optional_seq_checked: "ChkSeqTags 1 tagged_types optional_seq = Inr False"
  by (simp add: ChkSeqTags_def optional_seq_def optional_ints_def AddFirstTag_def own_tags_def int_with_def
      DefineObj_def TagObjCmp_def cntx_tag_def)

text \<open>The check ends for the alternatives above, and never for a CHOICE that contains itself.\<close>

lemma two_alternatives_end: "list_all (choices_end tagged_types) two_alternatives"
proof -
  have end8: "tagged tagged_types 0 (int_with 8) [cntx_tag 8] (int_with 8)"
    using tagged_end [of "int_with 8" tagged_types] by (simp add: int_with_def own_tags_def ref_link_def)
  have here: "tagged tagged_types 0 (type (tagged_types ! 1)) [] (choice_of [int_with 8])"
    using tagged_end [of "choice_of [int_with 8]" tagged_types] by (simp add: example_tags own_tags_def ref_link_def)
  from tagged_ref [of "two_alternatives ! 1" 1, OF _ _ this] have
    "tagged tagged_types 1 (two_alternatives ! 1) [] (choice_of [int_with 8])"
    by (simp add: two_alternatives_def example_tags own_tags_def ref_link_def)
  then have "choices_end tagged_types (two_alternatives ! 1)"
    by (rule choices_end_inside [where es = "[int_with 8]"]) (auto simp: choice_of_def intro: choices_end_here [OF end8])
  with choices_end_here [OF implicit_ref_tagged] show ?thesis by (simp add: two_alternatives_def)
qed

definition self_choice :: store where
  "self_choice = [tagged_def ''A'' (choice_of [Type False False None False None None (BASICTYPE_LOCALTYPEREF (Some 0))])]"

theorem self_choice_diverges:
  "HasDistinctTags fuel self_choice [Type False False None False None None (BASICTYPE_LOCALTYPEREF (Some 0))] = Inl NoFuel"
proof -
  have "AddFirstTag fuel self_choice [] (Type False False None False None None (BASICTYPE_LOCALTYPEREF (Some 0))) = Inl NoFuel"
    by (rule AddFirstTag_circle [where es = "[]"]) (simp_all add: self_choice_def example_tags own_tags_def ref_link_def)
  then show ?thesis by (simp add: HasDistinctTags_def)
qed

end
