(* ===== verification/Min_Buf.thy ===== *)
theory Min_Buf
  imports Gen_Buf
begin

text \<open>
  The minimal buffer of \<open>c-lib/src/min-buf.c\<close>, a pointer into memory, which is a block and a position here; and the comparison
  of encodings by which DER encoders sort the elements of a SET OF (\<open>c-lib/src/asn-der.c\<close>). Nothing of the minimal buffer checks where the block ends: an
  access outside is undefined.
\<close>

section \<open>The buffer\<close>

record MinBuf =
  mb_blk :: "byte list"
  mb_loc :: nat

definition MinBufGetSeg :: "ulong \<Rightarrow> (MinBuf, byte list \<times> ulong) prog" where
  "MinBufGetSeg len b =
     (if mb_loc b + unat len \<le> length (mb_blk b) then
        (Inr (take (unat len) (drop (mb_loc b) (mb_blk b)), len), b\<lparr>mb_loc := mb_loc b + unat len\<rparr>)
      else (Inl Fault, b))"

definition MinBufGetByte :: "(MinBuf, byte) prog" where
  "MinBufGetByte = bindP (MinBufGetSeg 1) (\<lambda>(bs, _). returnP (hd bs))"

definition MinBufCopy :: "ulong \<Rightarrow> (MinBuf, byte list) prog" where
  "MinBufCopy len = bindP (MinBufGetSeg len) (\<lambda>(bs, _). returnP bs)"

definition MinBufSkip :: "ulong \<Rightarrow> (MinBuf, unit) prog" where
  "MinBufSkip len = bindP (MinBufGetSeg len) (\<lambda>_. returnP ())"

definition MinBufPeekSeg :: "ulong \<Rightarrow> (MinBuf, byte list \<times> ulong) prog" where
  "MinBufPeekSeg len b =
     (if mb_loc b + unat len \<le> length (mb_blk b) then (Inr (take (unat len) (drop (mb_loc b) (mb_blk b)), len), b)
      else (Inl Fault, b))"

definition MinBufPeekByte :: "(MinBuf, byte) prog" where
  "MinBufPeekByte = bindP (MinBufPeekSeg 1) (\<lambda>(bs, _). returnP (hd bs))"

definition MinBufPeekCopy :: "ulong \<Rightarrow> (MinBuf, byte list) prog" where
  "MinBufPeekCopy len = bindP (MinBufPeekSeg len) (\<lambda>(bs, _). returnP bs)"

definition MinBufPutSegRvs :: "byte list \<Rightarrow> (MinBuf, unit) prog" where
  "MinBufPutSegRvs src b =
     (if length src \<le> mb_loc b then
        (let dst = mb_loc b - length src in (Inr (), b\<lparr>mb_loc := dst, mb_blk := mem_put (mb_blk b) dst src\<rparr>))
      else (Inl Fault, b))"

definition MinBufPutByteRvs :: "byte \<Rightarrow> (MinBuf, unit) prog" where
  "MinBufPutByteRvs x = MinBufPutSegRvs [x]"

definition minBufOpsG :: "MinBuf GenBuf" where
  "minBufOpsG =
     \<lparr>getByte = MinBufGetByte, getSeg = MinBufGetSeg, copyFcn = MinBufCopy, skipFcn = MinBufSkip,
      peekByte = MinBufPeekByte, peekSeg = MinBufPeekSeg, peekCopy = MinBufPeekCopy,
      putByteRvs = MinBufPutByteRvs, putSegRvs = MinBufPutSegRvs, readError = returnP False,
      setWriteError = (\<lambda>_. returnP 0), writeError = returnP False, resetInReadMode = returnP ()\<rparr>"

section \<open>Reading what has been written\<close>

lemma MinBufPutSegRvs_run:
  assumes "length src \<le> mb_loc b" and "mb_loc b \<le> length (mb_blk b)"
  shows "\<exists>b'. MinBufPutSegRvs src b = (Inr (), b') \<and> mb_loc b' + length src = mb_loc b \<and> length (mb_blk b') = length (mb_blk b) \<and>
    drop (mb_loc b') (mb_blk b') = src @ drop (mb_loc b) (mb_blk b)"
  using assms by (auto simp: MinBufPutSegRvs_def Let_def mem_put_def)

lemma MinBufGetSeg_run:
  assumes "unat len = length xs" and "drop (mb_loc b) (mb_blk b) = xs @ ys" and "mb_loc b \<le> length (mb_blk b)"
  shows "\<exists>b'. MinBufGetSeg len b = (Inr (xs, len), b') \<and> mb_blk b' = mb_blk b \<and> mb_loc b' = mb_loc b + length xs \<and>
    drop (mb_loc b') (mb_blk b') = ys"
proof -
  have "length (mb_blk b) - mb_loc b = length xs + length ys" using arg_cong [OF assms(2), of length] by simp
  moreover have "drop (mb_loc b + length xs) (mb_blk b) = ys"
    using arg_cong [OF assms(2), of "drop (length xs)"] by (simp add: add.commute)
  ultimately show ?thesis using assms by (simp add: MinBufGetSeg_def)
qed

theorem MinBuf_write_read:
  assumes "length xs \<le> mb_loc b" and "mb_loc b \<le> length (mb_blk b)" and "length xs < 2 ^ 64"
  shows "\<exists>b'. bindP (putSegRvs minBufOpsG xs) (\<lambda>_. copyFcn minBufOpsG (of_nat (length xs))) b = (Inr xs, b') \<and> mb_loc b' = mb_loc b \<and>
    drop (mb_loc b') (mb_blk b') = drop (mb_loc b) (mb_blk b)"
proof -
  from MinBufPutSegRvs_run [OF assms(1,2)] obtain c where
    c: "MinBufPutSegRvs xs b = (Inr (), c)" "mb_loc c + length xs = mb_loc b" "length (mb_blk c) = length (mb_blk b)"
      "drop (mb_loc c) (mb_blk c) = xs @ drop (mb_loc b) (mb_blk b)" by blast
  have "unat (of_nat (length xs) :: ulong) = length xs" by (rule unat_of_nat_small) (use assms(3) in simp)
  from MinBufGetSeg_run [OF this c(4)] c(2,3) assms(2) obtain b' where
    "MinBufGetSeg (of_nat (length xs)) c = (Inr (xs, of_nat (length xs)), b')" "mb_loc b' = mb_loc b"
    "drop (mb_loc b') (mb_blk b') = drop (mb_loc b) (mb_blk b)" by auto
  with c(1) show ?thesis by (simp add: minBufOpsG_def MinBufCopy_def bindP_def returnP_def)
qed

section \<open>Comparing encodings\<close>

text \<open>The elements compared are two buffers with the lengths of their encodings; the loop has a count of octets left.\<close>

primrec elmt_cmp_loop :: "'b GenBuf \<Rightarrow> nat \<Rightarrow> int \<Rightarrow> ('b \<times> 'b, int) prog" where
  "elmt_cmp_loop g 0 cmp = returnP cmp"
| "elmt_cmp_loop g (Suc n) cmp = (\<lambda>(a, b).
     (case getByte g a of (Inl e, a) \<Rightarrow> (Inl e, (a, b)) | (Inr data1, a) \<Rightarrow>
     (case getByte g b of (Inl e, b) \<Rightarrow> (Inl e, (a, b)) | (Inr data2, b) \<Rightarrow>
        elmt_cmp_loop g n (if data1 \<noteq> data2 then if data1 + 1 < data2 + 1 then - 1 else 1 else cmp) (a, b))))"

definition EncodedElmtCmp :: "'b GenBuf \<Rightarrow> ulong \<Rightarrow> ulong \<Rightarrow> ('b \<times> 'b, int) prog" where
  "EncodedElmtCmp g len_a len_b =
     (let len = to_int (if len_b < len_a then len_b else len_a)
      in bindP (elmt_cmp_loop g (nat len) (- 1)) (\<lambda>cmp (a, b).
        (case resetInReadMode g a of (Inl e, a) \<Rightarrow> (Inl e, (a, b)) | (Inr _, a) \<Rightarrow>
        (case resetInReadMode g b of (Inl e, b) \<Rightarrow> (Inl e, (a, b)) | (Inr _, b) \<Rightarrow> (Inr cmp, (a, b))))))"

text \<open>The last octets that differ decide, not the first, and after both have been increased.\<close>

primrec last_cmp :: "int \<Rightarrow> (byte \<times> byte) list \<Rightarrow> int" where
  "last_cmp cmp [] = cmp"
| "last_cmp cmp (p # ps) = last_cmp (if fst p \<noteq> snd p then if fst p + 1 < snd p + 1 then - 1 else 1 else cmp) ps"

lemma elmt_cmp_loop_run:
  "length xs = length ys \<Longrightarrow> \<exists>s. elmt_cmp_loop stream_ops (length xs) cmp (stream_of (xs @ us), stream_of (ys @ vs)) =
    (Inr (last_cmp cmp (zip xs ys)), (stream_of us, stream_of vs))"
  by (induction xs ys arbitrary: cmp rule: list_induct2) (simp_all add: prog_simps)

theorem EncodedElmtCmp_last:
  assumes "length xs = length ys" and "length xs < 2 ^ 31"
  shows "fst (EncodedElmtCmp stream_ops (of_nat (length xs)) (of_nat (length ys)) (stream_of xs, stream_of ys)) =
    Inr (last_cmp (- 1) (zip xs ys))"
proof -
  have u: "unat (of_nat (length ys) :: ulong) = length ys" by (rule unat_of_nat_small) (use assms in simp)
  have "to_int (of_nat (length ys)) = int (length ys)" using to_int_small [of "of_nat (length ys)"] assms by (simp add: u)
  with elmt_cmp_loop_run [OF assms(1), of "- 1" "[]" "[]"] assms(1) show ?thesis
    by (simp add: EncodedElmtCmp_def prog_simps stream_ops_def)
qed

text \<open>So equal encodings are less than each other, \<open>01 03\<close> is greater than \<open>02 01\<close>, and \<open>FF\<close> less than \<open>00\<close>.\<close>

theorem EncodedElmtCmp_no_order:
  "length xs < 2 ^ 31 \<Longrightarrow> fst (EncodedElmtCmp stream_ops (of_nat (length xs)) (of_nat (length xs)) (stream_of xs, stream_of xs)) = Inr (- 1)"
  "fst (EncodedElmtCmp stream_ops 2 2 (stream_of [1, 3], stream_of [2, 1])) = Inr 1"
  "fst (EncodedElmtCmp stream_ops 1 1 (stream_of [0xFF], stream_of [0])) = Inr (- 1)"
proof -
  have "last_cmp cmp (zip xs xs) = cmp" for cmp and xs :: "byte list" by (induction xs arbitrary: cmp) simp_all
  then show "length xs < 2 ^ 31 \<Longrightarrow> fst (EncodedElmtCmp stream_ops (of_nat (length xs)) (of_nat (length xs)) (stream_of xs, stream_of xs)) = Inr (- 1)"
    by (simp add: EncodedElmtCmp_last)
  show "fst (EncodedElmtCmp stream_ops 2 2 (stream_of [1, 3], stream_of [2, 1])) = Inr 1"
    using EncodedElmtCmp_last [of "[1, 3]" "[2, 1]"] by simp
  show "fst (EncodedElmtCmp stream_ops 1 1 (stream_of [0xFF], stream_of [0])) = Inr (- 1)"
    using EncodedElmtCmp_last [of "[0xFF]" "[0]"] by simp
qed

end
