(* ===== verification/Tag_Codes.thy ===== *)
theory Tag_Codes
  imports Asn_Tag
begin

text \<open>An encoded tag (\<open>MAKE_TAG_ID\<close> of \<open>c-lib/inc/asn-tag.h\<close>) determines its class and its code, if the code fits into the
  octets there are for it.\<close>

section \<open>Class and code of a tag\<close>

text \<open>The class and the code can be read off an encoded tag, if its code fits.\<close>

definition code_of_tag :: "AsnTag \<Rightarrow> 32 word" where
  "code_of_tag w =
     (let top = drop_bit 24 w AND 31 in
      if top \<noteq> 31 then top
      else if \<not> bit w 23 then drop_bit 16 w AND 0x7F
      else if \<not> bit w 15 then drop_bit 9 w AND 0x3F80 OR drop_bit 8 w AND 0x7F
      else drop_bit 2 w AND 0x1FC000 OR drop_bit 1 w AND 0x3F80 OR w AND 0x7F)"

lemma bit_double: "bit (w * 2 :: 32 word) n \<longleftrightarrow> 0 < n \<and> n < 32 \<and> bit w (n - 1)"
proof -
  have "w * 2 = push_bit 1 w" by (simp add: push_bit_eq_mult)
  then show ?thesis unfolding \<open>w * 2 = push_bit 1 w\<close> bit_push_bit_iff by auto
qed

lemmas tag_bits = bit_double MAKE_TAG_ID_def MAKE_TAG_ID_CODE_def MAKE_TAG_ID_CODE1_def MAKE_TAG_ID_CODE2_def
  MAKE_TAG_ID_CODE3_def MAKE_TAG_ID_CODE4_def bit_simps proper_class_def

lemma MAKE_TAG_ID_code:
  assumes "proper_class cl" and "unat cd < 2 ^ 21"
  shows "code_of_tag (MAKE_TAG_ID cl PRIM cd) = cd"
proof -
  let ?w = "MAKE_TAG_ID cl PRIM cd"
  consider (one) "cd < 31" | (two) "\<not> cd < 31" "cd < 128" | (three) "\<not> cd < 31" "\<not> cd < 128" "cd < 16384"
    | (four) "\<not> cd < 31" "\<not> cd < 128" "\<not> cd < 16384" by blast
  then show ?thesis
  proof cases
    case one
    have "5 \<le> n \<Longrightarrow> \<not> bit cd n" for n using one not_bit_above [of cd 5 n] by (simp add: word_less_nat_alt)
    then have "drop_bit 24 ?w AND 31 = cd"
      by (intro word32_eqI) (use assms(1) one in \<open>cases cl; simp add: tag_bits\<close>)
    with one show ?thesis by (auto simp: code_of_tag_def Let_def)
  next
    case two
    have nb: "7 \<le> n \<Longrightarrow> \<not> bit cd n" for n using two not_bit_above [of cd 7 n] by (simp add: word_less_nat_alt)
    then have "drop_bit 24 ?w AND 31 = 31"
      by (intro word32_eqI) (use assms(1) two in \<open>cases cl; simp add: tag_bits\<close>)
    moreover have "\<not> bit ?w 23" using nb assms(1) two by (cases cl) (simp_all add: tag_bits)
    moreover have "drop_bit 16 ?w AND 0x7F = cd"
      by (intro word32_eqI) (use nb assms(1) two in \<open>cases cl; simp add: tag_bits\<close>)
    ultimately show ?thesis by (simp add: code_of_tag_def)
  next
    case three
    have nb: "14 \<le> n \<Longrightarrow> \<not> bit cd n" for n using three not_bit_above [of cd 14 n] by (simp add: word_less_nat_alt)
    then have "drop_bit 24 ?w AND 31 = 31"
      by (intro word32_eqI) (use assms(1) three in \<open>cases cl; simp add: tag_bits\<close>)
    moreover have "bit ?w 23" "\<not> bit ?w 15" using nb assms(1) three by (cases cl; simp add: tag_bits)+
    moreover have "drop_bit 9 ?w AND 0x3F80 OR drop_bit 8 ?w AND 0x7F = cd"
      by (intro word32_eqI) (use nb assms(1) three in \<open>cases cl; simp add: tag_bits\<close>)
    ultimately show ?thesis by (simp add: code_of_tag_def)
  next
    case four
    have nb: "21 \<le> n \<Longrightarrow> \<not> bit cd n" for n using assms(2) by (rule not_bit_above)
    then have "drop_bit 24 ?w AND 31 = 31"
      by (intro word32_eqI) (use assms(1) four in \<open>cases cl; simp add: tag_bits\<close>)
    moreover have "bit ?w 23" "bit ?w 15" using nb assms(1) four by (cases cl; simp add: tag_bits)+
    moreover have "drop_bit 2 ?w AND 0x1FC000 OR drop_bit 1 ?w AND 0x3F80 OR ?w AND 0x7F = cd"
      by (intro word32_eqI) (use nb assms(1) four in \<open>cases cl; simp add: tag_bits\<close>)
    ultimately show ?thesis by (simp add: code_of_tag_def)
  qed
qed

lemma MAKE_TAG_ID_class:
  assumes "proper_class cl" and "unat cd < 2 ^ 21"
  shows "drop_bit 30 (MAKE_TAG_ID cl PRIM cd) = drop_bit 6 (class_val cl)"
proof -
  have "5 \<le> n \<Longrightarrow> \<not> bit cd n" if "cd < 31" for n using that not_bit_above [of cd 5 n] by (simp add: word_less_nat_alt)
  moreover have "7 \<le> n \<Longrightarrow> \<not> bit cd n" if "cd < 128" for n using that not_bit_above [of cd 7 n] by (simp add: word_less_nat_alt)
  ultimately show ?thesis
    using assms(1) by (intro word32_eqI; cases cl; cases "cd < 31"; cases "cd < 128"; simp add: tag_bits)
qed

theorem MAKE_TAG_ID_unique:
  assumes "MAKE_TAG_ID cl PRIM cd = MAKE_TAG_ID cl' PRIM cd'"
    and "proper_class cl" and "unat cd < 2 ^ 21" and "proper_class cl'" and "unat cd' < 2 ^ 21"
  shows "cl' = cl \<and> cd' = cd"
proof -
  have "drop_bit 6 (class_val cl) = drop_bit 6 (class_val cl')"
    using MAKE_TAG_ID_class [OF assms(2,3)] MAKE_TAG_ID_class [OF assms(4,5)] assms(1) by simp
  with assms(2,4) have "cl' = cl" by (cases cl; cases cl') (simp_all add: proper_class_def)
  with MAKE_TAG_ID_code [OF assms(2,3)] MAKE_TAG_ID_code [OF assms(4,5)] assms(1) show ?thesis by simp
qed

lemma DECONSIFY_MAKE:
  assumes "proper_class cl" and "unat cd < 2 ^ 21" and "fm = PRIM \<or> fm = CONS"
  shows "DECONSIFY (MAKE_TAG_ID cl fm cd) = MAKE_TAG_ID cl PRIM cd"
proof -
  have "5 \<le> n \<Longrightarrow> \<not> bit cd n" if "cd < 31" for n using that not_bit_above [of cd 5 n] by (simp add: word_less_nat_alt)
  moreover have "7 \<le> n \<Longrightarrow> \<not> bit cd n" if "cd < 128" for n using that not_bit_above [of cd 7 n] by (simp add: word_less_nat_alt)
  ultimately show ?thesis using assms(1,3)
    by (intro word32_eqI; elim disjE; cases cl; cases "cd < 31"; cases "cd < 128"; simp add: tag_bits DECONSIFY_def)
qed

end
