(* ===== verification/Comp_Tables.thy ===== *)
theory Comp_Tables
  imports Comp_Check Tbl_Stack Tag_Codes
begin

text \<open>
  The type tables the compiler makes (\<open>compiler/core/gen-tbls.c\<close>): each type definition gets a number, which stands for
  pointers to it, and its type is turned into the form of \<open>Tbl_Types\<close>. The tables are written to a file, which the library
  reads and prepares; the writing and reading, by generated code, are left out, and so are the counts of types, tags and
  strings, the names of fields and the identifiers of modules. Subtypes have no effect on tables.
\<close>

section \<open>The code\<close>

record Module =
  mdName :: string
  mod_typeDefs :: "nat list"

text \<open>The field \<open>tmpRefCount\<close> of the type definitions of the store, where the numbers are kept.\<close>

type_synonym ids = "nat \<Rightarrow> 32 word"

primrec GenTypeDefIds_loop :: "nat list \<Rightarrow> 32 word \<times> ids \<Rightarrow> 32 word \<times> ids" where
  "GenTypeDefIds_loop [] s = s"
| "GenTypeDefIds_loop (td # tds) s = (case s of (totalNumTypeDefs, tmpRefCount) \<Rightarrow>
     GenTypeDefIds_loop tds (totalNumTypeDefs + 1, tmpRefCount(td := totalNumTypeDefs)))"

definition GenTypeDefIds :: "Module \<Rightarrow> 32 word \<times> ids \<Rightarrow> 32 word \<times> ids" where
  "GenTypeDefIds m s = GenTypeDefIds_loop (mod_typeDefs m) s"

text \<open>The enumeration of \<open>compiler/core/tbl.h\<close> has a value more than that of the library.\<close>

abbreviation TBL_RELATIVE_OID :: TBLTypeId where
  "TBL_RELATIVE_OID \<equiv> TBL_OTHER 14"

text \<open>The first cases of the switch of \<open>GenTblTypesRec\<close>; all others are weird types.\<close>

definition prim_id :: "BasicTypeChoiceId \<Rightarrow> TBLTypeId option" where
  "prim_id i =
     (case i of
        BASICTYPE_BOOLEAN \<Rightarrow> Some TBL_BOOLEAN | BASICTYPE_INTEGER \<Rightarrow> Some TBL_INTEGER | BASICTYPE_BITSTRING \<Rightarrow> Some TBL_BITSTRING
      | BASICTYPE_OCTETSTRING \<Rightarrow> Some TBL_OCTETSTRING | BASICTYPE_NULL \<Rightarrow> Some TBL_NULL | BASICTYPE_OID \<Rightarrow> Some TBL_OID
      | BASICTYPE_RELATIVE_OID \<Rightarrow> Some TBL_RELATIVE_OID | BASICTYPE_REAL \<Rightarrow> Some TBL_REAL
      | BASICTYPE_ENUMERATED \<Rightarrow> Some TBL_ENUMERATED | _ \<Rightarrow> None)"

text \<open>The tags; memory is cleared when it is allocated, so the fields for the encoder are zero, and UNIVERSAL is the class of
  a tag that has none of the four. An empty list is not copied.\<close>

definition gen_class :: "BER_CLASS \<Rightarrow> TBLTagClass" where
  "gen_class c = (case c of APPL \<Rightarrow> APPLICATION | CNTX \<Rightarrow> CONTEXT | PRIV \<Rightarrow> PRIVATE | _ \<Rightarrow> UNIVERSAL)"

definition gen_tags :: "Tag list option \<Rightarrow> TBLTag list option" where
  "gen_tags ts =
     (case ts of
        None \<Rightarrow> None
      | Some [] \<Rightarrow> None
      | Some ts \<Rightarrow> Some (map (\<lambda>tg. \<lparr>tclass = gen_class (tg_class tg), code = tg_code tg, form = PRIM, encTag = 0\<rparr>) ts))"

definition set_optional :: "bool \<Rightarrow> TBLType \<Rightarrow> TBLType" where
  "set_optional opt t = TBLType (typeId t) opt (tagList t) (content t)"

text \<open>
  The result is the new type, or null for a weird one, and the variable \<open>abortTblTypeDefG\<close>. The loops over elements stop at
  a null pointer they have put into the list; it is left out of the list here, as a definition with one is dropped.
\<close>

fun GenTblTypesRec :: "ids \<Rightarrow> store \<Rightarrow> bool \<Rightarrow> Type \<Rightarrow> stop + TBLType option \<times> bool"
  and gen_elmts :: "ids \<Rightarrow> store \<Rightarrow> bool \<Rightarrow> Type list \<Rightarrow> stop + TBLType list \<times> bool" where
  "GenTblTypesRec tmpRefCount tds abortG (Type op im ts df ci xi bt) =
     (let made = (\<lambda>i c. TBLType i False (gen_tags ts) c);
          with_elmts = (\<lambda>i. map_sum id (\<lambda>(es, abortG). (Some (made i (Elmts es)), abortG)));
          reference = (\<lambda>p. case p of
             Some i \<Rightarrow> if i < length tds then Inr (Some (made TBL_TYPEREF (TypeRef (tmpRefCount i) im None)), abortG) else Inl Fault
           | None \<Rightarrow> Inl Fault);
          one = map_sum id (\<lambda>(e, abortG). (case e of None \<Rightarrow> [] | Some e \<Rightarrow> [e], abortG))
      in case bt of
        BASICTYPE i \<Rightarrow> (case prim_id i of Some j \<Rightarrow> Inr (Some (made j PrimType), abortG) | None \<Rightarrow> Inr (None, True))
      | BASICTYPE_SEQUENCE es \<Rightarrow> with_elmts TBL_SEQUENCE (gen_elmts tmpRefCount tds abortG es)
      | BASICTYPE_SET es \<Rightarrow> with_elmts TBL_SET (gen_elmts tmpRefCount tds abortG es)
      | BASICTYPE_SEQUENCEOF t \<Rightarrow> with_elmts TBL_SEQUENCEOF (one (GenTblTypesRec tmpRefCount tds abortG t))
      | BASICTYPE_SETOF t \<Rightarrow> with_elmts TBL_SETOF (one (GenTblTypesRec tmpRefCount tds abortG t))
      | BASICTYPE_CHOICE es \<Rightarrow> with_elmts TBL_CHOICE (gen_elmts tmpRefCount tds abortG es)
      | BASICTYPE_LOCALTYPEREF p \<Rightarrow> reference p
      | BASICTYPE_IMPORTTYPEREF p \<Rightarrow> reference p
      | _ \<Rightarrow> Inr (None, True))"
| "gen_elmts tmpRefCount tds abortG [] = Inr ([], abortG)"
| "gen_elmts tmpRefCount tds abortG (e # es) =
     (case GenTblTypesRec tmpRefCount tds abortG e of
        Inl x \<Rightarrow> Inl x
      | Inr (None, abortG) \<Rightarrow> Inr ([], abortG)
      | Inr (Some t, abortG) \<Rightarrow>
          map_sum id (\<lambda>(es, abortG). (set_optional (t_optional e \<or> t_default e) t # es, abortG)) (gen_elmts tmpRefCount tds abortG es))"

declare GenTblTypesRec.simps [simp del]

definition GenTblTypes :: "ids \<Rightarrow> store \<Rightarrow> nat \<Rightarrow> stop + TBLType option \<times> bool" where
  "GenTblTypes tmpRefCount tds td = GenTblTypesRec tmpRefCount tds False (type (tds ! td))"

text \<open>The result is the list of definitions and \<open>isOk\<close>. A definition without a type would be appended with \<open>isOk\<close> cleared;
  it is left out, and never arises (\<open>GenTblTypes_type\<close>).\<close>

primrec GenTblTypeDefs_loop :: "ids \<Rightarrow> store \<Rightarrow> bool \<Rightarrow> nat list \<Rightarrow> stop + TBLTypeDef list \<times> bool" where
  "GenTblTypeDefs_loop tmpRefCount tds isOk [] = Inr ([], isOk)"
| "GenTblTypeDefs_loop tmpRefCount tds isOk (td # tdl) =
     (if length tds \<le> td then Inl Fault
      else case GenTblTypes tmpRefCount tds td of
        Inl x \<Rightarrow> Inl x
      | Inr (t, abortG) \<Rightarrow>
          let isOk = (if t = None \<and> \<not> abortG then False else isOk);
              new = (if abortG then [] else case t of None \<Rightarrow> []
                     | Some t \<Rightarrow> [\<lparr>typeDefId = tmpRefCount td, typeName = definedName (tds ! td), td_type = t\<rparr>])
          in map_sum id (\<lambda>(tblTds, isOk). (new @ tblTds, isOk)) (GenTblTypeDefs_loop tmpRefCount tds isOk tdl))"

definition GenTblTypeDefs :: "ids \<Rightarrow> store \<Rightarrow> Module \<Rightarrow> stop + TBLTypeDef list \<times> bool" where
  "GenTblTypeDefs tmpRefCount tds m = GenTblTypeDefs_loop tmpRefCount tds True (mod_typeDefs m)"

definition GenTblModule :: "ids \<Rightarrow> store \<Rightarrow> Module \<Rightarrow> stop + TBLModule \<times> bool" where
  "GenTblModule tmpRefCount tds m =
     map_sum id (\<lambda>(tblTds, isOk). (\<lparr>mod_name = mdName m, typeDefs = tblTds\<rparr>, isOk)) (GenTblTypeDefs tmpRefCount tds m)"

primrec GenTypeTbls_loop :: "ids \<Rightarrow> store \<Rightarrow> Module list \<Rightarrow> stop + TBLModule list option" where
  "GenTypeTbls_loop tmpRefCount tds [] = Inr (Some [])"
| "GenTypeTbls_loop tmpRefCount tds (m # ms) =
     (case GenTblModule tmpRefCount tds m of
        Inl x \<Rightarrow> Inl x
      | Inr (_, False) \<Rightarrow> Inr None
      | Inr (newTblMod, True) \<Rightarrow> map_sum id (map_option (Cons newTblMod)) (GenTypeTbls_loop tmpRefCount tds ms))"

text \<open>The table, or \<open>None\<close> if no file is written, and the numbers.\<close>

definition GenTypeTbls :: "store \<Rightarrow> Module list \<Rightarrow> ids \<Rightarrow> stop + TBL option \<times> ids" where
  "GenTypeTbls tds mods tmpRefCount =
     (case fold GenTypeDefIds mods (0, tmpRefCount) of (_, tmpRefCount) \<Rightarrow>
        map_sum id (\<lambda>ms. (map_option (\<lambda>ms. \<lparr>modules = ms\<rparr>) ms, tmpRefCount)) (GenTypeTbls_loop tmpRefCount tds mods))"

section \<open>Types and their tables\<close>

text \<open>A type without weird parts.\<close>

fun tabled :: "Type \<Rightarrow> bool" and all_tabled :: "Type list \<Rightarrow> bool" where
  "tabled (Type op im ts df ci xi bt) \<longleftrightarrow>
     (case bt of
        BASICTYPE i \<Rightarrow> prim_id i \<noteq> None
      | BASICTYPE_SEQUENCE es \<Rightarrow> all_tabled es | BASICTYPE_SET es \<Rightarrow> all_tabled es | BASICTYPE_CHOICE es \<Rightarrow> all_tabled es
      | BASICTYPE_SEQUENCEOF t \<Rightarrow> tabled t | BASICTYPE_SETOF t \<Rightarrow> tabled t
      | BASICTYPE_LOCALTYPEREF p \<Rightarrow> True | BASICTYPE_IMPORTTYPEREF p \<Rightarrow> True
      | _ \<Rightarrow> False)"
| "all_tabled [] \<longleftrightarrow> True"
| "all_tabled (e # es) \<longleftrightarrow> tabled e \<and> all_tabled es"

declare tabled.simps [simp del]

text \<open>The kind of a type with elements, and the elements.\<close>

definition parts :: "BasicType \<Rightarrow> (TBLTypeId \<times> Type list) option" where
  "parts bt =
     (case bt of
        BASICTYPE_SEQUENCE es \<Rightarrow> Some (TBL_SEQUENCE, es) | BASICTYPE_SET es \<Rightarrow> Some (TBL_SET, es)
      | BASICTYPE_CHOICE es \<Rightarrow> Some (TBL_CHOICE, es) | BASICTYPE_SEQUENCEOF t \<Rightarrow> Some (TBL_SEQUENCEOF, [t])
      | BASICTYPE_SETOF t \<Rightarrow> Some (TBL_SETOF, [t]) | _ \<Rightarrow> None)"

definition same_tag :: "Tag \<Rightarrow> TBLTag \<Rightarrow> bool" where
  "same_tag tg TG \<longleftrightarrow> tclass TG = gen_class (tg_class tg) \<and> code TG = tg_code tg"

text \<open>
  \<open>shape R P t T\<close>: the type \<open>T\<close> of a table is of the form of the type \<open>t\<close>, with references as \<open>R\<close> says (for the index of
  the definition, the number and the pointer) and all tags as \<open>P\<close> says. Elements are optional as in the type.
\<close>

inductive shape :: "(nat \<Rightarrow> 32 word \<Rightarrow> (nat \<times> nat) option \<Rightarrow> bool) \<Rightarrow> (TBLTag \<Rightarrow> bool) \<Rightarrow> Type \<Rightarrow> TBLType \<Rightarrow> bool" for R P where
  Shape_prim: "basicType t = BASICTYPE i \<Longrightarrow> prim_id i = Some (typeId T) \<Longrightarrow> content T = PrimType \<Longrightarrow>
    list_all2 same_tag (own_tags t) (tags_of T) \<Longrightarrow> list_all P (tags_of T) \<Longrightarrow> shape R P t T"
| Shape_ref: "ref_link (basicType t) = Some (Some i) \<Longrightarrow> typeId T = TBL_TYPEREF \<Longrightarrow> content T = TypeRef d (t_implicit t) p \<Longrightarrow>
    R i d p \<Longrightarrow> list_all2 same_tag (own_tags t) (tags_of T) \<Longrightarrow> list_all P (tags_of T) \<Longrightarrow> shape R P t T"
| Shape_elmts: "parts (basicType t) = Some (typeId T, es) \<Longrightarrow> content T = Elmts Es \<Longrightarrow>
    list_all2 (\<lambda>e E. shape R P e E \<and> (typeId T \<in> {TBL_SEQUENCE, TBL_SET, TBL_CHOICE} \<longrightarrow> optional E = (t_optional e \<or> t_default e))) es Es \<Longrightarrow>
    list_all2 same_tag (own_tags t) (tags_of T) \<Longrightarrow> list_all P (tags_of T) \<Longrightarrow> shape R P t T"

lemma shape_set_optional: "shape R P t (set_optional opt T) \<longleftrightarrow> shape R P t T"
  unfolding shape.simps [of R P t] by (simp add: set_optional_def tags_of_def)

lemma gen_tags_same:
  "list_all2 same_tag (own_tags (Type op im ts df ci xi bt)) (tags_of (TBLType i opt (gen_tags ts) c))"
  by (auto simp: own_tags_def tags_of_def gen_tags_def same_tag_def list_all2_map2 list.rel_refl split: option.split list.split)

abbreviation numbered :: "ids \<Rightarrow> nat \<Rightarrow> 32 word \<Rightarrow> (nat \<times> nat) option \<Rightarrow> bool" where
  "numbered tmpRefCount i d p \<equiv> d = tmpRefCount i"

lemmas shape_gen = GenTblTypesRec.simps tabled.simps type_refs.simps linked_def

lemma list_all_True: "list_all (\<lambda>_. True) xs"
  by (simp add: list_all_iff)

theorem GenTblTypesRec_shape:
  "linked tds (type_refs t) \<Longrightarrow> \<exists>T. GenTblTypesRec tmpRefCount tds ab t = Inr (T, ab \<or> \<not> tabled t) \<and>
    (tabled t \<longrightarrow> (\<exists>T'. T = Some T' \<and> shape (numbered tmpRefCount) (\<lambda>_. True) t T'))"
  and "linked tds (elmts_refs es) \<Longrightarrow> \<exists>Es. gen_elmts tmpRefCount tds ab es = Inr (Es, ab \<or> \<not> all_tabled es) \<and>
    (all_tabled es \<longrightarrow> list_all2 (\<lambda>e E. shape (numbered tmpRefCount) (\<lambda>_. True) e E \<and> optional E = (t_optional e \<or> t_default e)) es Es)"
proof (induction tmpRefCount tds ab t and tmpRefCount tds ab es rule: GenTblTypesRec_gen_elmts.induct)
  case (1 ids tds ab op im ts df ci xi bt)
  let ?t = "Type op im ts df ci xi bt" and ?tags = "gen_tags ts"
  note tags = gen_tags_same [of op im ts df ci xi bt] list_all_True
  show ?case
  proof (cases "parts bt")
    case (Some je)
    then obtain j es where je: "parts bt = Some (j, es)" by (cases je) auto
    have "\<exists>Es. GenTblTypesRec ids tds ab ?t = Inr (Some (TBLType j False ?tags (Elmts Es)), ab \<or> \<not> tabled ?t) \<and>
      (tabled ?t \<longrightarrow> list_all2 (\<lambda>e E. shape (numbered ids) (\<lambda>_. True) e E \<and>
         (j \<in> {TBL_SEQUENCE, TBL_SET, TBL_CHOICE} \<longrightarrow> optional E = (t_optional e \<or> t_default e))) es Es)"
    proof (cases bt)
      case (BASICTYPE_SEQUENCE es')
      with 1 je show ?thesis by (fastforce simp: shape_gen parts_def)
    next
      case (BASICTYPE_SET es')
      with 1 je show ?thesis by (fastforce simp: shape_gen parts_def)
    next
      case (BASICTYPE_CHOICE es')
      with 1 je show ?thesis by (fastforce simp: shape_gen parts_def)
    next
      case (BASICTYPE_SEQUENCEOF e)
      with 1 je show ?thesis by (fastforce simp: shape_gen parts_def)
    next
      case (BASICTYPE_SETOF e)
      with 1 je show ?thesis by (fastforce simp: shape_gen parts_def)
    qed (use je in \<open>simp_all add: parts_def\<close>)
    then obtain Es where Es: "GenTblTypesRec ids tds ab ?t = Inr (Some (TBLType j False ?tags (Elmts Es)), ab \<or> \<not> tabled ?t)"
      "tabled ?t \<Longrightarrow> list_all2 (\<lambda>e E. shape (numbered ids) (\<lambda>_. True) e E \<and>
         (j \<in> {TBL_SEQUENCE, TBL_SET, TBL_CHOICE} \<longrightarrow> optional E = (t_optional e \<or> t_default e))) es Es" by blast
    have "shape (numbered ids) (\<lambda>_. True) ?t (TBLType j False ?tags (Elmts Es))" if "tabled ?t"
      using je Es(2) [OF that] tags by (intro Shape_elmts) simp_all
    with Es(1) show ?thesis by blast
  next
    case None
    show ?thesis
    proof (cases "ref_link bt")
      case None': None
      with None tags show ?thesis
        by (cases bt) (auto simp: shape_gen parts_def ref_link_def intro!: Shape_prim split: option.split)
    next
      case (Some p)
      with 1(6) obtain i where "p = Some i" "i < length tds"
        by (cases bt) (auto simp: shape_gen ref_link_def split: option.splits)
      with Some tags show ?thesis
        by (cases bt) (auto simp: shape_gen ref_link_def intro!: Shape_ref)
    qed
  qed
next
  case (3 ids tds ab e es)
  from 3(3) have l: "linked tds (type_refs e)" "linked tds (elmts_refs es)" by (simp_all add: linked_def)
  from 3(1) [OF l(1)] obtain T where T: "GenTblTypesRec ids tds ab e = Inr (T, ab \<or> \<not> tabled e)"
    "tabled e \<Longrightarrow> \<exists>T'. T = Some T' \<and> shape (numbered ids) (\<lambda>_. True) e T'" by blast
  show ?case
  proof (cases T)
    case None
    with T show ?thesis by auto
  next
    case (Some T')
    from 3(2) [OF T(1) refl Some l(2)] obtain Es where
      "gen_elmts ids tds (ab \<or> \<not> tabled e) es = Inr (Es, (ab \<or> \<not> tabled e) \<or> \<not> all_tabled es)"
      "all_tabled es \<Longrightarrow> list_all2 (\<lambda>e E. shape (numbered ids) (\<lambda>_. True) e E \<and> optional E = (t_optional e \<or> t_default e)) es Es" by blast
    with T Some show ?thesis by (auto simp: shape_set_optional) (simp_all add: set_optional_def)
  qed
qed simp

section \<open>Tables of modules\<close>

lemma GenTblTypes_type:
  assumes "linked tds (type_refs (type (tds ! td)))"
  shows "\<exists>T. GenTblTypes tmpRefCount tds td = Inr (T, \<not> tabled (type (tds ! td))) \<and>
    (tabled (type (tds ! td)) \<longrightarrow> (\<exists>T'. T = Some T' \<and> shape (numbered tmpRefCount) (\<lambda>_. True) (type (tds ! td)) T'))"
  using GenTblTypesRec_shape(1) [OF assms, of tmpRefCount False] by (simp add: GenTblTypes_def)

text \<open>What a table has for a type definition, for a module, and for all modules: weird definitions are missing.\<close>

definition entry :: "ids \<Rightarrow> store \<Rightarrow> (nat \<Rightarrow> 32 word \<Rightarrow> (nat \<times> nat) option \<Rightarrow> bool) \<Rightarrow> (TBLTag \<Rightarrow> bool) \<Rightarrow> nat \<Rightarrow> TBLTypeDef \<Rightarrow> bool" where
  "entry tmpRefCount tds R P td T \<longleftrightarrow>
     typeDefId T = tmpRefCount td \<and> typeName T = definedName (tds ! td) \<and> shape R P (type (tds ! td)) (td_type T)"

definition in_table :: "store \<Rightarrow> nat list \<Rightarrow> nat list" where
  "in_table tds tdl = filter (\<lambda>td. tabled (type (tds ! td))) tdl"

definition tabulates ::
  "ids \<Rightarrow> store \<Rightarrow> (nat \<Rightarrow> 32 word \<Rightarrow> (nat \<times> nat) option \<Rightarrow> bool) \<Rightarrow> (TBLTag \<Rightarrow> bool) \<Rightarrow> Module list \<Rightarrow> TBLModule list \<Rightarrow> bool" where
  "tabulates tmpRefCount tds R P mods Ms \<longleftrightarrow>
     list_all2 (\<lambda>m M. mod_name M = mdName m \<and> list_all2 (entry tmpRefCount tds R P) (in_table tds (mod_typeDefs m)) (typeDefs M)) mods Ms"

definition all_defs :: "Module list \<Rightarrow> nat list" where
  "all_defs mods = concat (map mod_typeDefs mods)"

definition linked_defs :: "store \<Rightarrow> nat list \<Rightarrow> bool" where
  "linked_defs tds tdl \<longleftrightarrow> list_all (\<lambda>td. td < length tds \<and> linked tds (type_refs (type (tds ! td)))) tdl"

lemma GenTblTypeDefs_loop_run:
  "linked_defs tds tdl \<Longrightarrow> \<exists>Ts. GenTblTypeDefs_loop tmpRefCount tds isOk tdl = Inr (Ts, isOk) \<and>
    list_all2 (entry tmpRefCount tds (numbered tmpRefCount) (\<lambda>_. True)) (in_table tds tdl) Ts"
proof (induction tdl arbitrary: isOk)
  case (Cons td tdl)
  then have td: "td < length tds" "linked tds (type_refs (type (tds ! td)))" and rest: "linked_defs tds tdl"
    by (simp_all add: linked_defs_def)
  from GenTblTypes_type [OF td(2), of tmpRefCount] obtain T where
    T: "GenTblTypes tmpRefCount tds td = Inr (T, \<not> tabled (type (tds ! td)))"
      "tabled (type (tds ! td)) \<Longrightarrow> \<exists>T'. T = Some T' \<and> shape (numbered tmpRefCount) (\<lambda>_. True) (type (tds ! td)) T'" by blast
  from Cons.IH [OF rest] obtain Ts where Ts: "GenTblTypeDefs_loop tmpRefCount tds isOk tdl = Inr (Ts, isOk)"
    "list_all2 (entry tmpRefCount tds (numbered tmpRefCount) (\<lambda>_. True)) (in_table tds tdl) Ts" by blast
  show ?case
  proof (cases "tabled (type (tds ! td))")
    case True
    with T obtain T' where "T = Some T'" "shape (numbered tmpRefCount) (\<lambda>_. True) (type (tds ! td)) T'" by blast
    then have "entry tmpRefCount tds (numbered tmpRefCount) (\<lambda>_. True) td
        \<lparr>typeDefId = tmpRefCount td, typeName = definedName (tds ! td), td_type = T'\<rparr>" by (simp add: entry_def)
    with T(1) \<open>T = Some T'\<close> Ts td(1) True show ?thesis by (simp add: in_table_def)
  next
    case False
    with T(1) Ts td(1) show ?thesis by (simp add: in_table_def)
  qed
qed (simp add: in_table_def)

lemma GenTypeTbls_loop_run:
  "linked_defs tds (all_defs mods) \<Longrightarrow> \<exists>Ms. GenTypeTbls_loop tmpRefCount tds mods = Inr (Some Ms) \<and>
    tabulates tmpRefCount tds (numbered tmpRefCount) (\<lambda>_. True) mods Ms"
proof (induction mods)
  case (Cons m mods)
  then have "linked_defs tds (mod_typeDefs m)" "linked_defs tds (all_defs mods)" by (simp_all add: linked_defs_def all_defs_def)
  with Cons.IH GenTblTypeDefs_loop_run [of tds "mod_typeDefs m" tmpRefCount True] show ?case
    by (fastforce simp: GenTblModule_def GenTblTypeDefs_def tabulates_def)
qed (simp add: tabulates_def)

text \<open>The numbers: the place among all definitions.\<close>

lemma GenTypeDefIds_fold: "fold GenTypeDefIds mods s = GenTypeDefIds_loop (all_defs mods) s"
proof -
  have "GenTypeDefIds_loop (xs @ ys) s = GenTypeDefIds_loop ys (GenTypeDefIds_loop xs s)" for xs ys s
    by (induction xs arbitrary: s) (simp_all split: prod.split)
  then show ?thesis by (induction mods arbitrary: s) (simp_all add: all_defs_def GenTypeDefIds_def)
qed

lemma GenTypeDefIds_loop_other: "i \<notin> set tdl \<Longrightarrow> snd (GenTypeDefIds_loop tdl (n, f)) i = f i"
  by (induction tdl arbitrary: n f) simp_all

lemma GenTypeDefIds_loop_nth:
  "distinct tdl \<Longrightarrow> k < length tdl \<Longrightarrow> snd (GenTypeDefIds_loop tdl (n, f)) (tdl ! k) = n + of_nat k"
proof (induction tdl arbitrary: n f k)
  case (Cons td tdl)
  then show ?case by (cases k) (simp_all add: GenTypeDefIds_loop_other)
qed simp

lemma GenTypeDefIds_inj:
  assumes "distinct tdl" and "length tdl < 2 ^ 31"
  shows "inj_on (snd (GenTypeDefIds_loop tdl (0, f))) (set tdl)"
proof (rule inj_onI)
  fix i j assume ij: "i \<in> set tdl" "j \<in> set tdl" "snd (GenTypeDefIds_loop tdl (0, f)) i = snd (GenTypeDefIds_loop tdl (0, f)) j"
  from ij obtain k l where k: "i = tdl ! k" "k < length tdl" and l: "j = tdl ! l" "l < length tdl" by (auto simp: in_set_conv_nth)
  with ij(3) assms have "(of_nat k :: 32 word) = of_nat l" by (simp add: GenTypeDefIds_loop_nth)
  moreover have "unat (of_nat n :: 32 word) = n" if "n < length tdl" for n
    using that assms(2) by (simp add: unsigned_of_nat take_bit_nat_eq_self)
  ultimately have "k = l" using k(2) l(2) by metis
  with k l show "i = j" by simp
qed

section \<open>Finding a definition by its number\<close>

fun find_id :: "32 word \<Rightarrow> nat \<Rightarrow> 32 word list list \<Rightarrow> (nat \<times> nat) option" where
  "find_id d i [] = None"
| "find_id d i (ns # nss) = (case find_from (\<lambda>n. n = d) 0 ns of Some k \<Rightarrow> Some (i, k) | None \<Rightarrow> find_id d (i + 1) nss)"

lemma find_from_map: "find_from (\<lambda>x. f x = d) i xs = find_from (\<lambda>n. n = d) i (map f xs)"
  by (induction xs arbitrary: i) simp_all

lemma TblFindTypeDefByIndex_ids: "TblFindTypeDefByIndex \<lparr>modules = Ms\<rparr> d = find_id d 0 (map (\<lambda>M. map typeDefId (typeDefs M)) Ms)"
proof -
  have "find_in_modules (\<lambda>m. find_from (\<lambda>td. typeDefId td = d) 0 (typeDefs m)) i Ms = find_id d i (map (\<lambda>M. map typeDefId (typeDefs M)) Ms)" for i
    by (induction Ms arbitrary: i) (simp_all add: find_from_map [of typeDefId] split: option.split)
  then show ?thesis by (simp add: TblFindTypeDefByIndex_def)
qed

lemma find_from_nth: "case find_from (\<lambda>n. n = d) i ns of Some k \<Rightarrow> \<exists>j<length ns. k = i + j \<and> ns ! j = d | None \<Rightarrow> d \<notin> set ns"
proof (induction ns arbitrary: i)
  case (Cons n ns)
  from Cons [where i = "i + 1"] show ?case by (auto split: option.split_asm option.split intro: exI [of _ "Suc _"])
qed simp

lemma find_id_nth:
  "case find_id d i nss of Some (m, k) \<Rightarrow> \<exists>j<length nss. m = i + j \<and> k < length (nss ! j) \<and> nss ! j ! k = d
    | None \<Rightarrow> d \<notin> set (concat nss)"
proof (induction nss arbitrary: i)
  case (Cons ns nss)
  show ?case
  proof (cases "find_from (\<lambda>n. n = d) 0 ns")
    case None
    with find_from_nth [where d = d and i = 0 and ns = ns] Cons [where i = "i + 1"] show ?thesis
      by (auto split: option.split_asm option.split intro: exI [of _ "Suc _"])
  next
    case (Some k)
    with find_from_nth [where d = d and i = 0 and ns = ns] show ?thesis by auto
  qed
qed simp

lemma tabulates_ids:
  assumes "tabulates tmpRefCount tds R P mods Ms"
  shows "map (\<lambda>M. map typeDefId (typeDefs M)) Ms = map (\<lambda>m. map tmpRefCount (in_table tds (mod_typeDefs m))) mods"
proof -
  have "map typeDefId Ts = map tmpRefCount tdl" if "list_all2 (entry tmpRefCount tds R P) tdl Ts" for tdl Ts
    using that by induction (simp_all add: entry_def)
  with assms show ?thesis unfolding tabulates_def by (induction rule: list_all2_induct) simp_all
qed

theorem find_entry:
  assumes "tabulates tmpRefCount tds R P mods Ms" and "inj_on tmpRefCount (set (all_defs mods))"
    and "i \<in> set (in_table tds (all_defs mods))"
  shows "\<exists>T. deref \<lparr>modules = Ms\<rparr> (TblFindTypeDefByIndex \<lparr>modules = Ms\<rparr> (tmpRefCount i)) = Inr T \<and> entry tmpRefCount tds R P i T"
proof -
  let ?nss = "map (\<lambda>m. map tmpRefCount (in_table tds (mod_typeDefs m))) mods" and ?d = "tmpRefCount i"
  have find: "TblFindTypeDefByIndex \<lparr>modules = Ms\<rparr> ?d = find_id ?d 0 ?nss"
    by (simp add: TblFindTypeDefByIndex_ids tabulates_ids [OF assms(1)])
  have i: "?d \<in> set (concat ?nss)" "i \<in> set (all_defs mods)"
    using assms(3) by (auto simp: in_table_def all_defs_def)
  with find_id_nth [where d = ?d and i = 0 and nss = ?nss] obtain m k where
    mk: "find_id ?d 0 ?nss = Some (m, k)" "m < length mods" "k < length (in_table tds (mod_typeDefs (mods ! m)))"
      "tmpRefCount (in_table tds (mod_typeDefs (mods ! m)) ! k) = ?d"
    by (auto split: option.split_asm prod.split_asm)
  let ?td = "in_table tds (mod_typeDefs (mods ! m)) ! k" and ?T = "typeDefs (Ms ! m) ! k"
  have "?td \<in> set (in_table tds (mod_typeDefs (mods ! m)))" using mk(3) by simp
  then have "?td \<in> set (all_defs mods)" using mk(2) unfolding all_defs_def in_table_def by force
  with mk(4) i(2) assms(2) have "?td = i" by (auto dest: inj_onD)
  moreover have "m < length Ms" "list_all2 (entry tmpRefCount tds R P) (in_table tds (mod_typeDefs (mods ! m))) (typeDefs (Ms ! m))"
    using assms(1) mk(2) by (auto simp: tabulates_def list_all2_conv_all_nth)
  ultimately show ?thesis using mk(1,3) by (auto simp: find deref_def list_all2_conv_all_nth)
qed

lemma find_nothing:
  assumes "tabulates tmpRefCount tds R P mods Ms" and "inj_on tmpRefCount (set (all_defs mods))"
    and "i \<in> set (all_defs mods)" and "\<not> tabled (type (tds ! i))"
  shows "TblFindTypeDefByIndex \<lparr>modules = Ms\<rparr> (tmpRefCount i) = None"
proof -
  let ?nss = "map (\<lambda>m. map tmpRefCount (in_table tds (mod_typeDefs m))) mods"
  have "tmpRefCount i \<notin> set (concat ?nss)"
  proof
    assume "tmpRefCount i \<in> set (concat ?nss)"
    then obtain j where j: "j \<in> set (all_defs mods)" "tabled (type (tds ! j))" "tmpRefCount i = tmpRefCount j"
      by (auto simp: in_table_def all_defs_def)
    with assms(2,3) have "i = j" by (auto dest: inj_onD)
    with j(2) assms(4) show False by simp
  qed
  then have "find_id (tmpRefCount i) 0 ?nss = None"
  proof (cases "find_id (tmpRefCount i) 0 ?nss")
    case (Some p)
    with find_id_nth [where d = "tmpRefCount i" and i = 0 and nss = ?nss] obtain m k where
      "m < length ?nss" "k < length (?nss ! m)" "?nss ! m ! k = tmpRefCount i" by (cases p) auto
    then have "tmpRefCount i \<in> set (concat ?nss)" by (metis UN_I nth_mem set_concat)
    with \<open>tmpRefCount i \<notin> set (concat ?nss)\<close> show ?thesis by contradiction
  qed
  then show ?thesis by (simp add: TblFindTypeDefByIndex_ids tabulates_ids [OF assms(1)])
qed

section \<open>Linking and preparing the tables\<close>

lemma each_type_tabulates:
  assumes "tabulates tmpRefCount tds R P mods Ms"
    and "\<And>i TD. i \<in> set (in_table tds (all_defs mods)) \<Longrightarrow> TD \<in> set (concat (map typeDefs Ms)) \<Longrightarrow>
      shape R P (type (tds ! i)) (td_type TD) \<Longrightarrow> \<exists>T'. f (td_type TD) = Inr T' \<and> shape R' P' (type (tds ! i)) T'"
  shows "\<exists>Ms'. each_type f \<lparr>modules = Ms\<rparr> = Inr \<lparr>modules = Ms'\<rparr> \<and> tabulates tmpRefCount tds R' P' mods Ms'"
proof -
  let ?f = "\<lambda>td. map_sum id (\<lambda>t. td\<lparr>td_type := t\<rparr>) (f (td_type td))"
  let ?g = "\<lambda>m. map_sum id (\<lambda>tds. m\<lparr>typeDefs := tds\<rparr>) (map_stop ?f (typeDefs m))"
  have "\<exists>T'. ?f T = Inr T' \<and> entry tmpRefCount tds R' P' i T'"
    if "i \<in> set (in_table tds (all_defs mods))" "T \<in> set (concat (map typeDefs Ms))" "entry tmpRefCount tds R P i T" for i T
    using assms(2) [OF that(1,2)] that(3) by (auto simp: entry_def)
  then have "\<exists>M'. ?g M = Inr M' \<and> mod_name M' = mdName m \<and> list_all2 (entry tmpRefCount tds R' P') (in_table tds (mod_typeDefs m)) (typeDefs M')"
    if "m \<in> set mods" "M \<in> set Ms" "mod_name M = mdName m"
      "list_all2 (entry tmpRefCount tds R P) (in_table tds (mod_typeDefs m)) (typeDefs M)" for m M
    using map_stop_all2 [OF that(4), of ?f "entry tmpRefCount tds R' P'"] that(1-3) by (fastforce simp: in_table_def all_defs_def)
  then have "\<exists>Ms'. map_stop ?g Ms = Inr Ms' \<and> tabulates tmpRefCount tds R' P' mods Ms'"
    unfolding tabulates_def by (intro map_stop_all2 [OF assms(1) [unfolded tabulates_def]]) blast
  then show ?thesis by (auto simp: each_type_def)
qed

lemma tabulates_entry:
  assumes "tabulates tmpRefCount tds R P mods Ms" and "TD \<in> set (concat (map typeDefs Ms))"
  shows "\<exists>i\<in>set (in_table tds (all_defs mods)). entry tmpRefCount tds R P i TD"
proof -
  from assms(2) obtain m k where m: "m < length Ms" and k: "k < length (typeDefs (Ms ! m))" "TD = typeDefs (Ms ! m) ! k"
    by (auto simp: in_set_conv_nth)
  from assms(1) m have "m < length mods" and
    e: "list_all2 (entry tmpRefCount tds R P) (in_table tds (mod_typeDefs (mods ! m))) (typeDefs (Ms ! m))"
    by (auto simp: tabulates_def list_all2_conv_all_nth)
  from e k have "entry tmpRefCount tds R P (in_table tds (mod_typeDefs (mods ! m)) ! k) TD" "k < length (in_table tds (mod_typeDefs (mods ! m)))"
    by (auto simp: list_all2_conv_all_nth)
  moreover from this(2) have "in_table tds (mod_typeDefs (mods ! m)) ! k \<in> set (in_table tds (mod_typeDefs (mods ! m)))" by simp
  then have "in_table tds (mod_typeDefs (mods ! m)) ! k \<in> set (in_table tds (all_defs mods))"
    using \<open>m < length mods\<close> nth_mem [of m mods] unfolding in_table_def all_defs_def by force
  ultimately show ?thesis by blast
qed

lemma link_elmts_map: "link_elmts tbl es = map_stop (TblLinkTypeRefs tbl) es"
  by (induction es) (simp_all split: sum.split)

lemma fix_elmts_map: "fix_elmts fuel tbl es = map_stop (TblFixTypeTags fuel tbl) es"
  by (induction es) (simp_all split: sum.split)

lemma prim_id_kind: "prim_id i = Some j \<Longrightarrow> \<not> structured j \<and> j \<noteq> TBL_TYPEREF"
  by (cases i) (auto simp: prim_id_def structured_def)

lemma parts_kind: "parts bt = Some (j, es) \<Longrightarrow> structured j \<and> j \<noteq> TBL_TYPEREF"
  by (cases bt) (auto simp: parts_def structured_def)

lemma TblLinkTypeRefs_shape:
  assumes "\<And>i d p. R i d p \<Longrightarrow> R' i d (TblFindTypeDefByIndex tbl d)"
  shows "shape R P t T \<Longrightarrow> \<exists>T'. TblLinkTypeRefs tbl T = Inr T' \<and> shape R' P t T' \<and> optional T' = optional T"
proof (induction rule: shape.induct)
  case (Shape_prim t i T)
  then have "shape R' P t T" by (rule shape.Shape_prim)
  with prim_id_kind [OF Shape_prim(2)] show ?case by (cases T) (auto simp: structured_def)
next
  case (Shape_ref t i T d p)
  let ?T = "TBLType (typeId T) (optional T) (tagList T) (TypeRef d (t_implicit t) (TblFindTypeDefByIndex tbl d))"
  have "shape R' P t ?T"
    by (rule shape.Shape_ref [OF Shape_ref(1)]) (use Shape_ref assms in \<open>auto simp: tags_of_def\<close>)
  moreover have "TblLinkTypeRefs tbl T = Inr ?T" using Shape_ref(2,3) by (cases T) simp
  ultimately show ?case by simp
next
  case (Shape_elmts t T es Es)
  have "\<exists>Es'. map_stop (TblLinkTypeRefs tbl) Es = Inr Es' \<and>
    list_all2 (\<lambda>e E. shape R' P e E \<and> (typeId T \<in> {TBL_SEQUENCE, TBL_SET, TBL_CHOICE} \<longrightarrow> optional E = (t_optional e \<or> t_default e))) es Es'"
    by (rule map_stop_all2 [OF Shape_elmts(5)]) auto
  then obtain Es' where Es': "map_stop (TblLinkTypeRefs tbl) Es = Inr Es'"
    "list_all2 (\<lambda>e E. shape R' P e E \<and> (typeId T \<in> {TBL_SEQUENCE, TBL_SET, TBL_CHOICE} \<longrightarrow> optional E = (t_optional e \<or> t_default e))) es Es'" by blast
  let ?T = "TBLType (typeId T) (optional T) (tagList T) (Elmts Es')"
  have "shape R' P t ?T"
    by (rule shape.Shape_elmts [where es = es]) (use Shape_elmts(1,3,4) Es'(2) in \<open>simp_all add: tags_of_def\<close>)
  moreover have "TblLinkTypeRefs tbl T = Inr ?T"
    using parts_kind [OF Shape_elmts(1)] Shape_elmts(2) Es'(1) by (cases T) (simp add: link_elmts_map structured_def)
  ultimately show ?case by simp
qed

text \<open>A tag as \<open>TblSetTagForms\<close> makes it: its encoded form is that of its class, form and code.\<close>

definition made :: "TBLTag \<Rightarrow> bool" where
  "made TG \<longleftrightarrow> encTag TG = MAKE_TAG_ID (TblTagClassToBer (tclass TG)) (tag_form TG) (code TG)"

lemma set_tag_forms_made:
  "list_all2 same_tag ts tgs \<Longrightarrow> list_all2 same_tag ts (set_tag_forms i n tgs) \<and> list_all made (set_tag_forms i n tgs)"
proof (induction arbitrary: n rule: list_all2_induct)
  case (Cons t ts tg tgs)
  then show ?case by (auto simp: tag_forms_def same_tag_def made_def tag_form_def)
qed simp

lemma TblSetTagForms_made:
  assumes "refs_ok fuel tbl T" and "list_all2 same_tag ts (tags_of T)"
  shows "\<exists>l. TblSetTagForms fuel tbl T = Inr (TBLType (typeId T) (optional T) l (content T)) \<and>
    list_all2 same_tag ts (case l of None \<Rightarrow> [] | Some ts \<Rightarrow> ts) \<and> list_all made (case l of None \<Rightarrow> [] | Some ts \<Rightarrow> ts)"
proof (cases "tagList T")
  case None
  with assms(2) show ?thesis by (cases T) (simp add: TblSetTagForms_def tags_of_def)
next
  case (Some tgs)
  obtain n where "refs_end tbl T n" "n \<le> fuel" using assms(1) by (cases T) auto
  from skip_refs_ends [OF this, of "int (length tgs)"] obtain i m where "skip_refs fuel tbl T (int (length tgs)) = Inr (i, m)"
    by auto
  with Some assms(2) set_tag_forms_made [of ts tgs i m] show ?thesis by (simp add: TblSetTagForms_def tags_of_def)
qed

lemma TblFixTypeTags_shape:
  "shape R P t T \<Longrightarrow> refs_ok fuel tbl T \<Longrightarrow> \<exists>T'. TblFixTypeTags fuel tbl T = Inr T' \<and> shape R made t T' \<and> optional T' = optional T"
proof (induction rule: shape.induct)
  case (Shape_prim t i T)
  from TblSetTagForms_made [OF Shape_prim.prems Shape_prim(4)] obtain l where
    l: "TblSetTagForms fuel tbl T = Inr (TBLType (typeId T) (optional T) l (content T))"
      "list_all2 same_tag (own_tags t) (case l of None \<Rightarrow> [] | Some ts \<Rightarrow> ts)" "list_all made (case l of None \<Rightarrow> [] | Some ts \<Rightarrow> ts)"
    by blast
  have "shape R made t (TBLType (typeId T) (optional T) l (content T))"
    by (rule shape.Shape_prim [OF Shape_prim(1)]) (use Shape_prim(2,3) l(2,3) in \<open>simp_all add: tags_of_def\<close>)
  moreover have "TblFixTypeTags fuel tbl T = Inr (TBLType (typeId T) (optional T) l (content T))"
    using l(1) prim_id_kind [OF Shape_prim(2)] by (cases T) (auto simp: structured_def)
  ultimately show ?case by simp
next
  case (Shape_ref t i T d p)
  from TblSetTagForms_made [OF Shape_ref.prems Shape_ref(5)] obtain l where
    l: "TblSetTagForms fuel tbl T = Inr (TBLType (typeId T) (optional T) l (content T))"
      "list_all2 same_tag (own_tags t) (case l of None \<Rightarrow> [] | Some ts \<Rightarrow> ts)" "list_all made (case l of None \<Rightarrow> [] | Some ts \<Rightarrow> ts)"
    by blast
  have "shape R made t (TBLType (typeId T) (optional T) l (content T))"
    by (rule shape.Shape_ref [OF Shape_ref(1)]) (use Shape_ref(2-4) l(2,3) in \<open>simp_all add: tags_of_def\<close>)
  moreover have "TblFixTypeTags fuel tbl T = Inr (TBLType (typeId T) (optional T) l (content T))"
    using l(1) Shape_ref(2) by (cases T) auto
  ultimately show ?case by simp
next
  case (Shape_elmts t T es Es)
  note kind = parts_kind [OF Shape_elmts(1)]
  from TblSetTagForms_made [OF Shape_elmts.prems Shape_elmts(3)] obtain l where
    l: "TblSetTagForms fuel tbl T = Inr (TBLType (typeId T) (optional T) l (content T))"
      "list_all2 same_tag (own_tags t) (case l of None \<Rightarrow> [] | Some ts \<Rightarrow> ts)" "list_all made (case l of None \<Rightarrow> [] | Some ts \<Rightarrow> ts)"
    by blast
  have "all_refs_ok fuel tbl Es" using Shape_elmts.prems Shape_elmts(2) kind by (cases T) simp
  then have ok: "list_all (refs_ok fuel tbl) Es" by (induction Es) simp_all
  have "list_all2 (\<lambda>e E. \<exists>E'. TblFixTypeTags fuel tbl E = Inr E' \<and> shape R made e E' \<and>
      (typeId T \<in> {TBL_SEQUENCE, TBL_SET, TBL_CHOICE} \<longrightarrow> optional E' = (t_optional e \<or> t_default e))) es Es"
    unfolding list_all2_conv_all_nth
  proof (intro conjI allI impI)
    show len: "length es = length Es" using Shape_elmts(5) by (rule list_all2_lengthD)
    fix k assume k: "k < length es"
    note e = list_all2_nthD [OF Shape_elmts(5) k]
    from ok k len have "refs_ok fuel tbl (Es ! k)" by (simp add: list_all_length)
    with e obtain E' where "TblFixTypeTags fuel tbl (Es ! k) = Inr E'" "shape R made (es ! k) E'" "optional E' = optional (Es ! k)"
      by blast
    with e show "\<exists>E'. TblFixTypeTags fuel tbl (Es ! k) = Inr E' \<and> shape R made (es ! k) E' \<and>
      (typeId T \<in> {TBL_SEQUENCE, TBL_SET, TBL_CHOICE} \<longrightarrow> optional E' = (t_optional (es ! k) \<or> t_default (es ! k)))" by simp
  qed
  then have "\<exists>Es'. map_stop (TblFixTypeTags fuel tbl) Es = Inr Es' \<and>
    list_all2 (\<lambda>e E. shape R made e E \<and> (typeId T \<in> {TBL_SEQUENCE, TBL_SET, TBL_CHOICE} \<longrightarrow> optional E = (t_optional e \<or> t_default e))) es Es'"
    by (rule map_stop_all2)
  then obtain Es' where Es': "map_stop (TblFixTypeTags fuel tbl) Es = Inr Es'"
    "list_all2 (\<lambda>e E. shape R made e E \<and> (typeId T \<in> {TBL_SEQUENCE, TBL_SET, TBL_CHOICE} \<longrightarrow> optional E = (t_optional e \<or> t_default e))) es Es'"
    by blast
  let ?T = "TBLType (typeId T) (optional T) l (Elmts Es')"
  have "shape R made t ?T"
    by (rule shape.Shape_elmts [where es = es]) (use Shape_elmts(1) Es'(2) l(2,3) in \<open>simp_all add: tags_of_def\<close>)
  moreover have "TblFixTypeTags fuel tbl T = Inr ?T"
    using l(1) kind Shape_elmts(2) Es'(1) by (cases T) (simp add: fix_elmts_map structured_def)
  ultimately show ?case by simp
qed

section \<open>From modules to a prepared table\<close>

lemma elmts_refs_set: "set (elmts_refs es) = (\<Union>e\<in>set es. set (type_refs e))"
  by (induction es) simp_all

lemma parts_refs: "parts (basicType t) = Some (j, es) \<Longrightarrow> e \<in> set es \<Longrightarrow> set (type_refs e) \<subseteq> set (type_refs t)"
  by (cases t; cases "basicType t") (auto simp: parts_def type_refs.simps elmts_refs_set)

lemma parts_sound: "parts (basicType t) = Some (j, es) \<Longrightarrow> e \<in> set es \<Longrightarrow> sound_type tds t \<Longrightarrow> sound_type tds e"
  by (cases t; cases "basicType t") (auto simp: parts_def sound_type_def type_refs.simps elmts_linked elmts_ok)

lemma parts_no_ref: "parts bt = Some je \<Longrightarrow> ref_link bt = None"
  by (cases bt) (auto simp: parts_def ref_link_def)

lemma ref_refs: "ref_link (basicType t) = Some p \<Longrightarrow> type_refs t = [p]"
  by (cases t; cases "basicType t") (auto simp: ref_link_def type_refs.simps)

lemma shape_tags: "shape R P t T \<Longrightarrow> list_all2 same_tag (own_tags t) (tags_of T) \<and> list_all P (tags_of T)"
  by (cases rule: shape.cases) auto

lemma shape_no_ref: "shape R P t T \<Longrightarrow> ref_link (basicType t) = None \<Longrightarrow> typeId T \<noteq> TBL_TYPEREF"
  by (erule shape.cases) (auto dest: prim_id_kind parts_kind)

lemma shape_refD:
  assumes "shape R P t T" and "ref_link (basicType t) = Some (Some i)"
  shows "\<exists>d p. typeId T = TBL_TYPEREF \<and> content T = TypeRef d (t_implicit t) p \<and> R i d p"
  using assms(1)
proof cases
  case (Shape_prim i)
  with assms(2) show ?thesis by (simp add: ref_link_def)
next
  case (Shape_elmts es Es)
  with assms(2) parts_no_ref show ?thesis by fastforce
qed (use assms(2) in auto)

lemma shape_within: "shape R P t T \<Longrightarrow> set (type_refs t) \<subseteq> Some ` L \<Longrightarrow> shape (\<lambda>i d p. i \<in> L \<and> R i d p) P t T"
proof (induction rule: shape.induct)
  case (Shape_prim t i T)
  then show ?case by (intro shape.Shape_prim)
next
  case (Shape_ref t i T d p)
  then show ?case using ref_refs [OF Shape_ref(1)] by (intro shape.Shape_ref) auto
next
  case (Shape_elmts t T es Es)
  have "shape (\<lambda>i d p. i \<in> L \<and> R i d p) P (es ! k) (Es ! k) \<and>
      (typeId T \<in> {TBL_SEQUENCE, TBL_SET, TBL_CHOICE} \<longrightarrow> optional (Es ! k) = may_be_absent (es ! k))" if k: "k < length es" for k
    using list_all2_nthD [OF Shape_elmts(5) k] parts_refs [OF Shape_elmts(1) nth_mem [OF k]] Shape_elmts.prems by blast
  with list_all2_lengthD [OF Shape_elmts(5)] show ?case
    by (intro shape.Shape_elmts [OF Shape_elmts(1,2) _ Shape_elmts(3,4)]) (simp add: list_all2_conv_all_nth)
qed

text \<open>In the table all references lead to the type they stand for.\<close>

definition resolves :: "TBL \<Rightarrow> store \<Rightarrow> (nat \<Rightarrow> 32 word \<Rightarrow> (nat \<times> nat) option \<Rightarrow> bool) \<Rightarrow> (TBLTag \<Rightarrow> bool) \<Rightarrow> bool" where
  "resolves tbl tds R P \<longleftrightarrow> (\<forall>i d p. R i d p \<longrightarrow> (\<exists>TD. deref tbl p = Inr TD \<and> shape R P (type (tds ! i)) (td_type TD)))"

lemma shape_follow:
  assumes "resolves tbl tds R P" and "shape R P t T" and "ref_link (basicType t) = Some (Some i)"
  shows "\<exists>d p TD. typeId T = TBL_TYPEREF \<and> content T = TypeRef d (t_implicit t) p \<and> deref tbl p = Inr TD \<and>
    shape R P (type (tds ! i)) (td_type TD)"
  using shape_refD [OF assms(2,3)] assms(1) unfolding resolves_def by blast

lemma refs_end_shape:
  assumes "resolves tbl tds R P"
  shows "tagged tds n t ts b \<Longrightarrow> shape R P t T \<Longrightarrow> refs_end tbl T n"
proof (induction arbitrary: T rule: tagged.induct)
  case (tagged_end t)
  then show ?case by (intro End shape_no_ref)
next
  case (tagged_ref t i n ts b)
  from shape_follow [OF assms tagged_ref.prems tagged_ref.hyps(1)] obtain d p TD where
    "typeId T = TBL_TYPEREF" "content T = TypeRef d (t_implicit t) p" "deref tbl p = Inr TD" "shape R P (type (tds ! i)) (td_type TD)"
    by blast
  with tagged_ref.IH show ?case by (blast intro: Step)
qed

lemma all_refs_ok_iff: "all_refs_ok fuel tbl Es \<longleftrightarrow> (\<forall>E\<in>set Es. refs_ok fuel tbl E)"
  by (induction Es) simp_all

lemma refs_ok_iff: "refs_ok fuel tbl T \<longleftrightarrow> (\<exists>n\<le>fuel. refs_end tbl T n) \<and>
     (structured (typeId T) \<longrightarrow> (case content T of Elmts es \<Rightarrow> \<forall>E\<in>set es. refs_ok fuel tbl E | _ \<Rightarrow> False))"
  by (cases T) (auto simp: all_refs_ok_iff split: TBLTypeContent.split)

lemma refs_ok_shape:
  assumes "resolves tbl tds R P" and "references_end tds"
  shows "shape R P t T \<Longrightarrow> sound_type tds t \<Longrightarrow> \<exists>k. \<forall>fuel\<ge>k. refs_ok fuel tbl T"
proof (induction rule: shape.induct)
  case (Shape_prim t i T)
  have "refs_end tbl T 0" using prim_id_kind [OF Shape_prim(2)] by (intro End) simp
  then show ?case using prim_id_kind [OF Shape_prim(2)] by (auto simp: refs_ok_iff [of _ _ T])
next
  case (Shape_ref t i T d p)
  from type_tagged [OF assms(2) Shape_ref.prems] obtain n ts b where "tagged tds n t ts b" by blast
  from refs_end_shape [OF assms(1) this shape.Shape_ref] Shape_ref(1-6) have "refs_end tbl T n" by blast
  with Shape_ref(2) show ?case by (auto simp: refs_ok_iff [of _ _ T] structured_def)
next
  case (Shape_elmts t T es Es)
  note kind = parts_kind [OF Shape_elmts(1)]
  have "\<exists>k. \<forall>fuel\<ge>k. refs_ok fuel tbl E" if "E \<in> set Es" for E
  proof -
    from that obtain k where k: "E = Es ! k" "k < length es"
      using list_all2_lengthD [OF Shape_elmts(5)] by (auto simp: in_set_conv_nth)
    from list_all2_nthD [OF Shape_elmts(5) k(2)] parts_sound [OF Shape_elmts(1) nth_mem [OF k(2)] Shape_elmts.prems] k(1)
    show ?thesis by blast
  qed
  from common_fuel [of Es "\<lambda>fuel E. refs_ok fuel tbl E", OF this] obtain k where "\<forall>fuel\<ge>k. \<forall>E\<in>set Es. refs_ok fuel tbl E" by blast
  moreover have "refs_end tbl T 0" using kind by (intro End) simp
  ultimately show ?case using Shape_elmts(2) by (auto simp: refs_ok_iff [of _ _ T])
qed

text \<open>
  The table \<open>tbl\<close> represents the modules: it has their definitions, but for the weird ones, with the forms of their types,
  and each reference points to where its definition is in the table.
\<close>

definition points :: "ids \<Rightarrow> TBL \<Rightarrow> nat set \<Rightarrow> nat \<Rightarrow> 32 word \<Rightarrow> (nat \<times> nat) option \<Rightarrow> bool" where
  "points tmpRefCount tbl L i d p \<longleftrightarrow> i \<in> L \<and> d = tmpRefCount i \<and> p = TblFindTypeDefByIndex tbl d"

definition represents :: "ids \<Rightarrow> store \<Rightarrow> (TBLTag \<Rightarrow> bool) \<Rightarrow> Module list \<Rightarrow> TBL \<Rightarrow> bool" where
  "represents tmpRefCount tds P mods tbl \<longleftrightarrow> inj_on tmpRefCount (set (all_defs mods)) \<and>
     tabulates tmpRefCount tds (points tmpRefCount tbl (set (in_table tds (all_defs mods)))) P mods (modules tbl)"

lemma represents_entry:
  assumes "represents tmpRefCount tds P mods tbl" and "i \<in> set (in_table tds (all_defs mods))"
  shows "\<exists>TD. deref tbl (TblFindTypeDefByIndex tbl (tmpRefCount i)) = Inr TD \<and>
    entry tmpRefCount tds (points tmpRefCount tbl (set (in_table tds (all_defs mods)))) P i TD"
  using find_entry [of tmpRefCount tds _ P mods "modules tbl", OF _ _ assms(2)] assms(1)
  by (cases tbl) (auto simp: represents_def)

lemma represents_resolves:
  assumes "represents tmpRefCount tds P mods tbl"
  shows "resolves tbl tds (points tmpRefCount tbl (set (in_table tds (all_defs mods)))) P"
  unfolding resolves_def
proof (intro allI impI)
  fix i d p assume "points tmpRefCount tbl (set (in_table tds (all_defs mods))) i d p"
  then have "i \<in> set (in_table tds (all_defs mods))" "p = TblFindTypeDefByIndex tbl (tmpRefCount i)" by (simp_all add: points_def)
  with represents_entry [OF assms] show "\<exists>TD. deref tbl p = Inr TD \<and>
      shape (points tmpRefCount tbl (set (in_table tds (all_defs mods)))) P (type (tds ! i)) (td_type TD)"
    unfolding entry_def by blast
qed

text \<open>A module is sound when its definitions are those of the store, none twice, and refer only to definitions of modules
  that are not weird.\<close>

definition sound_modules :: "store \<Rightarrow> Module list \<Rightarrow> bool" where
  "sound_modules tds mods \<longleftrightarrow> distinct (all_defs mods) \<and> length (all_defs mods) < 2 ^ 31 \<and>
     list_all (\<lambda>i. i < length tds) (all_defs mods) \<and>
     list_all (\<lambda>i. set (type_refs (type (tds ! i))) \<subseteq> Some ` set (in_table tds (all_defs mods))) (in_table tds (all_defs mods))"

lemma sound_linked_defs:
  assumes "sound_store tds" and "list_all (\<lambda>i. i < length tds) (all_defs mods)"
  shows "linked_defs tds (all_defs mods)"
  using assms by (auto simp: linked_defs_def sound_store_def sound_type_def list_all_iff)

lemma tabulates_find:
  "tabulates tmpRefCount tds R P mods Ms \<Longrightarrow> tabulates tmpRefCount tds R' P' mods Ms' \<Longrightarrow>
    TblFindTypeDefByIndex \<lparr>modules = Ms'\<rparr> = TblFindTypeDefByIndex \<lparr>modules = Ms\<rparr>"
  by (rule ext) (simp add: TblFindTypeDefByIndex_ids tabulates_ids)

theorem GenTypeTbls_represents:
  assumes "sound_store tds" and "references_end tds" and "sound_modules tds mods"
  shows "\<exists>tbl0 tmpRefCount. GenTypeTbls tds mods f = Inr (Some tbl0, tmpRefCount) \<and>
    (\<exists>k. \<forall>fuel\<ge>k. \<exists>tbl. prepare_tbl fuel tbl0 = Inr tbl \<and> represents tmpRefCount tds made mods tbl)"
proof -
  let ?ids = "snd (fold GenTypeDefIds mods (0, f))" and ?L = "set (in_table tds (all_defs mods))"
  have inj: "inj_on ?ids (set (all_defs mods))"
    using assms(3) by (simp add: GenTypeDefIds_fold sound_modules_def GenTypeDefIds_inj)
  have sound: "sound_type tds (type (tds ! i))" "set (type_refs (type (tds ! i))) \<subseteq> Some ` ?L" if "i \<in> ?L" for i
    using that assms(1,3) by (auto simp: sound_modules_def sound_store_def list_all_iff in_table_def)
  from GenTypeTbls_loop_run [OF sound_linked_defs [OF assms(1)], of mods ?ids] assms(3) obtain Ms where
    Ms: "GenTypeTbls_loop ?ids tds mods = Inr (Some Ms)" "tabulates ?ids tds (numbered ?ids) (\<lambda>_. True) mods Ms"
    by (auto simp: sound_modules_def)
  let ?points = "points ?ids \<lparr>modules = Ms\<rparr> ?L"
  have link: "\<exists>T'. TblLinkTypeRefs \<lparr>modules = Ms\<rparr> (td_type TD) = Inr T' \<and> shape ?points (\<lambda>_. True) (type (tds ! i)) T'"
    if "i \<in> ?L" "shape (numbered ?ids) (\<lambda>_. True) (type (tds ! i)) (td_type TD)" for i TD
    using TblLinkTypeRefs_shape [OF _ shape_within [OF that(2) sound(2) [OF that(1)]], of ?points "\<lparr>modules = Ms\<rparr>"]
    by (auto simp: points_def)
  have "\<exists>Ms1. each_type (TblLinkTypeRefs \<lparr>modules = Ms\<rparr>) \<lparr>modules = Ms\<rparr> = Inr \<lparr>modules = Ms1\<rparr> \<and>
      tabulates ?ids tds ?points (\<lambda>_. True) mods Ms1"
    by (rule each_type_tabulates [OF Ms(2)]) (rule link)
  then obtain Ms1 where
    Ms1: "TblLinkIndexes \<lparr>modules = Ms\<rparr> = Inr \<lparr>modules = Ms1\<rparr>" "tabulates ?ids tds ?points (\<lambda>_. True) mods Ms1"
    unfolding TblLinkIndexes_def by blast
  have find: "TblFindTypeDefByIndex \<lparr>modules = Ms1\<rparr> = TblFindTypeDefByIndex \<lparr>modules = Ms\<rparr>"
    by (rule tabulates_find [OF Ms(2) Ms1(2)])
  then have points: "points ?ids \<lparr>modules = Ms1\<rparr> ?L = ?points" by (simp add: points_def [abs_def])
  with inj Ms1(2) have rep1: "represents ?ids tds (\<lambda>_. True) mods \<lparr>modules = Ms1\<rparr>" by (simp add: represents_def)
  from represents_resolves [OF this] have res: "resolves \<lparr>modules = Ms1\<rparr> tds ?points (\<lambda>_. True)" unfolding points .
  have "\<exists>k. \<forall>fuel\<ge>k. refs_ok fuel \<lparr>modules = Ms1\<rparr> (td_type TD)" if "TD \<in> set (concat (map typeDefs Ms1))" for TD
    using tabulates_entry [OF Ms1(2) that] refs_ok_shape [OF res assms(2)] sound(1) unfolding entry_def by blast
  then have "\<exists>k. \<forall>k'\<ge>k. \<forall>TD\<in>set (concat (map typeDefs Ms1)). refs_ok k' \<lparr>modules = Ms1\<rparr> (td_type TD)"
    by (rule common_fuel)
  then obtain k where
    k: "\<And>fuel TD. k \<le> fuel \<Longrightarrow> TD \<in> set (concat (map typeDefs Ms1)) \<Longrightarrow> refs_ok fuel \<lparr>modules = Ms1\<rparr> (td_type TD)" by blast
  have "\<exists>tbl. prepare_tbl fuel \<lparr>modules = Ms\<rparr> = Inr tbl \<and> represents ?ids tds made mods tbl" if fuel: "k \<le> fuel" for fuel
  proof -
    have fixed: "\<exists>T'. TblFixTypeTags fuel \<lparr>modules = Ms1\<rparr> (td_type TD) = Inr T' \<and> shape ?points made (type (tds ! i)) T'"
      if "TD \<in> set (concat (map typeDefs Ms1))" "shape ?points (\<lambda>_. True) (type (tds ! i)) (td_type TD)" for i TD
      using TblFixTypeTags_shape [OF that(2) k [OF fuel that(1)]] by blast
    have "\<exists>Ms2. each_type (TblFixTypeTags fuel \<lparr>modules = Ms1\<rparr>) \<lparr>modules = Ms1\<rparr> = Inr \<lparr>modules = Ms2\<rparr> \<and>
        tabulates ?ids tds ?points made mods Ms2"
      by (rule each_type_tabulates [OF Ms1(2)]) (rule fixed)
    then obtain Ms2 where
      Ms2: "TblFixTags fuel \<lparr>modules = Ms1\<rparr> = Inr \<lparr>modules = Ms2\<rparr>" "tabulates ?ids tds ?points made mods Ms2"
      unfolding TblFixTags_def by blast
    have "TblFindTypeDefByIndex \<lparr>modules = Ms2\<rparr> = TblFindTypeDefByIndex \<lparr>modules = Ms\<rparr>"
      by (rule tabulates_find [OF Ms(2) Ms2(2)])
    then have "points ?ids \<lparr>modules = Ms2\<rparr> ?L = ?points" by (simp add: points_def [abs_def])
    with inj Ms2(2) have "represents ?ids tds made mods \<lparr>modules = Ms2\<rparr>" by (simp add: represents_def)
    with Ms1(1) Ms2(1) show ?thesis by (simp add: prepare_tbl_def)
  qed
  moreover have "GenTypeTbls tds mods f = Inr (Some \<lparr>modules = Ms\<rparr>, ?ids)"
    using Ms(1) by (cases "fold GenTypeDefIds mods (0, f)") (simp add: GenTypeTbls_def)
  ultimately show ?thesis by blast
qed

end
