(* ===== verification/Table_Tags.thy ===== *)
theory Table_Tags
  imports Comp_Tables
begin

text \<open>What the tables the compiler makes mean at run time: values are encoded with the tags the compiler gives their types, and
  alternatives that the compiler has checked are told apart.\<close>

section \<open>The tags of a type in a table\<close>

text \<open>The tags that are opened, outermost first, for a value of a type and the types it refers to; \<open>impl\<close> leaves out the first.\<close>

inductive open_all :: "TBL \<Rightarrow> TBLType \<Rightarrow> bool \<Rightarrow> TBLTag list \<Rightarrow> bool" for tbl where
  Open_here: "typeId T \<noteq> TBL_TYPEREF \<Longrightarrow> open_all tbl T impl (open_tags T impl)"
| Open_ref: "typeId T = TBL_TYPEREF \<Longrightarrow> ref_of tbl T = Inr (T', ri) \<Longrightarrow> open_all tbl T' (ri \<or> impl \<and> no_tags T) TGs \<Longrightarrow>
    open_all tbl T impl (open_tags T impl @ TGs)"

lemma tags_dropped: "list_all2 same_tag ts TGs \<Longrightarrow> list_all2 same_tag (if p then drop 1 ts else ts) (if p then tl TGs else TGs)"
  by (cases ts; cases TGs) auto

theorem tagged_open_all:
  assumes "resolves tbl tds R P"
  shows "tagged tds n t ts b \<Longrightarrow> shape R P t T \<Longrightarrow>
    \<exists>TGs. open_all tbl T p TGs \<and> list_all2 same_tag (if p then drop 1 ts else ts) TGs"
proof (induction arbitrary: T p rule: tagged.induct)
  case (tagged_end t)
  from Open_here [OF shape_no_ref [OF tagged_end(2,1)]] tags_dropped [of "own_tags t" "tags_of T" p] shape_tags [OF tagged_end(2)]
  show ?case unfolding open_tags_def by blast
next
  case (tagged_ref t i n ts b)
  let ?own = "own_tags t"
  from shape_follow [OF assms tagged_ref.prems tagged_ref.hyps(1)] obtain d q TD where
    T: "typeId T = TBL_TYPEREF" "content T = TypeRef d (t_implicit t) q" "deref tbl q = Inr TD" and
    TD: "shape R P (type (tds ! i)) (td_type TD)" by blast
  have own: "list_all2 same_tag ?own (tags_of T)" using shape_tags [OF tagged_ref.prems] by blast
  then have none: "no_tags T \<longleftrightarrow> ?own = []" by (auto simp: no_tags_def tags_of_def split: option.splits)
  from tagged_ref.IH [OF TD] obtain TGs where
    TGs: "open_all tbl (td_type TD) (t_implicit t \<or> p \<and> no_tags T) TGs"
      "list_all2 same_tag (if t_implicit t \<or> p \<and> no_tags T then drop 1 ts else ts) TGs" by blast
  have "open_all tbl T p (open_tags T p @ TGs)"
    by (rule Open_ref [OF T(1) _ TGs(1)]) (simp add: ref_of_def T(2,3))
  moreover have "t_implicit t \<longrightarrow> ?own \<noteq> []" using tagged_ref.hyps(4) by blast
  from TGs(2) tags_dropped [OF own, of p] have
    "list_all2 same_tag (if p then drop 1 (?own @ (if t_implicit t then drop 1 ts else ts))
      else ?own @ (if t_implicit t then drop 1 ts else ts)) (open_tags T p @ TGs)"
    unfolding drop_effective [OF \<open>t_implicit t \<longrightarrow> ?own \<noteq> []\<close>, of p ts] open_tags_def none
    by (intro list_all2_appendI) (simp_all add: disj_commute)
  ultimately show ?case by blast
qed

text \<open>An encoding has these tags at its beginning, one inside the other.\<close>

lemma tbl_ber_shape:
  "tbl_ber infs tbl d h T impl v xs ys \<Longrightarrow>
    (typeId T \<noteq> TBL_TYPEREF \<longrightarrow> (\<exists>c. xs = hdr (open_tags T impl) c @ c)) \<and>
    (typeId T = TBL_TYPEREF \<longrightarrow> (\<exists>T' ri d h c. ref_of tbl T = Inr (T', ri) \<and>
      tbl_ber infs tbl d h T' (ri \<or> impl \<and> no_tags T) v c ys \<and> xs = hdr (open_tags T impl) c @ c))"
  by (erule tbl_ber.cases) (auto elim!: prim_berE)

theorem tbl_ber_open_all:
  "open_all tbl T impl TGs \<Longrightarrow> tbl_ber infs tbl d h T impl v xs ys \<Longrightarrow> \<exists>c. xs = hdr TGs c @ c"
proof (induction arbitrary: d h xs rule: open_all.induct)
  case (Open_here T impl)
  with tbl_ber_shape [OF Open_here(2)] show ?case by blast
next
  case (Open_ref T T' ri impl TGs)
  from tbl_ber_shape [OF Open_ref.prems] Open_ref(1,2) obtain d' h' c where
    c: "tbl_ber infs tbl d' h' T' (ri \<or> impl \<and> no_tags T) v c ys" "xs = hdr (open_tags T impl) c @ c" by fastforce
  from Open_ref.IH [OF c(1)] obtain c' where "c = hdr TGs c' @ c'" by blast
  with c(2) show ?case by (auto simp: hdr_append)
qed

section \<open>What a table takes for the beginning of a type\<close>

text \<open>The tag \<open>a\<close>, in either form, has the class and code \<open>nm\<close>.\<close>

definition names_tag :: "AsnTag \<Rightarrow> BER_CLASS \<times> 32 word \<Rightarrow> bool" where
  "names_tag a nm \<longleftrightarrow> DECONSIFY a = MAKE_TAG_ID (fst nm) PRIM (snd nm)"

definition proper_name :: "BER_CLASS \<times> 32 word \<Rightarrow> bool" where
  "proper_name nm \<longleftrightarrow> proper_class (fst nm) \<and> unat (snd nm) < 2 ^ 21"

lemma names_tag_unique: "names_tag a nm \<Longrightarrow> names_tag a nm' \<Longrightarrow> proper_name nm \<Longrightarrow> proper_name nm' \<Longrightarrow> nm' = nm"
  using MAKE_TAG_ID_unique [of "fst nm" "snd nm" "fst nm'" "snd nm'"]
  unfolding names_tag_def proper_name_def prod_eq_iff by (elim conjE) simp

lemma TagsEquiv_names:
  assumes "TagsEquiv a TG" and "made TG" and "same_tag tg TG" and "proper_name (tag_name tg)"
  shows "names_tag a (tag_name tg)"
proof -
  have cl: "TblTagClassToBer (tclass TG) = tg_class tg" "code TG = tg_code tg"
    using assms(3,4) by (cases "tg_class tg"; simp add: same_tag_def gen_class_def TblTagClassToBer_def proper_name_def tag_name_def proper_class_def)+
  have p: "proper_class (tg_class tg)" "unat (tg_code tg) < 2 ^ 21" using assms(4) by (simp_all add: proper_name_def tag_name_def)
  have deco: "DECONSIFY (DECONSIFY a) = DECONSIFY a" by (simp add: DECONSIFY_def and.assoc)
  have "DECONSIFY (encTag TG) = MAKE_TAG_ID (tg_class tg) PRIM (tg_code tg)"
    using assms(2) unfolding made_def cl by (simp add: DECONSIFY_MAKE [OF p] tag_form_def)
  with assms(1) deco show ?thesis by (auto simp: TagsEquiv_def names_tag_def tag_name_def)
qed

lemma first_names_ref:
  assumes "sound_type tds t" and "ref_link (basicType t) = Some (Some i)" and "i < length tds" and "own_tags t = []"
  shows "first_names tds (type (tds ! i)) \<subseteq> first_names tds t"
proof -
  have im: "\<not> t_implicit t" using assms(1,4) implicit_ok_own by (auto simp: sound_type_def)
  have step: "tagged tds (Suc n) t ts b" if "tagged tds n (type (tds ! i)) ts b" for n ts b
    using tagged_ref [OF assms(2,3) that] im assms(4) by simp
  have "first_name tds t nm" if "first_name tds (type (tds ! i)) nm" for nm
    using that by cases (blast intro: step first_name.intros)+
  then show ?thesis by (auto simp: first_names_def)
qed

lemma first_names_tag:
  assumes "references_end tds" and "sound_type tds t" and "own_tags t = tg # tgs"
  shows "tag_name tg \<in> first_names tds t"
proof -
  from type_tagged [OF assms(1,2)] obtain n ts b where t: "tagged tds n t ts b" by blast
  then have "ts \<noteq> [] \<and> hd ts = tg" by cases (simp_all add: assms(3))
  with first_name_own [OF t] show ?thesis by (auto simp: first_names_def)
qed

theorem starts_named:
  assumes "resolves tbl tds R made" and "references_end tds" and "sound_store tds"
  shows "starts tbl T a r \<Longrightarrow> r \<Longrightarrow> shape R made t T \<Longrightarrow> sound_type tds t \<Longrightarrow> \<forall>nm\<in>first_names tds t. proper_name nm \<Longrightarrow>
    \<exists>nm\<in>first_names tds t. names_tag a nm"
proof (induction arbitrary: t rule: starts.induct)
  case (Tagged T TG TGs a)
  from shape_tags [OF Tagged(3)] Tagged(1) obtain tg tgs where
    own: "own_tags t = tg # tgs" and tg: "same_tag tg TG" "made TG" by (auto simp: list_all2_Cons2)
  note nm = first_names_tag [OF assms(2) Tagged(4) own]
  with TagsEquiv_names [OF _ tg(2,1)] Tagged(2,5) show ?case by blast
next
  case (Untagged_ref T T' i a r)
  from shape_tags [OF Untagged_ref.prems(2)] Untagged_ref(2) have own: "own_tags t = []"
    by (auto simp: no_tags_def tags_of_def split: option.splits)
  have "ref_link (basicType t) \<noteq> None" using shape_no_ref [OF Untagged_ref.prems(2)] Untagged_ref(1) by blast
  with sound_ref [OF Untagged_ref.prems(3)] obtain j where j: "ref_link (basicType t) = Some (Some j)" "j < length tds" by auto
  from shape_follow [OF assms(1) Untagged_ref.prems(2) j(1)] Untagged_ref(3) have T': "shape R made (type (tds ! j)) T'"
    by (auto simp: ref_of_def)
  have "sound_type tds (type (tds ! j))" using assms(3) j(2) by (simp add: sound_store_def list_all_length)
  from Untagged_ref.IH [OF Untagged_ref.prems(1) T' this] first_names_ref [OF Untagged_ref.prems(3) j own] Untagged_ref.prems(4)
  show ?case by blast
next
  case (Untagged_choice T Es a rs)
  from shape_tags [OF Untagged_choice.prems(2)] Untagged_choice(2) have own: "own_tags t = []"
    by (auto simp: no_tags_def tags_of_def split: option.splits)
  from Untagged_choice.prems(2) Untagged_choice(1,3) obtain es where
    es: "parts (basicType t) = Some (TBL_CHOICE, es)" "list_all2 (shape R made) es Es"
    by cases (auto simp: elmts_of_def list_all2_conv_all_nth dest: prim_id_kind [simplified structured_def])
  then have bt: "basicType t = BASICTYPE_CHOICE es" by (cases "basicType t") (auto simp: parts_def)
  then have "ref_link (basicType t) = None" by (simp add: ref_link_def)
  from tagged_end [OF this] own have t: "tagged tds 0 t [] t" by simp
  from Untagged_choice.prems(1) obtain k where k: "k < length rs" "rs ! k" by (auto simp: in_set_conv_nth)
  note IH = list_all2_nthD2 [OF Untagged_choice.IH k(1)]
  from k(1) es(2) list_all2_lengthD [OF Untagged_choice.IH] have ke: "k < length es" "shape R made (es ! k) (Es ! k)"
    by (auto simp: list_all2_conv_all_nth)
  have sub: "first_names tds (es ! k) \<subseteq> first_names tds t" unfolding first_names_choice(1) [OF t bt] using nth_mem [OF ke(1)] by blast
  have "\<exists>nm\<in>first_names tds (es ! k). names_tag a nm"
    using IH k(2) ke(2) sound_alternatives [OF Untagged_choice.prems(3) bt nth_mem [OF ke(1)]] sub Untagged_choice.prems(4) by blast
  with sub show ?case by blast
qed

text \<open>Alternatives that pass the check of the compiler are told apart by the table.\<close>

theorem checked_starts_apart:
  assumes "represents tmpRefCount tds made mods tbl" and "references_end tds" and "sound_store tds"
    and "i \<in> set (in_table tds (all_defs mods))" and "parts (basicType (type (tds ! i))) = Some (kind, es)"
    and "HasDistinctTags k tds es = Inr True" and "sound_modules tds mods" and "list_all (\<lambda>e. \<forall>nm\<in>first_names tds e. proper_name nm) es"
  shows "\<exists>TD Es. deref tbl (TblFindTypeDefByIndex tbl (tmpRefCount i)) = Inr TD \<and> typeId (td_type TD) = kind \<and>
    content (td_type TD) = Elmts Es \<and> length Es = length es \<and>
    (\<forall>a. \<forall>m<length Es. \<forall>m'<length Es. starts tbl (Es ! m) a True \<and> starts tbl (Es ! m') a True \<longrightarrow> m' = m)"
proof -
  let ?R = "points tmpRefCount tbl (set (in_table tds (all_defs mods)))"
  note res = represents_resolves [OF assms(1)]
  from represents_entry [OF assms(1,4)] obtain TD where
    TD: "deref tbl (TblFindTypeDefByIndex tbl (tmpRefCount i)) = Inr TD" "shape ?R made (type (tds ! i)) (td_type TD)"
    by (auto simp: entry_def)
  from TD(2) assms(5) obtain Es where Es: "typeId (td_type TD) = kind" "content (td_type TD) = Elmts Es" "list_all2 (shape ?R made) es Es"
  proof cases
    case (Shape_elmts es' Es)
    with assms(5) that show ?thesis by (auto simp: list_all2_conv_all_nth)
  qed (use assms(5) parts_no_ref in \<open>fastforce simp: parts_def\<close>)+
  have i: "sound_type tds (type (tds ! i))"
    using assms(3,4,7) by (auto simp: sound_modules_def sound_store_def list_all_iff in_table_def)
  have sound: "list_all (sound_type tds) es" using parts_sound [OF assms(5) _ i] by (auto simp: list_all_iff)
  have len: "length Es = length es" using list_all2_lengthD [OF Es(3)] by simp
  have named: "\<exists>nm\<in>first_names tds (es ! m). names_tag a nm" if "m < length es" "starts tbl (Es ! m) a True" for m a
    using starts_named [OF res assms(2,3) that(2) TrueI list_all2_nthD [OF Es(3) that(1)]] sound assms(8) that(1)
    by (simp add: list_all_length)
  have "sorted_wrt (\<lambda>e e'. first_names tds e \<inter> first_names tds e' = {}) es"
    using HasDistinctTags_exact [OF assms(3,2) sound assms(6)] by (simp add: apart_def)
  note apart = sorted_wrt_nth_less [OF this]
  have "m' = m" if m: "m < length es" "starts tbl (Es ! m) a True" and m': "m' < length es" "starts tbl (Es ! m') a True" for a m m'
  proof -
    from named [OF m] named [OF m'] obtain nm nm' where
      nm: "nm \<in> first_names tds (es ! m)" "names_tag a nm" "nm' \<in> first_names tds (es ! m')" "names_tag a nm'" by blast
    moreover have "proper_name nm" "proper_name nm'" using assms(8) m(1) m'(1) nm(1,3) by (auto simp: list_all_length)
    ultimately have eq: "nm' = nm" by (intro names_tag_unique)
    show ?thesis
    proof (cases m m' rule: linorder_cases)
      case less
      with apart [OF less m'(1)] nm(1,3) eq show ?thesis by blast
    next
      case greater
      with apart [OF greater m(1)] nm(1,3) eq show ?thesis by blast
    qed simp
  qed
  with TD(1) Es(1,2) len show ?thesis by auto
qed

text \<open>The header of an encoding has the tags for which the compiler generates code.\<close>

lemma with_forms_names: "ts \<noteq> [] \<Longrightarrow> map tag_name (with_forms fm ts) = map tag_name ts"
  by (cases ts rule: rev_cases) (simp_all add: with_forms_def tag_name_def)

lemma same_tag_forms:
  assumes "ts \<noteq> []"
  shows "list_all2 same_tag (with_forms fm ts) TGs \<longleftrightarrow> list_all2 same_tag ts TGs"
proof -
  have "list_all2 same_tag us TGs \<longleftrightarrow> list_all2 (\<lambda>nm TG. tclass TG = gen_class (fst nm) \<and> code TG = snd nm) (map tag_name us) TGs" for us
    by (simp add: list_all2_map1 same_tag_def [abs_def] tag_name_def)
  then show ?thesis by (simp add: with_forms_names [OF assms])
qed

theorem encoded_with_GetTags:
  assumes "represents tmpRefCount tds made mods tbl" and "sound_store tds" and "sound_modules tds mods"
    and "i \<in> set (in_table tds (all_defs mods))" and "deref tbl (TblFindTypeDefByIndex tbl (tmpRefCount i)) = Inr TD"
    and "GetTags k libTypesG tds (type (tds ! i)) = Inr (tags, False)" and "tbl_ber infs tbl d h (td_type TD) False v xs ys"
  shows "\<exists>TGs c. list_all2 same_tag tags TGs \<and> xs = hdr TGs c @ c"
proof -
  have "sound_type tds (type (tds ! i))"
    using assms(2-4) by (auto simp: sound_modules_def sound_store_def list_all_iff in_table_def)
  from loop_returns [OF assms(2) this assms(6) [unfolded GetTags_def]] obtain n ts b where
    n: "n < k" and t: "tagged tds n (type (tds ! i)) ts b" by blast
  then obtain k' where k: "k = Suc (n + k')" using less_imp_Suc_add by blast
  from GetTags_tagged [OF t, of k' libTypesG] assms(6) have
    run: "end_of_refs libTypesG k' tds (GetTags k' libTypesG tds) b ts = Inr (tags, False)" by (simp add: k)
  have tags: "ts = [] \<and> tags = [] \<or> ts \<noteq> [] \<and> (\<exists>fm. tags = with_forms fm ts)"
  proof (cases "ts = []")
    case True
    with run show ?thesis
      by (cases "basicType b") (auto simp: end_of_refs_def set_forms_def map_sum_def split: sum.splits)
  next
    case False
    with run show ?thesis by (auto simp: end_of_refs_def set_forms_def split: BasicType.splits sum.splits option.splits)
  qed
  from represents_entry [OF assms(1,4)] assms(5) have
    "shape (points tmpRefCount tbl (set (in_table tds (all_defs mods)))) made (type (tds ! i)) (td_type TD)" by (auto simp: entry_def)
  from tagged_open_all [OF represents_resolves [OF assms(1)] t this, of False] obtain TGs where
    TGs: "open_all tbl (td_type TD) False TGs" "list_all2 same_tag ts TGs" by auto
  from tags TGs(2) same_tag_forms have "list_all2 same_tag tags TGs" by auto
  with tbl_ber_open_all [OF TGs(1) assms(7)] show ?thesis by blast
qed

end
