(* ===== verification/Table_Examples.thy ===== *)
theory Table_Examples
  imports Table_Tags Comp_Examples Tbl_Examples
begin

text \<open>A small module, its table, and a table that cannot be prepared.\<close>

definition table_types :: store where
  "table_types = tagged_types @ [tagged_def ''Outer'' (choice_of two_alternatives)]"

definition table_modules :: "Module list" where
  "table_modules = [\<lparr>mdName = ''M'', mod_typeDefs = [0, 1, 2]\<rparr>]"

lemmas table_example = table_types_def table_modules_def example_tags two_alternatives_def

lemma table_types_sound: "sound_store table_types"
  by (simp add: sound_store_def sound_type_def linked_def table_example type_refs.simps)

lemma table_types_end: "references_end table_types"
proof -
  have "ref_link (basicType (int_with 3)) = None" "ref_link (basicType (choice_of [int_with 8])) = None"
    "ref_link (basicType (choice_of two_alternatives)) = None"
    by (simp_all add: example_tags ref_link_def)
  from this [THEN tagged_end [of _ table_types]] show ?thesis
    unfolding references_end_def by (auto simp: table_types_def tagged_types_def tagged_def_def)
qed

lemma table_modules_sound: "sound_modules table_types table_modules"
  by (simp add: sound_modules_def all_defs_def in_table_def tabled.simps table_example type_refs.simps prim_id_def)

lemma table_in: "set (in_table table_types (all_defs table_modules)) = {0, 1, 2}"
  by (auto simp: all_defs_def in_table_def tabled.simps table_example prim_id_def)

text \<open>The table of the module, before and after it has been prepared.\<close>

definition gen_tag :: "BER_FORM \<Rightarrow> 32 word \<Rightarrow> AsnTag \<Rightarrow> TBLTag" where
  "gen_tag fm cd a = \<lparr>tclass = CONTEXT, code = cd, form = fm, encTag = a\<rparr>"

definition table_with :: "(32 word \<Rightarrow> TBLTag) \<Rightarrow> (nat \<Rightarrow> (nat \<times> nat) option) \<Rightarrow> TBL" where
  "table_with tag to = \<lparr>modules = [\<lparr>mod_name = ''M'', typeDefs =
     [\<lparr>typeDefId = 0, typeName = ''Number'', td_type = TBLType TBL_INTEGER False (Some [tag 3]) PrimType\<rparr>,
      \<lparr>typeDefId = 1, typeName = ''Inner'', td_type = TBLType TBL_CHOICE False None
         (Elmts [TBLType TBL_INTEGER False (Some [tag 8]) PrimType])\<rparr>,
      \<lparr>typeDefId = 2, typeName = ''Outer'', td_type = TBLType TBL_CHOICE False None
         (Elmts [TBLType TBL_TYPEREF False (Some [tag 7]) (TypeRef 0 True (to 0)),
            TBLType TBL_TYPEREF False None (TypeRef 1 False (to 1))])\<rparr>]\<rparr>]\<rparr>"

definition example_ids :: ids where
  "example_ids = (\<lambda>_. 0)(0 := 0, 1 := 1, 2 := 2)"

lemma table_generated:
  "GenTypeTbls table_types table_modules (\<lambda>_. 0) = Inr (Some (table_with (\<lambda>cd. gen_tag PRIM cd 0) (\<lambda>_. None)), example_ids)"
  by (simp add: GenTypeTbls_def GenTypeDefIds_def GenTblModule_def GenTblTypeDefs_def GenTblTypes_def GenTblTypesRec.simps
      table_example prim_id_def gen_tags_def gen_class_def gen_tag_def set_optional_def table_with_def example_ids_def cntx_tag_def)

abbreviation prepared_table :: TBL where
  "prepared_table \<equiv> table_with (\<lambda>cd. gen_tag PRIM cd (MAKE_TAG_ID CNTX PRIM cd)) (\<lambda>i. Some (0, i))"

lemma table_prepared: "prepare_tbl (Suc fuel) (table_with (\<lambda>cd. gen_tag PRIM cd 0) (\<lambda>_. None)) = Inr prepared_table"
  by (simp add: prepare_tbl_def TblLinkIndexes_def TblFixTags_def each_type_def table_with_def TblFindTypeDefByIndex_def gen_tag_def
      TblSetTagForms_def skip_refs.simps deref_def tags_of_def tag_forms_def TblTagClassToBer_def)

lemma table_represents: "represents example_ids table_types made table_modules prepared_table"
proof -
  from GenTypeTbls_represents [OF table_types_sound table_types_end table_modules_sound, of "\<lambda>_. 0"] obtain k where
    "\<forall>fuel\<ge>k. \<exists>tbl. prepare_tbl fuel (table_with (\<lambda>cd. gen_tag PRIM cd 0) (\<lambda>_. None)) = Inr tbl \<and>
      represents example_ids table_types made table_modules tbl"
    unfolding table_generated by auto
  then have "\<exists>tbl. prepare_tbl (Suc k) (table_with (\<lambda>cd. gen_tag PRIM cd 0) (\<lambda>_. None)) = Inr tbl \<and>
      represents example_ids table_types made table_modules tbl" by (meson le_SucI order_refl)
  then show ?thesis unfolding table_prepared by auto
qed

text \<open>A value of the first type, and its tags in the compiler.\<close>

lemma number_found:
  "deref prepared_table (TblFindTypeDefByIndex prepared_table (example_ids 0)) = Inr \<lparr>typeDefId = 0, typeName = ''Number'',
     td_type = TBLType TBL_INTEGER False (Some [gen_tag PRIM 3 (MAKE_TAG_ID CNTX PRIM 3)]) PrimType\<rparr>"
  by (simp add: table_with_def TblFindTypeDefByIndex_def example_ids_def deref_def)

lemma number_tags: "GetTags 1 libBERTypesG table_types (type (table_types ! 0)) = Inr ([cntx_tag 3], False)"
  by (simp add: run_tags table_example eval_nat_numeral cntx_tag_def)

lemma number_ber:
  "tbl_ber infs tbl (Suc d) h (TBLType TBL_INTEGER False (Some [gen_tag PRIM 3 (MAKE_TAG_ID CNTX PRIM 3)]) PrimType) False (AInt 5) [0x83, 1, 5] ys"
proof -
  let ?tg = "gen_tag PRIM 3 (MAKE_TAG_ID CNTX PRIM 3)" and ?t = "TBLType TBL_INTEGER False (Some [gen_tag PRIM 3 (MAKE_TAG_ID CNTX PRIM 3)]) PrimType"
  have ok: "tag_ok ?tg" by (simp add: tag_ok_def gen_tag_def TblTagClassToBer_def tag_form_def)
  have h: "hdr [?tg] [5] = [0x83, 1]"
    by (simp add: tag_bytes_def tag_octets_def tag_form_def gen_tag_def TblTagClassToBer_def tag_lead_def len_octets_def)
  have ot: "open_tags ?t False = [?tg]" by (simp add: open_tags_def tags_of_def)
  have "prim_ber infs (typeId ?t) (AInt 5) [5]" using prim_ber.Int [of TBL_INTEGER infs 5] int_octets_5 by simp
  from tbl_ber_ber_fields_ber_members_ber_list.Prim [OF this, of False h "encTag ?tg" tbl d ys] show ?thesis
    using hdr_ok_one [OF ok h] by (simp add: ot h last_tag_def del: hdr.simps)
qed

text \<open>The alternatives of the third type.\<close>

lemma outer_checked: "HasDistinctTags 4 table_types two_alternatives = Inr True"
  by (simp add: HasDistinctTags_def table_example AddFirstTag_def own_tags_def ref_link_def link_type_def
      eval_nat_numeral DefineObj_def TagObjCmp_def cntx_tag_def)

lemma outer_names: "list_all (\<lambda>e. \<forall>nm\<in>first_names table_types e. proper_name nm) two_alternatives"
proof -
  have i8: "tagged table_types 0 (int_with 8) [cntx_tag 8] (int_with 8)"
    using tagged_end [of "int_with 8" table_types] by (simp add: int_with_def own_tags_def ref_link_def)
  have "tagged table_types 0 (type (table_types ! 1)) [] (choice_of [int_with 8])"
    using tagged_end [of "choice_of [int_with 8]" table_types] by (simp add: table_example own_tags_def ref_link_def)
  from tagged_ref [of "two_alternatives ! 1" 1, OF _ _ this] have
    c: "tagged table_types 1 (two_alternatives ! 1) [] (choice_of [int_with 8])"
    by (simp add: table_example own_tags_def ref_link_def)
  have "tagged table_types 0 (type (table_types ! 0)) [cntx_tag 3] (int_with 3)"
    using tagged_end [of "int_with 3" table_types] by (simp add: table_example own_tags_def ref_link_def)
  from tagged_ref [of "implicit_ref 0" 0, OF _ _ this] have
    i7: "tagged table_types 1 (implicit_ref 0) [cntx_tag 7] (int_with 3)" by (simp add: table_example own_tags_def ref_link_def)
  have "first_names table_types (implicit_ref 0) = {(CNTX, 7)}" using first_names_own [OF i7] by (simp add: tag_name_def cntx_tag_def)
  moreover have "first_names table_types (two_alternatives ! 1) = {(CNTX, 8)}"
    using first_names_choice(1) [OF c] first_names_own [OF i8] by (simp add: choice_of_def tag_name_def cntx_tag_def)
  ultimately show ?thesis by (simp add: two_alternatives_def proper_name_def proper_class_def)
qed

lemma outer_parts: "parts (basicType (type (table_types ! 2))) = Some (TBL_CHOICE, two_alternatives)"
  by (simp add: table_example parts_def)

section \<open>A reference to a definition that is left out\<close>

text \<open>\<open>A ::= [1] INTEGER\<close> and \<open>B ::= [2] SEQUENCE { [3] A, [4] OCTET STRING }\<close>, the third tag explicit: a table whose
  references are resolved, with its tags as given.\<close>

definition form_table :: "TBLTag \<Rightarrow> TBLTag \<Rightarrow> TBLTag \<Rightarrow> TBLTag \<Rightarrow> TBL" where
  "form_table a b c d = \<lparr>modules = [\<lparr>mod_name = ''M'', typeDefs =
     [\<lparr>typeDefId = 0, typeName = ''A'', td_type = TBLType TBL_INTEGER False (Some [a]) PrimType\<rparr>,
      \<lparr>typeDefId = 1, typeName = ''B'', td_type = TBLType TBL_SEQUENCE False (Some [b])
         (Elmts [TBLType TBL_TYPEREF False (Some [c]) (TypeRef 0 False (Some (0, 0))),
            TBLType TBL_OCTETSTRING False (Some [d]) PrimType])\<rparr>]\<rparr>]\<rparr>"

lemma form_table_leads:
  "list_all (\<lambda>m. list_all (\<lambda>td. refs_lead (form_table a b c d) (td_type td)) (typeDefs m)) (modules (form_table a b c d))"
proof -
  have "refs_end (form_table a b c d) (TBLType TBL_TYPEREF False (Some [c]) (TypeRef 0 False (Some (0, 0)))) 1"
    using refs_end.Step [of "TBLType TBL_TYPEREF False (Some [c]) (TypeRef 0 False (Some (0, 0)))" 0 False "Some (0, 0)"
        "form_table a b c d" "\<lparr>typeDefId = 0, typeName = ''A'', td_type = TBLType TBL_INTEGER False (Some [a]) PrimType\<rparr>" 0]
    by (simp add: form_table_def deref_def refs_end.End)
  moreover have "\<exists>n. refs_end tbl t n" if "typeId t \<noteq> TBL_TYPEREF" for tbl t using refs_end.End [OF that] by blast
  ultimately show ?thesis by (auto simp: form_table_def structured_def)
qed

lemma form_table_prepared:
  "TblFixTags (Suc fuel) (form_table (gen_tag PRIM 1 0) (gen_tag PRIM 2 0) (gen_tag PRIM 3 0) (gen_tag PRIM 4 0)) =
     Inr (form_table (gen_tag PRIM 1 (MAKE_TAG_ID CNTX PRIM 1)) (gen_tag CONS 2 (MAKE_TAG_ID CNTX CONS 2))
       (gen_tag CONS 3 (MAKE_TAG_ID CNTX CONS 3)) (gen_tag ANY_FORM 4 (MAKE_TAG_ID CNTX PRIM 4)))"
  by (simp add: TblFixTags_def each_type_def form_table_def gen_tag_def TblSetTagForms_def skip_refs.simps deref_def
      tags_of_def tag_forms_def TblTagClassToBer_def)

text \<open>\<open>A ::= [7] B\<close> and \<open>B ::= ANY\<close>: the table has A only, and its preparation follows a null pointer.\<close>

definition any_types :: store where
  "any_types = [tagged_def ''A'' (Type False False (Some [cntx_tag 7]) False None None (BASICTYPE_LOCALTYPEREF (Some 1))),
      tagged_def ''B'' (Type False False None False None None (BASICTYPE BASICTYPE_ANY))]"

theorem dangling_reference:
  "\<exists>tbl ids. GenTypeTbls any_types [\<lparr>mdName = ''M'', mod_typeDefs = [0, 1]\<rparr>] f = Inr (Some tbl, ids) \<and>
     prepare_tbl (Suc fuel) tbl = Inl Fault"
  by (simp add: GenTypeTbls_def GenTypeDefIds_def GenTblModule_def GenTblTypeDefs_def GenTblTypes_def GenTblTypesRec.simps
      any_types_def example_tags prim_id_def gen_tags_def gen_class_def cntx_tag_def
      prepare_tbl_def TblLinkIndexes_def TblFixTags_def each_type_def TblFindTypeDefByIndex_def
      TblSetTagForms_def skip_refs.simps deref_def tags_of_def)

end
