(* ===== verification/Spec2Isabelle.thy ===== *)
theory Spec2Isabelle
  imports Asn_Oid String_Types Hash_Table Nibble_Alloc Asn_List E_Buf_Laws Asn_Any Asn_Real Tbl_Examples Comp_Passes Comp_Examples Min_Buf Table_Examples "HOL-Library.Multiset"
begin

text \<open>
  eSNACC, an ASN.1 compiler with run-time libraries. This development models the C run-time library
  (\<open>c-lib/src\<close>, \<open>c-lib/inc\<close>): the routines that generated code calls to encode values by the Basic
  Encoding Rules and to decode them again, and passes of the compiler (\<open>compiler\<close>) over types.

  The program's parts. A \<open>GenBuf\<close> is a table of functions on a buffer; every encoder and decoder reads
  and writes through it. Buffers are written from their end, so that an encoder writes contents, length
  and tag in this order and knows the length when it writes it. Two buffers provide the table: \<open>SBuf\<close>,
  one block, and \<open>ExpBuf\<close>, a list of blocks that grows. On top of them stand tags and lengths, then one
  module for each ASN.1 type with \<open>BEncX\<close>, \<open>BDecX\<close> and their \<open>Content\<close> forms. Decoded values are
  allocated by \<open>Asn1Alloc\<close>, from the C heap or from the nibble memory; SEQUENCE OF and SET OF values are
  linked lists; ANY values find their routines in hash tables.

  Theories and sources.
  \<^item> \<open>Prelude\<close>: machine types (LP64, little endian, \<open>char\<close> signed), \<open>stop\<close> (how a routine ends other than
    by returning: \<open>longjmp\<close>, \<open>exit\<close>, undefined behaviour), \<open>('s, 'a) prog\<close> (state passing), blocks of memory
    with checked access, \<open>Malloc\<close> and \<open>Asn1Alloc\<close> (\<open>mem.c\<close>, \<open>asn-config.h\<close>), the simulation \<open>sim\<close>.
  \<^item> \<open>Gen_Buf\<close>: \<open>gen-buf.h\<close>; the abstract buffer (a stream of octets) and the contracts \<open>byte_reader\<close>,
    \<open>gen_reader\<close>, \<open>gen_writer\<close>, \<open>gen_buffer\<close> between buffers and codecs, as locales.
  \<^item> \<open>S_Buf\<close>: \<open>sbuf.c\<close>, which fulfils all of them. \<open>E_Buf\<close>: \<open>exp-buf.c\<close>; \<open>E_Buf_Laws\<close>: the contracts it fulfils,
    and where it does not.
  \<^item> \<open>Asn_Len\<close>, \<open>Asn_Tag\<close>: \<open>asn-len.c\<close>, \<open>asn-tag.c\<close> and their headers. \<open>Asn_Prim\<close>: BOOLEAN, NULL, INTEGER,
    ENUMERATED. \<open>Asn_Octs\<close>: OCTET STRING with the string stack of \<open>str-stk.h\<close>. \<open>Asn_Bits\<close>: BIT STRING with the
    static \<open>unusedBitsG\<close> as part of the state. \<open>Asn_Oid\<close>: \<open>asn-oid.c\<close>, \<open>asn-relative-oid.c\<close>.
    \<open>Asn_Strings\<close>, \<open>Asn_UTF8\<close>, \<open>String_Types\<close>: the character strings. \<open>Asn_Any\<close>: \<open>asn-any.c\<close> and the \<open>copyAny\<close>
    routines of both buffers. \<open>Doubles\<close>, \<open>Asn_Real\<close>: REAL (\<open>asn-real.c\<close>) over doubles as exact rationals with rounding.
    \<open>Asn_Peek\<close>: looking ahead (\<open>PeekTag\<close>, \<open>PeekEoc\<close>).
  \<^item> Type tables, the ASN.1 types as data: \<open>Tbl_Types\<close> (\<open>boot/tbl.h\<close>, \<open>tbl-util.c\<close>), \<open>Tbl_Codec\<close> (\<open>tbl-enc.c\<close>,
    \<open>tbl-dec.c\<close>); \<open>Tbl_Ber\<close> has the relation \<open>tbl_ber\<close> between types, values and octets, \<open>Tbl_Enc\<close> and \<open>Tbl_Dec\<close>
    prove that the encoder writes and the decoder (on a stream) reads what it says, \<open>Tbl_Sim\<close> carries this to
    buffers; \<open>Tbl_Stack\<close> is about the static stack of tags and chains of references, \<open>Tbl_Quirks\<close>
    about departures from the rules, \<open>Tbl_Prepare\<close> about what \<open>TblFixTags\<close> makes of a table, \<open>Tbl_Examples\<close> has concrete
    tables.
  \<^item> Passes of the compiler over types (\<open>compiler/core\<close>): \<open>Comp_Types\<close> (\<open>asn1module.h\<close>, predicates of
    \<open>snacc-util.c\<close>), \<open>Comp_Rec\<close> (\<open>recursive.c\<close>, the search for recursive types), \<open>Comp_Sort\<close> (\<open>dependency.c\<close>, sorting
    definitions by their references), \<open>Comp_Passes\<close> (both together). Type definitions are a store, pointers to them
    indices. \<open>Comp_Tags\<close> has the tags of types (\<open>back-ends/tag-util.c\<close>, \<open>lib-types.c\<close>), \<open>Comp_Names\<close> the names in generated
    code (\<open>back-ends/str-util.c\<close>, \<open>define.c\<close>, \<open>kwd.c\<close>), \<open>Comp_Norm\<close> two steps of \<open>normalize.c\<close>, \<open>Comp_Check\<close> the
    checks of \<open>err-chk.c\<close> that elements have different tags, \<open>Comp_Examples\<close> small stores.
  \<^item> From the compiler to the library: \<open>Comp_Tables\<close> has the type tables the compiler makes (\<open>gen-tbls.c\<close>) and proves what they
    are when the library has prepared them, \<open>Table_Tags\<close> that values get the tags of \<open>GetTags\<close> and that checked alternatives are
    told apart, \<open>Tag_Codes\<close> that an encoded tag determines class and code, \<open>Table_Examples\<close> a small module.
  \<^item> \<open>Min_Buf\<close>: \<open>min-buf.c\<close>, a buffer that is only a pointer, and \<open>asn-der.c\<close>, the comparison of encodings.
  \<^item> \<open>Hash_Table\<close>: \<open>hash.c\<close>. \<open>Nibble_Alloc\<close>: \<open>nibble-alloc.c\<close>. \<open>Asn_List\<close>: \<open>asn-list.c\<close> on an explicit
    store of nodes.

  How the code is rendered. A definition has the name of the C function or macro; loops have the name of
  their function with a suffix. A pointer into a block is an offset, a pointer to a value is the value, and
  where aliasing matters (\<open>Asn_List\<close>, \<open>Nibble_Alloc\<close>) there is a store. \<open>*bytesDecoded\<close> is passed and returned.
  Integers have their C width; signed overflow is undefined behaviour (\<open>Fault\<close>) where it can occur. Static
  variables are part of the state.

  What the lemmas show. For each codec: on every buffer with the contract, the encoder emits the octets
  of an abstract function (\<open>tlv\<close>, \<open>int_octets\<close>, ...), the decoder acts as on a stream, and on a stream
  it inverts the encoder; then, for all inputs, what the decoder accepts and with which code it stops
  otherwise. The theorems below put these together on concrete buffers. Data structures are refined: the
  hash table is a map, the nibble memory separate arrays, the list two sequences around a cursor, the
  expandable buffer one sequence of octets.

  Bounds and fuel. Constructed strings are decoded by recursion bounded by fuel, and \<open>NoFuel\<close> is no
  behaviour of the code: fuel of one more than the octets left suffices, since every level reads at least
  one octet or ends, and \<open>fuelled\<close> proves it. The lists take fuel for the number of nodes. A loop whose
  index wraps and that never ends is \<open>NoFuel\<close> as well. The compiler's routines on tags take fuel for chains of references, one more than their length being enough.
  The routines on type tables take fuel for the depth of
  types and references; their theorems hold \<open>for_large\<close> fuel, that is for every fuel from some number on. For the
  preparation of tags the number of type definitions is enough. Blocks of buffers are smaller than \<open>2 ^ 31\<close>
  octets, as the code casts their sizes to \<open>int\<close>. The encodings of strings the decoders are shown to read have lengths of
  up to eight octets behind the leading one, as many as \<open>BDecLen\<close> takes.

  Not modelled. Printing and freeing of values (\<open>Print*\<close>, \<open>Free*\<close>, which only call \<open>fprintf\<close> and \<open>free\<close>), with
  the exception of \<open>PrintAsnOid\<close> and \<open>AsnListFree\<close>; the failure of \<open>malloc\<close>, where \<open>Asn1Alloc\<close> ends the process, except
  for the blocks of the expandable buffer; file access; of the compiler the parser, which is generated, the linking
  passes, the other checks and the rest of normalisation, which rewrite a large graph in place, and the back ends, which print text with
  \<open>fprintf\<close>; the C++, Tcl and Python libraries,
  which are other languages; the generated decoder of type tables in \<open>c-lib/boot\<close>.
\<close>

section \<open>Tags and lengths\<close>

text \<open>C1: \<open>BDecTag\<close>, on a simple buffer over any octets, returns the tag and the octet count its
  specification gives, or stops as it says: with -26 where the data end within the tag. It never
  stops with -25, the overflow check its comment promises.\<close>

theorem BDecTag_every_input:
  "fst (BDecTag sBufOpsG bd (SBufInstallData xs)) = tag_result bd xs \<and>
   fst (BDecTag sBufOpsG bd (SBufInstallData xs)) \<noteq> Inl (LongJmp (-25))"
proof -
  have "fst (BDecTag sBufOpsG bd (SBufInstallData xs)) = tag_result bd xs"
    using sim_fst [OF sb.BDecTag_sim sbuf_install(1)] BDecTag_stream by (simp add: sbuf_install(2))
  then show ?thesis by (simp add: tag_result_def split: list.split option.split)
qed

text \<open>C2: \<open>BDecLen\<close>, on a simple buffer over any octets, returns the length its specification
  gives (short, long or indefinite form), or stops with -13, -14 or -15.\<close>

theorem BDecLen_every_input: "fst (BDecLen sBufOpsG bd (SBufInstallData xs)) = len_result bd xs"
  using sim_fst [OF sb.BDecLen_sim sbuf_install(1)] BDecLen_stream by (simp add: sbuf_install(2))

text \<open>C3: a tag written by the macro that \<open>TagByteLen\<close> selects is read back by \<open>BDecTag\<close> as
  \<open>MAKE_TAG_ID\<close> of its class, form and code, for every code below \<open>2 ^ 21\<close>; encoder and decoder
  count the same octets.\<close>

theorem BEncTag_BDecTag:
  assumes "proper_class cl" and "proper_form fm" and "unat cd < 2 ^ 21" and "4 \<le> length mem"
  shows "write_read (BEncTagN sBufOpsG cl fm cd) (BDecTag sBufOpsG 0) mem =
      Inr (MAKE_TAG_ID cl fm cd, of_nat (length (tag_octets cl fm cd))) \<and>
    written_by (BEncTagN sBufOpsG cl fm cd) mem = (Inr (TagByteLen (ucast cd)), tag_octets cl fm cd)"
proof -
  have "length (tag_octets cl fm cd) \<le> length mem"
    using assms(4) length_tag_octets [of cl fm cd] by linarith
  then show ?thesis
    using write_read_sim [OF sb.BEncTagN_emits [OF assms(3)] _ sb.BDecTag_sim]
      BDecTag_tag_octets [OF assms(1-3), of 0 "[]"] written_by_emits [OF sb.BEncTagN_emits [OF assms(3)]]
    by fastforce
qed

lemma BEncTag_BDecTag_witness:
  "write_read (BEncTagN sBufOpsG CNTX CONS 300) (BDecTag sBufOpsG 0) (replicate 8 0) =
      Inr (MAKE_TAG_ID CNTX CONS 300, of_nat (length (tag_octets CNTX CONS 300))) \<and>
    written_by (BEncTagN sBufOpsG CNTX CONS 300) (replicate 8 0) = (Inr (TagByteLen (ucast (300 :: 32 word))), tag_octets CNTX CONS 300)"
  by (rule BEncTag_BDecTag) (simp_all add: proper_class_def proper_form_def)

text \<open>C4: \<open>BDecLen\<close> reads what \<open>BEncDefLen\<close> has written as the low 32 bits of the length:
  lengths of \<open>2 ^ 32\<close> and more are lost.\<close>

theorem BEncDefLen_BDecLen:
  assumes "5 \<le> length mem"
  shows "write_read (BEncDefLen sBufOpsG len) (BDecLen sBufOpsG 0) mem =
    Inr (take_bit 32 len, of_nat (length (len_octets len)))"
proof -
  have "length (len_octets len) \<le> length mem" using assms length_len_octets [of len] by linarith
  then show ?thesis
    using write_read_sim [OF sb.BEncDefLen_emits _ sb.BDecLen_sim] BDecLen_len_octets [of 0 len "[]"] by fastforce
qed

lemma BEncDefLen_BDecLen_witness:
  "write_read (BEncDefLen sBufOpsG 0x100000000) (BDecLen sBufOpsG 0) [0, 0, 0, 0, 0] =
    Inr (take_bit 32 0x100000000, of_nat (length (len_octets 0x100000000)))"
  by (rule BEncDefLen_BDecLen) simp

text \<open>C5: the unrolled \<open>BEncDefLen\<close> and the loop of \<open>BEncDefLen2\<close> write the same octets and return
  the same count for a length below \<open>2 ^ 32\<close>, except from 16777126, the misspelt bound of the
  third case, to \<open>2 ^ 24 - 1\<close>.\<close>

theorem BEncDefLen_BEncDefLen2:
  assumes "unat len < 2 ^ 32" and "5 \<le> length mem"
  shows "written_by (BEncDefLen sBufOpsG len) mem = written_by (BEncDefLen2 sBufOpsG len) mem \<longleftrightarrow>
    \<not> (16777126 \<le> unat len \<and> unat len < 16777216)"
proof -
  have "written_by (BEncDefLen sBufOpsG len) mem = (Inr (of_nat (length (len_octets len))), len_octets len)"
    using assms(2) length_len_octets [of len] by (intro written_by_emits [OF sb.BEncDefLen_emits]) linarith
  moreover have "written_by (BEncDefLen2 sBufOpsG len) mem = (Inr (of_nat (length (len2_octets len))), len2_octets len)"
    using assms(2) length_len2_octets [OF assms(1)]
    by (intro written_by_emits [OF sb.BEncDefLen2_octets [OF assms(1)]]) linarith
  ultimately show ?thesis using len_octets_eq [OF assms(1)] by auto
qed

lemma BEncDefLen_BEncDefLen2_witness:
  "(written_by (BEncDefLen sBufOpsG 16777126) [0, 0, 0, 0, 0] = written_by (BEncDefLen2 sBufOpsG 16777126) [0, 0, 0, 0, 0] \<longleftrightarrow>
     \<not> (16777126 \<le> unat (16777126 :: ulong) \<and> unat (16777126 :: ulong) < 16777216)) \<and>
   (written_by (BEncDefLen sBufOpsG 300) [0, 0, 0, 0, 0] = written_by (BEncDefLen2 sBufOpsG 300) [0, 0, 0, 0, 0] \<longleftrightarrow>
     \<not> (16777126 \<le> unat (300 :: ulong) \<and> unat (300 :: ulong) < 16777216))"
  by (intro conjI BEncDefLen_BEncDefLen2) simp_all

text \<open>\<open>BDecLen\<close> returns the indefinite length for the octet 80, as it should, and also for the
  definite form 88 with eight octets FF.\<close>

theorem BDecLen_indefinite:
  "fst (BDecLen sBufOpsG bd (SBufInstallData xs)) = Inr (INDEFINITE_LEN, bd') \<longleftrightarrow>
    (\<exists>ys. xs = 0x80 # ys \<and> bd' = bd + 1 \<or> xs = 0x88 # replicate 8 0xFF @ ys \<and> bd' = bd + 9)"
proof -
  have "fst (BDecLen sBufOpsG bd (SBufInstallData xs)) = len_result bd xs"
    using sim_fst [OF sb.BDecLen_sim sbuf_install(1)] BDecLen_stream by (simp add: sbuf_install(2))
  then show ?thesis by (simp only: len_result_indefinite)
qed
section \<open>Integers, booleans, null\<close>

text \<open>C6: every \<open>AsnInt\<close> is read back as it was written, \<open>BEncAsnInt\<close> and \<open>BDecAsnInt\<close> count
  the same octets, and the contents are the shortest octets of two's complement for the value.\<close>

theorem AsnInt_round_trip:
  assumes "13 \<le> length mem"
  shows "write_read (BEncAsnInt sBufOpsG d) (BDecAsnInt sBufOpsG 0) mem =
      Inr (d, of_nat (length (tlv UNIV_CLASS PRIM 2 (int_octets (sint d))))) \<and>
    written_by (BEncAsnInt sBufOpsG d) mem =
      (Inr (of_nat (length (tlv UNIV_CLASS PRIM 2 (int_octets (sint d))))), tlv UNIV_CLASS PRIM 2 (int_octets (sint d))) \<and>
    (\<forall>ys. ys \<noteq> [] \<and> tc_val ys = sint d \<longrightarrow> length (int_octets (sint d)) \<le> length ys)"
proof -
  have "length (tlv UNIV_CLASS PRIM 2 (int_octets (sint d))) \<le> length mem"
    using assms length_tlv [of UNIV_CLASS PRIM 2 "int_octets (sint d)"] length_int_octets(2) [of "sint d"] by linarith
  then show ?thesis
    using write_read_sim [OF sb.BEncAsnInt_emits _ sb.BDecAsnInt_sim] BDecAsnInt_tlv [of 0 d "[]"]
      written_by_emits [OF sb.BEncAsnInt_emits] int_octets_shortest [of _ "sint d"] by fastforce
qed

lemma AsnInt_round_trip_witness:
  "write_read (BEncAsnInt sBufOpsG (-129)) (BDecAsnInt sBufOpsG 0) (replicate 20 0) =
      Inr (-129, of_nat (length (tlv UNIV_CLASS PRIM 2 (int_octets (sint (-129 :: AsnInt)))))) \<and>
    length (int_octets (sint (-129 :: AsnInt))) \<le> length [0xFF, 0xFF, 0x7F :: byte]"
proof -
  have "tc_val [0xFF, 0xFF, 0x7F] = sint (-129 :: AsnInt)" by simp
  moreover have "13 \<le> length (replicate 20 (0 :: byte))" by simp
  ultimately show ?thesis using AsnInt_round_trip [of "replicate 20 0" "-129"] by blast
qed

text \<open>C7: \<open>BDecAsnIntContent\<close>, for any announced length and any octets, stops with -7 or -8 or
  returns the value the octets denote in two's complement; a length of 0 reads one octet.\<close>

theorem BDecAsnIntContent_every_input:
  "fst (BDecAsnIntContent sBufOpsG t len bd (SBufInstallData xs)) = int_content len bd xs"
  using sim_fst [OF sb.BDecAsnIntContent_sim sbuf_install(1)] BDecAsnIntContent_result
  by (simp add: sbuf_install(2))

text \<open>C8: a \<open>UAsnInt\<close> survives \<open>BEncUAsnInt\<close> and \<open>BDecUAsnInt\<close> exactly when it is below
  \<open>2 ^ 31\<close>: on a platform with 64-bit longs the branch that adds the zero octet is dead.\<close>

theorem UAsnInt_round_trip:
  assumes "13 \<le> length mem"
  shows "(\<exists>n. write_read (BEncUAsnInt sBufOpsG d) (BDecUAsnInt sBufOpsG 0) mem = Inr (d, n)) \<longleftrightarrow> uint d < 2 ^ 31"
proof -
  have "length (tlv UNIV_CLASS PRIM 2 (tc_bytes (int_len_pos (ucast d) INT_MASK 4) (uint d))) \<le> length mem"
    using assms length_tlv [of UNIV_CLASS PRIM 2 "tc_bytes (int_len_pos (ucast d) INT_MASK 4) (uint d)"]
      int_len_pos_le [of "ucast d" INT_MASK 4] by simp
  then have "write_read (BEncUAsnInt sBufOpsG d) (BDecUAsnInt sBufOpsG 0) mem =
      fst (BDecUAsnInt stream_ops 0
        (stream_of (tlv UNIV_CLASS PRIM 2 (tc_bytes (int_len_pos (ucast d) INT_MASK 4) (uint d)))))"
    by (rule write_read_sim [OF sb.BEncUAsnInt_emits _ sb.BDecUAsnInt_sim]) (rule prod.collapse [symmetric])
  then show ?thesis by (simp add: BDecUAsnInt_of_written)
qed

lemma UAsnInt_round_trip_witness:
  "((\<exists>n. write_read (BEncUAsnInt sBufOpsG 0x80000000) (BDecUAsnInt sBufOpsG 0) (replicate 20 0) = Inr (0x80000000, n)) \<longleftrightarrow>
      uint (0x80000000 :: UAsnInt) < 2 ^ 31) \<and>
   ((\<exists>n. write_read (BEncUAsnInt sBufOpsG 200) (BDecUAsnInt sBufOpsG 0) (replicate 20 0) = Inr (200, n)) \<longleftrightarrow>
      uint (200 :: UAsnInt) < 2 ^ 31)"
  by (intro conjI UAsnInt_round_trip) simp_all

text \<open>BOOLEAN, NULL and ENUMERATED are read back as written; a true value comes back as 1.\<close>

theorem Bool_Null_Enum_round_trip:
  assumes "13 \<le> length mem"
  shows "write_read (BEncAsnBool sBufOpsG x) (BDecAsnBool sBufOpsG 0) mem = Inr (if x \<noteq> 0 then 1 else 0, 3) \<and>
    write_read (BEncAsnNull sBufOpsG) (BDecAsnNull sBufOpsG 0) mem = Inr ((), 2) \<and>
    (\<exists>n. write_read (BEncAsnEnum sBufOpsG d) (BDecAsnEnum sBufOpsG 0) mem = Inr (d, n))"
proof (intro conjI)
  let ?b = "tlv UNIV_CLASS PRIM 1 [if x \<noteq> 0 then 0xFF else 0]"
  have "length ?b = 3" by (simp add: tlv_def tag_octets_def len_octets_def)
  then show "write_read (BEncAsnBool sBufOpsG x) (BDecAsnBool sBufOpsG 0) mem = Inr (if x \<noteq> 0 then 1 else 0, 3)"
    using write_read_sim [OF sb.BEncAsnBool_emits _ sb.BDecAsnBool_sim] assms
      BDecAsnBool_tlv [of 0 "if x \<noteq> 0 then 0xFF else 0" "[]"] by fastforce
  have "length (tlv UNIV_CLASS PRIM 5 []) = 2" by (simp add: tlv_def tag_octets_def len_octets_def)
  then show "write_read (BEncAsnNull sBufOpsG) (BDecAsnNull sBufOpsG 0) mem = Inr ((), 2)"
    using write_read_sim [OF sb.BEncAsnNull_emits _ sb.BDecAsnNull_sim] assms BDecAsnNull_tlv [of 0 "[]"] by fastforce
  have "length (tlv UNIV_CLASS PRIM 10 (int_octets (sint d))) \<le> length mem"
    using assms length_tlv [of UNIV_CLASS PRIM 10 "int_octets (sint d)"] length_int_octets(2) [of "sint d"] by linarith
  then show "\<exists>n. write_read (BEncAsnEnum sBufOpsG d) (BDecAsnEnum sBufOpsG 0) mem = Inr (d, n)"
    using write_read_sim [OF sb.BEncAsnEnum_emits _ sb.BDecAsnEnum_sim] BDecAsnEnum_tlv [of 0 d "[]"] by fastforce
qed

lemma Bool_Null_Enum_round_trip_witness:
  "write_read (BEncAsnBool sBufOpsG 7) (BDecAsnBool sBufOpsG 0) (replicate 13 0) = Inr (if (7 :: byte) \<noteq> 0 then 1 else 0, 3) \<and>
    write_read (BEncAsnNull sBufOpsG) (BDecAsnNull sBufOpsG 0) (replicate 13 0) = Inr ((), 2) \<and>
    (\<exists>n. write_read (BEncAsnEnum sBufOpsG 3) (BDecAsnEnum sBufOpsG 0) (replicate 13 0) = Inr (3, n))"
  by (rule Bool_Null_Enum_round_trip) simp

section \<open>Octet strings\<close>

text \<open>C9: an OCTET STRING value of fewer than \<open>2 ^ 31 - 1\<close> octets is read back with its octets and
  the terminating null the decoder adds.\<close>

theorem AsnOcts_round_trip:
  assumes "octs_in_memory v" and "unat (octetLen v) + 9 \<le> length mem"
  shows "write_read (BEncAsnOcts sBufOpsG v) (BDecAsnOcts k sBufOpsG 0) mem =
    Inr (\<lparr>octetLen = octetLen v, octs = octs_val v @ [0]\<rparr>, of_nat (length (tlv UNIV_CLASS PRIM 4 (octs_val v))))"
proof -
  have l: "length (octs_val v) = unat (octetLen v)" by (rule length_octs_val [OF assms(1)])
  have "length (octs_val v) < 2 ^ 31 - 1" using assms(1) by (simp add: l) (simp add: octs_in_memory_def)
  from BDecAsnOcts_tlv [OF this, of k 0 "[]"]
  have r: "BDecAsnOcts k stream_ops 0 (stream_of (tlv UNIV_CLASS PRIM 4 (octs_val v))) =
      (Inr (\<lparr>octetLen = octetLen v, octs = octs_val v @ [0]\<rparr>,
         of_nat (length (tlv UNIV_CLASS PRIM 4 (octs_val v)))), stream_of [])"
    by (simp add: l)
  show ?thesis
    by (rule write_read_refines [OF sb.BEncAsnOcts_emits [OF assms(1)] _ sb.BDecAsnOcts_refines r])
      (use assms(2) l length_tlv [of UNIV_CLASS PRIM 4 "octs_val v"] in linarith)
qed

lemma AsnOcts_round_trip_witness:
  "write_read (BEncAsnOcts sBufOpsG \<lparr>octetLen = 3, octs = [1, 2, 3]\<rparr>) (BDecAsnOcts 0 sBufOpsG 0) (replicate 12 0) =
    Inr (\<lparr>octetLen = octetLen \<lparr>octetLen = 3, octs = [1, 2, 3]\<rparr>,
          octs = octs_val \<lparr>octetLen = 3, octs = [1, 2, 3]\<rparr> @ [0]\<rparr>,
         of_nat (length (tlv UNIV_CLASS PRIM 4 (octs_val \<lparr>octetLen = 3, octs = [1, 2, 3]\<rparr>))))"
  by (rule AsnOcts_round_trip) (simp_all add: octs_in_memory_def)

text \<open>C10: \<open>BDecAsnOcts\<close> reads every BER encoding of an octet string of fewer than \<open>2 ^ 31 - 1\<close> octets
  whose lengths are in any form \<open>BDecLen\<close> knows as the concatenation of its pieces: primitive or
  constructed to any depth, each length in the short form, in the long form with one to eight octets,
  leading zeros included, or, of a constructed one, indefinite. (\<open>BDecLen\<close> refuses a long form of more than
  eight octets.) As many rounds as the encoding has octets
  are enough.\<close>

theorem BDecAsnOcts_every_encoding:
  assumes "ber_lengths t" and "length (ber_octets t) < 2 ^ 31 - 1" and "length (ber_octets t) \<le> k"
  shows "fst (BDecAsnOcts k sBufOpsG bd (SBufInstallData (ber_octets t @ ys))) =
    Inr (\<lparr>octetLen = of_nat (length (ostring_octets t)), octs = ostring_octets t @ [0]\<rparr>,
      bd + of_nat (length (ber_octets t)))"
proof -
  have "BDecAsnOcts k stream_ops bd (sbuf_unread (SBufInstallData (ber_octets t @ ys))) =
      (Inr (\<lparr>octetLen = of_nat (length (ostring_octets t)), octs = ostring_octets t @ [0]\<rparr>,
        bd + of_nat (length (ber_octets t))), stream_of ys)"
    using BDecAsnOcts_ber [OF assms(2,3,1)] by (simp add: sbuf_install(2))
  then show ?thesis
    by (rule refines_run [OF sb.BDecAsnOcts_refines sbuf_install(1)]) simp_all
qed

lemma BDecAsnOcts_every_encoding_witness:
  "ber_octets (OCons None [OPrim (LongForm 1) [0x41], OCons (Some (LongForm 2)) [OPrim ShortForm [3]]]) =
     [0x24, 0x80, 0x04, 0x81, 0x01, 0x41, 0x24, 0x82, 0x00, 0x03, 0x04, 0x01, 0x03, 0, 0] \<and>
   fst (BDecAsnOcts 20 sBufOpsG 0 (SBufInstallData
      ([0x24, 0x80, 0x04, 0x81, 0x01, 0x41, 0x24, 0x82, 0x00, 0x03, 0x04, 0x01, 0x03, 0, 0] @ [7]))) =
    Inr (\<lparr>octetLen = 2, octs = [0x41, 3, 0]\<rparr>, 15)"
proof -
  let ?t = "OCons None [OPrim (LongForm 1) [0x41], OCons (Some (LongForm 2)) [OPrim ShortForm [3]]]"
  have b: "ber_octets ?t = [0x24, 0x80, 0x04, 0x81, 0x01, 0x41, 0x24, 0x82, 0x00, 0x03, 0x04, 0x01, 0x03, 0, 0]"
    by (simp add: be_bytes_two)
  have "ber_lengths ?t" by simp
  from BDecAsnOcts_every_encoding [OF this, of 20 0 "[7]"] show ?thesis unfolding b by simp
qed

text \<open>\<open>AsnOctsEquiv\<close> decides whether two values hold the same octets.\<close>

theorem AsnOctsEquiv_same_octets:
  assumes "octs_in_memory v" and "octs_in_memory w"
  shows "AsnOctsEquiv v w = Inr (octs_val v = octs_val w)"
  using assms by (rule AsnOctsEquiv_val)

lemma AsnOctsEquiv_same_octets_witness:
  "AsnOctsEquiv \<lparr>octetLen = 2, octs = [1, 2, 3]\<rparr> \<lparr>octetLen = 2, octs = [1, 2, 0]\<rparr> =
    Inr (octs_val \<lparr>octetLen = 2, octs = [1, 2, 3]\<rparr> = octs_val \<lparr>octetLen = 2, octs = [1, 2, 0]\<rparr>)"
  by (rule AsnOctsEquiv_same_octets) (simp_all add: octs_in_memory_def)

text \<open>The length \<open>2 ^ 32\<close> on a primitive OCTET STRING allocates one octet, since \<open>Malloc\<close> takes
  an \<open>int\<close>; two octets of contents then overflow the block.\<close>

theorem BDecAsnOcts_overflow:
  "fst (BDecAsnOcts k sBufOpsG 0 (SBufInstallData (0x04 # 0x85 # 1 # 0 # 0 # 0 # 0 # x # y # ys))) = Inl Fault"
  by (rule BDecAsnOcts_huge)

section \<open>Bit strings\<close>

text \<open>C11: a BIT STRING value is read back with its length and its octets, whatever the static variable
  \<open>unusedBitsG\<close> holds.\<close>

theorem AsnBits_round_trip:
  assumes "bits_in_memory v" and "length (bits_octets v) + 10 \<le> length mem"
  shows "write_read (BEncAsnBits sBufOpsG v) (with_unused u (BDecAsnBits k sBufOpsG 0)) mem =
    Inr (\<lparr>bitLen = bitLen v, bits = bits_octets v\<rparr>,
      of_nat (length (tlv UNIV_CLASS PRIM 3 (of_nat (unused_bits (bit_count v)) # bits_octets v))))"
proof -
  let ?xs = "tlv UNIV_CLASS PRIM 3 (of_nat (unused_bits (bit_count v)) # bits_octets v)"
  have r: "with_unused u (BDecAsnBits k stream_ops 0) (stream_of ?xs) =
      (Inr (\<lparr>bitLen = bitLen v, bits = bits_octets v\<rparr>, of_nat (length ?xs)), stream_of [])"
    using BDecAsnBits_tlv [OF assms(1), of k 0 "[]" u] by (simp add: with_unused_def)
  show ?thesis
    by (rule write_read_refines [OF sb.BEncAsnBits_emits [OF assms(1)] _ refines_with_unused [OF sb.BDecAsnBits_refines] r])
      (use assms(2) length_tlv [of UNIV_CLASS PRIM 3 "of_nat (unused_bits (bit_count v)) # bits_octets v"] in simp)
qed

lemma AsnBits_round_trip_witness:
  "write_read (BEncAsnBits sBufOpsG \<lparr>bitLen = 11, bits = [0xAB, 0xE0]\<rparr>) (with_unused 0 (BDecAsnBits 0 sBufOpsG 0))
      (replicate 12 0) =
    Inr (\<lparr>bitLen = bitLen \<lparr>bitLen = 11, bits = [0xAB, 0xE0]\<rparr>, bits = bits_octets \<lparr>bitLen = 11, bits = [0xAB, 0xE0]\<rparr>\<rparr>,
      of_nat (length (tlv UNIV_CLASS PRIM 3 (of_nat (unused_bits (bit_count \<lparr>bitLen = 11, bits = [0xAB, 0xE0]\<rparr>)) #
        bits_octets \<lparr>bitLen = 11, bits = [0xAB, 0xE0]\<rparr>))))"
  by (rule AsnBits_round_trip) (simp_all add: bits_in_memory_def bits_octets_def bit_count_def)

text \<open>\<open>AsnBitsEquiv\<close> decides whether two values denote the same sequence of bits; the unused bits
  of the last octet do not matter.\<close>

theorem AsnBitsEquiv_same_bits:
  assumes "bits_in_memory v" and "bits_in_memory w"
  shows "AsnBitsEquiv v w = Inr (bit_seq v = bit_seq w)"
  using assms by (rule AsnBitsEquiv_seq)

lemma AsnBitsEquiv_same_bits_witness:
  "AsnBitsEquiv \<lparr>bitLen = 3, bits = [0xBF]\<rparr> \<lparr>bitLen = 3, bits = [0xA0]\<rparr> =
    Inr (bit_seq \<lparr>bitLen = 3, bits = [0xBF]\<rparr> = bit_seq \<lparr>bitLen = 3, bits = [0xA0]\<rparr>)"
  by (rule AsnBitsEquiv_same_bits) (simp_all add: bits_in_memory_def)

text \<open>\<open>SetAsnBit\<close>, \<open>ClrAsnBit\<close> and \<open>GetAsnBit\<close> update and read one bit of the sequence, in
  range; out of range nothing changes and 0 is read.\<close>

theorem AsnBit_access:
  assumes "bits_in_memory v"
  shows "\<exists>v1 v2 w. SetAsnBit v i = Inr v1 \<and> bit_seq v1 = (bit_seq v)[unat i := True] \<and> bits_in_memory v1 \<and>
    ClrAsnBit v i = Inr v2 \<and> bit_seq v2 = (bit_seq v)[unat i := False] \<and> bits_in_memory v2 \<and>
    GetAsnBit v i = Inr w \<and> (w \<noteq> 0 \<longleftrightarrow> unat i < bit_count v \<and> bit_seq v ! unat i)"
proof (cases "unat i < bit_count v")
  case True
  show ?thesis
    using SetAsnBit_seq [OF assms True] ClrAsnBit_seq [OF assms True] GetAsnBit_seq [OF assms True] True by blast
next
  case False
  then show ?thesis using bit_out_of_range [OF assms] assms by (simp add: list_update_beyond)
qed

lemma AsnBit_access_witness:
  "\<exists>v1 v2 w. SetAsnBit \<lparr>bitLen = 5, bits = [0]\<rparr> 4 = Inr v1 \<and>
      bit_seq v1 = (bit_seq \<lparr>bitLen = 5, bits = [0]\<rparr>)[unat (4 :: ulong) := True] \<and> bits_in_memory v1 \<and>
    ClrAsnBit \<lparr>bitLen = 5, bits = [0]\<rparr> 4 = Inr v2 \<and>
      bit_seq v2 = (bit_seq \<lparr>bitLen = 5, bits = [0]\<rparr>)[unat (4 :: ulong) := False] \<and> bits_in_memory v2 \<and>
    GetAsnBit \<lparr>bitLen = 5, bits = [0]\<rparr> 4 = Inr w \<and>
      (w \<noteq> 0 \<longleftrightarrow> unat (4 :: ulong) < bit_count \<lparr>bitLen = 5, bits = [0]\<rparr> \<and>
        bit_seq \<lparr>bitLen = 5, bits = [0]\<rparr> ! unat (4 :: ulong))"
  by (rule AsnBit_access) (simp add: bits_in_memory_def)

text \<open>A constructed BIT STRING that ends with unused bits leaves their number in \<open>unusedBitsG\<close>, which
  no routine resets: from then on every constructed BIT STRING is refused with -1.\<close>

theorem constructed_bits_only_once:
  assumes "0 < l0" and "l0 < 0x80" and "0 < l1" and "l1 < 0x80"
  shows "\<exists>v n b u. BDecAsnBits 2 sBufOpsG 0 (SBufInstallData [0x23, 0x04, 0x03, 0x02, 0x04, 0xF0], 0) = (Inr (v, n), (b, u)) \<and>
    fst (BDecAsnBits (Suc k) sBufOpsG 0 (SBufInstallData (0x23 # l0 # 0x03 # l1 # ys), u)) = Inl (LongJmp (-1))"
proof -
  have "BDecAsnBits 2 stream_ops 0 (stream_of [0x23, 0x04, 0x03, 0x02, 0x04, 0xF0], 0) =
      (Inr (\<lparr>bitLen = 4, bits = [0xF0]\<rparr>, 6), (stream_of [], 4))"
    using BDecAsnBits_unused_left [of 0] by (simp add: numeral_2_eq_2)
  then obtain b where b: "BDecAsnBits 2 sBufOpsG 0 (SBufInstallData [0x23, 0x04, 0x03, 0x02, 0x04, 0xF0], 0) =
      (Inr (\<lparr>bitLen = 4, bits = [0xF0]\<rparr>, 6), (b, 4))"
    by (rule bits_run [OF sb.BDecAsnBits_refines])
  have "fst (BDecAsnBits (Suc k) sBufOpsG 0 (SBufInstallData (0x23 # l0 # 0x03 # l1 # ys), 4)) = Inl (LongJmp (-1))"
    by (rule bits_stop [OF sb.BDecAsnBits_refines BDecAsnBits_blocked [OF assms]]) simp_all
  with b show ?thesis by blast
qed

lemma constructed_bits_only_once_witness:
  "\<exists>v n b u. BDecAsnBits 2 sBufOpsG 0 (SBufInstallData [0x23, 0x04, 0x03, 0x02, 0x04, 0xF0], 0) = (Inr (v, n), (b, u)) \<and>
    fst (BDecAsnBits (Suc 5) sBufOpsG 0 (SBufInstallData (0x23 # 0x04 # 0x03 # 0x02 # [0x00, 0xFF]), u)) = Inl (LongJmp (-1))"
  by (rule constructed_bits_only_once) simp_all

section \<open>Object identifiers\<close>

text \<open>C12: an object identifier that X.660 allows (the first arc at most 2, the second below 40 unless the first
  is 2) and whose arcs fit the field \<open>long arcNum\<close> (below \<open>2 ^ 63\<close>, the first two also as \<open>40 a + b\<close>) is encoded as
  X.690 says: \<open>EncodedOidLen\<close> is the number of octets, and
  \<open>BuildEncodedOid\<close> writes them into a block of that size. From fewer than \<open>2 ^ 31\<close> octets
  \<open>UnbuildEncodedOid\<close> gives the list back exactly when every arc and \<open>40 a + b\<close> are below \<open>2 ^ 31\<close>, because it collects them in an \<open>int\<close>;
  with two arcs the \<open>next\<close> of the second is never set.\<close>

theorem Oid_conversion:
  assumes "legal_oid a b as" and "length (oid_octets a b as) \<le> length blk"
  shows "\<exists>r. EncodedOidLen (oid_of (a # b # as)) = Inr (of_nat (length (oid_octets a b as))) \<and>
    BuildEncodedOid (oid_of (a # b # as)) \<lparr>octetLen = n, octs = blk\<rparr> = Inr r \<and>
    octetLen r = of_nat (length (oid_octets a b as)) \<and>
    octs r = oid_octets a b as @ drop (length (oid_octets a b as)) blk \<and>
    (length (oid_octets a b as) < 2 ^ 31 \<longrightarrow>
       (UnbuildEncodedOid r = Inr (if as = [] then OID_node a (OID_node b OID_WILD) else oid_of (a # b # as))
        \<longleftrightarrow> proper_oid a b as))"
proof -
  let ?r = "\<lparr>octetLen = of_nat (length (oid_octets a b as)), octs = mem_put blk 0 (oid_octets a b as)\<rparr>"
  have o: "octs ?r = oid_octets a b as @ drop (length (oid_octets a b as)) blk" by (simp add: mem_put_def)
  have "oct_count ?r = length (oid_octets a b as)" if "length (oid_octets a b as) < 2 ^ 31"
    using that by (simp add: oct_count_def to_int_small unat_of_nat_small)
  then have "length (oid_octets a b as) < 2 ^ 31 \<longrightarrow>
      (UnbuildEncodedOid ?r = Inr (if as = [] then OID_node a (OID_node b OID_WILD) else oid_of (a # b # as))
       \<longleftrightarrow> proper_oid a b as)"
    using UnbuildEncodedOid_octets [OF o] unbuilt_oid_iff [OF assms(1)] by (simp split: if_splits)
  with o show ?thesis
    using EncodedOidLen_octets [OF assms(1)] BuildEncodedOid_octets [OF assms(1), of "\<lparr>octetLen = n, octs = blk\<rparr>"] assms(2)
    by (intro exI [of _ ?r]) simp
qed

lemma Oid_conversion_witness:
  "(\<exists>r. EncodedOidLen (oid_of [1, 2, 840]) = Inr (of_nat (length (oid_octets 1 2 [840]))) \<and>
    BuildEncodedOid (oid_of [1, 2, 840]) \<lparr>octetLen = 0, octs = replicate 6 7\<rparr> = Inr r \<and>
    UnbuildEncodedOid r = Inr (oid_of [1, 2, 840])) \<and>
   (\<exists>r. BuildEncodedOid (oid_of [1, 2, 2147483648]) \<lparr>octetLen = 0, octs = replicate 6 7\<rparr> = Inr r \<and>
    octs r = [0x2A, 0x88, 0x80, 0x80, 0x80, 0] \<and> UnbuildEncodedOid r \<noteq> Inr (oid_of [1, 2, 2147483648]))"
proof -
  have p: "legal_oid 1 2 [840]" "legal_oid 1 2 [2147483648]" "proper_oid 1 2 [840]" "\<not> proper_oid 1 2 [2147483648]"
    by (simp_all add: legal_oid_def proper_oid_def small_arc_def)
  have l: "oid_octets 1 2 [840] = [0x2A, 0x86, 0x48]"
    "oid_octets 1 2 [2147483648] = [0x2A, 0x88, 0x80, 0x80, 0x80, 0]"
    by (simp_all add: oid_octets_def arc_octets_def arc_high.simps)
  show ?thesis
    using Oid_conversion [OF p(1), of "replicate 6 7" 0] Oid_conversion [OF p(2), of "replicate 6 7" 0] l p(3,4)
    by auto
qed

text \<open>A relative object identifier of two arcs or more is written as its arcs, and
  \<open>UnbuildEncodedRelativeOid\<close> gives the list back exactly when the first arc is below 128: for a longer
  one its octets after the first are read again as another arc. A list of one arc is not written.\<close>

theorem RelativeOid_conversion:
  assumes "list_all small_arc (a # b # as)" and "length (arcs_octets (a # b # as)) \<le> length blk"
    and "length (arcs_octets (a # b # as)) < 2 ^ 31"
  shows "\<exists>r. EncodedRelativeOidLen (oid_of (a # b # as)) = Inr (of_nat (length (arcs_octets (a # b # as)))) \<and>
    BuildEncodedRelativeOid (oid_of (a # b # as)) \<lparr>octetLen = n, octs = blk\<rparr> = Inr r \<and>
    octs r = arcs_octets (a # b # as) @ drop (length (arcs_octets (a # b # as))) blk \<and>
    (UnbuildEncodedRelativeOid r = Inr (oid_of (a # b # as)) \<longleftrightarrow> unat a < 128) \<and>
    BuildEncodedRelativeOid (oid_of [a]) \<lparr>octetLen = n, octs = blk\<rparr> = Inr \<lparr>octetLen = n, octs = blk\<rparr>"
proof -
  let ?x = "arcs_octets (a # b # as)"
  let ?r = "\<lparr>octetLen = of_nat (length ?x), octs = mem_put blk 0 ?x\<rparr>"
  have o: "octs ?r = ?x @ drop (length ?x) blk" by (simp add: mem_put_def)
  have "oct_count ?r = length ?x"
    using assms(3) by (simp only: oct_count_def AsnOcts.select_convs) (simp add: to_int_small unat_of_nat_small del: of_nat_add)
  from UnbuildEncodedRelativeOid_octets [OF assms(1) o this]
  have "UnbuildEncodedRelativeOid ?r = Inr (oid_of (a # b # as)) \<longleftrightarrow> unat a < 128" .
  moreover have "BuildEncodedRelativeOid (oid_of (a # b # as)) \<lparr>octetLen = n, octs = blk\<rparr> = Inr ?r"
    using BuildEncodedRelativeOid_octets [OF assms(1), of "\<lparr>octetLen = n, octs = blk\<rparr>"] assms(2)
    by (simp only: AsnOcts.select_convs)
  ultimately show ?thesis
    using o EncodedRelativeOidLen_octets [of "a # b # as"] BuildEncodedRelativeOid_single [of a "\<lparr>octetLen = n, octs = blk\<rparr>"]
    by blast
qed

lemma RelativeOid_conversion_witness:
  "\<exists>r. EncodedRelativeOidLen (oid_of (200 # 3 # [])) = Inr (of_nat (length (arcs_octets (200 # 3 # [])))) \<and>
    BuildEncodedRelativeOid (oid_of (200 # 3 # [])) \<lparr>octetLen = 0, octs = replicate 3 0\<rparr> = Inr r \<and>
    octs r = arcs_octets (200 # 3 # []) @ drop (length (arcs_octets (200 # 3 # []))) (replicate 3 0) \<and>
    (UnbuildEncodedRelativeOid r = Inr (oid_of (200 # 3 # [])) \<longleftrightarrow> unat (200 :: ulong) < 128) \<and>
    BuildEncodedRelativeOid (oid_of [200]) \<lparr>octetLen = 0, octs = replicate 3 0\<rparr> = Inr \<lparr>octetLen = 0, octs = replicate 3 0\<rparr>"
  by (rule RelativeOid_conversion) (simp_all add: small_arc_def arc_octets_def arc_high.simps)

text \<open>Encoded OBJECT IDENTIFIER and RELATIVE-OID values are read back from the wire with the
  octets they were written with.\<close>

theorem Oid_round_trip:
  assumes "octs_in_memory v" and "unat (octetLen v) + 9 \<le> length mem"
  shows "write_read (BEncAsnOid sBufOpsG v) (BDecAsnOid sBufOpsG 0) mem =
      Inr (\<lparr>octetLen = octetLen v, octs = octs_val v\<rparr>, of_nat (length (tlv UNIV_CLASS PRIM 6 (octs_val v)))) \<and>
    write_read (BEncAsnRelativeOid sBufOpsG v) (BDecAsnRelativeOid sBufOpsG 0) mem =
      Inr (\<lparr>octetLen = octetLen v, octs = octs_val v\<rparr>, of_nat (length (tlv UNIV_CLASS PRIM 13 (octs_val v))))"
proof -
  have l: "length (octs_val v) = unat (octetLen v)" by (rule length_octs_val [OF assms(1)])
  have b: "length (octs_val v) < 2 ^ 31" using assms(1) by (simp add: l) (simp add: octs_in_memory_def)
  have r: "length (tlv UNIV_CLASS PRIM c (octs_val v)) \<le> length mem" for c
    using assms(2) l length_tlv [of UNIV_CLASS PRIM c "octs_val v"] by linarith
  note d = BDecAsnOid_tlv [OF b, of 0 "[]"]
  have v: "of_nat (length (octs_val v)) = octetLen v" by (simp add: l)
  show ?thesis
    using write_read_refines [OF sb.BEncAsnOid_emits [OF assms(1)] r sb.BDecAsnOid_refines d(1) [unfolded append_Nil2]]
      write_read_refines [OF sb.BEncAsnRelativeOid_emits [OF assms(1)] r sb.BDecAsnRelativeOid_refines d(2) [unfolded append_Nil2]]
    unfolding v by simp
qed

lemma Oid_round_trip_witness:
  "write_read (BEncAsnOid sBufOpsG \<lparr>octetLen = 2, octs = [0x2A, 3]\<rparr>) (BDecAsnOid sBufOpsG 0) (replicate 11 0) =
      Inr (\<lparr>octetLen = octetLen \<lparr>octetLen = 2, octs = [0x2A, 3]\<rparr>, octs = octs_val \<lparr>octetLen = 2, octs = [0x2A, 3]\<rparr>\<rparr>,
        of_nat (length (tlv UNIV_CLASS PRIM 6 (octs_val \<lparr>octetLen = 2, octs = [0x2A, 3]\<rparr>)))) \<and>
    write_read (BEncAsnRelativeOid sBufOpsG \<lparr>octetLen = 2, octs = [0x2A, 3]\<rparr>) (BDecAsnRelativeOid sBufOpsG 0) (replicate 11 0) =
      Inr (\<lparr>octetLen = octetLen \<lparr>octetLen = 2, octs = [0x2A, 3]\<rparr>, octs = octs_val \<lparr>octetLen = 2, octs = [0x2A, 3]\<rparr>\<rparr>,
        of_nat (length (tlv UNIV_CLASS PRIM 13 (octs_val \<lparr>octetLen = 2, octs = [0x2A, 3]\<rparr>))))"
  by (rule Oid_round_trip) (simp_all add: octs_in_memory_def)

text \<open>\<open>PrintAsnOid\<close> prints the arcs of an object identifier in decimal, in braces, as long as
  forty times the first arc plus the second is below \<open>40 * 65536\<close>.\<close>

theorem PrintAsnOid_text:
  assumes "proper_oid a b as" and "octs v = oid_octets a b as @ ys" and "oct_count v = length (oid_octets a b as)"
    and "40 * unat a + unat b < 40 * 65536"
  shows "PrintAsnOid v = Inr (''{'' @ dec_string (unat a) @ '' '' @ dec_string (unat b) @ arcs_text as @ ''}'')"
  using assms by (rule PrintAsnOid_octets)

lemma PrintAsnOid_text_witness:
  "PrintAsnOid \<lparr>octetLen = 2, octs = oid_octets 2 5 [4] @ [7]\<rparr> = Inr ''{2 5 4}''"
proof -
  have "arcs_text [4] = '' 4''" by (simp add: arcs_text_def dec_string.simps char_of_eq_iff)
  moreover have "PrintAsnOid \<lparr>octetLen = 2, octs = oid_octets 2 5 [4] @ [7]\<rparr> =
      Inr (''{'' @ dec_string (unat (2 :: ulong)) @ '' '' @ dec_string (unat (5 :: ulong)) @ arcs_text [4] @ ''}'')"
    by (rule PrintAsnOid_text)
      (simp_all add: proper_oid_def small_arc_def oct_count_def to_int_def oid_octets_def arc_octets_def)
  ultimately show ?thesis by (simp add: dec_string.simps char_of_eq_iff)
qed

section \<open>Character strings\<close>

text \<open>C13: a value of any of the eight string types, of octets the type accepts, is read back as it was
  written, with a terminating null.\<close>

theorem String_round_trip:
  assumes "octs_in_memory v" and "string_ok t (octs_val v)" and "unat (octetLen v) + 9 \<le> length mem"
    and "length mem < 2 ^ 31 - 1" and "length mem \<le> k"
  shows "write_read (string_enc t sBufOpsG v) (string_dec t k sBufOpsG 0) mem =
    Inr (\<lparr>octetLen = octetLen v, octs = octs_val v @ [0]\<rparr>,
      of_nat (length (tlv UNIV_CLASS PRIM (string_code t) (octs_val v))))"
proof -
  obtain bad where "string_enc t sBufOpsG = enc_checked bad (string_code t) sBufOpsG"
    and "\<forall>n. string_dec t n sBufOpsG = dec_checked bad (string_code t) (string_error t) n sBufOpsG"
    and "checked_string bad (string_ok t) (string_code t)"
    by (rule string_kinds [of t])
  then show ?thesis using checked_string.round_trip [where ok = "string_ok t", OF _ assms] by simp
qed

lemma String_round_trip_witness:
  "write_read (string_enc Printable_kind sBufOpsG \<lparr>octetLen = 2, octs = [0x41, 0x3F]\<rparr>) (string_dec Printable_kind 12 sBufOpsG 0)
      (replicate 11 0) =
    Inr (\<lparr>octetLen = octetLen \<lparr>octetLen = 2, octs = [0x41, 0x3F]\<rparr>, octs = octs_val \<lparr>octetLen = 2, octs = [0x41, 0x3F]\<rparr> @ [0]\<rparr>,
      of_nat (length (tlv UNIV_CLASS PRIM (string_code Printable_kind) (octs_val \<lparr>octetLen = 2, octs = [0x41, 0x3F]\<rparr>))))"
  by (rule String_round_trip) (simp_all add: octs_in_memory_def octs_val_def over_def printable_alphabet_def)

text \<open>C14: each decoder reads every BER encoding of a string under its tag that has fewer than
  \<open>2 ^ 31 - 1\<close> octets and lengths in any form \<open>BDecLen\<close> knows (short, long with one to eight octets,
  indefinite), constructed ones included, and stops with -40 exactly when the octets are not among
  those the type accepts.\<close>

theorem String_every_encoding:
  assumes "ber_lengths x" and "length (string_ber (string_code t) x) < 2 ^ 31 - 1" and "length (string_ber (string_code t) x) \<le> k"
  shows "fst (string_dec t k sBufOpsG bd (SBufInstallData (string_ber (string_code t) x @ ys))) =
    (if string_ok t (ostring_octets x)
     then Inr (\<lparr>octetLen = of_nat (length (ostring_octets x)), octs = ostring_octets x @ [0]\<rparr>,
       bd + of_nat (length (string_ber (string_code t) x)))
     else Inl (LongJmp (-40)))"
proof -
  obtain bad where "string_enc t sBufOpsG = enc_checked bad (string_code t) sBufOpsG"
    and "\<forall>n. string_dec t n sBufOpsG = dec_checked bad (string_code t) (string_error t) n sBufOpsG"
    and "checked_string bad (string_ok t) (string_code t)"
    by (rule string_kinds [of t])
  then show ?thesis using checked_string.sbuf_decoded [OF _ assms(2,3,1)] by simp
qed

lemma String_every_encoding_witness:
  "string_ber (string_code Numeric_kind) (OCons None [OPrim (LongForm 1) [0x31], OPrim ShortForm [0x32]]) =
     [0x32, 0x80, 0x04, 0x81, 0x01, 0x31, 0x04, 0x01, 0x32, 0, 0] \<and>
   fst (string_dec Numeric_kind 20 sBufOpsG 0 (SBufInstallData
     [0x32, 0x80, 0x04, 0x81, 0x01, 0x31, 0x04, 0x01, 0x32, 0, 0])) =
   Inr (\<lparr>octetLen = 2, octs = [0x31, 0x32, 0]\<rparr>, 11) \<and>
   fst (string_dec Numeric_kind 20 sBufOpsG 0 (SBufInstallData [0x12, 0x82, 0x00, 0x01, 0x41])) = Inl (LongJmp (-40))"
proof -
  let ?x = "OCons None [OPrim (LongForm 1) [0x31], OPrim ShortForm [0x32]]" and ?y = "OPrim (LongForm 2) [0x41]"
  have b: "string_ber (string_code Numeric_kind) ?x = [0x32, 0x80, 0x04, 0x81, 0x01, 0x31, 0x04, 0x01, 0x32, 0, 0]"
    "string_ber (string_code Numeric_kind) ?y = [0x12, 0x82, 0x00, 0x01, 0x41]"
    by (simp_all add: string_ber_def tag_octets_def tag_lead_def be_bytes_two)
  have w: "ber_lengths ?x" "ber_lengths ?y" by simp_all
  show ?thesis
    using String_every_encoding [OF w(1), of Numeric_kind 20 0 "[]"]
      String_every_encoding [OF w(2), of Numeric_kind 20 0 "[]"]
    unfolding b by (simp add: over_def numeric_alphabet_def)
qed

text \<open>An encoder that is given octets its type does not accept calls \<open>setWriteError\<close> through the
  table, with a handle where the buffer's function takes the buffer: the behaviour is undefined and no
  error flag is set. A decoder that meets another tag jumps with the code of its type.\<close>

theorem String_refused:
  assumes "octs_in_memory v" and "\<not> string_ok t (octs_val v)"
    and "fst (BDecTag sBufOpsG bd (SBufInstallData xs)) = Inr (tag, n)"
    and "tag \<noteq> MAKE_TAG_ID UNIV_CLASS PRIM (string_code t)" and "tag \<noteq> MAKE_TAG_ID UNIV_CLASS CONS (string_code t)"
  shows "fst (written_by (string_enc t sBufOpsG v) mem) = Inl Fault \<and>
    fst (string_dec t k sBufOpsG bd (SBufInstallData xs)) = Inl (LongJmp (string_error t))"
proof -
  obtain bad where "string_enc t sBufOpsG = enc_checked bad (string_code t) sBufOpsG"
    and "\<forall>n. string_dec t n sBufOpsG = dec_checked bad (string_code t) (string_error t) n sBufOpsG"
    and "checked_string bad (string_ok t) (string_code t)"
    by (rule string_kinds [of t])
  then show ?thesis
    using checked_string.refused [where ok = "string_ok t", OF _ assms(1,2)] dec_checked_other_tag [OF assms(3-5)]
    by (simp add: written_by_def split: prod.split)
qed

lemma String_refused_witness:
  "fst (written_by (string_enc BMP_kind sBufOpsG \<lparr>octetLen = 1, octs = [7]\<rparr>) [0, 0]) = Inl Fault \<and>
    fst (string_dec BMP_kind 5 sBufOpsG 0 (SBufInstallData [0x04, 0])) = Inl (LongJmp (string_error BMP_kind))"
proof -
  have "fst (BDecTag sBufOpsG 0 (SBufInstallData [0x04, 0])) = Inr (0x04000000, 1)"
    using sim_fst [OF sb.BDecTag_sim sbuf_install(1)] BDecTag_stream [of 0 "[0x04, 0]"]
    by (simp add: sbuf_install(2) tag_result_def)
  then show ?thesis
    by (intro String_refused [where tag = "0x04000000" and n = 1])
      (simp_all add: octs_in_memory_def octs_val_def MAKE_TAG_ID_def MAKE_TAG_ID_CODE_def MAKE_TAG_ID_CODE1_def)
qed

text \<open>C15: \<open>CvtWchar2UTF8\<close> turns a wide character string into octets that \<open>IsValidUTF8String\<close> accepts and
  \<open>CvtUTF8towchar\<close> turns back into it, when no character is above \<open>0x7FFFFFF\<close>; otherwise it returns -3.\<close>

theorem UTF8_conversion:
  assumes "0 \<notin> set ws" and "6 * length ws < 2 ^ 31 - 1"
  shows "if \<forall>w\<in>set ws. unat w \<le> 0x7FFFFFF
    then \<exists>xs n. CvtWchar2UTF8 (ws @ [0]) = Inr (0, xs @ replicate (Suc n) 0) \<and>
      CvtUTF8towchar (xs @ replicate (Suc n) 0) = Inr (0, ws @ [0]) \<and>
      IsValidUTF8String \<lparr>octetLen = of_nat (length xs), octs = xs @ replicate (Suc n) 0\<rparr> = Inr True
    else CvtWchar2UTF8 (ws @ [0]) = Inr (-3, [])"
proof (cases "\<forall>w\<in>set ws. unat w \<le> 0x7FFFFFF")
  case True
  let ?xs = "concat (map utf8_enc ws)" and ?n = "6 * length ws - length (concat (map utf8_enc ws))"
  have l: "length ?xs \<le> 6 * length ws" using True length_utf8_string [of ws] utf8_row_6 by simp
  have "CvtWchar2UTF8 (ws @ [0]) = Inr (0, ?xs @ replicate (Suc ?n) 0)"
    using CvtWchar2UTF8_result [OF assms(1), of "[]"] assms(2) True l by (simp add: Suc_diff_le)
  moreover have "CvtUTF8towchar (?xs @ replicate (Suc ?n) 0) = Inr (0, ws @ [0])"
    using CvtUTF8towchar_enc [OF assms(1) True, of "replicate ?n 0"] assms(2) by simp
  moreover have "octs_in_memory \<lparr>octetLen = of_nat (length ?xs), octs = ?xs @ replicate (Suc ?n) 0\<rparr>"
    "octs_val \<lparr>octetLen = of_nat (length ?xs), octs = ?xs @ replicate (Suc ?n) 0\<rparr> = ?xs"
    using l assms(2) unat_of_nat_small [of "length ?xs"] by (simp_all add: octs_in_memory_def octs_val_def)
  then have "IsValidUTF8String \<lparr>octetLen = of_nat (length ?xs), octs = ?xs @ replicate (Suc ?n) 0\<rparr> = Inr True"
    using IsValidUTF8String_form utf8_form_enc [OF True] by simp
  ultimately show ?thesis by (subst if_P [OF True]) (intro exI conjI)
next
  case False
  then have "CvtWchar2UTF8 (ws @ [0]) = Inr (-3, [])"
    using CvtWchar2UTF8_result [OF assms(1), of "[]"] assms(2) by (simp only: if_False) simp
  then show ?thesis by (subst if_not_P [OF False])
qed

lemma UTF8_conversion_witness:
  "if \<forall>w\<in>set [0x20AC, 0x10FFFF]. unat (w :: 32 word) \<le> 0x7FFFFFF
    then \<exists>xs n. CvtWchar2UTF8 ([0x20AC, 0x10FFFF] @ [0]) = Inr (0, xs @ replicate (Suc n) 0) \<and>
      CvtUTF8towchar (xs @ replicate (Suc n) 0) = Inr (0, [0x20AC, 0x10FFFF] @ [0]) \<and>
      IsValidUTF8String \<lparr>octetLen = of_nat (length xs), octs = xs @ replicate (Suc n) 0\<rparr> = Inr True
    else CvtWchar2UTF8 ([0x20AC, 0x10FFFF] @ [0]) = Inr (-3, [])"
  by (rule UTF8_conversion) simp_all

text \<open>C16: what \<open>CvtWchar2UTF8\<close> writes is the encoding of RFC 2279 exactly when no character lies in
  20000 to 1FFFFF (hexadecimal): those take five octets, as the fourth row of the table ends at 1FFFF.\<close>

theorem UTF8_standard:
  assumes "0 \<notin> set ws" and "6 * length ws < 2 ^ 32" and "\<forall>w\<in>set ws. unat w \<le> 0x7FFFFFF"
  shows "\<exists>xs n. CvtWchar2UTF8 (ws @ [0]) = Inr (0, xs @ replicate n 0) \<and> length xs + n = 6 * length ws + 1 \<and>
    (xs = concat (map (\<lambda>w. rfc_octets (unat w)) ws) \<longleftrightarrow> (\<forall>w\<in>set ws. unat w \<notin> {0x20000..0x1FFFFF}))"
proof -
  let ?xs = "concat (map utf8_enc ws)"
  have "length ?xs \<le> 6 * length ws" using assms(3) length_utf8_string [of ws] utf8_row_6 by simp
  then show ?thesis
    using CvtWchar2UTF8_result [OF assms(1,2), of "[]"] assms(3) rfc_strings [OF assms(3)]
    by (intro exI [of _ ?xs] exI [of _ "6 * length ws + 1 - length ?xs"]) (simp only: if_True, simp)
qed

lemma UTF8_standard_witness:
  "\<exists>xs n. CvtWchar2UTF8 ([0x41, 0x2F800] @ [0]) = Inr (0, xs @ replicate n 0) \<and> length xs + n = 6 * length [0x41, 0x2F800 :: 32 word] + 1 \<and>
    (xs = concat (map (\<lambda>w. rfc_octets (unat w)) [0x41, 0x2F800 :: 32 word]) \<longleftrightarrow>
      (\<forall>w\<in>set [0x41, 0x2F800 :: 32 word]. unat w \<notin> {0x20000..0x1FFFFF}))"
  by (rule UTF8_standard) simp_all

text \<open>The conversion of a BMPString gives its characters exactly when every octet is below 80
  (hexadecimal), and so does that of a UniversalString whose characters are below 1000000: the octets
  are signed and extend their sign over the rest of the character.\<close>

theorem Wide_characters:
  assumes "octs_in_memory v" and "even (length (octs_val v))"
    and "octs_in_memory u" and "4 dvd length (octs_val u)"
    and "list_all (\<lambda>bs. bs ! 0 = 0) (chunks 4 (length (octs_val u) div 4) (octs_val u))"
  shows "(CvtBMPString2wchar v = Inr (0, wide_chars 2 (octs_val v) @ [0]) \<longleftrightarrow> over {..<0x80} (octs_val v)) \<and>
    (CvtUniversalString2wchar u = Inr (0, wide_chars 4 (octs_val u) @ [0]) \<longleftrightarrow> over {..<0x80} (octs_val u))"
  using CvtBMPString2wchar_exact [OF assms(1,2)] CvtUniversalString2wchar_exact [OF assms(3-5)] by blast

lemma Wide_characters_witness:
  "(CvtBMPString2wchar \<lparr>octetLen = 2, octs = [0x20, 0xAC]\<rparr> = Inr (0, wide_chars 2 (octs_val \<lparr>octetLen = 2, octs = [0x20, 0xAC]\<rparr>) @ [0]) \<longleftrightarrow>
      over {..<0x80} (octs_val \<lparr>octetLen = 2, octs = [0x20, 0xAC]\<rparr>)) \<and>
    (CvtUniversalString2wchar \<lparr>octetLen = 4, octs = [0, 0, 0x20, 0x41]\<rparr> =
        Inr (0, wide_chars 4 (octs_val \<lparr>octetLen = 4, octs = [0, 0, 0x20, 0x41]\<rparr>) @ [0]) \<longleftrightarrow>
      over {..<0x80} (octs_val \<lparr>octetLen = 4, octs = [0, 0, 0x20, 0x41]\<rparr>))"
proof -
  have "chunks 4 (length (octs_val \<lparr>octetLen = 4, octs = [0, 0, 0x20, 0x41]\<rparr>) div 4)
      (octs_val \<lparr>octetLen = 4, octs = [0, 0, 0x20, 0x41]\<rparr>) = [[0, 0, 0x20, 0x41]]"
    by (simp add: octs_val_def chunks.simps(2) [of _ 0, simplified One_nat_def [symmetric]])
  then show ?thesis by (intro Wide_characters) (simp_all add: octs_in_memory_def octs_val_def dvd_eq_mod_eq_0)
qed

section \<open>Hash tables\<close>

text \<open>\<open>MakeHash\<close> is the polynomial in 65587 over the signed octets, modulo \<open>2 ^ 32\<close>, for every
  string below \<open>2 ^ 31\<close> octets: the jump into the unrolled loop enters it at the right octet.\<close>

theorem MakeHash_polynomial:
  assumes "unat len \<le> length str" and "unat len < 2 ^ 31"
  shows "MakeHash str len = Inr (\<Sum>i<unat len. scast (str ! i) * 65587 ^ (unat len - 1 - i))"
  using MakeHash_fold [OF assms] hash_fold_polynomial [of 0 "take (unat len) str"] assms(1) by simp

lemma MakeHash_polynomial_witness:
  "MakeHash [0x2A, 0x86, 0x48, 0x86, 0xF7, 0x0D, 1, 7, 2, 0xFF] 9 =
    Inr (\<Sum>i<unat (9 :: ulong). scast ([0x2A, 0x86, 0x48, 0x86, 0xF7, 0x0D, 1, 7, 2, 0xFF :: byte] ! i) *
      65587 ^ (unat (9 :: ulong) - 1 - i))"
  by (rule MakeHash_polynomial) simp_all

text \<open>C17: whatever is entered into a new table, in any order and however the hash values collide, the
  table answers every query as the map of the entries does in which the first entry of a hash value
  counts; no insertion fails and no query follows a null pointer.\<close>

theorem Insert_refines_map:
  "\<exists>t. Insert_all es InitHash = Inr t \<and> (\<forall>h. CheckForAndReturnValue t h = Inr (map_of es h))"
proof -
  obtain t where t: "Insert_all es InitHash = Inr t" "wf_table t" "table_map t = map_of es"
    using Insert_all_map [OF table_map_InitHash(1), of es] by (auto simp: table_map_InitHash(2))
  then show ?thesis using lookup_map [OF t(2)] by auto
qed

section \<open>Nibble memory\<close>

text \<open>C18: the nibble allocator gives a client separate, cleared arrays. Whatever a client asks for, writes
  into the objects it holds and gives back, in any order, no operation fails, and what it reads at
  last is what it would have in arrays of their own: objects never overlap, neither each other nor
  the end of a buffer, and new ones are clear, after a reset too.\<close>

theorem Nibble_memory_refines_arrays:
  "fst (thenP (InitNibbleMem n inc) (bindP (nib_run ops []) nib_read_all) nmG) = Inr (fold arrays_step ops [])"
proof -
  obtain nm where nm: "InitNibbleMem n inc nmG = (Inr (), Some nm)" "nib_inv (Some nm) [] []"
    using InitNibbleMem_inv by blast
  obtain g ps where "nib_run ops [] (Some nm) = (Inr ps, g)" "nib_inv g ps (fold arrays_step ops [])"
    using nib_run_inv [OF nm(2)] by blast
  then show ?thesis using nm(1) by (simp add: bindP_run nib_read_all_inv)
qed

text \<open>Once the memory is set up, \<open>NibbleAlloc\<close> refuses exactly the requests above one megabyte, and
  what it hands out is aligned to a \<open>long\<close> within its buffer unless nothing was asked for. Before that,
  every other request follows a null pointer.\<close>

theorem NibbleAlloc_limits:
  "(\<exists>r. fst (thenP (InitNibbleMem n inc) (bindP (nib_run ops []) (\<lambda>ps. NibbleAlloc sz)) nmG) = Inr r \<and>
     (case r of None \<Rightarrow> unat sz > 2 ^ 20 | Some p \<Rightarrow> unat sz \<le> 2 ^ 20 \<and> (sz = 0 \<or> 8 dvd snd p))) \<and>
   fst (NibbleAlloc sz None) = (if unat sz > 2 ^ 20 then Inr None else Inl Fault)"
proof -
  obtain nm where nm: "InitNibbleMem n inc nmG = (Inr (), Some nm)" "nib_inv (Some nm) [] []"
    using InitNibbleMem_inv by blast
  obtain g ps where run: "nib_run ops [] (Some nm) = (Inr ps, g)" "nib_inv g ps (fold arrays_step ops [])"
    using nib_run_inv [OF nm(2)] by blast
  then obtain nm' where g: "g = Some nm'" by (cases g) (simp_all add: nib_inv_def)
  show ?thesis
  proof (cases "unat sz \<le> 2 ^ 20")
    case True
    then have small: "\<not> sz > 1024 * 1024" by (simp add: word_less_nat_alt)
    obtain p nm'' where "NibbleAlloc sz (Some nm') = (Inr (Some p), Some nm'')" "0 < unat sz \<longrightarrow> 8 dvd snd p"
      using NibbleAlloc_step [OF run(2) [unfolded g] True] by metis
    then show ?thesis using nm(1) run(1) g True small by (auto simp: bindP_run NibbleAlloc_def unat_gt_0)
  next
    case False
    then have "sz > 1024 * 1024" by (simp add: word_less_nat_alt)
    then show ?thesis using nm(1) run(1) False by (simp add: bindP_run NibbleAlloc_def returnP_run)
  qed
qed

section \<open>Linked lists\<close>

text \<open>C19: a list is a sequence with a cursor. Whatever operations its user performs on a new list, in any order
  (fewer than \<open>2 ^ 31\<close> of them), the code returns the elements, counts and positions that the sequences
  return, and never follows a wild pointer; searches see the elements before the first NULL.\<close>

theorem List_refines_cursor:
  assumes "length ops < 2 ^ 31"
  shows "\<exists>l m'. list_run ops (AsnListNew n) m = (Inr (l, cursor_run ops ([], [])), m')"
  using list_run_holds [OF AsnListNew_holds, of ops n m] assms by auto

lemma List_refines_cursor_witness:
  "\<exists>l m'. list_run [LAppend 3, LAppend 4, LFirst, LInsert 9, LNext, LRemove, LElmt 1, LIndex 4, LPrev, LNext, LNext] (AsnListNew 8)
      \<lparr>nodes = Map.empty, fresh = 5\<rparr> =
    (Inr (l, cursor_run [LAppend 3, LAppend 4, LFirst, LInsert 9, LNext, LRemove, LElmt 1, LIndex 4, LPrev, LNext, LNext] ([], [])), m')"
  by (rule List_refines_cursor) simp

text \<open>C20: whatever sorts arrays for \<open>AsnListSort\<close>, a list without NULL elements gives a new list that
  is a sorted permutation of it, and stays as it was, except that its cursor has moved.\<close>

theorem AsnListSort_sorts:
  assumes "list_rep m l xs ys" and "length (xs @ ys) < 2 ^ 31" and "length (xs @ ys) \<le> fuel"
    and "0 \<notin> set (map snd (xs @ ys))"
    and "\<And>es. mset (qsort es) = mset es" and "\<And>es. sorted_wrt le (qsort es)"
  shows "\<exists>ret l' m' us vs. AsnListSort qsort fuel (Some l) m = (Inr (Some (ret, l')), m') \<and>
    list_rep m' ret us vs \<and> sorted_wrt le (map snd (us @ vs)) \<and> mset (map snd (us @ vs)) = mset (map snd (xs @ ys)) \<and>
    (\<exists>c. l' = l\<lparr>lst_curr := c\<rparr>) \<and> list_rep m' l xs ys"
  using AsnListSort_rep [OF assms(1-4), of qsort] assms(5,6) by metis

lemma AsnListSort_sorts_witness:
  "\<exists>ret l' m' us vs. AsnListSort sort 2 (Some \<lparr>lst_first = Some 7, lst_last = Some 4, lst_curr = Some 4, lst_count = 2, lst_dataSize = 8\<rparr>)
      \<lparr>nodes = [7 \<mapsto> \<lparr>node_prev = None, node_next = Some 4, node_data = 60\<rparr>, 4 \<mapsto> \<lparr>node_prev = Some 7, node_next = None, node_data = 50\<rparr>], fresh = 9\<rparr> =
      (Inr (Some (ret, l')), m') \<and>
    list_rep m' ret us vs \<and> sorted_wrt (\<le>) (map snd (us @ vs)) \<and> mset (map snd (us @ vs)) = mset (map snd ([(7 :: nat, 60)] @ [(4, 50)])) \<and>
    (\<exists>c. l' = \<lparr>lst_first = Some 7, lst_last = Some 4, lst_curr = Some 4, lst_count = 2, lst_dataSize = 8\<rparr>\<lparr>lst_curr := c\<rparr>) \<and>
    list_rep m' \<lparr>lst_first = Some 7, lst_last = Some 4, lst_curr = Some 4, lst_count = 2, lst_dataSize = 8\<rparr> [(7, 60)] [(4, 50)]"
  by (rule AsnListSort_sorts) (simp_all add: list_rep_def)

text \<open>Two lists that share no node are joined into one that owns all their nodes: freeing it frees each
  node of both once, and nothing else.\<close>

theorem AsnListConcat_then_free:
  assumes "list_rep m l1 xs ys" and "list_rep m l2 zs ws" and "fst ` set (xs @ ys) \<inter> fst ` set (zs @ ws) = {}"
    and "length (xs @ ys) < 2 ^ 32" and "length (zs @ ws) < 2 ^ 32" and "length (xs @ ys @ zs @ ws) \<le> fuel"
  shows "thenP (bindP (AsnListConcat l1 l2) (AsnListFree fuel)) (returnP ()) m =
    (Inr (), m\<lparr>nodes := \<lambda>a. if a \<in> fst ` set (xs @ ys @ zs @ ws) then None else nodes m a\<rparr>)"
  by (rule AsnListConcat_Free [OF assms])

lemma AsnListConcat_then_free_witness:
  "thenP (bindP (AsnListConcat \<lparr>lst_first = Some 7, lst_last = Some 7, lst_curr = None, lst_count = 1, lst_dataSize = 8\<rparr>
        \<lparr>lst_first = Some 4, lst_last = Some 4, lst_curr = Some 4, lst_count = 1, lst_dataSize = 8\<rparr>) (AsnListFree 2)) (returnP ())
      \<lparr>nodes = [7 \<mapsto> \<lparr>node_prev = None, node_next = None, node_data = 60\<rparr>, 4 \<mapsto> \<lparr>node_prev = None, node_next = None, node_data = 50\<rparr>], fresh = 9\<rparr> =
    (Inr (), \<lparr>nodes = [7 \<mapsto> \<lparr>node_prev = None, node_next = None, node_data = 60\<rparr>, 4 \<mapsto> \<lparr>node_prev = None, node_next = None, node_data = 50\<rparr>], fresh = 9\<rparr>
      \<lparr>nodes := \<lambda>a. if a \<in> fst ` set ([(7, 60 :: elmt)] @ [] @ [] @ [(4, 50)]) then None
        else nodes \<lparr>nodes = [7 \<mapsto> \<lparr>node_prev = None, node_next = None, node_data = 60\<rparr>, 4 \<mapsto> \<lparr>node_prev = None, node_next = None, node_data = 50\<rparr>], fresh = 9\<rparr> a\<rparr>)"
  by (rule AsnListConcat_then_free) (simp_all add: list_rep_def)

section \<open>Expandable buffers\<close>

text \<open>C21: whatever is written to an expandable buffer, in single octets and in segments, comes out in order
  when it is read octet by octet from its first block, whatever the size of the blocks and however many
  of them the writing took, as long as \<open>malloc\<close> provides them (all of them but one octet are filled);
  behind the data the octets are 0 and the read error is set, and only then.\<close>

theorem ExpBuf_write_read:
  assumes "list_all (\<lambda>p. length (put_octets p) < 2 ^ 31) ps" and "xs = concat (map put_octets (rev ps))"
    and "length xs < (free + 1) * n"
  shows "exp_write_read (put_all ps) (get_bytes ExpBufGetByte ExpBufReadError k) free n =
    Inr (take k xs @ replicate (k - length xs) 0, length xs < k)"
  using exp_write_read_sim [OF put_all_emits [OF assms(1)] _ get_bytes_sim get_bytes_stream] assms(2,3) by simp

lemma ExpBuf_write_read_witness:
  "exp_write_read (put_all [PutByte 1, PutSeg [2, 3, 4, 5, 6], PutSeg [], PutByte 7]) (get_bytes ExpBufGetByte ExpBufReadError 9) 3 2 =
    Inr (take 9 [7, 2, 3, 4, 5, 6, 1] @ replicate (9 - length [7, 2, 3, 4, 5, 6, 1 :: byte]) 0, length [7, 2, 3, 4, 5, 6, 1 :: byte] < 9)"
  by (rule ExpBuf_write_read) simp_all

text \<open>After \<open>ExpBufResetInReadMode\<close> alone the handle is at the last block, which was written first, and
  only that block is read: of more data than one block holds, everything but the last \<open>n\<close> octets is lost.\<close>

theorem ExpBuf_reset_at_last_block:
  assumes "list_all (\<lambda>p. length (put_octets p) < 2 ^ 31) ps" and "xs = concat (map put_octets (rev ps))"
    and "length xs < (free + 1) * n"
  shows "exp_write_reset_read (put_all ps) (get_bytes ExpBufGetByte ExpBufReadError k) free n =
    Inr (take k (drop (length xs - n) xs) @ replicate (k - min n (length xs)) 0, min n (length xs) < k)"
proof -
  have "length (drop (length xs - n) xs) = min n (length xs)" by simp
  then show ?thesis
    using exp_write_reset_read_sim [OF put_all_emits [OF assms(1)] _ get_bytes_sim get_bytes_stream] assms(2,3)
    by (metis (no_types, lifting))
qed

lemma ExpBuf_reset_at_last_block_witness:
  "exp_write_reset_read (put_all [PutByte 1, PutSeg [2, 3, 4, 5, 6]]) (get_bytes ExpBufGetByte ExpBufReadError 3) 3 2 =
    Inr (take 3 (drop (length [2, 3, 4, 5, 6, 1 :: byte] - 2) [2, 3, 4, 5, 6, 1]) @
      replicate (3 - min 2 (length [2, 3, 4, 5, 6, 1 :: byte])) 0, min 2 (length [2, 3, 4, 5, 6, 1 :: byte]) < 3)"
  by (rule ExpBuf_reset_at_last_block) simp_all

text \<open>BOOLEAN, NULL, INTEGER and ENUMERATED survive encoding and decoding on an expandable buffer with
  blocks of any size, single octets included, if its blocks hold 14 octets.\<close>

theorem Primitive_types_expandable:
  assumes "14 \<le> (free + 1) * n"
  shows "exp_write_read (BEncAsnBool expBufOpsG x) (BDecAsnBool expBufOpsG 0) free n = Inr (if x \<noteq> 0 then 1 else 0, 3) \<and>
    exp_write_read (BEncAsnNull expBufOpsG) (BDecAsnNull expBufOpsG 0) free n = Inr ((), 2) \<and>
    exp_write_read (BEncAsnInt expBufOpsG d) (BDecAsnInt expBufOpsG 0) free n =
      Inr (d, of_nat (length (tlv UNIV_CLASS PRIM 2 (int_octets (sint d))))) \<and>
    (\<exists>m. exp_write_read (BEncAsnEnum expBufOpsG e) (BDecAsnEnum expBufOpsG 0) free n = Inr (e, m))"
proof (intro conjI)
  have room: "length (tlv UNIV_CLASS PRIM cd (int_octets i)) < (free + 1) * n" for cd i
    using assms length_tlv [of UNIV_CLASS PRIM cd "int_octets i"] length_int_octets(2) [of i] by linarith
  let ?b = "tlv UNIV_CLASS PRIM 1 [if x \<noteq> 0 then 0xFF else 0]"
  have "length ?b = 3" by (simp add: tlv_def tag_octets_def len_octets_def)
  then show "exp_write_read (BEncAsnBool expBufOpsG x) (BDecAsnBool expBufOpsG 0) free n = Inr (if x \<noteq> 0 then 1 else 0, 3)"
    using exp_write_read_sim [OF ebw.BEncAsnBool_emits _ ebr.BDecAsnBool_sim] assms
      BDecAsnBool_tlv [of 0 "if x \<noteq> 0 then 0xFF else 0" "[]"] by fastforce
  have "length (tlv UNIV_CLASS PRIM 5 []) = 2" by (simp add: tlv_def tag_octets_def len_octets_def)
  then show "exp_write_read (BEncAsnNull expBufOpsG) (BDecAsnNull expBufOpsG 0) free n = Inr ((), 2)"
    using exp_write_read_sim [OF ebw.BEncAsnNull_emits _ ebr.BDecAsnNull_sim] assms BDecAsnNull_tlv [of 0 "[]"] by fastforce
  show "exp_write_read (BEncAsnInt expBufOpsG d) (BDecAsnInt expBufOpsG 0) free n =
      Inr (d, of_nat (length (tlv UNIV_CLASS PRIM 2 (int_octets (sint d)))))"
    using exp_write_read_sim [OF ebw.BEncAsnInt_emits room ebr.BDecAsnInt_sim] BDecAsnInt_tlv [of 0 d "[]"] by fastforce
  show "\<exists>m. exp_write_read (BEncAsnEnum expBufOpsG e) (BDecAsnEnum expBufOpsG 0) free n = Inr (e, m)"
    using exp_write_read_sim [OF ebw.BEncAsnEnum_emits room ebr.BDecAsnEnum_sim] BDecAsnEnum_tlv [of 0 e "[]"] by fastforce
qed

lemma Primitive_types_expandable_witness:
  "exp_write_read (BEncAsnBool expBufOpsG 7) (BDecAsnBool expBufOpsG 0) 13 1 = Inr (if (7 :: byte) \<noteq> 0 then 1 else 0, 3) \<and>
    exp_write_read (BEncAsnNull expBufOpsG) (BDecAsnNull expBufOpsG 0) 13 1 = Inr ((), 2) \<and>
    exp_write_read (BEncAsnInt expBufOpsG (-129)) (BDecAsnInt expBufOpsG 0) 13 1 =
      Inr (-129, of_nat (length (tlv UNIV_CLASS PRIM 2 (int_octets (sint (-129 :: AsnInt)))))) \<and>
    (\<exists>m. exp_write_read (BEncAsnEnum expBufOpsG 3) (BDecAsnEnum expBufOpsG 0) 13 1 = Inr (3, m))"
  by (rule Primitive_types_expandable) simp


section \<open>Open types\<close>

text \<open>C22: after a program has installed its types by object identifier, \<open>SetAnyTypeByOid\<close> gives the first one
  whose identifier has the same 32-bit hash value as the given one, be it that identifier or another; what
  matches none becomes an unknown type, and with nothing installed at all a null pointer is followed.\<close>

theorem SetAnyTypeByOid_dispatch:
  assumes "list_all any_entry as" and "any_key_ok v"
  shows "\<exists>tables. install_all as \<lparr>anyOidHashTblG = None, anyIntHashTblG = None\<rparr> = Inr tables \<and>
    SetAnyTypeByOid b copyAny tables v =
      (if as = [] then Inl Fault
       else Inr (case find (\<lambda>a. any_key (any_oid a) = any_key v) as of
                   None \<Rightarrow> unknown_info b copyAny v | Some a \<Rightarrow> a))"
  using SetAnyTypeByOid_installed [OF assms] by metis

definition oid_a :: AsnOcts where
  "oid_a = \<lparr>octetLen = 8, octs = [0x2A, 0x86, 0x48, 0x01, 0x00, 0x21, 0x00, 0x66]\<rparr>"

definition oid_b :: AsnOcts where
  "oid_b = \<lparr>octetLen = 8, octs = [0x2A, 0x86, 0x48, 0x00, 0x66, 0x00, 0x6A, 0x00]\<rparr>"

definition info_a :: "(SBuf, AsnInt) AnyInfo" where
  "info_a = \<lparr>anyId = 1, any_oid = oid_a, any_intId = 0, any_size = 4,
     any_Encode = Some (\<lambda>v. case v of Typed d \<Rightarrow> BEncAsnInt sBufOpsG d | Blob _ \<Rightarrow> stopP Fault),
     any_Decode = Some (\<lambda>n. bindP (BDecAsnInt sBufOpsG n) (\<lambda>(d, n). returnP (Typed d, n)))\<rparr>"

lemma oid_a_b_key: "any_key oid_a = any_key oid_b"
  unfolding any_key_def oid_a_def oid_b_def by code_simp

text \<open>The identifiers 1.2.840.1.0.33.0.102 and 1.2.840.0.102.0.106.0 have the same hash value: a value of the second
  type is given the routines of the first.\<close>

lemma SetAnyTypeByOid_dispatch_witness:
  "oid_a \<noteq> oid_b \<and> (\<exists>tables. install_all [info_a] \<lparr>anyOidHashTblG = None, anyIntHashTblG = None\<rparr> = Inr tables \<and>
    SetAnyTypeByOid sBufOpsG sbuf_copyAny tables oid_b = Inr info_a)"
proof
  show "oid_a \<noteq> oid_b" by (simp add: oid_a_def oid_b_def)
  have "any_key_ok oid_a" "any_key_ok oid_b" by (simp_all add: any_key_ok_def oid_a_def oid_b_def)
  then have "list_all any_entry [info_a]" "any_key_ok oid_b" by (simp_all add: any_entry_def info_a_def)
  from SetAnyTypeByOid_dispatch [OF this, of sBufOpsG sbuf_copyAny] oid_a_b_key
  show "\<exists>tables. install_all [info_a] \<lparr>anyOidHashTblG = None, anyIntHashTblG = None\<rparr> = Inr tables \<and>
    SetAnyTypeByOid sBufOpsG sbuf_copyAny tables oid_b = Inr info_a"
    by (simp add: info_a_def)
qed

section \<open>Reals\<close>

text \<open>C23: a finite REAL is read back as it was written, but for three things: a zero loses its sign; a number whose
  exponent, after the mantissa has been made an integer of full octets, is below -1074 comes back as zero, though
  it is a normal one (\<open>pow\<close> underflows); and a number with the value of the globals for the infinities is written as one of them.\<close>

theorem Real_round_trip:
  assumes "representable x" and "\<not> fl_eq (Fin s x) (PLUS_INFINITY infs)" and "\<not> fl_eq (Fin s x) (MINUS_INFINITY infs)"
    and "12 \<le> length mem"
  shows "\<exists>n. write_read (BEncAsnReal infs sBufOpsG (Fin s x)) (BDecAsnReal infs fuel sBufOpsG 0) mem =
    Inr (if x = 0 then Fin False 0 else Fin s (if real_exp x < - 1074 then 0 else x), n)"
proof (cases "x = 0")
  case True
  have "emits sbuf_writing sbuf_written sb_writeError sb_dataStart (BEncAsnReal infs sBufOpsG (Fin s 0))
      (of_nat (length (tlv UNIV_CLASS PRIM 9 []))) (tlv UNIV_CLASS PRIM 9 [])"
    unfolding BEncAsnReal_def BEncAsnRealContent_zero code_val.simps
    by (rule sb.emits_tlv) (simp_all add: emits_return)
  moreover have "length (tlv UNIV_CLASS PRIM 9 []) \<le> length mem" using assms(4) length_tlv [of UNIV_CLASS PRIM 9 "[]"] by simp
  ultimately have "write_read (BEncAsnReal infs sBufOpsG (Fin s 0)) (BDecAsnReal infs fuel sBufOpsG 0) mem =
      Inr (Fin False 0, 0 + of_nat (length (tlv UNIV_CLASS PRIM 9 [])))"
    by (rule write_read_sim [OF _ _ sb.BDecAsnReal_sim]) (use BDecAsnReal_zero [of infs fuel 0 "[]"] in simp)
  then show ?thesis using True by auto
next
  case False
  then have pos: "0 < x" using representable_nonneg [OF assms(1)] by simp
  have "length (tlv UNIV_CLASS PRIM 9 (real_contents s x)) \<le> length mem"
    using assms(4) length_real_contents [OF assms(1) pos, of s] length_tlv_short [of "real_contents s x" 9 UNIV_CLASS PRIM] by simp
  from write_read_sim [OF sb.BEncAsnReal_emits [OF assms(1) pos assms(2,3)] this sb.BDecAsnReal_sim]
    BDecAsnReal_tlv [OF assms(1) pos, of infs fuel 0 s "[]"]
  show ?thesis using False by (auto simp: real_read_def)
qed

lemma Real_round_trip_witness:
  "\<exists>n. write_read (BEncAsnReal \<lparr>PLUS_INFINITY = Infinite False, MINUS_INFINITY = Infinite True\<rparr> sBufOpsG (Fin True 3))
      (BDecAsnReal \<lparr>PLUS_INFINITY = Infinite False, MINUS_INFINITY = Infinite True\<rparr> 0 sBufOpsG 0) (replicate 12 0) =
    Inr (if (3 :: rat) = 0 then Fin False 0 else Fin True (if real_exp 3 < - 1074 then 0 else 3), n)"
proof (rule Real_round_trip)
  show "representable 3" using representable_nat [of 3] by simp
qed (simp_all add: fl_eq_def)

text \<open>C24: the rest of an exponent in long form is read for ever: no number of steps is enough, on any octets.\<close>

theorem Real_long_exponent_diverges:
  assumes "fo AND 0x83 = 0x83" and "2 \<le> unat fe" and "len \<noteq> 0" and "len \<noteq> 1" and "len \<noteq> INDEFINITE_LEN"
  shows "fst (BDecAsnRealContent infs fuel sBufOpsG t len bd (SBufInstallData (fo # fe # xs))) = Inl NoFuel"
  using sim_fst [OF sb.BDecAsnRealContent_sim sbuf_install(1)] BDecAsnRealContent_diverges [OF assms] by (simp add: sbuf_install(2))

lemma Real_long_exponent_diverges_witness:
  "fst (BDecAsnRealContent InitAsnInfinity 1000 sBufOpsG 0x09000000 5 0 (SBufInstallData [0x83, 2, 1, 0, 1])) = Inl NoFuel"
  by (rule Real_long_exponent_diverges) (simp_all add: INDEFINITE_LEN_def)

text \<open>On a little-endian machine \<open>InitAsnInfinity\<close> makes the infinities two tiny numbers; those are
  then written as infinities, and a real infinity reaches undefined behaviour.\<close>

theorem Real_infinities:
  "PLUS_INFINITY InitAsnInfinity = Fin False (61567 * 2 powi - 1074) \<and>
    BEncAsnRealContent InitAsnInfinity b (Fin False (61567 * 2 powi - 1074)) = thenP (putByteRvs b 0x40) (returnP 1) \<and>
    BEncAsnRealContent InitAsnInfinity b (Infinite s) = stopP Fault"
proof (intro conjI)
  note p = PLUS_INFINITY_value
  have m: "MINUS_INFINITY InitAsnInfinity = Fin True (61567 * 2 powi - 1074)"
    using p by (simp only: InitAsnInfinity_def Let_def infinities.simps) (simp only: fl_neg_def dbl.case simp_thms)
  have "0 < (61567 :: rat) * 2 powi - 1074" by (intro mult_pos_pos zero_less_power_int) simp_all
  then obtain x :: rat where x: "61567 * 2 powi - 1074 = x" and pos: "0 < x" by blast
  show "PLUS_INFINITY InitAsnInfinity = Fin False (61567 * 2 powi - 1074)" by (rule p)
  show "BEncAsnRealContent InitAsnInfinity b (Fin False (61567 * 2 powi - 1074)) = thenP (putByteRvs b 0x40) (returnP 1)"
    using p m pos unfolding x by (simp add: BEncAsnRealContent_def fl_eq_def signed_mag_def)
  show "BEncAsnRealContent InitAsnInfinity b (Infinite s) = stopP Fault"
    by (rule BEncAsnRealContent_Infinite) (unfold p m, simp_all add: fl_eq_def)
qed

section \<open>Type tables\<close>

text \<open>\<open>PeekTag\<close> sees the tag that \<open>BDecTag\<close> would read, and does not move. Where \<open>BDecTag\<close> meets the end of
  the data and reports an error, \<open>PeekTag\<close> has no check: it looks at an octet that has never been set.\<close>

theorem PeekTag_sees_BDecTag:
  "case fst (BDecTag sBufOpsG bd (SBufInstallData xs)) of
     Inr (t, n) \<Rightarrow> \<exists>b. PeekTag sBufOpsG (SBufInstallData xs) = (Inr t, b) \<and> sbuf_unread b = stream_of xs
   | Inl e \<Rightarrow> fst (PeekTag sBufOpsG (SBufInstallData xs)) = Inl Fault"
proof -
  have d: "fst (BDecTag sBufOpsG bd (SBufInstallData xs)) = tag_result bd xs"
    using sim_fst [OF sb.BDecTag_sim sbuf_install(1), of bd xs] by (simp add: sbuf_install(2) BDecTag_stream)
  have p: "fst (PeekTag sBufOpsG (SBufInstallData xs)) = fst (PeekTag stream_ops (stream_of xs))"
    using sim_fst [OF sb.PeekTag_sim sbuf_install(1), of xs] by (simp add: sbuf_install(2))
  show ?thesis
  proof (cases "tag_result bd xs")
    case (Inl e)
    with PeekTag_result [where bd = bd and xs = xs] d p show ?thesis by simp
  next
    case (Inr r)
    with PeekTag_result [where bd = bd and xs = xs] have s: "PeekTag stream_ops (sbuf_unread (SBufInstallData xs)) = (Inr (fst r), stream_of xs)"
      by (cases r) (simp add: sbuf_install(2))
    obtain c where "PeekTag sBufOpsG (SBufInstallData xs) = (Inr (fst r), c)" "sbuf_unread c = stream_of xs"
      by (rule sim_run [OF sb.PeekTag_sim sbuf_install(1) s])
    with Inr d show ?thesis by (cases r) simp
  qed
qed

text \<open>C25: \<open>TblDecode\<close> reads back what \<open>TblEncode\<close> writes for a value of a type of the table, whatever the type: the
  encoder returns success and the number of octets, the decoder the value, the same number, and leaves what follows
  unread and its stack as it was. This needs enough fuel only. The relation \<open>tbl_ber\<close>, which says which octets
  encode which value, requires of the octets that follow (\<open>ys\<close>) what the decoder looks ahead for.\<close>

theorem Tbl_round_trip:
  assumes "TblFindTypeDef tbl modName nm = Some p" and "deref tbl (Some p) = Inr td"
    and "tbl_ber infs tbl d None (td_type td) False v xs ys" and "length xs \<le> length mem" and "length tls + d \<le> TL_STK_SIZE"
  shows "for_large (\<lambda>k.
    written_by (TblEncode k infs tbl modName nm sBufOpsG (Some v) n) mem = (Inr (0, of_nat (length xs)), xs) \<and>
    (\<exists>b. TblDecode k infs tbl modName nm sBufOpsG 0 ((SBufInstallData (xs @ ys), u), tls) =
        (Inr (Some (canon v), of_nat (length xs)), ((b, u), tls)) \<and> sbuf_unread b = stream_of ys))"
  by (intro eventually_conj TblEncode_written [OF assms(1-4)] TblDecode_reads [OF assms(1-3,5)])

lemma Tbl_round_trip_witness:
  "for_large (\<lambda>k.
    written_by (TblEncode k InitAsnInfinity (one_type order_type) None ''T'' sBufOpsG (Some order_val) 0) (replicate 20 0) =
      (Inr (0, of_nat (length order_octets)), order_octets) \<and>
    (\<exists>b. TblDecode k InitAsnInfinity (one_type order_type) None ''T'' sBufOpsG 0 ((SBufInstallData (order_octets @ [1]), 0), []) =
        (Inr (Some (canon order_val), of_nat (length order_octets)), ((b, 0), [])) \<and> sbuf_unread b = stream_of [1]))"
proof (rule Tbl_round_trip [where d = 3, OF one_type_find])
  show "tbl_ber InitAsnInfinity (one_type order_type) 3 None (td_type \<lparr>typeDefId = 0, typeName = ''T'', td_type = order_type\<rparr>) False
      order_val order_octets [1]"
    using order_ber [where d = 0] by (simp add: numeral_3_eq_3)
qed (simp_all add: order_octets_def TL_STK_SIZE_def)

text \<open>C26: The stack of tags and lengths, on every input and every table: a decoding that returns a value has taken off
  just what it has put on; any other one has at most put entries on top; and the array is never overrun.\<close>

theorem Tbl_stack_discipline:
  "case tbl_decode_octets k infs tbl nm xs (u, tls) of (r, u', tls') \<Rightarrow>
     \<exists>new. tls' = new @ tls \<and> (case r of Inr (Some v, n) \<Rightarrow> new = [] | _ \<Rightarrow> True) \<and>
       length tls' \<le> max TL_STK_SIZE (length tls)"
proof -
  obtain r s tls' where run: "TblDecode k infs tbl None nm sBufOpsG 0 ((SBufInstallData xs, u), tls) = (r, (s, tls'))"
    by (metis prod_cases3)
  from leaves_TblDecode [OF run] run show ?thesis
    by (cases s) (auto simp: tbl_decode_octets_def split: sum.split option.split)
qed

text \<open>What failures leave behind adds up, since nothing resets the stack: after \<open>j\<close> encodings of an INTEGER that
  is too long there are \<open>min j 128\<close> entries, and after 128 no octets at all are decoded any more, correct ones included.\<close>

theorem Tbl_stack_leak:
  assumes "TblFindTypeDef tbl None nm = Some p" and "deref tbl (Some p) = Inr td" and "typeId (td_type td) = TBL_INTEGER"
    and "tags_of (td_type td) = [tg]" and "tag_ok tg"
  shows "case ((\<lambda>s. snd (tbl_decode_octets (Suc k) infs tbl nm (tag_bytes tg @ [5]) s)) ^^ j) (u, []) of (u', tls) \<Rightarrow>
    length tls = min j TL_STK_SIZE \<and>
    (if TL_STK_SIZE \<le> j then fst (tbl_decode_octets (Suc k) infs tbl nm xs (u', tls)) = Inr (None, 0) else True)"
proof -
  have "\<not> no_tags (td_type td)" using assms(4) by (auto simp: no_tags_def tags_of_def split: option.splits)
  note full = full_stack_refuses [OF assms(1,2) this]
  from failures_add_up [OF assms, where k = k and infs = infs and j = j and u = u] show ?thesis by (auto intro!: full)
qed

lemma Tbl_stack_leak_witness:
  "case ((\<lambda>s. snd (tbl_decode_octets (Suc 9) InitAsnInfinity (one_type int_type) ''T'' (tag_bytes (u_tag PRIM 2) @ [5]) s)) ^^ 200)
      (0, []) of (u', tls) \<Rightarrow>
    length tls = min 200 TL_STK_SIZE \<and>
    (if TL_STK_SIZE \<le> 200 then fst (tbl_decode_octets (Suc 9) InitAsnInfinity (one_type int_type) ''T'' [2, 1, 5] (u', tls)) =
      Inr (None, 0) else True)"
  by (rule Tbl_stack_leak [OF one_type_find]) (simp_all add: u_tags int_type_def)

text \<open>C27: The mandatory elements of a SET are only counted. Of two mandatory elements, the first one may be there
  twice instead of the second: the decoder reports success, and the value has a null pointer in its place.\<close>

theorem SET_duplicate_accepted:
  assumes "TblFindTypeDef tbl None nm = Some p" and "deref tbl (Some p) = Inr \<lparr>typeDefId = ti, typeName = tn, td_type = t\<rparr>"
    and "typeId t = TBL_SET" and "elmts_of t = Inr [e, e']" and "\<not> optional e" and "\<not> optional e'"
    and "tbl_ber infs tbl d None e False v x (x' @ [])" and "x \<noteq> []" and "next_tag (x @ x' @ []) = Some a" and "starts tbl e a True"
    and "tbl_ber infs tbl d None e False v' x' []" and "x' \<noteq> []" and "next_tag (x' @ []) = Some a'" and "starts tbl e a' True"
    and "open_tags t False \<noteq> []" and "hdr_ok (open_tags t False) (x @ x')" and "length tls + (length (open_tags t False) + d) \<le> TL_STK_SIZE"
  shows "for_large (\<lambda>k. tbl_decode_octets k infs tbl nm (hdr (open_tags t False) (x @ x') @ x @ x') (u, tls) =
    (Inr (Some (AStructVal [Some (canon v'), None]), of_nat (length (hdr (open_tags t False) (x @ x') @ x @ x'))), u, tls))"
proof (rule eventually_mono [OF SET_duplicate [OF assms(3-16)]])
  fix k
  let ?xs = "hdr (open_tags t False) (x @ x') @ x @ x'"
  assume k: "reads_type infs tbl k (length (open_tags t False) + d) None t False (AStructVal [Some v', None]) ?xs []"
  from element_reads [OF k assms(17), of 0 u] assms(1,2)
  have "TblDecode k infs tbl None nm stream_ops 0 ((stream_of ?xs, u), tls) =
      (Inr (Some (AStructVal [Some (canon v'), None]), of_nat (length ?xs)), ((stream_of [], u), tls))"
    by (simp add: TblDecode_def prog_simps setjmp_def)
  then show "tbl_decode_octets k infs tbl nm ?xs (u, tls) =
      (Inr (Some (AStructVal [Some (canon v'), None]), of_nat (length ?xs)), u, tls)"
    by (rule tbl_decode_octets_stream) simp
qed

lemma SET_duplicate_accepted_witness:
  "for_large (\<lambda>k. tbl_decode_octets k InitAsnInfinity (one_type pair_type) ''T''
      (hdr (open_tags pair_type False) ([2, 1, 5] @ [2, 1, 7]) @ [2, 1, 5] @ [2, 1, 7]) (0, []) =
    (Inr (Some (AStructVal [Some (canon (AInt 7)), None]),
      of_nat (length (hdr (open_tags pair_type False) ([2, 1, 5] @ [2, 1, 7]) @ [2, 1, 5] @ [2, 1, 7]))), 0, []))"
  by (rule SET_duplicate_accepted [where d = "Suc 0" and a = "0x02000000" and a' = "0x02000000", OF one_type_find pair_sel(1-4)
        int_ber [OF int_octets_5(1)] _ _ int_starts int_ber [OF int_octets_5(3)] _ _ int_starts])
    (use pair_sel(5,6) in \<open>simp_all add: next_tag_short TL_STK_SIZE_def\<close>)

text \<open>A SEQUENCE is not ended by its length: with an optional element at its end that is absent, the decoder looks
  at the octets that follow. If those encode something of this element's type, the (correct) encoding is refused.\<close>

theorem SEQUENCE_reads_past_end:
  assumes "TblFindTypeDef tbl None nm = Some p" and "deref tbl (Some p) = Inr \<lparr>typeDefId = ti, typeName = tn, td_type = t\<rparr>"
    and "typeId t = TBL_SEQUENCE" and "elmts_of t = Inr [e]" and "optional e"
    and "tbl_ber infs tbl d None e False v x ys" and "next_tag (x @ ys) = Some a" and "starts tbl e a True" and "x \<noteq> []" and "length x < 2 ^ 32"
    and "tags_of t \<noteq> []" and "hdr_ok (tags_of t) []" and "length tls + length (tags_of t) + d \<le> TL_STK_SIZE"
  shows "for_large (\<lambda>k. fst (tbl_decode_octets k infs tbl nm (hdr (tags_of t) [] @ x @ ys) (u, tls)) = Inr (None, 0))"
proof (rule eventually_mono [OF SEQUENCE_reads_on [OF assms(3-13), of 0 u]])
  fix k
  let ?xs = "hdr (tags_of t) [] @ x @ ys"
  assume k: "fst (TblDecodeType k infs tbl stream_ops t False 0 ((stream_of ?xs, u), tls)) = Inl (LongJmp (- 1003))"
  obtain s u' tls' where "TblDecodeType k infs tbl stream_ops t False 0 ((stream_of ?xs, u), tls) =
      (Inl (LongJmp (- 1003)), ((s, u'), tls'))" using k by (metis prod.collapse)
  then have "TblDecode k infs tbl None nm stream_ops 0 ((stream_of ?xs, u), tls) = (Inr (None, 0), ((s, u'), tls'))"
    using assms(1,2) by (simp add: TblDecode_def prog_simps setjmp_def)
  from tbl_decode_octets_stream [OF this] show "fst (tbl_decode_octets k infs tbl nm ?xs (u, tls)) = Inr (None, 0)" by simp
qed

lemma SEQUENCE_reads_past_end_witness:
  "for_large (\<lambda>k. fst (tbl_decode_octets k InitAsnInfinity (one_type tail_type) ''T''
      (hdr (tags_of tail_type) [] @ [2, 1, 5] @ []) (0, [])) = Inr (None, 0))"
  by (rule SEQUENCE_reads_past_end [where d = "Suc 0" and a = "0x02000000", OF one_type_find tail_sel(1-3)
        simple_int_ber [OF int_octets_5(1)] _ simple_int_starts])
    (use tail_sel(4,5) in \<open>simp_all add: next_tag_short TL_STK_SIZE_def\<close>)



text \<open>A tagged type that is a reference to itself, which the compiler refuses but a table file may hold, is followed for
  ever: no amount of fuel is enough.\<close>

theorem TblFixTags_diverges:
  "TblFixTags fuel \<lparr>modules = [\<lparr>mod_name = mn, typeDefs = [\<lparr>typeDefId = ti, typeName = tn,
      td_type = TBLType TBL_TYPEREF opt (Some tgs) (TypeRef d i (Some (0, 0)))\<rparr>]\<rparr>]\<rparr> = Inl NoFuel"
  by (rule TblFixTags_circle, simp only: TBL.select_convs, simp only: TBLModule.select_convs, simp only: TBLTypeDef.select_convs)

text \<open>The forms of a type's own tags: all but the last are constructed, the last as the kind of the type says, either
  form being accepted for the string types.\<close>

theorem TblSetTagForms_own:
  assumes "typeId t \<noteq> TBL_TYPEREF" and "tagList t = Some tgs" and "tgs \<noteq> []"
  shows "\<exists>t'. TblSetTagForms fuel tbl t = Inr t' \<and>
    tags_of t' = map (prepared CONS CONS) (butlast tgs) @ [prepared_for (typeId t) (last tgs)]"
  by (rule set_tag_forms_own [OF assms])

lemma TblSetTagForms_own_witness:
  "\<exists>t'. TblSetTagForms 0 (one_type order_type) order_type = Inr t' \<and>
    tags_of t' = map (prepared CONS CONS) (butlast [u_tag CONS 16]) @ [prepared_for (typeId order_type) (last [u_tag CONS 16])]"
  by (rule TblSetTagForms_own) (simp_all add: order_type_def)

text \<open>For an IMPLICIT reference they are wrong when there are two tags or more in all: two own tags make the last
  one constructed even over an INTEGER, and a single one is primitive however many tags the type referred to has.\<close>

theorem TblSetTagForms_implicit_ref:
  assumes "typeId t = TBL_TYPEREF" and "content t = TypeRef d True p" and "deref tbl p = Inr td"
    and "typeId (td_type td) \<noteq> TBL_TYPEREF" and "tagList t = Some tgs" and "tgs \<noteq> []" and "0 < fuel"
  shows "\<exists>t'. TblSetTagForms fuel tbl t = Inr t' \<and>
    tags_of t' = (if length tgs = 1 then [prepared_for (typeId (td_type td)) (hd tgs)] else map (prepared CONS CONS) tgs)"
  by (rule set_tag_forms_implicit_ref [OF assms])

lemma TblSetTagForms_implicit_ref_witness:
  "\<exists>t'. TblSetTagForms 1 (one_type int_type) (TBLType TBL_TYPEREF False (Some [u_tag PRIM 1, u_tag PRIM 2]) (TypeRef 0 True (Some (0, 0)))) = Inr t' \<and>
    tags_of t' = (if length [u_tag PRIM 1, u_tag PRIM 2] = 1 then [prepared_for (typeId int_type) (hd [u_tag PRIM 1, u_tag PRIM 2])]
      else map (prepared CONS CONS) [u_tag PRIM 1, u_tag PRIM 2])"
  using TblSetTagForms_implicit_ref [where td = "\<lparr>typeDefId = 0, typeName = ''T'', td_type = int_type\<rparr>", of
      "TBLType TBL_TYPEREF False (Some [u_tag PRIM 1, u_tag PRIM 2]) (TypeRef 0 True (Some (0, 0)))" 0 "Some (0, 0)" "one_type int_type"
      "[u_tag PRIM 1, u_tag PRIM 2]" 1]
  by (simp add: one_type_find int_type_def simple_type_def)

section \<open>The compiler's passes over types\<close>

text \<open>C29: The search for recursive types ends on every store of definitions, mutually recursive ones included, and marks
  of the definitions of a module exactly those from which references lead back to themselves.\<close>

theorem MarkRecursiveTypes_marks_circles:
  assumes "all_linked tds" and "list_all (\<lambda>p. p < length tds) ps"
  shows "\<exists>ws tds'. MarkRecursiveTypes tds ps = Inr (tds', ws) \<and> length tds' = length tds \<and>
    (\<forall>p<length tds. tds' ! p =
      (if p \<in> set ps \<and> (p, p) \<in> (ref_step tds)\<^sup>+ then (tds ! p)\<lparr>recursive := True\<rparr> else tds ! p))"
  using MarkRecursiveTypes_exact [OF assms] by (auto simp: mark_all_def)

lemma MarkRecursiveTypes_marks_circles_witness:
  "\<exists>ws tds'. MarkRecursiveTypes circular_types [0, 1, 2] = Inr (tds', ws) \<and> length tds' = length circular_types \<and>
    (\<forall>p<length circular_types. tds' ! p =
      (if p \<in> set [0, 1, 2] \<and> (p, p) \<in> (ref_step circular_types)\<^sup>+ then (circular_types ! p)\<lparr>recursive := True\<rparr>
       else circular_types ! p))"
  by (rule MarkRecursiveTypes_marks_circles [OF example_linked(1)]) (simp add: circular_types_def)

text \<open>Sorting the definitions of a module loses none and makes no copies, however they refer to each other.\<close>

theorem SortTypeDependencies_keeps_all:
  assumes "distinct ps"
  shows "mset (fst (SortTypeDependencies tds ps)) = mset ps"
  by (rule SortTypeDependencies_permutes [OF assms])

lemma SortTypeDependencies_keeps_all_witness: "mset (fst (SortTypeDependencies circular_types [0, 1, 2])) = mset [0, 1, 2]"
  by (rule SortTypeDependencies_keeps_all) simp

text \<open>C30: The two passes together: once the recursive definitions of a module have been marked, sorting it never ends in the
  internal compiler error, if it has no object classes.\<close>

theorem marked_types_sort:
  assumes "MarkRecursiveTypes tds ps = Inr (tds', ws)" and "all_linked tds" and "list_all (\<lambda>p. p < length tds) ps"
    and "distinct ps" and "list_all (\<lambda>d. no_classes (type d)) tds"
  shows "\<not> snd (SortTypeDependencies tds' ps)"
  by (rule marked_module_sorts [OF assms])

lemma marked_types_sort_witness: "\<not> snd (SortTypeDependencies (mark_all circular_types {0, 2}) [0, 1, 2])"
  by (rule marked_types_sort [OF circular_types_marked example_linked(1)]) (simp_all add: example_types)

text \<open>With an object class it may: the search for recursive types does not look into classes, the sorting does.\<close>

theorem circle_through_class:
  "\<exists>ws. MarkRecursiveTypes class_types [0, 1] = Inr (class_types, ws) \<and> SortTypeDependencies class_types [0, 1] = ([0, 1], True)"
  using class_types_marked class_types_sorted by blast

text \<open>C31: In a module of different definitions without object classes, all of whose links lead to definitions, none of whose definitions has been marked recursive and in which
  \<open>localRefCount\<close> is not zero for any definition that is referred to, the sorted module has each definition after those it
  refers to. (With classes it need not: \<open>circle_through_class\<close>.)\<close>

theorem sorted_types_in_order:
  assumes "MarkRecursiveTypes tds ps = Inr (tds', ws)" and "list_all (\<lambda>p. \<not> recursive (tds' ! p)) ps"
    and "all_linked tds" and "list_all (\<lambda>p. p < length tds) ps" and "distinct ps" and "list_all (\<lambda>d. no_classes (type d)) tds"
    and "list_all (\<lambda>d. list_all (\<lambda>q. localRefCount (tds ! q) \<noteq> 0) (elmts_up_to_null (BuildLocalRefList (type d)))) tds"
    and "fst (SortTypeDependencies tds' ps) = xs @ p # ys" and "Some q \<in> set (BuildLocalRefList (type (tds ! p)))"
    and "q \<in> set ps"
  shows "q \<in> set xs"
  using assms by (rule marked_module_in_order)

lemma sorted_types_in_order_witness:
  "fst (SortTypeDependencies straight_types [0, 1, 2]) = [1, 2] @ 0 # [] \<and> 2 \<in> set ([1, 2] :: nat list)"
proof
  show sorted: "fst (SortTypeDependencies straight_types [0, 1, 2]) = [1, 2] @ 0 # []"
    unfolding straight_types_sorted by simp
  show "2 \<in> set ([1, 2] :: nat list)"
    by (rule sorted_types_in_order [OF straight_types_marked _ example_linked(2) _ _ _ _ sorted])
      (simp_all add: example_types elmts_up_to_null_def BuildLocalRefList.simps)
qed

section \<open>Tags and names in the compiler\<close>

text \<open>C32: \<open>GetTags\<close> returns the tags a type is encoded with, those of the types it refers to included, an implicit reference
  replacing the first of them; all but the last are constructed, the last as its type says. \<open>CountTags\<close> counts them. The
  tags must not be empty, which leaves out untagged CHOICE types: for those \<open>CountTags\<close> is 0.\<close>

theorem GetTags_and_CountTags:
  assumes "tagged tds n t ts b" and "n < fuel" and "ts \<noteq> []" and "libTypesG (basicType b) = Some (cd, fm)"
  shows "GetTags fuel libTypesG tds t = Inr (with_forms fm ts, False) \<and> CountTags fuel tds t = Inr (length ts)"
proof -
  obtain k where "fuel = Suc (n + k)" using assms(2) less_imp_Suc_add by blast
  with GetTags_effective [OF assms(1,3), of libTypesG, OF assms(4)] CountTags_effective [OF assms(1)] show ?thesis by simp
qed

lemma GetTags_and_CountTags_witness:
  "GetTags 2 libBERTypesG tagged_types (implicit_ref 0) = Inr (with_forms PRIM [cntx_tag 7], False) \<and>
   CountTags 2 tagged_types (implicit_ref 0) = Inr (length [cntx_tag 7])"
  by (rule GetTags_and_CountTags [where libTypesG = libBERTypesG, OF implicit_ref_tagged _ _ implicit_ref_lib]) simp_all

text \<open>C33: What an encoding of a type may begin with: the first tag of the list, or all of its tags if the type is an untagged
  CHOICE, whose alternatives may be such again. These are the tags by which a decoder chooses.\<close>

theorem GetTags_first_tags:
  assumes "sound_store tds" and "sound_type tds t" and "GetTags fuel libTypesG tds t = Inr (tags, stole)"
  shows "set (if stole then tags else take 1 tags) = {tg. first_tag libTypesG tds t tg}"
  by (rule GetTags_first [OF assms])

lemma GetTags_first_tags_witness:
  "set (if True then [cntx_tag 7, cntx_tag 8] else take 1 [cntx_tag 7, cntx_tag 8]) =
     {tg. first_tag libBERTypesG tagged_types nested_choice tg}"
  by (rule GetTags_first_tags [where fuel = 4, OF tagged_types_sound]) (simp_all add: nested_choice_sound nested_choice_tags)

text \<open>C34: A type that is not a reference, moved to a definition of its own by \<open>AddConsTypeDef\<close>, keeps its tags: one with
  tags of its own the same classes, forms and codes; one without any and without a universal tag, such as an untagged
  CHOICE, the tags of its alternatives, whatever \<open>GetTags\<close> returns for it. A type of another kind without tags (\<open>SetupType\<close>
  makes none) gets its universal tag, if it is not marked implicit.\<close>

theorem moved_type_keeps_tags:
  assumes "AddConsTypeDef fuel libTypesG tds ps td t suffix = Inr (tds', ps', t')" and "ref_link (basicType t) = None"
    and "libTypesG (basicType t) = Some (cd, fm)"
  shows "(own_tags t \<noteq> [] \<longrightarrow> (\<exists>tags tags'. GetTags (Suc k) libTypesG tds t = Inr (tags, False) \<and>
      GetTags (Suc (Suc k)) libTypesG tds' t' = Inr (tags', False) \<and> map tag_view tags' = map tag_view tags)) \<and>
    (own_tags t = [] \<and> cd = NO_TAG_CODE \<longrightarrow> (\<forall>r. GetTags (Suc k) libTypesG tds t = Inr r \<longrightarrow>
      GetTags (Suc (Suc k)) libTypesG tds' t' = Inr r)) \<and>
    (own_tags t = [] \<and> cd \<noteq> NO_TAG_CODE \<and> \<not> t_implicit t \<longrightarrow>
      (\<exists>tag. GetTags (Suc (Suc k)) libTypesG tds' t' = Inr ([tag], False) \<and> tag_view tag = (UNIV_CLASS, fm, code_val cd)))"
proof (intro conjI impI allI)
  assume tagged: "own_tags t \<noteq> []"
  from AddConsTypeDef_tags [OF assms(1,2) tagged] obtain ts b where b: "tagged tds' 1 t' ts b" "basicType b = basicType t"
    "map tag_name ts = map tag_name (own_tags t)" by blast
  from b(3) tagged have "ts \<noteq> []" by auto
  with GetTags_effective [OF b(1) this, of libTypesG cd fm k] b(2) assms(3) have
    "GetTags (Suc (Suc k)) libTypesG tds' t' = Inr (with_forms fm ts, False)" by simp
  moreover from GetTags_effective [where libTypesG = libTypesG and k = k, OF tagged_end [OF assms(2), of tds] tagged assms(3)] have
    "GetTags (Suc k) libTypesG tds t = Inr (with_forms fm (own_tags t), False)" by simp
  ultimately show "\<exists>tags tags'. GetTags (Suc k) libTypesG tds t = Inr (tags, False) \<and>
      GetTags (Suc (Suc k)) libTypesG tds' t' = Inr (tags', False) \<and> map tag_view tags' = map tag_view tags"
    using with_forms_view [OF b(3)] by blast
qed (use assms untagged_kept [OF assms(1)] untagged_universal [OF assms(1)] in auto)

lemma moved_type_keeps_tags_witness:
  "(\<exists>tags tags'. GetTags (Suc 0) libBERTypesG tagged_types explicit_seq = Inr (tags, False) \<and>
    GetTags (Suc (Suc 0)) libBERTypesG moved_types moved_ref = Inr (tags', False) \<and> map tag_view tags' = map tag_view tags) \<and>
   GetTags 5 libBERTypesG moved_choices choice_ref = Inr ([cntx_tag 7, cntx_tag 8], True)"
proof
  show "\<exists>tags tags'. GetTags (Suc 0) libBERTypesG tagged_types explicit_seq = Inr (tags, False) \<and>
    GetTags (Suc (Suc 0)) libBERTypesG moved_types moved_ref = Inr (tags', False) \<and> map tag_view tags' = map tag_view tags"
    using moved_type_keeps_tags [OF explicit_seq_moved, where k = 0]
    by (simp add: explicit_seq_def ref_link_def own_tags_def)
  have "GetTags (Suc (Suc 3)) libBERTypesG moved_choices choice_ref = Inr ([cntx_tag 7, cntx_tag 8], True)"
    by (rule moved_type_keeps_tags [OF nested_choice_moved, where cd = NO_TAG_CODE and fm = CONS, THEN conjunct2,
          THEN conjunct1, rule_format])
      (use nested_choice_tags in \<open>simp_all add: nested_choice_def choice_of_def ref_link_def own_tags_def\<close>)
  then show "GetTags 5 libBERTypesG moved_choices choice_ref = Inr ([cntx_tag 7, cntx_tag 8], True)" by simp
qed

text \<open>C35: A name in the generated code is made different from all names used before and from the key words of C by at most as
  many digits as there is space for, as long as there are fewer than \<open>9 ^ m\<close> names. (Zeros are left out of the digits.)\<close>

theorem MakeCStrUnique_fresh:
  assumes "card (set nameList) < 9 ^ m" and "1 \<le> m" and "m \<le> 9" and "0 \<le> startingDigit" and "startingDigit \<le> 1"
  shows "\<not> ObjIsDefined nameList (Some (MakeCStrUnique nameList str (int m) startingDigit)) StrObjCmp \<and>
    \<not> IsCKeyWord (MakeCStrUnique nameList str (int m) startingDigit) \<and>
    (\<exists>suffix. MakeCStrUnique nameList str (int m) startingDigit = str @ suffix \<and> length suffix \<le> m)"
  using make_unique_fresh [OF assms, of IsCKeyWord str, OF keywords_no_digit(1)]
  by (simp add: MakeCStrUnique_def ObjIsDefined_str)

lemma MakeCStrUnique_fresh_witness:
  "\<not> ObjIsDefined [Some ''int1''] (Some (MakeCStrUnique [Some ''int1''] ''int'' (int 4) 1)) StrObjCmp \<and>
    \<not> IsCKeyWord (MakeCStrUnique [Some ''int1''] ''int'' (int 4) 1) \<and>
    (\<exists>suffix. MakeCStrUnique [Some ''int1''] ''int'' (int 4) 1 = ''int'' @ suffix \<and> length suffix \<le> 4)"
  by (rule MakeCStrUnique_fresh) simp_all

text \<open>The names of the definitions of a module stay different when a type is moved, with up to 728 of them.\<close>

theorem moved_type_new_name:
  assumes "length ps < 9 ^ 3" and "1000 \<le> fuel" and "list_all (\<lambda>p. p < length tds) ps"
    and "distinct (map (\<lambda>p. definedName (tds ! p)) ps)" and "libTypesG (basicType t) \<noteq> None"
  shows "\<exists>tds' ps' t'. AddConsTypeDef fuel libTypesG tds ps td t suffix = Inr (tds', ps', t') \<and>
    ps' = length tds # ps \<and> list_all (\<lambda>p. p < length tds') ps' \<and> take (length tds) tds' = tds \<and>
    distinct (map (\<lambda>p. definedName (tds' ! p)) ps')"
  using assms by (rule AddConsTypeDef_names)

text \<open>The tags of the elements of a SET are compared wrongly where one of them is a character string: it goes after all
  other types, and two of different types are equal. For DER the elements have to be in the order of their tags.\<close>

theorem CmpTags_of_strings:
  "CmpTags (Suc k) libDERTypesG tds (string_type 22 BASICTYPE_IA5_STR) (string_type 12 BASICTYPE_UTF8_STR) = Inr 0 \<and>
   CmpTags (Suc k) libDERTypesG tds (string_type 22 BASICTYPE_IA5_STR)
     (Type False False (Some [cntx_tag 0]) False None None (BASICTYPE BASICTYPE_INTEGER)) = Inr 1"
  using CmpTags_strings CmpTags_string_last by (simp add: cntx_tag_def)

text \<open>C36: The check that the elements of a SET or the alternatives of a CHOICE have different tags ends, unless an untagged CHOICE
  is inside itself, and is exact: it passes just when no two of them may begin with the same tag, whatever its form, and none
  contains an untagged CHOICE where this happens.\<close>

theorem HasDistinctTags_decides:
  assumes "sound_store tds" and "references_end tds" and "list_all (sound_type tds) es" and "list_all (choices_end tds) es"
  shows "\<exists>k. \<forall>fuel\<ge>k. HasDistinctTags fuel tds es = Inr (apart tds es \<and> list_all (\<lambda>e. \<not> ambiguous tds e) es)"
  by (rule HasDistinctTags_total [OF assms])

lemma HasDistinctTags_decides_witness:
  "\<exists>k. \<forall>fuel\<ge>k. HasDistinctTags fuel tagged_types two_alternatives =
    Inr (apart tagged_types two_alternatives \<and> list_all (\<lambda>e. \<not> ambiguous tagged_types e) two_alternatives)"
  by (rule HasDistinctTags_decides [OF tagged_types_sound tagged_types_end two_alternatives_sound two_alternatives_end])

text \<open>Of elements that pass the check, no two have a tag in common among those by which a decoder chooses: the tags \<open>GetTags\<close>
  returns for one and for the other are different in class or code.\<close>

theorem checked_elements_told_apart:
  assumes "sound_store tds" and "references_end tds" and "list_all (sound_type tds) es" and "HasDistinctTags fuel tds es = Inr True"
    and "j < length es" and "i < j"
    and "GetTags ki libTypesG tds (es ! i) = Inr (ti, si)" and "GetTags kj libTypesG tds (es ! j) = Inr (tj, sj)"
  shows "tag_name ` set (if si then ti else take 1 ti) \<inter> tag_name ` set (if sj then tj else take 1 tj) = {}"
proof -
  have "sorted_wrt (\<lambda>e e'. first_names tds e \<inter> first_names tds e' = {}) es"
    using HasDistinctTags_exact [OF assms(1-4)] by (simp add: apart_def)
  then have "first_names tds (es ! i) \<inter> first_names tds (es ! j) = {}" by (rule sorted_wrt_nth_less [OF _ assms(6,5)])
  moreover have "sound_type tds (es ! i)" "sound_type tds (es ! j)" using assms(3,5,6) by (simp_all add: list_all_length)
  from GetTags_first [OF assms(1) this(1) assms(7)] GetTags_first [OF assms(1) this(2) assms(8)] have
    "tag_name ` set (if si then ti else take 1 ti) \<subseteq> first_names tds (es ! i)"
    "tag_name ` set (if sj then tj else take 1 tj) \<subseteq> first_names tds (es ! j)"
    by (auto simp: first_names_def intro: first_tag_name)
  ultimately show ?thesis by blast
qed

lemma checked_elements_told_apart_witness:
  "tag_name ` set (if False then [cntx_tag 7] else take 1 [cntx_tag 7]) \<inter> tag_name ` set (if True then [cntx_tag 8] else take 1 [cntx_tag 8]) = {}"
  by (rule checked_elements_told_apart [OF tagged_types_sound tagged_types_end two_alternatives_sound two_alternatives_checked
        _ _ two_alternatives_tags]) (simp_all add: two_alternatives_def)

text \<open>C37: In a SEQUENCE that passes its check, an element that may be absent begins differently from all elements up to the next
  one that may not, that one included.\<close>

theorem checked_sequence_told_apart:
  assumes "sound_store tds" and "references_end tds" and "basicType t = BASICTYPE_SEQUENCE es" and "list_all (sound_type tds) es"
    and "ChkSeqTags fuel tds t = Inr False" and "j < length es" and "i < j" and "list_all may_be_absent (drop i (take j es))"
  shows "first_names tds (es ! i) \<inter> first_names tds (es ! j) = {}"
proof (rule ChkSeqTags_sound [OF assms(1-7)])
  fix m assume m: "i \<le> m" "m < j"
  with assms(6) have "drop i (take j es) ! (m - i) = es ! m" "m - i < length (drop i (take j es))" by auto
  with assms(8) show "may_be_absent (es ! m)" by (metis list_all_length)
qed

lemma checked_sequence_told_apart_witness:
  "first_names tagged_types (optional_ints ! 0) \<inter> first_names tagged_types (optional_ints ! 1) = {}"
  by (rule checked_sequence_told_apart [OF tagged_types_sound tagged_types_end _ optional_ints_sound optional_seq_checked])
    (simp_all add: optional_seq_def optional_ints_def)

section \<open>Type tables made by the compiler\<close>

text \<open>C38: The type tables the compiler makes of its modules represent them: when the library has read and prepared one, it has
  all definitions without weird types, under their names and numbers, their types have the same structure, tags and optional
  elements, and every reference points to the definition it stood for. The preparation ends.\<close>

theorem GenTypeTbls_prepared:
  assumes "sound_store tds" and "references_end tds" and "sound_modules tds mods"
  shows "\<exists>tbl0 tmpRefCount. GenTypeTbls tds mods f = Inr (Some tbl0, tmpRefCount) \<and>
    (\<exists>k. \<forall>fuel\<ge>k. \<exists>tbl. prepare_tbl fuel tbl0 = Inr tbl \<and> represents tmpRefCount tds made mods tbl)"
  by (rule GenTypeTbls_represents [OF assms])

lemma GenTypeTbls_prepared_witness:
  "\<exists>tbl0 tmpRefCount. GenTypeTbls table_types table_modules (\<lambda>_. 0) = Inr (Some tbl0, tmpRefCount) \<and>
    (\<exists>k. \<forall>fuel\<ge>k. \<exists>tbl. prepare_tbl fuel tbl0 = Inr tbl \<and> represents tmpRefCount table_types made table_modules tbl)"
  by (rule GenTypeTbls_prepared [OF table_types_sound table_types_end table_modules_sound])

text \<open>C39: Values of a type are encoded through the table with the tags the compiler gives the type: the octets begin with
  headers of just the tags \<open>GetTags\<close> returns, for which its back ends generate code, in class, code and order.\<close>

theorem table_encodes_GetTags:
  assumes "represents tmpRefCount tds made mods tbl" and "sound_store tds" and "sound_modules tds mods"
    and "i \<in> set (in_table tds (all_defs mods))" and "deref tbl (TblFindTypeDefByIndex tbl (tmpRefCount i)) = Inr TD"
    and "GetTags k libTypesG tds (type (tds ! i)) = Inr (tags, False)" and "tbl_ber infs tbl d None (td_type TD) False v xs ys"
  shows "\<exists>TGs c. list_all2 same_tag tags TGs \<and> xs = hdr TGs c @ c"
  by (rule encoded_with_GetTags [OF assms])

lemma table_encodes_GetTags_witness: "\<exists>TGs c. list_all2 same_tag [cntx_tag 3] TGs \<and> [0x83, 1, 5] = hdr TGs c @ c"
proof (rule table_encodes_GetTags [OF table_represents table_types_sound table_modules_sound _ number_found number_tags])
  show "tbl_ber InitAsnInfinity prepared_table (Suc 0) None (td_type \<lparr>typeDefId = 0, typeName = ''Number'',
      td_type = TBLType TBL_INTEGER False (Some [gen_tag PRIM 3 (MAKE_TAG_ID CNTX PRIM 3)]) PrimType\<rparr>) False (AInt 5) [0x83, 1, 5] []"
    by (simp only: TBLTypeDef.select_convs number_ber)
qed (simp add: table_in)

text \<open>C40: If the elements of a SET or the alternatives of a CHOICE pass the check of the compiler, the table decoder can tell them
  apart: there is no tag with which two of them may start, however it was referred to and in either form.\<close>

theorem table_tells_apart:
  assumes "represents tmpRefCount tds made mods tbl" and "references_end tds" and "sound_store tds"
    and "i \<in> set (in_table tds (all_defs mods))" and "parts (basicType (type (tds ! i))) = Some (kind, es)"
    and "HasDistinctTags k tds es = Inr True" and "sound_modules tds mods"
    and "list_all (\<lambda>e. \<forall>nm\<in>first_names tds e. proper_name nm) es"
  shows "\<exists>TD Es. deref tbl (TblFindTypeDefByIndex tbl (tmpRefCount i)) = Inr TD \<and> typeId (td_type TD) = kind \<and>
    content (td_type TD) = Elmts Es \<and> length Es = length es \<and>
    (\<forall>a. \<forall>m<length Es. \<forall>m'<length Es. starts tbl (Es ! m) a True \<and> starts tbl (Es ! m') a True \<longrightarrow> m' = m)"
  by (rule checked_starts_apart [OF assms])

lemma table_tells_apart_witness:
  "\<exists>TD Es. deref prepared_table (TblFindTypeDefByIndex prepared_table (example_ids 2)) = Inr TD \<and> typeId (td_type TD) = TBL_CHOICE \<and>
    content (td_type TD) = Elmts Es \<and> length Es = length two_alternatives \<and>
    (\<forall>a. \<forall>m<length Es. \<forall>m'<length Es. starts prepared_table (Es ! m) a True \<and> starts prepared_table (Es ! m') a True \<longrightarrow> m' = m)"
  by (rule table_tells_apart [OF table_represents table_types_end table_types_sound _ outer_parts outer_checked table_modules_sound outer_names])
    (simp add: table_in)

end
